(* ===== verification/Prelude.thy ===== *)
theory Prelude
  imports Complex_Main "HOL-Library.Char_ord" "HOL-Library.List_Lexorder" "HOL-Library.Multiset"
begin

text \<open>
  What every component of the development shares: the names of the model's basic
  types, the small part of the JavaScript standard library the source leans on
  (\<open>Math.round\<close>, \<open>Array.prototype.find\<close>, \<open>new Set\<close> over an array, a stable
  \<open>sort\<close>), and generic lemmas on lists.

  JavaScript numbers that hold counts, days and epoch milliseconds are \<open>int\<close>;
  numbers with a fraction (metres, minutes, seconds derived by division) are
  \<open>real\<close>, exact where the program rounds to a double.
\<close>

type_synonym millis = int

section \<open>Numbers\<close>

text \<open>\<open>Math.round\<close>: to the nearest integer, halves upwards.\<close>

definition js_round :: "real \<Rightarrow> int" where
  "js_round x = \<lfloor>x + 1 / 2\<rfloor>"

definition seconds_of :: "millis \<Rightarrow> real" where
  "seconds_of ms = of_int ms / 1000"

definition MS_PER_DAY :: int where
  "MS_PER_DAY = 86400000"

lemma js_round_of_int [simp]: "js_round (of_int n) = n"
  by (simp add: js_round_def floor_eq_iff)

lemma js_round_mono: "x \<le> y \<Longrightarrow> js_round x \<le> js_round y"
  by (simp add: js_round_def floor_mono)

lemma js_round_nonneg: "0 \<le> x \<Longrightarrow> 0 \<le> js_round x"
  by (simp add: js_round_def)

lemma js_round_seconds: "js_round (seconds_of ms) = (ms + 500) div 1000"
proof -
  have "seconds_of ms + 1 / 2 = real_of_int (ms + 500) / real_of_int 1000"
    by (simp add: seconds_of_def)
  then show ?thesis
    by (simp only: js_round_def floor_divide_of_int_eq)
qed

section \<open>Arrays\<close>

text \<open>
  \<open>Array.prototype.find\<close> is \<open>List.find\<close>. \<open>[...new Set(xs)]\<close> keeps the first
  occurrence of each element, in order: \<open>uniq\<close>. (\<open>remdups\<close> keeps the last.)
\<close>

fun uniq :: "'a list \<Rightarrow> 'a list" where
  "uniq [] = []"
| "uniq (x # xs) = x # filter (\<lambda>y. y \<noteq> x) (uniq xs)"

lemma set_uniq [simp]: "set (uniq xs) = set xs"
  by (induction xs) auto

lemma distinct_uniq [simp]: "distinct (uniq xs)"
  by (induction xs) auto

lemma uniq_distinct [simp]: "distinct xs \<Longrightarrow> uniq xs = xs"
proof (induction xs)
  case Nil
  then show ?case by simp
next
  case (Cons x xs)
  then have "filter (\<lambda>y. y \<noteq> x) xs = xs"
    by (auto simp: filter_id_conv)
  with Cons show ?case by simp
qed

lemma find_map: "find P (map f xs) = map_option f (find (P \<circ> f) xs)"
  by (induction xs) auto

lemma find_cong_set: "(\<And>x. x \<in> set xs \<Longrightarrow> P x = Q x) \<Longrightarrow> find P xs = find Q xs"
  by (induction xs) auto

lemma find_SomeD: "find P xs = Some x \<Longrightarrow> x \<in> set xs \<and> P x"
  by (induction xs) (auto split: if_splits)

lemma find_NoneD: "find P xs = None \<Longrightarrow> x \<in> set xs \<Longrightarrow> \<not> P x"
  by (simp add: find_None_iff)

lemma distinct_map_eqD: "distinct (map f xs) \<Longrightarrow> x \<in> set xs \<Longrightarrow> y \<in> set xs \<Longrightarrow> f x = f y \<Longrightarrow> x = y"
  by (simp add: distinct_map inj_on_def)

lemma distinct_map_filterI: "distinct (map f xs) \<Longrightarrow> distinct (map f (filter P xs))"
  by (auto simp: distinct_map inj_on_def)

text \<open>\<open>xs.map((x, index) => g index x)\<close>, read back field by field.\<close>

lemma set_enumerate_snd: "(i, y) \<in> set (enumerate n xs) \<Longrightarrow> y \<in> set xs"
  by (induction xs arbitrary: n) auto

lemma map_enumerate_value:
  "(\<And>i x. f (g i x) = h x) \<Longrightarrow> map f (map (\<lambda>(i, x). g i x) (enumerate n xs)) = map h xs"
  by (induction xs arbitrary: n) auto

lemma map_enumerate_index:
  "(\<And>i x. f (g i x) = Suc i) \<Longrightarrow> map f (map (\<lambda>(i, x). g i x) (enumerate n xs)) = [Suc n..<Suc n + length xs]"
proof (induction xs arbitrary: n)
  case (Cons x xs)
  have "[Suc n..<Suc n + length (x # xs)] = Suc n # [Suc (Suc n)..<Suc (Suc n) + length xs]"
    by (simp add: upt_conv_Cons del: upt_Suc)
  with Cons show ?case by (simp del: upt_Suc)
qed simp

lemma sorted_wrt_map_enumerate:
  "sorted_wrt (\<lambda>x y. P (g 0 x) (g 0 y)) xs \<Longrightarrow> (\<And>i j x y. P (g i x) (g j y) = P (g 0 x) (g 0 y)) \<Longrightarrow>
   sorted_wrt P (map (\<lambda>(i, x). g i x) (enumerate n xs))"
proof (induction xs arbitrary: n)
  case Nil
  then show ?case by simp
next
  case (Cons x xs)
  from Cons.prems(1) have "\<forall>y \<in> set xs. P (g 0 x) (g 0 y)"
    by simp
  then have "P (g n x) (g i y)" if "(i, y) \<in> set (enumerate (Suc n) xs)" for i y
    using set_enumerate_snd [OF that] Cons.prems(2) by blast
  moreover have "sorted_wrt P (map (\<lambda>(i, x). g i x) (enumerate (Suc n) xs))"
    using Cons.IH [of "Suc n"] Cons.prems by simp
  ultimately show ?case by auto
qed

text \<open>
  A stable sort by a comparator that answers \<open>negative\<close>, \<open>0\<close> or \<open>positive\<close>, as
  \<open>Array.prototype.sort\<close> has been since ES2019: insertion from the right, an
  element going before the ones it does not come after.
\<close>

fun insert_cmp :: "('a \<Rightarrow> 'a \<Rightarrow> int) \<Rightarrow> 'a \<Rightarrow> 'a list \<Rightarrow> 'a list" where
  "insert_cmp cmp x [] = [x]"
| "insert_cmp cmp x (y # ys) = (if cmp x y \<le> 0 then x # y # ys else y # insert_cmp cmp x ys)"

fun sort_cmp :: "('a \<Rightarrow> 'a \<Rightarrow> int) \<Rightarrow> 'a list \<Rightarrow> 'a list" where
  "sort_cmp cmp [] = []"
| "sort_cmp cmp (x # xs) = insert_cmp cmp x (sort_cmp cmp xs)"

lemma mset_insert_cmp [simp]: "mset (insert_cmp cmp x xs) = add_mset x (mset xs)"
  by (induction xs) auto

lemma mset_sort_cmp [simp]: "mset (sort_cmp cmp xs) = mset xs"
  by (induction xs) auto

lemma set_sort_cmp [simp]: "set (sort_cmp cmp xs) = set xs"
  by (metis mset_sort_cmp set_mset_mset)

lemma set_insert_cmp [simp]: "set (insert_cmp cmp x xs) = insert x (set xs)"
  by (metis mset_insert_cmp set_mset_add_mset_insert set_mset_mset)

lemma length_sort_cmp [simp]: "length (sort_cmp cmp xs) = length xs"
  by (metis mset_sort_cmp size_mset)

text \<open>
  What a comparator has to promise for the result to be sorted: it is a total
  preorder on the elements compared.
\<close>

locale comparator =
  fixes cmp :: "'a \<Rightarrow> 'a \<Rightarrow> int"
  assumes sign: "0 < cmp x y \<longleftrightarrow> cmp y x < 0"
    and trans: "cmp x y \<le> 0 \<Longrightarrow> cmp y z \<le> 0 \<Longrightarrow> cmp x z \<le> 0"
begin

lemma total: "\<not> cmp x y \<le> 0 \<Longrightarrow> cmp y x \<le> 0"
  using sign [of x y] by simp

lemma cmp_refl [simp]: "cmp x x = 0"
  using sign [of x x] by linarith

lemma sorted_insert_cmp:
  "sorted_wrt (\<lambda>x y. cmp x y \<le> 0) xs \<Longrightarrow> sorted_wrt (\<lambda>x y. cmp x y \<le> 0) (insert_cmp cmp x xs)"
proof (induction xs)
  case Nil
  then show ?case by simp
next
  case (Cons y ys)
  then show ?case
    using total [of x y] trans by auto
qed

lemma sorted_sort_cmp: "sorted_wrt (\<lambda>x y. cmp x y \<le> 0) (sort_cmp cmp xs)"
  by (induction xs) (auto intro: sorted_insert_cmp)

end

text \<open>
  Comparators built from others: by a key, and one after the other where the first says \<open>0\<close>.
\<close>

definition on_key :: "('a \<Rightarrow> 'b) \<Rightarrow> ('b \<Rightarrow> 'b \<Rightarrow> int) \<Rightarrow> 'a \<Rightarrow> 'a \<Rightarrow> int" where
  "on_key f cmp x y = cmp (f x) (f y)"

definition then_cmp :: "('a \<Rightarrow> 'a \<Rightarrow> int) \<Rightarrow> ('a \<Rightarrow> 'a \<Rightarrow> int) \<Rightarrow> 'a \<Rightarrow> 'a \<Rightarrow> int" where
  "then_cmp first second x y = (if first x y \<noteq> 0 then first x y else second x y)"

context comparator
begin

lemma zero_sym: "cmp x y = 0 \<Longrightarrow> cmp y x = 0"
  using sign [of x y] sign [of y x] by linarith

lemma trans_strict: "cmp x y < 0 \<Longrightarrow> cmp y z \<le> 0 \<Longrightarrow> cmp x z < 0"
  using trans [of y z x] sign [of z x] sign [of y x] by linarith

lemma trans_strict2: "cmp x y \<le> 0 \<Longrightarrow> cmp y z < 0 \<Longrightarrow> cmp x z < 0"
  using trans [of z x y] sign [of z x] sign [of z y] by linarith

lemma trans_zero: "cmp x y = 0 \<Longrightarrow> cmp y z = 0 \<Longrightarrow> cmp x z = 0"
  using trans [of x y z] trans [of z y x] zero_sym [of x y] zero_sym [of y z] sign [of z x] by force

lemma comparator_on_key: "comparator (on_key f cmp)"
  by unfold_locales (auto simp: on_key_def sign intro: trans)

end

text \<open>Two comparators on the same elements.\<close>

locale comparator_pair = c: comparator c + d: comparator d for c d :: "'a \<Rightarrow> 'a \<Rightarrow> int"
begin

lemma then_le_iff: "then_cmp c d x y \<le> 0 \<longleftrightarrow> c x y < 0 \<or> c x y = 0 \<and> d x y \<le> 0"
  by (auto simp: then_cmp_def)

lemma comparator_then: "comparator (then_cmp c d)"
proof
  fix x y z
  show "0 < then_cmp c d x y \<longleftrightarrow> then_cmp c d y x < 0"
    using c.sign [of x y] c.sign [of y x] d.sign [of x y] c.zero_sym [of x y] c.zero_sym [of y x]
    by (auto simp: then_cmp_def)
  show "then_cmp c d x z \<le> 0" if "then_cmp c d x y \<le> 0" "then_cmp c d y z \<le> 0"
    using that c.trans_strict [of x y z] c.trans_strict2 [of x y z] c.trans_zero [of x y z] d.trans [of x y z]
    unfolding then_le_iff by auto
qed

end

lemma comparator_then_cmp: "comparator c \<Longrightarrow> comparator d \<Longrightarrow> comparator (then_cmp c d)"
  by (rule comparator_pair.comparator_then) (rule comparator_pair.intro)

lemma then_cmp_eq_0_iff: "then_cmp c d x y = 0 \<longleftrightarrow> c x y = 0 \<and> d x y = 0"
  by (simp add: then_cmp_def)

lemma comparator_eq_0: "comparator c \<Longrightarrow> c x y \<le> 0 \<Longrightarrow> c y x \<le> 0 \<Longrightarrow> c x y = 0"
  using comparator.sign [of c x y] comparator.sign [of c y x] by linarith

text \<open>
  A comparator that says \<open>0\<close> only of equal elements (among those of a set \<open>A\<close>) leaves
  one answer: the order they arrived in is forgotten.
\<close>

locale strict_comparator = comparator cmp for cmp :: "'a \<Rightarrow> 'a \<Rightarrow> int" +
  fixes A :: "'a set"
  assumes antisym: "x \<in> A \<Longrightarrow> y \<in> A \<Longrightarrow> cmp x y \<le> 0 \<Longrightarrow> cmp y x \<le> 0 \<Longrightarrow> x = y"
begin

lemma sorted_unique:
  "sorted_wrt (\<lambda>x y. cmp x y \<le> 0) xs \<Longrightarrow> sorted_wrt (\<lambda>x y. cmp x y \<le> 0) ys \<Longrightarrow>
   mset xs = mset ys \<Longrightarrow> set xs \<subseteq> A \<Longrightarrow> xs = ys"
proof (induction xs arbitrary: ys)
  case Nil
  then show ?case by simp
next
  case (Cons x xs)
  then obtain y ys' where ys: "ys = y # ys'"
    by (cases ys) auto
  have sets: "set (x # xs) = set ys"
    using Cons.prems(3) by (metis set_mset_mset)
  then have "x \<in> set ys" "y \<in> set (x # xs)" "x \<in> A" "y \<in> A"
    using ys Cons.prems(4) by auto
  then have "x = y"
    using Cons.prems(1,2) ys antisym by auto
  then show ?case using Cons ys by simp
qed

lemma sort_order_independent: "mset xs = mset ys \<Longrightarrow> set xs \<subseteq> A \<Longrightarrow> sort_cmp cmp xs = sort_cmp cmp ys"
  by (rule sorted_unique) (auto intro: sorted_sort_cmp)

end

text \<open>Numbers compared by subtraction, the source's \<open>(a, b) => a - b\<close>.\<close>

definition by_number :: "int \<Rightarrow> int \<Rightarrow> int" where
  "by_number a b = a - b"

interpretation numbers: strict_comparator by_number UNIV
  by unfold_locales (auto simp: by_number_def)

text \<open>
  \<open>String.prototype.localeCompare\<close> depends on the runtime's collation table, so it is
  a parameter of the model: any comparator that calls only equal strings equal. The
  ordering by code units is one, and is what a runtime without a table falls back to.
\<close>

locale collation = strict_comparator lc UNIV for lc :: "string \<Rightarrow> string \<Rightarrow> int"
begin

lemma zero_iff: "lc a b = 0 \<longleftrightarrow> a = b"
proof
  assume "lc a b = 0"
  moreover have "lc b a \<le> 0"
    using sign [of b a] calculation by simp
  ultimately show "a = b"
    using antisym [of a b] by simp
qed simp

end

definition code_unit_compare :: "string \<Rightarrow> string \<Rightarrow> int" where
  "code_unit_compare a b = (if a < b then - 1 else if a = b then 0 else 1)"

interpretation code_units: collation code_unit_compare
  by unfold_locales (auto simp: code_unit_compare_def split: if_splits)

section \<open>Strings\<close>

text \<open>\<open>toLowerCase\<close> on the letters A to Z, and \<open>includes\<close>.\<close>

definition lower_char :: "char \<Rightarrow> char" where
  "lower_char c = (let n = of_char c :: nat in if 65 \<le> n \<and> n \<le> 90 then char_of (n + 32) else c)"

definition toLowerCase :: "string \<Rightarrow> string" where
  "toLowerCase s = map lower_char s"

fun starts_with :: "'a list \<Rightarrow> 'a list \<Rightarrow> bool" where
  "starts_with [] ys = True"
| "starts_with (x # xs) [] = False"
| "starts_with (x # xs) (y # ys) = (x = y \<and> starts_with xs ys)"

fun str_includes :: "'a list \<Rightarrow> 'a list \<Rightarrow> bool" where
  "str_includes [] part = (part = [])"
| "str_includes (x # xs) part = (starts_with part (x # xs) \<or> str_includes xs part)"

lemma starts_with_iff: "starts_with xs ys \<longleftrightarrow> (\<exists>zs. ys = xs @ zs)"
  by (induction xs ys rule: starts_with.induct) auto

lemma includes_iff: "str_includes s part \<longleftrightarrow> (\<exists>before after. s = before @ part @ after)"
proof (induction s)
  case Nil
  then show ?case by auto
next
  case (Cons x s)
  show ?case
    by (auto simp: starts_with_iff Cons) (metis append_Cons append_Nil append_eq_Cons_conv)+
qed

text \<open>\<open>String.prototype.trim\<close>, on the white space of ASCII.\<close>

definition is_space :: "char \<Rightarrow> bool" where
  "is_space c = (let n = of_char c :: nat in n = 32 \<or> (9 \<le> n \<and> n \<le> 13))"

definition js_trim :: "string \<Rightarrow> string" where
  "js_trim s = rev (dropWhile is_space (rev (dropWhile is_space s)))"

text \<open>\<open>String(n)\<close> for an integer.\<close>

definition digit :: "int \<Rightarrow> char" where
  "digit k = char_of (48 + nat k)"

fun digits :: "nat \<Rightarrow> string" where
  "digits n = (if n < 10 then [digit (int n)] else digits (n div 10) @ [digit (int (n mod 10))])"

declare digits.simps [simp del]

definition string_of_int :: "int \<Rightarrow> string" where
  "string_of_int k = (if k < 0 then ''-'' @ digits (nat (- k)) else digits (nat k))"

end
