(* ===== verification/Calendar.thy ===== *)
theory Calendar
  imports Prelude
begin

text \<open>
  The part of JavaScript's \<open>Date\<close> the planning code uses, in UTC: the day number of
  a year, month and day (\<open>Date.UTC\<close>), the fields of a day (\<open>getUTCFullYear\<close>,
  \<open>getUTCMonth\<close>, \<open>getUTCDate\<close>, \<open>getUTCDay\<close>) and the \<open>YYYY-MM-DD\<close> text
  (\<open>toISOString().slice(0, 10)\<close>). The definitions are those of ECMA-262, section
  Time Values and Time Range; \<open>yearFromDay\<close>, which the standard gives as a search,
  is computed from an estimate that is at most one year off.

  The planning code keeps calendar days as \<open>YYYY-MM-DD\<close> strings. The model keeps
  them as day numbers (\<open>day\<close>, days since 1970-01-01). \<open>isoDate\<close> is the text of a day; \<open>isoDate_less_iff\<close>
  and \<open>isoDate_inject\<close> show that the source's string comparisons are the order and
  the equality of day numbers for the years 0 to 9999, and \<open>isoDate_slices\<close> that
  the source's slices of the text are the fields of the day.
\<close>

type_synonym day = int

section \<open>Years\<close>

definition dayFromYear :: "int \<Rightarrow> int" where
  "dayFromYear y = 365 * (y - 1970) + (y - 1969) div 4 - (y - 1901) div 100 + (y - 1601) div 400"

definition leapYear :: "int \<Rightarrow> bool" where
  "leapYear y \<longleftrightarrow> (y mod 4 = 0 \<and> y mod 100 \<noteq> 0) \<or> y mod 400 = 0"

definition yearFromDay :: "int \<Rightarrow> int" where
  "yearFromDay d =
     (let y = 1970 + (400 * d) div 146097
      in if d < dayFromYear y then y - 1
         else if dayFromYear (y + 1) \<le> d then y + 1
         else y)"

lemma div_succ: "0 < n \<Longrightarrow> (a + 1) div n = a div n + (if (a + 1) mod n = 0 then 1 else 0)" for a n :: int
proof -
  assume n: "0 < n"
  define q where "q = (a+1) div n"
  define r where "r = (a+1) mod n"
  have e: "a = n * q + r - 1" using q_def r_def by (metis add_diff_cancel_right' mult_div_mod_eq)
  have r: "0 \<le> r" "r < n" using n r_def by auto
  show ?thesis
  proof (cases "r = 0")
    case True
    have "a = n * (q - 1) + (n - 1)" using e True by (simp add: algebra_simps)
    then have "a div n = q - 1" by (rule int_div_pos_eq) (use n in auto)
    then show ?thesis using True q_def r_def by simp
  next
    case False
    have "a = n * q + (r - 1)" using e by simp
    then have "a div n = q" by (rule int_div_pos_eq) (use r n False in auto)
    then show ?thesis using False q_def r_def by simp
  qed
qed

lemma div_bounds: "0 < n \<Longrightarrow> n * (a div n) \<le> a \<and> a < n * (a div n) + n" for a n :: int
  by (metis add_less_cancel_left le_add_same_cancel1 mult_div_mod_eq pos_mod_bound pos_mod_sign)

lemma dayFromYear_bounds:
  "400 * dayFromYear y \<le> 146097 * y - 287810501"
  "146097 * y - 287811596 \<le> 400 * dayFromYear y"
proof -
  define p q r where "p = (y - 1969) div 4" and "q = (y - 1901) div 100" and "r = (y - 1601) div 400"
  have p: "4 * p \<le> y - 1969" "y - 1972 \<le> 4 * p"
    unfolding p_def using div_bounds [of 4 "y - 1969"] by simp_all
  have q: "100 * q \<le> y - 1901" "y - 2000 \<le> 100 * q"
    unfolding q_def using div_bounds [of 100 "y - 1901"] by simp_all
  have r: "400 * r \<le> y - 1601" "y - 2000 \<le> 400 * r"
    unfolding r_def using div_bounds [of 400 "y - 1601"] by simp_all
  have e: "dayFromYear y = 365 * y - 719050 + p - q + r"
    by (simp add: dayFromYear_def p_def q_def r_def)
  from p q r e show "400 * dayFromYear y \<le> 146097 * y - 287810501"
    by linarith
  from p q r e show "146097 * y - 287811596 \<le> 400 * dayFromYear y"
    by linarith
qed

lemma mod_diff_iff: "(y - c) mod n = 0 \<longleftrightarrow> y mod n = c mod n" for y c n :: int
  by (metis dvd_eq_mod_eq_0 mod_eq_dvd_iff)

lemma leap_count:
  "a' = a + (if A then 1 else 0) \<Longrightarrow> b' = b + (if B then 1 else 0) \<Longrightarrow> c' = c + (if C then 1 else 0) \<Longrightarrow>
   (C \<Longrightarrow> B) \<Longrightarrow> (B \<Longrightarrow> A) \<Longrightarrow> 
   k + a' - b' + c' = k + a - b + c + (if (A \<and> \<not> B) \<or> C then 1 else (0::int))"
  by auto

lemma dayFromYear_Suc: "dayFromYear (y + 1) = dayFromYear y + (if leapYear y then 366 else 365)"
proof -
  have *: "365 * (y - 1969) + (y - 1968) div 4 - (y - 1900) div 100 + (y - 1600) div 400 =
    365 * (y - 1969) + (y - 1969) div 4 - (y - 1901) div 100 + (y - 1601) div 400 + (if leapYear y then 1 else 0)"
    unfolding leapYear_def
  proof (rule leap_count)
    show "(y - 1968) div 4 = (y - 1969) div 4 + (if y mod 4 = 0 then 1 else 0)"
      using div_succ [of 4 "y - 1969"] mod_diff_iff [of y 1968 4] by simp
    show "(y - 1900) div 100 = (y - 1901) div 100 + (if y mod 100 = 0 then 1 else 0)"
      using div_succ [of 100 "y - 1901"] mod_diff_iff [of y 1900 100] by simp
    show "(y - 1600) div 400 = (y - 1601) div 400 + (if y mod 400 = 0 then 1 else 0)"
      using div_succ [of 400 "y - 1601"] mod_diff_iff [of y 1600 400] by simp
    show "y mod 400 = 0 \<Longrightarrow> y mod 100 = 0" using mod_mod_cancel [of 100 400 y] by simp
    show "y mod 100 = 0 \<Longrightarrow> y mod 4 = 0" using mod_mod_cancel [of 4 100 y] by simp
  qed
  have "dayFromYear (y + 1) = 365 * (y - 1969) + (y - 1968) div 4 - (y - 1900) div 100 + (y - 1600) div 400"
    by (simp add: dayFromYear_def)
  then show ?thesis
    unfolding * dayFromYear_def by (simp only:) (simp split: if_split)
qed

lemma yearFromDay_bounds: "dayFromYear (yearFromDay d) \<le> d \<and> d < dayFromYear (yearFromDay d + 1)"
proof -
  define k where "k = (400 * d) div 146097"
  define y where "y = 1970 + k"
  have k: "146097 * k \<le> 400 * d" "400 * d < 146097 * k + 146097"
    unfolding k_def using div_bounds [of 146097 "400 * d"] by simp_all
  have "dayFromYear (y - 1) \<le> d"
    using dayFromYear_bounds(1) [of "y - 1"] k by (simp add: y_def)
  moreover have "d < dayFromYear (y + 2)"
    using dayFromYear_bounds(2) [of "y + 2"] k by (simp add: y_def)
  ultimately show ?thesis
    by (auto simp: yearFromDay_def Let_def y_def [unfolded k_def, symmetric] add.assoc)
qed

lemma dayFromYear_less: "y < z \<Longrightarrow> dayFromYear y + 365 \<le> dayFromYear z"
proof (induction z rule: int_gr_induct)
  case base
  then show ?case by (simp add: dayFromYear_Suc)
next
  case (step i)
  then show ?case by (simp add: dayFromYear_Suc)
qed

lemma yearFromDay_eqI: "dayFromYear y \<le> d \<Longrightarrow> d < dayFromYear (y + 1) \<Longrightarrow> yearFromDay d = y"
  using yearFromDay_bounds [of d] dayFromYear_less [of "yearFromDay d + 1" y] dayFromYear_less [of "y + 1" "yearFromDay d"]
   dayFromYear_less [of "yearFromDay d" y] dayFromYear_less [of y "yearFromDay d"]
  by (smt (verit))

lemma yearFromDay_unique: "dayFromYear y \<le> d \<and> d < dayFromYear (y + 1) \<longleftrightarrow> yearFromDay d = y"
  using yearFromDay_eqI yearFromDay_bounds by auto

lemma dayFromYear_le_mono: "y \<le> z \<Longrightarrow> dayFromYear y \<le> dayFromYear z"
  using dayFromYear_less [of y z] by (cases "y = z") auto

lemma yearFromDay_mono: "d \<le> e \<Longrightarrow> yearFromDay d \<le> yearFromDay e"
proof (rule ccontr)
  assume le: "d \<le> e" and "\<not> yearFromDay d \<le> yearFromDay e"
  then have "dayFromYear (yearFromDay e + 1) \<le> dayFromYear (yearFromDay d)"
    by (intro dayFromYear_le_mono) simp
  with le show False
    using yearFromDay_bounds [of d] yearFromDay_bounds [of e] by linarith
qed

section \<open>Months and days of the month\<close>

text \<open>Months count from 0, as in JavaScript.\<close>

definition daysBeforeMonth :: "bool \<Rightarrow> int \<Rightarrow> int" where
  "daysBeforeMonth leap m =
     [0, 31, 59, 90, 120, 151, 181, 212, 243, 273, 304, 334] ! nat m + (if leap \<and> 2 \<le> m then 1 else 0)"

definition daysInMonth :: "bool \<Rightarrow> int \<Rightarrow> int" where
  "daysInMonth leap m =
     (if m = 1 then (if leap then 29 else 28) else if m \<in> {3, 5, 8, 10} then 30 else 31)"

definition makeDay :: "int \<Rightarrow> int \<Rightarrow> int \<Rightarrow> int" where
  "makeDay y m d =
     (let y' = y + m div 12; m' = m mod 12
      in dayFromYear y' + daysBeforeMonth (leapYear y') m' + d - 1)"

definition dayInYear :: "int \<Rightarrow> int" where
  "dayInYear d = d - dayFromYear (yearFromDay d)"

definition monthFromDay :: "int \<Rightarrow> int" where
  "monthFromDay d =
     int (length (filter (\<lambda>m. daysBeforeMonth (leapYear (yearFromDay d)) m \<le> dayInYear d)
       [1, 2, 3, 4, 5, 6, 7, 8, 9, 10, 11]))"

definition dateFromDay :: "int \<Rightarrow> int" where
  "dateFromDay d = dayInYear d - daysBeforeMonth (leapYear (yearFromDay d)) (monthFromDay d) + 1"

definition weekDay :: "int \<Rightarrow> int" where
  "weekDay d = (d + 4) mod 7"

lemma dayInYear_bounds: "0 \<le> dayInYear d" "dayInYear d < (if leapYear (yearFromDay d) then 366 else 365)"
  using yearFromDay_bounds [of d] by (auto simp: dayInYear_def dayFromYear_Suc)

lemma months_cases: "0 \<le> m \<Longrightarrow> m \<le> 11 \<Longrightarrow> m \<in> {0, 1, 2, 3, 4, 5, 6, 7, 8, 9, 10, 11::int}"
  by (simp, presburger)

lemma month_search:
  assumes "0 \<le> n" "n < (if leap then 366 else 365)"
  defines "m \<equiv> int (length (filter (\<lambda>m. daysBeforeMonth leap m \<le> n) [1, 2, 3, 4, 5, 6, 7, 8, 9, 10, 11]))"
  shows "0 \<le> m \<and> m \<le> 11 \<and> daysBeforeMonth leap m \<le> n \<and> n < daysBeforeMonth leap m + daysInMonth leap m"
  using assms(1,2) unfolding m_def
  by (cases leap) (simp_all add: daysBeforeMonth_def daysInMonth_def eval_nat_numeral split: if_split)


lemma field_bounds:
  shows month_nonneg: "0 \<le> monthFromDay d" and month_le: "monthFromDay d \<le> 11"
    and date_ge: "1 \<le> dateFromDay d"
    and date_le: "dateFromDay d \<le> daysInMonth (leapYear (yearFromDay d)) (monthFromDay d)"
proof -
  have *: "0 \<le> monthFromDay d \<and> monthFromDay d \<le> 11 \<and>
    daysBeforeMonth (leapYear (yearFromDay d)) (monthFromDay d) \<le> dayInYear d \<and>
    dayInYear d < daysBeforeMonth (leapYear (yearFromDay d)) (monthFromDay d) +
      daysInMonth (leapYear (yearFromDay d)) (monthFromDay d)"
    unfolding monthFromDay_def by (rule month_search) (rule dayInYear_bounds)+
  then show "0 \<le> monthFromDay d" and "monthFromDay d \<le> 11" by simp_all
  from * show "1 \<le> dateFromDay d"
    and "dateFromDay d \<le> daysInMonth (leapYear (yearFromDay d)) (monthFromDay d)"
    by (simp_all add: dateFromDay_def)
qed

text \<open>The fields of a day give the day back, and the fields of a proper date are the ones it was made from.\<close>

lemma makeDay_fields: "makeDay (yearFromDay d) (monthFromDay d) (dateFromDay d) = d"
  using month_nonneg [of d] month_le [of d] by (simp add: makeDay_def dateFromDay_def dayInYear_def)

definition proper_date :: "int \<Rightarrow> int \<Rightarrow> int \<Rightarrow> bool" where
  "proper_date y m d \<longleftrightarrow> 0 \<le> m \<and> m \<le> 11 \<and> 1 \<le> d \<and> d \<le> daysInMonth (leapYear y) m"

lemma proper_offset:
  assumes "proper_date y m d"
  shows "0 \<le> daysBeforeMonth (leapYear y) m + d - 1"
    and "daysBeforeMonth (leapYear y) m + d - 1 < (if leapYear y then 366 else 365)"
    and "int (length (filter (\<lambda>k. daysBeforeMonth (leapYear y) k \<le> daysBeforeMonth (leapYear y) m + d - 1)
       [1, 2, 3, 4, 5, 6, 7, 8, 9, 10, 11])) = m"
proof -
  have m: "m \<in> {0, 1, 2, 3, 4, 5, 6, 7, 8, 9, 10, 11}"
    using assms months_cases by (simp add: proper_date_def)
  have d: "1 \<le> d" "d \<le> daysInMonth (leapYear y) m"
    using assms by (simp_all add: proper_date_def)
  from m d show "0 \<le> daysBeforeMonth (leapYear y) m + d - 1"
    by (cases "leapYear y"; auto simp: daysBeforeMonth_def eval_nat_numeral)
  from m d show "daysBeforeMonth (leapYear y) m + d - 1 < (if leapYear y then 366 else 365)"
    by (cases "leapYear y"; auto simp: daysBeforeMonth_def daysInMonth_def eval_nat_numeral)
  from m d show "int (length (filter (\<lambda>k. daysBeforeMonth (leapYear y) k \<le> daysBeforeMonth (leapYear y) m + d - 1)
       [1, 2, 3, 4, 5, 6, 7, 8, 9, 10, 11])) = m"
    by (cases "leapYear y"; elim insertE emptyE; simp add: daysBeforeMonth_def daysInMonth_def eval_nat_numeral)
qed

lemma fields_makeDay:
  assumes "proper_date y m d"
  shows "yearFromDay (makeDay y m d) = y" "monthFromDay (makeDay y m d) = m" "dateFromDay (makeDay y m d) = d"
proof -
  have md: "makeDay y m d = dayFromYear y + (daysBeforeMonth (leapYear y) m + d - 1)"
    using assms by (simp add: makeDay_def proper_date_def)
  have "dayFromYear y \<le> makeDay y m d" "makeDay y m d < dayFromYear (y + 1)"
    using proper_offset [OF assms] by (simp_all add: md dayFromYear_Suc)
  then show y: "yearFromDay (makeDay y m d) = y"
    by (rule yearFromDay_eqI)
  have diy: "dayInYear (makeDay y m d) = daysBeforeMonth (leapYear y) m + d - 1"
    unfolding dayInYear_def y by (simp add: md)
  show m: "monthFromDay (makeDay y m d) = m"
    using proper_offset(3) [OF assms] by (simp add: monthFromDay_def y diy)
  show "dateFromDay (makeDay y m d) = d"
    by (simp add: dateFromDay_def y m diy)
qed

lemma weekDay_bounds: "0 \<le> weekDay d" "weekDay d < 7"
  by (simp_all add: weekDay_def)

lemma weekDay_add: "weekDay (d + k) = (weekDay d + k) mod 7"
  by (simp add: weekDay_def) presburger

section \<open>The order of days is the order of their fields\<close>

lemma daysBeforeMonth_mono:
  "0 \<le> m \<Longrightarrow> m < k \<Longrightarrow> k \<le> 11 \<Longrightarrow> daysBeforeMonth leap m + daysInMonth leap m \<le> daysBeforeMonth leap k"
proof -
  assume "0 \<le> m" "m < k" "k \<le> 11"
  moreover from this have "m \<in> {0, 1, 2, 3, 4, 5, 6, 7, 8, 9, 10, 11}" "k \<in> {0, 1, 2, 3, 4, 5, 6, 7, 8, 9, 10, 11}"
    by (intro months_cases; linarith)+
  ultimately show ?thesis
    by (elim insertE emptyE; simp add: daysBeforeMonth_def daysInMonth_def eval_nat_numeral)
qed

definition fields_less :: "int \<Rightarrow> int \<Rightarrow> bool" where
  "fields_less d e \<longleftrightarrow>
     yearFromDay d < yearFromDay e \<or>
     yearFromDay d = yearFromDay e \<and>
       (monthFromDay d < monthFromDay e \<or> monthFromDay d = monthFromDay e \<and> dateFromDay d < dateFromDay e)"

lemma day_of_fields:
  "d = dayFromYear (yearFromDay d) + daysBeforeMonth (leapYear (yearFromDay d)) (monthFromDay d) + dateFromDay d - 1"
  by (simp add: dateFromDay_def dayInYear_def)

lemma fields_less_imp_less:
  assumes "fields_less d e"
  shows "d < e"
proof -
  consider (year) "yearFromDay d < yearFromDay e"
    | (month) "yearFromDay d = yearFromDay e" "monthFromDay d < monthFromDay e"
    | (date) "yearFromDay d = yearFromDay e" "monthFromDay d = monthFromDay e" "dateFromDay d < dateFromDay e"
    using assms by (auto simp: fields_less_def)
  then show ?thesis
  proof cases
    case year
    then have "dayFromYear (yearFromDay d + 1) \<le> dayFromYear (yearFromDay e)"
      by (intro dayFromYear_le_mono) simp
    with yearFromDay_bounds [of d] yearFromDay_bounds [of e] show ?thesis by linarith
  next
    case month
    then have "daysBeforeMonth (leapYear (yearFromDay d)) (monthFromDay d) +
        daysInMonth (leapYear (yearFromDay d)) (monthFromDay d)
        \<le> daysBeforeMonth (leapYear (yearFromDay d)) (monthFromDay e)"
      using month_nonneg [of d] month_le [of e] by (intro daysBeforeMonth_mono) auto
    with date_le [of d] date_ge [of e] day_of_fields [of d] day_of_fields [of e] month(1)
    show ?thesis by (simp add: month(1))
  next
    case date
    with day_of_fields [of d] day_of_fields [of e] show ?thesis by simp
  qed
qed

lemma less_iff_fields_less: "d < e \<longleftrightarrow> fields_less d e"
proof
  assume "d < e"
  show "fields_less d e"
  proof (rule ccontr)
    assume "\<not> fields_less d e"
    then have "fields_less e d \<or> yearFromDay d = yearFromDay e \<and> monthFromDay d = monthFromDay e \<and> dateFromDay d = dateFromDay e"
      by (auto simp: fields_less_def)
    then have "e < d \<or> d = e"
      using fields_less_imp_less makeDay_fields by metis
    with \<open>d < e\<close> show False by simp
  qed
qed (rule fields_less_imp_less)

section \<open>The \<open>YYYY-MM-DD\<close> text of a day\<close>

fun dec :: "nat \<Rightarrow> int \<Rightarrow> string" where
  "dec 0 k = []"
| "dec (Suc n) k = digit (k div 10 ^ n) # dec n (k mod 10 ^ n)"

definition isoDate :: "day \<Rightarrow> string" where
  "isoDate d =
     (let y = yearFromDay d;
          monthAndDay = ''-'' @ dec 2 (monthFromDay d + 1) @ ''-'' @ dec 2 (dateFromDay d)
      in if 0 \<le> y \<and> y \<le> 9999 then dec 4 y @ monthAndDay
         else take 10 ((if y < 0 then ''-'' else ''+'') @ dec 6 \<bar>y\<bar> @ monthAndDay))"

definition common_era :: "int \<Rightarrow> bool" where
  "common_era d \<longleftrightarrow> 0 \<le> yearFromDay d \<and> yearFromDay d \<le> 9999"

lemma length_dec [simp]: "length (dec n k) = n"
  by (induction n arbitrary: k) auto

lemma of_char_digit: "0 \<le> k \<Longrightarrow> k < 10 \<Longrightarrow> of_char (digit k) = (48 + nat k)"
  by (simp add: digit_def)

lemma digit_less_iff: "0 \<le> a \<Longrightarrow> a < 10 \<Longrightarrow> 0 \<le> b \<Longrightarrow> b < 10 \<Longrightarrow> digit a < digit b \<longleftrightarrow> a < b"
  by (auto simp: less_char_def of_char_digit)

lemma digit_eq_iff: "0 \<le> a \<Longrightarrow> a < 10 \<Longrightarrow> 0 \<le> b \<Longrightarrow> b < 10 \<Longrightarrow> digit a = digit b \<longleftrightarrow> a = b"
  by (metis digit_less_iff less_irrefl linorder_neqE)

lemma div_pow_digit: "0 \<le> a \<Longrightarrow> a < 10 ^ Suc n \<Longrightarrow> 0 \<le> a div 10 ^ n \<and> a div 10 ^ n < 10" for a :: int
proof -
  assume a: "0 \<le> a" "a < 10 ^ Suc n"
  have p: "(0::int) < 10 ^ n" by simp
  have "10 ^ n * (a div 10 ^ n) \<le> a" using div_bounds [OF p] by simp
  also have "a < 10 ^ n * 10" using a(2) by (simp add: mult.commute)
  finally have "10 ^ n * (a div 10 ^ n) < 10 ^ n * 10" .
  with p have "a div 10 ^ n < 10" by (simp only: mult_less_cancel_left_pos)
  with a(1) show ?thesis by (simp add: pos_imp_zdiv_nonneg_iff)
qed

lemma less_div_mod_iff: "0 < p \<Longrightarrow> a < b \<longleftrightarrow> a div p < b div p \<or> a div p = b div p \<and> a mod p < b mod p" for a b p :: int
proof -
  assume p: "0 < p"
  have a: "a = p * (a div p) + a mod p" and b: "b = p * (b div p) + b mod p" by simp_all
  show ?thesis
  proof (cases "a div p" "b div p" rule: linorder_cases)
    case less
    then have "a < b" using p by (meson linorder_not_le zdiv_mono1)
    with less show ?thesis by simp
  next
    case equal
    with a b show ?thesis by (metis add_less_cancel_left less_irrefl)
  next
    case greater
    then have "b < a" using p by (meson linorder_not_le zdiv_mono1)
    with greater show ?thesis by simp
  qed
qed

lemma dec_less_iff:
  "0 \<le> a \<Longrightarrow> a < 10 ^ n \<Longrightarrow> 0 \<le> b \<Longrightarrow> b < 10 ^ n \<Longrightarrow> dec n a < dec n b \<longleftrightarrow> a < b"
proof (induction n arbitrary: a b)
  case 0
  then show ?case by simp
next
  case (Suc n)
  have "dec n (a mod 10 ^ n) < dec n (b mod 10 ^ n) \<longleftrightarrow> a mod 10 ^ n < b mod 10 ^ n"
    by (rule Suc.IH) simp_all
  then show ?case
    using Suc.prems div_pow_digit [of a n] div_pow_digit [of b n] less_div_mod_iff [of "10 ^ n" a b]
    by (simp add: digit_less_iff digit_eq_iff)
qed

lemma dec_inject:
  "0 \<le> a \<Longrightarrow> a < 10 ^ n \<Longrightarrow> 0 \<le> b \<Longrightarrow> b < 10 ^ n \<Longrightarrow> dec n a = dec n b \<longleftrightarrow> a = b"
  by (metis dec_less_iff less_irrefl linorder_neqE)

lemma append_less_iff:
  "length u = length v \<Longrightarrow> u @ xs < v @ ys \<longleftrightarrow> u < v \<or> u = v \<and> xs < ys" for u v :: "'a::linorder list"
  by (induction u v rule: list_induct2) auto

lemma date_le_31: "dateFromDay d \<le> 31"
  using date_le [of d] by (auto simp: daysInMonth_def split: if_splits)

lemma isoDate_less_iff:
  assumes "common_era d" "common_era e"
  shows "isoDate d < isoDate e \<longleftrightarrow> d < e"
proof -
  have "dec 4 (yearFromDay d) < dec 4 (yearFromDay e) \<longleftrightarrow> yearFromDay d < yearFromDay e"
    "dec 4 (yearFromDay d) = dec 4 (yearFromDay e) \<longleftrightarrow> yearFromDay d = yearFromDay e"
    using assms by (simp_all only: dec_less_iff dec_inject common_era_def) (simp_all add: dec_less_iff dec_inject)
  moreover have "dec 2 (monthFromDay d + 1) < dec 2 (monthFromDay e + 1) \<longleftrightarrow> monthFromDay d < monthFromDay e"
    "dec 2 (monthFromDay d + 1) = dec 2 (monthFromDay e + 1) \<longleftrightarrow> monthFromDay d = monthFromDay e"
    using month_nonneg [of d] month_le [of d] month_nonneg [of e] month_le [of e]
    by (auto simp: dec_less_iff dec_inject)
  moreover have "dec 2 (dateFromDay d) < dec 2 (dateFromDay e) \<longleftrightarrow> dateFromDay d < dateFromDay e"
    using date_ge [of d] date_le_31 [of d] date_ge [of e] date_le_31 [of e]
    by (simp add: dec_less_iff)
  ultimately show ?thesis
    unfolding less_iff_fields_less [of d e] fields_less_def
    using assms by (simp add: isoDate_def Let_def common_era_def append_less_iff)
qed

lemma isoDate_inject: "common_era d \<Longrightarrow> common_era e \<Longrightarrow> isoDate d = isoDate e \<longleftrightarrow> d = e"
  by (metis isoDate_less_iff less_irrefl linorder_neqE)

lemma isoDate_slices:
  assumes "common_era d"
  shows "take 4 (isoDate d) = dec 4 (yearFromDay d)"
    and "take 2 (drop 5 (isoDate d)) = dec 2 (monthFromDay d + 1)"
  using assms by (simp_all add: isoDate_def common_era_def)

section \<open>Instants\<close>

text \<open>The day an instant falls on in UTC, and the midnight a day begins with.\<close>

definition day_of :: "millis \<Rightarrow> day" where
  "day_of t = t div MS_PER_DAY"

definition midnight :: "day \<Rightarrow> millis" where
  "midnight d = d * MS_PER_DAY"

lemma day_of_midnight [simp]: "day_of (midnight d) = d"
  by (simp add: day_of_def midnight_def MS_PER_DAY_def)

lemma midnight_less_iff [simp]: "midnight d < midnight e \<longleftrightarrow> d < e"
  by (simp add: midnight_def MS_PER_DAY_def)

lemma midnight_le_iff [simp]: "midnight d \<le> midnight e \<longleftrightarrow> d \<le> e"
  by (simp add: midnight_def MS_PER_DAY_def)

lemma midnight_le_iff_day_of: "midnight d \<le> t \<longleftrightarrow> d \<le> day_of t"
proof
  assume "midnight d \<le> t"
  then have "midnight d div MS_PER_DAY \<le> t div MS_PER_DAY"
    by (rule zdiv_mono1) (simp add: MS_PER_DAY_def)
  then show "d \<le> day_of t" by (simp flip: day_of_def)
next
  assume "d \<le> day_of t"
  then have "midnight d \<le> midnight (day_of t)" by simp
  also have "\<dots> \<le> t"
    using div_bounds [of 86400000 t] by (simp add: midnight_def day_of_def MS_PER_DAY_def)
  finally show "midnight d \<le> t" .
qed

lemma day_of_midnight_add [simp]:
  "day_of (midnight d + k * MS_PER_DAY) = d + k" "day_of (midnight d - k * MS_PER_DAY) = d - k"
proof -
  have "midnight d + k * MS_PER_DAY = midnight (d + k)" "midnight d - k * MS_PER_DAY = midnight (d - k)"
    by (simp_all add: midnight_def algebra_simps)
  then show "day_of (midnight d + k * MS_PER_DAY) = d + k" "day_of (midnight d - k * MS_PER_DAY) = d - k"
    by simp_all
qed

lemma midnight_add_day [simp]:
  "midnight d + MS_PER_DAY = midnight (d + 1)" "midnight d - MS_PER_DAY = midnight (d - 1)"
  by (simp_all add: midnight_def algebra_simps)

lemma midnight_add_days:
  "midnight d + k * MS_PER_DAY = midnight (d + k)" "midnight d - k * MS_PER_DAY = midnight (d - k)"
  by (simp_all add: midnight_def algebra_simps)

end
