(* ===== verification/Quarter_Plan.thy ===== *)
theory Quarter_Plan
  imports Calendar
begin

text \<open>
  \<open>shared/src/contracts/quarter-plan.ts\<close>: quarter arithmetic, the US federal holidays,
  the days of a quarter somebody can be sent out on, and the order in which a quarter's
  tenancies are taken (\<open>carryForwardOrder\<close>).

  A \<open>Date\<close> is an instant in epoch milliseconds, a \<open>YYYY-MM-DD\<close> string a day number
  (theory Calendar). Years are four digits, so the source's test \<open>startsWith(year-)\<close>
  is equality of years.
\<close>

section \<open>Quarters\<close>

record quarter =
  q_year :: int
  q_number :: int

definition DEFAULT_PLANNING_LEAD_DAYS :: int where
  "DEFAULT_PLANNING_LEAD_DAYS = 14"

definition date_UTC :: "int \<Rightarrow> int \<Rightarrow> int \<Rightarrow> millis" where
  "date_UTC y m d = midnight (makeDay y m d)"

definition quarterOf :: "millis \<Rightarrow> quarter" where
  "quarterOf date =
     \<lparr>q_year = yearFromDay (day_of date), q_number = monthFromDay (day_of date) div 3 + 1\<rparr>"

definition quarterStart :: "quarter \<Rightarrow> millis" where
  "quarterStart q = date_UTC (q_year q) ((q_number q - 1) * 3) 1"

definition nextQuarter :: "quarter \<Rightarrow> quarter" where
  "nextQuarter q =
     (if q_number q = 4 then \<lparr>q_year = q_year q + 1, q_number = 1\<rparr>
      else \<lparr>q_year = q_year q, q_number = q_number q + 1\<rparr>)"

definition previousQuarter :: "quarter \<Rightarrow> quarter" where
  "previousQuarter q =
     (if q_number q = 1 then \<lparr>q_year = q_year q - 1, q_number = 4\<rparr>
      else \<lparr>q_year = q_year q, q_number = q_number q - 1\<rparr>)"

definition quarterEnd :: "quarter \<Rightarrow> millis" where
  "quarterEnd q = quarterStart (nextQuarter q)"

definition quarterLabel :: "quarter \<Rightarrow> string" where
  "quarterLabel q = ''Q'' @ string_of_int (q_number q) @ '' '' @ string_of_int (q_year q)"

definition sameQuarter :: "quarter \<Rightarrow> quarter \<Rightarrow> bool" where
  "sameQuarter a b \<longleftrightarrow> q_year a = q_year b \<and> q_number a = q_number b"

definition planningOpensOn :: "quarter \<Rightarrow> int \<Rightarrow> millis" where
  "planningOpensOn q leadDays = quarterStart q - leadDays * MS_PER_DAY"

definition quarterDueForPlanning :: "millis \<Rightarrow> int \<Rightarrow> quarter option" where
  "quarterDueForPlanning today leadDays =
     (let upcoming = nextQuarter (quarterOf today)
      in if planningOpensOn upcoming leadDays \<le> today \<and> today < quarterStart upcoming
         then Some upcoming else None)"

section \<open>Holidays\<close>

definition MONDAY :: int where "MONDAY = 1"
definition THURSDAY :: int where "THURSDAY = 4"

definition observed :: "millis \<Rightarrow> millis" where
  "observed time =
     (let weekday = weekDay (day_of time)
      in if weekday = 6 then time - MS_PER_DAY
         else if weekday = 0 then time + MS_PER_DAY
         else time)"

definition nthWeekday :: "int \<Rightarrow> int \<Rightarrow> int \<Rightarrow> int \<Rightarrow> millis" where
  "nthWeekday y month weekday n =
     (if n = - 1 then
        let last = date_UTC y (month + 1) 0
        in last - ((weekDay (day_of last) - weekday + 7) mod 7) * MS_PER_DAY
      else
        let first = date_UTC y month 1
        in first + ((weekday - weekDay (day_of first) + 7) mod 7 + (n - 1) * 7) * MS_PER_DAY)"

definition federal_dates :: "int \<Rightarrow> millis list" where
  "federal_dates y =
     [observed (date_UTC y 0 1),
      nthWeekday y 0 MONDAY 3,
      nthWeekday y 1 MONDAY 3,
      nthWeekday y 4 MONDAY (- 1),
      observed (date_UTC y 5 19),
      observed (date_UTC y 6 4),
      nthWeekday y 8 MONDAY 1,
      nthWeekday y 9 MONDAY 2,
      observed (date_UTC y 10 11),
      nthWeekday y 10 THURSDAY 4,
      observed (date_UTC y 11 25),
      observed (date_UTC (y + 1) 0 1)]"

definition usFederalHolidays :: "int \<Rightarrow> day list" where
  "usFederalHolidays y = sort (filter (\<lambda>date. yearFromDay date = y) (map day_of (federal_dates y)))"

section \<open>The days of a plan\<close>

definition quarterFirstDay :: "quarter \<Rightarrow> day" where
  "quarterFirstDay q = day_of (quarterStart q)"

definition monthOfQuarter :: "day \<Rightarrow> int" where
  "monthOfQuarter date = (monthFromDay date + 1 - 1) mod 3 + 1"

definition monthOfPlan :: "day \<Rightarrow> quarter option \<Rightarrow> int" where
  "monthOfPlan date q =
     (case q of
        None \<Rightarrow> monthOfQuarter date
      | Some q \<Rightarrow>
          if date < quarterFirstDay q then 1
          else if day_of (quarterEnd q) \<le> date then 3
          else monthOfQuarter date)"

definition PLAN_START_LEEWAY_DAYS :: int where
  "PLAN_START_LEEWAY_DAYS = 15"

definition planStartRange :: "quarter \<Rightarrow> day \<times> day" where
  "planStartRange q =
     (let first = quarterStart q
      in (day_of (first - PLAN_START_LEEWAY_DAYS * MS_PER_DAY),
          day_of (first + PLAN_START_LEEWAY_DAYS * MS_PER_DAY)))"

definition weekend :: "day \<Rightarrow> bool" where
  "weekend date \<longleftrightarrow> weekDay date = 0 \<or> weekDay date = 6"

definition closedDaysOfQuarter :: "quarter \<Rightarrow> day list \<Rightarrow> day option \<Rightarrow> day list" where
  "closedDaysOfQuarter q closedDays startsOn =
     (let start = (case startsOn of None \<Rightarrow> quarterFirstDay q | Some s \<Rightarrow> s);
          until = day_of (quarterEnd q);
          years = uniq [yearFromDay start, q_year q]
      in sort (filter (\<lambda>date. start \<le> date \<and> date < until \<and> \<not> weekend date)
           (uniq (concat (map usFederalHolidays years) @ closedDays))))"

function working_days_from :: "millis \<Rightarrow> millis \<Rightarrow> day set \<Rightarrow> day list" where
  "working_days_from cursor until shut =
     (if cursor < until then
        let rest = working_days_from (cursor + MS_PER_DAY) until shut
        in if weekend (day_of cursor) then rest
           else if day_of cursor \<in> shut then rest
           else day_of cursor # rest
      else [])"
  by pat_completeness auto
termination
  by (relation "measure (\<lambda>(cursor, until, shut). nat (until - cursor))") (auto simp: MS_PER_DAY_def)

declare working_days_from.simps [simp del]

definition workingDaysOfQuarter :: "quarter \<Rightarrow> day list \<Rightarrow> day option \<Rightarrow> day list" where
  "workingDaysOfQuarter q closedDays startsOn =
     working_days_from
       (case startsOn of None \<Rightarrow> quarterStart q | Some s \<Rightarrow> midnight s)
       (quarterEnd q)
       (set (closedDaysOfQuarter q closedDays startsOn))"

section \<open>Rotation\<close>

record rotation_candidate =
  rc_tenantExternalId :: string
  rc_zone :: "string option"
  rc_addressKey :: "string option"

record prior_rank =
  pr_tenantExternalId :: string
  pr_sequence :: int
  pr_technicianId :: "string option"
  pr_visitedOn :: "day option"
  pr_visitedMonth :: "int option"

datatype order_source = PRIOR_QUARTER | CARRIED_SKIP | NEW_ENROLLMENT

record ranked_stop =
  rs_tenantExternalId :: string
  rs_sequence :: nat
  rs_previousSequence :: "int option"
  rs_previousVisitOn :: "day option"
  rs_previousVisitMonth :: "int option"
  rs_orderSource :: order_source

definition MAX_CARRY_BACK_QUARTERS :: nat where
  "MAX_CARRY_BACK_QUARTERS = 4"

definition MAX_SAFE_INTEGER :: int where
  "MAX_SAFE_INTEGER = 9007199254740991"

record placed_candidate =
  pl_candidate :: rotation_candidate
  pl_carried :: "int option"
  pl_visitedOn :: "day option"
  pl_visitedMonth :: "int option"
  pl_depth :: int
  pl_source :: order_source

text \<open>A \<open>Map\<close> built from a list keeps the last entry of a key.\<close>

definition rank_map :: "prior_rank list \<Rightarrow> string \<rightharpoonup> prior_rank" where
  "rank_map quarter = map_of (rev (map (\<lambda>entry. (pr_tenantExternalId entry, entry)) quarter))"

fun find_depth :: "string \<Rightarrow> (string \<rightharpoonup> prior_rank) list \<Rightarrow> (nat \<times> prior_rank) option" where
  "find_depth t [] = None"
| "find_depth t (rank # ranks) =
     (case rank t of
        Some prior \<Rightarrow> Some (0, prior)
      | None \<Rightarrow> map_option (\<lambda>(depth, prior). (Suc depth, prior)) (find_depth t ranks))"

definition place_candidate :: "(string \<rightharpoonup> prior_rank) list \<Rightarrow> rotation_candidate \<Rightarrow> placed_candidate" where
  "place_candidate ranks candidate =
     (case find_depth (rc_tenantExternalId candidate) ranks of
        None \<Rightarrow>
          \<lparr>pl_candidate = candidate, pl_carried = None, pl_visitedOn = None, pl_visitedMonth = None,
           pl_depth = MAX_SAFE_INTEGER, pl_source = NEW_ENROLLMENT\<rparr>
      | Some (depth, prior) \<Rightarrow>
          \<lparr>pl_candidate = candidate, pl_carried = Some (pr_sequence prior),
           pl_visitedOn = pr_visitedOn prior, pl_visitedMonth = pr_visitedMonth prior,
           pl_depth = int depth,
           pl_source = (if depth = 0 then PRIOR_QUARTER else CARRIED_SKIP)\<rparr>)"

text \<open>The fallback for a missing zone or address is the code point U+FFFF, here in UTF-8.\<close>

definition LAST_CODE_POINT :: string where
  "LAST_CODE_POINT = [char_of (239::nat), char_of (191::nat), char_of (191::nat)]"

definition compareTieBreak ::
  "(string \<Rightarrow> string \<Rightarrow> int) \<Rightarrow> rotation_candidate \<Rightarrow> rotation_candidate \<Rightarrow> int" where
  "compareTieBreak lc left right =
     (let by_zone = lc (case rc_zone left of None \<Rightarrow> LAST_CODE_POINT | Some z \<Rightarrow> z)
                       (case rc_zone right of None \<Rightarrow> LAST_CODE_POINT | Some z \<Rightarrow> z);
          by_address = lc (case rc_addressKey left of None \<Rightarrow> LAST_CODE_POINT | Some a \<Rightarrow> a)
                          (case rc_addressKey right of None \<Rightarrow> LAST_CODE_POINT | Some a \<Rightarrow> a)
      in if by_zone \<noteq> 0 then by_zone
         else if by_address \<noteq> 0 then by_address
         else lc (rc_tenantExternalId left) (rc_tenantExternalId right))"

definition compare_placed ::
  "(string \<Rightarrow> string \<Rightarrow> int) \<Rightarrow> placed_candidate \<Rightarrow> placed_candidate \<Rightarrow> int" where
  "compare_placed lc left right =
     (let leftNew = pl_carried left = None; rightNew = pl_carried right = None
      in if leftNew \<noteq> rightNew then (if leftNew then 1 else - 1)
         else if \<not> leftNew \<and> \<not> rightNew \<and> pl_carried left \<noteq> pl_carried right
           then (case pl_carried left of None \<Rightarrow> 0 | Some a \<Rightarrow> a) - (case pl_carried right of None \<Rightarrow> 0 | Some b \<Rightarrow> b)
         else if pl_depth left \<noteq> pl_depth right then pl_depth right - pl_depth left
         else compareTieBreak lc (pl_candidate left) (pl_candidate right))"

definition ranked :: "nat \<Rightarrow> placed_candidate \<Rightarrow> ranked_stop" where
  "ranked index entry =
     \<lparr>rs_tenantExternalId = rc_tenantExternalId (pl_candidate entry),
      rs_sequence = Suc index,
      rs_previousSequence = pl_carried entry,
      rs_previousVisitOn = pl_visitedOn entry,
      rs_previousVisitMonth = pl_visitedMonth entry,
      rs_orderSource = pl_source entry\<rparr>"

definition placed_order ::
  "(string \<Rightarrow> string \<Rightarrow> int) \<Rightarrow> rotation_candidate list \<Rightarrow> prior_rank list list \<Rightarrow> placed_candidate list" where
  "placed_order lc candidates priorQuarters =
     (let lookback = take MAX_CARRY_BACK_QUARTERS priorQuarters;
          ranks = map rank_map lookback
      in sort_cmp (compare_placed lc) (map (place_candidate ranks) candidates))"

definition carryForwardOrder ::
  "(string \<Rightarrow> string \<Rightarrow> int) \<Rightarrow> rotation_candidate list \<Rightarrow> prior_rank list list \<Rightarrow> ranked_stop list" where
  "carryForwardOrder lc candidates priorQuarters =
     map (\<lambda>(index, entry). ranked index entry) (enumerate 0 (placed_order lc candidates priorQuarters))"

section \<open>Holidays fall on working weekdays of their own year\<close>

lemma day_of_observed:
  "day_of (observed (midnight d)) = (if weekDay d = 6 then d - 1 else if weekDay d = 0 then d + 1 else d)"
  by (simp add: observed_def)

lemma weekday_shift:
  assumes "0 \<le> w" "w < 7"
  shows "weekDay (d + ((w - weekDay d + 7) mod 7 + n * 7)) = w"
    and "weekDay (d - (weekDay d - w + 7) mod 7) = w"
proof -
  have "(w - weekDay d + 7) mod 7 = (w - weekDay d) mod 7" "(weekDay d - w + 7) mod 7 = (weekDay d - w) mod 7"
    by simp_all
  note drop7 = this
  have "weekDay (d + ((w - weekDay d + 7) mod 7 + n * 7)) = ((d + 4) + (w - (d + 4) mod 7) mod 7 + n * 7) mod 7"
    unfolding drop7 by (simp add: weekDay_def algebra_simps)
  also have "\<dots> = w mod 7" by (simp add: mod_simps)
  finally show "weekDay (d + ((w - weekDay d + 7) mod 7 + n * 7)) = w" using assms by simp
  have "weekDay (d - (weekDay d - w + 7) mod 7) = ((d + 4) - ((d + 4) mod 7 - w) mod 7) mod 7"
    unfolding drop7 by (simp add: weekDay_def algebra_simps)
  also have "\<dots> = w mod 7" by (simp add: mod_simps)
  finally show "weekDay (d - (weekDay d - w + 7) mod 7) = w" using assms by simp
qed

lemma weekDay_nthWeekday: "0 \<le> w \<Longrightarrow> w < 7 \<Longrightarrow> weekDay (day_of (nthWeekday y m w n)) = w"
  unfolding nthWeekday_def date_UTC_def Let_def
  by (simp only: day_of_midnight_add day_of_midnight weekday_shift if_distrib [of day_of] if_distrib [of weekDay] if_cancel)

lemma not_weekend_observed: "\<not> weekend (day_of (observed (midnight d)))"
proof -
  have "weekDay (d - 1) = (weekDay d - 1) mod 7" "weekDay (d + 1) = (weekDay d + 1) mod 7"
    using weekDay_add [of d "- 1"] weekDay_add [of d 1] by simp_all
  then show ?thesis by (simp add: day_of_observed weekend_def)
qed

lemma not_weekend_nthWeekday: "0 < w \<Longrightarrow> w < 6 \<Longrightarrow> \<not> weekend (day_of (nthWeekday y m w n))"
  by (simp add: weekend_def weekDay_nthWeekday)

lemma holiday_listed: "date \<in> set (usFederalHolidays y) \<Longrightarrow> date \<in> set (map day_of (federal_dates y))"
  unfolding usFederalHolidays_def set_sort by (metis (no_types, lifting) filter_is_subset in_mono)

lemma holiday_not_weekend: "date \<in> set (usFederalHolidays y) \<Longrightarrow> \<not> weekend date"
  using holiday_listed [of date y] unfolding federal_dates_def date_UTC_def
  by (auto simp: not_weekend_observed not_weekend_nthWeekday MONDAY_def THURSDAY_def)

lemma holiday_year: "date \<in> set (usFederalHolidays y) \<Longrightarrow> yearFromDay date = y"
  unfolding usFederalHolidays_def set_sort by simp

lemma sorted_usFederalHolidays: "sorted (usFederalHolidays y)"
  by (simp add: usFederalHolidays_def)

text \<open>A holiday on a Tuesday or a Wednesday is one of the fixed dates, observed where it falls.\<close>

definition fixed_dates :: "int \<Rightarrow> day list" where
  "fixed_dates y = [makeDay y 0 1, makeDay y 5 19, makeDay y 6 4, makeDay y 10 11, makeDay y 11 25]"

lemma midweek_observed:
  "weekDay (day_of (observed (midnight d))) \<in> {2, 3} \<Longrightarrow> day_of (observed (midnight d)) = d"
proof -
  have "weekDay (d - 1) = (weekDay d - 1) mod 7" "weekDay (d + 1) = (weekDay d + 1) mod 7"
    using weekDay_add [of d "- 1"] weekDay_add [of d 1] by simp_all
  moreover assume "weekDay (day_of (observed (midnight d))) \<in> {2, 3}"
  ultimately show ?thesis by (auto simp: day_of_observed split: if_splits)
qed

lemma midweek_nthWeekday:
  "w \<in> {1, 4} \<Longrightarrow> weekDay (day_of (nthWeekday y m w n)) \<notin> {2, 3}"
  using weekDay_nthWeekday [of w y m n] by auto

lemma midweek_holiday:
  assumes "date \<in> set (usFederalHolidays y)" "weekDay date \<in> {2, 3}"
  shows "date \<in> set (fixed_dates y)"
proof -
  have y: "yearFromDay date = y"
    using assms(1) by (rule holiday_year)
  from assms(1) have "date \<in> set (map day_of (federal_dates y))"
    by (rule holiday_listed)
  then have "date \<in> set (fixed_dates y) \<or> date = makeDay (y + 1) 0 1"
    using assms(2) midweek_observed midweek_nthWeekday
    unfolding federal_dates_def fixed_dates_def date_UTC_def MONDAY_def THURSDAY_def
    by (simp only: list.map set_simps insert_iff empty_iff) metis
  moreover have "date \<noteq> makeDay (y + 1) 0 1"
    using y fields_makeDay(1) [of "y + 1" 0 1] by (auto simp: proper_date_def daysInMonth_def)
  ultimately show ?thesis by simp
qed

lemma fixed_dates_apart:
  assumes "date \<in> set (fixed_dates y)"
  shows "date + 1 \<notin> set (fixed_dates z)"
proof -
  have shape: "\<exists>k \<in> {0, 169, 170, 184, 185, 314, 315, 358, 359}. d = dayFromYear w + k" if "d \<in> set (fixed_dates w)" for d w
    using that by (auto simp: fixed_dates_def makeDay_def daysBeforeMonth_def eval_nat_numeral split: if_splits)
  obtain k where k: "date = dayFromYear y + k" "k \<in> {0, 169, 170, 184, 185, 314, 315, 358, 359}"
    using shape [OF assms] by blast
  have "date \<in> set (fixed_dates y) \<Longrightarrow> date + 1 \<notin> set (fixed_dates y)"
    by (auto simp: fixed_dates_def makeDay_def daysBeforeMonth_def eval_nat_numeral split: if_splits)
  moreover have "yearFromDay date = y"
    by (rule yearFromDay_eqI) (use k in \<open>auto simp: dayFromYear_Suc\<close>)
  moreover have "yearFromDay (date + 1) = y"
    by (rule yearFromDay_eqI) (use k in \<open>auto simp: dayFromYear_Suc\<close>)
  moreover have "yearFromDay (date + 1) = z" if "date + 1 \<in> set (fixed_dates z)"
    using shape [OF that] by (intro yearFromDay_eqI) (auto simp: dayFromYear_Suc)
  ultimately show ?thesis
    using assms by metis
qed

text \<open>So a weekday that is not a holiday is never more than eight days away.\<close>

lemma midweek_near: "\<exists>k. 0 \<le> k \<and> k \<le> 6 \<and> weekDay (d + k) = 2"
  unfolding weekDay_def by presburger

lemma working_day_near:
  "\<exists>k. 0 \<le> k \<and> k \<le> 7 \<and> \<not> weekend (d + k) \<and> d + k \<notin> set (usFederalHolidays (yearFromDay (d + k)))"
proof -
  obtain k where k: "0 \<le> k" "k \<le> 6" "weekDay (d + k) = 2"
    using midweek_near by blast
  then have wed: "weekDay (d + k + 1) = 3"
    by (simp add: weekDay_add)
  show ?thesis
  proof (cases "d + k \<in> set (usFederalHolidays (yearFromDay (d + k)))")
    case False
    with k show ?thesis by (intro exI [of _ k]) (simp add: weekend_def)
  next
    case True
    then have "d + k \<in> set (fixed_dates (yearFromDay (d + k)))"
      using k(3) by (intro midweek_holiday) simp_all
    then have "d + k + 1 \<notin> set (fixed_dates (yearFromDay (d + k + 1)))"
      by (rule fixed_dates_apart)
    then have "d + k + 1 \<notin> set (usFederalHolidays (yearFromDay (d + k + 1)))"
      using wed midweek_holiday by blast
    with k wed show ?thesis
      by (intro exI [of _ "k + 1"]) (simp add: weekend_def add.assoc)
  qed
qed

section \<open>Quarters partition the calendar\<close>

definition proper_quarter :: "quarter \<Rightarrow> bool" where
  "proper_quarter q \<longleftrightarrow> 1 \<le> q_number q \<and> q_number q \<le> 4"

lemma proper_quarterOf: "proper_quarter (quarterOf t)"
  using month_nonneg [of "day_of t"] month_le [of "day_of t"]
  unfolding proper_quarter_def quarterOf_def by simp presburger

lemma proper_nextQuarter: "proper_quarter q \<Longrightarrow> proper_quarter (nextQuarter q)"
  by (auto simp: proper_quarter_def nextQuarter_def)

lemma quarterStart_midnight: "quarterStart q = midnight (quarterFirstDay q)"
  by (simp add: quarterFirstDay_def quarterStart_def date_UTC_def)

lemma next_previous: "proper_quarter q \<Longrightarrow> nextQuarter (previousQuarter q) = q"
  and previous_next: "proper_quarter q \<Longrightarrow> previousQuarter (nextQuarter q) = q"
  by (auto simp: proper_quarter_def nextQuarter_def previousQuarter_def)

lemma quarter_cases:
  assumes "proper_quarter q"
  obtains "q_number q = 1" | "q_number q = 2" | "q_number q = 3" | "q_number q = 4"
proof -
  have "q_number q = 1 \<or> q_number q = 2 \<or> q_number q = 3 \<or> q_number q = 4"
    using assms unfolding proper_quarter_def by linarith
  with that show ?thesis by blast
qed

lemma quarterFirstDay_eq:
  "q_number q = 1 \<Longrightarrow> quarterFirstDay q = dayFromYear (q_year q)"
  "q_number q = 2 \<Longrightarrow> quarterFirstDay q = dayFromYear (q_year q) + (if leapYear (q_year q) then 91 else 90)"
  "q_number q = 3 \<Longrightarrow> quarterFirstDay q = dayFromYear (q_year q) + (if leapYear (q_year q) then 182 else 181)"
  "q_number q = 4 \<Longrightarrow> quarterFirstDay q = dayFromYear (q_year q) + (if leapYear (q_year q) then 274 else 273)"
  by (simp_all add: quarterFirstDay_def quarterStart_def date_UTC_def makeDay_def daysBeforeMonth_def eval_nat_numeral)

lemma quarter_length: "proper_quarter q \<Longrightarrow> quarterFirstDay q + 90 \<le> quarterFirstDay (nextQuarter q) \<and>
    quarterFirstDay (nextQuarter q) \<le> quarterFirstDay q + 92"
  by (erule quarter_cases) (simp_all add: quarterFirstDay_eq nextQuarter_def dayFromYear_Suc)

lemma dayInYear_month:
  "daysBeforeMonth (leapYear (yearFromDay d)) (monthFromDay d) \<le> dayInYear d"
  "dayInYear d < daysBeforeMonth (leapYear (yearFromDay d)) (monthFromDay d) + daysInMonth (leapYear (yearFromDay d)) (monthFromDay d)"
  using date_ge [of d] date_le [of d] by (simp_all add: dateFromDay_def)

lemma quarter_month_days:
  assumes "m \<in> {0, 1, 2, 3, 4, 5, 6, 7, 8, 9, 10, 11}"
    and "daysBeforeMonth leap m \<le> n" "n < daysBeforeMonth leap m + daysInMonth leap m"
  shows "m div 3 = 0 \<longleftrightarrow> n < (if leap then 91 else 90)"
    and "m div 3 = 1 \<longleftrightarrow> (if leap then 91 else 90) \<le> n \<and> n < (if leap then 182 else 181)"
    and "m div 3 = 2 \<longleftrightarrow> (if leap then 182 else 181) \<le> n \<and> n < (if leap then 274 else 273)"
    and "m div 3 = 3 \<longleftrightarrow> (if leap then 274 else 273) \<le> n"
  using assms by (elim insertE emptyE; cases leap; simp add: daysBeforeMonth_def daysInMonth_def eval_nat_numeral)+

lemma quarterOf_iff:
  assumes "proper_quarter q"
  shows "quarterOf t = q \<longleftrightarrow> quarterStart q \<le> t \<and> t < quarterEnd q"
proof -
  let ?d = "day_of t" let ?y = "yearFromDay ?d" let ?leap = "leapYear ?y"
  have m: "monthFromDay ?d \<in> {0, 1, 2, 3, 4, 5, 6, 7, 8, 9, 10, 11}"
    by (rule months_cases [OF month_nonneg month_le])
  note months = quarter_month_days [OF m dayInYear_month]
  have days: "quarterStart q \<le> t \<and> t < quarterEnd q \<longleftrightarrow> quarterFirstDay q \<le> ?d \<and> ?d < quarterFirstDay (nextQuarter q)"
    by (simp add: quarterStart_midnight quarterEnd_def midnight_le_iff_day_of not_le [symmetric])
  have d: "?d = dayFromYear ?y + dayInYear ?d"
    by (simp add: dayInYear_def)
  have year: "?y = q_year q" if "quarterFirstDay q \<le> ?d" "?d < quarterFirstDay (nextQuarter q)"
    using assms that
    by (elim quarter_cases; intro yearFromDay_eqI)
      (simp_all add: quarterFirstDay_eq nextQuarter_def dayFromYear_Suc split: if_splits)
  have eq: "quarterOf t = q \<longleftrightarrow> ?y = q_year q \<and> monthFromDay ?d div 3 = q_number q - 1"
    by (cases q) (auto simp: quarterOf_def)
  show ?thesis
  proof (cases "?y = q_year q")
    case True
    have lo: "0 \<le> dayInYear ?d" and hi: "dayInYear ?d < (if ?leap then 366 else 365)"
      by (rule dayInYear_bounds)+
    have "monthFromDay ?d div 3 = q_number q - 1 \<longleftrightarrow>
        quarterFirstDay q \<le> dayFromYear ?y + dayInYear ?d \<and> dayFromYear ?y + dayInYear ?d < quarterFirstDay (nextQuarter q)"
      using assms
      by (elim quarter_cases)
        (use True lo hi in \<open>simp_all add: months quarterFirstDay_eq nextQuarter_def dayFromYear_Suc split: if_splits\<close>)
    with True d show ?thesis by (simp add: eq days)
  next
    case False
    with year show ?thesis by (auto simp: eq days)
  qed
qed

lemma quarterDueForPlanning_iff:
  assumes "proper_quarter q" "0 \<le> leadDays" "leadDays \<le> 90"
  shows "quarterDueForPlanning today leadDays = Some q \<longleftrightarrow>
    planningOpensOn q leadDays \<le> today \<and> today < quarterStart q"
proof -
  have prev: "proper_quarter (previousQuarter q)"
    using assms(1) by (auto simp: proper_quarter_def previousQuarter_def)
  have "quarterStart (previousQuarter q) \<le> today" if "planningOpensOn q leadDays \<le> today"
  proof -
    have "quarterFirstDay (previousQuarter q) \<le> quarterFirstDay q - leadDays"
      using quarter_length [OF prev] assms by (simp add: next_previous)
    then have "quarterStart (previousQuarter q) \<le> planningOpensOn q leadDays"
      by (simp add: planningOpensOn_def quarterStart_midnight midnight_add_days)
    with that show ?thesis by simp
  qed
  then have "quarterOf today = previousQuarter q" if "planningOpensOn q leadDays \<le> today" "today < quarterStart q"
    using that prev assms(1) by (simp add: quarterOf_iff quarterEnd_def next_previous)
  then show ?thesis
    using assms(1) by (auto simp: quarterDueForPlanning_def Let_def next_previous)
qed

section \<open>Working days\<close>

lemma working_days_from_eq:
  "working_days_from (midnight a) (midnight b) shut = filter (\<lambda>d. \<not> weekend d \<and> d \<notin> shut) [a..b - 1]"
proof (induction "nat (b - a)" arbitrary: a)
  case 0
  then show ?case by (subst working_days_from.simps) simp
next
  case (Suc n)
  have "working_days_from (midnight (a + 1)) (midnight b) shut = filter (\<lambda>d. \<not> weekend d \<and> d \<notin> shut) [a + 1..b - 1]"
    using Suc by simp
  moreover from Suc(2) have "a < b" by linarith
  ultimately show ?case
    by (subst working_days_from.simps) (simp add: upto_rec1 [of a] Let_def)
qed

definition plan_start :: "quarter \<Rightarrow> day option \<Rightarrow> day" where
  "plan_start q startsOn = (case startsOn of None \<Rightarrow> quarterFirstDay q | Some s \<Rightarrow> s)"

lemma workingDaysOfQuarter_eq:
  "workingDaysOfQuarter q closedDays startsOn =
     filter (\<lambda>d. \<not> weekend d \<and> d \<notin> set (closedDaysOfQuarter q closedDays startsOn))
       [plan_start q startsOn..quarterFirstDay (nextQuarter q) - 1]"
  by (auto simp: workingDaysOfQuarter_def plan_start_def quarterEnd_def quarterStart_midnight working_days_from_eq
      split: option.split)

lemma set_closedDaysOfQuarter:
  "set (closedDaysOfQuarter q closedDays startsOn) =
     {d. plan_start q startsOn \<le> d \<and> d < quarterFirstDay (nextQuarter q) \<and> \<not> weekend d \<and>
       (d \<in> set closedDays \<or> (\<exists>y \<in> {yearFromDay (plan_start q startsOn), q_year q}. d \<in> set (usFederalHolidays y)))}"
  by (auto simp: closedDaysOfQuarter_def Let_def plan_start_def quarterEnd_def quarterStart_midnight split: option.split)

lemma sorted_upto_int: "sorted_wrt (<) [a..b::int]"
  by (simp add: strict_sorted_iff)

lemma year_in_quarter:
  assumes "proper_quarter q" "quarterFirstDay q \<le> d" "d < quarterFirstDay (nextQuarter q)"
  shows "yearFromDay d = q_year q"
  using assms
  by (elim quarter_cases; intro yearFromDay_eqI)
    (simp_all add: quarterFirstDay_eq nextQuarter_def dayFromYear_Suc split: if_splits)

text \<open>A plan that starts within fifteen days of its quarter spans at most the year before.\<close>

lemma year_of_plan_day:
  assumes "proper_quarter q" "fst (planStartRange q) \<le> s" "s \<le> d" "d < quarterFirstDay (nextQuarter q)"
  shows "yearFromDay d \<in> {yearFromDay s, q_year q}"
proof (cases "quarterFirstDay q \<le> d")
  case True
  with year_in_quarter assms show ?thesis by simp
next
  case False
  have s: "quarterFirstDay q - 15 \<le> s"
    using assms(2) by (simp add: planStartRange_def Let_def PLAN_START_LEEWAY_DAYS_def quarterStart_midnight)
  have lo: "dayFromYear (q_year q - 1 + 1) = dayFromYear (q_year q - 1) + (if leapYear (q_year q - 1) then 366 else 365)"
    by (rule dayFromYear_Suc)
  show ?thesis
  proof (cases "dayFromYear (q_year q) \<le> s")
    case True
    with assms(3) False have "dayFromYear (q_year q) \<le> d" "d < dayFromYear (q_year q + 1)"
      using assms(1) by (auto elim!: quarter_cases simp: quarterFirstDay_eq dayFromYear_Suc split: if_splits)
    then show ?thesis using yearFromDay_eqI by simp
  next
    case before: False
    have q1: "q_number q = 1"
      using assms(1) s before by (auto elim!: quarter_cases simp: quarterFirstDay_eq split: if_splits)
    with False have "d < dayFromYear (q_year q)"
      by (simp add: quarterFirstDay_eq)
    moreover have "dayFromYear (q_year q - 1) \<le> s"
      using s q1 lo by (simp add: quarterFirstDay_eq split: if_splits)
    ultimately have "yearFromDay s = q_year q - 1" "yearFromDay d = q_year q - 1"
      using assms(3) before by (auto intro!: yearFromDay_eqI)
    then show ?thesis by simp
  qed
qed

lemma sorted_workingDaysOfQuarter: "sorted_wrt (<) (workingDaysOfQuarter q closedDays startsOn)"
  unfolding workingDaysOfQuarter_eq by (intro sorted_wrt_filter sorted_upto_int)

lemma set_workingDaysOfQuarter:
  assumes "proper_quarter q" and "fst (planStartRange q) \<le> plan_start q startsOn"
  shows "set (workingDaysOfQuarter q closedDays startsOn) =
      {d. plan_start q startsOn \<le> d \<and> d < quarterFirstDay (nextQuarter q) \<and>
        weekDay d \<notin> {0, 6} \<and> d \<notin> set (usFederalHolidays (yearFromDay d)) \<and> d \<notin> set closedDays}"
proof -
  have "d \<in> set (usFederalHolidays (yearFromDay d)) \<longleftrightarrow>
      (\<exists>y \<in> {yearFromDay (plan_start q startsOn), q_year q}. d \<in> set (usFederalHolidays y))"
    if "plan_start q startsOn \<le> d" "d < quarterFirstDay (nextQuarter q)" for d
    using year_of_plan_day [OF assms that] by (metis empty_iff holiday_year insert_iff)
  then show ?thesis
    by (auto simp: workingDaysOfQuarter_eq set_closedDaysOfQuarter weekend_def)
qed

section \<open>The rotation order\<close>

lemma find_depth_map_of: "find_depth t ranks = None \<longleftrightarrow> (\<forall>rank \<in> set ranks. rank t = None)"
  by (induction ranks) (auto split: option.splits)

definition zone_key :: "rotation_candidate \<Rightarrow> string" where
  "zone_key c = (case rc_zone c of None \<Rightarrow> LAST_CODE_POINT | Some z \<Rightarrow> z)"

definition address_key :: "rotation_candidate \<Rightarrow> string" where
  "address_key c = (case rc_addressKey c of None \<Rightarrow> LAST_CODE_POINT | Some a \<Rightarrow> a)"

definition carried_key :: "placed_candidate \<Rightarrow> int" where
  "carried_key p = (case pl_carried p of None \<Rightarrow> 0 | Some a \<Rightarrow> a)"

lemma compareTieBreak_eq:
  "compareTieBreak lc = then_cmp (on_key zone_key lc) (then_cmp (on_key address_key lc) (on_key rc_tenantExternalId lc))"
  by (simp add: fun_eq_iff compareTieBreak_def then_cmp_def on_key_def zone_key_def address_key_def Let_def)

lemma compare_placed_eq:
  "compare_placed lc =
     then_cmp (on_key (\<lambda>p. of_bool (pl_carried p = None)) by_number)
       (then_cmp (on_key carried_key by_number)
         (then_cmp (on_key (\<lambda>p. - pl_depth p) by_number) (on_key pl_candidate (compareTieBreak lc))))"
  by (auto simp: fun_eq_iff compare_placed_def then_cmp_def on_key_def by_number_def carried_key_def Let_def
      split: option.split)

definition keeps_order :: "ranked_stop \<Rightarrow> ranked_stop \<Rightarrow> bool" where
  "keeps_order a b \<longleftrightarrow>
     (case (rs_previousSequence a, rs_previousSequence b) of
        (Some p, Some q) \<Rightarrow> p \<le> q
      | (None, Some _) \<Rightarrow> False
      | _ \<Rightarrow> True)"

lemma compare_placed_keeps:
  "compare_placed lc x y \<le> 0 \<Longrightarrow>
   (case (pl_carried x, pl_carried y) of
      (Some p, Some q) \<Rightarrow> p \<le> q | (None, Some _) \<Rightarrow> False | _ \<Rightarrow> True)"
  by (cases "pl_carried x"; cases "pl_carried y") (auto simp: compare_placed_def Let_def split: if_splits)

context collation
begin

lemma comparator_compareTieBreak: "comparator (compareTieBreak lc)"
  unfolding compareTieBreak_eq by (intro comparator_then_cmp comparator_on_key)

lemma comparator_compare_placed: "comparator (compare_placed lc)"
  unfolding compare_placed_eq
  by (intro comparator_then_cmp numbers.comparator_on_key comparator.comparator_on_key comparator_compareTieBreak)

lemma compare_placed_same_tenant:
  "compare_placed lc x y = 0 \<Longrightarrow>
   rc_tenantExternalId (pl_candidate x) = rc_tenantExternalId (pl_candidate y)"
  unfolding compare_placed_eq compareTieBreak_eq
  by (simp only: then_cmp_eq_0_iff on_key_def zero_iff)

lemma rotation_order_independent:
  assumes "distinct (map rc_tenantExternalId candidates)" and "mset candidates = mset candidates'"
  shows "carryForwardOrder lc candidates priorQuarters = carryForwardOrder lc candidates' priorQuarters"
proof -
  let ?place = "place_candidate (map rank_map (take MAX_CARRY_BACK_QUARTERS priorQuarters))"
  have cand: "pl_candidate (?place c) = c" for c
    by (simp add: place_candidate_def split: option.split prod.split)
  have placed: "strict_comparator (compare_placed lc) (?place ` set candidates)"
  proof (intro strict_comparator.intro strict_comparator_axioms.intro comparator_compare_placed)
    fix x y
    assume "x \<in> ?place ` set candidates" "y \<in> ?place ` set candidates"
      and "compare_placed lc x y \<le> 0" "compare_placed lc y x \<le> 0"
    moreover from this have "compare_placed lc x y = 0"
      using comparator_eq_0 [OF comparator_compare_placed] by blast
    ultimately show "x = y"
      using assms(1) cand compare_placed_same_tenant by (metis (no_types, lifting) distinct_map_eqD imageE)
  qed
  have "sort_cmp (compare_placed lc) (map ?place candidates) = sort_cmp (compare_placed lc) (map ?place candidates')"
    using assms(2) by (intro strict_comparator.sort_order_independent [OF placed]) simp_all
  then show ?thesis
    by (simp add: carryForwardOrder_def placed_order_def)
qed

lemma sorted_placed_order:
  "sorted_wrt (\<lambda>x y. compare_placed lc x y \<le> 0) (placed_order lc candidates priorQuarters)"
  by (simp add: placed_order_def comparator.sorted_sort_cmp [OF comparator_compare_placed])

lemma rotation_keeps_order: "sorted_wrt keeps_order (carryForwardOrder lc candidates priorQuarters)"
  unfolding carryForwardOrder_def
proof (rule sorted_wrt_map_enumerate)
  show "sorted_wrt (\<lambda>x y. keeps_order (ranked 0 x) (ranked 0 y)) (placed_order lc candidates priorQuarters)"
    by (rule sorted_wrt_mono_rel [OF _ sorted_placed_order])
      (use compare_placed_keeps in \<open>simp add: keeps_order_def ranked_def\<close>)
qed (simp add: keeps_order_def ranked_def)

end

lemma pl_candidate_place [simp]: "pl_candidate (place_candidate ranks c) = c"
  by (simp add: place_candidate_def split: option.split prod.split)

lemma rotation_sequence:
  "map rs_sequence (carryForwardOrder lc candidates priorQuarters) = [1..<length candidates + 1]"
  unfolding carryForwardOrder_def
  by (subst map_enumerate_index) (simp_all add: ranked_def placed_order_def)

lemma rotation_tenants:
  "mset (map rs_tenantExternalId (carryForwardOrder lc candidates priorQuarters)) =
   mset (map rc_tenantExternalId candidates)"
  unfolding carryForwardOrder_def
  by (subst map_enumerate_value [where h = "rc_tenantExternalId \<circ> pl_candidate"])
    (simp_all add: ranked_def placed_order_def image_mset.compositionality comp_def)

section \<open>Properties\<close>

text \<open>A quarter's plan may be built on a day exactly when the day is inside the quarter's
  planning window: for any lead of at most ninety days, \<open>quarterDueForPlanning\<close> answers
  quarter \<open>q\<close> iff the instant is from \<open>q\<close>'s opening day on and before \<open>q\<close> begins.\<close>

theorem planning_window:
  assumes "proper_quarter q" "0 \<le> leadDays" "leadDays \<le> 90"
  shows "quarterDueForPlanning today leadDays = Some q \<longleftrightarrow>
    planningOpensOn q leadDays \<le> today \<and> today < quarterStart q"
  using assms by (rule quarterDueForPlanning_iff)

theorem planning_window_witness:
  "proper_quarter \<lparr>q_year = 2026, q_number = 4\<rparr> \<and>
   quarterDueForPlanning (date_UTC 2026 8 20) DEFAULT_PLANNING_LEAD_DAYS = Some \<lparr>q_year = 2026, q_number = 4\<rparr> \<and>
   quarterDueForPlanning (date_UTC 2026 8 10) DEFAULT_PLANNING_LEAD_DAYS \<noteq> Some \<lparr>q_year = 2026, q_number = 4\<rparr>"
proof -
  have q: "proper_quarter \<lparr>q_year = 2026, q_number = 4\<rparr>"
    by (simp add: proper_quarter_def)
  show ?thesis
    using q planning_window [OF q, of DEFAULT_PLANNING_LEAD_DAYS]
    by (simp add: DEFAULT_PLANNING_LEAD_DAYS_def planningOpensOn_def quarterStart_def date_UTC_def midnight_def
        makeDay_def dayFromYear_def daysBeforeMonth_def leapYear_def MS_PER_DAY_def eval_nat_numeral)
qed

text \<open>The days of a quarter somebody can be sent out on are exactly the weekdays from the
  plan's first day to the quarter's last that are neither a federal holiday as observed nor a
  day the office closed, in increasing order -- also for a plan that starts up to fifteen days
  before its quarter, and so possibly in the year before.\<close>

theorem working_days_exact:
  assumes "proper_quarter q" and "fst (planStartRange q) \<le> plan_start q startsOn"
  shows "set (workingDaysOfQuarter q closedDays startsOn) =
      {d. plan_start q startsOn \<le> d \<and> d < quarterFirstDay (nextQuarter q) \<and>
        weekDay d \<notin> {0, 6} \<and> d \<notin> set (usFederalHolidays (yearFromDay d)) \<and> d \<notin> set closedDays} \<and>
    sorted_wrt (<) (workingDaysOfQuarter q closedDays startsOn)"
  using set_workingDaysOfQuarter [OF assms] sorted_workingDaysOfQuarter by simp

theorem working_days_exact_witness:
  "set (workingDaysOfQuarter \<lparr>q_year = 2027, q_number = 1\<rparr> [] (Some 20819)) =
      {d. 20819 \<le> d \<and> d < quarterFirstDay \<lparr>q_year = 2027, q_number = 2\<rparr> \<and>
        weekDay d \<notin> {0, 6} \<and> d \<notin> set (usFederalHolidays (yearFromDay d))}"
proof -
  have "proper_quarter \<lparr>q_year = 2027, q_number = 1\<rparr>"
    by (simp add: proper_quarter_def)
  moreover have "fst (planStartRange \<lparr>q_year = 2027, q_number = 1\<rparr>) \<le> plan_start \<lparr>q_year = 2027, q_number = 1\<rparr> (Some 20819)"
    by (simp add: planStartRange_def Let_def PLAN_START_LEEWAY_DAYS_def quarterStart_midnight plan_start_def
        quarterFirstDay_eq dayFromYear_def)
  ultimately show ?thesis
    using working_days_exact [of "\<lparr>q_year = 2027, q_number = 1\<rparr>" "Some 20819" "[]"]
    by (simp add: plan_start_def nextQuarter_def)
qed

text \<open>C20. The rotation is a function of the set of tenancies: whatever order the database
  returns them in, a rebuild gives the same positions (the reason the last tie-break has to be
  total). Sequences are 1 to N, each tenancy is ranked once, and among tenancies with a history
  the order of their last known positions is kept, new enrolments after them.\<close>

theorem rotation_deterministic:
  assumes "collation lc" "distinct (map rc_tenantExternalId candidates)" "mset candidates = mset candidates'"
  shows "carryForwardOrder lc candidates prior = carryForwardOrder lc candidates' prior \<and>
    map rs_sequence (carryForwardOrder lc candidates prior) = [1..<length candidates + 1] \<and>
    mset (map rs_tenantExternalId (carryForwardOrder lc candidates prior)) = mset (map rc_tenantExternalId candidates) \<and>
    sorted_wrt keeps_order (carryForwardOrder lc candidates prior)"
  using collation.rotation_order_independent [OF assms] collation.rotation_keeps_order [OF assms(1)]
    rotation_sequence rotation_tenants by blast

theorem rotation_deterministic_witness:
  "carryForwardOrder code_unit_compare
      [\<lparr>rc_tenantExternalId = ''t1'', rc_zone = Some ''2'', rc_addressKey = None\<rparr>,
       \<lparr>rc_tenantExternalId = ''t2'', rc_zone = None, rc_addressKey = None\<rparr>]
      [[\<lparr>pr_tenantExternalId = ''t2'', pr_sequence = 1, pr_technicianId = None, pr_visitedOn = None, pr_visitedMonth = None\<rparr>]] =
    carryForwardOrder code_unit_compare
      [\<lparr>rc_tenantExternalId = ''t2'', rc_zone = None, rc_addressKey = None\<rparr>,
       \<lparr>rc_tenantExternalId = ''t1'', rc_zone = Some ''2'', rc_addressKey = None\<rparr>]
      [[\<lparr>pr_tenantExternalId = ''t2'', pr_sequence = 1, pr_technicianId = None, pr_visitedOn = None, pr_visitedMonth = None\<rparr>]]"
  by (rule rotation_deterministic [THEN conjunct1, OF code_units.collation_axioms]) simp_all

end
