(* ===== verification/Zone_Rotation.thy ===== *)
theory Zone_Rotation
  imports Quarter_Plan
begin

text \<open>
  \<open>shared/src/contracts/zone-rotation.ts\<close>: which days of a quarter carry planned visits,
  which Mondays are kept for rescheduled ones, and who works which zone on a planned day.
\<close>

section \<open>Zones\<close>

definition is_digit :: "char \<Rightarrow> bool" where
  "is_digit c \<longleftrightarrow> 48 \<le> (of_char c :: nat) \<and> (of_char c :: nat) \<le> 57"

text \<open>\<open>/\d+/.exec\<close>: the first run of digits. \<open>Number\<close> of such a run.\<close>

definition first_digits :: "string \<Rightarrow> string option" where
  "first_digits s =
     (case takeWhile is_digit (dropWhile (\<lambda>c. \<not> is_digit c) s) of [] \<Rightarrow> None | ds \<Rightarrow> Some ds)"

definition number_of_digits :: "string \<Rightarrow> int" where
  "number_of_digits ds = foldl (\<lambda>acc c. 10 * acc + int (of_char c - 48)) 0 ds"

definition zoneNumberOf :: "string option \<Rightarrow> string option" where
  "zoneNumberOf zone =
     map_option (\<lambda>ds. string_of_int (number_of_digits ds))
       (first_digits (case zone of None \<Rightarrow> '''' | Some z \<Rightarrow> z))"

definition NON_TBP_ZONES :: "string list" where
  "NON_TBP_ZONES = [''5'']"

definition isTbpZone :: "string option \<Rightarrow> bool" where
  "isTbpZone zone = (case zoneNumberOf zone of None \<Rightarrow> True | Some n \<Rightarrow> n \<notin> set NON_TBP_ZONES)"

text \<open>
  \<open>Number\<close> of a zone's label, which \<open>zoneNumberOf\<close> made: a run of digits, or empty. Anything else is
  \<open>NaN\<close>, nothing here, and the labels are compared as texts.
\<close>

definition zone_number :: "string \<Rightarrow> int option" where
  "zone_number s = (if list_all is_digit s then Some (number_of_digits s) else None)"

definition byZoneNumber :: "(string \<Rightarrow> string \<Rightarrow> int) \<Rightarrow> string \<Rightarrow> string \<Rightarrow> int" where
  "byZoneNumber lc left right =
     (case (zone_number left, zone_number right) of
        (Some a, Some b) \<Rightarrow> if a - b \<noteq> 0 then a - b else lc left right
      | _ \<Rightarrow> lc left right)"

section \<open>Weeks of a plan\<close>

definition weekStartOf :: "day \<Rightarrow> day" where
  "weekStartOf date = day_of (midnight date - ((weekDay date + 6) mod 7) * MS_PER_DAY)"

definition quarterWeekIndex :: "day \<Rightarrow> quarter \<Rightarrow> day option \<Rightarrow> int" where
  "quarterWeekIndex date q startsOn =
     (let first = (case startsOn of None \<Rightarrow> day_of (quarterStart q) | Some s \<Rightarrow> s);
          firstMonday = midnight (weekStartOf first)
      in (midnight date - firstMonday) div (7 * MS_PER_DAY))"

definition isRescheduleMonday :: "day \<Rightarrow> quarter \<Rightarrow> day option \<Rightarrow> bool" where
  "isRescheduleMonday date q startsOn \<longleftrightarrow> weekDay date = 1 \<and> 1 \<le> quarterWeekIndex date q startsOn"

definition plannedVisitDaysOfQuarter :: "quarter \<Rightarrow> day list \<Rightarrow> day option \<Rightarrow> day list" where
  "plannedVisitDaysOfQuarter q closedDays startsOn =
     filter (\<lambda>date. \<not> isRescheduleMonday date q startsOn) (workingDaysOfQuarter q closedDays startsOn)"

definition rescheduleMondaysOfQuarter :: "quarter \<Rightarrow> day list \<Rightarrow> day option \<Rightarrow> day list" where
  "rescheduleMondaysOfQuarter q closedDays startsOn =
     filter (\<lambda>date. isRescheduleMonday date q startsOn) (workingDaysOfQuarter q closedDays startsOn)"

section \<open>The circle\<close>

text \<open>JavaScript's \<open>%\<close> takes the sign of the dividend.\<close>

definition js_rem :: "int \<Rightarrow> int \<Rightarrow> int" where
  "js_rem a b = sgn a * (\<bar>a\<bar> mod \<bar>b\<bar>)"

lemma js_rem_nonneg: "0 \<le> a \<Longrightarrow> 0 < n \<Longrightarrow> js_rem a n = a mod n"
  by (cases "a = 0") (simp_all add: js_rem_def sgn_if)

lemma js_rem_neg: "a < 0 \<Longrightarrow> 0 < n \<Longrightarrow> js_rem a n = - ((- a) mod n)"
  by (simp add: js_rem_def sgn_if abs_if)

lemma js_rem_twice:
  assumes n: "0 < n"
  shows "js_rem (js_rem a n + n) n = a mod n"
proof (cases "0 \<le> a")
  case True
  then have "0 \<le> a mod n + n"
    using pos_mod_sign [OF n, of a] n by linarith
  with True n show ?thesis by (simp add: js_rem_nonneg)
next
  case False
  then have rem: "js_rem a n + n = n - (- a) mod n"
    using n by (simp add: js_rem_neg)
  moreover have "0 \<le> n - (- a) mod n"
    using pos_mod_bound [OF n, of "- a"] by simp
  ultimately have "js_rem (js_rem a n + n) n = (n - (- a) mod n) mod n"
    using n by (simp only: js_rem_nonneg)
  also have "\<dots> = a mod n"
    by (simp add: mod_simps)
  finally show ?thesis .
qed

fun zone_owners :: "string list \<Rightarrow> int \<Rightarrow> int \<Rightarrow> int \<Rightarrow> string list \<Rightarrow> (string \<rightharpoonup> string) \<Rightarrow> string \<rightharpoonup> string" where
  "zone_owners zones slots day position [] owners = owners"
| "zone_owners zones slots day position (technicianId # crew) owners =
     (let slot = js_rem (js_rem (position + day) slots + slots) slots;
          owners' = (if slot < int (length zones) then owners(zones ! nat slot \<mapsto> technicianId) else owners)
      in zone_owners zones slots day (position + 1) crew owners')"

definition dailyZoneTechnicians :: "string list \<Rightarrow> string list \<Rightarrow> int \<Rightarrow> string \<rightharpoonup> string" where
  "dailyZoneTechnicians crew zones day =
     (let slots = max (int (length crew)) (int (length zones))
      in if slots = 0 then Map.empty
         else zone_owners zones slots day 0 crew Map.empty)"

section \<open>Lemmas\<close>

lemma weekStartOf_eq: "weekStartOf date = date - (weekDay date + 6) mod 7"
  by (simp add: weekStartOf_def)

lemma weekDay_weekStartOf: "weekDay (weekStartOf date) = 1"
proof -
  have "(weekDay date + 6) mod 7 = (weekDay date - 1 + 7) mod 7" by (simp add: add.commute)
  then show ?thesis
    unfolding weekStartOf_eq using weekday_shift(2) [of 1 date] by simp
qed

lemma position_unique:
  assumes "(a + d) mod n = (b + d) mod n" "0 \<le> a" "a < n" "0 \<le> b" "b < n"
  shows "a = (b::int)"
proof -
  have "a mod n = b mod n"
    using assms(1) by (metis add_diff_cancel_right' mod_diff_left_eq)
  with assms show ?thesis by simp
qed

lemma zone_owners_iff:
  assumes "distinct zones" "z < length zones" "0 < slots" "0 \<le> position" "position + int (length crew) \<le> slots"
  shows "zone_owners zones slots day position crew owners (zones ! z) = Some t \<longleftrightarrow>
    (\<exists>i < length crew. (position + int i + day) mod slots = int z \<and> t = crew ! i) \<or>
    \<not> (\<exists>i < length crew. (position + int i + day) mod slots = int z) \<and> owners (zones ! z) = Some t"
  using assms(4,5)
proof (induction crew arbitrary: position owners)
  case Nil
  then show ?case by simp
next
  case (Cons c crew)
  let ?slot = "(position + day) mod slots"
  let ?owners = "if ?slot < int (length zones) then owners(zones ! nat ?slot \<mapsto> c) else owners"
  have slot: "0 \<le> ?slot" using assms(3) by simp
  have here: "?owners (zones ! z) = (if ?slot = int z then Some c else owners (zones ! z))"
    using assms(1,2) slot by (auto simp: nth_eq_iff_index_eq)
  have later: "(\<exists>i < length (c # crew). (position + int i + day) mod slots = int z \<and> P ((c # crew) ! i)) \<longleftrightarrow>
      ?slot = int z \<and> P c \<or> (\<exists>i < length crew. (position + 1 + int i + day) mod slots = int z \<and> P (crew ! i))" for P
    by (auto simp: Ex_less_Suc2 add.assoc)
  have alone: "\<not> (\<exists>i < length crew. (position + 1 + int i + day) mod slots = int z)" if "?slot = int z"
  proof
    assume "\<exists>i < length crew. (position + 1 + int i + day) mod slots = int z"
    then obtain i where i: "i < length crew" "(position + 1 + int i + day) mod slots = int z"
      by blast
    have "position = position + 1 + int i"
      by (rule position_unique [OF trans [OF that i(2) [symmetric]]]) (use i(1) Cons.prems in auto)
    then show False by simp
  qed
  have step: "zone_owners zones slots day position (c # crew) owners (zones ! z) =
      zone_owners zones slots day (position + 1) crew ?owners (zones ! z)"
    using assms(3) by (simp add: js_rem_twice Let_def)
  have rest: "zone_owners zones slots day (position + 1) crew ?owners (zones ! z) = Some t \<longleftrightarrow>
    (\<exists>i < length crew. (position + 1 + int i + day) mod slots = int z \<and> t = crew ! i) \<or>
    \<not> (\<exists>i < length crew. (position + 1 + int i + day) mod slots = int z) \<and> ?owners (zones ! z) = Some t"
    by (rule Cons.IH) (use Cons.prems in auto)
  show ?case
    unfolding step rest here using later [of "\<lambda>c. t = c"] later [of "\<lambda>_. True"] alone by auto
qed

lemma dailyZoneTechnicians_iff:
  fixes crew :: "string list"
  assumes "distinct zones" "z < length zones"
  defines "slots \<equiv> max (int (length crew)) (int (length zones))"
  shows "dailyZoneTechnicians crew zones day (zones ! z) = Some t \<longleftrightarrow>
    (\<exists>p < length crew. (int p + day) mod slots = int z \<and> t = crew ! p)"
proof -
  have pos: "0 < slots" and fits: "0 + int (length crew) \<le> slots"
    using assms(2) by (auto simp: slots_def)
  have "dailyZoneTechnicians crew zones day = zone_owners zones slots day 0 crew Map.empty"
    using pos by (simp add: dailyZoneTechnicians_def slots_def Let_def)
  then show ?thesis
    using zone_owners_iff [OF assms(1,2) pos _ fits, of day Map.empty t] by simp
qed

lemma plan_days_split:
  "set (plannedVisitDaysOfQuarter q closedDays startsOn) \<union> set (rescheduleMondaysOfQuarter q closedDays startsOn)
     = set (workingDaysOfQuarter q closedDays startsOn)"
  "set (plannedVisitDaysOfQuarter q closedDays startsOn) \<inter> set (rescheduleMondaysOfQuarter q closedDays startsOn) = {}"
  by (auto simp: plannedVisitDaysOfQuarter_def rescheduleMondaysOfQuarter_def)

lemma quarterWeekIndex_eq:
  "quarterWeekIndex date q startsOn = (date - weekStartOf (plan_start q startsOn)) div 7"
proof -
  have "quarterWeekIndex date q startsOn = ((date - weekStartOf (plan_start q startsOn)) * MS_PER_DAY) div (7 * MS_PER_DAY)"
    by (simp add: quarterWeekIndex_def plan_start_def quarterFirstDay_def Let_def midnight_def algebra_simps split: option.split)
  then show ?thesis
    by (simp add: MS_PER_DAY_def)
qed

section \<open>Properties\<close>

text \<open>The zones go round fairly: over as many planned days as there are slots on the
  circle, each crew member has each zone on exactly one of them.\<close>

theorem zones_go_round:
  assumes "distinct crew" "distinct zones" "p < length crew" "z < length zones"
  shows "\<exists>!day. 0 \<le> day \<and> day < max (int (length crew)) (int (length zones)) \<and>
    dailyZoneTechnicians crew zones day (zones ! z) = Some (crew ! p)"
proof -
  let ?slots = "max (int (length crew)) (int (length zones))"
  have bounds: "int z < ?slots" "int p < ?slots" "0 < ?slots"
    using assms by auto
  have iff: "dailyZoneTechnicians crew zones day (zones ! z) = Some (crew ! p) \<longleftrightarrow> (int p + day) mod ?slots = int z" for day
    using dailyZoneTechnicians_iff [OF assms(2,4), of crew day "crew ! p"] assms(1,3)
    by (auto simp: nth_eq_iff_index_eq)
  show ?thesis
    unfolding iff
  proof (rule ex1I [of _ "(int z - int p) mod ?slots"])
    have "(int p + (int z - int p) mod ?slots) mod ?slots = int z"
      using bounds by (simp add: mod_simps)
    then show "0 \<le> (int z - int p) mod ?slots \<and> (int z - int p) mod ?slots < ?slots \<and>
        (int p + (int z - int p) mod ?slots) mod ?slots = int z"
      using bounds by simp
  next
    fix day
    assume day: "0 \<le> day \<and> day < ?slots \<and> (int p + day) mod ?slots = int z"
    then have "(int z - int p) mod ?slots = (int p + day - int p) mod ?slots"
      by (metis mod_diff_left_eq)
    with day show "day = (int z - int p) mod ?slots" by simp
  qed
qed

theorem zones_go_round_witness:
  "\<exists>!day. 0 \<le> day \<and> day < 4 \<and>
    dailyZoneTechnicians [''Moses'', ''Kevin'', ''Emanuel''] [''1'', ''2'', ''3'', ''4''] day ''4'' = Some ''Kevin''"
  using zones_go_round [of "[''Moses'', ''Kevin'', ''Emanuel'']" "[''1'', ''2'', ''3'', ''4'']" 1 3]
  by (simp add: eval_nat_numeral)

text \<open>Planned visits and rescheduled ones never share a day: the working days of a plan
  are split in two, and a day is kept for rescheduled visits exactly when it is a Monday in
  the second calendar week of the plan or later.\<close>

theorem plan_days_partition:
  "set (plannedVisitDaysOfQuarter q closedDays startsOn) \<union> set (rescheduleMondaysOfQuarter q closedDays startsOn)
     = set (workingDaysOfQuarter q closedDays startsOn) \<and>
   set (plannedVisitDaysOfQuarter q closedDays startsOn) \<inter> set (rescheduleMondaysOfQuarter q closedDays startsOn) = {} \<and>
   set (rescheduleMondaysOfQuarter q closedDays startsOn) =
     {d \<in> set (workingDaysOfQuarter q closedDays startsOn).
        weekDay d = 1 \<and> weekStartOf (plan_start q startsOn) + 7 \<le> d}"
proof -
  have "1 \<le> quarterWeekIndex d q startsOn \<longleftrightarrow> weekStartOf (plan_start q startsOn) + 7 \<le> d" for d
    unfolding quarterWeekIndex_eq by presburger
  then have "set (rescheduleMondaysOfQuarter q closedDays startsOn) =
     {d \<in> set (workingDaysOfQuarter q closedDays startsOn).
        weekDay d = 1 \<and> weekStartOf (plan_start q startsOn) + 7 \<le> d}"
    by (simp add: rescheduleMondaysOfQuarter_def isRescheduleMonday_def)
  then show ?thesis
    by (intro conjI plan_days_split)
qed

end
