(* ===== verification/Lease_Schedule.thy ===== *)
theory Lease_Schedule
  imports Quarter_Plan
begin

text \<open>
  \<open>shared/src/leases/lease-inspections.ts\<close> and \<open>lease-expiry.ts\<close>: the move-outs and
  move-ins a lease calls for and the working days they are booked for, and what
  "expiring soon" means.
\<close>

section \<open>Lease expiry\<close>

definition LEASE_EXPIRING_SOON_DAYS :: int where
  "LEASE_EXPIRING_SOON_DAYS = 60"

text \<open>\<open>endDate\<close> is an instant, \<open>None\<close> for a missing or unreadable one.\<close>

definition daysUntilLeaseEnd :: "millis option \<Rightarrow> millis \<Rightarrow> int option" where
  "daysUntilLeaseEnd endDate now =
     (case endDate of
        None \<Rightarrow> None
      | Some e \<Rightarrow>
          let endDay = date_UTC (yearFromDay (day_of e)) (monthFromDay (day_of e)) (dateFromDay (day_of e));
              today = date_UTC (yearFromDay (day_of now)) (monthFromDay (day_of now)) (dateFromDay (day_of now))
          in Some (js_round (of_int (endDay - today) / of_int MS_PER_DAY)))"

datatype lease_expiry_status = EXPIRED | EXPIRING_SOON | ACTIVE | UNKNOWN

definition leaseExpiryStatus :: "millis option \<Rightarrow> millis \<Rightarrow> lease_expiry_status" where
  "leaseExpiryStatus endDate now =
     (case daysUntilLeaseEnd endDate now of
        None \<Rightarrow> UNKNOWN
      | Some days \<Rightarrow>
          if days < 0 then EXPIRED
          else if days \<le> LEASE_EXPIRING_SOON_DAYS then EXPIRING_SOON
          else ACTIVE)"

definition leaseExpiryLabel :: "millis option \<Rightarrow> millis \<Rightarrow> string" where
  "leaseExpiryLabel endDate now =
     (case daysUntilLeaseEnd endDate now of
        None \<Rightarrow> ''No end date''
      | Some days \<Rightarrow>
          if days < 0 then
            ''Ended '' @ string_of_int \<bar>days\<bar> @ '' day'' @ (if \<bar>days\<bar> = 1 then '''' else ''s'') @ '' ago''
          else if days = 0 then ''Ends today''
          else ''Ends in '' @ string_of_int days @ '' day'' @ (if days = 1 then '''' else ''s''))"

section \<open>The rules\<close>

definition MOVE_OUT_DAYS_AFTER_END :: int where "MOVE_OUT_DAYS_AFTER_END = 1"
definition MOVE_OUT_BOOKED_DAYS_AHEAD :: int where "MOVE_OUT_BOOKED_DAYS_AHEAD = 60"
definition MOVE_IN_DAYS_AFTER_LEAVING :: int where "MOVE_IN_DAYS_AFTER_LEAVING = 22"
definition MOVE_IN_BOOKED_DAYS_AHEAD :: int where "MOVE_IN_BOOKED_DAYS_AHEAD = 90"
definition MOVE_IN_GRACE_DAYS :: int where "MOVE_IN_GRACE_DAYS = 14"

lemmas lease_constants =
  MOVE_OUT_DAYS_AFTER_END_def MOVE_OUT_BOOKED_DAYS_AHEAD_def MOVE_IN_DAYS_AFTER_LEAVING_def
  MOVE_IN_BOOKED_DAYS_AHEAD_def MOVE_IN_GRACE_DAYS_def

datatype lease_inspection_kind = MOVE_OUT | MOVE_IN

definition BOOKED_DAYS_AHEAD :: "lease_inspection_kind \<Rightarrow> int" where
  "BOOKED_DAYS_AHEAD kind = (case kind of MOVE_OUT \<Rightarrow> MOVE_OUT_BOOKED_DAYS_AHEAD | MOVE_IN \<Rightarrow> MOVE_IN_BOOKED_DAYS_AHEAD)"

record lease_dates =
  ld_status :: "string option"
  ld_isActive :: bool
  ld_endDate :: "day option"
  ld_scheduledMoveOutDate :: "day option"
  ld_noticeGivenDate :: "day option"
  ld_droppedOn :: "day option"
  ld_renewed :: bool

record due_inspection =
  di_kind :: lease_inspection_kind
  di_dueOn :: day
  di_scheduledOn :: day

definition addDays :: "day \<Rightarrow> int \<Rightarrow> day" where
  "addDays date days = day_of (midnight date + days * MS_PER_DAY)"

definition isWorkingDay :: "day \<Rightarrow> bool" where
  "isWorkingDay date \<longleftrightarrow>
     (let weekday = weekDay date
      in weekday \<noteq> 0 \<and> weekday \<noteq> 6 \<and> date \<notin> set (usFederalHolidays (yearFromDay date)))"

lemma addDays_eq [simp]: "addDays date days = date + days"
  by (simp add: addDays_def)

lemma isWorkingDay_iff: "isWorkingDay d \<longleftrightarrow> \<not> weekend d \<and> d \<notin> set (usFederalHolidays (yearFromDay d))"
  by (auto simp: isWorkingDay_def weekend_def Let_def)

text \<open>The loop ends because a working day is never more than a week away (\<open>working_day_near\<close>).\<close>

definition days_to_working :: "day \<Rightarrow> nat" where
  "days_to_working d = (LEAST n. isWorkingDay (d + int n))"

lemma days_to_working: "isWorkingDay (d + int (days_to_working d))" and days_to_working_le: "days_to_working d \<le> 7"
proof -
  obtain k where k: "0 \<le> k" "k \<le> 7" "isWorkingDay (d + k)"
    using working_day_near [of d] by (auto simp: isWorkingDay_iff)
  then have *: "isWorkingDay (d + int (nat k))" by simp
  then show "isWorkingDay (d + int (days_to_working d))"
    unfolding days_to_working_def by (rule LeastI)
  have "days_to_working d \<le> nat k"
    unfolding days_to_working_def using * by (rule Least_le)
  with k show "days_to_working d \<le> 7" by simp
qed

lemma days_to_working_Suc: "\<not> isWorkingDay d \<Longrightarrow> days_to_working d = Suc (days_to_working (d + 1))"
proof -
  assume "\<not> isWorkingDay d"
  then have "(LEAST n. isWorkingDay (d + int n)) = Suc (LEAST n. isWorkingDay (d + int (Suc n)))"
    using days_to_working [of d] by (intro Least_Suc [where n = "days_to_working d"]) simp_all
  then show ?thesis
    by (simp add: days_to_working_def add.assoc)
qed

function workingDayOnOrAfter :: "day \<Rightarrow> day" where
  "workingDayOnOrAfter day = (if \<not> isWorkingDay day then workingDayOnOrAfter (addDays day 1) else day)"
  by pat_completeness auto
termination
  by (relation "measure days_to_working") (auto simp: days_to_working_Suc)

declare workingDayOnOrAfter.simps [simp del]

definition tenancyEndsOn :: "lease_dates \<Rightarrow> day option" where
  "tenancyEndsOn lease =
     (case ld_scheduledMoveOutDate lease of Some d \<Rightarrow> Some d | None \<Rightarrow> ld_endDate lease)"

definition status_text :: "lease_dates \<Rightarrow> string" where
  "status_text lease = toLowerCase (case ld_status lease of None \<Rightarrow> '''' | Some s \<Rightarrow> s)"

definition noticeGiven :: "lease_dates \<Rightarrow> bool" where
  "noticeGiven lease \<longleftrightarrow> ld_noticeGivenDate lease \<noteq> None \<or> str_includes (status_text lease) ''notice''"

definition tenantIsLeaving :: "lease_dates \<Rightarrow> bool" where
  "tenantIsLeaving lease =
     (if ld_renewed lease then False
      else if \<not> ld_isActive lease then True
      else noticeGiven lease \<or> str_includes (status_text lease) ''eviction'')"

definition leavingOn :: "lease_dates \<Rightarrow> day option" where
  "leavingOn lease =
     (let ends = tenancyEndsOn lease
      in case ld_droppedOn lease of
           Some dropped \<Rightarrow>
             if \<not> ld_isActive lease \<and> (case ends of None \<Rightarrow> True | Some e \<Rightarrow> dropped < e)
             then Some dropped else ends
         | None \<Rightarrow> ends)"

definition bookableDay :: "day \<Rightarrow> day \<Rightarrow> day" where
  "bookableDay dueOn today =
     (if dueOn < today then workingDayOnOrAfter (addDays today 1) else workingDayOnOrAfter dueOn)"

definition moveOutDueOn :: "lease_dates \<Rightarrow> day \<Rightarrow> day option" where
  "moveOutDueOn lease today =
     (case tenancyEndsOn lease of
        Some ends \<Rightarrow>
          if ld_isActive lease \<and> today \<le> ends then Some (addDays ends MOVE_OUT_DAYS_AFTER_END) else None
      | None \<Rightarrow> None)"

definition inspectionsDue :: "lease_dates \<Rightarrow> day \<Rightarrow> due_inspection list" where
  "inspectionsDue lease today =
     (case moveOutDueOn lease today of
        Some moveOut \<Rightarrow>
          if noticeGiven lease \<or> moveOut \<le> addDays today MOVE_OUT_BOOKED_DAYS_AHEAD
          then [\<lparr>di_kind = MOVE_OUT, di_dueOn = moveOut, di_scheduledOn = bookableDay moveOut today\<rparr>]
          else []
      | None \<Rightarrow> []) @
     (case (if tenantIsLeaving lease then leavingOn lease else None) of
        Some leaving \<Rightarrow>
          let dueOn = addDays leaving MOVE_IN_DAYS_AFTER_LEAVING
          in if dueOn \<le> addDays today MOVE_IN_BOOKED_DAYS_AHEAD \<and> addDays today (- MOVE_IN_GRACE_DAYS) \<le> dueOn
             then [\<lparr>di_kind = MOVE_IN, di_dueOn = dueOn, di_scheduledOn = bookableDay dueOn today\<rparr>]
             else []
      | None \<Rightarrow> [])"

section \<open>Spreading what is overdue\<close>

definition OVERDUE_PER_DAY :: nat where "OVERDUE_PER_DAY = 3"

record overdue_inspection =
  oi_key :: string
  oi_kind :: lease_inspection_kind
  oi_dueOn :: day

definition compare_overdue ::
  "(string \<Rightarrow> string \<Rightarrow> int) \<Rightarrow> overdue_inspection \<Rightarrow> overdue_inspection \<Rightarrow> int" where
  "compare_overdue lc =
     then_cmp (on_key (\<lambda>entry. isoDate (oi_dueOn entry)) lc) (on_key oi_key lc)"

fun spread_kind :: "nat \<Rightarrow> day \<Rightarrow> nat \<Rightarrow> overdue_inspection list \<Rightarrow> (string \<times> day) list" where
  "spread_kind perDay day taken [] = []"
| "spread_kind perDay day taken (entry # entries) =
     (if taken = perDay
      then (let day' = workingDayOnOrAfter (addDays day 1)
            in (oi_key entry, day') # spread_kind perDay day' 1 entries)
      else (oi_key entry, day) # spread_kind perDay day (taken + 1) entries)"

definition spread_of_kind ::
  "(string \<Rightarrow> string \<Rightarrow> int) \<Rightarrow> overdue_inspection list \<Rightarrow> day \<Rightarrow> nat \<Rightarrow> lease_inspection_kind \<Rightarrow> (string \<times> day) list" where
  "spread_of_kind lc overdue today perDay kind =
     spread_kind perDay (workingDayOnOrAfter (addDays today 1)) 0
       (sort_cmp (compare_overdue lc) (filter (\<lambda>entry. oi_kind entry = kind) overdue))"

definition spreadOverdue ::
  "(string \<Rightarrow> string \<Rightarrow> int) \<Rightarrow> overdue_inspection list \<Rightarrow> day \<Rightarrow> nat \<Rightarrow> string \<rightharpoonup> day" where
  "spreadOverdue lc overdue today perDay =
     foldl (\<lambda>days (key, day). days(key \<mapsto> day)) Map.empty
       (concat (map (spread_of_kind lc overdue today perDay) [MOVE_OUT, MOVE_IN]))"

section \<open>Working days\<close>

lemma workingDayOnOrAfter_eq: "workingDayOnOrAfter d = d + int (days_to_working d)"
proof (induction d rule: workingDayOnOrAfter.induct)
  case (1 d)
  show ?case
  proof (cases "isWorkingDay d")
    case True
    then have "days_to_working d = 0"
      unfolding days_to_working_def by (intro Least_eq_0) simp
    with True show ?thesis by (subst workingDayOnOrAfter.simps) simp
  next
    case False
    with 1 show ?thesis by (subst workingDayOnOrAfter.simps) (simp add: days_to_working_Suc)
  qed
qed

lemma workingDayOnOrAfter_working: "isWorkingDay (workingDayOnOrAfter d)"
  unfolding workingDayOnOrAfter_eq by (rule days_to_working)

lemma workingDayOnOrAfter_bounds: "d \<le> workingDayOnOrAfter d" "workingDayOnOrAfter d \<le> d + 7"
  using days_to_working_le [of d] by (simp_all add: workingDayOnOrAfter_eq)

lemma workingDayOnOrAfter_least: "d \<le> e \<Longrightarrow> isWorkingDay e \<Longrightarrow> workingDayOnOrAfter d \<le> e"
proof -
  assume "d \<le> e" "isWorkingDay e"
  then have "days_to_working d \<le> nat (e - d)"
    unfolding days_to_working_def by (intro Least_le) simp
  with \<open>d \<le> e\<close> show ?thesis by (simp add: workingDayOnOrAfter_eq)
qed

lemma workingDayOnOrAfter_mono: "d \<le> e \<Longrightarrow> workingDayOnOrAfter d \<le> workingDayOnOrAfter e"
  using workingDayOnOrAfter_bounds(1) [of e]
  by (intro workingDayOnOrAfter_least workingDayOnOrAfter_working) simp

lemma bookableDay_working: "isWorkingDay (bookableDay dueOn today)"
  by (simp add: bookableDay_def workingDayOnOrAfter_working)

lemma bookableDay_bounds: "today \<le> bookableDay dueOn today" "dueOn \<le> bookableDay dueOn today"
  using workingDayOnOrAfter_bounds(1) [of dueOn] workingDayOnOrAfter_bounds(1) [of "today + 1"]
  by (auto simp: bookableDay_def)

section \<open>Spreading\<close>

lemma keys_spread_kind: "map fst (spread_kind perDay day taken es) = map oi_key es"
  by (induction es arbitrary: day taken) (auto simp: Let_def)

lemma spread_kind_days:
  "isWorkingDay day \<Longrightarrow> (key, d) \<in> set (spread_kind perDay day taken es) \<Longrightarrow> isWorkingDay d \<and> day \<le> d"
proof (induction es arbitrary: day taken)
  case Nil
  then show ?case by simp
next
  case (Cons e es)
  have nxt: "isWorkingDay (workingDayOnOrAfter (day + 1))" "day \<le> workingDayOnOrAfter (day + 1)"
    using workingDayOnOrAfter_working workingDayOnOrAfter_bounds(1) [of "day + 1"] by auto
  show ?case
    using Cons.prems Cons.IH [OF nxt(1), of 1] Cons.IH [OF Cons.prems(1), of "taken + 1"] nxt
    by (auto simp: Let_def split: if_splits)
qed

lemma spread_kind_sorted: "isWorkingDay day \<Longrightarrow> sorted (map snd (spread_kind perDay day taken es))"
proof (induction es arbitrary: day taken)
  case Nil
  then show ?case by simp
next
  case (Cons e es)
  have w: "isWorkingDay (workingDayOnOrAfter (day + 1))"
    by (rule workingDayOnOrAfter_working)
  show ?case
    using Cons.IH [OF w, of 1] Cons.IH [OF Cons.prems, of "taken + 1"]
      spread_kind_days [OF w] spread_kind_days [OF Cons.prems]
    by (auto simp: Let_def)
qed

lemma spread_kind_count:
  "isWorkingDay day \<Longrightarrow> 1 \<le> perDay \<Longrightarrow> taken \<le> perDay \<Longrightarrow>
   length (filter (\<lambda>(key, d'). d' = d) (spread_kind perDay day taken es)) \<le> (if d = day then perDay - taken else perDay)"
proof (induction es arbitrary: day taken)
  case Nil
  then show ?case by simp
next
  case (Cons e es)
  let ?next = "workingDayOnOrAfter (day + 1)"
  have w: "isWorkingDay ?next" and later: "day < ?next"
    using workingDayOnOrAfter_working workingDayOnOrAfter_bounds(1) [of "day + 1"] by auto
  have none: "filter (\<lambda>(key, d'). d' = day) (spread_kind perDay ?next 1 es) = []"
    using spread_kind_days [OF w, of _ day perDay 1 es] later by (fastforce simp: filter_empty_conv)
  show ?case
    using Cons.IH [OF w Cons.prems(2) Cons.prems(2)] Cons.IH [OF Cons.prems(1,2), of "taken + 1"] Cons.prems(2,3) later none
    by (cases "taken = perDay"; cases "d = day") (auto simp: Let_def Suc_le_eq)
qed

text \<open>
  The order the overdue ones are taken in compares \<open>YYYY-MM-DD\<close> strings by
  \<open>localeCompare\<close>: that this is the order of the days is a fact about the collation.
\<close>

locale iso_collation = collation lc for lc :: "string \<Rightarrow> string \<Rightarrow> int" +
  assumes iso_order: "common_era d \<Longrightarrow> common_era e \<Longrightarrow> lc (isoDate d) (isoDate e) \<le> 0 \<longleftrightarrow> d \<le> e"
begin

lemma comparator_compare_overdue: "comparator (compare_overdue lc)"
  unfolding compare_overdue_def by (intro comparator_then_cmp comparator_on_key)

lemma compare_overdue_due:
  assumes "compare_overdue lc a b \<le> 0" "common_era (oi_dueOn a)" "common_era (oi_dueOn b)"
  shows "oi_dueOn a \<le> oi_dueOn b"
proof -
  have "lc (isoDate (oi_dueOn a)) (isoDate (oi_dueOn b)) \<le> 0"
    using assms(1) by (auto simp: compare_overdue_def then_cmp_def on_key_def split: if_splits)
  with iso_order assms show ?thesis by simp
qed

lemma sorted_overdue:
  "sorted_wrt (\<lambda>a b. compare_overdue lc a b \<le> 0) (sort_cmp (compare_overdue lc) es)"
  by (rule comparator.sorted_sort_cmp [OF comparator_compare_overdue])

end

interpretation code_unit_dates: iso_collation code_unit_compare
proof
  fix d e
  assume "common_era d" "common_era e"
  then show "code_unit_compare (isoDate d) (isoDate e) \<le> 0 \<longleftrightarrow> d \<le> e"
    using isoDate_less_iff [of e d] isoDate_less_iff [of d e] isoDate_inject [of d e]
    by (auto simp: code_unit_compare_def)
qed

interpretation overdue_keys: comparator_pair
  "on_key (\<lambda>entry. isoDate (oi_dueOn entry)) code_unit_compare" "on_key oi_key code_unit_compare"
  by (intro comparator_pair.intro code_units.comparator_on_key)

lemma foldl_map_upd: "distinct (map fst ps) \<Longrightarrow> foldl (\<lambda>m (k, v). m(k \<mapsto> v)) m ps = m ++ map_of ps"
  by (induction ps arbitrary: m) (auto simp: map_add_upd_left dom_map_of_conv_image_fst)

lemma keys_spread_of_kind:
  "mset (map fst (spread_of_kind lc overdue today perDay kind)) =
   mset (map oi_key (filter (\<lambda>entry. oi_kind entry = kind) overdue))"
  by (simp add: spread_of_kind_def keys_spread_kind)

lemma kinds_split: "mset (map f (filter (\<lambda>entry. oi_kind entry = MOVE_OUT) es)) +
    mset (map f (filter (\<lambda>entry. oi_kind entry = MOVE_IN) es)) = mset (map f es)"
proof (induction es)
  case (Cons e es)
  then show ?case by (cases "oi_kind e") auto
qed simp

lemma spread_keys_distinct:
  assumes "distinct (map oi_key overdue)"
  shows "distinct (map fst (concat (map (spread_of_kind lc overdue today perDay) [MOVE_OUT, MOVE_IN])))"
proof -
  have "mset (map fst (concat (map (spread_of_kind lc overdue today perDay) [MOVE_OUT, MOVE_IN]))) = mset (map oi_key overdue)"
    using keys_spread_of_kind [of lc overdue today perDay] kinds_split [of oi_key overdue] by simp
  then show ?thesis
    using assms by (metis mset_eq_imp_distinct_iff)
qed

lemma spreadOverdue_map_of:
  assumes "distinct (map oi_key overdue)"
  shows "spreadOverdue lc overdue today perDay =
    map_of (concat (map (spread_of_kind lc overdue today perDay) [MOVE_OUT, MOVE_IN]))"
  unfolding spreadOverdue_def by (subst foldl_map_upd [OF spread_keys_distinct [OF assms]]) simp

lemma spreadOverdue_Some:
  assumes "distinct (map oi_key overdue)" "entry \<in> set overdue"
  shows "spreadOverdue lc overdue today perDay (oi_key entry) = Some d \<longleftrightarrow>
    (oi_key entry, d) \<in> set (spread_of_kind lc overdue today perDay (oi_kind entry))"
proof -
  let ?spread = "spread_of_kind lc overdue today perDay"
  have keys: "set (map fst (?spread kind)) = oi_key ` {e \<in> set overdue. oi_kind e = kind}" for kind
    using arg_cong [OF keys_spread_of_kind [of lc overdue today perDay kind], of set_mset] by simp
  have other: "(oi_key entry, d) \<notin> set (?spread kind)" if "kind \<noteq> oi_kind entry" for kind
  proof
    assume "(oi_key entry, d) \<in> set (?spread kind)"
    then have "oi_key entry \<in> set (map fst (?spread kind))" by force
    then obtain e where "e \<in> set overdue" "oi_kind e = kind" "oi_key e = oi_key entry"
      unfolding keys by auto
    with assms have "e = entry" by (intro distinct_map_eqD [of oi_key overdue]) auto
    with that \<open>oi_kind e = kind\<close> show False by simp
  qed
  have "spreadOverdue lc overdue today perDay (oi_key entry) = Some d \<longleftrightarrow>
      (oi_key entry, d) \<in> set (concat (map ?spread [MOVE_OUT, MOVE_IN]))"
    unfolding spreadOverdue_map_of [OF assms(1)] using spread_keys_distinct [OF assms(1)] by (rule map_of_eq_Some_iff)
  then show ?thesis
    using other by (cases "oi_kind entry") auto
qed

lemma spread_count:
  assumes "distinct (map oi_key overdue)" "1 \<le> perDay"
  shows "card {entry \<in> set overdue. oi_kind entry = kind \<and> spreadOverdue lc overdue today perDay (oi_key entry) = Some d} \<le> perDay"
proof -
  let ?spread = "spread_of_kind lc overdue today perDay kind"
  let ?on = "filter (\<lambda>(key, d'). d' = d) ?spread"
  let ?E = "{entry \<in> set overdue. oi_kind entry = kind \<and> spreadOverdue lc overdue today perDay (oi_key entry) = Some d}"
  have "inj_on oi_key ?E"
    using assms(1) by (auto simp: distinct_map inj_on_def)
  then have "card ?E = card (oi_key ` ?E)"
    by (rule card_image [symmetric])
  also have "\<dots> \<le> card (fst ` set ?on)"
  proof (rule card_mono)
    show "oi_key ` ?E \<subseteq> fst ` set ?on"
      using spreadOverdue_Some [OF assms(1)] by (force simp: image_iff)
  qed simp
  also have "\<dots> \<le> length ?on"
    by (metis card_image_le card_length finite_set le_trans)
  also have "\<dots> \<le> perDay"
  proof -
    have "length ?on \<le> (if d = workingDayOnOrAfter (today + 1) then perDay - 0 else perDay)"
      unfolding spread_of_kind_def addDays_eq
      by (rule spread_kind_count [OF workingDayOnOrAfter_working assms(2)]) simp
    then show ?thesis by (simp split: if_splits)
  qed
  finally show ?thesis .
qed

lemma spread_day:
  assumes "(key, d) \<in> set (spread_of_kind lc overdue today perDay kind)"
  shows "isWorkingDay d" "today < d"
proof -
  have "isWorkingDay d \<and> workingDayOnOrAfter (today + 1) \<le> d"
    using assms by (auto simp: spread_of_kind_def dest!: spread_kind_days [OF workingDayOnOrAfter_working])
  then show "isWorkingDay d" "today < d"
    using workingDayOnOrAfter_bounds(1) [of "today + 1"] by auto
qed

lemma spread_all:
  assumes "distinct (map oi_key overdue)" "entry \<in> set overdue"
  shows "\<exists>d. spreadOverdue lc overdue today perDay (oi_key entry) = Some d \<and> isWorkingDay d \<and> today < d"
proof -
  have "oi_key entry \<in> set (map fst (spread_of_kind lc overdue today perDay (oi_kind entry)))"
    using arg_cong [OF keys_spread_of_kind [of lc overdue today perDay "oi_kind entry"], of set_mset] assms(2) by auto
  then obtain d where "(oi_key entry, d) \<in> set (spread_of_kind lc overdue today perDay (oi_kind entry))"
    by auto
  with spreadOverdue_Some [OF assms] spread_day show ?thesis by blast
qed

section \<open>Properties\<close>

text \<open>The search for a working day always ends, within a week: it returns the first weekday
  from the given day on that is not a federal holiday.\<close>

theorem next_working_day:
  "isWorkingDay (workingDayOnOrAfter d) \<and> d \<le> workingDayOnOrAfter d \<and> workingDayOnOrAfter d \<le> d + 7 \<and>
   \<not> (\<exists>e. d \<le> e \<and> e < workingDayOnOrAfter d \<and> isWorkingDay e)"
  using workingDayOnOrAfter_working workingDayOnOrAfter_bounds workingDayOnOrAfter_least by fastforce

text \<open>What a lease calls for. A move-out only while the tenant is there and the tenancy has not
  ended: its day is the day after the tenancy ends, and it is booked once that day is at most sixty
  days ahead, or at once when notice was given. A move-in only for a tenant who is leaving: its day
  is twenty-two days after they go, at most ninety days ahead and at most two weeks past. Whatever
  is booked is on a working day, not before today and not before its own day.\<close>

theorem inspections_due:
  "due \<in> set (inspectionsDue lease today) \<longleftrightarrow>
     (\<exists>ends. tenancyEndsOn lease = Some ends \<and> ld_isActive lease \<and> today \<le> ends \<and>
        (noticeGiven lease \<or> ends + 1 \<le> today + 60) \<and>
        due = \<lparr>di_kind = MOVE_OUT, di_dueOn = ends + 1, di_scheduledOn = bookableDay (ends + 1) today\<rparr>) \<or>
     (\<exists>goes. tenantIsLeaving lease \<and> leavingOn lease = Some goes \<and>
        today - 14 \<le> goes + 22 \<and> goes + 22 \<le> today + 90 \<and>
        due = \<lparr>di_kind = MOVE_IN, di_dueOn = goes + 22, di_scheduledOn = bookableDay (goes + 22) today\<rparr>)"
  by (auto simp: inspectionsDue_def moveOutDueOn_def lease_constants Let_def split: option.splits if_splits)

text \<open>C38. Every inspection is booked for a working day that is neither before today nor before its
  own day, a lease has at most one of each kind, and a move-out is always booked after today.\<close>

theorem inspections_bookable:
  "distinct (map di_kind (inspectionsDue lease today)) \<and>
   list_all (\<lambda>due. isWorkingDay (di_scheduledOn due) \<and> today \<le> di_scheduledOn due \<and> di_dueOn due \<le> di_scheduledOn due \<and>
     (case di_kind due of MOVE_OUT \<Rightarrow> today < di_scheduledOn due | MOVE_IN \<Rightarrow> True)) (inspectionsDue lease today)"
proof -
  have "today < bookableDay (ends + 1) today" if "today \<le> ends" for ends
    using bookableDay_bounds(2) [of "ends + 1" today] that by linarith
  then show ?thesis
    using bookableDay_working bookableDay_bounds
    by (auto simp: inspectionsDue_def moveOutDueOn_def lease_constants Let_def split: option.split)
qed

text \<open>Overdue inspections are spread: each gets one working day after today, and no working day
  takes more than \<open>perDay\<close> of a kind, whatever collation the runtime compares the strings with.\<close>

theorem overdue_spread:
  assumes "distinct (map oi_key overdue)" "1 \<le> perDay"
  shows "(\<forall>entry \<in> set overdue. \<exists>d. spreadOverdue lc overdue today perDay (oi_key entry) = Some d \<and>
       isWorkingDay d \<and> today < d) \<and>
    (\<forall>kind d. card {entry \<in> set overdue. oi_kind entry = kind \<and>
       spreadOverdue lc overdue today perDay (oi_key entry) = Some d} \<le> perDay)"
  using spread_all [OF assms(1)] spread_count [OF assms] by blast

theorem overdue_spread_witness:
  "\<exists>d. spreadOverdue code_unit_compare [\<lparr>oi_key = ''lease-1:MOVE_IN'', oi_kind = MOVE_IN, oi_dueOn = 20700\<rparr>] 20706
     OVERDUE_PER_DAY ''lease-1:MOVE_IN'' = Some d \<and> isWorkingDay d \<and> 20706 < d"
  using overdue_spread [of "[\<lparr>oi_key = ''lease-1:MOVE_IN'', oi_kind = MOVE_IN, oi_dueOn = 20700\<rparr>]" OVERDUE_PER_DAY]
  by (simp add: OVERDUE_PER_DAY_def)

end
