(* ===== verification/Geo.thy ===== *)
theory Geo
  imports Prelude
begin

text \<open>
  \<open>haversineMeters\<close> of \<open>shared/src/contracts/route-plan.ts\<close>, over exact reals: a
  double's rounding, a few micrometres at these distances, is not modelled.
\<close>

record point =
  latitude :: real
  longitude :: real

definition EARTH_RADIUS_M :: real where
  "EARTH_RADIUS_M = 6371008.8"

definition toRadians :: "real \<Rightarrow> real" where
  "toRadians degrees = degrees * pi / 180"

definition haversine_term :: "point \<Rightarrow> point \<Rightarrow> real" where
  "haversine_term from to =
     (let lat1 = toRadians (latitude from);
          lat2 = toRadians (latitude to);
          deltaLat = lat2 - lat1;
          deltaLon = toRadians (longitude to - longitude from)
      in sin (deltaLat / 2) ^ 2 + cos lat1 * cos lat2 * sin (deltaLon / 2) ^ 2)"

definition haversineMeters :: "point \<Rightarrow> point \<Rightarrow> real" where
  "haversineMeters from to = 2 * EARTH_RADIUS_M * arcsin (min 1 (sqrt (haversine_term from to)))"

definition on_earth :: "point \<Rightarrow> bool" where
  "on_earth p \<longleftrightarrow> - 90 \<le> latitude p \<and> latitude p \<le> 90"

lemma cos_latitude_nonneg: "on_earth p \<Longrightarrow> 0 \<le> cos (toRadians (latitude p))"
proof -
  assume "on_earth p"
  then have "latitude p / 180 \<le> 1 / 2" "- (1 / 2) \<le> latitude p / 180"
    by (simp_all add: on_earth_def)
  then have "latitude p / 180 * pi \<le> 1 / 2 * pi" "- (1 / 2) * pi \<le> latitude p / 180 * pi"
    using pi_gt_zero by (simp_all only: mult_right_mono less_imp_le)
  then show ?thesis
    by (intro cos_ge_zero) (simp_all add: toRadians_def)
qed

lemma haversine_term_nonneg: "on_earth p \<Longrightarrow> on_earth q \<Longrightarrow> 0 \<le> haversine_term p q"
  by (simp add: haversine_term_def Let_def cos_latitude_nonneg)

lemma haversine_term_commute: "haversine_term p q = haversine_term q p"
proof -
  have "sin (x / 2) ^ 2 = sin (- x / 2) ^ 2" for x :: real
    by simp
  from this [of "toRadians (latitude q) - toRadians (latitude p)"] this [of "toRadians (longitude q - longitude p)"]
  show ?thesis
    by (simp add: haversine_term_def Let_def toRadians_def algebra_simps diff_divide_distrib)
qed

lemma haversineMeters_commute: "haversineMeters p q = haversineMeters q p"
  by (simp add: haversineMeters_def haversine_term_commute)

lemma haversineMeters_self [simp]: "haversineMeters p p = 0"
  by (simp add: haversineMeters_def haversine_term_def toRadians_def)

lemma haversineMeters_bounds:
  assumes "on_earth p" "on_earth q"
  shows "0 \<le> haversineMeters p q" and "haversineMeters p q \<le> pi * EARTH_RADIUS_M"
proof -
  define x where "x = min 1 (sqrt (haversine_term p q))"
  have x: "0 \<le> x" "x \<le> 1"
    using haversine_term_nonneg [OF assms] by (simp_all add: x_def)
  have "arcsin 0 \<le> arcsin x" "arcsin x \<le> arcsin 1"
    using x by (intro arcsin_le_arcsin; simp)+
  then have a: "0 \<le> arcsin x" "arcsin x \<le> pi / 2"
    by simp_all
  have r: "0 \<le> EARTH_RADIUS_M" by (simp add: EARTH_RADIUS_M_def)
  from a r show "0 \<le> haversineMeters p q"
    by (simp add: haversineMeters_def x_def [symmetric])
  have "2 * EARTH_RADIUS_M * arcsin x \<le> 2 * EARTH_RADIUS_M * (pi / 2)"
    using a r by (intro mult_left_mono) simp_all
  then show "haversineMeters p q \<le> pi * EARTH_RADIUS_M"
    by (simp add: haversineMeters_def x_def [symmetric] mult.commute)
qed

text \<open>Along a meridian the distance is the arc.\<close>

lemma haversineMeters_meridian:
  assumes "longitude p = longitude q" "\<bar>latitude q - latitude p\<bar> \<le> 180"
  shows "haversineMeters p q = EARTH_RADIUS_M * (\<bar>latitude q - latitude p\<bar> * pi / 180)"
proof -
  define x where "x = \<bar>latitude q - latitude p\<bar> * pi / 360"
  have "\<bar>latitude q - latitude p\<bar> * pi \<le> 180 * pi"
    using assms(2) by (intro mult_right_mono) simp_all
  then have x: "0 \<le> x" "x \<le> pi / 2"
    by (simp_all add: x_def)
  have sq: "sin t ^ 2 = sin \<bar>t\<bar> ^ 2" for t :: real
    by (simp add: abs_if)
  have zero: "toRadians 0 = 0"
    by (simp add: toRadians_def)
  have "haversine_term p q = sin ((toRadians (latitude q) - toRadians (latitude p)) / 2) ^ 2"
    using assms(1) zero by (simp add: haversine_term_def Let_def)
  also have "(toRadians (latitude q) - toRadians (latitude p)) / 2 = (latitude q - latitude p) * pi / 360"
    by (simp add: toRadians_def algebra_simps diff_divide_distrib)
  also have "sin ((latitude q - latitude p) * pi / 360) ^ 2 = sin x ^ 2"
    using sq [of "(latitude q - latitude p) * pi / 360"] by (simp add: x_def abs_mult)
  finally have "haversine_term p q = sin x ^ 2" .
  moreover have s: "0 \<le> sin x"
    using x by (intro sin_ge_zero) auto
  ultimately have "haversineMeters p q = 2 * EARTH_RADIUS_M * arcsin (sin x)"
    using sin_le_one [of x] by (simp add: haversineMeters_def min_absorb2)
  also have "arcsin (sin x) = x"
    using x by (intro arcsin_sin) auto
  finally show ?thesis
    by (simp add: x_def)
qed

end
