(* ===== verification/Day_Ledger.thy ===== *)
theory Day_Ledger
  imports Geo
begin

text \<open>
  \<open>shared/src/contracts/time-segments.ts\<close>: turning a technician's trail of location fixes
  into paid time. \<open>computeDayLedger\<close> reads a day's fixes against the geofences of the
  properties the technician is due at; \<open>withoutIntervals\<close> cuts out the hours a person has
  already decided; \<open>geofenceRadiusProblem\<close> is the rule a geofence has to meet.
\<close>

section \<open>Geofences\<close>

definition GEOFENCE_MIN_METERS :: int where "GEOFENCE_MIN_METERS = 10"
definition GEOFENCE_MAX_METERS :: int where "GEOFENCE_MAX_METERS = 500"

definition is_integer :: "real \<Rightarrow> bool" where
  "is_integer x \<longleftrightarrow> of_int \<lfloor>x\<rfloor> = x"

definition radius_problem :: "string \<Rightarrow> real \<Rightarrow> string option" where
  "radius_problem what v =
     (if \<not> is_integer v then Some (''Give the '' @ what @ '' distance in whole metres.'')
      else if v < of_int GEOFENCE_MIN_METERS \<or> of_int GEOFENCE_MAX_METERS < v
        then Some (''The '' @ what @ '' distance has to be between '' @ string_of_int GEOFENCE_MIN_METERS @
          '' and '' @ string_of_int GEOFENCE_MAX_METERS @ '' metres.'')
      else None)"

definition geofenceRadiusProblem :: "real \<Rightarrow> real \<Rightarrow> string option" where
  "geofenceRadiusProblem enterRadiusMeters exitRadiusMeters =
     (case radius_problem ''arrival'' enterRadiusMeters of
        Some problem \<Rightarrow> Some problem
      | None \<Rightarrow>
          (case radius_problem ''departure'' exitRadiusMeters of
             Some problem \<Rightarrow> Some problem
           | None \<Rightarrow>
               if exitRadiusMeters \<le> enterRadiusMeters
               then Some ''The departure distance has to be larger than the arrival distance, or the clock will start and stop every time a position wobbles.''
               else None))"

record day_fence =
  fence_id :: string
  fence_at :: point
  enterRadiusMeters :: real
  exitRadiusMeters :: real

record segment_fix =
  fix_at :: point
  accuracyMeters :: "real option"
  fix_time :: millis

record segment_settings =
  dwellSeconds :: real
  maxAccuracyMeters :: real
  maxFixGapSeconds :: real

definition SEGMENT_DEFAULTS :: segment_settings where
  "SEGMENT_DEFAULTS = \<lparr>dwellSeconds = 90, maxAccuracyMeters = 25, maxFixGapSeconds = 300\<rparr>"

definition SEGMENT_ENTER_RADIUS :: real where "SEGMENT_ENTER_RADIUS = 20"
definition SEGMENT_EXIT_RADIUS :: real where "SEGMENT_EXIT_RADIUS = 30"

section \<open>Where a fix puts the technician\<close>

definition usable :: "segment_fix \<Rightarrow> segment_settings \<Rightarrow> bool" where
  "usable f settings \<longleftrightarrow>
     (case accuracyMeters f of None \<Rightarrow> True | Some a \<Rightarrow> a \<le> maxAccuracyMeters settings)"

type_synonym place = "string option"

fun place_scan ::
  "point \<Rightarrow> place \<Rightarrow> day_fence list \<Rightarrow> (string \<times> real) option \<Rightarrow> real option \<Rightarrow> (string \<times> real) option \<times> real option" where
  "place_scan here was [] nearest metresFromWas = (nearest, metresFromWas)"
| "place_scan here was (fence # fences) nearest metresFromWas =
     (let metres = haversineMeters here (fence_at fence);
          metresFromWas' =
            (if Some (fence_id fence) = was \<and> metres \<le> exitRadiusMeters fence then Some metres else metresFromWas);
          nearest' =
            (if metres \<le> enterRadiusMeters fence \<and> (case nearest of None \<Rightarrow> True | Some (_, m) \<Rightarrow> metres < m)
             then Some (fence_id fence, metres) else nearest)
      in place_scan here was fences nearest' metresFromWas')"

definition placeOf :: "segment_fix \<Rightarrow> day_fence list \<Rightarrow> place \<Rightarrow> place" where
  "placeOf f fences was =
     (case place_scan (fix_at f) was fences None None of
        (Some (i, _), _) \<Rightarrow> Some i
      | (None, metresFromWas) \<Rightarrow> (if metresFromWas = None then None else was))"

section \<open>The ledger\<close>

record run =
  run_place :: place
  run_from :: millis
  run_to :: millis
  run_quiet :: real

record ledger_state =
  ls_runs :: "run list"
  ls_current :: run
  ls_candidate :: "(place \<times> millis) option"
  ls_lastAt :: millis

text \<open>A change of place is a candidate from its first fix on, and a new one when the place changes again.\<close>

definition next_candidate :: "ledger_state \<Rightarrow> place \<Rightarrow> millis \<Rightarrow> place \<times> millis" where
  "next_candidate s here now =
     (case ls_candidate s of
        None \<Rightarrow> (here, now)
      | Some (p, from) \<Rightarrow> if p \<noteq> here then (here, now) else (p, from))"

definition ledger_step :: "segment_settings \<Rightarrow> day_fence list \<Rightarrow> ledger_state \<Rightarrow> segment_fix \<Rightarrow> ledger_state" where
  "ledger_step settings fences s f =
     (let now = fix_time f;
          sinceLast = seconds_of (now - ls_lastAt s);
          here = placeOf f fences (run_place (ls_current s))
      in if maxFixGapSeconds settings < sinceLast then
           (if here = run_place (ls_current s) then
              s\<lparr>ls_candidate := None,
                ls_current := (ls_current s)\<lparr>run_to := now, run_quiet := run_quiet (ls_current s) + sinceLast\<rparr>,
                ls_lastAt := now\<rparr>
            else
              s\<lparr>ls_candidate := None,
                ls_runs := ls_runs s @
                  [(ls_current s)\<lparr>run_to := ls_lastAt s\<rparr>,
                   \<lparr>run_place = None, run_from = ls_lastAt s, run_to = now, run_quiet = sinceLast\<rparr>],
                ls_current := \<lparr>run_place = here, run_from = now, run_to = now, run_quiet = 0\<rparr>,
                ls_lastAt := now\<rparr>)
         else if here = run_place (ls_current s) then
           s\<lparr>ls_lastAt := now, ls_current := (ls_current s)\<lparr>run_to := now\<rparr>, ls_candidate := None\<rparr>
         else
           (let candidate = next_candidate s here now
            in if seconds_of (now - snd candidate) < dwellSeconds settings then
                 s\<lparr>ls_lastAt := now, ls_candidate := Some candidate, ls_current := (ls_current s)\<lparr>run_to := now\<rparr>\<rparr>
               else
                 s\<lparr>ls_lastAt := now,
                   ls_runs := ls_runs s @ [(ls_current s)\<lparr>run_to := snd candidate\<rparr>],
                   ls_current := \<lparr>run_place = here, run_from = snd candidate, run_to = now, run_quiet = 0\<rparr>,
                   ls_candidate := None\<rparr>))"

definition ledger_start :: "day_fence list \<Rightarrow> segment_fix \<Rightarrow> ledger_state" where
  "ledger_start fences f =
     \<lparr>ls_runs = [],
      ls_current = \<lparr>run_place = placeOf f fences None, run_from = fix_time f, run_to = fix_time f, run_quiet = 0\<rparr>,
      ls_candidate = None,
      ls_lastAt = fix_time f\<rparr>"

definition ledger_runs :: "segment_settings \<Rightarrow> day_fence list \<Rightarrow> segment_fix \<Rightarrow> segment_fix list \<Rightarrow> run list" where
  "ledger_runs settings fences f fixes =
     (let s = foldl (ledger_step settings fences) (ledger_start fences f) fixes
      in ls_runs s @ [ls_current s])"

definition join_run :: "run list \<Rightarrow> run \<Rightarrow> run list" where
  "join_run joined r =
     (if run_to r \<le> run_from r then joined
      else if joined \<noteq> [] \<and> run_place (last joined) = run_place r \<and> run_to (last joined) = run_from r
        then butlast joined @ [(last joined)\<lparr>run_to := run_to r, run_quiet := run_quiet (last joined) + run_quiet r\<rparr>]
      else joined @ [r])"

datatype category = ONSITE | GENERAL

record ledger_stretch =
  st_category :: category
  st_fenceId :: place
  startedAt :: millis
  endedAt :: millis
  durationSeconds :: int
  quietSeconds :: int

record day_ledger =
  dl_stretches :: "ledger_stretch list"
  discardedFixes :: nat

definition stretch_of :: "run \<Rightarrow> ledger_stretch" where
  "stretch_of r =
     \<lparr>st_category = (if run_place r = None then GENERAL else ONSITE),
      st_fenceId = run_place r,
      startedAt = run_from r,
      endedAt = run_to r,
      durationSeconds = js_round (seconds_of (run_to r - run_from r)),
      quietSeconds = js_round (run_quiet r)\<rparr>"

text \<open>First arrival to last departure: what comes before and after is dropped.\<close>

definition trim_general :: "run list \<Rightarrow> run list" where
  "trim_general joined =
     rev (dropWhile (\<lambda>r. run_place r = None) (rev (dropWhile (\<lambda>r. run_place r = None) joined)))"

definition computeDayLedger :: "segment_fix list \<Rightarrow> day_fence list \<Rightarrow> segment_settings \<Rightarrow> day_ledger" where
  "computeDayLedger fixes fences settings =
     (let usableFixes = filter (\<lambda>f. usable f settings) fixes;
          discarded = length fixes - length usableFixes
      in case usableFixes of
           first # second # later \<Rightarrow>
             if fences = [] then \<lparr>dl_stretches = [], discardedFixes = discarded\<rparr>
             else
               let joined = foldl join_run [] (ledger_runs settings fences first (second # later))
               in \<lparr>dl_stretches = map stretch_of (trim_general joined), discardedFixes = discarded\<rparr>
         | _ \<Rightarrow> \<lparr>dl_stretches = [], discardedFixes = discarded\<rparr>)"

section \<open>Cutting out decided hours\<close>

definition piece_of :: "ledger_stretch \<Rightarrow> millis \<Rightarrow> millis \<Rightarrow> ledger_stretch list" where
  "piece_of stretch from to =
     (let seconds = js_round (seconds_of (to - from))
      in if seconds \<le> 0 then []
         else [stretch\<lparr>startedAt := from, endedAt := to, durationSeconds := seconds,
                 quietSeconds :=
                   (if durationSeconds stretch \<noteq> 0
                    then min seconds (js_round (of_int (quietSeconds stretch * seconds) / of_int (durationSeconds stretch)))
                    else 0)\<rparr>])"

fun pieces_between :: "ledger_stretch \<Rightarrow> millis \<Rightarrow> (millis \<times> millis) list \<Rightarrow> ledger_stretch list" where
  "pieces_between stretch from [] =
     (if from < endedAt stretch then piece_of stretch from (endedAt stretch) else [])"
| "pieces_between stretch from ((hole_start, hole_end) # holes) =
     (if hole_end \<le> from \<or> endedAt stretch \<le> hole_start then pieces_between stretch from holes
      else piece_of stretch from (max from hole_start) @
           pieces_between stretch (max from hole_end) holes)"

definition withoutIntervals :: "ledger_stretch list \<Rightarrow> (millis \<times> millis) list \<Rightarrow> ledger_stretch list" where
  "withoutIntervals stretches kept =
     (let holes = sort_cmp (on_key fst by_number) kept
      in concat (map (\<lambda>stretch. pieces_between stretch (startedAt stretch) holes) stretches))"

definition secondsIn :: "ledger_stretch list \<Rightarrow> category \<Rightarrow> int" where
  "secondsIn stretches category =
     foldl (\<lambda>sum stretch. if st_category stretch = category then sum + durationSeconds stretch else sum) 0 stretches"

section \<open>The loop invariant\<close>

fun contiguous :: "run list \<Rightarrow> bool" where
  "contiguous (r # s # rs) = (run_to r = run_from s \<and> contiguous (s # rs))"
| "contiguous rs = True"

definition sound_run :: "run \<Rightarrow> bool" where
  "sound_run r \<longleftrightarrow> run_from r \<le> run_to r \<and> 0 \<le> run_quiet r \<and> run_quiet r \<le> seconds_of (run_to r - run_from r)"

definition ledger_inv :: "millis \<Rightarrow> ledger_state \<Rightarrow> bool" where
  "ledger_inv start s \<longleftrightarrow>
     contiguous (ls_runs s @ [ls_current s]) \<and>
     list_all sound_run (ls_runs s) \<and>
     run_from (hd (ls_runs s @ [ls_current s])) = start \<and>
     run_to (ls_current s) = ls_lastAt s \<and>
     sound_run (ls_current s) \<and>
     (case ls_candidate s of
        None \<Rightarrow> True
      | Some (p, from) \<Rightarrow>
          run_from (ls_current s) \<le> from \<and> from \<le> ls_lastAt s \<and>
          run_quiet (ls_current s) \<le> seconds_of (from - run_from (ls_current s)))"

lemma contiguous_snoc: "contiguous (rs @ [r, s]) \<longleftrightarrow> contiguous (rs @ [r]) \<and> run_to r = run_from s"
  by (induction rs rule: contiguous.induct) auto

lemma contiguous_append: "contiguous (rs @ r # ss) \<longleftrightarrow> contiguous (rs @ [r]) \<and> contiguous (r # ss)"
  by (induction rs rule: contiguous.induct) auto

lemma contiguous_snoc_cong: "run_from r = run_from r' \<Longrightarrow> contiguous (rs @ [r]) = contiguous (rs @ [r'])"
  by (induction rs rule: contiguous.induct) auto

lemma seconds_of_simps [simp]: "seconds_of 0 = 0" "seconds_of a \<le> seconds_of b \<longleftrightarrow> a \<le> b" "0 \<le> seconds_of a \<longleftrightarrow> 0 \<le> a"
  by (simp_all add: seconds_of_def divide_le_cancel)

lemma seconds_of_add: "seconds_of (a - b) + seconds_of (c - a) = seconds_of (c - b)"
  by (simp add: seconds_of_def diff_divide_distrib)

lemma hd_snoc_cong: "run_from r = run_from r' \<Longrightarrow> run_from (hd (rs @ [r])) = run_from (hd (rs @ [r']))"
  by (cases rs) auto

lemma ledger_start_inv: "ledger_inv (fix_time f) (ledger_start fences f)"
  by (simp add: ledger_inv_def ledger_start_def sound_run_def)

lemma sound_run_extend:
  "sound_run r \<Longrightarrow> run_to r \<le> t \<Longrightarrow> sound_run (r\<lparr>run_to := t\<rparr>)"
proof -
  assume r: "sound_run r" "run_to r \<le> t"
  then have "seconds_of (run_to r - run_from r) \<le> seconds_of (t - run_from r)"
    by simp
  then have "run_quiet r \<le> seconds_of (t - run_from r)"
    using r(1) unfolding sound_run_def by (elim conjE) (rule order_trans)
  with r show ?thesis by (simp add: sound_run_def)
qed

lemma ledger_step_inv:
  assumes inv: "ledger_inv start s" and later: "ls_lastAt s \<le> fix_time f"
  shows "ledger_inv start (ledger_step settings fences s f) \<and> ls_lastAt (ledger_step settings fences s f) = fix_time f"
proof -
  let ?now = "fix_time f" and ?cur = "ls_current s" and ?runs = "ls_runs s"
  let ?here = "placeOf f fences (run_place ?cur)"
  have cur: "sound_run ?cur" "run_to ?cur = ls_lastAt s" and runs: "list_all sound_run ?runs"
    and cont: "contiguous (?runs @ [?cur])" and hd: "run_from (hd (?runs @ [?cur])) = start"
    using inv by (simp_all add: ledger_inv_def)
  have begun: "run_from ?cur \<le> ls_lastAt s"
    using cur by (simp add: sound_run_def)
  have ext: "sound_run (?cur\<lparr>run_to := ?now\<rparr>)"
    using sound_run_extend [OF cur(1)] cur(2) later by simp
  have same_from: "contiguous (?runs @ [r])" "run_from (hd (?runs @ r # rest)) = start"
    if "run_from r = run_from ?cur" for r rest
    using that cont hd contiguous_snoc_cong [of r ?cur ?runs] by (simp, cases ?runs, simp_all)
  have keep: "ledger_inv start (s\<lparr>ls_lastAt := ?now, ls_current := ?cur\<lparr>run_to := ?now\<rparr>, ls_candidate := c\<rparr>)"
    if "\<And>p t. c = Some (p, t) \<Longrightarrow> run_from ?cur \<le> t \<and> t \<le> ?now \<and> run_quiet ?cur \<le> seconds_of (t - run_from ?cur)" for c
    using that same_from ext runs by (auto simp: ledger_inv_def split: option.splits)
  have two: "ledger_inv start (s\<lparr>ls_candidate := None, ls_runs := ?runs @ r # rs, ls_current := q, ls_lastAt := ?now\<rparr>)"
    if "contiguous (?runs @ r # rs @ [q])" "list_all sound_run (r # rs)" "sound_run q" "run_to q = ?now"
      "run_from r = run_from ?cur" for r rs q
    using that same_from(2) [of r "rs @ [q]"] runs by (simp add: ledger_inv_def)
  have cut: "sound_run (?cur\<lparr>run_to := t\<rparr>)"
    if "run_from ?cur \<le> t" "run_quiet ?cur \<le> seconds_of (t - run_from ?cur)" for t
    using that cur(1) by (simp add: sound_run_def)
  have join: "contiguous (?runs @ r # q # rs) = (contiguous (?runs @ [r]) \<and> contiguous (r # q # rs))" for r q rs
    by (rule contiguous_append)
  have quiet: "run_quiet ?cur + seconds_of (?now - ls_lastAt s) \<le> seconds_of (?now - run_from ?cur)"
    using cur seconds_of_add [of "ls_lastAt s" "run_from ?cur" ?now] by (simp add: sound_run_def)
  have cand: "run_from ?cur \<le> snd c \<and> snd c \<le> ?now \<and> run_quiet ?cur \<le> seconds_of (snd c - run_from ?cur)"
    if "c = next_candidate s h ?now" for c h
    using that inv begun later ext cur
    by (auto simp: next_candidate_def ledger_inv_def sound_run_def split: option.splits prod.splits)
  have unfold: "ledger_step settings fences s f =
     (if maxFixGapSeconds settings < seconds_of (?now - ls_lastAt s) then
        (if ?here = run_place ?cur then
           s\<lparr>ls_lastAt := ?now, ls_current := ?cur\<lparr>run_to := ?now, run_quiet := run_quiet ?cur + seconds_of (?now - ls_lastAt s)\<rparr>, ls_candidate := None\<rparr>
         else s\<lparr>ls_candidate := None, ls_runs := ?runs @ [?cur\<lparr>run_to := ls_lastAt s\<rparr>,
                \<lparr>run_place = None, run_from = ls_lastAt s, run_to = ?now, run_quiet = seconds_of (?now - ls_lastAt s)\<rparr>],
                ls_current := \<lparr>run_place = ?here, run_from = ?now, run_to = ?now, run_quiet = 0\<rparr>, ls_lastAt := ?now\<rparr>)
      else if ?here = run_place ?cur then s\<lparr>ls_lastAt := ?now, ls_current := ?cur\<lparr>run_to := ?now\<rparr>, ls_candidate := None\<rparr>
      else if seconds_of (?now - snd (next_candidate s ?here ?now)) < dwellSeconds settings
        then s\<lparr>ls_lastAt := ?now, ls_current := ?cur\<lparr>run_to := ?now\<rparr>, ls_candidate := Some (next_candidate s ?here ?now)\<rparr>
        else s\<lparr>ls_candidate := None, ls_runs := ?runs @ [?cur\<lparr>run_to := snd (next_candidate s ?here ?now)\<rparr>],
               ls_current := \<lparr>run_place = ?here, run_from = snd (next_candidate s ?here ?now), run_to = ?now, run_quiet = 0\<rparr>,
               ls_lastAt := ?now\<rparr>)"
    by (simp add: ledger_step_def Let_def)
  let ?c = "next_candidate s ?here ?now"
  have c: "run_from ?cur \<le> snd ?c" "snd ?c \<le> ?now" "run_quiet ?cur \<le> seconds_of (snd ?c - run_from ?cur)"
    using cand [of ?c ?here] by simp_all
  have a: "ledger_inv start (s\<lparr>ls_lastAt := ?now,
      ls_current := ?cur\<lparr>run_to := ?now, run_quiet := run_quiet ?cur + seconds_of (?now - ls_lastAt s)\<rparr>, ls_candidate := None\<rparr>)"
    using same_from runs ext quiet cur later by (simp add: ledger_inv_def sound_run_def)
  have b: "ledger_inv start (s\<lparr>ls_candidate := None, ls_runs := ?runs @ [?cur\<lparr>run_to := ls_lastAt s\<rparr>,
      \<lparr>run_place = None, run_from = ls_lastAt s, run_to = ?now, run_quiet = seconds_of (?now - ls_lastAt s)\<rparr>],
      ls_current := \<lparr>run_place = ?here, run_from = ?now, run_to = ?now, run_quiet = 0\<rparr>, ls_lastAt := ?now\<rparr>)"
    using cur later same_from(1) by (intro two) (simp_all add: join sound_run_def)
  have d: "ledger_inv start (s\<lparr>ls_lastAt := ?now, ls_current := ?cur\<lparr>run_to := ?now\<rparr>, ls_candidate := None\<rparr>)"
    by (rule keep) simp
  have e: "ledger_inv start (s\<lparr>ls_lastAt := ?now, ls_current := ?cur\<lparr>run_to := ?now\<rparr>, ls_candidate := Some ?c\<rparr>)"
    using c by (intro keep) (simp add: prod_eq_iff)
  have g: "ledger_inv start (s\<lparr>ls_candidate := None, ls_runs := ?runs @ [?cur\<lparr>run_to := snd ?c\<rparr>],
      ls_current := \<lparr>run_place = ?here, run_from = snd ?c, run_to = ?now, run_quiet = 0\<rparr>, ls_lastAt := ?now\<rparr>)"
    using c same_from(1) by (intro two) (simp_all add: join cut, simp add: sound_run_def)
  show ?thesis using a b d e g unfolding unfold by (simp split: if_split)
qed

lemma ledger_fold_inv:
  assumes "ledger_inv start s" "sorted (ls_lastAt s # map fix_time fs)"
  shows "ledger_inv start (foldl (ledger_step settings fences) s fs) \<and>
    ls_lastAt (foldl (ledger_step settings fences) s fs) = last (ls_lastAt s # map fix_time fs)"
  using assms
proof (induction fs arbitrary: s)
  case (Cons f fs)
  then have "ledger_inv start (ledger_step settings fences s f)" "ls_lastAt (ledger_step settings fences s f) = fix_time f"
    using ledger_step_inv [of start s f settings fences] by simp_all
  with Cons show ?case by simp
qed simp

text \<open>Wherever a fix is placed, it is at one of the day's properties or between them.\<close>

definition fence_places :: "day_fence list \<Rightarrow> place set" where
  "fence_places fences = insert None ((\<lambda>fence. Some (fence_id fence)) ` set fences)"

lemma place_scan_found:
  "place_scan here was fences n m = (n', m') \<Longrightarrow>
     (\<forall>i d. n' = Some (i, d) \<longrightarrow> n = Some (i, d) \<or> i \<in> fence_id ` set fences) \<and>
     (m' \<noteq> None \<longrightarrow> m \<noteq> None \<or> was \<in> fence_places fences)"
proof (induction here was fences n m rule: place_scan.induct)
  case (2 here was fence fences nearest metresFromWas)
  let ?metres = "haversineMeters here (fence_at fence)"
  from 2(1) [OF refl refl refl] 2(2) show ?case
    by (fastforce simp: Let_def fence_places_def split: if_splits)
qed simp

lemma placeOf_in: "placeOf f fences was \<in> fence_places fences"
proof -
  obtain n m where "place_scan (fix_at f) was fences None None = (n, m)"
    by (cases "place_scan (fix_at f) was fences None None")
  with place_scan_found [OF this] show ?thesis
    by (auto simp: placeOf_def fence_places_def split: option.splits)
qed

definition runs_in :: "place set \<Rightarrow> ledger_state \<Rightarrow> bool" where
  "runs_in P s \<longleftrightarrow> (\<forall>r \<in> set (ls_runs s @ [ls_current s]). run_place r \<in> P)"

lemma ledger_step_places:
  "runs_in (fence_places fences) s \<Longrightarrow> runs_in (fence_places fences) (ledger_step settings fences s f)"
  using placeOf_in [of f fences "run_place (ls_current s)"]
  by (auto simp: runs_in_def ledger_step_def Let_def fence_places_def)

lemma ledger_fold_places:
  "runs_in (fence_places fences) s \<Longrightarrow> runs_in (fence_places fences) (foldl (ledger_step settings fences) s fs)"
  by (induction fs arbitrary: s) (simp_all add: ledger_step_places)

lemma contiguous_Cons: "contiguous (r # rs) \<longleftrightarrow> rs = [] \<or> run_to r = run_from (hd rs) \<and> contiguous rs"
  by (cases rs) auto

lemma contiguous_within:
  assumes "contiguous rs" "list_all sound_run rs" "r \<in> set rs"
  shows "run_from (hd rs) \<le> run_from r \<and> run_to r \<le> run_to (last rs)"
  using assms
proof (induction rs arbitrary: r)
  case (Cons q rs)
  then show ?case
  proof (cases "rs = []")
    case False
    then have q: "run_from q \<le> run_to q" "run_to q = run_from (hd rs)" "contiguous rs"
      and h: "run_from (hd rs) \<le> run_to (hd rs)" "run_to (hd rs) \<le> run_to (last rs)"
      using Cons(2,3) Cons.IH [of "hd rs"] by (auto simp: contiguous_Cons sound_run_def list_all_iff)
    show ?thesis
    proof (cases "r = q")
      case True then show ?thesis using q h False by simp
    next
      case f: False
      then have "run_from (hd rs) \<le> run_from r \<and> run_to r \<le> run_to (last rs)"
        using Cons q by simp
      with q False show ?thesis by simp
    qed
  qed simp
qed simp

text \<open>
  What the ledger's runs are: sound, at a known place and inside the trail; and what joining
  them adds: none is empty, and each begins where and when the one before it ends.
\<close>

definition run_ok :: "place set \<Rightarrow> millis \<Rightarrow> millis \<Rightarrow> run \<Rightarrow> bool" where
  "run_ok P lo hi r \<longleftrightarrow> sound_run r \<and> lo \<le> run_from r \<and> run_to r \<le> hi \<and> run_place r \<in> P"

definition follows :: "run \<Rightarrow> run \<Rightarrow> bool" where
  "follows r s \<longleftrightarrow> run_to r = run_from s \<and> run_place r \<noteq> run_place s"

definition joined_ok :: "place set \<Rightarrow> millis \<Rightarrow> millis \<Rightarrow> run list \<Rightarrow> bool" where
  "joined_ok P lo hi joined \<longleftrightarrow>
     successively follows joined \<and> (\<forall>r \<in> set joined. run_ok P lo hi r \<and> run_from r < run_to r)"

lemma ledger_runs_ok:
  assumes "sorted (map fix_time (f # fs))"
  shows "contiguous (ledger_runs settings fences f fs)"
    and "list_all (run_ok (fence_places fences) (fix_time f) (last (map fix_time (f # fs))))
      (ledger_runs settings fences f fs)"
proof -
  define s where "s = foldl (ledger_step settings fences) (ledger_start fences f) fs"
  have inv: "ledger_inv (fix_time f) s" and lastAt: "ls_lastAt s = last (map fix_time (f # fs))"
    using ledger_fold_inv [OF ledger_start_inv [of f fences], of fs settings fences] assms
    by (simp_all add: s_def ledger_start_def)
  have places: "runs_in (fence_places fences) s"
    unfolding s_def by (rule ledger_fold_places) (simp add: runs_in_def ledger_start_def placeOf_in)
  have runs: "ledger_runs settings fences f fs = ls_runs s @ [ls_current s]"
    by (simp add: ledger_runs_def s_def Let_def)
  show cont: "contiguous (ledger_runs settings fences f fs)"
    using inv by (simp add: runs ledger_inv_def)
  show "list_all (run_ok (fence_places fences) (fix_time f) (last (map fix_time (f # fs))))
      (ledger_runs settings fences f fs)"
    using contiguous_within [OF cont] inv places
    by (auto simp: run_ok_def runs ledger_inv_def list_all_iff runs_in_def lastAt)
qed

lemma sound_run_join:
  assumes "sound_run r" "sound_run s" "run_to r = run_from s"
  shows "sound_run (r\<lparr>run_to := run_to s, run_quiet := run_quiet r + run_quiet s\<rparr>)"
  using assms seconds_of_add [of "run_to r" "run_from r" "run_to s"] by (simp add: sound_run_def)

lemma join_run_ok:
  assumes j: "joined_ok P lo hi joined" and r: "run_ok P lo hi r"
    and meets: "joined = [] \<or> run_to (last joined) = run_from r"
  shows "joined_ok P lo hi (join_run joined r)"
    and "join_run joined r = [] \<or> run_to (last (join_run joined r)) = run_to r"
proof -
  have le: "run_from r \<le> run_to r"
    using r by (simp add: run_ok_def sound_run_def)
  show "join_run joined r = [] \<or> run_to (last (join_run joined r)) = run_to r"
    using meets le by (auto simp: join_run_def)
  show "joined_ok P lo hi (join_run joined r)"
  proof (cases "joined = []")
    case True
    then show ?thesis using r by (simp add: join_run_def joined_ok_def)
  next
    case False
    then obtain js q where js: "joined = js @ [q]" by (metis rev_exhaust)
    have q: "run_ok P lo hi q" "run_from q < run_to q" "run_to q = run_from r"
      using j meets by (simp_all add: js joined_ok_def)
    let ?q = "q\<lparr>run_to := run_to r, run_quiet := run_quiet q + run_quiet r\<rparr>"
    have merged: "run_ok P lo hi ?q" "run_from ?q < run_to ?q"
      using q r le sound_run_join [of q r] by (simp_all add: run_ok_def)
    have "js \<noteq> [] \<Longrightarrow> follows (last js) ?q" if "js \<noteq> [] \<Longrightarrow> follows (last js) q"
      using that by (simp add: follows_def)
    then show ?thesis
      using j r q merged by (auto simp: join_run_def joined_ok_def js successively_append_iff follows_def)
  qed
qed

lemma join_runs_ok:
  assumes "joined_ok P lo hi joined" "list_all (run_ok P lo hi) rs" "contiguous rs"
    and "joined = [] \<or> rs = [] \<or> run_to (last joined) = run_from (hd rs)"
  shows "joined_ok P lo hi (foldl join_run joined rs)"
  using assms
proof (induction rs arbitrary: joined)
  case (Cons r rs)
  have "joined_ok P lo hi (join_run joined r)" "join_run joined r = [] \<or> run_to (last (join_run joined r)) = run_to r"
    using join_run_ok [of P lo hi joined r] Cons(2-5) by auto
  then have "joined_ok P lo hi (foldl join_run (join_run joined r) rs)"
    using Cons(3,4) by (intro Cons.IH) (auto simp: contiguous_Cons)
  then show ?case by simp
qed simp

section \<open>The stretches of a day\<close>

lemma trim_general_cases:
  assumes "trim_general rs \<noteq> []"
  obtains before after where "rs = before @ trim_general rs @ after"
    "run_place (hd (trim_general rs)) \<noteq> None" "run_place (last (trim_general rs)) \<noteq> None"
proof -
  let ?P = "\<lambda>r. run_place r = None"
  let ?d = "dropWhile ?P rs"
  have d: "rs = takeWhile ?P rs @ ?d" by simp
  have t: "?d = trim_general rs @ rev (takeWhile ?P (rev ?d))"
    unfolding trim_general_def by (metis rev_append rev_rev_ident takeWhile_dropWhile_id)
  have ne: "dropWhile ?P (rev ?d) \<noteq> []"
    using assms by (simp add: trim_general_def)
  have "run_place (last (trim_general rs)) \<noteq> None"
    using hd_dropWhile [OF ne] by (simp add: trim_general_def last_rev)
  moreover have "hd (trim_general rs) = hd ?d"
    using assms t by (metis hd_append2)
  moreover have "?d \<noteq> []" using ne by (metis dropWhile.simps(1) rev.simps(1))
  ultimately show thesis
    using that [of "takeWhile ?P rs" "rev (takeWhile ?P (rev ?d))"] d t hd_dropWhile [of ?P rs] by simp
qed

lemma computeDayLedger_cases:
  obtains "dl_stretches (computeDayLedger fs fences settings) = []"
  | f fs' where "filter (\<lambda>f. usable f settings) fs = f # fs'" "fs' \<noteq> []" "fences \<noteq> []"
      "dl_stretches (computeDayLedger fs fences settings) =
         map stretch_of (trim_general (foldl join_run [] (ledger_runs settings fences f fs')))"
proof (cases "filter (\<lambda>f. usable f settings) fs")
  case (Cons f fs')
  then show ?thesis
    using that by (cases fs') (fastforce simp: computeDayLedger_def Let_def split: if_splits)+
qed (use that in \<open>simp add: computeDayLedger_def Let_def\<close>)

lemma sorted_filter_times: "sorted (map fix_time fs) \<Longrightarrow> sorted (map fix_time (filter P fs))"
  by (induction fs) auto

lemma ledger_stretch_runs:
  assumes "sorted (map fix_time fs)"
  obtains rs where "dl_stretches (computeDayLedger fs fences settings) = map stretch_of rs"
    "successively follows rs"
    "\<forall>r \<in> set rs. sound_run r \<and> run_from r < run_to r \<and> run_place r \<in> fence_places fences \<and>
       (\<exists>f \<in> set fs. usable f settings \<and> fix_time f \<le> run_from r) \<and>
       (\<exists>f \<in> set fs. usable f settings \<and> run_to r \<le> fix_time f)"
    "rs \<noteq> [] \<Longrightarrow> run_place (hd rs) \<noteq> None \<and> run_place (last rs) \<noteq> None"
proof (rule computeDayLedger_cases [of fs fences settings])
  assume "dl_stretches (computeDayLedger fs fences settings) = []"
  then show thesis by (intro that [of "[]"]) simp_all
next
  fix f fs'
  let ?joined = "foldl join_run [] (ledger_runs settings fences f fs')"
  define hi where "hi = last (map fix_time (f # fs'))"
  assume u: "filter (\<lambda>f. usable f settings) fs = f # fs'"
    and dl: "dl_stretches (computeDayLedger fs fences settings) = map stretch_of (trim_general ?joined)"
  have "sorted (map fix_time (f # fs'))"
    using sorted_filter_times [OF assms, of "\<lambda>f. usable f settings"] by (simp only: u)
  from ledger_runs_ok [OF this, where settings = settings and fences = fences]
  have j: "joined_ok (fence_places fences) (fix_time f) hi ?joined"
    unfolding hi_def by (intro join_runs_ok) (simp_all add: joined_ok_def)
  have lo: "f \<in> set fs \<and> usable f settings" "last (f # fs') \<in> set fs \<and> usable (last (f # fs')) settings"
    using u last_in_set [of "f # fs'"] by (metis (mono_tags, lifting) filter_set list.set_intros(1) list.discI mem_Collect_eq set_filter)+
  then obtain g where g: "g \<in> set fs" "usable g settings" "hi = fix_time g"
    unfolding hi_def by (metis last_map list.discI)
  show thesis
  proof (cases "trim_general ?joined = []")
    case True
    then show thesis using dl by (intro that [of "[]"]) simp_all
  next
    case False
    then obtain before after where parts: "?joined = before @ trim_general ?joined @ after"
      "run_place (hd (trim_general ?joined)) \<noteq> None" "run_place (last (trim_general ?joined)) \<noteq> None"
      by (rule trim_general_cases)
    have "successively follows (trim_general ?joined)"
      using j parts(1) unfolding joined_ok_def by (metis successively_append_iff)
    moreover have "set (trim_general ?joined) \<subseteq> set ?joined"
      by (subst parts(1)) auto
    ultimately show thesis
      using j parts(2,3) dl lo(1) g
      by (intro that [of "trim_general ?joined"]) (auto simp: joined_ok_def run_ok_def)
  qed
qed

lemma ledger_shape:
  assumes "sorted (map fix_time fs)" "dl_stretches (computeDayLedger fs fences settings) = ss"
  shows "successively (\<lambda>s t. endedAt s = startedAt t \<and> st_fenceId s \<noteq> st_fenceId t) ss \<and>
    (ss \<noteq> [] \<longrightarrow> st_category (hd ss) = ONSITE \<and> st_category (last ss) = ONSITE) \<and>
    (\<forall>s \<in> set ss.
       startedAt s < endedAt s \<and>
       (case st_fenceId s of None \<Rightarrow> st_category s = GENERAL
        | Some i \<Rightarrow> st_category s = ONSITE \<and> i \<in> fence_id ` set fences) \<and>
       durationSeconds s = js_round (seconds_of (endedAt s - startedAt s)) \<and>
       0 \<le> quietSeconds s \<and> quietSeconds s \<le> durationSeconds s \<and>
       (\<exists>f \<in> set fs. usable f settings \<and> fix_time f \<le> startedAt s) \<and>
       (\<exists>f \<in> set fs. usable f settings \<and> endedAt s \<le> fix_time f))"
proof (rule ledger_stretch_runs [OF assms(1), of fences settings])
  fix rs
  assume rs: "dl_stretches (computeDayLedger fs fences settings) = map stretch_of rs"
    "successively follows rs"
    "\<forall>r \<in> set rs. sound_run r \<and> run_from r < run_to r \<and> run_place r \<in> fence_places fences \<and>
       (\<exists>f \<in> set fs. usable f settings \<and> fix_time f \<le> run_from r) \<and>
       (\<exists>f \<in> set fs. usable f settings \<and> run_to r \<le> fix_time f)"
    "rs \<noteq> [] \<Longrightarrow> run_place (hd rs) \<noteq> None \<and> run_place (last rs) \<noteq> None"
  have ss: "ss = map stretch_of rs" using assms(2) rs(1) by simp
  have "successively (\<lambda>s t. endedAt s = startedAt t \<and> st_fenceId s \<noteq> st_fenceId t) ss"
    using rs(2) by (simp add: ss successively_map stretch_of_def follows_def)
  moreover have "ss \<noteq> [] \<longrightarrow> st_category (hd ss) = ONSITE \<and> st_category (last ss) = ONSITE"
    using rs(4) by (cases "rs = []") (auto simp: ss hd_map last_map stretch_of_def)
  moreover have "startedAt (stretch_of r) < endedAt (stretch_of r) \<and>
       (case st_fenceId (stretch_of r) of None \<Rightarrow> st_category (stretch_of r) = GENERAL
        | Some i \<Rightarrow> st_category (stretch_of r) = ONSITE \<and> i \<in> fence_id ` set fences) \<and>
       durationSeconds (stretch_of r) = js_round (seconds_of (endedAt (stretch_of r) - startedAt (stretch_of r))) \<and>
       0 \<le> quietSeconds (stretch_of r) \<and> quietSeconds (stretch_of r) \<le> durationSeconds (stretch_of r)"
    if "r \<in> set rs" for r
  proof -
    have "sound_run r" "run_from r < run_to r" "run_place r \<in> fence_places fences"
      using rs(3) that by simp_all
    then show ?thesis
      by (cases "run_place r")
        (auto simp: stretch_of_def sound_run_def fence_places_def image_iff js_round_nonneg js_round_mono)
  qed
  moreover have "(\<exists>f \<in> set fs. usable f settings \<and> fix_time f \<le> startedAt (stretch_of r)) \<and>
      (\<exists>f \<in> set fs. usable f settings \<and> endedAt (stretch_of r) \<le> fix_time f)" if "r \<in> set rs" for r
    using rs(3) that by (auto simp: stretch_of_def)
  ultimately show ?thesis unfolding ss set_map by blast
qed

text \<open>
  C9. A technician's day has no holes and no overlaps. Given fixes in time order, the stretches
  of \<open>computeDayLedger\<close> follow each other exactly (each begins at the instant the one before it
  ends, at a different place), start and end on site, are never empty, are on site exactly when
  they name a property, and then one of the day's own; the rounded duration is that of the
  interval, the silent part is never more than it, and no stretch reaches outside the usable trail.
\<close>

theorem day_has_no_holes:
  assumes "sorted (map fix_time fs)" "dl_stretches (computeDayLedger fs fences settings) = ss"
  shows "successively (\<lambda>s t. endedAt s = startedAt t \<and> st_fenceId s \<noteq> st_fenceId t) ss \<and>
    (ss \<noteq> [] \<longrightarrow> st_category (hd ss) = ONSITE \<and> st_category (last ss) = ONSITE) \<and>
    (\<forall>s \<in> set ss.
       startedAt s < endedAt s \<and>
       (case st_fenceId s of None \<Rightarrow> st_category s = GENERAL
        | Some i \<Rightarrow> st_category s = ONSITE \<and> i \<in> fence_id ` set fences) \<and>
       durationSeconds s = js_round (seconds_of (endedAt s - startedAt s)) \<and>
       0 \<le> quietSeconds s \<and> quietSeconds s \<le> durationSeconds s \<and>
       (\<exists>f \<in> set fs. usable f settings \<and> fix_time f \<le> startedAt s) \<and>
       (\<exists>f \<in> set fs. usable f settings \<and> endedAt s \<le> fix_time f))"
  using assms by (rule ledger_shape)

lemma piece_of_mem:
  "p \<in> set (piece_of s from to) \<Longrightarrow>
     startedAt p = from \<and> endedAt p = to \<and> from < to \<and>
     st_category p = st_category s \<and> st_fenceId p = st_fenceId s \<and>
     0 < durationSeconds p \<and> durationSeconds p = js_round (seconds_of (to - from)) \<and> quietSeconds p \<le> durationSeconds p"
proof -
  have "from < to" if "0 < js_round (seconds_of (to - from))"
    using that js_round_mono [of "seconds_of (to - from)" 0] js_round_of_int [of 0]
    by (metis linorder_not_less of_int_0 diff_le_0_iff_le seconds_of_simps(1,2) less_irrefl order_less_le_trans)
  then show "p \<in> set (piece_of s from to) \<Longrightarrow> ?thesis"
    by (auto simp: piece_of_def Let_def split: if_splits)
qed

lemma pieces_between_mem:
  assumes "sorted (map fst holes)" "\<forall>k \<in> set holes. fst k \<le> snd k" "p \<in> set (pieces_between s from holes)"
  shows "from \<le> startedAt p \<and> startedAt p < endedAt p \<and> endedAt p \<le> endedAt s \<and>
    st_category p = st_category s \<and> st_fenceId p = st_fenceId s \<and>
    0 < durationSeconds p \<and> durationSeconds p = js_round (seconds_of (endedAt p - startedAt p)) \<and>
    quietSeconds p \<le> durationSeconds p \<and>
    (\<forall>k \<in> set holes. endedAt p \<le> fst k \<or> snd k \<le> startedAt p)"
  using assms
proof (induction s "from" holes rule: pieces_between.induct)
  case (1 s from')
  then show ?case using piece_of_mem [of p s from' "endedAt s"] by (auto split: if_splits)
next
  case (2 s from' hole_start hole_end holes)
  show ?case
  proof (cases "hole_end \<le> from' \<or> endedAt s \<le> hole_start")
    case True
    with 2 show ?thesis by fastforce
  next
    case False
    have later: "\<forall>k \<in> set holes. hole_start \<le> fst k" and "hole_start \<le> hole_end"
      using 2(3,4) by auto
    consider "p \<in> set (piece_of s from' (max from' hole_start))"
      | "p \<in> set (pieces_between s (max from' hole_end) holes)"
      using 2(5) False by auto
    then show ?thesis
    proof cases
      case 1
      then show ?thesis using piece_of_mem [OF 1] later False by fastforce
    next
      case p: 2
      then show ?thesis using 2(2) [OF False _ _ p] 2(3,4) by fastforce
    qed
  qed
qed

lemma pieces_between_ordered:
  assumes "sorted (map fst holes)" "\<forall>k \<in> set holes. fst k \<le> snd k"
  shows "sorted_wrt (\<lambda>p q. endedAt p \<le> startedAt q) (pieces_between s from holes)"
  using assms
proof (induction s "from" holes rule: pieces_between.induct)
  case (1 s from')
  then show ?case by (simp add: piece_of_def Let_def)
next
  case (2 s from' hole_start hole_end holes)
  show ?case
  proof (cases "hole_end \<le> from' \<or> endedAt s \<le> hole_start")
    case True
    with 2 show ?thesis by simp
  next
    case False
    have "endedAt p \<le> startedAt q"
      if "p \<in> set (piece_of s from' (max from' hole_start))" "q \<in> set (pieces_between s (max from' hole_end) holes)" for p q
      using piece_of_mem [OF that(1)] pieces_between_mem [OF _ _ that(2)] 2(3,4) by fastforce
    with False 2 show ?thesis by (auto simp: sorted_wrt_append piece_of_def Let_def)
  qed
qed

text \<open>What is left out is only what a hole covers, or a splinter too short to round to a second.\<close>

lemma piece_of_covers:
  assumes "from \<le> t" "t < to"
  shows "(\<exists>p \<in> set (piece_of s from to). startedAt p \<le> t \<and> t < endedAt p) \<or> to - from < 500"
proof (cases "js_round (seconds_of (to - from)) \<le> 0")
  case True
  then have "(to - from + 500) div 1000 < 1" by (simp add: js_round_seconds)
  then show ?thesis using zdiv_mono1 [of 1000 "to - from + 500" 1000] by linarith
next
  case False
  then show ?thesis using assms by (simp add: piece_of_def Let_def)
qed

definition splinter :: "millis set \<Rightarrow> millis set \<Rightarrow> millis \<Rightarrow> bool" where
  "splinter A B t \<longleftrightarrow> (\<exists>a \<in> A. \<exists>b \<in> B. a \<le> t \<and> t < b \<and> b - a < 500)"

definition covered :: "ledger_stretch list \<Rightarrow> millis \<Rightarrow> bool" where
  "covered ps t \<longleftrightarrow> (\<exists>p \<in> set ps. startedAt p \<le> t \<and> t < endedAt p)"

lemma covered_append: "covered (ps @ qs) t \<longleftrightarrow> covered ps t \<or> covered qs t"
  by (auto simp: covered_def)

lemma piece_of_covered: "from \<le> t \<Longrightarrow> t < to \<Longrightarrow> from \<in> A \<Longrightarrow> to \<in> B \<Longrightarrow> covered (piece_of s from to) t \<or> splinter A B t"
  using piece_of_covers [of "from" t to s] by (auto simp: covered_def splinter_def)

lemma pieces_between_covers:
  assumes "from \<le> t" "t < endedAt s" "\<forall>k \<in> set holes. \<not> (fst k \<le> t \<and> t < snd k)"
    and "insert from (snd ` set holes) \<subseteq> A" "insert (endedAt s) (fst ` set holes) \<subseteq> B"
  shows "covered (pieces_between s from holes) t \<or> splinter A B t"
  using assms
proof (induction s "from" holes rule: pieces_between.induct)
  case (1 s from')
  then show ?case using piece_of_covered [of from' t "endedAt s" A B s] by simp
next
  case (2 s from' hole_start hole_end holes)
  show ?case
  proof (cases "hole_end \<le> from' \<or> endedAt s \<le> hole_start")
    case True
    with 2 show ?thesis by simp
  next
    case False
    consider "t < hole_start" | "max from' hole_end \<le> t"
      using 2(3,5) by force
    then show ?thesis
    proof cases
      case 1
      then show ?thesis
        using piece_of_covered [of from' t "max from' hole_start" A B s] 2(3,6,7) False
        by (auto simp: covered_append max_def split: if_splits)
    next
      case m: 2
      have "insert (max from' hole_end) (snd ` set holes) \<subseteq> A"
        using 2(6) by (auto simp: max_def)
      then show ?thesis using 2(2) [OF False m 2(4)] 2(5,7) False by (simp add: covered_append)
    qed
  qed
qed

definition hole_order :: "(millis \<times> millis) list \<Rightarrow> (millis \<times> millis) list" where
  "hole_order kept = sort_cmp (on_key fst by_number) kept"

lemma hole_order: "sorted (map fst (hole_order kept))" "set (hole_order kept) = set kept"
  using comparator.sorted_sort_cmp [OF numbers.comparator_on_key, of fst kept]
  by (simp_all add: hole_order_def on_key_def by_number_def sorted_wrt_map sorted_map)

lemma withoutIntervals_pieces:
  "withoutIntervals ss kept = concat (map (\<lambda>s. pieces_between s (startedAt s) (hole_order kept)) ss)"
  by (simp add: withoutIntervals_def hole_order_def)

text \<open>
  A cut day never pays an hour twice. When every kept interval starts before it ends, the
  stretches \<open>withoutIntervals\<close> returns lie inside the ones it was given, keep their category and
  property, have a positive rounded duration with at most that much silence, and never overlap
  a kept interval.
\<close>


theorem kept_hours_are_cut_out:
  assumes kept: "\<forall>(a, b) \<in> set kept. a \<le> b"
  shows "\<forall>p \<in> set (withoutIntervals ss kept).
    (\<exists>s \<in> set ss. startedAt s \<le> startedAt p \<and> endedAt p \<le> endedAt s \<and>
       st_category p = st_category s \<and> st_fenceId p = st_fenceId s) \<and>
    0 < durationSeconds p \<and> durationSeconds p = js_round (seconds_of (endedAt p - startedAt p)) \<and>
    quietSeconds p \<le> durationSeconds p \<and>
    (\<forall>(a, b) \<in> set kept. endedAt p \<le> a \<or> b \<le> startedAt p)"
proof
  fix p
  assume "p \<in> set (withoutIntervals ss kept)"
  then obtain s where s: "s \<in> set ss" and p: "p \<in> set (pieces_between s (startedAt s) (hole_order kept))"
    by (auto simp: withoutIntervals_pieces)
  have "\<forall>k \<in> set (hole_order kept). fst k \<le> snd k"
    using kept by (auto simp: hole_order)
  from pieces_between_mem [OF hole_order(1) this p] s
  show "(\<exists>s \<in> set ss. startedAt s \<le> startedAt p \<and> endedAt p \<le> endedAt s \<and>
       st_category p = st_category s \<and> st_fenceId p = st_fenceId s) \<and>
    0 < durationSeconds p \<and> durationSeconds p = js_round (seconds_of (endedAt p - startedAt p)) \<and>
    quietSeconds p \<le> durationSeconds p \<and>
    (\<forall>(a, b) \<in> set kept. endedAt p \<le> a \<or> b \<le> startedAt p)"
    by (fastforce simp: hole_order)
qed

definition eight_hours :: ledger_stretch where
  "eight_hours = \<lparr>st_category = ONSITE, st_fenceId = Some ''A'', startedAt = 0, endedAt = 28800000,
     durationSeconds = 28800, quietSeconds = 600\<rparr>"

theorem kept_hours_are_cut_out_witness:
  "endedAt (withoutIntervals [eight_hours] [(20000000, 21000000), (3600000, 7200000)] ! 1) \<le> 3600000 \<or>
   7200000 \<le> startedAt (withoutIntervals [eight_hours] [(20000000, 21000000), (3600000, 7200000)] ! 1)"
proof -
  let ?kept = "[(20000000, 21000000), (3600000, 7200000)] :: (millis \<times> millis) list"
  have "length (withoutIntervals [eight_hours] ?kept) = 3"
    by (simp add: withoutIntervals_def eight_hours_def piece_of_def js_round_seconds on_key_def by_number_def Let_def)
  then have "withoutIntervals [eight_hours] ?kept ! 1 \<in> set (withoutIntervals [eight_hours] ?kept)"
    by (intro nth_mem) simp
  then show ?thesis
    using kept_hours_are_cut_out [of ?kept "[eight_hours]"] by fastforce
qed

text \<open>
  Nothing else is cut out. The pieces of one stretch are in order and do not overlap, and
  every instant of it that no kept interval covers is in one of them, or in a splinter of less
  than half a second between two cuts.
\<close>

theorem nothing_else_is_cut_out:
  assumes kept: "\<forall>(a, b) \<in> set kept. a \<le> b"
  shows "sorted_wrt (\<lambda>p q. endedAt p \<le> startedAt q) (withoutIntervals [s] kept) \<and>
    (\<forall>t. startedAt s \<le> t \<longrightarrow> t < endedAt s \<longrightarrow> (\<forall>(a, b) \<in> set kept. \<not> (a \<le> t \<and> t < b)) \<longrightarrow>
      covered (withoutIntervals [s] kept) t \<or>
      splinter (insert (startedAt s) (snd ` set kept)) (insert (endedAt s) (fst ` set kept)) t)"
proof (intro conjI allI impI)
  have "\<forall>k \<in> set (hole_order kept). fst k \<le> snd k"
    using kept by (auto simp: hole_order)
  from pieces_between_ordered [OF hole_order(1) this]
  show "sorted_wrt (\<lambda>p q. endedAt p \<le> startedAt q) (withoutIntervals [s] kept)"
    by (simp add: withoutIntervals_pieces)
next
  fix t
  assume t: "startedAt s \<le> t" "t < endedAt s" "\<forall>(a, b) \<in> set kept. \<not> (a \<le> t \<and> t < b)"
  then have "\<forall>k \<in> set (hole_order kept). \<not> (fst k \<le> t \<and> t < snd k)"
    by (auto simp: hole_order)
  from pieces_between_covers [OF t(1,2) this,
      of "insert (startedAt s) (snd ` set kept)" "insert (endedAt s) (fst ` set kept)"]
  show "covered (withoutIntervals [s] kept) t \<or>
      splinter (insert (startedAt s) (snd ` set kept)) (insert (endedAt s) (fst ` set kept)) t"
    by (simp add: withoutIntervals_pieces hole_order)
qed

theorem nothing_else_is_cut_out_witness: "covered (withoutIntervals [eight_hours] [(3600000, 7200000)]) 9000000"
proof -
  have "covered (withoutIntervals [eight_hours] [(3600000, 7200000)]) 9000000 \<or>
      splinter (insert (startedAt eight_hours) (snd ` set [(3600000 :: millis, 7200000 :: millis)]))
        (insert (endedAt eight_hours) (fst ` set [(3600000 :: millis, 7200000 :: millis)])) 9000000"
    using nothing_else_is_cut_out [of "[(3600000, 7200000)]" eight_hours]
    by (auto simp: eight_hours_def)
  then show ?thesis by (auto simp: eight_hours_def splinter_def)
qed

section \<open>A silent trail\<close>

text \<open>A property near enough to claim a fix claims it wherever the technician was before.\<close>

lemma place_scan_nearest: "fst (place_scan here was fences n m) = fst (place_scan here was' fences n m')"
  by (induction fences arbitrary: n m m') (simp_all add: Let_def)

lemma place_scan_nowhere: "snd (place_scan here None fences n None) = None"
  by (induction fences arbitrary: n) (simp_all add: Let_def)

lemma placeOf_claimed: "placeOf f fences None = Some p \<Longrightarrow> placeOf f fences was = Some p"
  using place_scan_nearest [of "fix_at f" was fences None None None None] place_scan_nowhere [of "fix_at f" fences None]
  by (auto simp: placeOf_def split: option.splits prod.splits)

fun trail_silence :: "segment_settings \<Rightarrow> millis \<Rightarrow> segment_fix list \<Rightarrow> real" where
  "trail_silence settings lastAt [] = 0"
| "trail_silence settings lastAt (f # fs) =
     (if maxFixGapSeconds settings < seconds_of (fix_time f - lastAt) then seconds_of (fix_time f - lastAt) else 0) +
     trail_silence settings (fix_time f) fs"

lemma ledger_stay:
  assumes "ls_candidate s = None" "run_place (ls_current s) = Some p" "run_to (ls_current s) = ls_lastAt s"
    and "\<forall>f \<in> set fs. placeOf f fences None = Some p"
  shows "foldl (ledger_step settings fences) s fs =
    s\<lparr>ls_lastAt := last (ls_lastAt s # map fix_time fs),
      ls_current := (ls_current s)\<lparr>run_to := last (ls_lastAt s # map fix_time fs),
        run_quiet := run_quiet (ls_current s) + trail_silence settings (ls_lastAt s) fs\<rparr>\<rparr>"
  using assms
proof (induction fs arbitrary: s)
  case Nil
  then show ?case by simp
next
  case (Cons f fs)
  have f: "placeOf f fences (Some p) = Some p"
    by (rule placeOf_claimed) (use Cons(5) in simp)
  let ?s = "ledger_step settings fences s f"
  let ?gap = "seconds_of (fix_time f - ls_lastAt s)"
  have s: "?s = s\<lparr>ls_lastAt := fix_time f,
      ls_current := (ls_current s)\<lparr>run_to := fix_time f, run_quiet := run_quiet (ls_current s) +
        (if maxFixGapSeconds settings < ?gap then ?gap else 0)\<rparr>\<rparr>"
    using Cons(2,3) f by (simp add: ledger_step_def Let_def)
  have "foldl (ledger_step settings fences) ?s fs =
    ?s\<lparr>ls_lastAt := last (ls_lastAt ?s # map fix_time fs),
      ls_current := (ls_current ?s)\<lparr>run_to := last (ls_lastAt ?s # map fix_time fs),
        run_quiet := run_quiet (ls_current ?s) + trail_silence settings (ls_lastAt ?s) fs\<rparr>\<rparr>"
    using Cons(2-5) by (intro Cons.IH) (simp_all add: s)
  then show ?case by (simp add: s add.assoc)
qed

lemma ledger_visit:
  assumes "\<forall>g \<in> set (f # fs). placeOf g fences None = Some p"
  shows "foldl (ledger_step settings fences) (ledger_start fences f) fs =
    \<lparr>ls_runs = [],
     ls_current = \<lparr>run_place = Some p, run_from = fix_time f, run_to = last (map fix_time (f # fs)),
       run_quiet = trail_silence settings (fix_time f) fs\<rparr>,
     ls_candidate = None, ls_lastAt = last (map fix_time (f # fs))\<rparr>"
  using assms by (subst ledger_stay [where p = p]) (simp_all add: ledger_start_def)

lemma computeDayLedger_some:
  assumes "filter (\<lambda>f. usable f settings) fs = f # fs'" "fs' \<noteq> []" "fences \<noteq> []"
  shows "dl_stretches (computeDayLedger fs fences settings) =
    map stretch_of (trim_general (foldl join_run [] (ledger_runs settings fences f fs')))"
  using assms by (cases fs') (simp_all add: computeDayLedger_def Let_def)

text \<open>
  A silent trail does not stop the clock. When every usable fix of a day is claimed by the
  same property, the day is one stretch on site there, from the first fix to the last, however
  long the gaps between them; the gaps longer than \<open>maxFixGapSeconds\<close> are its silent part.
\<close>

theorem silence_keeps_the_visit:
  assumes u: "filter (\<lambda>f. usable f settings) fs = f # fs'" and "fix_time f < last (map fix_time (f # fs'))"
    and at: "\<forall>g \<in> set (f # fs'). placeOf g fences None = Some p"
  shows "dl_stretches (computeDayLedger fs fences settings) =
    [\<lparr>st_category = ONSITE, st_fenceId = Some p,
      startedAt = fix_time f, endedAt = last (map fix_time (f # fs')),
      durationSeconds = js_round (seconds_of (last (map fix_time (f # fs')) - fix_time f)),
      quietSeconds = js_round (trail_silence settings (fix_time f) fs')\<rparr>]"
proof -
  have "fs' \<noteq> []" using assms(2) by auto
  moreover have "fences \<noteq> []"
    using at by (auto simp: placeOf_def)
  ultimately show ?thesis
    using assms(2)
    by (simp add: computeDayLedger_some [OF u] ledger_runs_def ledger_visit [OF at] Let_def join_run_def trim_general_def stretch_of_def)
qed

lemma silence_between:
  assumes u: "filter (\<lambda>f. usable f settings) fs = f # xs @ g # ys"
    and p: "\<forall>h \<in> set (f # xs). placeOf h fences None = Some p"
    and q: "\<forall>h \<in> set (g # ys). placeOf h fences None = Some q" and "p \<noteq> q"
    and "left = last (map fix_time (f # xs))" "fix_time f < left" "fix_time g < last (map fix_time (g # ys))"
    and gap: "maxFixGapSeconds settings < seconds_of (fix_time g - left)" "0 \<le> maxFixGapSeconds settings"
  shows "map (\<lambda>s. (st_fenceId s, startedAt s, endedAt s)) (dl_stretches (computeDayLedger fs fences settings)) =
    [(Some p, fix_time f, left), (None, left, fix_time g), (Some q, fix_time g, last (map fix_time (g # ys)))]"
proof -
  have "fences \<noteq> []"
    using p by (auto simp: placeOf_def)
  have g: "placeOf g fences (Some p) = Some q"
    by (rule placeOf_claimed) (use q in simp)
  have "left < fix_time g"
    using gap seconds_of_simps(3) [of "fix_time g - left"]
    by (metis diff_gt_0_iff_gt less_le_trans less_imp_le linorder_not_less seconds_of_simps(1,2))
  let ?s = "foldl (ledger_step settings fences) (ledger_start fences f) xs"
  have s: "ledger_step settings fences ?s g =
    \<lparr>ls_runs = [\<lparr>run_place = Some p, run_from = fix_time f, run_to = left, run_quiet = trail_silence settings (fix_time f) xs\<rparr>,
        \<lparr>run_place = None, run_from = left, run_to = fix_time g, run_quiet = seconds_of (fix_time g - left)\<rparr>],
      ls_current = \<lparr>run_place = Some q, run_from = fix_time g, run_to = fix_time g, run_quiet = 0\<rparr>,
      ls_candidate = None, ls_lastAt = fix_time g\<rparr>"
    using g gap \<open>p \<noteq> q\<close> assms(5) by (simp add: ledger_visit [OF p] ledger_step_def Let_def)
  have "foldl (ledger_step settings fences) (ledger_step settings fences ?s g) ys =
    (ledger_step settings fences ?s g)\<lparr>ls_lastAt := last (map fix_time (g # ys)),
      ls_current := \<lparr>run_place = Some q, run_from = fix_time g, run_to = last (map fix_time (g # ys)),
        run_quiet = trail_silence settings (fix_time g) ys\<rparr>\<rparr>"
    using q by (subst ledger_stay [where p = q]) (simp_all add: s)
  then have "ledger_runs settings fences f (xs @ g # ys) =
    [\<lparr>run_place = Some p, run_from = fix_time f, run_to = left, run_quiet = trail_silence settings (fix_time f) xs\<rparr>,
     \<lparr>run_place = None, run_from = left, run_to = fix_time g, run_quiet = seconds_of (fix_time g - left)\<rparr>,
     \<lparr>run_place = Some q, run_from = fix_time g, run_to = last (map fix_time (g # ys)),
      run_quiet = trail_silence settings (fix_time g) ys\<rparr>]"
    by (simp add: ledger_runs_def s Let_def)
  then show ?thesis
    using \<open>left < fix_time g\<close> \<open>fences \<noteq> []\<close> assms(6,7)
    by (simp add: computeDayLedger_some [OF u] join_run_def trim_general_def stretch_of_def)
qed

text \<open>
  Found elsewhere after a silence, the technician left when last seen. When the usable
  fixes are first all at one property and then all at another, with a gap longer than
  \<open>maxFixGapSeconds\<close> between, the day is three stretches: the first visit up to the last fix
  that saw them there, the silence as general time, and the second visit from its first fix.
\<close>

theorem silence_ends_the_visit:
  assumes u: "filter (\<lambda>f. usable f settings) fs = f # xs @ g # ys"
    and p: "\<forall>h \<in> set (f # xs). placeOf h fences None = Some p"
    and q: "\<forall>h \<in> set (g # ys). placeOf h fences None = Some q" and "p \<noteq> q"
    and "left = last (map fix_time (f # xs))" "fix_time f < left" "fix_time g < last (map fix_time (g # ys))"
    and gap: "maxFixGapSeconds settings < seconds_of (fix_time g - left)" "0 \<le> maxFixGapSeconds settings"
  shows "map (\<lambda>s. (st_fenceId s, startedAt s, endedAt s)) (dl_stretches (computeDayLedger fs fences settings)) =
    [(Some p, fix_time f, left), (None, left, fix_time g), (Some q, fix_time g, last (map fix_time (g # ys)))]"
  using assms by (rule silence_between)

text \<open>A concrete day: two properties a degree of latitude apart, one silent stretch between them.\<close>

definition house_a :: day_fence where
  "house_a = \<lparr>fence_id = ''A'', fence_at = \<lparr>latitude = 29, longitude = -95\<rparr>, enterRadiusMeters = 20, exitRadiusMeters = 30\<rparr>"

definition house_b :: day_fence where
  "house_b = \<lparr>fence_id = ''B'', fence_at = \<lparr>latitude = 30, longitude = -95\<rparr>, enterRadiusMeters = 20, exitRadiusMeters = 30\<rparr>"

definition fix_of :: "day_fence \<Rightarrow> millis \<Rightarrow> segment_fix" where
  "fix_of fence t = \<lparr>fix_at = fence_at fence, accuracyMeters = Some 5, fix_time = t\<rparr>"

lemma fix_of_simps [simp]: "fix_time (fix_of fence t) = t" "usable (fix_of fence t) SEGMENT_DEFAULTS"
  by (simp_all add: fix_of_def usable_def SEGMENT_DEFAULTS_def)

lemma houses_apart:
  "20 < haversineMeters (fence_at house_a) (fence_at house_b)" "20 < haversineMeters (fence_at house_b) (fence_at house_a)"
proof -
  have "haversineMeters (fence_at house_a) (fence_at house_b) = EARTH_RADIUS_M * (pi / 180)"
    by (subst haversineMeters_meridian) (simp_all add: house_a_def house_b_def)
  moreover have "EARTH_RADIUS_M * (2 / 180) \<le> EARTH_RADIUS_M * (pi / 180)"
    using pi_ge_two by (intro mult_left_mono) (simp_all add: EARTH_RADIUS_M_def)
  ultimately show "20 < haversineMeters (fence_at house_a) (fence_at house_b)"
    by (simp add: EARTH_RADIUS_M_def)
  then show "20 < haversineMeters (fence_at house_b) (fence_at house_a)"
    by (simp add: haversineMeters_commute)
qed

lemma placed:
  "placeOf (fix_of house_a t) [house_a, house_b] None = Some ''A''"
  "placeOf (fix_of house_b t) [house_a, house_b] None = Some ''B''"
proof -
  have a: "fence_id house_a = ''A''" "enterRadiusMeters house_a = 20" and b: "fence_id house_b = ''B''" "enterRadiusMeters house_b = 20"
    by (simp_all add: house_a_def house_b_def)
  show "placeOf (fix_of house_a t) [house_a, house_b] None = Some ''A''"
    using houses_apart(1) by (simp add: placeOf_def fix_of_def a b Let_def)
  show "placeOf (fix_of house_b t) [house_a, house_b] None = Some ''B''"
    using houses_apart(2) by (simp add: placeOf_def fix_of_def a b Let_def)
qed

theorem silence_keeps_the_visit_witness:
  "dl_stretches (computeDayLedger [fix_of house_a 0, fix_of house_a 60000, fix_of house_a 7200000] [house_a, house_b] SEGMENT_DEFAULTS) =
    [\<lparr>st_category = ONSITE, st_fenceId = Some ''A'', startedAt = 0, endedAt = 7200000,
      durationSeconds = 7200, quietSeconds = 7140\<rparr>]"
proof -
  have "js_round (trail_silence SEGMENT_DEFAULTS 0 [fix_of house_a 60000, fix_of house_a 7200000]) = 7140"
    using js_round_of_int [of 7140] by (simp add: SEGMENT_DEFAULTS_def seconds_of_def)
  then show ?thesis
    using silence_keeps_the_visit [of SEGMENT_DEFAULTS "[fix_of house_a 0, fix_of house_a 60000, fix_of house_a 7200000]"
        "fix_of house_a 0" "[fix_of house_a 60000, fix_of house_a 7200000]" "[house_a, house_b]" "''A''"]
    by (simp add: placed js_round_seconds)
qed

definition moved_day :: "segment_fix list" where
  "moved_day = [fix_of house_a 0, fix_of house_a 3600000, fix_of house_b 7200000, fix_of house_b 9000000]"

lemma moved_day_stretches:
  "map (\<lambda>s. (st_fenceId s, startedAt s, endedAt s)) (dl_stretches (computeDayLedger moved_day [house_a, house_b] SEGMENT_DEFAULTS)) =
    [(Some ''A'', 0, 3600000), (None, 3600000, 7200000), (Some ''B'', 7200000, 9000000)]"
  using silence_between [of SEGMENT_DEFAULTS moved_day "fix_of house_a 0" "[fix_of house_a 3600000]"
      "fix_of house_b 7200000" "[fix_of house_b 9000000]" "[house_a, house_b]" "''A''" "''B''" 3600000]
  by (simp add: placed moved_day_def SEGMENT_DEFAULTS_def [THEN arg_cong [where f = maxFixGapSeconds]] seconds_of_def)

theorem silence_ends_the_visit_witness:
  "map (\<lambda>s. (st_fenceId s, startedAt s, endedAt s)) (dl_stretches (computeDayLedger moved_day [house_a, house_b] SEGMENT_DEFAULTS)) =
    [(Some ''A'', 0, 3600000), (None, 3600000, 7200000), (Some ''B'', 7200000, 9000000)]"
  using silence_ends_the_visit [of SEGMENT_DEFAULTS moved_day "fix_of house_a 0" "[fix_of house_a 3600000]"
      "fix_of house_b 7200000" "[fix_of house_b 9000000]" "[house_a, house_b]" "''A''" "''B''" 3600000]
  by (simp add: placed moved_day_def SEGMENT_DEFAULTS_def [THEN arg_cong [where f = maxFixGapSeconds]] seconds_of_def)

theorem day_has_no_holes_witness:
  "successively (\<lambda>s t. endedAt s = startedAt t \<and> st_fenceId s \<noteq> st_fenceId t)
    (dl_stretches (computeDayLedger moved_day [house_a, house_b] SEGMENT_DEFAULTS))"
  using day_has_no_holes [of moved_day "[house_a, house_b]" SEGMENT_DEFAULTS, OF _ refl]
  by (simp add: moved_day_def)

lemma successively_total:
  assumes "successively (\<lambda>s t. endedAt s = startedAt t \<and> st_fenceId s \<noteq> st_fenceId t) ss" "ss \<noteq> []"
  shows "(\<Sum>s \<leftarrow> ss. endedAt s - startedAt s) = endedAt (last ss) - startedAt (hd ss)"
  using assms
proof (induction ss)
  case (Cons s ss)
  then show ?case by (cases ss) auto
qed simp

lemma secondsIn_sum: "secondsIn ss c = (\<Sum>s \<leftarrow> ss. if st_category s = c then durationSeconds s else 0)"
proof -
  have "foldl (\<lambda>sum s. if st_category s = c then sum + durationSeconds s else sum) n ss =
      n + (\<Sum>s \<leftarrow> ss. if st_category s = c then durationSeconds s else 0)" for n
    by (induction ss arbitrary: n) simp_all
  then show ?thesis by (simp add: secondsIn_def)
qed

lemma secondsIn_both: "secondsIn ss ONSITE + secondsIn ss GENERAL = (\<Sum>s \<leftarrow> ss. durationSeconds s)"
proof -
  have "(if st_category s = ONSITE then d else 0) + (if st_category s = GENERAL then d else 0) = d" for s :: ledger_stretch and d :: int
    by (cases "st_category s") simp_all
  then show ?thesis by (simp add: secondsIn_sum sum_list_addf [symmetric])
qed

lemma rounding: "\<bar>2000 * js_round (seconds_of ms) - 2 * ms\<bar> \<le> 1000"
  unfolding js_round_seconds by linarith

lemma rounding_sum:
  "(\<forall>s \<in> set ss. durationSeconds s = js_round (seconds_of (endedAt s - startedAt s))) \<Longrightarrow>
   \<bar>2000 * (\<Sum>s \<leftarrow> ss. durationSeconds s) - 2 * (\<Sum>s \<leftarrow> ss. endedAt s - startedAt s)\<bar> \<le> 1000 * int (length ss)"
proof (induction ss)
  case (Cons s ss)
  then show ?case using rounding [of "endedAt s - startedAt s"] by (simp add: algebra_simps)
qed simp

text \<open>
  C26. The columns of a timesheet add up to the day. Given fixes in time order, the intervals of
  the day's stretches sum to exactly the time between the first arrival and the last departure,
  and the two totals \<open>secondsIn\<close> gives, on site and general, together differ from it by at most
  half a second for each stretch, which is the rounding.
\<close>

theorem timesheet_adds_up:
  assumes "sorted (map fix_time fs)" "dl_stretches (computeDayLedger fs fences settings) = ss" "ss \<noteq> []"
  shows "(\<Sum>s \<leftarrow> ss. endedAt s - startedAt s) = endedAt (last ss) - startedAt (hd ss) \<and>
    \<bar>2000 * (secondsIn ss ONSITE + secondsIn ss GENERAL) - 2 * (endedAt (last ss) - startedAt (hd ss))\<bar> \<le> 1000 * int (length ss)"
proof -
  note shape = ledger_shape [OF assms(1,2)]
  have total: "(\<Sum>s \<leftarrow> ss. endedAt s - startedAt s) = endedAt (last ss) - startedAt (hd ss)"
    using shape assms(3) by (intro successively_total) simp_all
  moreover have "\<bar>2000 * (\<Sum>s \<leftarrow> ss. durationSeconds s) - 2 * (\<Sum>s \<leftarrow> ss. endedAt s - startedAt s)\<bar> \<le> 1000 * int (length ss)"
    using shape by (intro rounding_sum) blast
  ultimately show ?thesis by (simp only: secondsIn_both total)
qed

theorem timesheet_adds_up_witness:
  "(\<Sum>s \<leftarrow> dl_stretches (computeDayLedger moved_day [house_a, house_b] SEGMENT_DEFAULTS). endedAt s - startedAt s) = 9000000"
proof -
  let ?ss = "dl_stretches (computeDayLedger moved_day [house_a, house_b] SEGMENT_DEFAULTS)"
  have m: "map (\<lambda>s. (st_fenceId s, startedAt s, endedAt s)) ?ss = [(Some ''A'', 0, 3600000), (None, 3600000, 7200000), (Some ''B'', 7200000, 9000000)]"
    by (rule moved_day_stretches)
  then have "?ss \<noteq> []" by auto
  moreover have "startedAt (hd ?ss) = 0" "endedAt (last ?ss) = 9000000"
    using m \<open>?ss \<noteq> []\<close> by (cases ?ss; force)+
  ultimately show ?thesis
    using timesheet_adds_up [of moved_day "[house_a, house_b]" SEGMENT_DEFAULTS, OF _ refl]
    by (simp add: moved_day_def)
qed

text \<open>
  \<open>geofenceRadiusProblem\<close> accepts exactly the pairs of whole numbers of metres within
  10 to 500 whose departure distance is the larger one.
\<close>

theorem geofence_rule:
  "geofenceRadiusProblem a d = None \<longleftrightarrow>
    (\<exists>m n. a = of_int m \<and> d = of_int n \<and> 10 \<le> m \<and> m < n \<and> n \<le> 500)"
proof -
  have ok: "radius_problem what v = None \<longleftrightarrow> (\<exists>m. v = of_int m \<and> 10 \<le> m \<and> m \<le> 500)" for what v
    by (auto simp: radius_problem_def is_integer_def GEOFENCE_MIN_METERS_def GEOFENCE_MAX_METERS_def not_less) 
  have "geofenceRadiusProblem a d = None \<longleftrightarrow>
      radius_problem ''arrival'' a = None \<and> radius_problem ''departure'' d = None \<and> a < d"
    by (simp add: geofenceRadiusProblem_def not_le split: option.split)
  then show ?thesis by (auto simp: ok)
qed

end
