(* ===== verification/Local_Search.thy ===== *)
theory Local_Search
  imports Prelude
begin

text \<open>
  The 2-opt pass that \<open>twoOpt\<close> (\<open>shared/src/contracts/route-plan.ts\<close>) and \<open>polished\<close>
  (\<open>shared/src/contracts/quarter-assignment.ts\<close>) both are: reverse a segment whenever that is
  better, until a whole pass changes nothing. The two differ in what an order costs and in how
  \<open>better\<close> is written; the locale holds what follows from any strict notion of better.
\<close>

definition slice :: "nat \<Rightarrow> nat \<Rightarrow> 'a list \<Rightarrow> 'a list" where
  "slice i j xs = take (j - i) (drop i xs)"

definition reverse_segment :: "nat \<Rightarrow> nat \<Rightarrow> 'a list \<Rightarrow> 'a list" where
  "reverse_segment i j xs = slice 0 i xs @ rev (slice i (j + 1) xs) @ drop (j + 1) xs"

record ('a, 'c) search =
  sr_best :: "'a list"
  sr_cost :: 'c
  sr_improved :: bool

definition segments :: "nat \<Rightarrow> (nat \<times> nat) list" where
  "segments n = concat (map (\<lambda>i. map (\<lambda>j. (i, j)) [i + 1..<n]) [0..<n - 1])"

definition try_segment ::
  "('a list \<Rightarrow> 'c) \<Rightarrow> ('c \<Rightarrow> 'c \<Rightarrow> bool) \<Rightarrow> ('a, 'c) search \<Rightarrow> nat \<times> nat \<Rightarrow> ('a, 'c) search" where
  "try_segment cost better s ij =
     (let candidate = reverse_segment (fst ij) (snd ij) (sr_best s)
      in if better (cost candidate) (sr_cost s)
         then \<lparr>sr_best = candidate, sr_cost = cost candidate, sr_improved = True\<rparr> else s)"

definition two_opt_pass :: "('a list \<Rightarrow> 'c) \<Rightarrow> ('c \<Rightarrow> 'c \<Rightarrow> bool) \<Rightarrow> 'a list \<Rightarrow> 'c \<Rightarrow> ('a, 'c) search" where
  "two_opt_pass cost better best bestCost =
     foldl (try_segment cost better) \<lparr>sr_best = best, sr_cost = bestCost, sr_improved = False\<rparr> (segments (length best))"

lemma mset_reverse_segment [simp]: "i \<le> j \<Longrightarrow> mset (reverse_segment i j xs) = mset xs"
proof -
  assume "i \<le> j"
  then have "xs = take i xs @ take (j + 1 - i) (drop i xs) @ drop (j + 1) xs"
    by (metis append_take_drop_id drop_drop add_diff_inverse_nat less_imp_le_nat linorder_not_less less_Suc_eq_le Suc_eq_plus1 le_add_diff_inverse2)
  then have "mset xs = mset (take i xs) + mset (take (j + 1 - i) (drop i xs)) + mset (drop (j + 1) xs)"
    by (metis mset_append add.assoc)
  then show ?thesis by (simp add: reverse_segment_def slice_def)
qed

lemma set_segments: "set (segments n) = {(i, j). i < j \<and> j < n}"
proof -
  have "i \<in> {0..<n - 1}" if "i < j" "j < n" for i j :: nat
    using that by simp
  then show ?thesis by (fastforce simp: segments_def)
qed

definition lower_orders :: "('a list \<Rightarrow> 'c :: linorder) \<Rightarrow> 'a list \<Rightarrow> 'c \<Rightarrow> 'a list set" where
  "lower_orders cost best c = {q. mset q = mset best \<and> cost q < c}"

lemma finite_lower_orders [simp]: "finite (lower_orders cost best c)"
proof -
  have "lower_orders cost best c \<subseteq> {q. set q \<subseteq> set best \<and> length q = length best}"
    by (auto simp: lower_orders_def dest: mset_eq_setD mset_eq_length)
  then show ?thesis by (rule finite_subset) (simp add: finite_lists_length_eq)
qed

locale local_search =
  fixes cost :: "'a list \<Rightarrow> 'c :: linorder" and better :: "'c \<Rightarrow> 'c \<Rightarrow> bool"
  assumes strict: "better a b \<Longrightarrow> a < b"
begin

abbreviation attempt :: "('a, 'c) search \<Rightarrow> nat \<times> nat \<Rightarrow> ('a, 'c) search" where
  "attempt \<equiv> try_segment cost better"

lemma attempt_mset: "i \<le> j \<Longrightarrow> mset (sr_best (attempt s (i, j))) = mset (sr_best s)"
  by (simp add: try_segment_def Let_def)

lemma attempts:
  assumes "\<forall>(i, j) \<in> set ps. i \<le> j"
  shows "mset (sr_best (foldl attempt s ps)) = mset (sr_best s) \<and>
    sr_cost (foldl attempt s ps) \<le> sr_cost s \<and>
    (sr_improved s \<longrightarrow> sr_improved (foldl attempt s ps)) \<and>
    (sr_cost s = cost (sr_best s) \<longrightarrow> sr_cost (foldl attempt s ps) = cost (sr_best (foldl attempt s ps))) \<and>
    (foldl attempt s ps = s \<and> (\<forall>(i, j) \<in> set ps. \<not> better (cost (reverse_segment i j (sr_best s))) (sr_cost s)) \<or>
     sr_improved (foldl attempt s ps) \<and> sr_cost (foldl attempt s ps) < sr_cost s \<and>
     sr_cost (foldl attempt s ps) = cost (sr_best (foldl attempt s ps)))"
  using assms
proof (induction ps arbitrary: s)
  case (Cons p ps)
  obtain i j where p: "p = (i, j)" "i \<le> j" using Cons.prems by (cases p) auto
  show ?case
  proof (cases "better (cost (reverse_segment i j (sr_best s))) (sr_cost s)")
    case False
    then have "attempt s p = s" by (simp add: try_segment_def p)
    then show ?thesis using Cons False by (auto simp: p)
  next
    case True
    then have a: "attempt s p = \<lparr>sr_best = reverse_segment i j (sr_best s),
        sr_cost = cost (reverse_segment i j (sr_best s)), sr_improved = True\<rparr>"
      by (simp add: try_segment_def p Let_def)
    note less = strict [OF True]
    have "\<forall>(i, j) \<in> set ps. i \<le> j" using Cons.prems by simp
    from Cons.IH [OF this, of "attempt s p"] show ?thesis
      using less p(2) by (auto simp: a)
  qed
qed simp

lemma segments_ordered: "\<forall>(i, j) \<in> set (segments n). i \<le> j"
  by (auto simp: set_segments)

lemmas pass = attempts [OF segments_ordered, of "\<lparr>sr_best = best, sr_cost = bestCost, sr_improved = False\<rparr>" "length best" for best bestCost,
    folded two_opt_pass_def, simplified]

lemma pass_decreases:
  assumes "sr_improved (two_opt_pass cost better best c)"
  shows "card (lower_orders cost (sr_best (two_opt_pass cost better best c)) (sr_cost (two_opt_pass cost better best c))) <
    card (lower_orders cost best c)"
proof -
  let ?p = "two_opt_pass cost better best c"
  have p: "mset (sr_best ?p) = mset best" "sr_cost ?p < c" "sr_cost ?p = cost (sr_best ?p)"
    using pass [of best c] assms by auto
  have "lower_orders cost (sr_best ?p) (sr_cost ?p) \<subset> lower_orders cost best c"
  proof
    show "lower_orders cost (sr_best ?p) (sr_cost ?p) \<subseteq> lower_orders cost best c"
      using p by (auto simp: lower_orders_def)
    have "sr_best ?p \<in> lower_orders cost best c" "sr_best ?p \<notin> lower_orders cost (sr_best ?p) (sr_cost ?p)"
      using p by (auto simp: lower_orders_def)
    then show "lower_orders cost (sr_best ?p) (sr_cost ?p) \<noteq> lower_orders cost best c" by blast
  qed
  then show ?thesis by (simp add: psubset_card_mono)
qed

lemma pass_done:
  assumes "\<not> sr_improved (two_opt_pass cost better best c)"
  shows "sr_best (two_opt_pass cost better best c) = best \<and> sr_cost (two_opt_pass cost better best c) = c \<and>
    (\<forall>i j. i < j \<longrightarrow> j < length best \<longrightarrow> \<not> better (cost (reverse_segment i j best)) c)"
  using pass [of best c] assms by (auto simp: set_segments)

lemma pass_keeps:
  "mset (sr_best (two_opt_pass cost better best c)) = mset best"
  "sr_cost (two_opt_pass cost better best c) \<le> c"
  "c = cost best \<Longrightarrow> sr_cost (two_opt_pass cost better best c) = cost (sr_best (two_opt_pass cost better best c))"
  using pass [of best c] by auto

end

end
