(* ===== verification/Travel_Times.thy ===== *)
theory Travel_Times
  imports Local_Search Geo
begin

text \<open>
  Travel times between the stops of a day, as \<open>shared/src/contracts/route-plan.ts\<close> has them:
  real numbers of seconds or \<open>Infinity\<close>, which Google leaves for a pair it could not measure
  (the datatype \<open>duration\<close>, made a linear order and an ordered monoid), the matrix they come
  in, and what driving an order costs (\<open>routeDuration\<close>).
\<close>

section \<open>Durations\<close>

datatype duration = Secs real | Unmeasured

instantiation duration :: linorder
begin

definition less_eq_duration :: "duration \<Rightarrow> duration \<Rightarrow> bool" where
  "less_eq_duration a b =
     (case b of Unmeasured \<Rightarrow> True | Secs y \<Rightarrow> (case a of Unmeasured \<Rightarrow> False | Secs x \<Rightarrow> x \<le> y))"

definition less_duration :: "duration \<Rightarrow> duration \<Rightarrow> bool" where
  "less_duration a b =
     (case a of Unmeasured \<Rightarrow> False | Secs x \<Rightarrow> (case b of Unmeasured \<Rightarrow> True | Secs y \<Rightarrow> x < y))"

instance
  by standard (auto simp: less_eq_duration_def less_duration_def split: duration.splits)

end

instantiation duration :: ordered_comm_monoid_add
begin

definition zero_duration :: duration where
  "zero_duration = Secs 0"

definition plus_duration :: "duration \<Rightarrow> duration \<Rightarrow> duration" where
  "plus_duration a b =
     (case a of Unmeasured \<Rightarrow> Unmeasured
      | Secs x \<Rightarrow> (case b of Unmeasured \<Rightarrow> Unmeasured | Secs y \<Rightarrow> Secs (x + y)))"

instance
  by standard (auto simp: zero_duration_def plus_duration_def less_eq_duration_def split: duration.splits)

end

lemma duration_simps [simp]:
  "Secs x \<le> Secs y \<longleftrightarrow> x \<le> y" "d \<le> Unmeasured" "Unmeasured \<le> d \<longleftrightarrow> d = Unmeasured"
  "Secs x < Secs y \<longleftrightarrow> x < y" "Secs x < Unmeasured" "\<not> Unmeasured < d"
  "Secs x + Secs y = Secs (x + y)" "Unmeasured + d = Unmeasured" "d + Unmeasured = Unmeasured"
  by (cases d; simp add: less_eq_duration_def less_duration_def plus_duration_def)+

text \<open>\<open>bestCost - 1e-9\<close>.\<close>

definition shortened :: "duration \<Rightarrow> duration" where
  "shortened d = (case d of Unmeasured \<Rightarrow> Unmeasured | Secs x \<Rightarrow> Secs (x - 1 / 10 ^ 9))"

lemma shortened_le: "shortened d \<le> d"
  by (simp add: shortened_def split: duration.split)

section \<open>The matrix\<close>

definition MAX_EXACT_STOPS :: nat where "MAX_EXACT_STOPS = 13"

definition UNMEASURED_SECONDS :: real where "UNMEASURED_SECONDS = 10 ^ 9"

type_synonym duration_matrix = "duration list list"

text \<open>\<open>matrix[from]?.[to]\<close>: nothing where the row or the column is missing.\<close>

definition matrix_entry :: "duration_matrix \<Rightarrow> nat \<Rightarrow> nat \<Rightarrow> duration option" where
  "matrix_entry matrix from to =
     (if from < length matrix \<and> to < length (matrix ! from) then Some (matrix ! from ! to) else None)"

definition leg :: "duration_matrix \<Rightarrow> nat \<Rightarrow> nat \<Rightarrow> duration" where
  "leg matrix from to = (case matrix_entry matrix from to of Some d \<Rightarrow> d | None \<Rightarrow> Secs 0)"

definition routeDuration :: "duration_matrix \<Rightarrow> nat list \<Rightarrow> duration" where
  "routeDuration matrix order =
     (if order = [] then Secs 0
      else foldl (\<lambda>total index. total + leg matrix (order ! index) (order ! (index + 1)))
        (leg matrix 0 (order ! 0)) [0..<length order - 1])"

end
