(* ===== verification/Held_Karp.thy ===== *)
theory Held_Karp
  imports Travel_Times
begin

text \<open>
  The exact shortest order of a day's stops, \<open>exactRouteOrder\<close> of
  \<open>shared/src/contracts/route-plan.ts\<close>: Held and Karp's dynamic programming over subsets. The two
  typed arrays are functions from the index the code computes; a set of stops is a number
  whose bits are its members.
\<close>

section \<open>The exact search (Held-Karp)\<close>

definition exact_cost :: "duration_matrix \<Rightarrow> nat \<Rightarrow> nat \<Rightarrow> real" where
  "exact_cost matrix from to =
     (case matrix_entry matrix from to of Some (Secs seconds) \<Rightarrow> seconds | _ \<Rightarrow> UNMEASURED_SECONDS)"

record search_tables =
  best :: "nat \<Rightarrow> duration"
  previous :: "nat \<Rightarrow> int"

definition first_tables :: "(nat \<Rightarrow> nat \<Rightarrow> real) \<Rightarrow> nat \<Rightarrow> search_tables" where
  "first_tables cost n =
     \<lparr>best = foldl (\<lambda>b stop. b(2 ^ stop * n + stop := Secs (cost 0 (stop + 1)))) (\<lambda>_. Unmeasured) [0..<n],
      previous = (\<lambda>_. - 1)\<rparr>"

definition extend_to :: "(nat \<Rightarrow> nat \<Rightarrow> real) \<Rightarrow> nat \<Rightarrow> nat \<Rightarrow> nat \<Rightarrow> duration \<Rightarrow> search_tables \<Rightarrow> nat \<Rightarrow> search_tables" where
  "extend_to cost n S last_stop here t next_stop =
     (if bit S next_stop then t
      else
        let grown = set_bit next_stop S;
            through = here + Secs (cost (last_stop + 1) (next_stop + 1))
        in if through < best t (grown * n + next_stop)
           then t\<lparr>best := (best t)(grown * n + next_stop := through),
                  previous := (previous t)(grown * n + next_stop := int last_stop)\<rparr>
           else t)"

definition extend_from :: "(nat \<Rightarrow> nat \<Rightarrow> real) \<Rightarrow> nat \<Rightarrow> nat \<Rightarrow> search_tables \<Rightarrow> nat \<Rightarrow> search_tables" where
  "extend_from cost n S t last_stop =
     (if \<not> bit S last_stop then t
      else if best t (S * n + last_stop) = Unmeasured then t
      else foldl (extend_to cost n S last_stop (best t (S * n + last_stop))) t [0..<n])"

definition extend_set :: "(nat \<Rightarrow> nat \<Rightarrow> real) \<Rightarrow> nat \<Rightarrow> search_tables \<Rightarrow> nat \<Rightarrow> search_tables" where
  "extend_set cost n t S = foldl (extend_from cost n S) t [0..<n]"

definition search_sets :: "(nat \<Rightarrow> nat \<Rightarrow> real) \<Rightarrow> nat \<Rightarrow> search_tables" where
  "search_sets cost n = foldl (extend_set cost n) (first_tables cost n) [1..<2 ^ n]"

definition best_end :: "(nat \<Rightarrow> duration) \<Rightarrow> nat \<Rightarrow> nat" where
  "best_end b n =
     (let full = 2 ^ n - 1
      in foldl (\<lambda>last_stop stop. if b (full * n + stop) < b (full * n + last_stop) then stop else last_stop) 0 [1..<n])"

text \<open>The order is pushed last stop first and reversed at the end; the loop stops at \<open>-1\<close>.\<close>

partial_function (option) read_back :: "(nat \<Rightarrow> int) \<Rightarrow> nat \<Rightarrow> nat \<Rightarrow> int \<Rightarrow> nat list option" where
  "read_back prev n S last_stop =
     (if last_stop = - 1 then Some []
      else Option.bind (read_back prev n (unset_bit (nat last_stop) S) (prev (S * n + nat last_stop)))
        (\<lambda>order. Some ((nat last_stop + 1) # order)))"

definition exactRouteOrder :: "duration_matrix \<Rightarrow> nat \<Rightarrow> nat list option" where
  "exactRouteOrder matrix n =
     (let t = search_sets (exact_cost matrix) n
      in map_option rev (read_back (previous t) n (2 ^ n - 1) (int (best_end (best t) n))))"

section \<open>Walks\<close>

text \<open>
  A walk is a list of stops (0-based, as bits are), the last one visited at its head. Its cost is
  what the search accumulates; \<open>elems\<close> are the members of a set.
\<close>

fun walk_cost :: "(nat \<Rightarrow> nat \<Rightarrow> real) \<Rightarrow> nat list \<Rightarrow> real" where
  "walk_cost cost [] = 0"
| "walk_cost cost [a] = cost 0 (a + 1)"
| "walk_cost cost (b # a # w) = walk_cost cost (a # w) + cost (a + 1) (b + 1)"

definition elems :: "nat \<Rightarrow> nat set" where
  "elems S = {i. bit S i}"

definition walk_of :: "nat \<Rightarrow> nat \<Rightarrow> nat list \<Rightarrow> bool" where
  "walk_of S l w \<longleftrightarrow> distinct w \<and> set w = elems S \<and> w \<noteq> [] \<and> hd w = l"

lemma elems_set_bit [simp]: "elems (set_bit i S) = insert i (elems S)"
  by (auto simp: elems_def bit_simps)

lemma elems_unset_bit [simp]: "elems (unset_bit i S) = elems S - {i}"
  by (auto simp: elems_def bit_simps)

lemma elems_0 [simp]: "elems 0 = {}"
  by (simp add: elems_def)

lemma elems_pow [simp]: "elems (2 ^ i) = {i}"
  by (auto simp: elems_def bit_simps)

lemma elems_eq_iff: "elems S = elems T \<longleftrightarrow> S = T"
  by (auto simp: elems_def bit_eq_iff set_eq_iff)

lemma set_bit_gt: "\<not> bit S i \<Longrightarrow> S < set_bit i (S :: nat)"
  by (simp add: set_bit_eq)

lemma unset_set_bit: "\<not> bit S i \<Longrightarrow> unset_bit i (set_bit i (S :: nat)) = S"
  by (simp add: elems_eq_iff [symmetric]) (auto simp: elems_def)

lemma set_unset_bit: "bit S i \<Longrightarrow> set_bit i (unset_bit i (S :: nat)) = S"
  by (simp add: elems_eq_iff [symmetric]) (auto simp: elems_def)

lemma unset_bit_lt: "bit S i \<Longrightarrow> unset_bit i (S :: nat) < S"
  using set_bit_gt [of "unset_bit i S" i] by (simp add: set_unset_bit bit_simps)

lemma elems_lt_iff: "S < 2 ^ n \<longleftrightarrow> elems S \<subseteq> {..<n}"
proof
  show "S < 2 ^ n \<Longrightarrow> elems S \<subseteq> {..<n}"
    by (auto simp: elems_def) (metis bit_take_bit_iff take_bit_nat_eq_self)
  assume s: "elems S \<subseteq> {..<n}"
  have "take_bit n S = S"
    using s by (auto simp: bit_eq_iff bit_take_bit_iff elems_def)
  then show "S < 2 ^ n" by (metis take_bit_nat_less_exp)
qed

lemma elems_full: "elems (2 ^ n - 1) = {..<n}"
proof
  show "elems (2 ^ n - 1) \<subseteq> {..<n}" by (simp add: elems_lt_iff [symmetric])
  show "{..<n} \<subseteq> elems (2 ^ n - 1)"
    using bit_mask_iff [of n, where 'a = nat] by (auto simp: elems_def mask_eq_exp_minus_1)
qed

lemmas elems_full_Suc = elems_full [unfolded One_nat_def]

lemma index_inject: "a < n \<Longrightarrow> b < n \<Longrightarrow> S * n + a = T * n + b \<longleftrightarrow> S = T \<and> a = (b :: nat)"
  by (metis add.commute add_right_cancel div_mult_self3 div_less add_0 nat_less_le not_less0 mult.commute)

section \<open>The invariant of the search\<close>

text \<open>
  Every finite entry is the cost of a step that made it, from an entry of the set one stop
  smaller, whose set is already done; and no step already tried would still improve one.
\<close>

definition entry_ok :: "(nat \<Rightarrow> nat \<Rightarrow> real) \<Rightarrow> nat \<Rightarrow> nat \<Rightarrow> search_tables \<Rightarrow> nat \<Rightarrow> nat \<Rightarrow> bool" where
  "entry_ok cost n s t S l \<longleftrightarrow>
     (\<forall>v. best t (S * n + l) = Secs v \<longrightarrow>
        bit S l \<and>
        (S = 2 ^ l \<and> previous t (S * n + l) = - 1 \<and> v = cost 0 (l + 1) \<or>
         (\<exists>k v'. k < n \<and> previous t (S * n + l) = int k \<and> unset_bit l S \<le> s \<and>
            best t (unset_bit l S * n + k) = Secs v' \<and> v = v' + cost (k + 1) (l + 1))))"

definition tried :: "(nat \<Rightarrow> nat \<Rightarrow> real) \<Rightarrow> nat \<Rightarrow> search_tables \<Rightarrow> nat \<Rightarrow> nat \<Rightarrow> nat \<Rightarrow> bool" where
  "tried cost n t S k l \<longleftrightarrow>
     (\<forall>v. bit S k \<longrightarrow> \<not> bit S l \<longrightarrow> best t (S * n + k) = Secs v \<longrightarrow>
        best t (set_bit l S * n + l) \<le> Secs (v + cost (k + 1) (l + 1)))"

definition search_inv :: "(nat \<Rightarrow> nat \<Rightarrow> real) \<Rightarrow> nat \<Rightarrow> nat \<Rightarrow> (nat \<times> nat \<times> nat) set \<Rightarrow> search_tables \<Rightarrow> bool" where
  "search_inv cost n s P t \<longleftrightarrow>
     (\<forall>S l. l < n \<longrightarrow> entry_ok cost n s t S l) \<and>
     (\<forall>(S, k, l) \<in> P. S \<le> s \<and> k < n \<and> l < n \<and> tried cost n t S k l) \<and>
     (\<forall>l < n. best t (2 ^ l * n + l) \<le> Secs (cost 0 (l + 1)))"

lemma search_inv_mono:
  assumes "search_inv cost n s P t" "s \<le> s'"
  shows "search_inv cost n s' P t"
proof -
  have "entry_ok cost n s' t S l" if "entry_ok cost n s t S l" for S l
    using that assms(2) unfolding entry_ok_def by (meson order_trans)
  then show ?thesis
    using assms unfolding search_inv_def by fastforce
qed

lemma first_best:
  "l < n \<Longrightarrow> best (first_tables cost n) (S * n + l) = (if S = 2 ^ l then Secs (cost 0 (l + 1)) else Unmeasured)"
proof -
  assume l: "l < n"
  have "foldl (\<lambda>b stop. b(2 ^ stop * n + stop := Secs (cost 0 (stop + 1)))) (\<lambda>_. Unmeasured) [0..<m] (S * n + l) =
      (if l < m \<and> S = 2 ^ l then Secs (cost 0 (l + 1)) else Unmeasured)" if "m \<le> n" for m
    using that
  proof (induction m)
    case (Suc m)
    have "S * n + l = 2 ^ m * n + m \<longleftrightarrow> S = 2 ^ m \<and> l = m"
      using l Suc.prems by (intro index_inject) auto
    then show ?case using Suc by (auto simp: less_Suc_eq)
  qed simp
  with l show ?thesis by (simp add: first_tables_def)
qed

lemma first_inv: "search_inv cost n 0 {} (first_tables cost n)"
  by (auto simp: search_inv_def entry_ok_def first_best split: if_splits) (auto simp: first_tables_def bit_simps)

text \<open>One update leaves every entry but its own alone, and only lowers that one.\<close>

lemma extend_to_inv:
  assumes inv: "search_inv cost n s P t" and k: "k < n" "bit s k" and l: "l < n"
    and here: "best t (s * n + k) = Secs h"
  shows "search_inv cost n s (insert (s, k, l) P) (extend_to cost n s k (Secs h) t l) \<and>
    best (extend_to cost n s k (Secs h) t l) (s * n + k) = Secs h"
proof (cases "bit s l")
  case True
  then show ?thesis
    using inv here k l by (auto simp: extend_to_def search_inv_def tried_def)
next
  case False
  let ?g = "set_bit l s" and ?w = "h + cost (k + 1) (l + 1)"
  have g: "s < ?g" using False by (rule set_bit_gt)
  have u: "unset_bit l ?g = s" using False by (rule unset_set_bit)
  show ?thesis
  proof (cases "Secs ?w < best t (?g * n + l)")
    case worse: False
    then have "extend_to cost n s k (Secs h) t l = t"
      using False by (simp add: extend_to_def)
    then show ?thesis
      using inv here k l worse by (auto simp: search_inv_def tried_def not_less)
  next
    case True
    let ?t = "t\<lparr>best := (best t)(?g * n + l := Secs ?w), previous := (previous t)(?g * n + l := int k)\<rparr>"
    have t: "extend_to cost n s k (Secs h) t l = ?t"
      using False True by (simp add: extend_to_def Let_def)
    have old: "S \<le> s \<Longrightarrow> m < n \<Longrightarrow> S * n + m \<noteq> ?g * n + l" for S m
      using index_inject [of m n l S ?g] l g by auto
    have lower: "best ?t i \<le> best t i" for i
      using True by (auto simp: less_imp_le)
    have "entry_ok cost n s ?t S m" if m: "m < n" for S m
    proof (cases "S = ?g \<and> m = l")
      case True
      have "s * n + k \<noteq> ?g * n + l" using old [of s k] k by simp
      then show ?thesis
        using True here k u by (auto simp: entry_ok_def bit_simps)
    next
      case o: False
      then have ne: "S * n + m \<noteq> ?g * n + l"
        using index_inject [of m n l S ?g] l m by auto
      have "entry_ok cost n s t S m" using inv m by (simp add: search_inv_def)
      then show ?thesis
        using ne old [of "unset_bit m S"] unfolding entry_ok_def by fastforce
    qed
    moreover have "tried cost n ?t S a b" if "S \<le> s" "a < n" "tried cost n t S a b" for S a b
      using that old [of S a] order_trans [OF lower [of "set_bit b S * n + b"]] unfolding tried_def by simp
    moreover have "tried cost n ?t s k l"
      using here old [of s k] k by (simp add: tried_def)
    moreover have "best ?t (2 ^ m * n + m) \<le> Secs (cost 0 (m + 1))" if "m < n" for m
      using inv that lower [of "2 ^ m * n + m"] unfolding search_inv_def by (blast intro: order_trans)
    ultimately show ?thesis
      using inv here old [of s k] k l unfolding t search_inv_def by fastforce
  qed
qed

lemma extend_tos_inv:
  assumes "search_inv cost n s P t" "k < n" "bit s k" "set ls \<subseteq> {..<n}" "best t (s * n + k) = Secs h"
  shows "search_inv cost n s (P \<union> {(s, k, l) | l. l \<in> set ls}) (foldl (extend_to cost n s k (Secs h)) t ls)"
  using assms
proof (induction ls arbitrary: P t)
  case (Cons l ls)
  have "search_inv cost n s (insert (s, k, l) P) (extend_to cost n s k (Secs h) t l)"
    "best (extend_to cost n s k (Secs h) t l) (s * n + k) = Secs h"
    using extend_to_inv [of cost n s P t k l h] Cons.prems by auto
  then have "search_inv cost n s (insert (s, k, l) P \<union> {(s, k, l) | l. l \<in> set ls})
      (foldl (extend_to cost n s k (Secs h)) (extend_to cost n s k (Secs h) t l) ls)"
    using Cons.prems by (intro Cons.IH) auto
  moreover have "insert (s, k, l) P \<union> {(s, k, l) | l. l \<in> set ls} = P \<union> {(s, k, m) | m. m \<in> set (l # ls)}"
    by auto
  ultimately show ?case by simp
qed simp

lemma extend_from_inv:
  assumes "search_inv cost n s P t" "k < n"
  shows "search_inv cost n s (P \<union> {(s, k, l) | l. l < n}) (extend_from cost n s t k)"
proof (cases "bit s k \<and> best t (s * n + k) \<noteq> Unmeasured")
  case True
  then obtain h where h: "best t (s * n + k) = Secs h" by (cases "best t (s * n + k)") auto
  from True extend_tos_inv [OF assms, of "[0..<n]", OF _ _ h] show ?thesis
    by (simp add: extend_from_def h atLeast0LessThan)
next
  case False
  then have "extend_from cost n s t k = t" by (auto simp: extend_from_def)
  then show ?thesis
    using assms False by (auto simp: search_inv_def tried_def)
qed

lemma extend_set_inv:
  assumes "search_inv cost n s P t"
  shows "search_inv cost n s (P \<union> {(s, k, l) | k l. k < n \<and> l < n}) (extend_set cost n t s)"
proof -
  have "search_inv cost n s (P \<union> {(s, k, l) | k l. k \<in> set ks \<and> l < n}) (foldl (extend_from cost n s) t ks)"
    if "set ks \<subseteq> {..<n}" for ks
    using that assms
  proof (induction ks arbitrary: P t)
    case (Cons k ks)
    have "search_inv cost n s (P \<union> {(s, k, l) | l. l < n} \<union> {(s, k, l) | k l. k \<in> set ks \<and> l < n})
        (foldl (extend_from cost n s) (extend_from cost n s t k) ks)"
      using Cons.prems by (intro Cons.IH extend_from_inv) auto
    moreover have "P \<union> {(s, k, l) | l. l < n} \<union> {(s, k, l) | k l. k \<in> set ks \<and> l < n} =
        P \<union> {(s, m, l) | m l. m \<in> set (k # ks) \<and> l < n}"
      by auto
    ultimately show ?case by simp
  qed simp
  from this [of "[0..<n]"] show ?thesis by (simp add: extend_set_def atLeast0LessThan lessThan_def)
qed

lemma search_sets_inv:
  "search_inv cost n (2 ^ n) {(S, k, l). 1 \<le> S \<and> S < 2 ^ n \<and> k < n \<and> l < n} (search_sets cost n)"
proof -
  have "search_inv cost n m {(S, k, l). 1 \<le> S \<and> S < m \<and> k < n \<and> l < n}
      (foldl (extend_set cost n) (first_tables cost n) [1..<m])" for m
  proof (induction m)
    case 0
    show ?case using first_inv [of cost n] by simp
  next
    case (Suc m)
    show ?case
    proof (cases "1 \<le> m")
      case False
      have e: "{(S, k, l). 1 \<le> S \<and> S < Suc m \<and> k < n \<and> l < n} = {}" using False by auto
      show ?thesis unfolding e using False search_inv_mono [OF first_inv [of cost n], of 1] by (simp add: not_le)
    next
      case True
      have "search_inv cost n m ({(S, k, l). 1 \<le> S \<and> S < m \<and> k < n \<and> l < n} \<union> {(m, k, l) | k l. k < n \<and> l < n})
          (foldl (extend_set cost n) (first_tables cost n) [1..<Suc m])"
        using extend_set_inv [OF Suc] True by simp
      moreover have "{(S, k, l). 1 \<le> S \<and> S < m \<and> k < n \<and> l < n} \<union> {(m, k, l) | k l. k < n \<and> l < n} =
          {(S, k, l). 1 \<le> S \<and> S < Suc m \<and> k < n \<and> l < n}"
        using True by (auto simp: less_Suc_eq)
      ultimately show ?thesis using search_inv_mono [of cost n m _ _ "Suc m"] by simp
    qed
  qed
  then show ?thesis by (simp add: search_sets_def)
qed

section \<open>The search finds the shortest walk\<close>

text \<open>No walk is shorter than the entry of its set and its last stop.\<close>

lemma walk_of_Cons: "walk_of S l (b # a # w) \<longleftrightarrow> l = b \<and> bit S b \<and> walk_of (unset_bit b S) a (a # w)"
proof -
  have "b \<notin> X \<and> insert b X = E \<longleftrightarrow> b \<in> E \<and> X = E - {b}" for X E :: "nat set"
    by blast
  from this [of "set (a # w)" "elems S"] show ?thesis
    unfolding walk_of_def elems_unset_bit by (simp add: elems_def) blast
qed

lemma search_complete:
  assumes "walk_of S l w" "S < 2 ^ n" "t = search_sets cost n"
  shows "best t (S * n + l) \<le> Secs (walk_cost cost w)"
  using assms(1,2)
proof (induction w arbitrary: S l)
  case Nil
  then show ?case by (simp add: walk_of_def)
next
  case (Cons b w)
  have inv: "search_inv cost n (2 ^ n) {(S, k, l). 1 \<le> S \<and> S < 2 ^ n \<and> k < n \<and> l < n} t"
    unfolding assms(3) by (rule search_sets_inv)
  show ?case
  proof (cases w)
    case Nil
    then have "elems S = elems (2 ^ l)" "b = l"
      using Cons.prems by (auto simp: walk_of_def)
    then have "S = 2 ^ l" "b = l" by (simp_all only: elems_eq_iff)
    moreover from this have "l < n" using Cons.prems(2) by simp
    ultimately show ?thesis using inv Nil by (auto simp: search_inv_def)
  next
    case (Cons a v)
    have w: "l = b" "bit S b" "walk_of (unset_bit b S) a w"
      using Cons.prems(1) unfolding Cons walk_of_Cons by simp_all
    have below: "unset_bit b S < 2 ^ n"
      using unset_bit_lt [OF w(2)] Cons.prems(2) by simp
    have a: "bit (unset_bit b S) a" "a \<in> elems (unset_bit b S)"
      using w(3) Cons by (auto simp: walk_of_def elems_def)
    then have n: "a < n" "b < n" "1 \<le> unset_bit b S"
      using below Cons.prems(2) w(2) elems_lt_iff [of S n] elems_lt_iff [of "unset_bit b S" n]
      by (auto simp: elems_def Suc_le_eq intro!: gr0I)
    have "best t (unset_bit b S * n + a) \<le> Secs (walk_cost cost w)"
      using Cons.IH [OF w(3) below] .
    then obtain v' where v': "best t (unset_bit b S * n + a) = Secs v'" "v' \<le> walk_cost cost w"
      by (cases "best t (unset_bit b S * n + a)") auto
    have "tried cost n t (unset_bit b S) a b"
      using inv below n by (auto simp: search_inv_def)
    then have "best t (S * n + b) \<le> Secs (v' + cost (a + 1) (b + 1))"
      using a v' w(2) by (simp add: tried_def set_unset_bit bit_simps)
    also have "\<dots> \<le> Secs (walk_cost cost (b # w))"
      using v'(2) Cons by simp
    finally show ?thesis using w(1) by simp
  qed
qed

text \<open>And the steps read back from an entry are a walk of exactly its cost.\<close>

lemma read_back_walk:
  assumes "\<forall>S l. l < n \<longrightarrow> entry_ok cost n s t S l" "best t (S * n + l) = Secs v" "l < n"
  shows "\<exists>w. read_back (previous t) n S (int l) = Some (map Suc w) \<and> walk_of S l w \<and> walk_cost cost w = v"
  using assms(2,3)
proof (induction S arbitrary: l v rule: less_induct)
  case (less S)
  from assms(1) less.prems have ok: "entry_ok cost n s t S l" by blast
  have read: "read_back (previous t) n S (int l) =
      Option.bind (read_back (previous t) n (unset_bit l S) (previous t (S * n + l))) (\<lambda>order. Some (Suc l # order))"
    by (subst read_back.simps) simp
  from ok less.prems(1) consider
      "S = 2 ^ l" "previous t (S * n + l) = - 1" "v = cost 0 (l + 1)"
    | k v' where "bit S l" "k < n" "previous t (S * n + l) = int k" "best t (unset_bit l S * n + k) = Secs v'"
        "v = v' + cost (k + 1) (l + 1)"
    unfolding entry_ok_def by blast
  then show ?case
  proof cases
    case 1
    have "read_back (previous t) n (unset_bit l S) (- 1) = Some []"
      by (subst read_back.simps) simp
    then have "read_back (previous t) n S (int l) = Some (map Suc [l])"
      using read 1(2) by simp
    moreover have "walk_of S l [l]" by (simp add: walk_of_def 1(1))
    ultimately show ?thesis using 1(3) by (intro exI [of _ "[l]"]) simp
  next
    case 2
    from less.IH [OF unset_bit_lt [OF 2(1)] 2(4) 2(2)] obtain w where
      w: "read_back (previous t) n (unset_bit l S) (int k) = Some (map Suc w)" "walk_of (unset_bit l S) k w" "walk_cost cost w = v'"
      by blast
    then obtain w' where "w = k # w'" by (cases w) (auto simp: walk_of_def)
    with 2 w show ?thesis
      by (intro exI [of _ "l # w"]) (simp add: read walk_of_Cons)
  qed
qed

lemma best_end_least:
  assumes "0 < n"
  shows "best_end b n < n \<and> (\<forall>l < n. b ((2 ^ n - 1) * n + best_end b n) \<le> b ((2 ^ n - 1) * n + l))"
proof -
  let ?f = "2 ^ n - 1 :: nat"
  let ?step = "\<lambda>last stop. if b (?f * n + stop) < b (?f * n + last) then stop else last"
  have "foldl ?step 0 [1..<Suc m] < Suc m \<and> (\<forall>l < Suc m. b (?f * n + foldl ?step 0 [1..<Suc m]) \<le> b (?f * n + l))" for m
  proof (induction m)
    case (Suc m)
    define x where "x = foldl ?step 0 [1..<Suc m]"
    have e: "foldl ?step 0 [1..<Suc (Suc m)] = ?step x (Suc m)"
      by (simp add: x_def)
    have x: "x < Suc m" "\<And>l. l < Suc m \<Longrightarrow> b (?f * n + x) \<le> b (?f * n + l)"
      using Suc by (simp_all add: x_def)
    show ?case
    proof (cases "b (?f * n + Suc m) < b (?f * n + x)")
      case True
      then have "b (?f * n + Suc m) \<le> b (?f * n + l)" if "l < Suc m" for l
        using x(2) [OF that] by (simp add: order.strict_trans2 less_imp_le)
      with True show ?thesis unfolding e by (simp add: less_Suc_eq)
    next
      case False
      then have "b (?f * n + x) \<le> b (?f * n + Suc m)" by (simp add: not_less)
      with False x show ?thesis unfolding e by (simp add: less_Suc_eq)
    qed
  qed simp
  from this [of "n - 1"] show ?thesis
    using assms by (simp add: best_end_def Let_def)
qed

section \<open>The order it returns\<close>

fun path_cost :: "(nat \<Rightarrow> nat \<Rightarrow> real) \<Rightarrow> nat \<Rightarrow> nat list \<Rightarrow> real" where
  "path_cost cost from [] = 0"
| "path_cost cost from (to # order) = cost from to + path_cost cost to order"

lemma path_cost_append:
  "path_cost cost from (order @ rest) = path_cost cost from order + path_cost cost (last (from # order)) rest"
  by (induction order arbitrary: "from") auto

lemma walk_cost_path: "walk_cost cost w = path_cost cost 0 (rev (map Suc w))"
proof (induction cost w rule: walk_cost.induct)
  case (3 cost b a w)
  then show ?case by (simp add: path_cost_append last_rev)
qed simp_all

text \<open>Whatever the costs, the order read back from the last tables is one of least cost.\<close>

lemma search_optimal:
  fixes cost :: "nat \<Rightarrow> nat \<Rightarrow> real"
  assumes "0 < n"
  defines "t \<equiv> search_sets cost n"
  shows "\<exists>order. map_option rev (read_back (previous t) n (2 ^ n - 1) (int (best_end (best t) n))) = Some order \<and>
    distinct order \<and> set order = {1..n} \<and>
    (\<forall>p. distinct p \<longrightarrow> set p = {1..n} \<longrightarrow> path_cost cost 0 order \<le> path_cost cost 0 p)"
proof -
  define l where "l = best_end (best t) n"
  have l: "l < n" "\<And>m. m < n \<Longrightarrow> best t ((2 ^ n - 1) * n + l) \<le> best t ((2 ^ n - 1) * n + m)"
    using best_end_least [OF assms(1)] by (simp_all add: l_def)
  have full: "2 ^ n - 1 < (2 ^ n :: nat)" by simp
  have above: "best t ((2 ^ n - 1) * n + l) \<le> Secs (path_cost cost 0 p)" if p: "distinct p" "set p = {1..n}" for p
  proof -
    define w where "w = rev (map (\<lambda>i. i - 1) p)"
    have Suc: "map Suc (map (\<lambda>i. i - 1) p) = p"
      using p(2) unfolding map_map by (intro map_idI) auto
    have "distinct (map (\<lambda>i. i - 1) p)" using p(1) Suc by (metis distinct_map)
    moreover have "set (map (\<lambda>i. i - 1) p) = {..<n}"
    proof -
      have "Suc ` set (map (\<lambda>i. i - 1) p) = Suc ` {..<n}"
        using p(2) Suc by (metis image_Suc_lessThan list.set_map)
      then show ?thesis by (simp only: inj_image_eq_iff [OF inj_Suc])
    qed
    moreover have "p \<noteq> []" using p(2) assms(1) by auto
    ultimately have "walk_of (2 ^ n - 1) (hd w) w" "hd w \<in> {..<n}"
      using hd_in_set [of w] by (auto simp: walk_of_def elems_full elems_full_Suc w_def)
    then have "best t ((2 ^ n - 1) * n + l) \<le> Secs (walk_cost cost w)"
      using l(2) [of "hd w"] search_complete [OF _ full t_def [THEN meta_eq_to_obj_eq]] by (blast intro: order_trans lessThan_iff [THEN iffD1])
    then show ?thesis using Suc by (simp add: walk_cost_path w_def rev_map [symmetric])
  qed
  have "best t ((2 ^ n - 1) * n + l) \<noteq> Unmeasured"
    using above [of "[1..<Suc n]"] by (auto simp: atLeastLessThanSuc_atLeastAtMost simp del: upt_Suc)
  then obtain v where v: "best t ((2 ^ n - 1) * n + l) = Secs v"
    by (cases "best t ((2 ^ n - 1) * n + l)") auto
  have "\<forall>S l. l < n \<longrightarrow> entry_ok cost n (2 ^ n) t S l"
    using search_sets_inv [where n = n and cost = cost] by (simp add: search_inv_def t_def)
  from read_back_walk [OF this v l(1)] obtain w where
    w: "read_back (previous t) n (2 ^ n - 1) (int l) = Some (map Suc w)" "walk_of (2 ^ n - 1) l w" "walk_cost cost w = v"
    by blast
  have "Suc ` {..<n} = {1..n}"
    by (simp add: lessThan_atLeast0 atLeastLessThanSuc_atLeastAtMost)
  then show ?thesis
    using w v above
    by (intro exI [of _ "rev (map Suc w)"])
      (simp add: l_def [symmetric] walk_of_def elems_full elems_full_Suc distinct_map walk_cost_path)
qed

lemma exactRouteOrder_optimal:
  "0 < n \<Longrightarrow> \<exists>order. exactRouteOrder matrix n = Some order \<and> distinct order \<and> set order = {1..n} \<and>
    (\<forall>p. distinct p \<longrightarrow> set p = {1..n} \<longrightarrow> path_cost (exact_cost matrix) 0 order \<le> path_cost (exact_cost matrix) 0 p)"
  using search_optimal [of n "exact_cost matrix"] by (simp add: exactRouteOrder_def Let_def)

end
