(* ===== verification/Route_Plan.thy ===== *)
theory Route_Plan
  imports Held_Karp
begin

text \<open>
  The rest of \<open>shared/src/contracts/route-plan.ts\<close>: nearest neighbour and 2-opt for more than
  \<open>MAX_EXACT_STOPS\<close> stops, the two entry points \<open>shortestRouteOrder\<close> and
  \<open>shortestOpenPathOrder\<close>, finished statuses, and where a day's route starts
  (\<open>chooseRouteOrigin\<close>).
\<close>

section \<open>Nearest neighbour\<close>

text \<open>A \<open>Set\<close> keeps the order its members were added in: a list without repeats.\<close>

definition nearest_step :: "(nat \<Rightarrow> duration) \<Rightarrow> nat option \<times> duration \<Rightarrow> nat \<Rightarrow> nat option \<times> duration" where
  "nearest_step cost b candidate = (if cost candidate < snd b then (Some candidate, cost candidate) else b)"

definition reach :: "duration_matrix \<Rightarrow> nat \<Rightarrow> nat \<Rightarrow> duration" where
  "reach matrix from to = (case matrix_entry matrix from to of Some d \<Rightarrow> d | None \<Rightarrow> Unmeasured)"

definition nearest_of :: "duration_matrix \<Rightarrow> nat \<Rightarrow> nat list \<Rightarrow> nat option" where
  "nearest_of matrix current remaining =
     fst (foldl (nearest_step (reach matrix current)) (None, Unmeasured) remaining)"

lemma nearest_steps_member:
  "fst (foldl (nearest_step cost) b xs) = Some x \<Longrightarrow> fst b = Some x \<or> x \<in> set xs"
  by (induction xs arbitrary: b) (fastforce simp: nearest_step_def split: if_splits)+

lemma nearest_of_member: "nearest_of matrix current remaining = Some x \<Longrightarrow> x \<in> set remaining"
  using nearest_steps_member [of _ "(None, Unmeasured)" remaining x] by (simp add: nearest_of_def)

function nearest_walk :: "duration_matrix \<Rightarrow> nat \<Rightarrow> nat list \<Rightarrow> nat list" where
  "nearest_walk matrix current remaining =
     (if remaining = [] then []
      else case nearest_of matrix current remaining of
        None \<Rightarrow> remaining
      | Some x \<Rightarrow> x # nearest_walk matrix x (remove1 x remaining))"
  by pat_completeness auto
termination
proof (relation "measure (\<lambda>(matrix, current, remaining). length remaining)")
  fix matrix current remaining x
  assume "remaining \<noteq> []" "nearest_of matrix current remaining = Some x"
  then show "((matrix, x, remove1 x remaining), matrix, current, remaining) \<in> measure (\<lambda>(matrix, current, remaining). length remaining)"
    using nearest_of_member length_pos_if_in_set by (fastforce simp: length_remove1)
qed simp

declare nearest_walk.simps [simp del]

definition nearestNeighbour :: "duration_matrix \<Rightarrow> nat list \<Rightarrow> nat list" where
  "nearestNeighbour matrix stops = nearest_walk matrix 0 (uniq stops)"

definition nearest_from_step :: "(nat \<Rightarrow> duration) \<Rightarrow> (nat \<times> duration) option \<Rightarrow> nat \<Rightarrow> (nat \<times> duration) option" where
  "nearest_from_step cost b candidate =
     (case b of None \<Rightarrow> Some (candidate, cost candidate)
      | Some (_, c) \<Rightarrow> if cost candidate < c then Some (candidate, cost candidate) else b)"

fun nearest_from_of :: "duration_matrix \<Rightarrow> nat \<Rightarrow> nat list \<Rightarrow> nat option" where
  "nearest_from_of matrix current remaining =
     map_option fst (foldl (nearest_from_step (reach matrix current)) None remaining)"

declare nearest_from_of.simps [simp del]

lemma nearest_from_steps_member:
  "foldl (nearest_from_step cost) b xs = Some (x, c) \<Longrightarrow> (\<exists>c. b = Some (x, c)) \<or> x \<in> set xs"
  by (induction xs arbitrary: b) (fastforce simp: nearest_from_step_def split: if_splits option.splits)+

lemma nearest_from_of_member: "nearest_from_of matrix current remaining = Some x \<Longrightarrow> x \<in> set remaining"
  using nearest_from_steps_member [of _ None remaining x] by (auto simp: nearest_from_of.simps)

function nearestNeighbourFrom :: "duration_matrix \<Rightarrow> nat \<Rightarrow> nat list \<Rightarrow> nat list" where
  "nearestNeighbourFrom matrix current remaining =
     (case nearest_from_of matrix current remaining of
        None \<Rightarrow> []
      | Some x \<Rightarrow> x # nearestNeighbourFrom matrix x (remove1 x remaining))"
  by pat_completeness auto
termination
proof (relation "measure (\<lambda>(matrix, current, remaining). length remaining)")
  fix matrix current remaining x
  assume "nearest_from_of matrix current remaining = Some x"
  then show "((matrix, x, remove1 x remaining), matrix, current, remaining) \<in> measure (\<lambda>(matrix, current, remaining). length remaining)"
    using nearest_from_of_member length_pos_if_in_set by (fastforce simp: length_remove1)
qed simp

declare nearestNeighbourFrom.simps [simp del]

section \<open>2-opt\<close>

text \<open>\<open>cost < bestCost - 1e-9\<close>.\<close>

definition shorter :: "duration \<Rightarrow> duration \<Rightarrow> bool" where
  "shorter new old \<longleftrightarrow> new < shortened old"

lemma shorter_less: "shorter a b \<Longrightarrow> a < b"
  unfolding shorter_def using shortened_le [of b] by (metis order.strict_trans2)

interpretation route_search: local_search "routeDuration matrix" shorter for matrix
  by unfold_locales (rule shorter_less)

function two_opt_loop :: "duration_matrix \<Rightarrow> nat list \<Rightarrow> duration \<Rightarrow> nat list" where
  "two_opt_loop matrix order bestCost =
     (let pass = two_opt_pass (routeDuration matrix) shorter order bestCost
      in if sr_improved pass then two_opt_loop matrix (sr_best pass) (sr_cost pass) else sr_best pass)"
  by pat_completeness auto
termination
  by (relation "measure (\<lambda>(matrix, order, bestCost). card (lower_orders (routeDuration matrix) order bestCost))")
    (simp_all add: route_search.pass_decreases)

declare two_opt_loop.simps [simp del]

definition twoOpt :: "duration_matrix \<Rightarrow> nat list \<Rightarrow> nat list" where
  "twoOpt matrix initial = two_opt_loop matrix initial (routeDuration matrix initial)"

section \<open>The order of a day\<close>

definition shortestRouteOrder :: "duration_matrix \<Rightarrow> nat list option" where
  "shortestRouteOrder matrix =
     (let stops = [1..<length matrix]
      in if length stops \<le> 1 then Some stops
         else if length stops \<le> MAX_EXACT_STOPS then exactRouteOrder matrix (length stops)
         else Some (twoOpt matrix (nearestNeighbour matrix stops)))"

definition free_start :: "duration_matrix \<Rightarrow> duration_matrix" where
  "free_start matrix = replicate (length matrix + 1) (Secs 0) # map (\<lambda>row. Secs 0 # row) matrix"

definition try_start :: "duration_matrix \<Rightarrow> nat \<Rightarrow> nat list \<times> duration \<Rightarrow> nat \<Rightarrow> nat list \<times> duration" where
  "try_start matrix n b first =
     (let rest = filter (\<lambda>stop. stop \<noteq> first) (map (\<lambda>index. index + 1) [0..<n]);
          start = first # nearestNeighbourFrom matrix first (uniq rest);
          refined = twoOpt matrix start;
          cost = routeDuration matrix refined
      in if cost < snd b then (refined, cost) else b)"

definition shortestOpenPathOrder :: "duration_matrix \<Rightarrow> nat list option" where
  "shortestOpenPathOrder matrix =
     (let n = length matrix
      in if n \<le> 1 then Some (if n = 1 then [0] else [])
         else if n \<le> MAX_EXACT_STOPS then
           map_option (map (\<lambda>index. index - 1)) (shortestRouteOrder (free_start matrix))
         else
           Some (map (\<lambda>index. index - 1)
             (fst (foldl (try_start (free_start matrix) n) ([], Unmeasured) [1..<n + 1]))))"

section \<open>Finished visits and the start of a route\<close>

definition FINISHED_INSPECTION_STATUSES :: "string list" where
  "FINISHED_INSPECTION_STATUSES =
     [''TECHNICIAN_SUBMITTED'', ''PROCESSING'', ''REVIEW_REQUIRED'', ''UNDER_REVIEW'', ''TBD'', ''COMPLETED'']"

definition isFinishedStatus :: "string option \<Rightarrow> bool" where
  "isFinishedStatus status \<longleftrightarrow>
     (case status of None \<Rightarrow> '''' | Some s \<Rightarrow> s) \<in> set FINISHED_INSPECTION_STATUSES"

datatype route_origin_kind = LIVE | LAST_KNOWN | HOME

definition LIVE_POSITION_WITHIN_MS :: millis where
  "LIVE_POSITION_WITHIN_MS = 5 * 60000"

record route_origin =
  ro_point :: point
  ro_recordedAt :: "string option"
  ro_kind :: route_origin_kind

text \<open>
  \<open>parse_date\<close> stands for \<open>Date.parse\<close>, nothing for \<open>NaN\<close>: the strings it reads besides
  ISO ones are the runtime's own.
\<close>

definition chooseRouteOrigin ::
  "(string \<Rightarrow> millis option) \<Rightarrow> (point \<times> string) option \<Rightarrow> point option \<Rightarrow> millis \<Rightarrow> millis \<Rightarrow> route_origin option" where
  "chooseRouteOrigin parse_date latestFix home dayStart now =
     (let fixAt = (case latestFix of None \<Rightarrow> None | Some (_, recordedAt) \<Rightarrow> parse_date recordedAt);
          fixToday = (case fixAt of None \<Rightarrow> False | Some t \<Rightarrow> dayStart \<le> t \<and> t \<le> now)
      in case (if fixToday then latestFix else None) of
           Some (p, recordedAt) \<Rightarrow>
             Some \<lparr>ro_point = p, ro_recordedAt = Some recordedAt,
               ro_kind = (if now - the fixAt \<le> LIVE_POSITION_WITHIN_MS then LIVE else LAST_KNOWN)\<rparr>
         | None \<Rightarrow>
             map_option (\<lambda>p. \<lparr>ro_point = p, ro_recordedAt = None, ro_kind = HOME\<rparr>) home)"

section \<open>Lemmas\<close>

lemma two_opt_loop_facts:
  assumes "bestCost = routeDuration matrix order"
  shows "mset (two_opt_loop matrix order bestCost) = mset order \<and>
    routeDuration matrix (two_opt_loop matrix order bestCost) \<le> bestCost \<and>
    (\<forall>i j. i < j \<longrightarrow> j < length order \<longrightarrow>
       \<not> shorter (routeDuration matrix (reverse_segment i j (two_opt_loop matrix order bestCost)))
           (routeDuration matrix (two_opt_loop matrix order bestCost)))"
  using assms
proof (induction matrix order bestCost rule: two_opt_loop.induct)
  case (1 matrix order bestCost)
  let ?p = "two_opt_pass (routeDuration matrix) shorter order bestCost"
  have p: "mset (sr_best ?p) = mset order" "sr_cost ?p \<le> bestCost" "sr_cost ?p = routeDuration matrix (sr_best ?p)"
    using route_search.pass_keeps [where matrix = matrix and best = order and c = bestCost] 1(2) by simp_all
  then have len: "length (sr_best ?p) = length order" by (metis mset_eq_length)
  show ?case
  proof (cases "sr_improved ?p")
    case True
    then have "two_opt_loop matrix order bestCost = two_opt_loop matrix (sr_best ?p) (sr_cost ?p)"
      by (subst two_opt_loop.simps) (simp add: Let_def)
    then show ?thesis using 1(1) [OF refl True p(3)] p len by (auto intro: order_trans)
  next
    case False
    then have "two_opt_loop matrix order bestCost = order"
      using route_search.pass_done [OF False] by (subst two_opt_loop.simps) (simp add: Let_def)
    then show ?thesis using route_search.pass_done [OF False] 1(2) by simp
  qed
qed

lemma twoOpt_mset [simp]: "mset (twoOpt matrix initial) = mset initial"
  and twoOpt_no_worse: "routeDuration matrix (twoOpt matrix initial) \<le> routeDuration matrix initial"
  and twoOpt_settled: "i < j \<Longrightarrow> j < length initial \<Longrightarrow>
    \<not> shorter (routeDuration matrix (reverse_segment i j (twoOpt matrix initial))) (routeDuration matrix (twoOpt matrix initial))"
  using two_opt_loop_facts [of "routeDuration matrix initial" matrix initial, OF refl] by (simp_all add: twoOpt_def)

lemma nearest_walk_mset [simp]: "mset (nearest_walk matrix current remaining) = mset remaining"
proof (induction matrix current remaining rule: nearest_walk.induct)
  case (1 matrix current remaining)
  show ?case
  proof (cases "remaining = [] \<or> nearest_of matrix current remaining = None")
    case True
    then show ?thesis by (subst nearest_walk.simps) auto
  next
    case False
    then obtain x where x: "nearest_of matrix current remaining = Some x" by auto
    then have "nearest_walk matrix current remaining = x # nearest_walk matrix x (remove1 x remaining)"
      using False by (subst nearest_walk.simps) simp
    then show ?thesis using 1 [OF _ x] False nearest_of_member [OF x] by simp
  qed
qed

lemma nearest_from_of_None: "nearest_from_of matrix current remaining = None \<longleftrightarrow> remaining = []"
proof -
  have some: "foldl (nearest_from_step cost) (Some b) xs \<noteq> None" for cost b xs
    by (induction xs arbitrary: b) (auto simp: nearest_from_step_def split: if_splits prod.splits)
  show ?thesis
    using some by (cases remaining) (auto simp: nearest_from_of.simps nearest_from_step_def)
qed

lemma nearestNeighbourFrom_mset [simp]: "mset (nearestNeighbourFrom matrix current remaining) = mset remaining"
proof (induction matrix current remaining rule: nearestNeighbourFrom.induct)
  case (1 matrix current remaining)
  show ?case
  proof (cases "nearest_from_of matrix current remaining")
    case None
    then have "remaining = []" by (simp add: nearest_from_of_None)
    with None show ?thesis by (subst nearestNeighbourFrom.simps) simp
  next
    case (Some x)
    then have "nearestNeighbourFrom matrix current remaining = x # nearestNeighbourFrom matrix x (remove1 x remaining)"
      by (subst nearestNeighbourFrom.simps) simp
    then show ?thesis using 1 [OF Some] nearest_from_of_member [OF Some] by simp
  qed
qed

text \<open>What an order costs, leg by leg.\<close>

fun legs_cost :: "duration_matrix \<Rightarrow> nat \<Rightarrow> nat list \<Rightarrow> duration" where
  "legs_cost matrix from [] = Secs 0"
| "legs_cost matrix from (to # order) = leg matrix from to + legs_cost matrix to order"

lemma Secs_0 [simp]: "Secs 0 + d = d" "d + Secs 0 = d"
  by (cases d; simp)+

lemma routeDuration_legs: "routeDuration matrix order = legs_cost matrix 0 order"
proof -
  have "foldl (\<lambda>total index. total + leg matrix ((a # order) ! index) ((a # order) ! (index + 1))) d [0..<length order] =
      d + legs_cost matrix a order" for a d order
  proof (induction order arbitrary: a d)
    case (Cons b order)
    have "[0..<length (b # order)] = 0 # map Suc [0..<length order]"
      by (simp add: upt_conv_Cons map_Suc_upt del: upt_Suc)
    then show ?case
      using Cons.IH [of b "d + leg matrix a b"] by (simp add: foldl_map add.assoc del: upt_Suc)
  qed simp
  from this [of "hd order" "tl order" "leg matrix 0 (hd order)"] show ?thesis
    by (cases order) (simp_all add: routeDuration_def)
qed

text \<open>A matrix with every pair measured.\<close>

definition measured :: "duration_matrix \<Rightarrow> bool" where
  "measured matrix \<longleftrightarrow> (\<forall>row \<in> set matrix. length row = length matrix \<and> Unmeasured \<notin> set row)"

lemma measured_leg:
  assumes "measured matrix" "a < length matrix" "b < length matrix"
  shows "leg matrix a b = Secs (exact_cost matrix a b)"
proof -
  have row: "length (matrix ! a) = length matrix" "Unmeasured \<notin> set (matrix ! a)"
    using assms(1) nth_mem [OF assms(2)] by (simp_all add: measured_def)
  then have "b < length (matrix ! a)" "matrix ! a ! b \<noteq> Unmeasured"
    using assms(3) by (simp, metis nth_mem)
  then show ?thesis
    using assms by (cases "matrix ! a ! b") (simp_all add: leg_def exact_cost_def matrix_entry_def)
qed

lemma measured_legs:
  assumes "measured matrix" "from < length matrix" "set order \<subseteq> {..<length matrix}"
  shows "legs_cost matrix from order = Secs (path_cost (exact_cost matrix) from order)"
  using assms(2,3) by (induction order arbitrary: "from") (simp_all add: measured_leg [OF assms(1)])

lemma permutation_mset: "distinct order \<and> set order = set [a..<b] \<longleftrightarrow> mset order = mset [a..<b]"
  by (metis distinct_upt mset_eq_setD set_eq_iff_mset_eq_distinct mset_eq_imp_distinct_iff)

lemma shortestRouteOrder_exact:
  assumes "length matrix \<le> MAX_EXACT_STOPS + 1"
  shows "\<exists>order. shortestRouteOrder matrix = Some order \<and> mset order = mset [1..<length matrix] \<and>
    (\<forall>p. mset p = mset [1..<length matrix] \<longrightarrow>
       path_cost (exact_cost matrix) 0 order \<le> path_cost (exact_cost matrix) 0 p)"
proof (cases "length matrix \<le> 2")
  case True
  then consider "[1..<length matrix] = []" | "[1..<length matrix] = [1]"
    by (cases "length matrix \<le> 1") (auto simp: le_Suc_eq numeral_2_eq_2)
  then show ?thesis
    using True by cases (auto simp: shortestRouteOrder_def)
next
  case False
  then have n: "0 < length matrix - 1" "length matrix - 1 \<le> MAX_EXACT_STOPS" "\<not> length matrix - 1 \<le> 1"
    using assms by auto
  have set: "{1..length matrix - 1} = set [1..<length matrix]"
    using n by auto
  define stops where "stops = [1..<length matrix]"
  have perm: "distinct p \<and> set p = set stops \<longleftrightarrow> mset p = mset stops" for p
    unfolding stops_def by (rule permutation_mset)
  from exactRouteOrder_optimal [OF n(1), of matrix] obtain order where
    order: "exactRouteOrder matrix (length matrix - 1) = Some order" "distinct order" "set order = set stops"
      "\<And>p. distinct p \<Longrightarrow> set p = set stops \<Longrightarrow> path_cost (exact_cost matrix) 0 order \<le> path_cost (exact_cost matrix) 0 p"
    unfolding set stops_def by blast
  have "shortestRouteOrder matrix = Some order"
    using n order(1) by (simp add: shortestRouteOrder_def)
  then show ?thesis
    using order perm unfolding stops_def [symmetric] by blast
qed

lemma shortestRouteOrder_permutation:
  "\<exists>order. shortestRouteOrder matrix = Some order \<and> mset order = mset [1..<length matrix]"
proof (cases "length matrix \<le> MAX_EXACT_STOPS + 1")
  case True
  then show ?thesis using shortestRouteOrder_exact by blast
next
  case False
  then have "\<not> length [1..<length matrix] \<le> 1" "\<not> length [1..<length matrix] \<le> MAX_EXACT_STOPS"
    by (auto simp: MAX_EXACT_STOPS_def)
  then have "shortestRouteOrder matrix = Some (twoOpt matrix (nearestNeighbour matrix [1..<length matrix]))"
    by (simp only: shortestRouteOrder_def Let_def if_False)
  then show ?thesis by (simp add: nearestNeighbour_def)
qed

section \<open>An open path\<close>

lemma free_start_length [simp]: "length (free_start matrix) = length matrix + 1"
  by (simp add: free_start_def)

definition all_stops :: "nat \<Rightarrow> nat list" where
  "all_stops n = [1..<n + 1]"

lemma all_stops: "map Suc [0..<n] = all_stops n" "map (\<lambda>index. index + 1) [0..<n] = all_stops n"
  "distinct (all_stops n)" "set (all_stops n) = {1..n}" "[1..<Suc n] = all_stops n"
  by (simp_all add: all_stops_def map_Suc_upt atLeastLessThanSuc_atLeastAtMost del: upt_Suc)

definition path_from :: "duration_matrix \<Rightarrow> nat \<Rightarrow> nat \<Rightarrow> nat list" where
  "path_from matrix n first =
     twoOpt matrix (first # nearestNeighbourFrom matrix first (uniq (filter (\<lambda>stop. stop \<noteq> first) (all_stops n))))"

lemma path_from_mset:
  assumes "first \<in> set (all_stops n)"
  shows "mset (path_from matrix n first) = mset (all_stops n)"
proof -
  have "mset (path_from matrix n first) = mset (first # filter (\<lambda>stop. stop \<noteq> first) (all_stops n))"
    by (simp add: path_from_def all_stops)
  also have "\<dots> = mset (all_stops n)"
    using assms by (subst set_eq_iff_mset_eq_distinct [symmetric]) (auto simp: all_stops(3))
  finally show ?thesis .
qed

lemma try_start_cases:
  "try_start matrix n b first =
     (if routeDuration matrix (path_from matrix n first) < snd b
      then (path_from matrix n first, routeDuration matrix (path_from matrix n first)) else b)"
  by (simp only: try_start_def path_from_def Let_def all_stops)

definition start_ok :: "duration_matrix \<Rightarrow> nat \<Rightarrow> nat list \<times> duration \<Rightarrow> bool" where
  "start_ok matrix n b \<longleftrightarrow>
     b = ([], Unmeasured) \<or> mset (fst b) = mset (all_stops n) \<and> snd b = routeDuration matrix (fst b)"

lemma try_start_ok:
  assumes "first \<in> set (all_stops n)" "start_ok matrix n b"
  shows "start_ok matrix n (try_start matrix n b first)"
    "snd (try_start matrix n b first) \<le> snd b"
    "snd (try_start matrix n b first) \<le> routeDuration matrix (path_from matrix n first)"
  using assms path_from_mset [OF assms(1), of matrix] by (auto simp: try_start_cases start_ok_def not_less)

lemma try_starts:
  assumes "set firsts \<subseteq> set (all_stops n)" "start_ok matrix n b"
  shows "start_ok matrix n (foldl (try_start matrix n) b firsts) \<and>
    snd (foldl (try_start matrix n) b firsts) \<le> snd b \<and>
    (\<forall>first \<in> set firsts. snd (foldl (try_start matrix n) b firsts) \<le> routeDuration matrix (path_from matrix n first))"
  using assms
proof (induction firsts arbitrary: b)
  case (Cons first firsts)
  have first: "first \<in> set (all_stops n)" "set firsts \<subseteq> set (all_stops n)" using Cons.prems(1) by auto
  note b = try_start_ok [OF first(1) Cons.prems(2)]
  from Cons.IH [OF first(2) b(1)] b(2,3) show ?case by (auto intro: order_trans)
qed simp

definition open_cost :: "duration_matrix \<Rightarrow> nat list \<Rightarrow> duration" where
  "open_cost matrix order = (case order of [] \<Rightarrow> Secs 0 | first # rest \<Rightarrow> legs_cost matrix first rest)"

lemma free_start_leg:
  "leg (free_start matrix) 0 b = Secs 0"
  "leg (free_start matrix) (Suc a) (Suc b) = leg matrix a b"
proof -
  show "leg (free_start matrix) 0 b = Secs 0"
    by (auto simp: leg_def matrix_entry_def free_start_def less_Suc_eq_0_disj nth_Cons')
  show "leg (free_start matrix) (Suc a) (Suc b) = leg matrix a b"
    by (auto simp: leg_def matrix_entry_def free_start_def)
qed

lemma free_start_cost: "routeDuration (free_start matrix) (map Suc order) = open_cost matrix order"
proof -
  have "legs_cost (free_start matrix) (Suc a) (map Suc order) = legs_cost matrix a order" for a order
    by (induction order arbitrary: a) (simp_all add: free_start_leg)
  then show ?thesis
    by (cases order) (simp_all add: routeDuration_legs open_cost_def free_start_leg)
qed

lemma measured_free_start: "measured matrix \<Longrightarrow> measured (free_start matrix)"
  by (auto simp: measured_def free_start_def)

lemma back_to_stops:
  assumes "mset order = mset (all_stops n)"
  shows "mset (map (\<lambda>index. index - 1) order) = mset [0..<n]" "map Suc (map (\<lambda>index. index - 1) order) = order"
proof -
  have "mset (map (\<lambda>index. index - 1) order) = mset (map (\<lambda>index. index - 1) (map Suc [0..<n]))"
    by (simp only: mset_map [of "\<lambda>index. index - 1"] assms all_stops)
  also have "map (\<lambda>index. index - 1) (map Suc [0..<n]) = [0..<n]"
    by (simp add: map_idI)
  finally show "mset (map (\<lambda>index. index - 1) order) = mset [0..<n]" .
  have "\<forall>i \<in> set order. 0 < i"
    using mset_eq_setD [OF assms] by (auto simp: all_stops)
  then show "map Suc (map (\<lambda>index. index - 1) order) = order"
    by (induction order) auto
qed

lemma map_Suc_stops: "mset p = mset [0..<n] \<Longrightarrow> mset (map Suc p) = mset (all_stops n)"
  by (metis all_stops(1) mset_map)

lemma measured_cost:
  assumes "measured matrix" "mset order = mset [1..<length matrix]"
  shows "routeDuration matrix order = Secs (path_cost (exact_cost matrix) 0 order)"
proof (cases "order = []")
  case False
  have "set order \<subseteq> {..<length matrix}"
    using mset_eq_setD [OF assms(2)] by auto
  moreover have "0 < length matrix"
    using False assms(2) by (cases "length matrix") auto
  ultimately show ?thesis
    by (simp add: routeDuration_legs measured_legs [OF assms(1)])
qed (simp add: routeDuration_def)

lemma open_order_exact:
  assumes "length matrix \<le> MAX_EXACT_STOPS"
  shows "\<exists>order. shortestOpenPathOrder matrix = Some order \<and> mset order = mset [0..<length matrix] \<and>
    (\<forall>p. measured matrix \<longrightarrow> mset p = mset [0..<length matrix] \<longrightarrow> open_cost matrix order \<le> open_cost matrix p)"
proof (cases "length matrix \<le> 1")
  case True
  then have "shortestOpenPathOrder matrix = Some [0..<length matrix]"
    by (cases "length matrix = 0") (auto simp: shortestOpenPathOrder_def le_Suc_eq)
  moreover have "open_cost matrix p = Secs 0" if "mset p = mset [0..<length matrix]" for p
    using mset_eq_length [OF that] True by (cases p; cases "tl p") (auto simp: open_cost_def)
  ultimately show ?thesis by auto
next
  case False
  let ?m = "free_start matrix" and ?n = "length matrix"
  have stops: "[1..<length ?m] = all_stops ?n"
    by (simp add: all_stops_def)
  obtain order where order: "shortestRouteOrder ?m = Some order" "mset order = mset (all_stops ?n)"
    "\<And>p. mset p = mset (all_stops ?n) \<Longrightarrow> path_cost (exact_cost ?m) 0 order \<le> path_cost (exact_cost ?m) 0 p"
    using shortestRouteOrder_exact [of ?m] assms unfolding stops by (auto simp del: mset_upt)
  let ?order = "map (\<lambda>index. index - 1) order"
  note home = back_to_stops [OF order(2)]
  have "shortestOpenPathOrder matrix = Some ?order"
    using False assms order(1) by (simp add: shortestOpenPathOrder_def)
  moreover have "open_cost matrix ?order \<le> open_cost matrix p"
    if m: "measured matrix" and p: "mset p = mset [0..<?n]" for p
  proof -
    note cost = measured_cost [OF measured_free_start [OF m], unfolded stops]
    have "routeDuration ?m order \<le> routeDuration ?m (map Suc p)"
      using order(3) [OF map_Suc_stops [OF p]] unfolding cost [OF order(2)] cost [OF map_Suc_stops [OF p]]
      by (simp only: duration_simps)
    then show ?thesis
      using free_start_cost [of matrix ?order] unfolding home(2) by (simp add: free_start_cost)
  qed
  ultimately show ?thesis using home(1) by blast
qed

lemma open_order_large:
  assumes "\<not> length matrix \<le> MAX_EXACT_STOPS"
  shows "shortestOpenPathOrder matrix = Some (map (\<lambda>index. index - 1)
    (fst (foldl (try_start (free_start matrix) (length matrix)) ([], Unmeasured) (all_stops (length matrix)))))"
  using assms unfolding shortestOpenPathOrder_def all_stops_def Let_def by (simp add: MAX_EXACT_STOPS_def del: upt_Suc)

lemma start_ok_none: "start_ok matrix n ([], Unmeasured)"
  by (simp add: start_ok_def)

lemma open_order_permutation:
  assumes "measured matrix \<or> length matrix \<le> MAX_EXACT_STOPS"
  shows "\<exists>order. shortestOpenPathOrder matrix = Some order \<and> mset order = mset [0..<length matrix]"
proof (cases "length matrix \<le> MAX_EXACT_STOPS")
  case True
  then show ?thesis using open_order_exact by blast
next
  case False
  let ?m = "free_start matrix" and ?n = "length matrix"
  let ?r = "foldl (try_start ?m ?n) ([], Unmeasured) (all_stops ?n)"
  have n: "1 \<in> set (all_stops ?n)"
    using False by (simp add: all_stops MAX_EXACT_STOPS_def)
  have m: "measured ?m" using assms False measured_free_start by blast
  have stops: "[1..<length ?m] = all_stops ?n"
    by (simp add: all_stops_def)
  have "routeDuration ?m (path_from ?m ?n 1) \<noteq> Unmeasured"
    using measured_cost [OF m, unfolded stops, OF path_from_mset [OF n]] by simp
  moreover note try_starts [OF order_refl start_ok_none, where n = ?n and matrix = ?m]
  ultimately have "snd ?r \<noteq> Unmeasured" "start_ok ?m ?n ?r"
    using n by fastforce+
  then have "mset (fst ?r) = mset (all_stops ?n)"
    by (auto simp: start_ok_def)
  from back_to_stops(1) [OF this] show ?thesis
    by (simp add: open_order_large [OF False])
qed

lemma open_order_lost:
  assumes large: "MAX_EXACT_STOPS < length matrix"
    and lost: "\<And>p. mset p = mset [0..<length matrix] \<Longrightarrow> open_cost matrix p = Unmeasured"
  shows "shortestOpenPathOrder matrix = Some []"
proof -
  let ?m = "free_start matrix" and ?n = "length matrix"
  have "routeDuration ?m (path_from ?m ?n first) = Unmeasured" if "first \<in> set (all_stops ?n)" for first
    using back_to_stops [OF path_from_mset [OF that, of ?m]] lost free_start_cost by metis
  then have "foldl (try_start ?m ?n) ([], Unmeasured) firsts = ([], Unmeasured)" if "set firsts \<subseteq> set (all_stops ?n)" for firsts
    using that by (induction firsts) (simp_all add: try_start_cases)
  from this [OF order_refl] show ?thesis
    using large by (simp add: open_order_large)
qed

section \<open>Properties\<close>

text \<open>
  C6. The order of a day is the best there is. With at most thirteen stops besides the
  technician's position, \<open>shortestRouteOrder\<close> returns, and its order is a permutation of the
  stops that costs no more than any other, a pair nothing measured priced at
  \<open>UNMEASURED_SECONDS\<close>.
\<close>

theorem exact_order_is_optimal:
  assumes "length matrix \<le> MAX_EXACT_STOPS + 1"
  shows "\<exists>order. shortestRouteOrder matrix = Some order \<and> mset order = mset [1..<length matrix] \<and>
    (\<forall>p. mset p = mset [1..<length matrix] \<longrightarrow>
       path_cost (exact_cost matrix) 0 order \<le> path_cost (exact_cost matrix) 0 p)"
  using assms by (rule shortestRouteOrder_exact)

definition three_stops :: duration_matrix where
  "three_stops =
     [[Secs 0, Secs 50, Secs 10, Unmeasured],
      [Secs 50, Secs 0, Secs 15, Secs 20],
      [Secs 10, Secs 30, Secs 0, Secs 5],
      [Secs 40, Secs 7, Secs 5, Secs 0]]"

theorem exact_order_is_optimal_witness:
  "\<exists>order. shortestRouteOrder three_stops = Some order \<and> mset order = {#1, 2, 3#} \<and>
    path_cost (exact_cost three_stops) 0 order \<le> path_cost (exact_cost three_stops) 0 [2, 3, 1]"
proof -
  have stops: "[1..<length three_stops] = [1, 2, 3]"
    by (simp add: three_stops_def upt_rec)
  have "mset [2, 3, 1] = mset [1, 2, 3 :: nat]" "length three_stops \<le> MAX_EXACT_STOPS + 1"
    by (simp_all add: three_stops_def MAX_EXACT_STOPS_def)
  moreover have "mset [1, 2, 3 :: nat] = {#1, 2, 3#}" by simp
  ultimately show ?thesis
    using exact_order_is_optimal [of three_stops, unfolded stops] by metis
qed

text \<open>
  C35. No day loses a property. Whatever the matrix and however many stops,
  \<open>shortestRouteOrder\<close> returns, and its order visits every stop exactly once.
\<close>

theorem route_visits_every_stop:
  "\<exists>order. shortestRouteOrder matrix = Some order \<and> mset order = mset [1..<length matrix]"
  by (rule shortestRouteOrder_permutation)

text \<open>
  C36. 2-opt only ever improves an order, and stops at one no reversal improves. \<open>twoOpt\<close>
  visits the same stops, costs no more than the order it was given, and no segment of its
  result can be turned round to save more than \<open>1e-9\<close> seconds.
\<close>

theorem two_opt_settles:
  "mset (twoOpt matrix initial) = mset initial \<and>
   routeDuration matrix (twoOpt matrix initial) \<le> routeDuration matrix initial \<and>
   (\<forall>i j. i < j \<longrightarrow> j < length initial \<longrightarrow>
      \<not> shorter (routeDuration matrix (reverse_segment i j (twoOpt matrix initial)))
          (routeDuration matrix (twoOpt matrix initial)))"
  by (simp add: twoOpt_no_worse twoOpt_settled)

theorem two_opt_settles_witness:
  "\<not> shorter (routeDuration three_stops (reverse_segment 0 2 (twoOpt three_stops [1, 2, 3])))
      (routeDuration three_stops (twoOpt three_stops [1, 2, 3]))"
  using two_opt_settles [of three_stops "[1, 2, 3]"] by simp

text \<open>
  C28. A day without a starting point. When the matrix is fully measured or the day has at
  most thirteen stops, \<open>shortestOpenPathOrder\<close> returns an order of all the stops; measured and
  at most thirteen, it drives no further between the stops than any other order.
\<close>

theorem open_path_is_optimal:
  assumes "measured matrix \<or> length matrix \<le> MAX_EXACT_STOPS"
  shows "\<exists>order. shortestOpenPathOrder matrix = Some order \<and> mset order = mset [0..<length matrix] \<and>
    (\<forall>p. measured matrix \<longrightarrow> length matrix \<le> MAX_EXACT_STOPS \<longrightarrow> mset p = mset [0..<length matrix] \<longrightarrow>
       open_cost matrix order \<le> open_cost matrix p)"
  using open_order_permutation [OF assms] open_order_exact [of matrix] by fastforce

theorem open_path_is_optimal_witness:
  "\<exists>order. shortestOpenPathOrder [[Secs 0, Secs 9], [Secs 4, Secs 0]] = Some order \<and>
    open_cost [[Secs 0, Secs 9], [Secs 4, Secs 0]] order \<le> Secs 4"
proof -
  let ?m = "[[Secs 0, Secs 9], [Secs 4, Secs 0]]"
  have stops: "[0..<length ?m] = [0, 1]" by (simp add: upt_rec)
  have "open_cost ?m [1, 0] = Secs 4"
    by (simp add: open_cost_def leg_def matrix_entry_def)
  moreover have "measured ?m" by (simp add: measured_def)
  moreover have "mset [1, 0 :: nat] = mset [0, 1]" by simp
  ultimately show ?thesis
    using open_path_is_optimal [of ?m, unfolded stops] by (fastforce simp: MAX_EXACT_STOPS_def)
qed

text \<open>
  But a larger day can lose every property. With more than thirteen stops, when every
  order of them crosses a pair nothing measured (one stop no road reaches is enough),
  \<open>shortestOpenPathOrder\<close> returns the empty order, which is what the comment on
  \<open>nearestNeighbour\<close> says once broke a quarter's routing.
\<close>

theorem open_path_loses_the_day:
  assumes "MAX_EXACT_STOPS < length matrix"
    and "\<And>p. mset p = mset [0..<length matrix] \<Longrightarrow> open_cost matrix p = Unmeasured"
  shows "shortestOpenPathOrder matrix = Some []"
  using assms by (rule open_order_lost)

definition unreachable_stops :: duration_matrix where
  "unreachable_stops = replicate 14 (replicate 14 Unmeasured)"

theorem open_path_loses_the_day_witness: "shortestOpenPathOrder unreachable_stops = Some []"
proof (rule open_path_loses_the_day)
  show "MAX_EXACT_STOPS < length unreachable_stops"
    by (simp add: MAX_EXACT_STOPS_def unreachable_stops_def)
  fix p
  assume p: "mset p = mset [0..<length unreachable_stops]"
  then have "length p = 14" "set p = {..<14}"
    using mset_eq_length [OF p] mset_eq_setD [OF p] by (auto simp: unreachable_stops_def)
  then obtain a b q where "p = a # b # q" "a < 14" "b < 14"
    by (cases p rule: remdups_adj.cases) auto
  then show "open_cost unreachable_stops p = Unmeasured"
    by (simp add: open_cost_def leg_def matrix_entry_def unreachable_stops_def)
qed

text \<open>
  A route starts from a position only if it is today's. \<open>chooseRouteOrigin\<close> starts from
  the latest fix exactly when that fix has a readable time between the start of the day and now
  (live within five minutes of it, otherwise last known); else from home when there is one; else
  nowhere.
\<close>

theorem route_origin:
  "chooseRouteOrigin parse_date latestFix home dayStart now =
     (if \<exists>p s t. latestFix = Some (p, s) \<and> parse_date s = Some t \<and> dayStart \<le> t \<and> t \<le> now
      then map_option (\<lambda>(p, s). \<lparr>ro_point = p, ro_recordedAt = Some s,
             ro_kind = (if now - the (parse_date s) \<le> 300000 then LIVE else LAST_KNOWN)\<rparr>) latestFix
      else map_option (\<lambda>p. \<lparr>ro_point = p, ro_recordedAt = None, ro_kind = HOME\<rparr>) home)"
  by (auto simp: chooseRouteOrigin_def LIVE_POSITION_WITHIN_MS_def Let_def split: option.splits)

end
