(* ===== verification/Session_Service.thy ===== *)
theory Session_Service
  imports Prelude
begin

text \<open>
  \<open>backend/src/auth/session.service.ts\<close> and the parts of \<open>token.service.ts\<close> it calls: sign-in,
  refresh with reuse detection, sign-out, and the rule that holds a technician to one handset.

  The tables are lists of rows in the order they were created. bcrypt, SHA-256 and the JWT's
  HMAC are parameters (\<open>auth_env\<close>), and so are the random refresh tokens: each operation is
  given the one it would draw. An operation answers with an error or a value, and with the
  tables as it leaves them, an error after a write included.
\<close>

section \<open>The tables\<close>

datatype user_role =
  SYSTEM_ADMIN | PROPERTY_ADMIN | INSPECTION_SUPERVISOR | INSPECTION_TECHNICIAN
| CONDITION_REVIEWER | CHARGE_APPROVER | PROPERTY_OWNER_READ_ONLY

record credential =
  cr_user :: string
  cr_email :: string
  cr_passwordHash :: string
  cr_mustChange :: bool
  cr_isActive :: bool
  cr_roles :: "user_role list"
  cr_lastSignInAt :: "millis option"

record session =
  se_id :: nat
  se_user :: string
  se_tokenHash :: string
  se_expiresAt :: millis
  se_revokedAt :: "millis option"
  se_replacedById :: "nat option"
  se_userAgent :: "string option"
  se_ipAddress :: "string option"
  se_deviceId :: "string option"
  se_fromConsole :: bool
  se_createdAt :: millis

record auth_db =
  db_credentials :: "credential list"
  db_sessions :: "session list"
  db_nextId :: nat

record auth_env =
  env_hash :: "string \<Rightarrow> string"
  env_compare :: "string \<Rightarrow> string \<Rightarrow> bool"
  env_absentHash :: string
  env_secret :: "string option"
  env_jwt :: "string \<Rightarrow> string \<Rightarrow> bool \<Rightarrow> int \<Rightarrow> int \<Rightarrow> string"
  env_accessTtl :: "real option"
  env_refreshTtlDays :: "real option"

datatype auth_error =
  INVALID_CREDENTIALS
| AUTH_NOT_CONFIGURED
| SESSION_ALREADY_ACTIVE string millis

record session_tokens =
  accessToken :: string
  refreshToken :: string
  expiresIn :: int
  mustChangePassword :: bool

record request_context =
  ctx_userAgent :: "string option"
  ctx_ipAddress :: "string option"
  ctx_takeOver :: bool
  ctx_deviceId :: "string option"
  ctx_console :: bool

section \<open>Tokens\<close>

definition DEFAULT_ACCESS_TTL_SECONDS :: int where "DEFAULT_ACCESS_TTL_SECONDS = 3600"
definition DEFAULT_REFRESH_TTL_DAYS :: real where "DEFAULT_REFRESH_TTL_DAYS = 30"

text \<open>The environment's numbers, nothing when unset or not a finite number.\<close>

definition accessTtlSeconds :: "real option \<Rightarrow> int" where
  "accessTtlSeconds raw =
     (case raw of Some r \<Rightarrow> if 0 < r then \<lfloor>r\<rfloor> else DEFAULT_ACCESS_TTL_SECONDS
      | None \<Rightarrow> DEFAULT_ACCESS_TTL_SECONDS)"

definition refreshTtlMs :: "real option \<Rightarrow> real" where
  "refreshTtlMs raw =
     (let days = (case raw of Some r \<Rightarrow> if 0 < r then r else DEFAULT_REFRESH_TTL_DAYS
                  | None \<Rightarrow> DEFAULT_REFRESH_TTL_DAYS)
      in days * 24 * 60 * 60 * 1000)"

definition secret_key :: "auth_env \<Rightarrow> string option" where
  "secret_key env =
     (case env_secret env of None \<Rightarrow> None
      | Some s \<Rightarrow> let key = js_trim s in if key = [] then None else Some key)"

definition issueAccessToken :: "auth_env \<Rightarrow> millis \<Rightarrow> string \<Rightarrow> bool \<Rightarrow> auth_error + string \<times> int" where
  "issueAccessToken env now user mustChange =
     (let issuedAt = now div 1000;
          ttl = accessTtlSeconds (env_accessTtl env)
      in case secret_key env of
           None \<Rightarrow> Inl AUTH_NOT_CONFIGURED
         | Some key \<Rightarrow> Inr (env_jwt env key user mustChange issuedAt (issuedAt + ttl), ttl))"

definition refresh_expiry :: "auth_env \<Rightarrow> millis \<Rightarrow> millis" where
  "refresh_expiry env now = \<lfloor>of_int now + refreshTtlMs (env_refreshTtlDays env)\<rfloor>"

section \<open>Queries and updates\<close>

definition find_credential :: "string \<Rightarrow> auth_db \<Rightarrow> credential option" where
  "find_credential email db = find (\<lambda>c. cr_email c = email) (db_credentials db)"

definition find_user :: "string \<Rightarrow> auth_db \<Rightarrow> credential option" where
  "find_user user db = find (\<lambda>c. cr_user c = user) (db_credentials db)"

definition find_session :: "string \<Rightarrow> auth_db \<Rightarrow> session option" where
  "find_session tokenHash db = find (\<lambda>s. se_tokenHash s = tokenHash) (db_sessions db)"

definition update_sessions :: "(session \<Rightarrow> bool) \<Rightarrow> (session \<Rightarrow> session) \<Rightarrow> auth_db \<Rightarrow> auth_db" where
  "update_sessions P f db = db\<lparr>db_sessions := map (\<lambda>s. if P s then f s else s) (db_sessions db)\<rparr>"

definition revokeAllFor :: "millis \<Rightarrow> string \<Rightarrow> bool \<Rightarrow> auth_db \<Rightarrow> auth_db" where
  "revokeAllFor now user handsetsOnly =
     update_sessions
       (\<lambda>s. se_user s = user \<and> se_revokedAt s = None \<and> (handsetsOnly \<longrightarrow> \<not> se_fromConsole s))
       (\<lambda>s. s\<lparr>se_revokedAt := Some now\<rparr>)"

definition signOut :: "auth_env \<Rightarrow> millis \<Rightarrow> string \<Rightarrow> auth_db \<Rightarrow> auth_db" where
  "signOut env now token =
     update_sessions (\<lambda>s. se_tokenHash s = env_hash env token \<and> se_revokedAt s = None)
       (\<lambda>s. s\<lparr>se_revokedAt := Some now\<rparr>)"

definition create_session ::
  "auth_env \<Rightarrow> millis \<Rightarrow> string \<Rightarrow> string \<Rightarrow> string option \<Rightarrow> string option \<Rightarrow> string option \<Rightarrow> bool \<Rightarrow> auth_db \<Rightarrow> auth_db" where
  "create_session env now token user userAgent ipAddress deviceId fromConsole db =
     db\<lparr>db_sessions := db_sessions db @
          [\<lparr>se_id = db_nextId db, se_user = user, se_tokenHash = env_hash env token,
            se_expiresAt = refresh_expiry env now, se_revokedAt = None, se_replacedById = None,
            se_userAgent = userAgent, se_ipAddress = ipAddress, se_deviceId = deviceId,
            se_fromConsole = fromConsole, se_createdAt = now\<rparr>],
        db_nextId := db_nextId db + 1\<rparr>"

section \<open>One handset\<close>

definition describeDevice :: "string option \<Rightarrow> string" where
  "describeDevice userAgent =
     (case userAgent of None \<Rightarrow> []
      | Some ua \<Rightarrow>
          if ua = [] then []
          else if str_includes (toLowerCase ua) ''android'' then '' (an Android phone)''
          else if list_ex (str_includes (toLowerCase ua)) [''iphone'', ''ipad'', ''ios'', ''darwin'', ''cfnetwork'']
            then '' (an iPhone)''
          else [])"

text \<open>\<open>orderBy: createdAt desc\<close>, the first row.\<close>

fun newest_session :: "session list \<Rightarrow> session option" where
  "newest_session [] = None"
| "newest_session (s # ss) =
     (case newest_session ss of None \<Rightarrow> Some s
      | Some t \<Rightarrow> if se_createdAt s < se_createdAt t then Some t else Some s)"

definition other_device :: "string option \<Rightarrow> session \<Rightarrow> bool" where
  "other_device deviceId s \<longleftrightarrow>
     (case deviceId of None \<Rightarrow> True
      | Some d \<Rightarrow> d = [] \<or> se_deviceId s = None \<or> se_deviceId s \<noteq> Some d)"

definition live_elsewhere :: "millis \<Rightarrow> string \<Rightarrow> string option \<Rightarrow> auth_db \<Rightarrow> session option" where
  "live_elsewhere now user deviceId db =
     newest_session (filter (\<lambda>s. se_user s = user \<and> se_revokedAt s = None \<and> now < se_expiresAt s \<and>
       \<not> se_fromConsole s \<and> other_device deviceId s) (db_sessions db))"

definition enforceSingleDevice :: "millis \<Rightarrow> credential \<Rightarrow> request_context \<Rightarrow> auth_db \<Rightarrow> auth_error option \<times> auth_db" where
  "enforceSingleDevice now c ctx db =
     (if INSPECTION_TECHNICIAN \<notin> set (cr_roles c) then (None, db)
      else if ctx_takeOver ctx then (None, revokeAllFor now (cr_user c) True db)
      else case live_elsewhere now (cr_user c) (ctx_deviceId ctx) db of
             None \<Rightarrow> (None, revokeAllFor now (cr_user c) True db)
           | Some live \<Rightarrow>
               (Some (SESSION_ALREADY_ACTIVE (describeDevice (se_userAgent live)) (se_createdAt live)), db))"

section \<open>The operations\<close>

definition issueSession ::
  "auth_env \<Rightarrow> millis \<Rightarrow> string \<Rightarrow> credential \<Rightarrow> request_context \<Rightarrow> auth_db \<Rightarrow> (auth_error + session_tokens) \<times> auth_db" where
  "issueSession env now token c ctx db =
     (let db' = create_session env now token (cr_user c) (ctx_userAgent ctx) (ctx_ipAddress ctx)
                  (ctx_deviceId ctx) (ctx_console ctx) db
      in case issueAccessToken env now (cr_user c) (cr_mustChange c) of
           Inl e \<Rightarrow> (Inl e, db')
         | Inr (access, ttl) \<Rightarrow>
             (Inr \<lparr>accessToken = access, refreshToken = token, expiresIn = ttl,
                mustChangePassword = cr_mustChange c\<rparr>, db'))"

definition mark_signed_in :: "millis \<Rightarrow> string \<Rightarrow> auth_db \<Rightarrow> auth_db" where
  "mark_signed_in now user db =
     db\<lparr>db_credentials := map (\<lambda>c. if cr_user c = user then c\<lparr>cr_lastSignInAt := Some now\<rparr> else c) (db_credentials db)\<rparr>"

definition signIn ::
  "auth_env \<Rightarrow> millis \<Rightarrow> string \<Rightarrow> string \<Rightarrow> string \<Rightarrow> request_context \<Rightarrow> auth_db \<Rightarrow> (auth_error + session_tokens) \<times> auth_db" where
  "signIn env now token email password ctx db =
     (let found = find_credential (toLowerCase (js_trim email)) db;
          matches = env_compare env password (case found of None \<Rightarrow> env_absentHash env | Some c \<Rightarrow> cr_passwordHash c)
      in case found of
           None \<Rightarrow> (Inl INVALID_CREDENTIALS, db)
         | Some c \<Rightarrow>
             if \<not> matches then (Inl INVALID_CREDENTIALS, db)
             else if \<not> cr_isActive c then (Inl INVALID_CREDENTIALS, db)
             else case (if ctx_console ctx then (None, db) else enforceSingleDevice now c ctx db) of
                    (Some e, db') \<Rightarrow> (Inl e, db')
                  | (None, db') \<Rightarrow>
                      (case issueSession env now token c ctx db' of
                         (Inl e, db'') \<Rightarrow> (Inl e, db'')
                       | (Inr tokens, db'') \<Rightarrow> (Inr tokens, mark_signed_in now (cr_user c) db'')))"

definition refresh ::
  "auth_env \<Rightarrow> millis \<Rightarrow> string \<Rightarrow> string \<Rightarrow> request_context \<Rightarrow> auth_db \<Rightarrow> (auth_error + session_tokens) \<times> auth_db" where
  "refresh env now next_token token ctx db =
     (case find_session (env_hash env token) db of
        None \<Rightarrow> (Inl INVALID_CREDENTIALS, db)
      | Some existing \<Rightarrow>
          if se_revokedAt existing \<noteq> None \<and> se_replacedById existing \<noteq> None
            then (Inl INVALID_CREDENTIALS, revokeAllFor now (se_user existing) False db)
          else if se_revokedAt existing \<noteq> None then (Inl INVALID_CREDENTIALS, db)
          else if se_expiresAt existing \<le> now then (Inl INVALID_CREDENTIALS, db)
          else case find_user (se_user existing) db of
                 None \<Rightarrow> (Inl INVALID_CREDENTIALS, db)
               | Some c \<Rightarrow>
                   if \<not> cr_isActive c then (Inl INVALID_CREDENTIALS, db)
                   else
                     let created = db_nextId db;
                         db' = update_sessions (\<lambda>s. se_id s = se_id existing)
                           (\<lambda>s. s\<lparr>se_revokedAt := Some now, se_replacedById := Some created\<rparr>)
                           (create_session env now next_token (se_user existing) (ctx_userAgent ctx)
                             (ctx_ipAddress ctx) (se_deviceId existing)
                             (se_fromConsole existing \<or> ctx_console ctx) db)
                     in case issueAccessToken env now (se_user existing) (cr_mustChange c) of
                          Inl e \<Rightarrow> (Inl e, db')
                        | Inr (access, ttl) \<Rightarrow>
                            (Inr \<lparr>accessToken = access, refreshToken = next_token, expiresIn = ttl,
                               mustChangePassword = cr_mustChange c\<rparr>, db'))"

section \<open>The invariant\<close>

definition sessions_wf :: "auth_db \<Rightarrow> bool" where
  "sessions_wf db \<longleftrightarrow>
     distinct (map cr_user (db_credentials db)) \<and>
     distinct (map se_tokenHash (db_sessions db)) \<and>
     distinct (map se_id (db_sessions db)) \<and>
     (\<forall>s \<in> set (db_sessions db). se_id s < db_nextId db \<and>
        (\<forall>i. se_replacedById s = Some i \<longrightarrow> i < db_nextId db \<and> se_revokedAt s \<noteq> None))"

definition handsets :: "string \<Rightarrow> auth_db \<Rightarrow> session list" where
  "handsets user db =
     filter (\<lambda>s. se_user s = user \<and> se_revokedAt s = None \<and> \<not> se_fromConsole s) (db_sessions db)"

definition is_technician :: "auth_db \<Rightarrow> string \<Rightarrow> bool" where
  "is_technician db user \<longleftrightarrow>
     (\<exists>c \<in> set (db_credentials db). cr_user c = user \<and> INSPECTION_TECHNICIAN \<in> set (cr_roles c))"

definition one_handset :: "auth_db \<Rightarrow> bool" where
  "one_handset db \<longleftrightarrow> (\<forall>user. is_technician db user \<longrightarrow> length (handsets user db) \<le> 1)"

definition token_hashes :: "auth_db \<Rightarrow> string set" where
  "token_hashes db = set (map se_tokenHash (db_sessions db))"

text \<open>What each write does to the sessions of a user, the credentials and the keys.\<close>

named_theorems session_writes "how the writes of the session service act on the tables"

lemma update_sessions_frame [session_writes]:
  assumes "\<And>s. se_tokenHash (f s) = se_tokenHash s" "\<And>s. se_id (f s) = se_id s"
  shows "db_credentials (update_sessions P f db) = db_credentials db"
    "db_nextId (update_sessions P f db) = db_nextId db"
    "map se_tokenHash (db_sessions (update_sessions P f db)) = map se_tokenHash (db_sessions db)"
    "map se_id (db_sessions (update_sessions P f db)) = map se_id (db_sessions db)"
  using assms by (simp_all add: update_sessions_def o_def if_distrib cong: if_cong)

lemma update_sessions_rows: "db_sessions (update_sessions P f db) = map (\<lambda>s. if P s then f s else s) (db_sessions db)"
  by (simp add: update_sessions_def)

lemma create_session_frame [session_writes]:
  "db_credentials (create_session env now token user ua ip device console db) = db_credentials db"
  "db_nextId (create_session env now token user ua ip device console db) = db_nextId db + 1"
  "token_hashes (create_session env now token user ua ip device console db) = insert (env_hash env token) (token_hashes db)"
  "handsets u (create_session env now token user ua ip device console db) =
     handsets u db @ (if u = user \<and> \<not> console
       then [\<lparr>se_id = db_nextId db, se_user = user, se_tokenHash = env_hash env token,
            se_expiresAt = refresh_expiry env now, se_revokedAt = None, se_replacedById = None,
            se_userAgent = ua, se_ipAddress = ip, se_deviceId = device,
            se_fromConsole = console, se_createdAt = now\<rparr>] else [])"
  by (simp_all add: create_session_def token_hashes_def handsets_def)

lemma revoke_frame [session_writes]:
  "db_credentials (revokeAllFor now user h db) = db_credentials db"
  "token_hashes (revokeAllFor now user h db) = token_hashes db"
  "db_credentials (signOut env now token db) = db_credentials db"
  "token_hashes (signOut env now token db) = token_hashes db"
proof -
  have hashes: "token_hashes (update_sessions P (\<lambda>s. s\<lparr>se_revokedAt := r\<rparr>) db) = token_hashes db" for P r
  proof -
    have "map se_tokenHash (db_sessions (update_sessions P (\<lambda>s. s\<lparr>se_revokedAt := r\<rparr>) db)) = map se_tokenHash (db_sessions db)"
      by (rule update_sessions_frame(3)) simp_all
    then show ?thesis by (simp only: token_hashes_def)
  qed
  show "token_hashes (revokeAllFor now user h db) = token_hashes db" "token_hashes (signOut env now token db) = token_hashes db"
    unfolding revokeAllFor_def signOut_def by (rule hashes)+
qed (simp_all add: revokeAllFor_def signOut_def update_sessions_def)

lemma handsets_revoked: "handsets user (revokeAllFor now user h db) = []"
  unfolding handsets_def revokeAllFor_def update_sessions_rows filter_empty_conv set_map
  by (intro ballI) (elim imageE, auto split: if_splits)

lemma filter_update_length:
  assumes "\<And>s. Q (f s) \<Longrightarrow> Q s"
  shows "length (filter Q (map (\<lambda>s. if P s then f s else s) xs)) \<le> length (filter Q xs)"
  using assms by (induction xs) auto

lemma handsets_update:
  assumes "\<And>s. se_user (f s) = se_user s" "\<And>s. se_fromConsole (f s) = se_fromConsole s" "\<And>s. se_revokedAt (f s) \<noteq> None"
  shows "length (handsets u (update_sessions P f db)) \<le> length (handsets u db)"
  unfolding handsets_def update_sessions_rows by (rule filter_update_length) (use assms in metis)

lemma handsets_revoke_length: "length (handsets u (revokeAllFor now user h db)) \<le> length (handsets u db)"
  "length (handsets u (signOut env now token db)) \<le> length (handsets u db)"
  unfolding revokeAllFor_def signOut_def by (rule handsets_update; simp)+

lemma is_technician_cong: "db_credentials db = db_credentials db' \<Longrightarrow> is_technician db u = is_technician db' u"
  by (simp add: is_technician_def)

lemma sessions_wf_update:
  assumes "sessions_wf db" "\<And>s. se_tokenHash (f s) = se_tokenHash s" "\<And>s. se_id (f s) = se_id s"
    "\<And>s. se_revokedAt (f s) \<noteq> None" "\<And>s i. se_replacedById (f s) = Some i \<Longrightarrow> se_replacedById s = Some i \<or> i < db_nextId db"
  shows "sessions_wf (update_sessions P f db)"
proof -
  have "se_id (if P s then f s else s) < db_nextId db \<and>
      (\<forall>i. se_replacedById (if P s then f s else s) = Some i \<longrightarrow> i < db_nextId db \<and> se_revokedAt (if P s then f s else s) \<noteq> None)"
    if "s \<in> set (db_sessions db)" for s
  proof -
    have s: "se_id s < db_nextId db" "\<And>i. se_replacedById s = Some i \<Longrightarrow> i < db_nextId db \<and> se_revokedAt s \<noteq> None"
      using assms(1) that by (simp_all add: sessions_wf_def)
    show ?thesis using s assms(3,4) assms(5) [of s] by (cases "P s") auto
  qed
  then have "\<forall>s \<in> set (db_sessions (update_sessions P f db)). se_id s < db_nextId db \<and>
      (\<forall>i. se_replacedById s = Some i \<longrightarrow> i < db_nextId db \<and> se_revokedAt s \<noteq> None)"
    unfolding update_sessions_rows set_map by blast
  then show ?thesis
    using assms(1) unfolding sessions_wf_def update_sessions_frame [OF assms(2,3)] by simp
qed

lemma sessions_wf_create:
  assumes "sessions_wf db" "env_hash env token \<notin> token_hashes db"
  shows "sessions_wf (create_session env now token user ua ip device console db)"
  using assms by (force simp: sessions_wf_def create_session_def token_hashes_def)

lemma sessions_wf_revoke: "sessions_wf db \<Longrightarrow> sessions_wf (revokeAllFor now user h db)"
  "sessions_wf db \<Longrightarrow> sessions_wf (signOut env now token db)"
  unfolding revokeAllFor_def signOut_def by (rule sessions_wf_update; simp)+

lemma mark_signed_in_frame [session_writes]:
  "db_sessions (mark_signed_in now user db) = db_sessions db"
  "handsets u (mark_signed_in now user db) = handsets u db"
  "is_technician (mark_signed_in now user db) u = is_technician db u"
  "sessions_wf (mark_signed_in now user db) = sessions_wf db"
proof -
  have "map cr_user (db_credentials (mark_signed_in now user db)) = map cr_user (db_credentials db)"
    by (simp add: mark_signed_in_def)
  then show "sessions_wf (mark_signed_in now user db) = sessions_wf db"
    by (simp add: sessions_wf_def) (simp add: mark_signed_in_def)
  show "is_technician (mark_signed_in now user db) u = is_technician db u"
  proof -
    let ?g = "\<lambda>c. if cr_user c = user then c\<lparr>cr_lastSignInAt := Some now\<rparr> else c"
    have g: "cr_user (?g c) = cr_user c" "cr_roles (?g c) = cr_roles c" for c by simp_all
    have "db_credentials (mark_signed_in now user db) = map ?g (db_credentials db)"
      by (simp add: mark_signed_in_def)
    then show ?thesis unfolding is_technician_def by (simp only: set_map bex_simps g)
  qed
qed (simp_all add: mark_signed_in_def handsets_def)

lemma find_credential_in: "find_credential email db = Some c \<Longrightarrow> c \<in> set (db_credentials db) \<and> cr_email c = email"
  unfolding find_credential_def by (rule find_SomeD)

lemma technician_role:
  "sessions_wf db \<Longrightarrow> c \<in> set (db_credentials db) \<Longrightarrow>
     is_technician db (cr_user c) \<longleftrightarrow> INSPECTION_TECHNICIAN \<in> set (cr_roles c)"
  by (auto simp: is_technician_def sessions_wf_def dest: distinct_map_eqD)

text \<open>The one-device rule either refuses and changes nothing, or leaves no handset signed in.\<close>

lemma enforce_cases:
  assumes "enforceSingleDevice now c ctx db = (r, db')"
  obtains (refused) e where "r = Some e" "db' = db"
  | (cleared) "r = None" "db' = revokeAllFor now (cr_user c) True db" "INSPECTION_TECHNICIAN \<in> set (cr_roles c)"
  | (free) "r = None" "db' = db" "INSPECTION_TECHNICIAN \<notin> set (cr_roles c)"
  using assms by (auto simp: enforceSingleDevice_def split: if_splits option.splits)

definition keeps :: "auth_db \<Rightarrow> bool" where
  "keeps db \<longleftrightarrow> sessions_wf db \<and> one_handset db"

lemma keeps_revoke: "keeps db \<Longrightarrow> keeps (revokeAllFor now user h db)" "keeps db \<Longrightarrow> keeps (signOut env now token db)"
proof -
  assume k: "keeps db"
  show "keeps (revokeAllFor now user h db)"
    using k handsets_revoke_length(1) [of _ now user h db] is_technician_cong [OF revoke_frame(1), of now user h db]
    by (auto simp: keeps_def sessions_wf_revoke one_handset_def intro: order_trans)
  show "keeps (signOut env now token db)"
    using k handsets_revoke_length(2) [of _ env now token db] is_technician_cong [OF revoke_frame(3), of env now token db]
    by (auto simp: keeps_def sessions_wf_revoke one_handset_def intro: order_trans)
qed

lemma keeps_create:
  assumes "keeps db" "env_hash env token \<notin> token_hashes db"
    and "is_technician db user \<Longrightarrow> \<not> console \<Longrightarrow> handsets user db = []"
  shows "keeps (create_session env now token user ua ip device console db)"
  using assms is_technician_cong [OF create_session_frame(1), of env now token user ua ip device console db]
  by (auto simp: keeps_def sessions_wf_create one_handset_def create_session_frame)

lemma keeps_mark: "keeps (mark_signed_in now user db) = keeps db"
  by (simp add: keeps_def one_handset_def mark_signed_in_frame)

lemma issueSession_state:
  "snd (issueSession env now token c ctx db) =
     create_session env now token (cr_user c) (ctx_userAgent ctx) (ctx_ipAddress ctx) (ctx_deviceId ctx) (ctx_console ctx) db"
  by (simp add: issueSession_def Let_def split: sum.split prod.split)

lemma signIn_keeps:
  assumes k: "keeps db" and fresh: "env_hash env token \<notin> token_hashes db"
  shows "keeps (snd (signIn env now token email password ctx db))"
proof (cases "find_credential (toLowerCase (js_trim email)) db")
  case None
  then show ?thesis using k by (simp add: signIn_def)
next
  case (Some c)
  have c: "c \<in> set (db_credentials db)" using find_credential_in [OF Some] by simp
  obtain r db' where e: "(if ctx_console ctx then (None, db) else enforceSingleDevice now c ctx db) = (r, db')"
    by (metis surj_pair)
  have "keeps db' \<and> token_hashes db' = token_hashes db \<and>
      (r = None \<longrightarrow> is_technician db' (cr_user c) \<longrightarrow> \<not> ctx_console ctx \<longrightarrow> handsets (cr_user c) db' = [])"
  proof (cases "ctx_console ctx")
    case True
    then show ?thesis using e k by simp
  next
    case False
    then have "enforceSingleDevice now c ctx db = (r, db')" using e by simp
    then show ?thesis
    proof (cases rule: enforce_cases)
      case free
      then show ?thesis using k technician_role [OF _ c] by (simp add: keeps_def)
    qed (use k in \<open>simp_all add: keeps_revoke handsets_revoked session_writes\<close>)
  qed
  then have "keeps (snd (issueSession env now token c ctx db'))" if "r = None"
    using that fresh unfolding issueSession_state by (intro keeps_create) auto
  moreover have "snd (signIn env now token email password ctx db) \<in>
      {db, db', snd (issueSession env now token c ctx db'), mark_signed_in now (cr_user c) (snd (issueSession env now token c ctx db'))}"
    and "r \<noteq> None \<Longrightarrow> snd (signIn env now token email password ctx db) \<in> {db, db'}"
    using e by (auto simp: signIn_def Some Let_def split: option.split sum.split prod.split)
  moreover have "keeps db'" using \<open>keeps db' \<and> _\<close> by simp
  ultimately show ?thesis using k by (cases r) (auto simp: keeps_mark)
qed

lemma refresh_keeps:
  assumes k: "keeps db" and fresh: "env_hash env next_token \<notin> token_hashes db"
  shows "keeps (snd (refresh env now next_token token ctx db))"
proof (cases "find_session (env_hash env token) db")
  case None
  then show ?thesis using k by (simp add: refresh_def)
next
  case (Some s)
  let ?new = "create_session env now next_token (se_user s) (ctx_userAgent ctx) (ctx_ipAddress ctx)
    (se_deviceId s) (se_fromConsole s \<or> ctx_console ctx) db"
  let ?f = "\<lambda>t. t\<lparr>se_revokedAt := Some now, se_replacedById := Some (db_nextId db)\<rparr>"
  let ?db = "update_sessions (\<lambda>t. se_id t = se_id s) ?f ?new"
  have s: "s \<in> set (db_sessions db)" using Some find_SomeD unfolding find_session_def by metis
  have "keeps ?db" if live: "se_revokedAt s = None"
  proof -
    have wf: "sessions_wf ?new" using k fresh by (simp add: keeps_def sessions_wf_create)
    then have wf': "sessions_wf ?db"
      by (rule sessions_wf_update) (auto simp: create_session_def)
    have "length (handsets u ?db) \<le> 1" if "is_technician ?db u" for u
    proof -
      have "is_technician db u"
        using that by (simp add: is_technician_def update_sessions_def create_session_def)
      then have one: "length (handsets u db) \<le> 1" using k by (simp add: keeps_def one_handset_def)
      have le: "length (handsets u ?db) \<le> length (handsets u ?new)"
        by (rule handsets_update) simp_all
      show ?thesis
      proof (cases "u = se_user s \<and> \<not> (se_fromConsole s \<or> ctx_console ctx)")
        case False
        then show ?thesis using one le by (auto simp: create_session_frame)
      next
        case True
        then have "s \<in> set (handsets u db)" using s live by (simp add: handsets_def)
        then have "set (handsets u db) = {s}"
          using one by (cases "handsets u db") auto
        then have only: "r = s" if "r \<in> set (db_sessions db)" "se_user r = u" "se_revokedAt r = None" "\<not> se_fromConsole r" for r
          using that by (auto simp: handsets_def)
        let ?Q = "\<lambda>s. se_user s = u \<and> se_revokedAt s = None \<and> \<not> se_fromConsole s"
        let ?g = "\<lambda>t. if se_id t = se_id s then ?f t else t"
        have "filter ?Q (map ?g (db_sessions db)) = []"
          unfolding filter_empty_conv using only by auto
        then have "handsets u ?db = filter ?Q [?g (last (db_sessions ?new))]"
          by (simp add: handsets_def update_sessions_rows create_session_def del: filter_map)
        then show ?thesis by simp
      qed
    qed
    then show ?thesis using wf' by (simp add: keeps_def one_handset_def)
  qed
  moreover have "snd (refresh env now next_token token ctx db) \<in> {db, revokeAllFor now (se_user s) False db} \<or>
      se_revokedAt s = None \<and> snd (refresh env now next_token token ctx db) = ?db"
    by (auto simp: refresh_def Some Let_def split: option.split sum.split prod.split)
  ultimately show ?thesis using k keeps_revoke(1) [OF k] by auto
qed

section \<open>Any sequence of operations\<close>

inductive session_step :: "auth_env \<Rightarrow> auth_db \<Rightarrow> auth_db \<Rightarrow> bool" for env where
  step_sign_in: "env_hash env token \<notin> token_hashes db \<Longrightarrow>
    session_step env db (snd (signIn env now token email password ctx db))"
| step_refresh: "env_hash env next_token \<notin> token_hashes db \<Longrightarrow>
    session_step env db (snd (refresh env now next_token token ctx db))"
| step_sign_out: "session_step env db (signOut env now token db)"
| step_revoke: "session_step env db (revokeAllFor now user False db)"

lemma session_step_keeps: "session_step env db db' \<Longrightarrow> keeps db \<Longrightarrow> keeps db'"
  by (induction rule: session_step.induct) (simp_all add: signIn_keeps refresh_keeps keeps_revoke)

lemma session_run_keeps: "(session_step env)\<^sup>*\<^sup>* db db' \<Longrightarrow> keeps db \<Longrightarrow> keeps db'"
  by (induction rule: rtranclp_induct) (auto dest: session_step_keeps)

definition no_sessions :: "credential list \<Rightarrow> auth_db" where
  "no_sessions cs = \<lparr>db_credentials = cs, db_sessions = [], db_nextId = 0\<rparr>"

lemma no_sessions_keeps: "distinct (map cr_user cs) \<Longrightarrow> keeps (no_sessions cs)"
  by (simp add: keeps_def sessions_wf_def one_handset_def handsets_def no_sessions_def)

lemma keeps_one_handset: "keeps db \<Longrightarrow> is_technician db user \<Longrightarrow> length (handsets user db) \<le> 1"
  by (simp add: keeps_def one_handset_def)

text \<open>
  C19. A technician is held to one signed-in handset. Whatever sequence of sign-ins, refreshes,
  sign-outs and revocations the server runs one after another, starting from no sessions and
  drawing a new refresh token each time, a technician never has two handset sessions that are
  not revoked, and no two sessions share a token hash.
\<close>

theorem one_handset_per_technician:
  assumes "distinct (map cr_user cs)" "(session_step env)\<^sup>*\<^sup>* (no_sessions cs) db" "is_technician db user"
  shows "length (handsets user db) \<le> 1 \<and> distinct (map se_tokenHash (db_sessions db))"
proof -
  have "keeps db" using session_run_keeps [OF assms(2) no_sessions_keeps [OF assms(1)]] .
  then show ?thesis using keeps_one_handset [OF _ assms(3)] by (simp add: keeps_def sessions_wf_def)
qed

text \<open>A concrete account for the witnesses: the token is its own hash, and the password too.\<close>

definition plain_env :: auth_env where
  "plain_env = \<lparr>env_hash = (\<lambda>t. t), env_compare = (=), env_absentHash = ''-'', env_secret = Some ''key'',
     env_jwt = (\<lambda>key user must iat ex. user), env_accessTtl = None, env_refreshTtlDays = None\<rparr>"

definition tess :: credential where
  "tess = \<lparr>cr_user = ''u1'', cr_email = ''tess@x'', cr_passwordHash = ''pw'', cr_mustChange = False,
     cr_isActive = True, cr_roles = [INSPECTION_TECHNICIAN], cr_lastSignInAt = None\<rparr>"

definition on_phone :: "string \<Rightarrow> request_context" where
  "on_phone device = \<lparr>ctx_userAgent = Some ''okhttp Android'', ctx_ipAddress = None, ctx_takeOver = False,
     ctx_deviceId = Some device, ctx_console = False\<rparr>"

definition tess_signed_in :: auth_db where
  "tess_signed_in = snd (signIn plain_env 1000 ''t1'' ''Tess@x '' ''pw'' (on_phone ''A'') (no_sessions [tess]))"

lemma tess_lower: "toLowerCase (js_trim ''Tess@x '') = ''tess@x''"
  by code_simp

lemma tess_in:
  "signIn plain_env 1000 ''t1'' ''Tess@x '' ''pw'' (on_phone ''A'') (no_sessions [tess]) =
    (Inr \<lparr>accessToken = ''u1'', refreshToken = ''t1'', expiresIn = 3600, mustChangePassword = False\<rparr>, tess_signed_in)"
  "db_sessions tess_signed_in = [\<lparr>se_id = 0, se_user = ''u1'', se_tokenHash = ''t1'', se_expiresAt = 2592001000,
     se_revokedAt = None, se_replacedById = None, se_userAgent = Some ''okhttp Android'', se_ipAddress = None,
     se_deviceId = Some ''A'', se_fromConsole = False, se_createdAt = 1000\<rparr>]"
  "db_credentials tess_signed_in = [tess\<lparr>cr_lastSignInAt := Some 1000\<rparr>]" "db_nextId tess_signed_in = 1"
proof -
  have trim: "js_trim ''key'' = ''key''" by code_simp
  show "signIn plain_env 1000 ''t1'' ''Tess@x '' ''pw'' (on_phone ''A'') (no_sessions [tess]) =
    (Inr \<lparr>accessToken = ''u1'', refreshToken = ''t1'', expiresIn = 3600, mustChangePassword = False\<rparr>, tess_signed_in)"
    "db_sessions tess_signed_in = [\<lparr>se_id = 0, se_user = ''u1'', se_tokenHash = ''t1'', se_expiresAt = 2592001000,
     se_revokedAt = None, se_replacedById = None, se_userAgent = Some ''okhttp Android'', se_ipAddress = None,
     se_deviceId = Some ''A'', se_fromConsole = False, se_createdAt = 1000\<rparr>]"
    "db_credentials tess_signed_in = [tess\<lparr>cr_lastSignInAt := Some 1000\<rparr>]" "db_nextId tess_signed_in = 1"
    unfolding tess_signed_in_def signIn_def
    by (simp_all add: tess_lower tess_def no_sessions_def plain_env_def on_phone_def find_credential_def
        enforceSingleDevice_def live_elsewhere_def revokeAllFor_def update_sessions_def issueSession_def
        issueAccessToken_def secret_key_def trim Let_def accessTtlSeconds_def DEFAULT_ACCESS_TTL_SECONDS_def
        create_session_def refresh_expiry_def refreshTtlMs_def DEFAULT_REFRESH_TTL_DAYS_def mark_signed_in_def)
qed

theorem one_handset_per_technician_witness: "length (handsets ''u1'' tess_signed_in) \<le> 1"
proof -
  have "session_step plain_env (no_sessions [tess]) tess_signed_in"
    unfolding tess_signed_in_def by (rule step_sign_in) (simp add: token_hashes_def no_sessions_def)
  moreover have "is_technician tess_signed_in ''u1''"
    by (simp add: is_technician_def tess_in tess_def)
  ultimately show ?thesis
    using one_handset_per_technician [of "[tess]" plain_env tess_signed_in "''u1''"] by auto
qed

section \<open>Rotation, replay, sign-out\<close>

lemma filter_others:
  assumes "\<And>t. P t \<Longrightarrow> \<not> Q t" "\<And>t. P t \<Longrightarrow> \<not> Q (f t)"
  shows "filter Q (map (\<lambda>t. if P t then f t else t) xs) = filter Q xs"
  using assms by (induction xs) auto

lemma find_session_Some: "find_session h db = Some s \<Longrightarrow> s \<in> set (db_sessions db) \<and> se_tokenHash s = h"
  unfolding find_session_def by (rule find_SomeD)

lemma find_session_unique:
  "sessions_wf db \<Longrightarrow> s \<in> set (db_sessions db) \<Longrightarrow> find_session (se_tokenHash s) db = Some s"
proof -
  assume a: "sessions_wf db" "s \<in> set (db_sessions db)"
  then obtain t where t: "find_session (se_tokenHash s) db = Some t"
    using find_NoneD [of "\<lambda>t. se_tokenHash t = se_tokenHash s" "db_sessions db" s]
    by (cases "find_session (se_tokenHash s) db") (auto simp: find_session_def)
  then have "t \<in> set (db_sessions db)" "se_tokenHash t = se_tokenHash s"
    using find_session_Some [OF t] by simp_all
  then have "t = s" using a by (auto simp: sessions_wf_def dest: distinct_map_eqD)
  with t show ?thesis by simp
qed

definition rotated :: "millis \<Rightarrow> session \<Rightarrow> auth_env \<Rightarrow> string \<Rightarrow> request_context \<Rightarrow> auth_db \<Rightarrow> auth_db" where
  "rotated now s env next_token ctx db =
     update_sessions (\<lambda>t. se_id t = se_id s)
       (\<lambda>t. t\<lparr>se_revokedAt := Some now, se_replacedById := Some (db_nextId db)\<rparr>)
       (create_session env now next_token (se_user s) (ctx_userAgent ctx) (ctx_ipAddress ctx)
         (se_deviceId s) (se_fromConsole s \<or> ctx_console ctx) db)"

lemma refresh_success:
  assumes "refresh env now next_token token ctx db = (Inr tokens, db')"
  obtains s c where "find_session (env_hash env token) db = Some s" "se_revokedAt s = None" "now < se_expiresAt s"
    "find_user (se_user s) db = Some c" "cr_isActive c" "db' = rotated now s env next_token ctx db"
    "refreshToken tokens = next_token"
  using assms
  by (auto simp: refresh_def Let_def rotated_def split: option.splits if_splits sum.splits prod.splits)

lemma rotated_rows:
  assumes "sessions_wf db" "s \<in> set (db_sessions db)"
  shows "db_sessions (rotated now s env next_token ctx db) =
    map (\<lambda>t. if t = s then s\<lparr>se_revokedAt := Some now, se_replacedById := Some (db_nextId db)\<rparr> else t) (db_sessions db) @
    [\<lparr>se_id = db_nextId db, se_user = se_user s, se_tokenHash = env_hash env next_token,
      se_expiresAt = refresh_expiry env now, se_revokedAt = None, se_replacedById = None,
      se_userAgent = ctx_userAgent ctx, se_ipAddress = ctx_ipAddress ctx, se_deviceId = se_deviceId s,
      se_fromConsole = se_fromConsole s \<or> ctx_console ctx, se_createdAt = now\<rparr>]"
proof -
  have id: "se_id t = se_id s \<longleftrightarrow> t = s" if "t \<in> set (db_sessions db)" for t
    using assms that by (auto simp: sessions_wf_def dest: distinct_map_eqD)
  have "se_id s \<noteq> db_nextId db" using assms by (auto simp: sessions_wf_def)
  then show ?thesis
    unfolding rotated_def update_sessions_rows by (simp add: create_session_def id cong: if_cong)
qed

text \<open>
  A refresh token works once. When \<open>refresh\<close> answers with tokens, the token presented
  belonged to a session that was neither revoked nor expired; that session is now revoked and
  names its replacement, which is live, of the same user and device, and has the new token's hash.
\<close>

theorem refresh_rotates:
  assumes "sessions_wf db" "refresh env now next_token token ctx db = (Inr tokens, db')"
  shows "\<exists>s \<in> set (db_sessions db). se_tokenHash s = env_hash env token \<and> se_revokedAt s = None \<and> now < se_expiresAt s \<and>
    s\<lparr>se_revokedAt := Some now, se_replacedById := Some (db_nextId db)\<rparr> \<in> set (db_sessions db') \<and>
    (\<exists>t \<in> set (db_sessions db'). se_id t = db_nextId db \<and> se_revokedAt t = None \<and> se_user t = se_user s \<and>
       se_deviceId t = se_deviceId s \<and> se_tokenHash t = env_hash env (refreshToken tokens))"
  using assms(2)
proof (rule refresh_success)
  fix s c
  assume s: "find_session (env_hash env token) db = Some s" "se_revokedAt s = None" "now < se_expiresAt s"
    "db' = rotated now s env next_token ctx db" "refreshToken tokens = next_token"
  then have m: "s \<in> set (db_sessions db)" "se_tokenHash s = env_hash env token"
    using find_session_Some [OF s(1)] by simp_all
  with s show ?thesis
    by (intro bexI [of _ s]) (auto simp: rotated_rows [OF assms(1) m(1)])
qed

lemma tess_wf: "sessions_wf tess_signed_in"
  by (simp add: sessions_wf_def tess_in tess_def)

definition tess_refreshed :: auth_db where
  "tess_refreshed = snd (refresh plain_env 5000 ''t2'' ''t1'' (on_phone ''A'') tess_signed_in)"

lemma tess_refresh:
  "refresh plain_env 5000 ''t2'' ''t1'' (on_phone ''A'') tess_signed_in =
    (Inr \<lparr>accessToken = ''u1'', refreshToken = ''t2'', expiresIn = 3600, mustChangePassword = False\<rparr>, tess_refreshed)"
proof -
  have trim: "js_trim ''key'' = ''key''" by code_simp
  show ?thesis
    unfolding tess_refreshed_def refresh_def find_session_def find_user_def
    by (simp add: tess_in plain_env_def issueAccessToken_def secret_key_def trim Let_def tess_def
        accessTtlSeconds_def DEFAULT_ACCESS_TTL_SECONDS_def)
qed

theorem refresh_rotates_witness:
  "\<exists>s \<in> set (db_sessions tess_signed_in). se_tokenHash s = ''t1'' \<and>
     s\<lparr>se_revokedAt := Some 5000, se_replacedById := Some 1\<rparr> \<in> set (db_sessions tess_refreshed)"
  using refresh_rotates [OF tess_wf tess_refresh] by (auto simp: tess_in plain_env_def)

text \<open>
  C27. A replayed token signs everybody out of the account, and only of that account. Once a
  token has been refreshed, presenting it again is rejected, and leaves every session of its
  user revoked and every session of anybody else as it was.
\<close>

theorem replay_revokes_everything:
  assumes wf: "sessions_wf db" and fresh: "env_hash env next_token \<notin> token_hashes db"
    and first: "refresh env now next_token token ctx db = (Inr tokens, db1)"
    and again: "refresh env later another token ctx' db1 = (r, db2)"
  shows "r = Inl INVALID_CREDENTIALS \<and>
    (\<exists>user. (\<exists>s \<in> set (db_sessions db). se_user s = user \<and> se_tokenHash s = env_hash env token) \<and>
       filter (\<lambda>s. se_user s = user \<and> se_revokedAt s = None) (db_sessions db2) = [] \<and>
       filter (\<lambda>s. se_user s \<noteq> user) (db_sessions db2) = filter (\<lambda>s. se_user s \<noteq> user) (db_sessions db1))"
  using first
proof (rule refresh_success)
  fix s c
  assume found: "find_session (env_hash env token) db = Some s" and db1: "db1 = rotated now s env next_token ctx db"
  have s: "s \<in> set (db_sessions db)" "se_tokenHash s = env_hash env token"
    using find_session_Some [OF found] by simp_all
  let ?old = "s\<lparr>se_revokedAt := Some now, se_replacedById := Some (db_nextId db)\<rparr>"
  have "sessions_wf db1"
    unfolding db1 rotated_def
    by (rule sessions_wf_update [OF sessions_wf_create [OF wf fresh]]) (auto simp: create_session_def)
  moreover have "?old \<in> set (db_sessions db1)"
    unfolding db1 rotated_rows [OF wf s(1)] using s(1) by auto
  ultimately have "find_session (env_hash env token) db1 = Some ?old"
    using find_session_unique [of db1 ?old] s(2) by simp
  then have "r = Inl INVALID_CREDENTIALS" "db2 = revokeAllFor later (se_user s) False db1"
    using again by (simp_all add: refresh_def)
  moreover have "filter (\<lambda>t. se_user t = u \<and> se_revokedAt t = None) (db_sessions (revokeAllFor later u False db1)) = []" for u
    unfolding revokeAllFor_def update_sessions_rows filter_empty_conv set_map
    by (intro ballI) (elim imageE, auto split: if_splits)
  moreover have "filter (\<lambda>t. se_user t \<noteq> u) (db_sessions (revokeAllFor later u False db1)) = filter (\<lambda>t. se_user t \<noteq> u) (db_sessions db1)" for u
    unfolding revokeAllFor_def update_sessions_rows by (rule filter_others) auto
  ultimately show ?thesis using s by auto
qed

theorem replay_revokes_everything_witness:
  "fst (refresh plain_env 9000 ''t3'' ''t1'' (on_phone ''B'') tess_refreshed) = Inl INVALID_CREDENTIALS"
  using replay_revokes_everything [OF tess_wf _ tess_refresh, of 9000 "''t3''" "on_phone ''B''"]
  by (cases "refresh plain_env 9000 ''t3'' ''t1'' (on_phone ''B'') tess_refreshed")
    (simp add: token_hashes_def tess_in plain_env_def)

text \<open>
  Signing out ends the session and nothing else. After \<open>signOut\<close>, the token of a session
  no rotation had retired is rejected without revoking anything, another sign-out changes
  nothing, and the sessions with other tokens are as they were.
\<close>

theorem sign_out_ends_one_session:
  assumes wf: "sessions_wf db" and s: "s \<in> set (db_sessions db)" "se_tokenHash s = env_hash env token" "se_replacedById s = None"
  shows "refresh env later next_token token ctx (signOut env now token db) = (Inl INVALID_CREDENTIALS, signOut env now token db) \<and>
    signOut env later token (signOut env now token db) = signOut env now token db \<and>
    filter (\<lambda>t. se_tokenHash t \<noteq> env_hash env token) (db_sessions (signOut env now token db)) =
      filter (\<lambda>t. se_tokenHash t \<noteq> env_hash env token) (db_sessions db)"
proof -
  let ?db = "signOut env now token db"
  let ?s = "if se_revokedAt s = None then s\<lparr>se_revokedAt := Some now\<rparr> else s"
  have "?s \<in> set (db_sessions ?db)"
    unfolding signOut_def update_sessions_rows set_map using s by force
  then have "find_session (se_tokenHash ?s) ?db = Some ?s"
    by (rule find_session_unique [OF sessions_wf_revoke(2) [OF wf]])
  then have "refresh env later next_token token ctx ?db = (Inl INVALID_CREDENTIALS, ?db)"
    using s by (auto simp: refresh_def split: if_splits)
  moreover have "map f (map g xs) = map g xs" if "\<And>t. f (g t) = g t" for f g and xs :: "session list"
    using that by simp
  then have "db_sessions (signOut env later token ?db) = db_sessions ?db"
    unfolding signOut_def update_sessions_rows by simp
  then have "signOut env later token ?db = ?db"
    by (simp add: signOut_def update_sessions_def)
  moreover have "filter (\<lambda>t. se_tokenHash t \<noteq> env_hash env token) (db_sessions ?db) =
      filter (\<lambda>t. se_tokenHash t \<noteq> env_hash env token) (db_sessions db)"
    unfolding signOut_def update_sessions_rows by (rule filter_others) auto
  ultimately show ?thesis by blast
qed

theorem sign_out_ends_one_session_witness:
  "fst (refresh plain_env 9000 ''t3'' ''t1'' (on_phone ''A'') (signOut plain_env 8000 ''t1'' tess_signed_in)) = Inl INVALID_CREDENTIALS"
  using sign_out_ends_one_session [OF tess_wf, of "hd (db_sessions tess_signed_in)" plain_env "''t1''" 9000 "''t3''" "on_phone ''A''" 8000]
  by (simp add: tess_in plain_env_def)

text \<open>
  A rejected sign-in says nothing about the account. An address nobody has, a wrong
  password and a deactivated account all get the same answer, and change nothing.
\<close>

theorem rejections_are_alike:
  assumes "\<And>c. c \<in> set (db_credentials db) \<Longrightarrow> cr_email c = toLowerCase (js_trim email) \<Longrightarrow>
    \<not> env_compare env password (cr_passwordHash c) \<or> \<not> cr_isActive c"
  shows "signIn env now token email password ctx db = (Inl INVALID_CREDENTIALS, db)"
proof (cases "find_credential (toLowerCase (js_trim email)) db")
  case None
  then show ?thesis by (simp add: signIn_def)
next
  case (Some c)
  then show ?thesis
    using assms find_credential_in [OF Some] by (auto simp: signIn_def)
qed

theorem rejections_are_alike_witness:
  "signIn plain_env 1000 ''t1'' ''Tess@x '' ''wrong'' (on_phone ''A'') (no_sessions [tess]) = (Inl INVALID_CREDENTIALS, no_sessions [tess])"
  by (rule rejections_are_alike) (auto simp: no_sessions_def tess_def plain_env_def)

lemma signIn_success:
  assumes "signIn env now token email password ctx db = (Inr tokens, db')" "\<not> ctx_console ctx"
  obtains c db1 where "find_credential (toLowerCase (js_trim email)) db = Some c"
    "enforceSingleDevice now c ctx db = (None, db1)"
    "db' = mark_signed_in now (cr_user c) (snd (issueSession env now token c ctx db1))"
  using assms by (auto simp: signIn_def Let_def split: option.splits if_splits prod.splits sum.splits)

text \<open>
  Taking over, or coming back on the same phone, leaves exactly one handset. When a
  technician's sign-in from the app succeeds, the one handset session that is not revoked is the
  new one, on the device that signed in.
\<close>

theorem sign_in_takes_the_account:
  assumes "sessions_wf db" "signIn env now token email password ctx db = (Inr tokens, db')" "\<not> ctx_console ctx"
    and "c \<in> set (db_credentials db)" "cr_email c = toLowerCase (js_trim email)" "INSPECTION_TECHNICIAN \<in> set (cr_roles c)"
    and "distinct (map cr_email (db_credentials db))"
  shows "map (\<lambda>s. (se_tokenHash s, se_deviceId s)) (handsets (cr_user c) db') = [(env_hash env token, ctx_deviceId ctx)]"
  using assms(2,3)
proof (rule signIn_success)
  fix d db1
  assume d: "find_credential (toLowerCase (js_trim email)) db = Some d"
    and e: "enforceSingleDevice now d ctx db = (None, db1)"
    and db': "db' = mark_signed_in now (cr_user d) (snd (issueSession env now token d ctx db1))"
  have "d = c"
    using find_credential_in [OF d] assms(4,5,7) by (auto dest: distinct_map_eqD)
  with e assms(6) have "handsets (cr_user c) db1 = []"
    by (cases rule: enforce_cases) (simp_all add: handsets_revoked)
  then show ?thesis
    by (simp add: db' \<open>d = c\<close> mark_signed_in_frame issueSession_state create_session_frame assms(3))
qed

theorem sign_in_takes_the_account_witness:
  "map (\<lambda>s. (se_tokenHash s, se_deviceId s)) (handsets ''u1'' tess_signed_in) = [(''t1'', Some ''A'')]"
  using sign_in_takes_the_account [OF _ tess_in(1), of tess]
  by (simp add: on_phone_def no_sessions_def sessions_wf_def tess_lower) (simp add: tess_def plain_env_def)

text \<open>
  But two sign-ins at once can both get in. Nothing between the check and the insert holds
  the account: when a technician with no handset session signs in from two phones and both
  checks run before either session is created, both succeed, and two handsets are signed in.
\<close>

theorem concurrent_sign_ins:
  assumes "handsets (cr_user c) db = []" "\<not> ctx_console ctxA" "\<not> ctx_console ctxB"
    and "enforceSingleDevice now c ctxA db = (ra, db1)" "enforceSingleDevice now c ctxB db1 = (rb, db2)"
    and "issueSession env now ta c ctxA db2 = (sa, db3)" "issueSession env now tb c ctxB db3 = (sb, db4)"
  shows "ra = None \<and> rb = None \<and> length (handsets (cr_user c) db4) = 2"
proof -
  have clear: "enforceSingleDevice now c ctx d = (r, d') \<Longrightarrow> handsets (cr_user c) d = [] \<Longrightarrow> r = None \<and> handsets (cr_user c) d' = []"
    for ctx d d' r
  proof -
    assume e: "enforceSingleDevice now c ctx d = (r, d')" and h: "handsets (cr_user c) d = []"
    have "live_elsewhere now (cr_user c) dev d = None" for dev
    proof -
      have "filter (\<lambda>s. se_user s = cr_user c \<and> se_revokedAt s = None \<and> now < se_expiresAt s \<and>
          \<not> se_fromConsole s \<and> other_device dev s) (db_sessions d) = []"
        using h by (auto simp: handsets_def filter_empty_conv)
      then show ?thesis by (simp add: live_elsewhere_def)
    qed
    with e h show ?thesis
      by (auto simp: enforceSingleDevice_def handsets_revoked split: if_splits)
  qed
  have a: "ra = None" "handsets (cr_user c) db1 = []" using clear [OF assms(4,1)] by simp_all
  have b: "rb = None" "handsets (cr_user c) db2 = []" using clear [OF assms(5) a(2)] by simp_all
  have "length (handsets (cr_user c) db3) = 1"
    using issueSession_state [of env now ta c ctxA db2] assms(2,6) b(2) by (simp add: create_session_frame)
  then have "length (handsets (cr_user c) db4) = 2"
    using issueSession_state [of env now tb c ctxB db3] assms(3,7) by (simp add: create_session_frame)
  with a b show ?thesis by simp
qed

theorem concurrent_sign_ins_witness:
  "length (handsets ''u1'' (snd (issueSession plain_env 0 ''t2'' tess (on_phone ''B'')
     (snd (issueSession plain_env 0 ''t1'' tess (on_phone ''A'')
       (snd (enforceSingleDevice 0 tess (on_phone ''B'') (snd (enforceSingleDevice 0 tess (on_phone ''A'') (no_sessions [tess])))))))))) = 2"
proof -
  have "cr_user tess = ''u1''" by (simp add: tess_def)
  moreover have "handsets (cr_user tess) (no_sessions [tess]) = []" by (simp add: handsets_def no_sessions_def)
  moreover have "\<not> ctx_console (on_phone ''A'')" "\<not> ctx_console (on_phone ''B'')" by (simp_all add: on_phone_def)
  ultimately show ?thesis
    using concurrent_sign_ins [of tess "no_sessions [tess]" "on_phone ''A''" "on_phone ''B''" 0 _ _ _ _ plain_env "''t1''" _ _ "''t2''"]
    by (metis prod.collapse)
qed

end
