(* ===== verification/Mutation_Queue.thy ===== *)
theory Mutation_Queue
  imports Prelude
begin

text \<open>
  \<open>mobile/src/storage/mutation-queue.ts\<close>: the technician app's writes held until the device is
  back on a network. The store holds one JSON text; the model keeps what \<open>JSON.parse\<close> makes of
  it, with \<open>JSON.stringify\<close> its inverse on the entries the queue writes. Payloads are of any
  type. While an entry is being sent the app goes on saving, so a drain is given, for each entry
  it sends, what was saved meanwhile and how the send came out. Each queue operation reads and
  writes the store in one piece.
\<close>

section \<open>The queue in the store\<close>

definition QUEUE_ENTRY_MAX_ATTEMPTS :: nat where "QUEUE_ENTRY_MAX_ATTEMPTS = 8"

record 'p mutation =
  mu_id :: string
  mu_kind :: string
  mu_payload :: 'p
  mu_queuedAt :: millis
  mu_attempts :: nat

text \<open>An element of the parsed array is an entry or something \<open>isEntry\<close> turns down.\<close>

datatype 'p element = Entry "'p mutation" | Not_An_Entry

datatype 'p queue_store = Absent | Unparseable | Not_An_Array | Stored "'p element list"

fun entry_of :: "'p element \<Rightarrow> 'p mutation list" where
  "entry_of (Entry e) = [e]"
| "entry_of Not_An_Entry = []"

text \<open>\<open>readQueue\<close> also clears a text that does not parse.\<close>

fun readQueue :: "'p queue_store \<Rightarrow> 'p mutation list \<times> 'p queue_store" where
  "readQueue Absent = ([], Absent)"
| "readQueue Unparseable = ([], Absent)"
| "readQueue Not_An_Array = ([], Not_An_Array)"
| "readQueue (Stored els) = (concat (map entry_of els), Stored els)"

definition writeQueue :: "'p mutation list \<Rightarrow> 'p queue_store" where
  "writeQueue entries = (if entries = [] then Absent else Stored (map Entry entries))"

abbreviation queue_of :: "'p queue_store \<Rightarrow> 'p mutation list" where
  "queue_of s \<equiv> fst (readQueue s)"

record 'p saved_write =
  wr_id :: string
  wr_kind :: string
  wr_payload :: 'p
  wr_at :: millis

definition queued :: "'p saved_write \<Rightarrow> 'p mutation" where
  "queued w = \<lparr>mu_id = wr_id w, mu_kind = wr_kind w, mu_payload = wr_payload w, mu_queuedAt = wr_at w, mu_attempts = 0\<rparr>"

definition enqueueMutation :: "'p saved_write \<Rightarrow> 'p queue_store \<Rightarrow> 'p queue_store" where
  "enqueueMutation w s = writeQueue (filter (\<lambda>existing. mu_id existing \<noteq> wr_id w) (queue_of s) @ [queued w])"

definition removeMutation :: "string \<Rightarrow> millis option \<Rightarrow> 'p queue_store \<Rightarrow> 'p queue_store" where
  "removeMutation i queuedAt s =
     writeQueue (filter (\<lambda>e. mu_id e \<noteq> i \<or> queuedAt \<noteq> None \<and> Some (mu_queuedAt e) \<noteq> queuedAt) (queue_of s))"

definition recordAttempt :: "string \<Rightarrow> 'p queue_store \<Rightarrow> 'p queue_store" where
  "recordAttempt i s =
     writeQueue (filter (\<lambda>e. mu_attempts e < QUEUE_ENTRY_MAX_ATTEMPTS)
       (map (\<lambda>e. if mu_id e = i then e\<lparr>mu_attempts := mu_attempts e + 1\<rparr> else e) (queue_of s)))"

section \<open>Draining\<close>

text \<open>How a send came out: answered yes, not due yet, answered no, or not answered.\<close>

datatype outcome = Accepted | Waiting | Refused | Unanswered

type_synonym 'p sender = "'p mutation \<Rightarrow> outcome \<times> 'p saved_write list"

fun drain_entries :: "'p sender \<Rightarrow> 'p mutation list \<Rightarrow> 'p queue_store \<Rightarrow> nat \<Rightarrow> nat \<times> 'p queue_store" where
  "drain_entries send [] s sent = (sent, s)"
| "drain_entries send (e # entries) s sent =
     (let s' = fold enqueueMutation (snd (send e)) s
      in case fst (send e) of
           Accepted \<Rightarrow> drain_entries send entries (removeMutation (mu_id e) (Some (mu_queuedAt e)) s') (sent + 1)
         | Waiting \<Rightarrow> drain_entries send entries s' sent
         | Refused \<Rightarrow> drain_entries send entries (removeMutation (mu_id e) (Some (mu_queuedAt e)) s') sent
         | Unanswered \<Rightarrow> (sent, recordAttempt (mu_id e) s'))"

definition drainQueue :: "'p sender \<Rightarrow> 'p queue_store \<Rightarrow> (nat \<times> nat) \<times> 'p queue_store" where
  "drainQueue send s =
     (let (entries, s0) = readQueue s;
          (sent, s1) = drain_entries send entries s0 0;
          (left, s2) = readQueue s1
      in ((sent, length left), s2))"

section \<open>What each operation does to the queue\<close>

lemma queue_of_write [simp]: "queue_of (writeQueue es) = es"
proof -
  have "concat (map (entry_of \<circ> Entry) es) = es" by (induction es) simp_all
  then show ?thesis by (simp add: writeQueue_def)
qed

lemma queue_of_enqueue: "queue_of (enqueueMutation w s) = filter (\<lambda>e. mu_id e \<noteq> wr_id w) (queue_of s) @ [queued w]"
  by (simp add: enqueueMutation_def)

lemma queue_of_remove:
  "queue_of (removeMutation i (Some t) s) = filter (\<lambda>e. \<not> (mu_id e = i \<and> mu_queuedAt e = t)) (queue_of s)"
  by (simp add: removeMutation_def)

lemma queue_of_attempt:
  "queue_of (recordAttempt i s) = filter (\<lambda>e. mu_attempts e < QUEUE_ENTRY_MAX_ATTEMPTS)
     (map (\<lambda>e. if mu_id e = i then e\<lparr>mu_attempts := mu_attempts e + 1\<rparr> else e) (queue_of s))"
  by (simp add: recordAttempt_def)

lemma read_again [simp]: "readQueue (snd (readQueue s)) = (queue_of s, snd (readQueue s))"
  by (cases s) simp_all

definition queue_inv :: "'p queue_store \<Rightarrow> bool" where
  "queue_inv s \<longleftrightarrow> distinct (map mu_id (queue_of s)) \<and> (\<forall>e \<in> set (queue_of s). mu_attempts e < QUEUE_ENTRY_MAX_ATTEMPTS)"

lemma queue_inv_enqueue: "queue_inv s \<Longrightarrow> queue_inv (enqueueMutation w s)"
  by (auto simp: queue_inv_def queue_of_enqueue distinct_map_filter queued_def QUEUE_ENTRY_MAX_ATTEMPTS_def)

lemma queue_inv_remove: "queue_inv s \<Longrightarrow> queue_inv (removeMutation i (Some t) s)"
  by (auto simp: queue_inv_def queue_of_remove distinct_map_filter)

lemma queue_inv_attempt: "queue_inv s \<Longrightarrow> queue_inv (recordAttempt i s)"
  by (auto simp: queue_inv_def queue_of_attempt intro!: distinct_map_filterI) (simp add: o_def if_distrib cong: if_cong)

lemma queue_inv_enqueues: "queue_inv s \<Longrightarrow> queue_inv (fold enqueueMutation ws s)"
  by (induction ws arbitrary: s) (simp_all add: queue_inv_enqueue)

lemma queue_inv_drain: "queue_inv s \<Longrightarrow> queue_inv (snd (drain_entries send entries s sent))"
  by (induction send entries s sent rule: drain_entries.induct)
    (auto simp: Let_def queue_inv_enqueues queue_inv_remove queue_inv_attempt split: outcome.split)

section \<open>The interface: the last write for each target\<close>

text \<open>
  What a caller is promised: the queue is a map from a target to the last write saved for it.
  Whatever keeps that law, the last of a run of writes to a target is what is pending for it.
\<close>

locale latest_write =
  fixes pending :: "'s \<Rightarrow> string \<Rightarrow> 'w option" and save :: "'w \<Rightarrow> 's \<Rightarrow> 's" and target :: "'w \<Rightarrow> string"
  assumes pending_save: "pending (save w s) = (pending s)(target w \<mapsto> w)"
begin

lemma pending_saves:
  "pending (fold save ws s) i = (case find (\<lambda>w. target w = i) (rev ws) of Some w \<Rightarrow> Some w | None \<Rightarrow> pending s i)"
proof (induction ws arbitrary: s)
  case (Cons w ws)
  have "find P (xs @ [x]) = (case find P xs of Some y \<Rightarrow> Some y | None \<Rightarrow> if P x then Some x else None)" for P xs and x :: 'w
    by (induction xs) auto
  then show ?case by (simp add: Cons pending_save split: option.split)
qed simp

end

definition pending_entry :: "'p queue_store \<Rightarrow> string \<Rightarrow> 'p mutation option" where
  "pending_entry s i = find (\<lambda>e. mu_id e = i) (queue_of s)"

definition pending_write :: "'p queue_store \<Rightarrow> string \<Rightarrow> 'p saved_write option" where
  "pending_write s i =
     map_option (\<lambda>e. \<lparr>wr_id = mu_id e, wr_kind = mu_kind e, wr_payload = mu_payload e, wr_at = mu_queuedAt e\<rparr>) (pending_entry s i)"

lemma find_append: "find P (xs @ ys) = (case find P xs of Some x \<Rightarrow> Some x | None \<Rightarrow> find P ys)"
  by (induction xs) auto

lemma find_filter_other: "(\<And>x. P x \<Longrightarrow> Q x) \<Longrightarrow> find P (filter Q xs) = find P xs"
  by (induction xs) auto

lemma find_filter_none: "(\<And>x. P x \<Longrightarrow> \<not> Q x) \<Longrightarrow> find P (filter Q xs) = None"
  by (induction xs) auto

lemma pending_entry_enqueue: "pending_entry (enqueueMutation w s) = (pending_entry s)(wr_id w \<mapsto> queued w)"
proof
  fix i
  show "pending_entry (enqueueMutation w s) i = ((pending_entry s)(wr_id w \<mapsto> queued w)) i"
  proof (cases "i = wr_id w")
    case True
    then have "find (\<lambda>e. mu_id e = i) (filter (\<lambda>e. mu_id e \<noteq> wr_id w) (queue_of s)) = None"
      by (intro find_filter_none) simp
    with True show ?thesis by (simp add: pending_entry_def queue_of_enqueue find_append queued_def)
  next
    case False
    then have "find (\<lambda>e. mu_id e = i) (filter (\<lambda>e. mu_id e \<noteq> wr_id w) (queue_of s)) = find (\<lambda>e. mu_id e = i) (queue_of s)"
      by (intro find_filter_other) simp
    with False show ?thesis by (simp add: pending_entry_def queue_of_enqueue find_append queued_def split: option.split)
  qed
qed

interpretation write_queue: latest_write pending_write enqueueMutation wr_id
  by unfold_locales (auto simp: pending_write_def pending_entry_enqueue queued_def fun_eq_iff)

section \<open>A newer copy saved while the older one is sent\<close>

lemma pending_entry_remove:
  assumes "queue_inv s"
  shows "pending_entry (removeMutation j (Some t) s) i =
    (case pending_entry s i of None \<Rightarrow> None
     | Some e \<Rightarrow> if i = j \<and> mu_queuedAt e = t then None else Some e)"
proof -
  have "find (\<lambda>e. mu_id e = i) (filter (\<lambda>e. \<not> (mu_id e = j \<and> mu_queuedAt e = t)) es) =
    (case find (\<lambda>e. mu_id e = i) es of None \<Rightarrow> None
     | Some e \<Rightarrow> if i = j \<and> mu_queuedAt e = t then None else Some e)" if "distinct (map mu_id es)" for es :: "'a mutation list"
    using that
  proof (induction es)
    case (Cons e es)
    have "find (\<lambda>e. mu_id e = mu_id e') (filter Q es) = None" if "mu_id e' = mu_id e" for e' Q
      using Cons.prems that by (force simp: find_None_iff image_iff)
    with Cons show ?case by auto
  qed simp
  then show ?thesis using assms by (simp add: pending_entry_def queue_of_remove queue_inv_def)
qed

lemma pending_entry_attempt:
  assumes "pending_entry s i = Some e" "mu_attempts e + 1 < QUEUE_ENTRY_MAX_ATTEMPTS"
  shows "\<exists>n. pending_entry (recordAttempt j s) i = Some (e\<lparr>mu_attempts := n\<rparr>)"
proof -
  let ?g = "\<lambda>e. if mu_id e = j then e\<lparr>mu_attempts := mu_attempts e + 1\<rparr> else e"
  have "\<exists>n. find (\<lambda>e. mu_id e = i) (filter (\<lambda>e. mu_attempts e < QUEUE_ENTRY_MAX_ATTEMPTS) (map ?g es)) = Some (e\<lparr>mu_attempts := n\<rparr>)"
    if "find (\<lambda>e. mu_id e = i) es = Some e" for es
    using that
  proof (induction es)
    case (Cons d es)
    show ?case
    proof (cases "mu_id d = i")
      case True
      then have "d = e" using Cons.prems by simp
      then have "mu_attempts (?g d) < QUEUE_ENTRY_MAX_ATTEMPTS" "?g d = e\<lparr>mu_attempts := mu_attempts (?g d)\<rparr>"
        using assms(2) by auto
      with True \<open>d = e\<close> show ?thesis by (intro exI [of _ "mu_attempts (?g d)"]) (simp split: if_splits)
    next
      case False
      with Cons show ?thesis by (auto split: if_splits)
    qed
  qed simp
  with assms(1) show ?thesis by (simp add: pending_entry_def queue_of_attempt)
qed

text \<open>What was saved during a drain, up to the send that stopped it.\<close>

fun saved_during :: "'p sender \<Rightarrow> 'p mutation list \<Rightarrow> 'p saved_write list" where
  "saved_during send [] = []"
| "saved_during send (e # entries) =
     snd (send e) @ (if fst (send e) = Unanswered then [] else saved_during send entries)"

definition copy_time_new :: "'p sender \<Rightarrow> 'p mutation list \<Rightarrow> bool" where
  "copy_time_new send entries \<longleftrightarrow>
     (\<forall>e \<in> set entries. \<forall>d \<in> set entries. \<forall>w \<in> set (snd (send d)). wr_id w = mu_id e \<longrightarrow> wr_at w \<noteq> mu_queuedAt e)"

lemma find_rev_append:
  "find P (rev (xs @ ys)) = (case find P (rev ys) of Some x \<Rightarrow> Some x | None \<Rightarrow> find P (rev xs))"
  by (simp add: find_append)

lemma pending_entry_saves:
  "pending_entry (fold enqueueMutation ws s) i =
    (case find (\<lambda>w. wr_id w = i) (rev ws) of Some w \<Rightarrow> Some (queued w) | None \<Rightarrow> pending_entry s i)"
proof (induction ws arbitrary: s)
  case (Cons w ws)
  then show ?case by (simp add: pending_entry_enqueue find_append split: option.split)
qed simp

lemma pending_write_of: "pending_entry s i = Some (queued w\<lparr>mu_attempts := n\<rparr>) \<Longrightarrow> pending_write s i = Some w"
  by (simp add: pending_write_def queued_def)

lemma drain_keeps_newest:
  assumes "queue_inv s" "copy_time_new send entries"
    and "case find (\<lambda>w. wr_id w = i) (rev (saved_during send entries)) of
           Some _ \<Rightarrow> True
         | None \<Rightarrow> pending_entry s i = Some (queued w0) \<and> (\<forall>e \<in> set entries. mu_id e = i \<longrightarrow> wr_at w0 \<noteq> mu_queuedAt e)"
  shows "pending_write (snd (drain_entries send entries s sent)) i =
    Some (case find (\<lambda>w. wr_id w = i) (rev (saved_during send entries)) of Some w \<Rightarrow> w | None \<Rightarrow> w0)"
  using assms
proof (induction entries arbitrary: s sent w0)
  case Nil
  then show ?case using pending_write_of [where s = s and i = i and w = w0 and n = 0] by (simp add: queued_def)
next
  case (Cons e entries)
  let ?s = "fold enqueueMutation (snd (send e)) s"
  let ?here = "find (\<lambda>w. wr_id w = i) (rev (snd (send e)))"
  let ?later = "find (\<lambda>w. wr_id w = i) (rev (saved_during send entries))"
  have inv: "queue_inv ?s" using Cons.prems(1) by (rule queue_inv_enqueues)
  have times: "copy_time_new send entries" using Cons.prems(2) by (auto simp: copy_time_new_def)
  have mem: "w \<in> set (snd (send e)) \<and> wr_id w = i" if "?here = Some w" for w
    using find_SomeD [OF that] by simp
  show ?case
  proof (cases "fst (send e) = Unanswered")
    case True
    obtain w1 where w1: "pending_entry ?s i = Some (queued w1)"
      "w1 = (case ?here of Some w \<Rightarrow> w | None \<Rightarrow> w0)"
      using Cons.prems(3) True by (cases ?here) (auto simp: pending_entry_saves)
    then obtain n where "pending_entry (recordAttempt (mu_id e) ?s) i = Some (queued w1\<lparr>mu_attempts := n\<rparr>)"
      using pending_entry_attempt [OF w1(1), of "mu_id e"] by (auto simp: queued_def QUEUE_ENTRY_MAX_ATTEMPTS_def)
    from pending_write_of [OF this] w1(2) True show ?thesis by (simp add: Let_def)
  next
    case False
    let ?w1 = "case ?here of Some w \<Rightarrow> w | None \<Rightarrow> w0"
    have step: "case ?later of Some _ \<Rightarrow> True
        | None \<Rightarrow> pending_entry t i = Some (queued ?w1) \<and> (\<forall>e \<in> set entries. mu_id e = i \<longrightarrow> wr_at ?w1 \<noteq> mu_queuedAt e)"
      if t: "t = ?s \<or> t = removeMutation (mu_id e) (Some (mu_queuedAt e)) ?s" for t
    proof (cases ?later)
      case None
      have w1: "pending_entry ?s i = Some (queued ?w1)"
        using Cons.prems(3) None False by (auto simp: pending_entry_saves find_append split: option.splits)
      have new: "wr_at ?w1 \<noteq> mu_queuedAt d" if "d \<in> set (e # entries)" "mu_id d = i" for d
      proof (cases ?here)
        case (Some w)
        then show ?thesis using mem [OF Some] Cons.prems(2) that by (fastforce simp: copy_time_new_def)
      next
        case None
        then show ?thesis using Cons.prems(3) \<open>?later = None\<close> False that by (auto simp: find_append)
      qed
      have "pending_entry t i = Some (queued ?w1)"
        using t w1 new [of e] by (auto simp: pending_entry_remove [OF inv] queued_def)
      with None new show ?thesis by simp
    qed simp
    have result: "find (\<lambda>w. wr_id w = i) (rev (saved_during send (e # entries))) = (case ?later of Some w \<Rightarrow> Some w | None \<Rightarrow> ?here)"
      using False by (simp add: find_append)
    note ih = Cons.IH [OF _ times]
    show ?thesis
      using False ih [OF inv step, of sent] ih [OF queue_inv_remove [OF inv] step]
      unfolding result by (cases "fst (send e)") (auto simp: Let_def split: option.splits)
  qed
qed

lemma drainQueue_store: "snd (drainQueue send s) = snd (readQueue (snd (drain_entries send (queue_of s) (snd (readQueue s)) 0)))"
  by (simp add: drainQueue_def split: prod.split)

lemma queue_of_reread [simp]: "queue_of (snd (readQueue s)) = queue_of s"
  by simp

lemma pending_reread [simp]: "pending_write (snd (readQueue s)) = pending_write s"
  by (simp add: pending_write_def pending_entry_def fun_eq_iff)

lemma queue_inv_reread [simp]: "queue_inv (snd (readQueue s)) = queue_inv s"
  by (simp add: queue_inv_def)

text \<open>
  C8. The write made last is never dropped by a send that was already under way. If, during a
  drain, a target was saved again (with a time of its own, not that of the copy being sent), the
  last of those saves is what is pending for the target when the drain ends, whether the older
  copy was accepted, refused or not answered.
\<close>

theorem newer_copy_survives:
  assumes "queue_inv s" "copy_time_new send (queue_of s)"
    and "find (\<lambda>w. wr_id w = i) (rev (saved_during send (queue_of s))) = Some w"
  shows "pending_write (snd (drainQueue send s)) i = Some w"
  using drain_keeps_newest [of "snd (readQueue s)" send "queue_of s" i undefined 0] assms
  by (simp add: drainQueue_store)

definition note_write :: "int \<Rightarrow> string \<Rightarrow> string saved_write" where
  "note_write t payload = \<lparr>wr_id = ''note-1'', wr_kind = ''note'', wr_payload = payload, wr_at = t\<rparr>"

definition note_sender :: "string sender" where
  "note_sender e = (Accepted, [note_write 20 ''second''])"

definition note_store :: "string queue_store" where
  "note_store = enqueueMutation (note_write 10 ''first'') Absent"

lemma note_store_queue: "queue_of note_store = [queued (note_write 10 ''first'')]"
  by (simp add: note_store_def queue_of_enqueue)

lemma note_store_inv: "queue_inv note_store"
  by (simp add: queue_inv_def note_store_queue queued_def QUEUE_ENTRY_MAX_ATTEMPTS_def)

theorem newer_copy_survives_witness:
  "pending_write (snd (drainQueue note_sender note_store)) ''note-1'' = Some (note_write 20 ''second'')"
  by (rule newer_copy_survives [OF note_store_inv])
    (simp_all add: note_store_queue copy_time_new_def note_sender_def note_write_def queued_def)

text \<open>
  C29. The queue is a map from a target to its last write. Whatever is saved, the pending write of
  each target is the last one saved for it, and of a target nothing was saved for what it was;
  and removing a copy by its time removes that copy and no other.
\<close>

theorem queue_refines_last_writes:
  "pending_write (fold enqueueMutation ws s) i =
     (case find (\<lambda>w. wr_id w = i) (rev ws) of Some w \<Rightarrow> Some w | None \<Rightarrow> pending_write s i) \<and>
   (let s' = fold enqueueMutation ws Absent in
    pending_write (removeMutation j (Some t) s') =
      (case pending_write s' j of
         None \<Rightarrow> pending_write s'
       | Some w \<Rightarrow> if wr_at w = t then (pending_write s')(j := None) else pending_write s'))"
proof -
  have inv: "queue_inv (fold enqueueMutation ws Absent)"
    by (rule queue_inv_enqueues) (simp add: queue_inv_def)
  have "pending_write (removeMutation j (Some t) s') =
      (case pending_write s' j of
         None \<Rightarrow> pending_write s'
       | Some w \<Rightarrow> if wr_at w = t then (pending_write s')(j := None) else pending_write s')" if "queue_inv s'" for s' :: "'a queue_store"
    by (auto simp: fun_eq_iff pending_write_def pending_entry_remove [OF that] split: option.split)
  from this [OF inv] show ?thesis
    by (simp only: write_queue.pending_saves Let_def)
qed

definition attempts_left :: "'p queue_store \<Rightarrow> nat" where
  "attempts_left s = (\<Sum>e \<leftarrow> queue_of s. QUEUE_ENTRY_MAX_ATTEMPTS - mu_attempts e)"

definition no_signal :: "'p sender" where
  "no_signal e = (Unanswered, [])"

lemma queue_of_drain_no_signal:
  "queue_of (snd (drainQueue no_signal s)) =
    (case queue_of s of [] \<Rightarrow> [] | e # es \<Rightarrow> queue_of (recordAttempt (mu_id e) s))"
  by (simp add: drainQueue_store no_signal_def recordAttempt_def split: list.split)

lemma attempt_costs_one:
  assumes inv: "queue_inv s" and q: "queue_of s = e # es"
  shows "Suc (attempts_left (recordAttempt (mu_id e) s)) = attempts_left s"
proof -
  let ?g = "\<lambda>d. if mu_id d = mu_id e then d\<lparr>mu_attempts := mu_attempts d + 1\<rparr> else d"
  have "mu_id e \<notin> mu_id ` set es" using inv q by (simp add: queue_inv_def)
  then have ids: "\<forall>d \<in> set es. mu_id d \<noteq> mu_id e" by (metis image_eqI)
  have small: "\<forall>d \<in> set (e # es). mu_attempts d < QUEUE_ENTRY_MAX_ATTEMPTS"
    using inv q by (simp add: queue_inv_def)
  from ids have "map ?g es = es" by (simp add: map_idI)
  moreover have "filter (\<lambda>d. mu_attempts d < QUEUE_ENTRY_MAX_ATTEMPTS) es = es"
    using small by simp
  ultimately have "queue_of (recordAttempt (mu_id e) s) =
      (if mu_attempts e + 1 < QUEUE_ENTRY_MAX_ATTEMPTS then e\<lparr>mu_attempts := mu_attempts e + 1\<rparr> # es else es)"
    by (simp add: queue_of_attempt q)
  then show ?thesis using small q by (auto simp: attempts_left_def QUEUE_ENTRY_MAX_ATTEMPTS_def)
qed

lemma attempts_left_0: "queue_inv s \<Longrightarrow> attempts_left s = 0 \<longleftrightarrow> queue_of s = []"
  by (cases "queue_of s") (auto simp: attempts_left_def queue_inv_def)

lemma drains_empty:
  assumes "queue_inv s" "attempts_left s \<le> n"
  shows "queue_of (((\<lambda>s. snd (drainQueue no_signal s)) ^^ n) s) = []"
  using assms
proof (induction n arbitrary: s)
  case 0
  then show ?case by (simp add: attempts_left_0)
next
  case (Suc n)
  let ?s = "snd (drainQueue no_signal s)"
  have inv: "queue_inv ?s"
    using Suc.prems(1) by (simp add: drainQueue_store queue_inv_drain)
  have "attempts_left ?s \<le> n"
  proof (cases "queue_of s")
    case Nil
    then show ?thesis by (simp add: attempts_left_def queue_of_drain_no_signal)
  next
    case (Cons e es)
    then have "attempts_left ?s = attempts_left (recordAttempt (mu_id e) s)"
      by (simp add: attempts_left_def queue_of_drain_no_signal)
    with attempt_costs_one [OF Suc.prems(1) Cons] Suc.prems(2) show ?thesis by simp
  qed
  from Suc.IH [OF inv this] show ?case by (simp only: funpow_Suc_right o_def)
qed

text \<open>
  Nothing waits for ever. When no send is answered, each drain costs the entry at the head
  one of its eight attempts, so after as many drains as there are attempts left the queue is
  empty: at most eight for each entry.
\<close>

theorem nothing_waits_for_ever:
  assumes "queue_inv s"
  shows "queue_of (((\<lambda>s. snd (drainQueue no_signal s)) ^^ (8 * length (queue_of s))) s) = []"
proof (rule drains_empty [OF assms])
  have "(\<Sum>e \<leftarrow> es. QUEUE_ENTRY_MAX_ATTEMPTS - mu_attempts e) \<le> 8 * length es" for es :: "'a mutation list"
    by (induction es) (auto simp: QUEUE_ENTRY_MAX_ATTEMPTS_def)
  then show "attempts_left s \<le> 8 * length (queue_of s)" by (simp add: attempts_left_def)
qed

theorem nothing_waits_for_ever_witness:
  "queue_of (((\<lambda>s. snd (drainQueue no_signal s)) ^^ 8) note_store) = []"
  using nothing_waits_for_ever [OF note_store_inv] by (simp add: note_store_queue del: funpow.simps)

section \<open>Two at once\<close>

text \<open>
  The operations of the model read and write in one piece; those of the app wait between the two. A
  removal that has read the queue, and writes after a new write was saved, writes it away.
\<close>

lemma save_during_removal_is_lost:
  fixes i :: string and then_saved :: millis
  assumes "queued w \<notin> set (queue_of s)"
  defines "saved \<equiv> enqueueMutation w s" and "removal \<equiv> filter (\<lambda>e. mu_id e \<noteq> i \<or> mu_queuedAt e \<noteq> then_saved) (queue_of s)"
  shows "removeMutation i (Some then_saved) s = writeQueue removal" "queued w \<in> set (queue_of saved)" "queued w \<notin> set (queue_of (writeQueue removal))"
  using assms(1) by (simp_all add: saved_def removal_def removeMutation_def enqueueMutation_def)

end
