(* ===== verification/Day_Paths.thy ===== *)
theory Day_Paths
  imports Local_Search Geo Zone_Rotation
begin

text \<open>
  \<open>shared/src/contracts/quarter-assignment.ts\<close>, first part: the visits of a quarter and the days
  they are laid out on, the drive guessed from the straight line, and the paths through a day's
  visits: the order found by 2-opt (\<open>polished\<close>), where a visit or a run of visits adds least, what
  taking one out saves, and a day filled around its appointments (\<open>fillAroundAnchors\<close>).

  Minutes on site and numbers of visits are whole; minutes of driving are real. A \<open>Set\<close> of visits
  is a list without repeats, in the order they were added. Visits are told apart by what they
  hold, where the source tells objects apart; no two visits of a quarter have the same \<open>stopId\<close>.
\<close>

section \<open>Visits, days and limits\<close>

record stop = point +
  stopId :: string
  sequence :: int
  onSiteMinutes :: int
  inspectionType :: string
  previousTechnicianId :: "string option"
  zone :: "string option"
  month :: "int option"

abbreviation spot :: "stop \<Rightarrow> point" where
  "spot s \<equiv> point.truncate s"

type_synonym drive = "point \<Rightarrow> point \<Rightarrow> real"

abbreviation on_stops :: "drive \<Rightarrow> stop \<Rightarrow> stop \<Rightarrow> real" where
  "on_stops d \<equiv> (\<lambda>a b. d (spot a) (spot b))"

record plannable_day =
  pd_date :: day
  pd_technicianIds :: "string list"
  pd_qualified :: "string \<Rightarrow> string list option"
  pd_zoneTechnicians :: "(string \<times> string) list option"

record day_limits =
  maxOnSiteMinutes :: int
  minStopsPerDay :: nat
  maxStopsPerDay :: nat
  closeMinutes :: "real option"
  maxLegMinutes :: "real option"

definition MAX_LEG_MINUTES :: real where "MAX_LEG_MINUTES = 20"
definition NEIGHBOUR_MINUTES :: real where "NEIGHBOUR_MINUTES = 5"

definition DEFAULT_DAY_LIMITS :: day_limits where
  "DEFAULT_DAY_LIMITS =
     \<lparr>maxOnSiteMinutes = 6 * 60, minStopsPerDay = 9, maxStopsPerDay = 10,
      closeMinutes = Some NEIGHBOUR_MINUTES, maxLegMinutes = Some MAX_LEG_MINUTES\<rparr>"

definition MAX_STOPS_PER_DAY :: nat where "MAX_STOPS_PER_DAY = 24"

text \<open>\<open>limits.closeMinutes ?? NEIGHBOUR_MINUTES\<close>, \<open>limits.maxLegMinutes ?? MAX_LEG_MINUTES\<close>.\<close>

definition close_of :: "day_limits \<Rightarrow> real" where
  "close_of limits = (case closeMinutes limits of None \<Rightarrow> NEIGHBOUR_MINUTES | Some m \<Rightarrow> m)"

definition max_leg_of :: "day_limits \<Rightarrow> real" where
  "max_leg_of limits = (case maxLegMinutes limits of None \<Rightarrow> MAX_LEG_MINUTES | Some m \<Rightarrow> m)"

datatype anchor_kind = MOVE_OUT | MOVE_IN

record day_anchor = point +
  an_id :: string
  an_date :: day
  an_technicianId :: string
  an_onSiteMinutes :: int
  an_kind :: "anchor_kind option"

definition ANCHOR_VISITS :: nat where "ANCHOR_VISITS = 3"

text \<open>\<open>Math.max(0, a - b)\<close> is subtraction on the natural numbers.\<close>

definition dayVisitRange :: "day_limits \<Rightarrow> nat \<Rightarrow> nat \<times> nat" where
  "dayVisitRange limits anchors =
     (let fewer = ANCHOR_VISITS * anchors
      in (minStopsPerDay limits - fewer, min (maxStopsPerDay limits) MAX_STOPS_PER_DAY - fewer))"

definition ANCHOR_STOP_PREFIX :: string where "ANCHOR_STOP_PREFIX = ''anchor:''"

definition kind_name :: "anchor_kind \<Rightarrow> string" where
  "kind_name k = (case k of MOVE_OUT \<Rightarrow> ''MOVE_OUT'' | MOVE_IN \<Rightarrow> ''MOVE_IN'')"

definition anchorAsStop :: "day_anchor \<Rightarrow> stop" where
  "anchorAsStop anchor =
     \<lparr>latitude = latitude anchor, longitude = longitude anchor,
      stopId = ANCHOR_STOP_PREFIX @ an_id anchor, sequence = 0,
      onSiteMinutes = an_onSiteMinutes anchor,
      inspectionType = kind_name (case an_kind anchor of None \<Rightarrow> MOVE_OUT | Some k \<Rightarrow> k),
      previousTechnicianId = None, zone = None, month = None\<rparr>"

definition anchorIdOf :: "stop \<Rightarrow> string option" where
  "anchorIdOf s =
     (if starts_with ANCHOR_STOP_PREFIX (stopId s) then Some (drop (length ANCHOR_STOP_PREFIX) (stopId s)) else None)"

section \<open>Drives\<close>

definition estimatedDriveMinutes :: drive where
  "estimatedDriveMinutes from to =
     (let kilometres = haversineMeters from to / 1000
      in if kilometres < 5 / 100 then 0 else 3 + kilometres * (3 / 2))"

definition OVER_LEG :: real where "OVER_LEG = 10000"

definition pricedLegs :: "drive \<Rightarrow> real \<Rightarrow> drive" where
  "pricedLegs drive maxLeg from to =
     (let minutes = drive from to in if maxLeg < minutes then minutes + OVER_LEG else minutes)"

definition overLong :: "real \<Rightarrow> bool" where
  "overLong cost \<longleftrightarrow> OVER_LEG / 2 \<le> cost"

section \<open>Paths\<close>

record 'a path =
  pa_path :: "'a list"
  pa_cost :: real

definition pathMinutes :: "'a list \<Rightarrow> ('a \<Rightarrow> 'a \<Rightarrow> real) \<Rightarrow> real" where
  "pathMinutes path drive = foldl (\<lambda>total index. total + drive (path ! (index - 1)) (path ! index)) 0 [1..<length path]"

text \<open>\<open>nextTotal + 1e-9 < total\<close>.\<close>

definition drives_less :: "real \<Rightarrow> real \<Rightarrow> bool" where
  "drives_less new old \<longleftrightarrow> new + 1 / 10 ^ 9 < old"

interpretation path_search: local_search "\<lambda>path. pathMinutes path cost" drives_less for cost
  by unfold_locales (simp add: drives_less_def)

function polish_loop :: "('a \<Rightarrow> 'a \<Rightarrow> real) \<Rightarrow> 'a list \<Rightarrow> real \<Rightarrow> 'a path" where
  "polish_loop cost path spent =
     (let pass = two_opt_pass (\<lambda>path. pathMinutes path cost) drives_less path spent
      in if sr_improved pass then polish_loop cost (sr_best pass) (sr_cost pass)
         else \<lparr>pa_path = sr_best pass, pa_cost = sr_cost pass\<rparr>)"
  by pat_completeness auto
termination
  by (relation "measure (\<lambda>(cost, path, spent). card (lower_orders (\<lambda>path. pathMinutes path cost) path spent))")
    (simp_all add: path_search.pass_decreases)

declare polish_loop.simps [simp del]

definition polished :: "'a list \<Rightarrow> ('a \<Rightarrow> 'a \<Rightarrow> real) \<Rightarrow> 'a path" where
  "polished path cost = polish_loop cost path (pathMinutes path cost)"

text \<open>\<open>[...path.slice(0, at), stop, ...path.slice(at)]\<close>.\<close>

definition insert_at :: "nat \<Rightarrow> 'a \<Rightarrow> 'a list \<Rightarrow> 'a list" where
  "insert_at i x xs = take i xs @ x # drop i xs"

definition insertion_step :: "('a \<Rightarrow> 'a \<Rightarrow> real) \<Rightarrow> 'a list \<Rightarrow> 'a \<Rightarrow> nat \<times> real \<Rightarrow> nat \<Rightarrow> nat \<times> real" where
  "insertion_step cost path stop b index =
     (let between = cost (path ! (index - 1)) stop + cost stop (path ! index) - cost (path ! (index - 1)) (path ! index)
      in if between < snd b then (index, between) else b)"

definition cheapestInsertion :: "'a list \<Rightarrow> 'a \<Rightarrow> ('a \<Rightarrow> 'a \<Rightarrow> real) \<Rightarrow> nat \<times> real" where
  "cheapestInsertion path stop cost =
     (if path = [] then (0, 0)
      else
        let added = cost stop (path ! 0);
            atEnd = cost (path ! (length path - 1)) stop
        in foldl (insertion_step cost path stop)
             (if atEnd < added then (length path, atEnd) else (0, added)) [1..<length path])"

fun indexOf :: "'a \<Rightarrow> 'a list \<Rightarrow> nat option" where
  "indexOf x [] = None"
| "indexOf x (y # ys) = (if y = x then Some 0 else map_option Suc (indexOf x ys))"

definition removalSaving :: "'a list \<Rightarrow> 'a \<Rightarrow> ('a \<Rightarrow> 'a \<Rightarrow> real) \<Rightarrow> real" where
  "removalSaving path stop cost =
     (case indexOf stop path of
        None \<Rightarrow> 0
      | Some i \<Rightarrow>
          if length path \<le> 1 then 0
          else if i = 0 then cost (path ! 0) (path ! 1)
          else if i = length path - 1 then cost (path ! (i - 1)) (path ! i)
          else cost (path ! (i - 1)) stop + cost stop (path ! (i + 1)) - cost (path ! (i - 1)) (path ! (i + 1)))"

definition runRemovalSaving :: "'a list \<Rightarrow> nat \<Rightarrow> nat \<Rightarrow> ('a \<Rightarrow> 'a \<Rightarrow> real) \<Rightarrow> real" where
  "runRemovalSaving path i n cost =
     (let before = (if 0 < i then Some (path ! (i - 1)) else None);
          after = (if i + n < length path then Some (path ! (i + n)) else None);
          saved = (case before of None \<Rightarrow> 0 | Some b \<Rightarrow> cost b (path ! i));
          saved = saved + (case after of None \<Rightarrow> 0 | Some a \<Rightarrow> cost (path ! (i + n - 1)) a)
      in saved - (case (before, after) of (Some b, Some a) \<Rightarrow> cost b a | _ \<Rightarrow> 0))"

definition run_insertion_costs :: "'a list \<Rightarrow> 'a \<Rightarrow> 'a \<Rightarrow> ('a \<Rightarrow> 'a \<Rightarrow> real) \<Rightarrow> real list" where
  "run_insertion_costs path head tail cost =
     cost tail (path ! 0) # cost (path ! (length path - 1)) head #
     map (\<lambda>index. cost (path ! (index - 1)) head + cost tail (path ! index) - cost (path ! (index - 1)) (path ! index))
       [1..<length path]"

definition cheapestRunInsertion :: "'a list \<Rightarrow> 'a list \<Rightarrow> ('a \<Rightarrow> 'a \<Rightarrow> real) \<Rightarrow> real" where
  "cheapestRunInsertion path run cost =
     (if path = [] then 0
      else
        let first = run ! 0; final = run ! (length run - 1)
        in min_list (run_insertion_costs path first final cost @ run_insertion_costs path final first cost))"

section \<open>The cheapest of several\<close>

text \<open>
  The loops that look for the least of something all keep the best candidate so far and replace
  it only by a strictly lesser one; \<open>offer\<close> says what an element is worth, if it may be taken.
\<close>

definition keep_least :: "('b \<Rightarrow> real) \<Rightarrow> 'b option \<Rightarrow> 'b option \<Rightarrow> 'b option" where
  "keep_least worth best cand =
     (case cand of None \<Rightarrow> best
      | Some c \<Rightarrow> (case best of None \<Rightarrow> Some c | Some b \<Rightarrow> if worth c < worth b then Some c else best))"

definition least_offer :: "('b \<Rightarrow> real) \<Rightarrow> ('a \<Rightarrow> 'b option) \<Rightarrow> 'a list \<Rightarrow> 'b option" where
  "least_offer worth offer xs = foldl (\<lambda>best x. keep_least worth best (offer x)) None xs"

lemma least_offers:
  "foldl (\<lambda>best x. keep_least worth best (offer x)) b xs = Some c \<Longrightarrow>
    (b = Some c \<or> (\<exists>x \<in> set xs. offer x = Some c)) \<and>
    (\<forall>b'. b = Some b' \<longrightarrow> worth c \<le> worth b') \<and>
    (\<forall>x \<in> set xs. \<forall>c'. offer x = Some c' \<longrightarrow> worth c \<le> worth c')"
proof (induction xs arbitrary: b)
  case (Cons x xs)
  from Cons.prems have "foldl (\<lambda>best x. keep_least worth best (offer x)) (keep_least worth b (offer x)) xs = Some c"
    by simp
  from Cons.IH [OF this] show ?case
    by (cases b; cases "offer x") (auto simp: keep_least_def split: if_splits)
qed simp

lemma least_offers_None:
  "foldl (\<lambda>best x. keep_least worth best (offer x)) b xs = None \<longleftrightarrow> b = None \<and> (\<forall>x \<in> set xs. offer x = None)"
  by (induction xs arbitrary: b) (auto simp: keep_least_def split: option.splits)

lemma least_offer_SomeD:
  assumes "least_offer worth offer xs = Some c"
  shows "\<exists>x \<in> set xs. offer x = Some c" and "x \<in> set xs \<Longrightarrow> offer x = Some c' \<Longrightarrow> worth c \<le> worth c'"
  using least_offers [of worth offer None xs c] assms by (auto simp: least_offer_def)

lemma least_offer_None: "least_offer worth offer xs = None \<longleftrightarrow> (\<forall>x \<in> set xs. offer x = None)"
  using least_offers_None [of worth offer None xs] by (simp add: least_offer_def)

section \<open>A day around its appointments\<close>

record insertion =
  in_stop :: stop
  in_at :: nat
  in_added :: real

record filling =
  fi_path :: "stop list"
  fi_onSite :: int
  fi_visits :: "stop list"
  fi_left :: "stop list"

definition fill_offer :: "day_limits \<Rightarrow> drive \<Rightarrow> filling \<Rightarrow> stop \<Rightarrow> insertion option" where
  "fill_offer limits cost f stop =
     (if maxOnSiteMinutes limits < fi_onSite f + onSiteMinutes stop then None
      else
        let (i, added) = cheapestInsertion (fi_path f) stop (on_stops cost)
        in if overLong added then None else Some \<lparr>in_stop = stop, in_at = i, in_added = added\<rparr>)"

definition next_visit :: "day_limits \<Rightarrow> drive \<Rightarrow> nat \<times> nat \<Rightarrow> filling \<Rightarrow> insertion option" where
  "next_visit limits cost visits f =
     (if length (fi_visits f) < snd visits then
        case least_offer in_added (fill_offer limits cost f) (fi_left f) of
          None \<Rightarrow> None
        | Some best \<Rightarrow>
            if fst visits \<le> length (fi_visits f) \<and> close_of limits < in_added best then None else Some best
      else None)"

definition take_visit :: "filling \<Rightarrow> insertion \<Rightarrow> filling" where
  "take_visit f best =
     \<lparr>fi_path = insert_at (in_at best) (in_stop best) (fi_path f),
      fi_onSite = fi_onSite f + onSiteMinutes (in_stop best),
      fi_visits = fi_visits f @ [in_stop best],
      fi_left = remove1 (in_stop best) (fi_left f)\<rparr>"

lemma fill_offer_SomeD:
  assumes "fill_offer limits cost f stop = Some b"
  shows "in_stop b = stop" "fi_onSite f + onSiteMinutes stop \<le> maxOnSiteMinutes limits"
    "(in_at b, in_added b) = cheapestInsertion (fi_path f) stop (on_stops cost)" "\<not> overLong (in_added b)"
  using assms by (auto simp: fill_offer_def split: if_splits prod.splits)

lemma next_visit_SomeD:
  assumes "next_visit limits cost visits f = Some b"
  shows "in_stop b \<in> set (fi_left f)" "fill_offer limits cost f (in_stop b) = Some b"
    "length (fi_visits f) < snd visits" "length (fi_visits f) < fst visits \<or> in_added b \<le> close_of limits"
proof -
  have least: "least_offer in_added (fill_offer limits cost f) (fi_left f) = Some b"
    and visits: "length (fi_visits f) < snd visits" "length (fi_visits f) < fst visits \<or> in_added b \<le> close_of limits"
    using assms by (auto simp: next_visit_def split: if_splits option.splits)
  from least_offer_SomeD(1) [OF least] obtain x where x: "x \<in> set (fi_left f)" "fill_offer limits cost f x = Some b"
    by blast
  with fill_offer_SomeD(1) [OF x(2)] visits show
    "in_stop b \<in> set (fi_left f)" "fill_offer limits cost f (in_stop b) = Some b"
    "length (fi_visits f) < snd visits" "length (fi_visits f) < fst visits \<or> in_added b \<le> close_of limits"
    by auto
qed

function fill_loop :: "day_limits \<Rightarrow> drive \<Rightarrow> nat \<times> nat \<Rightarrow> filling \<Rightarrow> filling" where
  "fill_loop limits cost visits f =
     (case next_visit limits cost visits f of
        None \<Rightarrow> f
      | Some best \<Rightarrow> fill_loop limits cost visits (take_visit f best))"
  by pat_completeness auto
termination
proof (relation "measure (\<lambda>(limits, cost, visits, f). length (fi_left f))")
  fix limits cost visits f best
  assume "next_visit limits cost visits f = Some best"
  then have "in_stop best \<in> set (fi_left f)" by (rule next_visit_SomeD)
  then show "((limits, cost, visits, take_visit f best), limits, cost, visits, f)
      \<in> measure (\<lambda>(limits, cost, visits, f). length (fi_left f))"
    using length_pos_if_in_set by (fastforce simp: take_visit_def length_remove1)
qed simp

declare fill_loop.simps [simp del]

record filled_day =
  fd_visits :: "stop list"
  fd_drive :: real
  fd_onSite :: int

definition fillAroundAnchors :: "day_anchor list \<Rightarrow> stop list \<Rightarrow> day_limits \<Rightarrow> drive \<Rightarrow> drive \<Rightarrow> filled_day" where
  "fillAroundAnchors anchors candidates limits cost drive =
     (let f = fill_loop limits cost (dayVisitRange limits (length anchors))
            \<lparr>fi_path = pa_path (polished (map anchorAsStop anchors) (on_stops cost)),
             fi_onSite = sum_list (map an_onSiteMinutes anchors), fi_visits = [], fi_left = uniq candidates\<rparr>;
          ordered = pa_path (polished (fi_path f) (on_stops cost))
      in \<lparr>fd_visits = filter (\<lambda>stop. anchorIdOf stop = None) ordered,
          fd_drive = pathMinutes ordered (on_stops drive), fd_onSite = fi_onSite f\<rparr>)"

definition zoneOf :: "stop \<Rightarrow> string" where
  "zoneOf s = (case zone s of None \<Rightarrow> '''' | Some z \<Rightarrow> z)"

definition qualified_for :: "plannable_day \<Rightarrow> string \<Rightarrow> stop \<Rightarrow> bool" where
  "qualified_for day technicianId stop \<longleftrightarrow>
     technicianId \<in> set (pd_technicianIds day) \<and>
     (case pd_qualified day (inspectionType stop) of None \<Rightarrow> True | Some list \<Rightarrow> technicianId \<in> set list)"

definition middleOf :: "point list \<Rightarrow> point" where
  "middleOf points =
     \<lparr>latitude = sum_list (map latitude points) / of_nat (length points),
      longitude = sum_list (map longitude points) / of_nat (length points)\<rparr>"

definition DOWNTOWN_HOUSTON :: point where
  "DOWNTOWN_HOUSTON = \<lparr>latitude = 29.7604, longitude = - 95.3698\<rparr>"

definition metresFromDowntown :: "point list \<Rightarrow> real" where
  "metresFromDowntown path = (if path = [] then 0 else haversineMeters (middleOf path) DOWNTOWN_HOUSTON)"


section \<open>Lemmas on paths\<close>

lemma pathMinutes_shift:
  "foldl (\<lambda>total index. total + drive ((x # path) ! (index - 1)) ((x # path) ! index)) t [Suc 1..<Suc (length path)] =
   foldl (\<lambda>total index. total + drive (path ! (index - 1)) (path ! index)) t [1..<length path]"
proof -
  have "[Suc 1..<Suc (length path)] = map Suc [1..<length path]" by (simp add: map_Suc_upt del: upt_Suc)
  moreover have "foldl (\<lambda>total index. total + drive ((x # path) ! (Suc index - 1)) (path ! index)) t ns =
      foldl (\<lambda>total index. total + drive (path ! (index - 1)) (path ! index)) t ns"
    if "\<forall>n \<in> set ns. 0 < n" for ns t
    using that by (induction ns arbitrary: t) auto
  ultimately show ?thesis by (simp add: foldl_map del: upt_Suc)
qed

lemma foldl_plus: "foldl (\<lambda>total n. total + g n) (t::real) ns = t + (\<Sum>n \<leftarrow> ns. g n)"
  by (induction ns arbitrary: t) simp_all

lemma pathMinutes_simps [simp]:
  "pathMinutes [] drive = 0"
  "pathMinutes [a] drive = 0"
  "pathMinutes (a # b # path) drive = drive a b + pathMinutes (b # path) drive"
proof -
  have "[1..<length (a # b # path)] = 1 # [Suc 1..<Suc (length (b # path))]" by (simp add: upt_conv_Cons del: upt_Suc)
  then show "pathMinutes (a # b # path) drive = drive a b + pathMinutes (b # path) drive"
    unfolding pathMinutes_def by (simp only: foldl_Cons pathMinutes_shift) (simp add: foldl_plus)
qed (simp_all add: pathMinutes_def)

lemma pathMinutes_append:
  "xs \<noteq> [] \<Longrightarrow> ys \<noteq> [] \<Longrightarrow>
    pathMinutes (xs @ ys) drive = pathMinutes xs drive + drive (last xs) (hd ys) + pathMinutes ys drive"
proof (induction xs rule: induct_list012)
  case (2 x)
  then show ?case by (cases ys) simp_all
qed simp_all

lemma polish_loop_facts:
  assumes "spent = pathMinutes path cost"
  shows "mset (pa_path (polish_loop cost path spent)) = mset path \<and>
    pa_cost (polish_loop cost path spent) \<le> spent \<and>
    pa_cost (polish_loop cost path spent) = pathMinutes (pa_path (polish_loop cost path spent)) cost \<and>
    (\<forall>i j. i < j \<longrightarrow> j < length path \<longrightarrow>
       \<not> drives_less (pathMinutes (reverse_segment i j (pa_path (polish_loop cost path spent))) cost)
           (pa_cost (polish_loop cost path spent)))"
  using assms
proof (induction cost path spent rule: polish_loop.induct)
  case (1 cost path spent)
  let ?p = "two_opt_pass (\<lambda>path. pathMinutes path cost) drives_less path spent"
  have p: "mset (sr_best ?p) = mset path" "sr_cost ?p \<le> spent" "sr_cost ?p = pathMinutes (sr_best ?p) cost"
    using path_search.pass_keeps [where cost = cost and best = path and c = spent] 1(2) by simp_all
  then have len: "length (sr_best ?p) = length path" by (metis mset_eq_length)
  show ?case
  proof (cases "sr_improved ?p")
    case True
    then have "polish_loop cost path spent = polish_loop cost (sr_best ?p) (sr_cost ?p)"
      by (subst polish_loop.simps) (simp add: Let_def)
    then show ?thesis using 1(1) [OF refl True p(3)] p len by (auto intro: order_trans)
  next
    case False
    then have "polish_loop cost path spent = \<lparr>pa_path = path, pa_cost = spent\<rparr>"
      using path_search.pass_done [OF False] by (subst polish_loop.simps) (simp add: Let_def)
    then show ?thesis using path_search.pass_done [OF False] 1(2) by simp
  qed
qed

lemma polished_mset [simp]: "mset (pa_path (polished path cost)) = mset path"
  and polished_no_worse: "pa_cost (polished path cost) \<le> pathMinutes path cost"
  and polished_cost: "pa_cost (polished path cost) = pathMinutes (pa_path (polished path cost)) cost"
  and polished_settled: "i < j \<Longrightarrow> j < length path \<Longrightarrow>
    \<not> drives_less (pathMinutes (reverse_segment i j (pa_path (polished path cost))) cost) (pa_cost (polished path cost))"
  using polish_loop_facts [of "pathMinutes path cost" path cost, OF refl] unfolding polished_def by blast+

lemma polished_set [simp]: "set (pa_path (polished path cost)) = set path"
  by (metis polished_mset mset_eq_setD)

lemma polished_length [simp]: "length (pa_path (polished path cost)) = length path"
  by (metis polished_mset mset_eq_length)

lemma mset_insert_at [simp]: "mset (insert_at i x xs) = add_mset x (mset xs)"
proof -
  have "mset (take i xs) + mset (drop i xs) = mset xs" by (metis append_take_drop_id mset_append)
  then show ?thesis by (simp add: insert_at_def)
qed

text \<open>What inserting at each place adds: the ends of an open path cost one leg.\<close>

definition added_at :: "('a \<Rightarrow> 'a \<Rightarrow> real) \<Rightarrow> 'a list \<Rightarrow> 'a \<Rightarrow> nat \<Rightarrow> real" where
  "added_at cost path stop i =
     (if path = [] then 0
      else if i = 0 then cost stop (path ! 0)
      else if length path \<le> i then cost (path ! (length path - 1)) stop
      else cost (path ! (i - 1)) stop + cost stop (path ! i) - cost (path ! (i - 1)) (path ! i))"

lemma pathMinutes_insert_at:
  "i \<le> length path \<Longrightarrow> pathMinutes (insert_at i stop path) cost = pathMinutes path cost + added_at cost path stop i"
proof -
  assume i: "i \<le> length path"
  consider "path = []" | "path \<noteq> []" "i = 0" | "path \<noteq> []" "i = length path" | "0 < i" "i < length path"
    using i by fastforce
  then show ?thesis
  proof cases
    case 2
    then show ?thesis by (cases path) (simp_all add: insert_at_def added_at_def)
  next
    case 3
    then show ?thesis by (simp add: insert_at_def added_at_def pathMinutes_append last_conv_nth)
  next
    case 4
    define xs ys where "xs = take i path" and "ys = drop i path"
    have path: "path = xs @ ys" by (simp add: xs_def ys_def)
    have ne: "xs \<noteq> []" "ys \<noteq> []" using 4 by (auto simp: xs_def ys_def)
    have ends: "last xs = path ! (i - 1)" "hd ys = path ! i"
      using 4 by (simp_all add: last_conv_nth [OF ne(1)] hd_conv_nth [OF ne(2)]) (simp_all add: xs_def ys_def)
    have "pathMinutes (xs @ [stop] @ ys) cost = pathMinutes xs cost + cost (last xs) stop + cost stop (hd ys) + pathMinutes ys cost"
      using ne by (simp add: pathMinutes_append [of xs] pathMinutes_append [of "[stop]" ys, simplified])
    moreover have "pathMinutes path cost = pathMinutes xs cost + cost (last xs) (hd ys) + pathMinutes ys cost"
      unfolding path using ne by (rule pathMinutes_append)
    ultimately show ?thesis
      using 4 by (simp add: insert_at_def xs_def [symmetric] ys_def [symmetric] added_at_def ends) (auto simp: ends)
  qed (simp add: insert_at_def added_at_def)
qed

lemma insertion_steps:
  assumes "\<forall>n \<in> set ns. 0 < n \<and> n < length path" "snd b = added_at cost path stop (fst b)" "fst b \<le> length path"
  shows "snd (foldl (insertion_step cost path stop) b ns) = added_at cost path stop (fst (foldl (insertion_step cost path stop) b ns))
    \<and> fst (foldl (insertion_step cost path stop) b ns) \<le> length path
    \<and> snd (foldl (insertion_step cost path stop) b ns) \<le> snd b
    \<and> (\<forall>n \<in> set ns. snd (foldl (insertion_step cost path stop) b ns) \<le> added_at cost path stop n)"
  using assms
proof (induction ns arbitrary: b)
  case (Cons n ns)
  let ?b = "insertion_step cost path stop b n"
  have n: "0 < n" "n < length path" using Cons.prems(1) by simp_all
  then have "path \<noteq> []" by auto
  then have "?b = (if added_at cost path stop n < snd b then (n, added_at cost path stop n) else b)"
    using n by (simp add: insertion_step_def added_at_def)
  then have b: "snd ?b = added_at cost path stop (fst ?b)" "fst ?b \<le> length path" "snd ?b \<le> snd b"
    "snd ?b \<le> added_at cost path stop n"
    using n Cons.prems(2,3) by simp_all
  from Cons.prems(1) have "\<forall>n \<in> set ns. 0 < n \<and> n < length path" by simp
  from Cons.IH [OF this b(1,2)] b(3,4) show ?case by auto
qed simp

lemma cheapestInsertion_facts:
  assumes "cheapestInsertion path stop cost = (i, added)"
  shows "added = added_at cost path stop i" "i \<le> length path" "n \<le> length path \<Longrightarrow> added \<le> added_at cost path stop n"
proof -
  have "added = added_at cost path stop i \<and> i \<le> length path \<and> (\<forall>n \<le> length path. added \<le> added_at cost path stop n)"
  proof (cases "path = []")
    case True
    then show ?thesis using assms by (simp add: cheapestInsertion_def added_at_def)
  next
    case False
    let ?b = "if cost (path ! (length path - 1)) stop < cost stop (path ! 0)
      then (length path, cost (path ! (length path - 1)) stop) else (0, cost stop (path ! 0))"
    have eq: "foldl (insertion_step cost path stop) ?b [1..<length path] = (i, added)"
      unfolding assms [symmetric] cheapestInsertion_def Let_def by (simp only: False if_False)
    have b: "snd ?b = added_at cost path stop (fst ?b)" "fst ?b \<le> length path"
      "snd ?b \<le> added_at cost path stop 0" "snd ?b \<le> added_at cost path stop (length path)"
      using False by (auto simp: added_at_def)
    have "\<forall>n \<in> set [1..<length path]. 0 < n \<and> n < length path" by auto
    note steps = insertion_steps [OF this b(1,2), unfolded eq]
    have "added \<le> added_at cost path stop n" if "n \<le> length path" for n
    proof -
      consider "n = 0" | "n = length path" | "n \<in> set [1..<length path]" using \<open>n \<le> length path\<close> by force
      then show ?thesis using steps b(3,4) by cases auto
    qed
    with steps show ?thesis by simp
  qed
  then show "added = added_at cost path stop i" "i \<le> length path" "n \<le> length path \<Longrightarrow> added \<le> added_at cost path stop n"
    by blast+
qed

text \<open>
  Of all the places a visit could go in a day's order, \<open>cheapestInsertion\<close> gives one that
  makes the drive least, and what it says is added is exactly what the drive grows by.
\<close>

theorem insertion_is_cheapest:
  assumes "n \<le> length path"
  shows "fst (cheapestInsertion path stop cost) \<le> length path \<and>
    pathMinutes (insert_at (fst (cheapestInsertion path stop cost)) stop path) cost =
      pathMinutes path cost + snd (cheapestInsertion path stop cost) \<and>
    pathMinutes (insert_at (fst (cheapestInsertion path stop cost)) stop path) cost \<le> pathMinutes (insert_at n stop path) cost"
  using assms cheapestInsertion_facts [of path stop cost, OF prod.collapse [symmetric]]
  by (simp add: pathMinutes_insert_at)

theorem insertion_is_cheapest_witness:
  "pathMinutes (insert_at (fst (cheapestInsertion [0, 10, 20] 14 (\<lambda>a b. \<bar>a - b\<bar>))) 14 [0, 10, 20]) (\<lambda>a b. \<bar>a - b\<bar>)
     \<le> pathMinutes (insert_at 1 14 [0, 10, 20]) (\<lambda>a b. \<bar>a - b :: real\<bar>)"
  using insertion_is_cheapest [of 1 "[0, 10, 20]" 14 "\<lambda>a b. \<bar>a - b :: real\<bar>"] by simp


text \<open>A run of visits put into an open path at one place, and what that adds.\<close>

definition insert_run :: "nat \<Rightarrow> 'a list \<Rightarrow> 'a list \<Rightarrow> 'a list" where
  "insert_run i run path = take i path @ run @ drop i path"

definition run_added_at :: "('a \<Rightarrow> 'a \<Rightarrow> real) \<Rightarrow> 'a list \<Rightarrow> 'a \<Rightarrow> 'a \<Rightarrow> nat \<Rightarrow> real" where
  "run_added_at cost path head tail i =
     (if i = 0 then cost tail (path ! 0)
      else if length path \<le> i then cost (path ! (length path - 1)) head
      else cost (path ! (i - 1)) head + cost tail (path ! i) - cost (path ! (i - 1)) (path ! i))"

lemma pathMinutes_insert_run:
  assumes "i \<le> length path" "path \<noteq> []" "run \<noteq> []"
  shows "pathMinutes (insert_run i run path) cost =
    pathMinutes path cost + pathMinutes run cost + run_added_at cost path (hd run) (last run) i"
proof -
  consider "i = 0" | "i = length path" "0 < i" | "0 < i" "i < length path"
    using assms(1) by fastforce
  then show ?thesis
  proof cases
    case 1
    then show ?thesis using assms by (simp add: insert_run_def run_added_at_def pathMinutes_append hd_conv_nth)
  next
    case 2
    then show ?thesis using assms by (simp add: insert_run_def run_added_at_def pathMinutes_append last_conv_nth)
  next
    case 3
    define xs ys where "xs = take i path" and "ys = drop i path"
    have path: "path = xs @ ys" by (simp add: xs_def ys_def)
    have ne: "xs \<noteq> []" "ys \<noteq> []" using 3 by (auto simp: xs_def ys_def)
    have ends: "last xs = path ! (i - 1)" "hd ys = path ! i"
      using 3 by (simp_all add: last_conv_nth [OF ne(1)] hd_conv_nth [OF ne(2)]) (simp_all add: xs_def ys_def)
    have "pathMinutes path cost = pathMinutes xs cost + cost (last xs) (hd ys) + pathMinutes ys cost"
      unfolding path using ne by (rule pathMinutes_append)
    then show ?thesis
      using 3 ne assms(3) by (simp add: insert_run_def xs_def [symmetric] ys_def [symmetric] pathMinutes_append
          run_added_at_def ends)
  qed
qed

lemma set_run_insertion_costs:
  "path \<noteq> [] \<Longrightarrow> set (run_insertion_costs path head tail cost) = run_added_at cost path head tail ` {0..length path}"
proof -
  assume "path \<noteq> []"
  then have "{0..length path} = {0} \<union> {length path} \<union> {1..<length path}" by force
  then have "run_added_at cost path head tail ` {0..length path} =
      {cost tail (path ! 0)} \<union> {cost (path ! (length path - 1)) head} \<union>
      (\<lambda>i. cost (path ! (i - 1)) head + cost tail (path ! i) - cost (path ! (i - 1)) (path ! i)) ` {1..<length path}"
    using \<open>path \<noteq> []\<close> by (simp only: image_Un image_insert image_empty) (simp add: run_added_at_def)
  then show ?thesis by (simp add: run_insertion_costs_def insert_commute)
qed

lemma min_list_least: "xs \<noteq> [] \<Longrightarrow> min_list xs \<in> set xs \<and> (\<forall>x \<in> set xs. min_list xs \<le> (x :: real))"
  by (simp add: min_list_Min Min_le)

lemma pathMinutes_rev: "(\<And>a b. cost a b = cost b a) \<Longrightarrow> pathMinutes (rev path) cost = pathMinutes path cost"
proof (induction path rule: induct_list012)
  case (3 x y zs)
  then show ?case by (simp add: pathMinutes_append [of "rev zs @ [y]" "[x]", simplified])
qed simp_all

lemma cheapestRunInsertion_facts:
  assumes sym: "\<And>a b. cost a b = cost b a" and ne: "path \<noteq> []" "run \<noteq> []"
  shows "\<exists>i \<le> length path. \<exists>r \<in> {run, rev run}.
      pathMinutes (insert_run i r path) cost = pathMinutes path cost + pathMinutes run cost + cheapestRunInsertion path run cost"
    and "i \<le> length path \<Longrightarrow> r \<in> {run, rev run} \<Longrightarrow>
      pathMinutes path cost + pathMinutes run cost + cheapestRunInsertion path run cost \<le> pathMinutes (insert_run i r path) cost"
proof -
  let ?costs = "run_insertion_costs path (hd run) (last run) cost @ run_insertion_costs path (last run) (hd run) cost"
  have "cheapestRunInsertion path run cost = min_list ?costs"
    using ne by (simp add: cheapestRunInsertion_def hd_conv_nth last_conv_nth Let_def)
  moreover have "?costs \<noteq> []" by (simp add: run_insertion_costs_def)
  ultimately have least: "cheapestRunInsertion path run cost \<in> set ?costs"
    "\<forall>x \<in> set ?costs. cheapestRunInsertion path run cost \<le> x"
    using min_list_least [of ?costs] by simp_all
  have at: "pathMinutes (insert_run i run path) cost =
        pathMinutes path cost + pathMinutes run cost + run_added_at cost path (hd run) (last run) i"
      "pathMinutes (insert_run i (rev run) path) cost =
        pathMinutes path cost + pathMinutes run cost + run_added_at cost path (last run) (hd run) i"
    if "i \<le> length path" for i
    using that ne pathMinutes_insert_run [of i path run cost] pathMinutes_insert_run [of i path "rev run" cost]
      pathMinutes_rev [of cost run, OF sym] by (simp_all add: hd_rev last_rev)
  show "\<exists>i \<le> length path. \<exists>r \<in> {run, rev run}.
      pathMinutes (insert_run i r path) cost = pathMinutes path cost + pathMinutes run cost + cheapestRunInsertion path run cost"
    using least(1) at ne(1) by (auto simp: set_run_insertion_costs)
  show "pathMinutes path cost + pathMinutes run cost + cheapestRunInsertion path run cost \<le> pathMinutes (insert_run i r path) cost"
    if "i \<le> length path" "r \<in> {run, rev run}"
    using least(2) at [OF that(1)] ne(1) that by (auto simp: set_run_insertion_costs)
qed

text \<open>
  A run of visits moved between days goes to its best place: what \<open>cheapestRunInsertion\<close> says
  is added is what the drive grows by at some place, one way round or the other, and at no place
  and no way round does it grow by less.
\<close>

theorem run_insertion_is_cheapest:
  assumes "\<And>a b. cost a b = cost b a" "path \<noteq> []" "run \<noteq> []"
  shows "(\<exists>i \<le> length path. \<exists>r \<in> {run, rev run}.
      pathMinutes (insert_run i r path) cost = pathMinutes path cost + pathMinutes run cost + cheapestRunInsertion path run cost) \<and>
    (\<forall>i \<le> length path. \<forall>r \<in> {run, rev run}.
      pathMinutes path cost + pathMinutes run cost + cheapestRunInsertion path run cost \<le> pathMinutes (insert_run i r path) cost)"
  using cheapestRunInsertion_facts [of cost path run, OF assms] by blast

theorem run_insertion_is_cheapest_witness:
  "pathMinutes [0, 10, 20] (\<lambda>a b. \<bar>a - b :: real\<bar>) + pathMinutes [12, 14] (\<lambda>a b. \<bar>a - b\<bar>) +
    cheapestRunInsertion [0, 10, 20] [12, 14] (\<lambda>a b. \<bar>a - b\<bar>)
      \<le> pathMinutes (insert_run 1 [14, 12] [0, 10, 20]) (\<lambda>a b. \<bar>a - b\<bar>)"
  by (rule run_insertion_is_cheapest [THEN conjunct2, rule_format]) (simp_all add: abs_minus_commute)

section \<open>What taking visits out saves\<close>

lemma indexOf_append: "x \<notin> set xs \<Longrightarrow> indexOf x (xs @ x # ys) = Some (length xs)"
  by (induction xs) auto

lemma removalSaving_exact:
  assumes "stop \<notin> set xs"
  shows "pathMinutes (xs @ ys) cost + removalSaving (xs @ stop # ys) stop cost = pathMinutes (xs @ stop # ys) cost"
proof -
  consider "xs = []" "ys = []" | "xs = []" "ys \<noteq> []" | "xs \<noteq> []" "ys = []" | "xs \<noteq> []" "ys \<noteq> []" by blast
  then show ?thesis
  proof cases
    case 2
    then show ?thesis by (cases ys) (simp_all add: removalSaving_def)
  next
    case 3
    then show ?thesis
      using assms by (simp add: removalSaving_def indexOf_append pathMinutes_append nth_append last_conv_nth)
  next
    case 4
    then show ?thesis
      using assms pathMinutes_append [of xs "stop # ys" cost] pathMinutes_append [of "[stop]" ys cost] pathMinutes_append [of xs ys cost]
      by (simp add: removalSaving_def indexOf_append nth_append last_conv_nth hd_conv_nth)
  qed (simp add: removalSaving_def)
qed

lemma removalSaving_filter:
  assumes "distinct path" "stop \<in> set path"
  shows "pathMinutes (filter (\<lambda>other. other \<noteq> stop) path) cost + removalSaving path stop cost = pathMinutes path cost"
proof -
  from split_list [OF assms(2)] obtain xs ys where path: "path = xs @ stop # ys" by blast
  with assms(1) have "stop \<notin> set xs" "stop \<notin> set ys" by auto
  then have "filter (\<lambda>other. other \<noteq> stop) xs = xs" "filter (\<lambda>other. other \<noteq> stop) ys = ys"
    by (auto simp: filter_id_conv)
  then have "filter (\<lambda>other. other \<noteq> stop) path = xs @ ys" by (simp add: path)
  then show ?thesis using removalSaving_exact [OF \<open>stop \<notin> set xs\<close>] by (simp add: path)
qed

lemma runRemovalSaving_exact:
  assumes "run \<noteq> []"
  shows "pathMinutes (xs @ ys) cost + pathMinutes run cost + runRemovalSaving (xs @ run @ ys) (length xs) (length run) cost =
    pathMinutes (xs @ run @ ys) cost"
proof -
  consider "xs = []" "ys = []" | "xs = []" "ys \<noteq> []" | "xs \<noteq> []" "ys = []" | "xs \<noteq> []" "ys \<noteq> []" by blast
  then show ?thesis
  proof cases
    case 4
    have "\<not> length xs + length run - Suc 0 < length xs" using assms by (cases run) simp_all
    with 4 show ?thesis
      using assms pathMinutes_append [of xs "run @ ys" cost] pathMinutes_append [of run ys cost] pathMinutes_append [of xs ys cost]
      by (simp add: runRemovalSaving_def nth_append last_conv_nth hd_conv_nth)
  qed (use assms in \<open>simp_all add: runRemovalSaving_def pathMinutes_append nth_append last_conv_nth hd_conv_nth\<close>)
qed

text \<open>
  What a change of groups is credited with is what it saves: taking one visit, or a run of
  visits next to each other, out of a day's order makes the drive shorter by exactly the saving,
  the legs inside the run apart, which travel with it.
\<close>

theorem savings_are_exact:
  assumes "distinct path" "path = xs @ run @ ys" "run \<noteq> []" "stop \<in> set path"
  shows "pathMinutes (filter (\<lambda>other. other \<noteq> stop) path) cost = pathMinutes path cost - removalSaving path stop cost \<and>
    pathMinutes (xs @ ys) cost = pathMinutes path cost - pathMinutes run cost - runRemovalSaving path (length xs) (length run) cost"
  using removalSaving_filter [OF assms(1,4), of cost] runRemovalSaving_exact [OF assms(3), of xs ys cost]
  by (simp add: assms(2))

theorem savings_are_exact_witness:
  "pathMinutes (filter (\<lambda>other. other \<noteq> 30) [0, 30, 31, 5]) (\<lambda>a b. \<bar>a - b :: real\<bar>) =
    pathMinutes [0, 30, 31, 5] (\<lambda>a b. \<bar>a - b\<bar>) - removalSaving [0, 30, 31, 5] 30 (\<lambda>a b. \<bar>a - b\<bar>)"
  by (rule savings_are_exact [where xs = "[0]" and run = "[30, 31]" and ys = "[5]", THEN conjunct1]) simp_all


section \<open>A day filled around its appointments\<close>

lemma anchorIdOf_anchor [simp]: "anchorIdOf (anchorAsStop anchor) = Some (an_id anchor)"
  by (simp add: anchorIdOf_def anchorAsStop_def ANCHOR_STOP_PREFIX_def)

lemma anchorIdOf_anchors: "s \<in> set (map anchorAsStop anchors) \<Longrightarrow> anchorIdOf s \<noteq> None"
  by auto

definition filling_inv :: "day_limits \<Rightarrow> nat \<times> nat \<Rightarrow> stop list \<Rightarrow> int \<Rightarrow> stop list \<Rightarrow> filling \<Rightarrow> bool" where
  "filling_inv limits visits anchors onSite candidates f \<longleftrightarrow>
     mset (fi_path f) = mset anchors + mset (fi_visits f) \<and>
     mset (fi_visits f @ fi_left f) = mset (uniq candidates) \<and>
     fi_onSite f = onSite + sum_list (map onSiteMinutes (fi_visits f)) \<and>
     (fi_visits f \<noteq> [] \<longrightarrow> length (fi_visits f) \<le> snd visits \<and> fi_onSite f \<le> maxOnSiteMinutes limits)"

lemma take_visit_inv:
  assumes inv: "filling_inv limits visits anchors onSite candidates f"
    and best: "next_visit limits cost visits f = Some best"
  shows "filling_inv limits visits anchors onSite candidates (take_visit f best)"
proof -
  note found = next_visit_SomeD [OF best]
  have "maxOnSiteMinutes limits \<ge> fi_onSite f + onSiteMinutes (in_stop best)"
    using fill_offer_SomeD(2) [OF found(2)] .
  moreover have "mset (fi_left f) = add_mset (in_stop best) (mset (remove1 (in_stop best) (fi_left f)))"
    using found(1) by simp
  ultimately show ?thesis
    using inv found(3) by (simp add: filling_inv_def take_visit_def)
qed

lemma fill_loop_inv:
  "filling_inv limits visits anchors onSite candidates f \<Longrightarrow>
    filling_inv limits visits anchors onSite candidates (fill_loop limits cost visits f)"
proof (induction limits cost visits f rule: fill_loop.induct)
  case (1 limits cost visits f)
  then show ?case
    by (subst fill_loop.simps) (auto split: option.split intro: take_visit_inv)
qed

lemma filter_anchors:
  assumes "mset ordered = mset (map anchorAsStop anchors) + mset visits" "\<forall>s \<in> set visits. anchorIdOf s = None"
  shows "mset (filter (\<lambda>s. anchorIdOf s = None) ordered) = mset visits"
proof -
  have "filter (\<lambda>s. anchorIdOf s = None) (map anchorAsStop anchors) = []" by (simp add: filter_empty_conv)
  moreover have "filter (\<lambda>s. anchorIdOf s = None) visits = visits" using assms(2) by (simp add: filter_id_conv)
  moreover have "mset (filter (\<lambda>s. anchorIdOf s = None) ordered) =
      mset (filter (\<lambda>s. anchorIdOf s = None) (map anchorAsStop anchors)) + mset (filter (\<lambda>s. anchorIdOf s = None) visits)"
    unfolding mset_filter assms(1) by simp
  ultimately show ?thesis by simp
qed

lemma distinct_submset: "mset xs \<subseteq># mset ys \<Longrightarrow> distinct ys \<Longrightarrow> distinct xs"
  by (metis distinct_append mset_subset_eq_exists_conv ex_mset mset_append mset_eq_imp_distinct_iff)

lemma fillAroundAnchors_facts:
  assumes "\<forall>s \<in> set candidates. anchorIdOf s = None"
    and day_def: "day = fillAroundAnchors anchors candidates limits cost drive"
  shows "mset (fd_visits day) \<subseteq># mset (uniq candidates)"
    "fd_onSite day = sum_list (map an_onSiteMinutes anchors) + sum_list (map onSiteMinutes (fd_visits day))"
    "fd_visits day \<noteq> [] \<Longrightarrow> length (fd_visits day) \<le> snd (dayVisitRange limits (length anchors)) \<and>
      fd_onSite day \<le> maxOnSiteMinutes limits"
proof -
  define f where "f = fill_loop limits cost (dayVisitRange limits (length anchors))
    \<lparr>fi_path = pa_path (polished (map anchorAsStop anchors) (on_stops cost)),
     fi_onSite = sum_list (map an_onSiteMinutes anchors), fi_visits = [], fi_left = uniq candidates\<rparr>"
  have inv: "filling_inv limits (dayVisitRange limits (length anchors)) (map anchorAsStop anchors)
      (sum_list (map an_onSiteMinutes anchors)) candidates f"
    unfolding f_def by (rule fill_loop_inv) (simp add: filling_inv_def)
  then have "set (fi_visits f) \<subseteq> set candidates"
    unfolding filling_inv_def by (metis mset_eq_setD set_uniq set_append Un_upper1)
  then have none: "\<forall>s \<in> set (fi_visits f). anchorIdOf s = None" using assms(1) by blast
  have "mset (pa_path (polished (fi_path f) (on_stops cost))) = mset (map anchorAsStop anchors) + mset (fi_visits f)"
    using inv by (simp add: filling_inv_def)
  from filter_anchors [OF this none] have visits: "mset (fd_visits day) = mset (fi_visits f)"
    by (simp add: day_def fillAroundAnchors_def Let_def f_def)
  then have sums: "sum_list (map onSiteMinutes (fd_visits day)) = sum_list (map onSiteMinutes (fi_visits f))"
    "length (fd_visits day) = length (fi_visits f)" "fd_visits day = [] \<longleftrightarrow> fi_visits f = []"
    by (metis mset_map sum_mset_sum_list, metis mset_eq_length, metis mset_zero_iff)
  have onSite: "fd_onSite day = fi_onSite f" by (simp add: day_def fillAroundAnchors_def Let_def f_def)
  show "mset (fd_visits day) \<subseteq># mset (uniq candidates)"
    using inv unfolding visits filling_inv_def by (metis mset_append mset_subset_eq_add_left)
  show "fd_onSite day = sum_list (map an_onSiteMinutes anchors) + sum_list (map onSiteMinutes (fd_visits day))"
    using inv by (simp add: onSite sums filling_inv_def)
  show "fd_visits day \<noteq> [] \<Longrightarrow> length (fd_visits day) \<le> snd (dayVisitRange limits (length anchors)) \<and>
      fd_onSite day \<le> maxOnSiteMinutes limits"
    using inv by (simp add: onSite sums filling_inv_def)
qed

text \<open>
  A day built around its appointments keeps to what the day may hold. Its visits are some of
  those offered, none twice; its minutes on site are the appointments' and the visits' together;
  and if it holds any visit, it holds no more than the day's most less three for each appointment,
  and no more minutes than a day on site has.
\<close>

theorem anchored_day_holds:
  assumes "\<forall>s \<in> set candidates. \<not> starts_with ANCHOR_STOP_PREFIX (stopId s)"
    and "day = fillAroundAnchors anchors candidates limits cost drive"
  shows "set (fd_visits day) \<subseteq> set candidates \<and> distinct (fd_visits day) \<and>
    fd_onSite day = sum_list (map an_onSiteMinutes anchors) + sum_list (map onSiteMinutes (fd_visits day)) \<and>
    (fd_visits day = [] \<or>
     length (fd_visits day) \<le> min (maxStopsPerDay limits) MAX_STOPS_PER_DAY - 3 * length anchors \<and>
     fd_onSite day \<le> maxOnSiteMinutes limits)"
proof -
  have "\<forall>s \<in> set candidates. anchorIdOf s = None" using assms(1) by (simp add: anchorIdOf_def)
  note facts = fillAroundAnchors_facts [OF this, OF assms(2)]
  have "set (fd_visits day) \<subseteq> set candidates"
    using facts(1) by (metis set_mset_mono set_mset_mset set_uniq)
  moreover have "distinct (fd_visits day)"
    using facts(1) distinct_uniq [of candidates] by (rule distinct_submset)
  ultimately show ?thesis
    using facts(2,3) by (auto simp: dayVisitRange_def ANCHOR_VISITS_def Let_def)
qed

definition example_stop :: "string \<Rightarrow> real \<Rightarrow> int \<Rightarrow> stop" where
  "example_stop i x minutes =
     \<lparr>latitude = 0, longitude = x, stopId = i, sequence = 1, onSiteMinutes = minutes, inspectionType = ''BTP'',
      previousTechnicianId = None, zone = Some ''1'', month = None\<rparr>"

definition along_the_road :: drive where
  "along_the_road a b = \<bar>longitude a - longitude b\<bar>"

theorem anchored_day_holds_witness:
  "\<exists>day. day = fillAroundAnchors [] [example_stop ''a'' 0 20] DEFAULT_DAY_LIMITS along_the_road along_the_road \<and>
     set (fd_visits day) \<subseteq> {example_stop ''a'' 0 20} \<and> fd_onSite day = sum_list (map onSiteMinutes (fd_visits day))"
  using anchored_day_holds [of "[example_stop ''a'' 0 20]" _ "[]" DEFAULT_DAY_LIMITS along_the_road along_the_road, OF _ refl]
  by (simp add: example_stop_def ANCHOR_STOP_PREFIX_def)

end
