(* ===== verification/Day_Groups.thy ===== *)
theory Day_Groups
  imports Day_Paths "HOL-Library.AList"
begin

text \<open>
  \<open>shared/src/contracts/quarter-assignment.ts\<close>, the grouping of a quarter's visits into days:
  groups grown nearest first (\<open>grownGroups\<close>), improved together (\<open>improveGroups\<close>: moves, runs and
  swaps, groups dissolved, groups evened out), several groupings tried and the best kept
  (\<open>groupsOf\<close>, \<open>compactGroups\<close>).

  The source tells groups apart as objects; here a group is its place in the list of groups, which
  does not change while they are improved. \<open>improveGroups\<close> remembers the best order found for a
  set of visits, by the ids of the set sorted and joined (\<open>shortest\<close>): the answer depends on which
  order was asked about first, so the memory is part of the state. \<open>lc\<close> is \<open>localeCompare\<close>.
\<close>

section \<open>Draws\<close>

text \<open>The generator's state is its \<open>seed\<close>; a draw is \<open>seed / 2147483647\<close>.\<close>

definition next_seed :: "int \<Rightarrow> int" where
  "next_seed seed = (seed * 16807) mod 2147483647"

text \<open>\<open>Math.floor(draw() * Math.min(NEXT_VISIT_CHOICES, candidates.length))\<close>.\<close>

definition NEXT_VISIT_CHOICES :: nat where "NEXT_VISIT_CHOICES = 3"

definition draw_index :: "int \<Rightarrow> nat \<Rightarrow> nat" where
  "draw_index seed candidates = nat (seed * int (min NEXT_VISIT_CHOICES candidates) div 2147483647)"

section \<open>Groups\<close>

record group =
  gr_zone :: "string option"
  gr_path :: "stop list"
  gr_cost :: real
  gr_onSite :: int
  gr_preset :: "nat option"

record group_rules =
  ru_size :: nat
  ru_most :: nat
  ru_close :: real
  ru_limits :: day_limits
  ru_cost :: drive
  ru_drive :: drive
  ru_neighbourMinutes :: real
  ru_zoned :: bool
  ru_presetRoom :: "nat list option"

definition hasRoom :: "stop list \<Rightarrow> real \<Rightarrow> group_rules \<Rightarrow> bool \<Rightarrow> bool" where
  "hasRoom members added rules however =
     (if ru_most rules \<le> length members then False
      else length members < ru_size rules \<or> however \<or> added \<le> ru_close rules)"

definition hasRoomForRun :: "stop list \<Rightarrow> nat \<Rightarrow> real \<Rightarrow> group_rules \<Rightarrow> bool" where
  "hasRoomForRun members run added rules =
     (if ru_most rules < length members + run then False
      else length members + run \<le> ru_size rules \<or> added \<le> ru_close rules * of_nat run)"

definition belongs :: "stop \<Rightarrow> string option \<Rightarrow> stop list \<Rightarrow> group_rules \<Rightarrow> bool" where
  "belongs stop gzone path rules \<longleftrightarrow>
     \<not> ru_zoned rules \<or> gzone = None \<or> Some (zoneOf stop) = gzone \<or>
     (\<exists>other \<in> set path. other \<noteq> stop \<and> ru_drive rules (spot stop) (spot other) \<le> ru_neighbourMinutes rules)"

section \<open>Groups grown nearest first\<close>

datatype group_start = edge | loneliest

definition seed_score :: "group_rules \<Rightarrow> group_start \<Rightarrow> point \<Rightarrow> stop list \<Rightarrow> stop \<Rightarrow> real" where
  "seed_score rules start middle left stop =
     (let score = haversineMeters middle (spot stop)
      in if start = loneliest then
           let in_reach = length (filter (\<lambda>other. other \<noteq> stop \<and> \<not> overLong (ru_cost rules (spot stop) (spot other))) left)
           in score - of_nat (min in_reach (ru_size rules)) * 10 ^ 9
         else score)"

text \<open>The highest score, the first of those with it: the least of the negated scores.\<close>

definition seed_of :: "group_rules \<Rightarrow> group_start \<Rightarrow> point \<Rightarrow> stop list \<Rightarrow> stop option" where
  "seed_of rules start middle left =
     least_offer (\<lambda>stop. - seed_score rules start middle left stop) Some left"

definition by_real :: "real \<Rightarrow> real \<Rightarrow> int" where
  "by_real a b = (if a < b then - 1 else if a = b then 0 else 1)"

definition grow_offer :: "group_rules \<Rightarrow> group \<Rightarrow> stop \<Rightarrow> insertion option" where
  "grow_offer rules grp stop =
     (if maxOnSiteMinutes (ru_limits rules) < gr_onSite grp + onSiteMinutes stop \<or>
         \<not> belongs stop (gr_zone grp) (gr_path grp) rules then None
      else
        let (i, added) = cheapestInsertion (gr_path grp) stop (on_stops (ru_cost rules))
        in if \<not> overLong added \<and> hasRoom (gr_path grp) added rules False
           then Some \<lparr>in_stop = stop, in_at = i, in_added = added\<rparr> else None)"

definition grow_candidates :: "(string \<Rightarrow> string \<Rightarrow> int) \<Rightarrow> group_rules \<Rightarrow> group \<Rightarrow> stop list \<Rightarrow> insertion list" where
  "grow_candidates lc rules grp left =
     sort_cmp (then_cmp (on_key in_added by_real) (on_key (stopId \<circ> in_stop) lc))
       (List.map_filter (grow_offer rules grp) left)"

definition grow_by :: "group \<Rightarrow> insertion \<Rightarrow> group" where
  "grow_by grp taken =
     grp\<lparr>gr_path := insert_at (in_at taken) (in_stop taken) (gr_path grp),
       gr_cost := gr_cost grp + in_added taken,
       gr_onSite := gr_onSite grp + onSiteMinutes (in_stop taken)\<rparr>"

text \<open>The visit taken, and the seed after the draw, if this is a randomised try.\<close>

definition grow_choice :: "insertion list \<Rightarrow> int option \<Rightarrow> insertion \<times> int option" where
  "grow_choice candidates draw =
     (case draw of
        None \<Rightarrow> (candidates ! 0, None)
      | Some seed \<Rightarrow>
          let seed' = next_seed seed in (candidates ! draw_index seed' (length candidates), Some seed'))"

lemma draw_index_less: "0 < n \<Longrightarrow> draw_index (next_seed seed) n < n"
proof -
  assume n: "0 < n"
  define s k where "s = next_seed seed" and "k = int (min NEXT_VISIT_CHOICES n)"
  have s: "0 \<le> s" "s < 2147483647" by (simp_all add: s_def next_seed_def)
  have k: "0 < k" "k \<le> int n" using n by (simp_all add: k_def NEXT_VISIT_CHOICES_def)
  have "s * k < 2147483647 * k" using s k by simp
  then have "s * k div 2147483647 < k" by (simp add: div_less_iff_less_mult mult.commute)
  moreover have "0 \<le> s * k div 2147483647" using s k by (intro pos_imp_zdiv_nonneg_iff [THEN iffD2]) simp_all
  ultimately show ?thesis using k by (simp add: draw_index_def s_def [symmetric] k_def [symmetric] nat_less_iff)
qed

lemma grow_choice_member: "candidates \<noteq> [] \<Longrightarrow> fst (grow_choice candidates draw) \<in> set candidates"
  by (auto simp: grow_choice_def Let_def draw_index_less split: option.split)

lemma grow_offer_SomeD: "grow_offer rules grp stop = Some c \<Longrightarrow> in_stop c = stop"
  by (auto simp: grow_offer_def split: if_splits prod.splits)

lemma set_map_filter: "set (List.map_filter f xs) = {y. \<exists>x \<in> set xs. f x = Some y}"
  by (induction xs) (auto split: option.split)

lemma grow_candidates_member:
  "c \<in> set (grow_candidates lc rules grp left) \<Longrightarrow> in_stop c \<in> set left \<and> grow_offer rules grp (in_stop c) = Some c"
  using grow_offer_SomeD by (fastforce simp: grow_candidates_def set_map_filter)

function grow_group ::
  "(string \<Rightarrow> string \<Rightarrow> int) \<Rightarrow> group_rules \<Rightarrow> group \<Rightarrow> stop list \<Rightarrow> int option \<Rightarrow> group \<times> stop list \<times> int option" where
  "grow_group lc rules grp left draw =
     (let candidates = grow_candidates lc rules grp left
      in if \<not> length (gr_path grp) < ru_most rules \<or> candidates = [] then (grp, left, draw)
         else
           let taken = fst (grow_choice candidates draw)
           in grow_group lc rules (grow_by grp taken) (remove1 (in_stop taken) left) (snd (grow_choice candidates draw)))"
  by pat_completeness auto
termination
proof (relation "measure (\<lambda>(lc, rules, grp, left, draw). length left)", goal_cases)
  case (2 lc rules grp left draw candidates taken)
  then have "in_stop taken \<in> set left" using grow_choice_member grow_candidates_member by blast
  then show ?case using length_pos_if_in_set by (fastforce simp: length_remove1)
qed simp

declare grow_group.simps [simp del]

lemma grow_group_step:
  "grow_group lc rules grp left draw =
     (if \<not> length (gr_path grp) < ru_most rules \<or> grow_candidates lc rules grp left = [] then (grp, left, draw)
      else grow_group lc rules (grow_by grp (fst (grow_choice (grow_candidates lc rules grp left) draw)))
        (remove1 (in_stop (fst (grow_choice (grow_candidates lc rules grp left) draw))) left)
        (snd (grow_choice (grow_candidates lc rules grp left) draw)))"
  by (subst grow_group.simps) (simp add: Let_def)

lemma grow_group_length: "length (fst (snd (grow_group lc rules grp left draw))) \<le> length left"
proof (induction lc rules grp left draw rule: grow_group.induct)
  case (1 lc rules grp left draw)
  have less: "length (remove1 x left) \<le> length left" for x by (simp add: length_remove1)
  show ?case
    by (subst grow_group_step) (use 1 [OF refl _ refl] less in \<open>auto intro: order_trans\<close>)
qed

definition seeded_group :: "group_rules \<Rightarrow> stop \<Rightarrow> group" where
  "seeded_group rules seed =
     \<lparr>gr_zone = (if ru_zoned rules then Some (zoneOf seed) else None), gr_path = [seed], gr_cost = 0,
      gr_onSite = onSiteMinutes seed, gr_preset = None\<rparr>"

function grow_groups ::
  "(string \<Rightarrow> string \<Rightarrow> int) \<Rightarrow> group_rules \<Rightarrow> group_start \<Rightarrow> point \<Rightarrow> stop list \<Rightarrow> int option \<Rightarrow> group list \<times> int option" where
  "grow_groups lc rules start middle left draw =
     (case seed_of rules start middle left of
        None \<Rightarrow> ([], draw)
      | Some seed \<Rightarrow>
          let (grp, left', draw') = grow_group lc rules (seeded_group rules seed) (remove1 seed left) draw;
              (groups, draw'') = grow_groups lc rules start middle left' draw'
          in (grp # groups, draw''))"
  by pat_completeness auto
termination
proof (relation "measure (\<lambda>(lc, rules, start, middle, left, draw). length left)", goal_cases)
  case (2 lc rules start middle left draw seed x grp y left' draw')
  then have "seed \<in> set left" using least_offer_SomeD(1) by (fastforce simp: seed_of_def)
  moreover have "length left' \<le> length (remove1 seed left)"
    using grow_group_length [of lc rules "seeded_group rules seed" "remove1 seed left" draw] 2 by (metis fst_conv snd_conv)
  moreover have "0 < length left" using calculation(1) by (cases left) simp_all
  ultimately show ?case by (simp add: length_remove1) (cases left, simp_all)
qed simp

declare grow_groups.simps [simp del]

definition grownGroups ::
  "(string \<Rightarrow> string \<Rightarrow> int) \<Rightarrow> stop list \<Rightarrow> group_rules \<Rightarrow> group_start \<Rightarrow> int option \<Rightarrow> group list \<times> int option" where
  "grownGroups lc pool rules start draw = grow_groups lc rules start (middleOf (map spot pool)) (uniq pool) draw"


section \<open>The best order of a set of visits, remembered\<close>

definition SAVING_MINUTES :: real where "SAVING_MINUTES = 1 / 2"
definition MAX_IMPROVEMENT_ROUNDS :: nat where "MAX_IMPROVEMENT_ROUNDS = 2000"
definition CONFIRMED_PER_ROUND :: nat where "CONFIRMED_PER_ROUND = 25"
definition RUNS_MOVED :: "nat list" where "RUNS_MOVED = [2, 3]"
definition LEFTOVER_VISITS :: nat where "LEFTOVER_VISITS = 2"
definition EVENING_ROUNDS :: nat where "EVENING_ROUNDS = 3"
definition GROUPINGS_TRIED :: nat where "GROUPINGS_TRIED = 6"

fun js_join :: "string \<Rightarrow> string list \<Rightarrow> string" where
  "js_join sep [] = ''''"
| "js_join sep [s] = s"
| "js_join sep (s # ss) = s @ sep @ js_join sep ss"

definition order_key :: "stop list \<Rightarrow> string" where
  "order_key stops = js_join ''|'' (sort (map stopId stops))"

function nearest_first :: "('a \<Rightarrow> 'a \<Rightarrow> real) \<Rightarrow> 'a \<Rightarrow> 'a list \<Rightarrow> 'a list" where
  "nearest_first cost current left =
     (case least_offer (cost current) Some left of
        None \<Rightarrow> []
      | Some found \<Rightarrow> found # nearest_first cost found (remove1 found left))"
  by pat_completeness auto
termination
proof (relation "measure (\<lambda>(cost, current, left). length left)", goal_cases)
  case (2 cost current left found)
  then have "found \<in> set left" using least_offer_SomeD(1) by fastforce
  then show ?case using length_pos_if_in_set by (fastforce simp: length_remove1)
qed simp

declare nearest_first.simps [simp del]

definition try_first :: "('a \<Rightarrow> 'a \<Rightarrow> real) \<Rightarrow> 'a list \<Rightarrow> 'a path \<Rightarrow> 'a \<Rightarrow> 'a path" where
  "try_first cost stops found first =
     (let tried = polished (first # nearest_first cost first (uniq (filter (\<lambda>stop. stop \<noteq> first) stops))) cost
      in if pa_cost tried + 1 / 10 ^ 9 < pa_cost found then tried else found)"

definition best_order :: "('a \<Rightarrow> 'a \<Rightarrow> real) \<Rightarrow> 'a list \<Rightarrow> 'a path" where
  "best_order cost stops = foldl (try_first cost stops) \<lparr>pa_path = stops, pa_cost = pathMinutes stops cost\<rparr> stops"

type_synonym memory = "string \<Rightarrow> stop path option"

definition best :: "group_rules \<Rightarrow> stop list \<Rightarrow> memory \<Rightarrow> stop path \<times> memory" where
  "best rules stops shortest =
     (case shortest (order_key stops) of
        Some found \<Rightarrow> (found, shortest)
      | None \<Rightarrow>
          let found = best_order (on_stops (ru_cost rules)) stops in (found, shortest(order_key stops \<mapsto> found)))"

section \<open>Groups improved together\<close>

record board =
  bo_groups :: "group list"
  bo_shortest :: memory

abbreviation path_at :: "board \<Rightarrow> nat \<Rightarrow> stop list" where
  "path_at b i \<equiv> gr_path (bo_groups b ! i)"

definition set_group :: "group_rules \<Rightarrow> nat \<Rightarrow> stop list \<Rightarrow> board \<Rightarrow> board" where
  "set_group rules i stops b =
     (let (found, shortest) = best rules stops (bo_shortest b)
      in \<lparr>bo_groups = (bo_groups b)[i := (bo_groups b ! i)\<lparr>gr_path := pa_path found, gr_cost := pa_cost found,
            gr_onSite := sum_list (map onSiteMinutes stops)\<rparr>],
          bo_shortest = shortest\<rparr>)"

definition allows :: "group_rules \<Rightarrow> stop \<Rightarrow> group \<Rightarrow> bool" where
  "allows rules stop grp = belongs stop (gr_zone grp) (gr_path grp) rules"

definition room_for :: "group_rules \<Rightarrow> group \<Rightarrow> stop \<Rightarrow> real \<Rightarrow> bool" where
  "room_for rules grp stop added \<longleftrightarrow>
     hasRoom (gr_path grp) added rules False \<and> gr_onSite grp + onSiteMinutes stop \<le> maxOnSiteMinutes (ru_limits rules)"

datatype change = Move nat stop nat | Move_Run nat "stop list" nat | Swap nat stop nat stop

definition worth_trying :: "real \<Rightarrow> change \<Rightarrow> (real \<times> change) option" where
  "worth_trying estimate c = (if - SAVING_MINUTES \<le> estimate then None else Some (estimate, c))"

definition move_offer :: "group_rules \<Rightarrow> group list \<Rightarrow> nat \<Rightarrow> stop \<Rightarrow> nat \<Rightarrow> (real \<times> change) option" where
  "move_offer rules gs i stop j =
     (let cost = on_stops (ru_cost rules); source = gs ! i; dest = gs ! j
      in if j = i \<or> gr_path dest = [] \<or> \<not> allows rules stop dest then None
         else
           let added = snd (cheapestInsertion (gr_path dest) stop cost)
           in if \<not> room_for rules dest stop added then None
              else worth_trying (added - removalSaving (gr_path source) stop cost) (Move i stop j))"

definition moves :: "group_rules \<Rightarrow> group list \<Rightarrow> (real \<times> change) list" where
  "moves rules gs =
     concat (map (\<lambda>i.
       if length (gr_path (gs ! i)) \<le> 1 then []
       else concat (map (\<lambda>stop. List.map_filter (move_offer rules gs i stop) [0..<length gs]) (gr_path (gs ! i))))
       [0..<length gs])"

definition run_offer :: "group_rules \<Rightarrow> group list \<Rightarrow> nat \<Rightarrow> nat \<Rightarrow> nat \<Rightarrow> nat \<Rightarrow> (real \<times> change) option" where
  "run_offer rules gs i n k j =
     (let cost = on_stops (ru_cost rules); source = gs ! i; dest = gs ! j;
          run = slice k (k + n) (gr_path source);
          runOnSite = sum_list (map onSiteMinutes run)
      in if j = i \<or> gr_path dest = [] \<or> maxOnSiteMinutes (ru_limits rules) < gr_onSite dest + runOnSite \<or>
            \<not> (\<forall>stop \<in> set run. allows rules stop dest) then None
         else
           let added = cheapestRunInsertion (gr_path dest) run cost
           in if \<not> hasRoomForRun (gr_path dest) n added rules then None
              else worth_trying (added - runRemovalSaving (gr_path source) k n cost) (Move_Run i run j))"

definition run_moves :: "group_rules \<Rightarrow> group list \<Rightarrow> (real \<times> change) list" where
  "run_moves rules gs =
     concat (map (\<lambda>i. concat (map (\<lambda>n.
       if length (gr_path (gs ! i)) \<le> n then []
       else concat (map (\<lambda>k. List.map_filter (run_offer rules gs i n k) [0..<length gs])
              [0..<length (gr_path (gs ! i)) - n + 1])) RUNS_MOVED))
       [0..<length gs])"

definition swap_offer :: "group_rules \<Rightarrow> group list \<Rightarrow> nat \<Rightarrow> nat \<Rightarrow> stop \<Rightarrow> stop \<Rightarrow> (real \<times> change) option" where
  "swap_offer rules gs i j one other =
     (let cost = on_stops (ru_cost rules); most = maxOnSiteMinutes (ru_limits rules);
          left = gs ! i; right = gs ! j;
          outOfLeft = removalSaving (gr_path left) one cost;
          intoRight = snd (cheapestInsertion (gr_path right) one cost)
      in if \<not> allows rules other left \<or>
            most < gr_onSite left - onSiteMinutes one + onSiteMinutes other \<or>
            most < gr_onSite right - onSiteMinutes other + onSiteMinutes one then None
         else worth_trying (intoRight - outOfLeft + snd (cheapestInsertion (gr_path left) other cost)
                - removalSaving (gr_path right) other cost) (Swap i one j other))"

definition swaps :: "group_rules \<Rightarrow> group list \<Rightarrow> (real \<times> change) list" where
  "swaps rules gs =
     concat (map (\<lambda>i. concat (map (\<lambda>j.
       if gr_path (gs ! i) = [] \<or> gr_path (gs ! j) = [] then []
       else concat (map (\<lambda>one.
              if \<not> allows rules one (gs ! j) then []
              else List.map_filter (swap_offer rules gs i j one) (gr_path (gs ! j))) (gr_path (gs ! i))))
       [i + 1..<length gs])) [0..<length gs])"

text \<open>The two groups ordered again: whether that is enough of a saving.\<close>

definition confirmed :: "group_rules \<Rightarrow> nat \<Rightarrow> stop list \<Rightarrow> nat \<Rightarrow> stop list \<Rightarrow> board \<Rightarrow> bool \<times> board" where
  "confirmed rules i one j other b =
     (let (p, shortest) = best rules one (bo_shortest b);
          (q, shortest') = best rules other shortest
      in (\<not> gr_cost (bo_groups b ! i) + gr_cost (bo_groups b ! j) \<le> pa_cost p + pa_cost q + SAVING_MINUTES,
          b\<lparr>bo_shortest := shortest'\<rparr>))"

fun apply_change :: "group_rules \<Rightarrow> change \<Rightarrow> board \<Rightarrow> bool \<times> board" where
  "apply_change rules (Move i stop j) b =
     (let rest = filter (\<lambda>other. other \<noteq> stop) (path_at b i);
          more = path_at b j @ [stop];
          (ok, b') = confirmed rules i rest j more b
      in if ok then (True, set_group rules i rest (set_group rules j more b')) else (False, b'))"
| "apply_change rules (Move_Run i run j) b =
     (let rest = filter (\<lambda>stop. stop \<notin> set run) (path_at b i);
          more = path_at b j @ run;
          (ok, b') = confirmed rules i rest j more b
      in if ok then (True, set_group rules i rest (set_group rules j more b')) else (False, b'))"
| "apply_change rules (Swap i one j other) b =
     (let nextLeft = filter (\<lambda>stop. stop \<noteq> one) (path_at b i) @ [other];
          nextRight = filter (\<lambda>stop. stop \<noteq> other) (path_at b j) @ [one];
          (ok, b') = confirmed rules i nextLeft j nextRight b
      in if ok then (True, set_group rules j nextRight (set_group rules i nextLeft b')) else (False, b'))"

fun try_changes :: "group_rules \<Rightarrow> (real \<times> change) list \<Rightarrow> board \<Rightarrow> bool \<times> board" where
  "try_changes rules [] b = (False, b)"
| "try_changes rules (c # cs) b =
     (let (ok, b') = apply_change rules (snd c) b in if ok then (True, b') else try_changes rules cs b')"

definition changes :: "group_rules \<Rightarrow> group list \<Rightarrow> (real \<times> change) list" where
  "changes rules gs = sort_key fst (moves rules gs @ run_moves rules gs @ swaps rules gs)"

fun search_rounds :: "group_rules \<Rightarrow> nat \<Rightarrow> board \<Rightarrow> board" where
  "search_rounds rules 0 b = b"
| "search_rounds rules (Suc rounds) b =
     (let (ok, b') = try_changes rules (take CONFIRMED_PER_ROUND (changes rules (bo_groups b))) b
      in if ok then search_rounds rules rounds b' else b')"

definition search :: "group_rules \<Rightarrow> board \<Rightarrow> board" where
  "search rules b = search_rounds rules MAX_IMPROVEMENT_ROUNDS b"


subsection \<open>Short groups shared out\<close>

record target =
  tg_group :: nat
  tg_members :: "stop list"
  tg_added :: real

type_synonym joined = "(nat \<times> stop list) list"

definition members_of :: "group list \<Rightarrow> joined \<Rightarrow> nat \<Rightarrow> stop list" where
  "members_of gs joined j = (case map_of joined j of None \<Rightarrow> gr_path (gs ! j) | Some members \<Rightarrow> members)"

definition try_target ::
  "group_rules \<Rightarrow> group list \<Rightarrow> nat \<Rightarrow> bool \<Rightarrow> bool \<Rightarrow> joined \<Rightarrow> stop \<Rightarrow> target option \<times> memory \<Rightarrow> nat \<Rightarrow> target option \<times> memory"
  where
  "try_target rules gs short anyZone however joined stop st j =
     (let cost = on_stops (ru_cost rules); (target, shortest) = st; members = members_of gs joined j
      in if j = short \<or> gr_path (gs ! j) = [] then st
         else if maxOnSiteMinutes (ru_limits rules) < sum_list (map onSiteMinutes members) + onSiteMinutes stop then st
         else if \<not> anyZone \<and> \<not> belongs stop (gr_zone (gs ! j)) members rules then st
         else if \<not> (\<exists>member \<in> set members. \<not> overLong (cost stop member)) then st
         else
           let (more, shortest') = best rules (members @ [stop]) shortest;
               (now, shortest'') = best rules members shortest';
               added = pa_cost more - pa_cost now
           in (keep_least tg_added target
                 (if \<not> hasRoom members added rules however \<or> overLong added then None
                  else Some \<lparr>tg_group = j, tg_members = members @ [stop], tg_added = added\<rparr>),
               shortest''))"

fun share_out ::
  "group_rules \<Rightarrow> group list \<Rightarrow> nat \<Rightarrow> bool \<Rightarrow> bool \<Rightarrow> stop list \<Rightarrow> joined \<Rightarrow> memory \<Rightarrow> joined option \<times> memory" where
  "share_out rules gs short anyZone however [] joined shortest = (Some joined, shortest)"
| "share_out rules gs short anyZone however (stop # stops) joined shortest =
     (let (target, shortest') = foldl (try_target rules gs short anyZone however joined stop) (None, shortest) [0..<length gs]
      in case target of
           None \<Rightarrow> (None, shortest')
         | Some t \<Rightarrow>
             share_out rules gs short anyZone however stops (AList.update (tg_group t) (tg_members t) joined) shortest')"

definition sharedOut :: "group_rules \<Rightarrow> nat \<Rightarrow> bool \<Rightarrow> bool \<Rightarrow> board \<Rightarrow> joined option \<times> board" where
  "sharedOut rules short anyZone however b =
     (let (joined, shortest) = share_out rules (bo_groups b) short anyZone however (path_at b short) [] (bo_shortest b)
      in (joined, b\<lparr>bo_shortest := shortest\<rparr>))"

definition dissolve_one :: "group_rules \<Rightarrow> nat \<Rightarrow> bool \<Rightarrow> bool \<Rightarrow> board \<Rightarrow> nat \<Rightarrow> board" where
  "dissolve_one rules largest anyZone however b short =
     (if path_at b short = [] \<or> largest < length (path_at b short) then b
      else
        let (joined, b') = sharedOut rules short anyZone however b
        in case joined of
             None \<Rightarrow> b'
           | Some groups \<Rightarrow> set_group rules short [] (foldl (\<lambda>b (j, members). set_group rules j members b) b' groups))"

definition dissolve :: "group_rules \<Rightarrow> nat \<Rightarrow> bool \<Rightarrow> bool \<Rightarrow> board \<Rightarrow> board" where
  "dissolve rules largest anyZone however b =
     foldl (dissolve_one rules largest anyZone however) b
       (sort_key (\<lambda>i. length (path_at b i)) (filter (\<lambda>i. length (path_at b i) \<le> largest) [0..<length (bo_groups b)]))"

subsection \<open>Groups evened out\<close>

record taking =
  tk_from :: nat
  tk_stop :: stop
  tk_estimate :: real

definition taking_offer :: "group_rules \<Rightarrow> group list \<Rightarrow> nat \<Rightarrow> nat \<times> stop \<Rightarrow> taking option" where
  "taking_offer rules gs into c =
     (let cost = on_stops (ru_cost rules); (i, stop) = c;
          added = snd (cheapestInsertion (gr_path (gs ! into)) stop cost)
      in if \<not> allows rules stop (gs ! into) \<or>
            maxOnSiteMinutes (ru_limits rules) < gr_onSite (gs ! into) + onSiteMinutes stop \<or> overLong added then None
         else Some \<lparr>tk_from = i, tk_stop = stop, tk_estimate = added - removalSaving (gr_path (gs ! i)) stop cost\<rparr>)"

definition takings :: "group_rules \<Rightarrow> group list \<Rightarrow> nat \<Rightarrow> (nat \<times> stop) list" where
  "takings rules gs into =
     concat (map (\<lambda>i.
       if i = into \<or> length (gr_path (gs ! i)) \<le> ru_size rules \<or> length (gr_path (gs ! i)) \<le> length (gr_path (gs ! into)) + 1
       then [] else map (Pair i) (gr_path (gs ! i))) [0..<length gs])"

definition fill_group :: "group_rules \<Rightarrow> nat \<Rightarrow> board \<Rightarrow> board option" where
  "fill_group rules into b =
     (case least_offer tk_estimate (taking_offer rules (bo_groups b) into) (takings rules (bo_groups b) into) of
        None \<Rightarrow> None
      | Some t \<Rightarrow>
          let b' = set_group rules into (path_at b into @ [tk_stop t]) b
          in Some (set_group rules (tk_from t) (filter (\<lambda>other. other \<noteq> tk_stop t) (path_at b' (tk_from t))) b'))"

text \<open>
  \<open>while (group.path.length < size && fill(group)) moved = true\<close>: every turn leaves the group one
  visit longer, so \<open>size\<close> turns are enough (\<open>fill_up_done\<close> below).
\<close>

fun fill_up :: "group_rules \<Rightarrow> nat \<Rightarrow> nat \<Rightarrow> board \<Rightarrow> bool \<times> board" where
  "fill_up rules into 0 b = (False, b)"
| "fill_up rules into (Suc turns) b =
     (if length (path_at b into) < ru_size rules then
        case fill_group rules into b of
          None \<Rightarrow> (False, b)
        | Some b' \<Rightarrow> (True, snd (fill_up rules into turns b'))
      else (False, b))"

definition even_one :: "group_rules \<Rightarrow> bool \<times> board \<Rightarrow> nat \<Rightarrow> bool \<times> board" where
  "even_one rules st i =
     (let (moved, b) = st; (moved', b') = fill_up rules i (ru_size rules) b in (moved \<or> moved', b'))"

definition short_groups :: "group_rules \<Rightarrow> board \<Rightarrow> nat list" where
  "short_groups rules b =
     sort_key (\<lambda>i. length (path_at b i))
       (filter (\<lambda>i. 0 < length (path_at b i) \<and> length (path_at b i) < ru_size rules) [0..<length (bo_groups b)])"

fun even_rounds :: "group_rules \<Rightarrow> nat \<Rightarrow> board \<Rightarrow> board" where
  "even_rounds rules 0 b = b"
| "even_rounds rules (Suc rounds) b =
     (let short = short_groups rules b
      in if short = [] then b
         else
           let (moved, b') = foldl (even_one rules) (False, b) short
           in if moved then even_rounds rules rounds b' else b')"

definition evenOut :: "group_rules \<Rightarrow> board \<Rightarrow> board" where
  "evenOut rules b = even_rounds rules EVENING_ROUNDS b"

section \<open>The planner's groups\<close>

definition improveGroups :: "group list \<Rightarrow> group_rules \<Rightarrow> group list" where
  "improveGroups groups rules =
     (let b = foldl (\<lambda>b i. set_group rules i (path_at b i) b) \<lparr>bo_groups = groups, bo_shortest = Map.empty\<rparr> [0..<length groups];
          b = search rules b;
          b = dissolve rules (ru_size rules - 1) False True b;
          b = dissolve rules LEFTOVER_VISITS True True b;
          b = search rules b;
          b = evenOut rules b
      in filter (\<lambda>grp. gr_path grp \<noteq> []) (bo_groups b))"

record grouping =
  gp_groups :: "group list"
  gp_cost :: real

definition better_grouping :: "grouping option \<Rightarrow> grouping \<Rightarrow> bool" where
  "better_grouping chosen g \<longleftrightarrow>
     (case chosen of None \<Rightarrow> True
      | Some c \<Rightarrow>
          length (gp_groups g) < length (gp_groups c) \<or>
          length (gp_groups g) = length (gp_groups c) \<and> gp_cost g < gp_cost c - 1 / 10 ^ 9)"

definition try_grouping ::
  "(string \<Rightarrow> string \<Rightarrow> int) \<Rightarrow> stop list \<Rightarrow> group_rules \<Rightarrow> grouping option \<times> int \<Rightarrow> nat \<Rightarrow> grouping option \<times> int" where
  "try_grouping lc pool rules st n =
     (let (chosen, seed) = st;
          (grown, draw) = grownGroups lc pool rules (if even n then edge else loneliest) (if n < 2 then None else Some seed);
          groups = improveGroups grown rules;
          g = \<lparr>gp_groups = groups, gp_cost = sum_list (map gr_cost groups)\<rparr>
      in (if better_grouping chosen g then Some g else chosen, case draw of None \<Rightarrow> seed | Some seed' \<Rightarrow> seed'))"

definition groupsOf :: "(string \<Rightarrow> string \<Rightarrow> int) \<Rightarrow> stop list \<Rightarrow> group_rules \<Rightarrow> group list" where
  "groupsOf lc pool rules =
     (if pool = [] then []
      else case fst (foldl (try_grouping lc pool rules) (None, 1) [0..<GROUPINGS_TRIED]) of
             None \<Rightarrow> [] | Some g \<Rightarrow> gp_groups g)"

definition plain_rules :: "day_limits \<Rightarrow> drive \<Rightarrow> group_rules" where
  "plain_rules limits drive =
     \<lparr>ru_size = fst (dayVisitRange limits 0), ru_most = snd (dayVisitRange limits 0), ru_close = close_of limits,
      ru_limits = limits, ru_cost = pricedLegs drive (max_leg_of limits), ru_drive = drive,
      ru_neighbourMinutes = NEIGHBOUR_MINUTES, ru_zoned = False, ru_presetRoom = None\<rparr>"

definition compactGroups :: "(string \<Rightarrow> string \<Rightarrow> int) \<Rightarrow> stop list \<Rightarrow> day_limits option \<Rightarrow> drive option \<Rightarrow> stop list list" where
  "compactGroups lc stops limits driveMinutes =
     (let limits = (case limits of None \<Rightarrow> DEFAULT_DAY_LIMITS | Some l \<Rightarrow> l);
          rules = plain_rules limits (case driveMinutes of None \<Rightarrow> estimatedDriveMinutes | Some d \<Rightarrow> d);
          fits = filter (\<lambda>stop. onSiteMinutes stop \<le> maxOnSiteMinutes limits) stops;
          alone = filter (\<lambda>stop. maxOnSiteMinutes limits < onSiteMinutes stop) stops
      in sort_key (\<lambda>path. - metresFromDowntown (map spot path))
           (map gr_path (groupsOf lc fits rules) @ map (\<lambda>stop. [stop]) alone))"

end
