(* ===== verification/Day_Groups_Correct.thy ===== *)
theory Day_Groups_Correct
  imports Day_Groups
begin

text \<open>
  What the grouping keeps: every visit in exactly one group, the cost and the minutes of each group
  those of its path, no group past the visits and the minutes a day may hold. First the orders of
  one set of visits and the memory of them, then the groups as they are grown, then each way they
  are improved.
\<close>

section \<open>Orders and their memory\<close>

lemma nearest_first_mset [simp]: "mset (nearest_first cost current left) = mset left"
proof (induction cost current left rule: nearest_first.induct)
  case (1 cost current left)
  show ?case
  proof (cases "least_offer (cost current) Some left")
    case None
    then have "left = []" by (cases left) (auto simp: least_offer_None)
    with None show ?thesis by (subst nearest_first.simps) simp
  next
    case (Some found)
    then have "found \<in> set left" using least_offer_SomeD(1) by fastforce
    with Some 1 [OF Some] show ?thesis by (subst nearest_first.simps) simp
  qed
qed

lemma mset_filter_out: "distinct xs \<Longrightarrow> x \<in> set xs \<Longrightarrow> add_mset x (mset (filter (\<lambda>y. y \<noteq> x) xs)) = mset xs"
proof (induction xs)
  case (Cons a xs)
  have "filter (\<lambda>y. y \<noteq> a) xs = xs" using Cons.prems(1) by (auto simp: filter_id_conv)
  with Cons show ?case by (cases "a = x") (auto simp: add_mset_commute)
qed simp

lemma try_first_facts:
  assumes "mset (pa_path p) = mset stops" "pa_cost p = pathMinutes (pa_path p) cost" "first \<in> set stops" "distinct stops"
  shows "mset (pa_path (try_first cost stops p first)) = mset stops \<and>
    pa_cost (try_first cost stops p first) = pathMinutes (pa_path (try_first cost stops p first)) cost \<and>
    pa_cost (try_first cost stops p first) \<le> pa_cost p"
proof -
  have "mset (first # nearest_first cost first (uniq (filter (\<lambda>stop. stop \<noteq> first) stops))) = mset stops"
    using mset_filter_out [OF assms(4,3)] assms(4) by simp
  with assms(1,2) show ?thesis by (simp add: try_first_def Let_def polished_cost)
qed

lemma best_order_facts:
  assumes "distinct stops"
  shows "mset (pa_path (best_order cost stops)) = mset stops \<and>
    pa_cost (best_order cost stops) = pathMinutes (pa_path (best_order cost stops)) cost \<and>
    pa_cost (best_order cost stops) \<le> pathMinutes stops cost"
proof -
  have "mset (pa_path p) = mset stops \<Longrightarrow> pa_cost p = pathMinutes (pa_path p) cost \<Longrightarrow> set firsts \<subseteq> set stops \<Longrightarrow>
      mset (pa_path (foldl (try_first cost stops) p firsts)) = mset stops \<and>
      pa_cost (foldl (try_first cost stops) p firsts) = pathMinutes (pa_path (foldl (try_first cost stops) p firsts)) cost \<and>
      pa_cost (foldl (try_first cost stops) p firsts) \<le> pa_cost p" for p firsts
  proof (induction firsts arbitrary: p)
    case (Cons first firsts)
    then have "first \<in> set stops" by simp
    note step = try_first_facts [OF Cons.prems(1,2) this assms]
    from Cons.IH [of "try_first cost stops p first"] step Cons.prems(3) show ?case by auto
  qed simp
  from this [of "\<lparr>pa_path = stops, pa_cost = pathMinutes stops cost\<rparr>" stops] show ?thesis
    by (simp add: best_order_def)
qed

text \<open>
  Visits that can be told apart by id, whose ids do not run together when joined, and that take
  no negative time.
\<close>

definition proper_stops :: "stop list \<Rightarrow> bool" where
  "proper_stops stops \<longleftrightarrow>
     distinct (map stopId stops) \<and> (\<forall>s \<in> set stops. stopId s \<noteq> '''' \<and> CHR ''|'' \<notin> set (stopId s) \<and> 0 \<le> onSiteMinutes s)"

lemma proper_stops_distinct: "proper_stops stops \<Longrightarrow> distinct stops"
  by (simp add: proper_stops_def distinct_map)

lemma js_join_Cons: "ss \<noteq> [] \<Longrightarrow> js_join sep (s # ss) = s @ sep @ js_join sep ss"
  by (cases ss) simp_all

lemma js_join_inject:
  assumes "\<forall>s \<in> set ss. s \<noteq> [] \<and> c \<notin> set s" "\<forall>t \<in> set ts. t \<noteq> [] \<and> c \<notin> set t"
    and "js_join [c] ss = js_join [c] ts"
  shows "ss = ts"
  using assms
proof (induction ss arbitrary: ts)
  case Nil
  then show ?case by (cases ts; cases "tl ts") auto
next
  case (Cons s ss)
  have split: "takeWhile (\<lambda>x. x \<noteq> c) (js_join [c] (u # us)) = u \<and>
      dropWhile (\<lambda>x. x \<noteq> c) (js_join [c] (u # us)) = (if us = [] then [] else c # js_join [c] us)"
    if "c \<notin> set u" for u us
  proof (cases us)
    case Nil
    have "takeWhile (\<lambda>x. x \<noteq> c) u = u" "dropWhile (\<lambda>x. x \<noteq> c) u = []"
      using that by (auto simp: takeWhile_eq_all_conv dropWhile_eq_Nil_conv)
    then show ?thesis by (simp add: Nil)
  next
    case (Cons v vs)
    have "\<And>x. x \<in> set u \<Longrightarrow> x \<noteq> c" using that by auto
    then show ?thesis
      by (simp add: Cons takeWhile_append2 dropWhile_append2)
  qed
  from Cons.prems obtain t us where ts: "ts = t # us"
    by (cases ts) (auto, cases ss, auto)
  have "c \<notin> set s" "c \<notin> set t" using Cons.prems ts by auto
  note this [THEN split]
  from this [of ss] this(2) [of us] Cons.prems(3) have "s = t" and rest:
    "(if ss = [] then [] else c # js_join [c] ss) = (if us = [] then [] else c # js_join [c] us)"
    unfolding ts by auto
  have "ss = us"
  proof (cases "ss = [] \<or> us = []")
    case True
    with rest show ?thesis by (auto split: if_splits)
  next
    case False
    with rest show ?thesis using Cons.IH [of us] Cons.prems(1,2) ts by auto
  qed
  with \<open>s = t\<close> ts show ?case by simp
qed

lemma order_key_inject:
  assumes u: "proper_stops u" and xs: "distinct xs" "set xs \<subseteq> set u" and ys: "distinct ys" "set ys \<subseteq> set u"
    and key: "order_key xs = order_key ys"
  shows "mset xs = mset ys"
proof -
  have "sort (map stopId xs) = sort (map stopId ys)"
    by (rule js_join_inject [OF _ _ key [unfolded order_key_def]]) (use u xs ys in \<open>auto simp: proper_stops_def\<close>)
  then have "stopId ` set xs = stopId ` set ys" by (metis set_sort set_map)
  moreover have "inj_on stopId (set u)" using u by (simp add: proper_stops_def distinct_map)
  ultimately have "set xs = set ys" using xs(2) ys(2) by (metis inj_on_image_eq_iff)
  with xs(1) ys(1) show ?thesis by (simp add: set_eq_iff_mset_eq_distinct)
qed

definition sound_memory :: "group_rules \<Rightarrow> stop list \<Rightarrow> memory \<Rightarrow> bool" where
  "sound_memory rules u m \<longleftrightarrow>
     (\<forall>stops found. distinct stops \<longrightarrow> set stops \<subseteq> set u \<longrightarrow> m (order_key stops) = Some found \<longrightarrow>
       mset (pa_path found) = mset stops \<and> pa_cost found = pathMinutes (pa_path found) (on_stops (ru_cost rules)))"

lemma sound_memory_empty [simp]: "sound_memory rules u Map.empty"
  by (simp add: sound_memory_def)

lemma best_facts:
  assumes "proper_stops u" "sound_memory rules u m" "distinct stops" "set stops \<subseteq> set u"
  shows "mset (pa_path (fst (best rules stops m))) = mset stops"
    "pa_cost (fst (best rules stops m)) = pathMinutes (pa_path (fst (best rules stops m))) (on_stops (ru_cost rules))"
    "sound_memory rules u (snd (best rules stops m))"
proof -
  note order = best_order_facts [OF assms(3), of "on_stops (ru_cost rules)"]
  show "mset (pa_path (fst (best rules stops m))) = mset stops"
    "pa_cost (fst (best rules stops m)) = pathMinutes (pa_path (fst (best rules stops m))) (on_stops (ru_cost rules))"
    using assms(2-4) order by (auto simp: best_def sound_memory_def Let_def split: option.split)
  have "mset (pa_path (best_order (on_stops (ru_cost rules)) stops)) = mset xs"
    if "distinct xs" "set xs \<subseteq> set u" "order_key xs = order_key stops" for xs
    using order order_key_inject [OF assms(1) that(1,2) assms(3,4) that(3)] by simp
  with assms(2) order show "sound_memory rules u (snd (best rules stops m))"
    by (auto simp: best_def sound_memory_def Let_def split: option.split)
qed


section \<open>What a group is and what a list of groups holds\<close>

definition tidy :: "group_rules \<Rightarrow> group \<Rightarrow> bool" where
  "tidy rules grp \<longleftrightarrow>
     gr_cost grp = pathMinutes (gr_path grp) (on_stops (ru_cost rules)) \<and>
     gr_onSite grp = sum_list (map onSiteMinutes (gr_path grp)) \<and>
     length (gr_path grp) \<le> ru_most rules \<and>
     gr_onSite grp \<le> maxOnSiteMinutes (ru_limits rules)"

definition visits_of :: "group list \<Rightarrow> stop multiset" where
  "visits_of gs = (\<Sum>i<length gs. mset (gr_path (gs ! i)))"

lemma visits_of_simps [simp]: "visits_of [] = {#}" "visits_of (grp # gs) = mset (gr_path grp) + visits_of gs"
  by (simp_all add: visits_of_def sum.lessThan_Suc_shift del: sum.lessThan_Suc)

lemma visits_of_append [simp]: "visits_of (gs @ hs) = visits_of gs + visits_of hs"
  by (induction gs) (simp_all add: add.assoc)

lemma visits_of_concat: "visits_of gs = mset (concat (map gr_path gs))"
  by (induction gs) simp_all

lemma visits_of_nonempty: "visits_of (filter (\<lambda>grp. gr_path grp \<noteq> []) gs) = visits_of gs"
  by (induction gs) simp_all

lemma visits_of_change:
  assumes "length hs = length gs" "i < length gs" "\<And>k. k < length gs \<Longrightarrow> k \<noteq> i \<Longrightarrow> mset (gr_path (hs ! k)) = mset (gr_path (gs ! k))"
  shows "visits_of hs + mset (gr_path (gs ! i)) = visits_of gs + mset (gr_path (hs ! i))"
proof -
  have "visits_of gs = mset (gr_path (gs ! i)) + (\<Sum>k \<in> {..<length gs} - {i}. mset (gr_path (gs ! k)))"
    "visits_of hs = mset (gr_path (hs ! i)) + (\<Sum>k \<in> {..<length gs} - {i}. mset (gr_path (hs ! k)))"
    using assms(1,2) by (simp_all add: visits_of_def sum.remove)
  moreover have "(\<Sum>k \<in> {..<length gs} - {i}. mset (gr_path (gs ! k))) = (\<Sum>k \<in> {..<length gs} - {i}. mset (gr_path (hs ! k)))"
    using assms(3) by (intro sum.cong) auto
  ultimately show ?thesis by (simp add: ac_simps)
qed

lemma visits_of_exchange:
  assumes "length hs = length gs" "i < length gs" "j < length gs" "i \<noteq> j"
    and "\<And>k. k < length gs \<Longrightarrow> k \<noteq> i \<Longrightarrow> k \<noteq> j \<Longrightarrow> mset (gr_path (hs ! k)) = mset (gr_path (gs ! k))"
    and "mset (gr_path (hs ! i)) + mset (gr_path (hs ! j)) = mset (gr_path (gs ! i)) + mset (gr_path (gs ! j))"
  shows "visits_of hs = visits_of gs"
proof -
  have split: "visits_of fs = mset (gr_path (fs ! i)) + mset (gr_path (fs ! j)) +
      (\<Sum>k \<in> {..<length gs} - {i} - {j}. mset (gr_path (fs ! k)))" if "length fs = length gs" for fs
    using that assms(2-4) by (simp add: visits_of_def sum.remove [of _ i] sum.remove [of _ j] add.assoc)
  have "(\<Sum>k \<in> {..<length gs} - {i} - {j}. mset (gr_path (gs ! k))) = (\<Sum>k \<in> {..<length gs} - {i} - {j}. mset (gr_path (hs ! k)))"
    using assms(5) by (intro sum.cong) auto
  with split [of gs] split [of hs] assms(1,6) show ?thesis by simp
qed

lemma path_in_visits: "i < length gs \<Longrightarrow> mset (gr_path (gs ! i)) \<subseteq># visits_of gs"
  by (simp add: visits_of_def sum.remove [of _ i])

lemma two_paths_in_visits:
  "i < length gs \<Longrightarrow> j < length gs \<Longrightarrow> i \<noteq> j \<Longrightarrow> mset (gr_path (gs ! i) @ gr_path (gs ! j)) \<subseteq># visits_of gs"
  by (simp add: visits_of_def sum.remove [of _ i] sum.remove [of _ j] add.assoc [symmetric])

lemma submset_distinct: "mset xs \<subseteq># m \<Longrightarrow> m = mset u \<Longrightarrow> distinct u \<Longrightarrow> distinct xs \<and> set xs \<subseteq> set u"
  by (metis distinct_submset set_mset_mono set_mset_mset)

section \<open>Groups as they are grown\<close>

lemma cheapestInsertion_insert:
  "pathMinutes (insert_at (fst (cheapestInsertion path stop cost)) stop path) cost =
    pathMinutes path cost + snd (cheapestInsertion path stop cost)"
  using cheapestInsertion_facts [of path stop cost, OF prod.collapse [symmetric]] by (simp add: pathMinutes_insert_at)

lemma grow_by_tidy:
  assumes "tidy rules grp" "grow_offer rules grp stop = Some c" "length (gr_path grp) < ru_most rules"
  shows "tidy rules (grow_by grp c)"
proof -
  have c: "in_stop c = stop" "(in_at c, in_added c) = cheapestInsertion (gr_path grp) stop (on_stops (ru_cost rules))"
    "gr_onSite grp + onSiteMinutes stop \<le> maxOnSiteMinutes (ru_limits rules)"
    using assms(2) by (auto simp: grow_offer_def split: if_splits prod.splits)
  have eqs: "mset (gr_path (grow_by grp c)) = add_mset stop (mset (gr_path grp))"
    using c(1) by (simp add: grow_by_def)
  have "length (gr_path (grow_by grp c)) = Suc (length (gr_path grp))"
    by (metis eqs size_add_mset size_mset)
  moreover have "sum_list (map onSiteMinutes (gr_path (grow_by grp c))) = gr_onSite grp + onSiteMinutes stop"
    using eqs assms(1) by (simp add: tidy_def sum_mset_sum_list [symmetric])
  moreover have "pathMinutes (gr_path (grow_by grp c)) (on_stops (ru_cost rules)) = gr_cost (grow_by grp c)"
    using assms(1) cheapestInsertion_insert [of "gr_path grp" stop "on_stops (ru_cost rules)", folded c(2)]
    by (simp add: grow_by_def c(1) tidy_def)
  ultimately show ?thesis
    using assms c by (simp add: tidy_def) (simp add: grow_by_def)
qed

lemma grow_group_facts:
  assumes "tidy rules grp"
  shows "tidy rules (fst (grow_group lc rules grp left draw)) \<and>
    mset (gr_path (fst (grow_group lc rules grp left draw))) + mset (fst (snd (grow_group lc rules grp left draw))) =
      mset (gr_path grp) + mset left \<and>
    gr_preset (fst (grow_group lc rules grp left draw)) = gr_preset grp"
  using assms
proof (induction lc rules grp left draw rule: grow_group.induct)
  case (1 lc rules grp left draw)
  let ?cs = "grow_candidates lc rules grp left" and ?c = "fst (grow_choice (grow_candidates lc rules grp left) draw)"
  show ?case
  proof (cases "\<not> length (gr_path grp) < ru_most rules \<or> ?cs = []")
    case True
    then have "grow_group lc rules grp left draw = (grp, left, draw)" by (subst grow_group_step) simp
    with 1 show ?thesis by simp
  next
    case False
    then have c: "in_stop ?c \<in> set left" "grow_offer rules grp (in_stop ?c) = Some ?c"
      using grow_candidates_member [OF grow_choice_member] by blast+
    have step: "grow_group lc rules grp left draw =
        grow_group lc rules (grow_by grp ?c) (remove1 (in_stop ?c) left) (snd (grow_choice ?cs draw))"
      using False by (subst grow_group_step) simp
    have "tidy rules (grow_by grp ?c)" using grow_by_tidy [OF 1(2) c(2)] False by simp
    moreover have "mset (gr_path (grow_by grp ?c)) + mset (remove1 (in_stop ?c) left) = mset (gr_path grp) + mset left"
      using c(1) by (simp add: grow_by_def)
    moreover have "gr_preset (grow_by grp ?c) = gr_preset grp" by (simp add: grow_by_def)
    ultimately show ?thesis using 1(1) [OF refl False refl] unfolding step by simp
  qed
qed

lemma seed_of_None: "seed_of rules start middle left = None \<longleftrightarrow> left = []"
  by (cases left) (auto simp: seed_of_def least_offer_None)

lemma seed_of_Nil [simp]: "seed_of rules start middle [] = None"
  by (simp add: seed_of_None)

lemma seed_of_SomeD: "seed_of rules start middle left = Some seed \<Longrightarrow> seed \<in> set left"
  using least_offer_SomeD(1) by (fastforce simp: seed_of_def)

lemma grow_groups_facts:
  assumes "1 \<le> ru_most rules" "\<forall>s \<in> set left. onSiteMinutes s \<le> maxOnSiteMinutes (ru_limits rules)"
  shows "(\<forall>grp \<in> set (fst (grow_groups lc rules start middle left draw)). tidy rules grp \<and> gr_preset grp = None) \<and>
    visits_of (fst (grow_groups lc rules start middle left draw)) = mset left"
  using assms
proof (induction lc rules start middle left draw rule: grow_groups.induct)
  case (1 lc rules start middle left draw)
  show ?case
  proof (cases "seed_of rules start middle left")
    case None
    then show ?thesis by (subst (1 2) grow_groups.simps) (use None in \<open>auto simp: seed_of_None\<close>)
  next
    case (Some seed)
    let ?g = "grow_group lc rules (seeded_group rules seed) (remove1 seed left) draw"
    obtain grp left' draw' where g: "?g = (grp, left', draw')" by (cases ?g) auto
    obtain groups draw'' where gs: "grow_groups lc rules start middle left' draw' = (groups, draw'')" by fastforce
    have seed: "seed \<in> set left" using Some by (rule seed_of_SomeD)
    have "tidy rules (seeded_group rules seed)"
      using 1(2,3) seed by (simp add: tidy_def seeded_group_def)
    from grow_group_facts [OF this, of lc "remove1 seed left" draw] have
      grp: "tidy rules grp" "mset (gr_path grp) + mset left' = mset (gr_path (seeded_group rules seed)) + mset (remove1 seed left)"
      "gr_preset grp = None"
      unfolding g by (auto simp: seeded_group_def)
    then have left: "mset (gr_path grp) + mset left' = mset left" using seed by (simp add: seeded_group_def)
    then have "set left' \<subseteq> set left" by (metis mset_subset_eq_add_right set_mset_mono set_mset_mset)
    with 1(3) have "\<forall>s \<in> set left'. onSiteMinutes s \<le> maxOnSiteMinutes (ru_limits rules)" by blast
    from 1(1) [OF Some refl g [symmetric] refl 1(2) this] show ?thesis
      using left grp by (subst (1 2) grow_groups.simps) (simp add: Some g gs)
  qed
qed

lemma grownGroups_facts:
  assumes "1 \<le> ru_most rules" "\<forall>s \<in> set pool. onSiteMinutes s \<le> maxOnSiteMinutes (ru_limits rules)" "distinct pool"
  shows "(\<forall>grp \<in> set (fst (grownGroups lc pool rules start draw)). tidy rules grp \<and> gr_preset grp = None) \<and>
    visits_of (fst (grownGroups lc pool rules start draw)) = mset pool"
  using grow_groups_facts [of rules pool] assms by (simp add: grownGroups_def)


section \<open>One group set\<close>

definition board_ok :: "group_rules \<Rightarrow> stop list \<Rightarrow> board \<Rightarrow> bool" where
  "board_ok rules u b \<longleftrightarrow>
     visits_of (bo_groups b) = mset u \<and> (\<forall>grp \<in> set (bo_groups b). tidy rules grp) \<and> sound_memory rules u (bo_shortest b)"

lemma set_group_facts:
  assumes "proper_stops u" "sound_memory rules u (bo_shortest b)" "distinct stops" "set stops \<subseteq> set u"
  shows "length (bo_groups (set_group rules i stops b)) = length (bo_groups b)"
    "k \<noteq> i \<Longrightarrow> bo_groups (set_group rules i stops b) ! k = bo_groups b ! k"
    "i < length (bo_groups b) \<Longrightarrow> mset (path_at (set_group rules i stops b) i) = mset stops"
    "i < length (bo_groups b) \<Longrightarrow> length stops \<le> ru_most rules \<Longrightarrow>
      sum_list (map onSiteMinutes stops) \<le> maxOnSiteMinutes (ru_limits rules) \<Longrightarrow>
      tidy rules (bo_groups (set_group rules i stops b) ! i)"
    "sound_memory rules u (bo_shortest (set_group rules i stops b))"
proof -
  note found = best_facts [OF assms]
  have len: "length (pa_path (fst (best rules stops (bo_shortest b)))) = length stops"
    using found(1) by (rule mset_eq_length)
  have sums: "sum_list (map onSiteMinutes (pa_path (fst (best rules stops (bo_shortest b))))) = sum_list (map onSiteMinutes stops)"
    by (metis found(1) mset_map sum_mset_sum_list)
  show "length (bo_groups (set_group rules i stops b)) = length (bo_groups b)"
    "k \<noteq> i \<Longrightarrow> bo_groups (set_group rules i stops b) ! k = bo_groups b ! k"
    "i < length (bo_groups b) \<Longrightarrow> mset (path_at (set_group rules i stops b) i) = mset stops"
    "i < length (bo_groups b) \<Longrightarrow> length stops \<le> ru_most rules \<Longrightarrow>
      sum_list (map onSiteMinutes stops) \<le> maxOnSiteMinutes (ru_limits rules) \<Longrightarrow>
      tidy rules (bo_groups (set_group rules i stops b) ! i)"
    "sound_memory rules u (bo_shortest (set_group rules i stops b))"
    using found len sums by (simp_all add: set_group_def case_prod_beta Let_def tidy_def)
qed

lemma set_group_preset: "map gr_preset (bo_groups (set_group rules i stops b)) = map gr_preset (bo_groups b)"
proof (cases "i < length (bo_groups b)")
  case True
  have "map gr_preset (bo_groups b) = (map gr_preset (bo_groups b))[i := gr_preset (bo_groups b ! i)]"
    using True by (metis list_update_id nth_map)
  then show ?thesis by (simp add: set_group_def case_prod_beta Let_def map_update)
qed (simp add: set_group_def case_prod_beta Let_def list_update_beyond not_less)

text \<open>Two groups set one after the other, with the same visits between them.\<close>

lemma set_two_groups:
  assumes u: "proper_stops u" and ok: "board_ok rules u b"
    and i: "i < length (bo_groups b)" "j < length (bo_groups b)" "i \<noteq> j"
    and visits: "mset xs + mset ys = mset (path_at b i) + mset (path_at b j)"
    and size: "length xs \<le> ru_most rules" "length ys \<le> ru_most rules"
    and time: "sum_list (map onSiteMinutes xs) \<le> maxOnSiteMinutes (ru_limits rules)"
      "sum_list (map onSiteMinutes ys) \<le> maxOnSiteMinutes (ru_limits rules)"
  shows "board_ok rules u (set_group rules i xs (set_group rules j ys b))"
    "length (bo_groups (set_group rules i xs (set_group rules j ys b))) = length (bo_groups b)"
    "mset (path_at (set_group rules i xs (set_group rules j ys b)) i) = mset xs"
    "mset (path_at (set_group rules i xs (set_group rules j ys b)) j) = mset ys"
proof -
  have "distinct (path_at b i @ path_at b j) \<and> set (path_at b i @ path_at b j) \<subseteq> set u"
    using two_paths_in_visits [OF i] ok proper_stops_distinct [OF u]
    by (intro submset_distinct) (auto simp: board_ok_def)
  moreover have "mset (path_at b i @ path_at b j) = mset (xs @ ys)" using visits by simp
  ultimately have "distinct (xs @ ys) \<and> set (xs @ ys) \<subseteq> set u"
    by (metis mset_eq_imp_distinct_iff mset_eq_setD)
  then have xs: "distinct xs" "set xs \<subseteq> set u" and ys: "distinct ys" "set ys \<subseteq> set u" by auto
  have m: "sound_memory rules u (bo_shortest b)" using ok by (simp add: board_ok_def)
  note one = set_group_facts [OF u m ys, where i = j]
  note two = set_group_facts [OF u one(5) xs, where i = i]
  let ?b = "set_group rules i xs (set_group rules j ys b)"
  show len: "length (bo_groups ?b) = length (bo_groups b)" using one(1) two(1) by simp
  have others: "bo_groups ?b ! k = bo_groups b ! k" if "k \<noteq> i" "k \<noteq> j" for k
    using that one(2) two(2) by simp
  show at: "mset (path_at ?b i) = mset xs" "mset (path_at ?b j) = mset ys"
    using one(1-3) two(1-3) i by simp_all
  have "tidy rules (bo_groups ?b ! k)" if "k < length (bo_groups b)" for k
    using that one(1,2,4) two(1,2,4) i size time ok others [of k]
    by (cases "k = i"; cases "k = j") (auto simp: board_ok_def)
  then have "\<forall>grp \<in> set (bo_groups ?b). tidy rules grp" using len by (metis in_set_conv_nth)
  moreover have "visits_of (bo_groups ?b) = visits_of (bo_groups b)"
    by (rule visits_of_exchange [OF len i]) (simp_all add: others at visits)
  ultimately show "board_ok rules u ?b" using ok two(5) by (simp add: board_ok_def)
qed

lemma confirmed_facts:
  assumes "proper_stops u" "board_ok rules u b" "distinct xs" "set xs \<subseteq> set u" "distinct ys" "set ys \<subseteq> set u"
  shows "board_ok rules u (snd (confirmed rules i xs j ys b))"
    "bo_groups (snd (confirmed rules i xs j ys b)) = bo_groups b"
proof -
  have "sound_memory rules u (bo_shortest b)" using assms(2) by (simp add: board_ok_def)
  note one = best_facts(3) [OF assms(1) this assms(3,4)]
  note two = best_facts(3) [OF assms(1) one assms(5,6)]
  show "board_ok rules u (snd (confirmed rules i xs j ys b))" "bo_groups (snd (confirmed rules i xs j ys b)) = bo_groups b"
    using two assms(2) by (simp_all add: confirmed_def case_prod_beta Let_def board_ok_def)
qed


section \<open>Moves, runs and swaps\<close>

text \<open>What the lists of changes promise of each change, on the groups they were made from.\<close>

fun legal :: "group_rules \<Rightarrow> group list \<Rightarrow> change \<Rightarrow> bool" where
  "legal rules gs (Move i stop j) \<longleftrightarrow>
     i < length gs \<and> j < length gs \<and> i \<noteq> j \<and> stop \<in> set (gr_path (gs ! i)) \<and>
     length (gr_path (gs ! j)) < ru_most rules \<and>
     gr_onSite (gs ! j) + onSiteMinutes stop \<le> maxOnSiteMinutes (ru_limits rules)"
| "legal rules gs (Move_Run i run j) \<longleftrightarrow>
     i < length gs \<and> j < length gs \<and> i \<noteq> j \<and> (\<exists>k n. run = slice k (k + n) (gr_path (gs ! i))) \<and>
     length (gr_path (gs ! j)) + length run \<le> ru_most rules \<and>
     gr_onSite (gs ! j) + sum_list (map onSiteMinutes run) \<le> maxOnSiteMinutes (ru_limits rules)"
| "legal rules gs (Swap i one j other) \<longleftrightarrow>
     i < length gs \<and> j < length gs \<and> i \<noteq> j \<and> one \<in> set (gr_path (gs ! i)) \<and> other \<in> set (gr_path (gs ! j)) \<and>
     gr_onSite (gs ! i) - onSiteMinutes one + onSiteMinutes other \<le> maxOnSiteMinutes (ru_limits rules) \<and>
     gr_onSite (gs ! j) - onSiteMinutes other + onSiteMinutes one \<le> maxOnSiteMinutes (ru_limits rules)"

lemma worth_trying_SomeD: "worth_trying e c = Some ec \<Longrightarrow> ec = (e, c)"
  by (simp add: worth_trying_def split: if_splits)

lemma moves_legal: "c \<in> set (moves rules gs) \<Longrightarrow> legal rules gs (snd c)"
  by (auto simp: moves_def set_map_filter move_offer_def room_for_def hasRoom_def Let_def dest!: worth_trying_SomeD split: if_splits)

lemma slice_length: "k + n \<le> length xs \<Longrightarrow> length (slice k (k + n) xs) = n"
  by (simp add: slice_def)

lemma run_moves_legal: "c \<in> set (run_moves rules gs) \<Longrightarrow> legal rules gs (snd c)"
proof -
  assume "c \<in> set (run_moves rules gs)"
  then obtain i n k j where c: "run_offer rules gs i n k j = Some c" and range: "i < length gs" "j < length gs"
      "n < length (gr_path (gs ! i))" "k < length (gr_path (gs ! i)) - n + 1"
    by (auto simp: run_moves_def set_map_filter RUNS_MOVED_def split: if_splits)
  then have n: "length (slice k (k + n) (gr_path (gs ! i))) = n" by (intro slice_length) simp
  from c have "snd c = Move_Run i (slice k (k + n) (gr_path (gs ! i))) j" "j \<noteq> i"
    "length (gr_path (gs ! j)) + n \<le> ru_most rules"
    "gr_onSite (gs ! j) + sum_list (map onSiteMinutes (slice k (k + n) (gr_path (gs ! i)))) \<le> maxOnSiteMinutes (ru_limits rules)"
    by (auto simp: run_offer_def hasRoomForRun_def Let_def dest!: worth_trying_SomeD split: if_splits)
  with n range show ?thesis by (simp only: legal.simps) blast
qed

lemma swaps_legal: "c \<in> set (swaps rules gs) \<Longrightarrow> legal rules gs (snd c)"
  by (auto simp: swaps_def set_map_filter swap_offer_def Let_def dest!: worth_trying_SomeD split: if_splits)

lemma changes_legal: "c \<in> set (changes rules gs) \<Longrightarrow> legal rules gs (snd c)"
  unfolding changes_def set_sort set_append using moves_legal run_moves_legal swaps_legal by blast

lemma slice_distinct: "distinct xs \<Longrightarrow> distinct (slice i j xs)"
  by (simp add: slice_def)

lemma slice_subset: "set (slice i j xs) \<subseteq> set xs"
  by (auto simp: slice_def dest: in_set_takeD in_set_dropD)

lemma mset_filter_run:
  assumes "distinct xs" "distinct run" "set run \<subseteq> set xs"
  shows "mset (filter (\<lambda>x. x \<notin> set run) xs) + mset run = mset xs"
proof -
  have "mset (filter (\<lambda>x. x \<in> set run) xs) = mset run"
    by (rule set_eq_iff_mset_eq_distinct [THEN iffD1]) (use assms in auto)
  moreover have "mset xs = mset (filter (\<lambda>x. x \<in> set run) xs) + mset (filter (\<lambda>x. x \<notin> set run) xs)"
    by (simp only: mset_filter) (rule multiset_partition)
  ultimately show ?thesis by (metis add.commute)
qed

lemma sum_onSite: "mset xs = mset ys \<Longrightarrow> sum_list (map onSiteMinutes xs) = sum_list (map onSiteMinutes ys)"
  by (metis mset_map sum_mset_sum_list)

lemma board_paths:
  assumes u: "proper_stops u" and ok: "board_ok rules u b" and i: "i < length (bo_groups b)"
  shows "distinct (path_at b i)" "set (path_at b i) \<subseteq> set u" "length (path_at b i) \<le> ru_most rules"
    "gr_onSite (bo_groups b ! i) = sum_list (map onSiteMinutes (path_at b i))"
    "sum_list (map onSiteMinutes (path_at b i)) \<le> maxOnSiteMinutes (ru_limits rules)"
proof -
  show "distinct (path_at b i)" "set (path_at b i) \<subseteq> set u"
    using submset_distinct [OF path_in_visits [OF i] _ proper_stops_distinct [OF u]] ok by (simp_all add: board_ok_def)
  have "tidy rules (bo_groups b ! i)" using ok i by (simp add: board_ok_def)
  then show "length (path_at b i) \<le> ru_most rules"
    "gr_onSite (bo_groups b ! i) = sum_list (map onSiteMinutes (path_at b i))"
    "sum_list (map onSiteMinutes (path_at b i)) \<le> maxOnSiteMinutes (ru_limits rules)"
    by (auto simp: tidy_def)
qed

lemma board_two_paths:
  assumes u: "proper_stops u" and ok: "board_ok rules u b" and i: "i < length (bo_groups b)" "j < length (bo_groups b)" "i \<noteq> j"
    and xy: "mset xs + mset ys = mset (path_at b i) + mset (path_at b j)"
  shows "distinct xs" "set xs \<subseteq> set u" "distinct ys" "set ys \<subseteq> set u"
proof -
  have "distinct (path_at b i @ path_at b j) \<and> set (path_at b i @ path_at b j) \<subseteq> set u"
    using two_paths_in_visits [OF i] ok proper_stops_distinct [OF u] by (intro submset_distinct) (auto simp: board_ok_def)
  moreover have "mset (path_at b i @ path_at b j) = mset (xs @ ys)" using xy by simp
  ultimately have "distinct (xs @ ys) \<and> set (xs @ ys) \<subseteq> set u" by (metis mset_eq_imp_distinct_iff mset_eq_setD)
  then show "distinct xs" "set xs \<subseteq> set u" "distinct ys" "set ys \<subseteq> set u" by auto
qed

lemma exchange_ok:
  assumes u: "proper_stops u" and ok: "board_ok rules u b" and i: "i < length (bo_groups b)" "j < length (bo_groups b)" "i \<noteq> j"
    and xy: "mset xs + mset ys = mset (path_at b i) + mset (path_at b j)"
    and size: "length xs \<le> ru_most rules" "length ys \<le> ru_most rules"
    and time: "sum_list (map onSiteMinutes xs) \<le> maxOnSiteMinutes (ru_limits rules)"
      "sum_list (map onSiteMinutes ys) \<le> maxOnSiteMinutes (ru_limits rules)"
    and c: "confirmed rules i' xs j' ys b = (yes, b')"
  shows "board_ok rules u b'" "bo_groups b' = bo_groups b" "board_ok rules u (set_group rules i xs (set_group rules j ys b'))"
    "length (bo_groups (set_group rules i xs (set_group rules j ys b'))) = length (bo_groups b)"
proof -
  note paths = board_two_paths [OF u ok i xy]
  show b': "board_ok rules u b'" "bo_groups b' = bo_groups b"
    using confirmed_facts [OF u ok paths, of i' j'] c by simp_all
  show "board_ok rules u (set_group rules i xs (set_group rules j ys b'))"
    "length (bo_groups (set_group rules i xs (set_group rules j ys b'))) = length (bo_groups b)"
    using set_two_groups [OF u b'(1) _ _ i(3) _ size time] b'(2) i xy by simp_all
qed


lemma fewer_minutes:
  assumes "proper_stops u" "set ys \<subseteq> set u" "mset xs + m = mset ys"
  shows "sum_list (map onSiteMinutes xs) \<le> sum_list (map onSiteMinutes ys)" "length xs \<le> length ys"
proof -
  from ex_mset [of m] obtain zs where m: "m = mset zs" by metis
  then have zs: "mset ys = mset (xs @ zs)" using assms(3) by simp
  then have "set zs \<subseteq> set ys" by (metis mset_eq_setD set_append Un_upper2)
  then have "0 \<le> sum_list (map onSiteMinutes zs)"
    using assms(1,2) by (intro sum_list_nonneg) (auto simp: proper_stops_def)
  then show "sum_list (map onSiteMinutes xs) \<le> sum_list (map onSiteMinutes ys)"
    using sum_onSite [OF zs] by simp
  show "length xs \<le> length ys" using mset_eq_length [OF zs] by simp
qed

lemma apply_change_ok:
  assumes u: "proper_stops u" and ok: "board_ok rules u b" and legal: "legal rules (bo_groups b) c"
    and r: "apply_change rules c b = (yes, b')"
  shows "board_ok rules u b' \<and> length (bo_groups b') = length (bo_groups b) \<and> (yes \<or> bo_groups b' = bo_groups b)"
proof -
  note paths = board_paths [OF u ok]
  show ?thesis
  proof (cases c)
    case (Move i stop j)
    let ?rest = "filter (\<lambda>other. other \<noteq> stop) (path_at b i)" and ?more = "path_at b j @ [stop]"
    have i: "i < length (bo_groups b)" "j < length (bo_groups b)" "i \<noteq> j" and stop: "stop \<in> set (path_at b i)"
      and room: "length (path_at b j) < ru_most rules" "gr_onSite (bo_groups b ! j) + onSiteMinutes stop \<le> maxOnSiteMinutes (ru_limits rules)"
      using legal by (simp_all add: Move)
    have out: "mset ?rest + {#stop#} = mset (path_at b i)" using mset_filter_out [OF paths(1) [OF i(1)] stop] by simp
    then have xy: "mset ?rest + mset ?more = mset (path_at b i) + mset (path_at b j)" by simp
    obtain yes' b1 where c: "confirmed rules i ?rest j ?more b = (yes', b1)" by fastforce
    note ex = exchange_ok [OF u ok i xy _ _ _ _ c]
    have "board_ok rules u b1" "bo_groups b1 = bo_groups b" "board_ok rules u (set_group rules i ?rest (set_group rules j ?more b1))"
      "length (bo_groups (set_group rules i ?rest (set_group rules j ?more b1))) = length (bo_groups b)"
      using order_trans [OF fewer_minutes(1) [OF u paths(2) [OF i(1)] out] paths(5) [OF i(1)]]
        order_trans [OF fewer_minutes(2) [OF u paths(2) [OF i(1)] out] paths(3) [OF i(1)]] paths(4) [OF i(2)] room
      by (auto intro!: ex)
    then show ?thesis using r c by (auto simp: Move Let_def split: if_splits)
  next
    case (Move_Run i run j)
    let ?rest = "filter (\<lambda>stop. stop \<notin> set run) (path_at b i)" and ?more = "path_at b j @ run"
    have i: "i < length (bo_groups b)" "j < length (bo_groups b)" "i \<noteq> j" and run: "\<exists>k n. run = slice k (k + n) (path_at b i)"
      and room: "length (path_at b j) + length run \<le> ru_most rules"
        "gr_onSite (bo_groups b ! j) + sum_list (map onSiteMinutes run) \<le> maxOnSiteMinutes (ru_limits rules)"
      using legal by (simp_all add: Move_Run)
    have "distinct run" "set run \<subseteq> set (path_at b i)"
      using run slice_distinct [OF paths(1) [OF i(1)]] slice_subset [of _ _ "path_at b i"] by blast+
    then have out: "mset ?rest + mset run = mset (path_at b i)" by (rule mset_filter_run [OF paths(1) [OF i(1)]])
    then have xy: "mset ?rest + mset ?more = mset (path_at b i) + mset (path_at b j)" by (simp add: ac_simps)
    obtain yes' b1 where c: "confirmed rules i ?rest j ?more b = (yes', b1)" by fastforce
    note ex = exchange_ok [OF u ok i xy _ _ _ _ c]
    have "board_ok rules u b1" "bo_groups b1 = bo_groups b" "board_ok rules u (set_group rules i ?rest (set_group rules j ?more b1))"
      "length (bo_groups (set_group rules i ?rest (set_group rules j ?more b1))) = length (bo_groups b)"
      using order_trans [OF fewer_minutes(1) [OF u paths(2) [OF i(1)] out] paths(5) [OF i(1)]]
        order_trans [OF fewer_minutes(2) [OF u paths(2) [OF i(1)] out] paths(3) [OF i(1)]] paths(4) [OF i(2)] room
      by (auto intro!: ex)
    then show ?thesis using r c by (auto simp: Move_Run Let_def split: if_splits)
  next
    case (Swap i one j other)
    let ?l = "filter (\<lambda>stop. stop \<noteq> one) (path_at b i) @ [other]" and ?r = "filter (\<lambda>stop. stop \<noteq> other) (path_at b j) @ [one]"
    have i: "i < length (bo_groups b)" "j < length (bo_groups b)" "j \<noteq> i"
      and one: "one \<in> set (path_at b i)" and other: "other \<in> set (path_at b j)"
      and room: "gr_onSite (bo_groups b ! i) - onSiteMinutes one + onSiteMinutes other \<le> maxOnSiteMinutes (ru_limits rules)"
        "gr_onSite (bo_groups b ! j) - onSiteMinutes other + onSiteMinutes one \<le> maxOnSiteMinutes (ru_limits rules)"
      using legal by (simp_all add: Swap)
    have out: "mset (one # filter (\<lambda>stop. stop \<noteq> one) (path_at b i)) = mset (path_at b i)"
      "mset (other # filter (\<lambda>stop. stop \<noteq> other) (path_at b j)) = mset (path_at b j)"
      using mset_filter_out [OF paths(1) [OF i(1)] one] mset_filter_out [OF paths(1) [OF i(2)] other] by simp_all
    then have xy: "mset ?r + mset ?l = mset (path_at b j) + mset (path_at b i)"
      unfolding out [symmetric] by simp
    have lens: "length ?l = length (path_at b i)" "length ?r = length (path_at b j)"
      using mset_eq_length [OF out(1)] mset_eq_length [OF out(2)] by simp_all
    have sums: "sum_list (map onSiteMinutes ?l) \<le> maxOnSiteMinutes (ru_limits rules)"
      "sum_list (map onSiteMinutes ?r) \<le> maxOnSiteMinutes (ru_limits rules)"
      using sum_onSite [OF out(1)] sum_onSite [OF out(2)] paths(4) [OF i(1)] paths(4) [OF i(2)] room by simp_all
    obtain yes' b1 where c: "confirmed rules i ?l j ?r b = (yes', b1)" by fastforce
    note pl = board_two_paths [OF u ok i(2,1,3) xy]
    have b1: "board_ok rules u b1" "bo_groups b1 = bo_groups b"
      using confirmed_facts [OF u ok pl(3,4,1,2), of i j] c by simp_all
    have "board_ok rules u (set_group rules j ?r (set_group rules i ?l b1))"
      "length (bo_groups (set_group rules j ?r (set_group rules i ?l b1))) = length (bo_groups b1)"
      using set_two_groups [OF u b1(1), of j i ?r ?l] i xy lens sums paths(3) [OF i(1)] paths(3) [OF i(2)]
      unfolding b1(2) by simp_all
    then show ?thesis using r c b1 by (auto simp: Swap Let_def split: if_splits)
  qed
qed

lemma try_changes_ok:
  assumes "proper_stops u" "board_ok rules u b" "\<forall>c \<in> set cs. legal rules (bo_groups b) (snd c)"
  shows "board_ok rules u (snd (try_changes rules cs b)) \<and> length (bo_groups (snd (try_changes rules cs b))) = length (bo_groups b)"
  using assms(2,3)
proof (induction cs arbitrary: b)
  case (Cons c cs)
  obtain yes b' where r: "apply_change rules (snd c) b = (yes, b')" by fastforce
  have "legal rules (bo_groups b) (snd c)" using Cons.prems(2) by simp
  note step = apply_change_ok [OF assms(1) Cons.prems(1) this r]
  show ?case
  proof (cases yes)
    case True
    with step r show ?thesis by simp
  next
    case False
    with step Cons.prems(2) have "\<forall>c \<in> set cs. legal rules (bo_groups b') (snd c)" by simp
    with Cons.IH [of b'] step r False show ?thesis by simp
  qed
qed simp

lemma search_ok:
  assumes "proper_stops u" "board_ok rules u b"
  shows "board_ok rules u (search rules b)" "length (bo_groups (search rules b)) = length (bo_groups b)"
proof -
  have "board_ok rules u (search_rounds rules n b) \<and> length (bo_groups (search_rounds rules n b)) = length (bo_groups b)" for n
    using assms(2)
  proof (induction n arbitrary: b)
    case (Suc n)
    let ?t = "try_changes rules (take CONFIRMED_PER_ROUND (changes rules (bo_groups b))) b"
    have "\<forall>c \<in> set (take CONFIRMED_PER_ROUND (changes rules (bo_groups b))). legal rules (bo_groups b) (snd c)"
      by (intro ballI changes_legal) (rule in_set_takeD)
    from try_changes_ok [OF assms(1) Suc.prems this] Suc.IH [of "snd ?t"] show ?case by (simp add: case_prod_beta)
  qed simp
  then show "board_ok rules u (search rules b)" "length (bo_groups (search rules b)) = length (bo_groups b)"
    by (simp_all add: search_def)
qed


section \<open>Short groups shared out\<close>

definition joined_ok :: "group_rules \<Rightarrow> group list \<Rightarrow> nat \<Rightarrow> joined \<Rightarrow> stop list \<Rightarrow> bool" where
  "joined_ok rules gs short joined remaining \<longleftrightarrow>
     distinct (map fst joined) \<and>
     (\<forall>j members. map_of joined j = Some members \<longrightarrow>
        j < length gs \<and> j \<noteq> short \<and> length members \<le> ru_most rules \<and>
        sum_list (map onSiteMinutes members) \<le> maxOnSiteMinutes (ru_limits rules)) \<and>
     (\<Sum>j \<in> {..<length gs} - {short}. mset (members_of gs joined j)) + mset remaining = visits_of gs"

definition target_ok :: "group_rules \<Rightarrow> group list \<Rightarrow> nat \<Rightarrow> joined \<Rightarrow> stop \<Rightarrow> target \<Rightarrow> bool" where
  "target_ok rules gs short joined stop t \<longleftrightarrow>
     tg_group t < length gs \<and> tg_group t \<noteq> short \<and> tg_members t = members_of gs joined (tg_group t) @ [stop] \<and>
     length (tg_members t) \<le> ru_most rules \<and>
     sum_list (map onSiteMinutes (tg_members t)) \<le> maxOnSiteMinutes (ru_limits rules)"

lemma joined_members:
  assumes u: "proper_stops u" "visits_of gs = mset u" and ok: "joined_ok rules gs short joined (stop # remaining)"
    and j: "j < length gs" "j \<noteq> short"
  shows "distinct (members_of gs joined j @ [stop]) \<and> set (members_of gs joined j @ [stop]) \<subseteq> set u"
proof (rule submset_distinct)
  let ?rest = "\<Sum>k \<in> {..<length gs} - {short} - {j}. mset (members_of gs joined k)"
  have "(\<Sum>k \<in> {..<length gs} - {short}. mset (members_of gs joined k)) = mset (members_of gs joined j) + ?rest"
    using j by (intro sum.remove) simp_all
  then have "visits_of gs = mset (members_of gs joined j @ [stop]) + (?rest + mset remaining)"
    using ok by (simp add: joined_ok_def ac_simps)
  then show "mset (members_of gs joined j @ [stop]) \<subseteq># visits_of gs" by (metis mset_subset_eq_add_left)
qed (use u proper_stops_distinct in auto)

lemma try_target_ok:
  assumes u: "proper_stops u" "visits_of gs = mset u" and ok: "joined_ok rules gs short joined (stop # remaining)"
    and j: "j < length gs" and m: "sound_memory rules u shortest"
    and t: "\<And>t. target = Some t \<Longrightarrow> target_ok rules gs short joined stop t"
    and r: "try_target rules gs short anyZone however joined stop (target, shortest) j = (target', shortest')"
  shows "sound_memory rules u shortest'" "target' = Some t' \<Longrightarrow> target_ok rules gs short joined stop t'"
proof -
  let ?ms = "members_of gs joined j"
  have "sound_memory rules u shortest' \<and> (\<forall>t'. target' = Some t' \<longrightarrow> target_ok rules gs short joined stop t')"
  proof (cases "try_target rules gs short anyZone however joined stop (target, shortest) j = (target, shortest)")
    case True
    with r m t show ?thesis by simp
  next
    case False
    then have g: "j \<noteq> short" "sum_list (map onSiteMinutes ?ms) + onSiteMinutes stop \<le> maxOnSiteMinutes (ru_limits rules)"
      by (auto simp: try_target_def Let_def split: if_splits)
    note ms = joined_members [OF u ok j g(1)]
    obtain more m1 where one: "best rules (?ms @ [stop]) shortest = (more, m1)" by fastforce
    obtain now m2 where two: "best rules ?ms m1 = (now, m2)" by fastforce
    have m1: "sound_memory rules u m1" using best_facts(3) [OF u(1) m, of "?ms @ [stop]"] ms one by simp
    have m2: "sound_memory rules u m2" using best_facts(3) [OF u(1) m1, of ?ms] ms two by simp
    define offered where "offered = (if \<not> hasRoom ?ms (pa_cost more - pa_cost now) rules however \<or> overLong (pa_cost more - pa_cost now)
      then None else Some \<lparr>tg_group = j, tg_members = ?ms @ [stop], tg_added = pa_cost more - pa_cost now\<rparr>)"
    have r': "target' = keep_least tg_added target offered" "shortest' = m2"
      using r False by (auto simp: try_target_def Let_def one two offered_def split: if_splits)
    have "target_ok rules gs short joined stop t'" if "offered = Some t'" for t'
      using that j g by (auto simp: offered_def target_ok_def hasRoom_def split: if_splits)
    with t m2 r' show ?thesis
      by (cases offered; cases target) (auto simp: keep_least_def split: if_splits)
  qed
  then show "sound_memory rules u shortest'" "target' = Some t' \<Longrightarrow> target_ok rules gs short joined stop t'" by blast+
qed

lemma try_targets_ok:
  assumes u: "proper_stops u" "visits_of gs = mset u" and ok: "joined_ok rules gs short joined (stop # remaining)"
    and js: "set js \<subseteq> {..<length gs}" and m: "sound_memory rules u shortest"
    and t: "\<And>t. target = Some t \<Longrightarrow> target_ok rules gs short joined stop t"
    and r: "foldl (try_target rules gs short anyZone however joined stop) (target, shortest) js = (target', shortest')"
  shows "sound_memory rules u shortest' \<and> (\<forall>t'. target' = Some t' \<longrightarrow> target_ok rules gs short joined stop t')"
  using js m t r
proof (induction js arbitrary: target shortest)
  case (Cons j js)
  obtain t1 m1 where one: "try_target rules gs short anyZone however joined stop (target, shortest) j = (t1, m1)" by fastforce
  have "j < length gs" using Cons.prems(1) by simp
  note step = try_target_ok [OF u ok this Cons.prems(2,3) one]
  from Cons.prems(1,4) one show ?case by (intro Cons.IH [OF _ step]) simp_all
qed simp

lemma joined_update:
  assumes ok: "joined_ok rules gs short joined (stop # remaining)" and t: "target_ok rules gs short joined stop t"
  shows "joined_ok rules gs short (AList.update (tg_group t) (tg_members t) joined) remaining"
proof -
  let ?j = "tg_group t" and ?joined = "AList.update (tg_group t) (tg_members t) joined"
  have j: "?j < length gs" "?j \<noteq> short" "tg_members t = members_of gs joined ?j @ [stop]" using t by (simp_all add: target_ok_def)
  have members: "members_of gs ?joined k = (if k = ?j then tg_members t else members_of gs joined k)" for k
    by (simp add: members_of_def update_conv')
  have in_set: "?j \<in> {..<length gs} - {short}" using j by simp
  have "(\<Sum>k \<in> {..<length gs} - {short}. mset (members_of gs ?joined k)) =
      add_mset stop (\<Sum>k \<in> {..<length gs} - {short}. mset (members_of gs joined k))"
    by (simp add: sum.remove [OF _ in_set] members) (simp add: j(3))
  then show ?thesis
    using ok t by (auto simp: joined_ok_def distinct_update update_conv' target_ok_def)
qed

lemma share_out_ok:
  assumes u: "proper_stops u" "visits_of gs = mset u"
  shows "joined_ok rules gs short joined stops \<Longrightarrow> sound_memory rules u shortest \<Longrightarrow>
    share_out rules gs short anyZone however stops joined shortest = (r, shortest') \<Longrightarrow>
    sound_memory rules u shortest' \<and> (\<forall>joined'. r = Some joined' \<longrightarrow> joined_ok rules gs short joined' [])"
proof (induction stops arbitrary: joined shortest)
  case (Cons stop stops)
  obtain target m1 where one: "foldl (try_target rules gs short anyZone however joined stop) (None, shortest) [0..<length gs] = (target, m1)"
    by fastforce
  have "set [0..<length gs] \<subseteq> {..<length gs}" by auto
  note step = try_targets_ok [OF u Cons.prems(1) this Cons.prems(2) _ one]
  show ?case
  proof (cases target)
    case None
    with step Cons.prems(3) one show ?thesis by auto
  next
    case (Some t)
    with step have t: "sound_memory rules u m1" "target_ok rules gs short joined stop t" by auto
    from Cons.IH [OF joined_update [OF Cons.prems(1) t(2)] t(1)] Cons.prems(3) one Some show ?thesis by simp
  qed
qed auto


lemma set_joined:
  assumes u: "proper_stops u"
  shows "distinct (map fst joined) \<Longrightarrow> sound_memory rules u (bo_shortest b) \<Longrightarrow>
    (\<And>j members. (j, members) \<in> set joined \<Longrightarrow> j < length (bo_groups b) \<and> distinct members \<and> set members \<subseteq> set u \<and>
       length members \<le> ru_most rules \<and> sum_list (map onSiteMinutes members) \<le> maxOnSiteMinutes (ru_limits rules)) \<Longrightarrow>
    b' = foldl (\<lambda>b (j, members). set_group rules j members b) b joined \<Longrightarrow>
    length (bo_groups b') = length (bo_groups b) \<and> sound_memory rules u (bo_shortest b') \<and>
    (\<forall>j. j \<notin> fst ` set joined \<longrightarrow> bo_groups b' ! j = bo_groups b ! j) \<and>
    (\<forall>(j, members) \<in> set joined. mset (path_at b' j) = mset members \<and> tidy rules (bo_groups b' ! j))"
proof (induction joined arbitrary: b)
  case (Cons jm joined)
  obtain j members where jm: "jm = (j, members)" by (cases jm)
  let ?b = "set_group rules j members b"
  have h: "j < length (bo_groups b)" "distinct members" "set members \<subseteq> set u" "length members \<le> ru_most rules"
    "sum_list (map onSiteMinutes members) \<le> maxOnSiteMinutes (ru_limits rules)"
    using Cons.prems(3) [of j members] jm by auto
  note one = set_group_facts [OF u Cons.prems(2) h(2,3), where i = j]
  have notin: "j \<notin> fst ` set joined" and dist: "distinct (map fst joined)" using Cons.prems(1) jm by simp_all
  have "length (bo_groups b') = length (bo_groups ?b) \<and> sound_memory rules u (bo_shortest b') \<and>
    (\<forall>j. j \<notin> fst ` set joined \<longrightarrow> bo_groups b' ! j = bo_groups ?b ! j) \<and>
    (\<forall>(j, members) \<in> set joined. mset (path_at b' j) = mset members \<and> tidy rules (bo_groups b' ! j))"
  proof (rule Cons.IH [OF dist one(5)])
    show "j' < length (bo_groups ?b) \<and> distinct members' \<and> set members' \<subseteq> set u \<and>
       length members' \<le> ru_most rules \<and> sum_list (map onSiteMinutes members') \<le> maxOnSiteMinutes (ru_limits rules)"
      if "(j', members') \<in> set joined" for j' members'
      using Cons.prems(3) [of j' members'] that one(1) by simp
    show "b' = foldl (\<lambda>b (j, members). set_group rules j members b) ?b joined" using Cons.prems(4) by (simp add: jm)
  qed
  with one(1,2) one(3) [OF h(1)] one(4) [OF h(1,4,5)] notin show ?case by (auto simp: jm)
qed simp

lemma dissolve_one_ok:
  assumes u: "proper_stops u" and ok: "board_ok rules u b" and i: "short < length (bo_groups b)"
  shows "board_ok rules u (dissolve_one rules largest anyZone however b short) \<and>
    length (bo_groups (dissolve_one rules largest anyZone however b short)) = length (bo_groups b)"
proof (cases "path_at b short = [] \<or> largest < length (path_at b short)")
  case True
  then show ?thesis using ok by (simp add: dissolve_one_def)
next
  case False
  let ?gs = "bo_groups b"
  have v: "visits_of ?gs = mset u" and m: "sound_memory rules u (bo_shortest b)" using ok by (simp_all add: board_ok_def)
  obtain r m1 where r: "share_out rules ?gs short anyZone however (path_at b short) [] (bo_shortest b) = (r, m1)" by fastforce
  let ?b1 = "b\<lparr>bo_shortest := m1\<rparr>"
  have "joined_ok rules ?gs short [] (path_at b short)"
    using i by (simp add: joined_ok_def members_of_def visits_of_def sum.remove [of _ short] add.commute)
  from share_out_ok [OF u v this m r] have m1: "sound_memory rules u m1"
    and joined: "\<And>joined. r = Some joined \<Longrightarrow> joined_ok rules ?gs short joined []" by auto
  have b1: "board_ok rules u ?b1" using ok m1 by (simp add: board_ok_def)
  show ?thesis
  proof (cases r)
    case None
    then have "dissolve_one rules largest anyZone however b short = ?b1"
      using False r by (simp add: dissolve_one_def sharedOut_def)
    with b1 show ?thesis by simp
  next
    case (Some joined)
    note jok = joined [OF Some]
    let ?b2 = "foldl (\<lambda>b (j, members). set_group rules j members b) ?b1 joined"
    have eq: "dissolve_one rules largest anyZone however b short = set_group rules short [] ?b2"
      using False r Some by (simp add: dissolve_one_def sharedOut_def)
    have dist: "distinct (map fst joined)" using jok by (simp add: joined_ok_def)
    have lookup: "map_of joined j = Some members" if "(j, members) \<in> set joined" for j members
      using that dist by simp
    have total: "(\<Sum>k \<in> {..<length ?gs} - {short}. mset (members_of ?gs joined k)) = mset u"
      using jok v by (simp add: joined_ok_def)
    have members: "j < length ?gs \<and> j \<noteq> short \<and> distinct members \<and> set members \<subseteq> set u \<and>
       length members \<le> ru_most rules \<and> sum_list (map onSiteMinutes members) \<le> maxOnSiteMinutes (ru_limits rules)"
      if "(j, members) \<in> set joined" for j members
    proof -
      have j: "j < length ?gs" "j \<noteq> short" "length members \<le> ru_most rules"
        "sum_list (map onSiteMinutes members) \<le> maxOnSiteMinutes (ru_limits rules)"
        using jok lookup [OF that] by (auto simp: joined_ok_def)
      have "members_of ?gs joined j = members" using lookup [OF that] by (simp add: members_of_def)
      then have "mset members \<subseteq># mset u"
        using j unfolding total [symmetric] by (simp add: sum.remove [of _ j])
      with submset_distinct [OF this refl proper_stops_distinct [OF u]] j show ?thesis by simp
    qed
    have two: "length (bo_groups ?b2) = length ?gs \<and> sound_memory rules u (bo_shortest ?b2) \<and>
      (\<forall>j. j \<notin> fst ` set joined \<longrightarrow> bo_groups ?b2 ! j = ?gs ! j) \<and>
      (\<forall>(j, members) \<in> set joined. mset (path_at ?b2 j) = mset members \<and> tidy rules (bo_groups ?b2 ! j))"
      using set_joined [OF u dist _ _ refl, of rules ?b1] m1 members by simp
    have "0 \<le> sum_list (map onSiteMinutes (path_at b short))"
      using board_paths(2) [OF u ok i] u by (intro sum_list_nonneg) (auto simp: proper_stops_def)
    then have zero: "0 \<le> maxOnSiteMinutes (ru_limits rules)" using board_paths(5) [OF u ok i] by linarith
    note three = set_group_facts [where i = short and b = ?b2 and stops = "[]" and rules = rules, OF u]
    let ?b3 = "set_group rules short [] ?b2"
    have len: "length (bo_groups ?b3) = length ?gs" using three(1) two by simp
    have other: "bo_groups ?b3 ! k = bo_groups ?b2 ! k" if "k \<noteq> short" for k using three(2) two that by simp
    have empty: "path_at ?b3 short = []" "tidy rules (bo_groups ?b3 ! short)" using three(3,4) two i zero by simp_all
    have at: "mset (path_at ?b2 k) = mset (members_of ?gs joined k) \<and> tidy rules (bo_groups ?b2 ! k)"
      if k: "k < length ?gs" for k
    proof (cases "map_of joined k")
      case None
      then have "bo_groups ?b2 ! k = ?gs ! k" using two by (simp add: map_of_eq_None_iff)
      then show ?thesis using None ok k by (simp add: members_of_def board_ok_def)
    next
      case (Some ms)
      then show ?thesis using two map_of_SomeD [OF Some] by (auto simp: members_of_def)
    qed
    have "visits_of (bo_groups ?b3) = mset (path_at ?b3 short) + (\<Sum>k \<in> {..<length ?gs} - {short}. mset (path_at ?b3 k))"
      using i by (simp add: visits_of_def len sum.remove [of _ short])
    also have "(\<Sum>k \<in> {..<length ?gs} - {short}. mset (path_at ?b3 k)) = (\<Sum>k \<in> {..<length ?gs} - {short}. mset (members_of ?gs joined k))"
      by (intro sum.cong) (simp_all add: other at)
    finally have "visits_of (bo_groups ?b3) = mset u" by (simp add: empty total)
    moreover have "tidy rules (bo_groups ?b3 ! k)" if "k < length ?gs" for k
      using that at other empty(2) by (cases "k = short") auto
    then have "\<forall>grp \<in> set (bo_groups ?b3). tidy rules grp" using len by (metis in_set_conv_nth)
    ultimately show ?thesis using three(5) two len by (simp add: eq board_ok_def)
  qed
qed

lemma dissolve_ok:
  assumes "proper_stops u" "board_ok rules u b"
  shows "board_ok rules u (dissolve rules largest anyZone however b)"
proof -
  have "set is \<subseteq> {..<length (bo_groups b)} \<Longrightarrow> board_ok rules u b \<Longrightarrow>
      board_ok rules u (foldl (dissolve_one rules largest anyZone however) b is)" for "is" b
  proof (induction "is" arbitrary: b)
    case (Cons i "is")
    have "i < length (bo_groups b)" using Cons.prems(1) by simp
    note step = dissolve_one_ok [OF assms(1) Cons.prems(2) this, of largest anyZone however]
    have "set is \<subseteq> {..<length (bo_groups (dissolve_one rules largest anyZone however b i))}"
      using Cons.prems(1) step by simp
    from Cons.IH [OF this] step show ?case by simp
  qed simp
  then show ?thesis using assms(2) by (simp add: dissolve_def subset_iff)
qed


section \<open>Groups evened out\<close>

lemma fill_group_ok:
  assumes u: "proper_stops u" and ok: "board_ok rules u b" and into: "into < length (bo_groups b)"
    and room: "length (path_at b into) < ru_most rules" and r: "fill_group rules into b = Some b'"
  shows "board_ok rules u b'" "length (bo_groups b') = length (bo_groups b)"
    "length (path_at b' into) = Suc (length (path_at b into))"
proof -
  let ?gs = "bo_groups b"
  from r obtain t where t: "least_offer tk_estimate (taking_offer rules ?gs into) (takings rules ?gs into) = Some t"
    and b': "b' = (let b1 = set_group rules into (path_at b into @ [tk_stop t]) b
      in set_group rules (tk_from t) (filter (\<lambda>other. other \<noteq> tk_stop t) (path_at b1 (tk_from t))) b1)"
    by (auto simp: fill_group_def Let_def split: option.splits)
  from least_offer_SomeD(1) [OF t] obtain c where c: "c \<in> set (takings rules ?gs into)" "taking_offer rules ?gs into c = Some t"
    by blast
  obtain i stop where c': "c = (i, stop)" by (cases c)
  have "i < length ?gs" "i \<noteq> into" "stop \<in> set (path_at b i)"
    using c(1) by (auto simp: takings_def c' split: if_splits)
  moreover have t: "tk_from t = i" "tk_stop t = stop"
    and time: "gr_onSite (?gs ! into) + onSiteMinutes (tk_stop t) \<le> maxOnSiteMinutes (ru_limits rules)"
    using c(2) by (auto simp: taking_offer_def c' Let_def split: if_splits)
  ultimately have from_stop: "tk_from t < length ?gs" "tk_from t \<noteq> into" "tk_stop t \<in> set (path_at b (tk_from t))"
    by simp_all
  let ?i = "tk_from t" and ?stop = "tk_stop t"
  let ?rest = "filter (\<lambda>other. other \<noteq> ?stop) (path_at b ?i)"
  note paths = board_paths [OF u ok]
  have same: "bo_groups (set_group rules into (path_at b into @ [?stop]) b) ! ?i = ?gs ! ?i"
    using from_stop(2) by (simp add: set_group_def case_prod_beta Let_def)
  have eq: "b' = set_group rules ?i ?rest (set_group rules into (path_at b into @ [?stop]) b)"
    by (simp add: b' Let_def same)
  have out: "mset ?rest + {#?stop#} = mset (path_at b ?i)"
    using mset_filter_out [OF paths(1) [OF from_stop(1)] from_stop(3)] by simp
  have xy: "mset ?rest + mset (path_at b into @ [?stop]) = mset (path_at b ?i) + mset (path_at b into)"
    unfolding out [symmetric] by simp
  have "length ?rest \<le> ru_most rules" "length (path_at b into @ [?stop]) \<le> ru_most rules"
    "sum_list (map onSiteMinutes ?rest) \<le> maxOnSiteMinutes (ru_limits rules)"
    "sum_list (map onSiteMinutes (path_at b into @ [?stop])) \<le> maxOnSiteMinutes (ru_limits rules)"
    using order_trans [OF fewer_minutes(1) [OF u paths(2) [OF from_stop(1)] out] paths(5) [OF from_stop(1)]]
      order_trans [OF fewer_minutes(2) [OF u paths(2) [OF from_stop(1)] out] paths(3) [OF from_stop(1)]]
      paths(4) [OF into] room time by simp_all
  note two = set_two_groups [OF u ok from_stop(1) into from_stop(2) xy this(1,2,3,4)]
  show "board_ok rules u b'" "length (bo_groups b') = length (bo_groups b)"
    using two(1,2) by (simp_all add: eq)
  show "length (path_at b' into) = Suc (length (path_at b into))"
    using mset_eq_length [OF two(4)] by (simp add: eq)
qed

lemma fill_up_ok:
  assumes u: "proper_stops u" and size: "ru_size rules \<le> ru_most rules"
  shows "board_ok rules u b \<Longrightarrow> into < length (bo_groups b) \<Longrightarrow> ru_size rules \<le> length (path_at b into) + turns \<Longrightarrow>
    board_ok rules u (snd (fill_up rules into turns b)) \<and>
    length (bo_groups (snd (fill_up rules into turns b))) = length (bo_groups b) \<and>
    (length (path_at (snd (fill_up rules into turns b)) into) < ru_size rules \<longrightarrow>
      fill_group rules into (snd (fill_up rules into turns b)) = None)"
proof (induction turns arbitrary: b)
  case (Suc turns)
  show ?case
  proof (cases "length (path_at b into) < ru_size rules \<and> fill_group rules into b \<noteq> None")
    case False
    with Suc.prems(1) show ?thesis by (auto split: option.split)
  next
    case True
    then obtain b' where b': "fill_group rules into b = Some b'" by auto
    have "length (path_at b into) < ru_most rules" using True size by simp
    note step = fill_group_ok [OF u Suc.prems(1,2) this b']
    from Suc.IH [OF step(1)] step Suc.prems(2,3) True b' show ?thesis by simp
  qed
qed simp

lemmas fill_up_done = fill_up_ok [where turns = "ru_size rules" for rules, THEN conjunct2, THEN conjunct2]

lemma evenOut_ok:
  assumes u: "proper_stops u" and size: "ru_size rules \<le> ru_most rules" and ok: "board_ok rules u b"
  shows "board_ok rules u (evenOut rules b)"
proof -
  have ones: "set is \<subseteq> {..<length (bo_groups b)} \<Longrightarrow> board_ok rules u b \<Longrightarrow>
      board_ok rules u (snd (foldl (even_one rules) (moved, b) is)) \<and>
      length (bo_groups (snd (foldl (even_one rules) (moved, b) is))) = length (bo_groups b)" for "is" moved b
  proof (induction "is" arbitrary: moved b)
    case (Cons i "is")
    have i: "i < length (bo_groups b)" using Cons.prems(1) by simp
    obtain moved' b' where f: "fill_up rules i (ru_size rules) b = (moved', b')" by fastforce
    then have b': "board_ok rules u b'" "length (bo_groups b') = length (bo_groups b)"
      using fill_up_ok [OF u size Cons.prems(2) i, of "ru_size rules"] by simp_all
    from Cons.IH [OF _ b'(1), of "moved \<or> moved'"] Cons.prems(1) b'(2) f show ?case by (simp add: even_one_def)
  qed simp
  have "board_ok rules u b \<Longrightarrow> board_ok rules u (even_rounds rules n b)" for n b
  proof (induction n arbitrary: b)
    case (Suc n)
    have "set (short_groups rules b) \<subseteq> {..<length (bo_groups b)}" by (auto simp: short_groups_def)
    from ones [OF this Suc.prems, of False] Suc.IH Suc.prems show ?case by (simp add: Let_def case_prod_beta)
  qed simp
  then show ?thesis using ok by (simp add: evenOut_def)
qed

section \<open>The groups of a quarter\<close>

lemma set_again_ok:
  assumes u: "proper_stops u" and ok: "board_ok rules u b" and i: "i < length (bo_groups b)"
  shows "board_ok rules u (set_group rules i (path_at b i) b)"
proof -
  note paths = board_paths [OF u ok i]
  have m: "sound_memory rules u (bo_shortest b)" using ok by (simp add: board_ok_def)
  note one = set_group_facts [OF u m paths(1,2), where i = i]
  let ?b = "set_group rules i (path_at b i) b"
  have "tidy rules (bo_groups ?b ! k)" if "k < length (bo_groups b)" for k
    using that one(2) one(4) [OF i paths(3,5)] ok by (cases "k = i") (auto simp: board_ok_def)
  then have "\<forall>grp \<in> set (bo_groups ?b). tidy rules grp" using one(1) by (metis in_set_conv_nth)
  moreover have "visits_of (bo_groups ?b) = visits_of (bo_groups b)"
    using visits_of_change [OF one(1) i] one(2) one(3) [OF i] by simp
  ultimately show ?thesis using ok one(5) by (simp add: board_ok_def)
qed

lemma improveGroups_facts:
  assumes u: "proper_stops u" and size: "ru_size rules \<le> ru_most rules"
    and groups: "visits_of groups = mset u" "\<forall>grp \<in> set groups. tidy rules grp"
  shows "visits_of (improveGroups groups rules) = mset u \<and>
    (\<forall>grp \<in> set (improveGroups groups rules). tidy rules grp \<and> gr_path grp \<noteq> [])"
proof -
  define b0 where "b0 = foldl (\<lambda>b i. set_group rules i (path_at b i) b) \<lparr>bo_groups = groups, bo_shortest = Map.empty\<rparr> [0..<length groups]"
  have "set is \<subseteq> {..<length (bo_groups b)} \<Longrightarrow> board_ok rules u b \<Longrightarrow>
      board_ok rules u (foldl (\<lambda>b i. set_group rules i (path_at b i) b) b is)" for "is" b
  proof (induction "is" arbitrary: b)
    case (Cons i "is")
    have "i < length (bo_groups b)" using Cons.prems(1) by simp
    from Cons.IH [OF _ set_again_ok [OF u Cons.prems(2) this]] Cons.prems(1) show ?case
      by (simp add: set_group_def case_prod_beta Let_def)
  qed simp
  from this [of "[0..<length groups]" "\<lparr>bo_groups = groups, bo_shortest = Map.empty\<rparr>"]
  have b0: "board_ok rules u b0" using groups by (simp add: b0_def board_ok_def subset_iff)
  define b where "b = evenOut rules (search rules (dissolve rules LEFTOVER_VISITS True True
    (dissolve rules (ru_size rules - 1) False True (search rules b0))))"
  have b: "board_ok rules u b"
    unfolding b_def by (intro evenOut_ok [OF u size] search_ok(1) [OF u] dissolve_ok [OF u] b0)
  have "improveGroups groups rules = filter (\<lambda>grp. gr_path grp \<noteq> []) (bo_groups b)"
    by (simp add: improveGroups_def b_def b0_def Let_def)
  with b show ?thesis by (simp add: board_ok_def visits_of_nonempty)
qed

definition grouping_ok :: "group_rules \<Rightarrow> stop list \<Rightarrow> group list \<Rightarrow> bool" where
  "grouping_ok rules pool groups \<longleftrightarrow>
     visits_of groups = mset pool \<and> (\<forall>grp \<in> set groups. tidy rules grp \<and> gr_path grp \<noteq> [])"

lemma groupsOf_facts:
  assumes u: "proper_stops pool" and size: "ru_size rules \<le> ru_most rules" "1 \<le> ru_most rules"
    and time: "\<forall>s \<in> set pool. onSiteMinutes s \<le> maxOnSiteMinutes (ru_limits rules)"
  shows "grouping_ok rules pool (groupsOf lc pool rules)"
proof (cases "pool = []")
  case True
  then show ?thesis by (simp add: groupsOf_def grouping_ok_def)
next
  case False
  have step: "(\<exists>g. fst (try_grouping lc pool rules st n) = Some g) \<and>
      (\<forall>g. fst (try_grouping lc pool rules st n) = Some g \<longrightarrow> grouping_ok rules pool (gp_groups g))"
    if st: "\<forall>g. fst st = Some g \<longrightarrow> grouping_ok rules pool (gp_groups g)" for st n
  proof -
    obtain chosen seed where s: "st = (chosen, seed)" by (cases st)
    obtain grown draw where g: "grownGroups lc pool rules (if even n then edge else loneliest) (if n < 2 then None else Some seed) = (grown, draw)"
      by fastforce
    have "visits_of grown = mset pool" "\<forall>grp \<in> set grown. tidy rules grp"
      using grownGroups_facts [OF size(2) time proper_stops_distinct [OF u], of lc "if even n then edge else loneliest"
        "if n < 2 then None else Some seed"] g by auto
    from improveGroups_facts [OF u size(1) this] have "grouping_ok rules pool (improveGroups grown rules)"
      by (simp add: grouping_ok_def)
    with st show ?thesis
      by (cases chosen) (auto simp: s try_grouping_def g Let_def better_grouping_def)
  qed
  have "ns \<noteq> [] \<Longrightarrow> (\<forall>g. fst st = Some g \<longrightarrow> grouping_ok rules pool (gp_groups g)) \<Longrightarrow>
      \<exists>g. fst (foldl (try_grouping lc pool rules) st ns) = Some g \<and> grouping_ok rules pool (gp_groups g)" for ns st
  proof (induction ns arbitrary: st)
    case (Cons n ns)
    note s = step [OF Cons.prems(2), of n]
    show ?case
    proof (cases "ns = []")
      case True
      with s show ?thesis by auto
    next
      case False
      from Cons.IH [OF this] s show ?thesis by simp
    qed
  qed simp
  from this [of "[0..<GROUPINGS_TRIED]" "(None, 1)"] obtain g where
    "fst (foldl (try_grouping lc pool rules) (None, 1) [0..<GROUPINGS_TRIED]) = Some g" "grouping_ok rules pool (gp_groups g)"
    by (auto simp: GROUPINGS_TRIED_def)
  then show ?thesis using False by (simp add: groupsOf_def)
qed


section \<open>What the Group maker is given\<close>

definition sensible_limits :: "day_limits \<Rightarrow> bool" where
  "sensible_limits limits \<longleftrightarrow>
     0 < maxStopsPerDay limits \<and> minStopsPerDay limits \<le> maxStopsPerDay limits \<and> minStopsPerDay limits \<le> MAX_STOPS_PER_DAY"

lemma sensible_default [simp]: "sensible_limits DEFAULT_DAY_LIMITS"
  by (simp add: sensible_limits_def DEFAULT_DAY_LIMITS_def MAX_STOPS_PER_DAY_def)

lemma plain_rules_sizes:
  assumes "sensible_limits limits"
  shows "ru_size (plain_rules limits drive) \<le> ru_most (plain_rules limits drive)" "1 \<le> ru_most (plain_rules limits drive)"
    "ru_limits (plain_rules limits drive) = limits" "ru_most (plain_rules limits drive) = min (maxStopsPerDay limits) MAX_STOPS_PER_DAY"
  using assms by (simp_all add: plain_rules_def dayVisitRange_def sensible_limits_def MAX_STOPS_PER_DAY_def Let_def)

lemma proper_stops_filter: "proper_stops stops \<Longrightarrow> proper_stops (filter P stops)"
  by (auto simp: proper_stops_def intro: distinct_map_filterI)

lemma mset_concat_cong: "mset xs = mset ys \<Longrightarrow> mset (concat xs) = mset (concat ys)"
  unfolding mset_concat by (metis mset_map sum_mset_sum_list)

lemma compactGroups_facts:
  assumes "proper_stops stops" "sensible_limits (case limits of None \<Rightarrow> DEFAULT_DAY_LIMITS | Some l \<Rightarrow> l)"
  defines "l \<equiv> (case limits of None \<Rightarrow> DEFAULT_DAY_LIMITS | Some l \<Rightarrow> l)"
  shows "mset (concat (compactGroups lc stops limits driveMinutes)) = mset stops \<and>
    (\<forall>day \<in> set (compactGroups lc stops limits driveMinutes).
      day \<noteq> [] \<and> length day \<le> min (maxStopsPerDay l) MAX_STOPS_PER_DAY \<and>
        sum_list (map onSiteMinutes day) \<le> maxOnSiteMinutes l \<or>
      (\<exists>stop. day = [stop] \<and> maxOnSiteMinutes l < onSiteMinutes stop))"
proof -
  define rules where "rules = plain_rules l (case driveMinutes of None \<Rightarrow> estimatedDriveMinutes | Some d \<Rightarrow> d)"
  let ?fits = "filter (\<lambda>stop. onSiteMinutes stop \<le> maxOnSiteMinutes l) stops"
  let ?alone = "filter (\<lambda>stop. maxOnSiteMinutes l < onSiteMinutes stop) stops"
  let ?days = "map gr_path (groupsOf lc ?fits rules) @ map (\<lambda>stop. [stop]) ?alone"
  note sizes = plain_rules_sizes [OF assms(2) [folded l_def], where drive = "case driveMinutes of None \<Rightarrow> estimatedDriveMinutes | Some d \<Rightarrow> d",
      folded rules_def]
  have ok: "grouping_ok rules ?fits (groupsOf lc ?fits rules)"
    by (rule groupsOf_facts [OF proper_stops_filter [OF assms(1)] sizes(1,2)]) (simp add: sizes(3))
  have days: "compactGroups lc stops limits driveMinutes = sort_key (\<lambda>path. - metresFromDowntown (map spot path)) ?days"
    by (simp add: compactGroups_def l_def rules_def Let_def)
  have alone: "concat (map (\<lambda>stop. [stop]) ?alone) = ?alone" by (induction stops) simp_all
  from mset_concat_cong [of "compactGroups lc stops limits driveMinutes" ?days]
  have "mset (concat (compactGroups lc stops limits driveMinutes)) = mset (concat ?days)"
    by (simp add: days)
  also have "\<dots> = mset ?fits + mset ?alone"
    using ok alone by (simp add: grouping_ok_def visits_of_concat del: mset_filter)
  also have "\<dots> = mset stops"
    by (simp only: mset_filter not_le [symmetric]) (rule multiset_partition [symmetric])
  finally have "mset (concat (compactGroups lc stops limits driveMinutes)) = mset stops" .
  then show ?thesis
    using ok by (auto simp: days grouping_ok_def tidy_def sizes(3,4))
qed

text \<open>
  C4. No visit is lost and none is put on two days. The days the Group maker is given are the
  visits it was asked to group, each exactly once, however often the search moved them between
  groups, swapped them, dissolved a group or evened two out.
\<close>

theorem days_partition_the_visits:
  assumes "proper_stops stops" "sensible_limits limits"
  shows "mset (concat (compactGroups lc stops (Some limits) driveMinutes)) = mset stops"
  using compactGroups_facts [of stops "Some limits" lc driveMinutes] assms by simp

text \<open>
  C5. Every day can be driven and worked. A day holds at most the visits allowed, never more than
  the matrix it is routed with can take, and no more than the minutes on site allowed, except that
  a visit longer than that is a day of its own. No day is empty.
\<close>

theorem days_keep_the_limits:
  assumes "proper_stops stops" "sensible_limits limits" "day \<in> set (compactGroups lc stops (Some limits) driveMinutes)"
  shows "day \<noteq> [] \<and> length day \<le> min (maxStopsPerDay limits) 24 \<and> sum_list (map onSiteMinutes day) \<le> maxOnSiteMinutes limits \<or>
    (\<exists>stop. day = [stop] \<and> maxOnSiteMinutes limits < onSiteMinutes stop)"
  using compactGroups_facts [of stops "Some limits" lc driveMinutes] assms by (simp add: MAX_STOPS_PER_DAY_def)

definition example_stops :: "stop list" where
  "example_stops = [example_stop ''a'' 0 20, example_stop ''b'' 4 20, example_stop ''c'' 90 20, example_stop ''d'' 5 500]"

lemma proper_example: "proper_stops example_stops"
  by (simp add: proper_stops_def example_stops_def example_stop_def)

theorem days_partition_the_visits_witness:
  "mset (concat (compactGroups code_unit_compare example_stops (Some DEFAULT_DAY_LIMITS) (Some along_the_road))) =
    mset example_stops"
  by (rule days_partition_the_visits [OF proper_example]) simp

lemma compactGroups_nonempty:
  "compactGroups code_unit_compare example_stops (Some DEFAULT_DAY_LIMITS) (Some along_the_road) \<noteq> []"
proof
  assume "compactGroups code_unit_compare example_stops (Some DEFAULT_DAY_LIMITS) (Some along_the_road) = []"
  with compactGroups_facts [OF proper_example, of "Some DEFAULT_DAY_LIMITS" code_unit_compare "Some along_the_road"]
  show False by (simp add: example_stops_def)
qed

theorem days_keep_the_limits_witness:
  "\<exists>day. day \<in> set (compactGroups code_unit_compare example_stops (Some DEFAULT_DAY_LIMITS) (Some along_the_road)) \<and>
    (day \<noteq> [] \<and> length day \<le> 10 \<and> sum_list (map onSiteMinutes day) \<le> 360 \<or>
     (\<exists>stop. day = [stop] \<and> 360 < onSiteMinutes stop))"
proof -
  obtain day where day: "day \<in> set (compactGroups code_unit_compare example_stops (Some DEFAULT_DAY_LIMITS) (Some along_the_road))"
    using compactGroups_nonempty by (metis list.set_sel(1))
  from days_keep_the_limits [OF proper_example sensible_default this] day show ?thesis
    by (auto simp: DEFAULT_DAY_LIMITS_def)
qed

end
