(* ===== verification/Day_Layout.thy ===== *)
theory Day_Layout
  imports Day_Groups_Correct
begin

text \<open>
  \<open>shared/src/contracts/quarter-assignment.ts\<close>, the layout of a quarter (\<open>layoutEveryDay\<close>): far
  zones' trips, move-out and move-in days, groups given out day by day round the zones, the
  office's own groups (\<open>presetGroups\<close>), and the visits squeezed in at the end.

  A date is a day number, so that a technician-day (\<open>crewKey\<close>) is a pair; keys are compared by date,
  then by technician. A \<open>Map\<close> that is walked through is an association list in insertion order.
  Groups and crews, which the source tells apart as objects, are places in their lists.
\<close>

section \<open>Choosing days and zones\<close>

type_synonym crew_key = "day \<times> string"

definition compare_keys :: "(string \<Rightarrow> string \<Rightarrow> int) \<Rightarrow> crew_key \<Rightarrow> crew_key \<Rightarrow> int" where
  "compare_keys lc = then_cmp (on_key fst by_number) (on_key snd lc)"

definition zoneRoundTheCircle ::
  "(string \<Rightarrow> string \<Rightarrow> int) \<Rightarrow> string list \<Rightarrow> nat \<Rightarrow> string list \<Rightarrow> string list \<Rightarrow> string" where
  "zoneRoundTheCircle lc circle start available takenToday =
     (let around = map (\<lambda>step. circle ! ((start + step) mod length circle)) [0..<length circle]
      in case find (\<lambda>z. z \<in> set available \<and> z \<notin> set takenToday) around of
           Some z \<Rightarrow> z
         | None \<Rightarrow>
             (case find (\<lambda>z. z \<in> set available) around of
                Some z \<Rightarrow> z
              | None \<Rightarrow> sort_cmp (byZoneNumber lc) available ! 0))"

definition in_a_row :: "plannable_day list \<Rightarrow> bool" where
  "in_a_row run \<longleftrightarrow>
     list_all (\<lambda>i. i = 0 \<or> midnight (pd_date (run ! i)) - midnight (pd_date (run ! (i - 1))) = MS_PER_DAY) [0..<length run]"

definition firstRun :: "plannable_day list \<Rightarrow> nat \<Rightarrow> (plannable_day \<Rightarrow> bool) \<Rightarrow> plannable_day list option" where
  "firstRun days n usable =
     find (\<lambda>run. in_a_row run \<and> list_all usable run)
       (map (\<lambda>start. slice start (start + n) days) (if n \<le> length days then [0..<length days - n + 1] else []))"

section \<open>Trips\<close>

definition group_minutes :: "drive \<Rightarrow> point option \<Rightarrow> group \<Rightarrow> real" where
  "group_minutes drive from grp =
     (case from of None \<Rightarrow> 0 | Some p \<Rightarrow> min_list (map (\<lambda>stop. drive p (spot stop)) (gr_path grp)))"

function chain_groups :: "drive \<Rightarrow> point option \<Rightarrow> group list \<Rightarrow> group list" where
  "chain_groups drive from left =
     (case least_offer (group_minutes drive from) Some left of
        None \<Rightarrow> []
      | Some grp \<Rightarrow>
          grp # chain_groups drive (Some (middleOf (map spot (gr_path grp)))) (remove1 grp left))"
  by pat_completeness auto
termination
proof (relation "measure (\<lambda>(drive, p, left). length left)", goal_cases)
  case (2 drive p left grp)
  then have "grp \<in> set left" using least_offer_SomeD(1) by fastforce
  then show ?case using length_pos_if_in_set by (fastforce simp: length_remove1)
qed simp

declare chain_groups.simps [simp del]

definition chainedGroups :: "group list \<Rightarrow> point option \<Rightarrow> drive \<Rightarrow> group list" where
  "chainedGroups groups start drive = chain_groups drive start groups"

record trip_day =
  tr_zone :: string
  tr_day :: nat
  tr_days :: nat

record assigned_crew =
  ac_date :: day
  ac_technicianId :: string
  ac_stops :: "stop list"
  ac_onSiteMinutes :: int
  ac_driveMinutes :: real
  ac_anchors :: "day_anchor list option"
  ac_trip :: "trip_day option"
  ac_preset :: "nat option"
  ac_rescheduleMonday :: bool

definition trip_crew :: "drive \<Rightarrow> string \<Rightarrow> string \<Rightarrow> plannable_day list \<Rightarrow> nat \<Rightarrow> nat \<times> group \<Rightarrow> assigned_crew" where
  "trip_crew drive z technicianId run days ig =
     \<lparr>ac_date = pd_date (run ! fst ig), ac_technicianId = technicianId, ac_stops = gr_path (snd ig),
      ac_onSiteMinutes = gr_onSite (snd ig), ac_driveMinutes = pathMinutes (gr_path (snd ig)) (on_stops drive),
      ac_anchors = None, ac_trip = Some \<lparr>tr_zone = z, tr_day = fst ig + 1, tr_days = days\<rparr>,
      ac_preset = gr_preset (snd ig), ac_rescheduleMonday = False\<rparr>"

text \<open>Metres from home, nothing standing for \<open>Infinity\<close>, which comes last.\<close>

definition by_distance :: "real option \<Rightarrow> real option \<Rightarrow> int" where
  "by_distance a b =
     (case (a, b) of (Some x, Some y) \<Rightarrow> by_real x y | (Some _, None) \<Rightarrow> - 1 | (None, Some _) \<Rightarrow> 1 | (None, None) \<Rightarrow> 0)"

definition trip_of ::
  "string \<Rightarrow> stop list \<Rightarrow> plannable_day list \<Rightarrow> drive \<Rightarrow> (string \<Rightarrow> point option) \<Rightarrow> (crew_key \<Rightarrow> bool) \<Rightarrow> group list \<Rightarrow>
    string \<Rightarrow> assigned_crew list option" where
  "trip_of z members days drive homes unavailable groups technicianId =
     map_option (\<lambda>run.
         let trip = chainedGroups groups (homes technicianId) drive
         in map (trip_crew drive z technicianId run (length trip)) (enumerate 0 trip))
       (firstRun days (length groups)
         (\<lambda>d. \<not> unavailable (pd_date d, technicianId) \<and> list_all (qualified_for d technicianId) members))"

text \<open>The first that is not nothing.\<close>

fun first_some :: "('a \<Rightarrow> 'b option) \<Rightarrow> 'a list \<Rightarrow> 'b option" where
  "first_some f [] = None"
| "first_some f (x # xs) = (case f x of None \<Rightarrow> first_some f xs | Some y \<Rightarrow> Some y)"

definition planTrip ::
  "string \<Rightarrow> stop list \<Rightarrow> plannable_day list \<Rightarrow> string list \<Rightarrow> drive \<Rightarrow> (string \<Rightarrow> point option) \<Rightarrow> (crew_key \<Rightarrow> bool) \<Rightarrow>
    group list \<Rightarrow> assigned_crew list option" where
  "planTrip z members days crew drive homes unavailable groups =
     (let middle = middleOf (map spot members);
          from_home = (\<lambda>technicianId. map_option (\<lambda>home. haversineMeters home middle) (homes technicianId))
      in first_some (trip_of z members days drive homes unavailable groups) (sort_cmp (on_key from_home by_distance) crew))"

section \<open>Visits squeezed in\<close>

record squeeze =
  sq_crew :: nat
  sq_path :: "stop list"
  sq_added :: real

definition anchors_of :: "assigned_crew \<Rightarrow> day_anchor list" where
  "anchors_of c = (case ac_anchors c of None \<Rightarrow> [] | Some as \<Rightarrow> as)"

definition squeeze_offer ::
  "assigned_crew list \<Rightarrow> (day \<Rightarrow> plannable_day option) \<Rightarrow> day_limits \<Rightarrow> drive \<Rightarrow> stop \<Rightarrow> nat \<Rightarrow> squeeze option" where
  "squeeze_offer crews dayOn limits cost stop i =
     (let c = crews ! i
      in case dayOn (ac_date c) of
           None \<Rightarrow> None
         | Some d \<Rightarrow>
             if \<not> qualified_for d (ac_technicianId c) stop then None
             else if snd (dayVisitRange limits (length (anchors_of c))) \<le> length (ac_stops c) then None
             else if maxOnSiteMinutes limits < ac_onSiteMinutes c + onSiteMinutes stop then None
             else
               let path = map anchorAsStop (anchors_of c) @ ac_stops c;
                   (k, added) = cheapestInsertion path stop (on_stops cost)
               in if overLong added then None
                  else Some \<lparr>sq_crew = i, sq_path = insert_at k stop path, sq_added = added\<rparr>)"

definition squeeze_into :: "drive \<Rightarrow> drive \<Rightarrow> stop \<Rightarrow> squeeze \<Rightarrow> assigned_crew \<Rightarrow> assigned_crew" where
  "squeeze_into cost drive stop b c =
     (let ordered = pa_path (polished (sq_path b) (on_stops cost))
      in c\<lparr>ac_stops := filter (\<lambda>s. anchorIdOf s = None) ordered,
           ac_onSiteMinutes := ac_onSiteMinutes c + onSiteMinutes stop,
           ac_driveMinutes := pathMinutes ordered (on_stops drive)\<rparr>)"

definition squeeze_one ::
  "(day \<Rightarrow> plannable_day option) \<Rightarrow> day_limits \<Rightarrow> drive \<Rightarrow> drive \<Rightarrow> assigned_crew list \<times> stop list \<Rightarrow> stop \<Rightarrow>
    assigned_crew list \<times> stop list" where
  "squeeze_one dayOn limits cost drive st stop =
     (let (crews, left) = st
      in case least_offer sq_added (squeeze_offer crews dayOn limits cost stop) [0..<length crews] of
           None \<Rightarrow> st
         | Some b \<Rightarrow>
             (crews[sq_crew b := squeeze_into cost drive stop b (crews ! sq_crew b)], remove1 stop left))"

definition squeezeIn ::
  "assigned_crew list \<Rightarrow> stop list \<Rightarrow> (day \<Rightarrow> plannable_day option) \<Rightarrow> day_limits \<Rightarrow> drive \<Rightarrow> drive \<Rightarrow>
    assigned_crew list \<times> stop list" where
  "squeezeIn crews left dayOn limits cost drive = foldl (squeeze_one dayOn limits cost drive) (crews, left) left"

section \<open>The office's own groups\<close>

definition count_zone :: "(string \<times> nat) list \<Rightarrow> stop \<Rightarrow> (string \<times> nat) list" where
  "count_zone counts stop =
     AList.update (zoneOf stop) ((case map_of counts (zoneOf stop) of None \<Rightarrow> 0 | Some n \<Rightarrow> n) + 1) counts"

definition mainZone :: "stop list \<Rightarrow> string" where
  "mainZone path =
     fst (foldl (\<lambda>(main, most) (z, n). if most < n then (z, n) else (main, most)) ('''', 0) (foldl count_zone [] path))"

definition asGroup :: "stop list \<Rightarrow> group_rules \<Rightarrow> nat option \<Rightarrow> group" where
  "asGroup path rules preset =
     \<lparr>gr_zone = (if ru_zoned rules then Some (mainZone path) else None), gr_path = path,
      gr_cost = pathMinutes path (on_stops (ru_cost rules)), gr_onSite = sum_list (map onSiteMinutes path),
      gr_preset = preset\<rparr>"

record presets =
  ps_groups :: "group list"
  ps_loose :: "stop list"

record preset_walk =
  pw_used :: "stop list"
  pw_loose :: "stop list"
  pw_path :: "stop list"
  pw_onSite :: int
  pw_full :: bool

definition preset_visit :: "(string \<Rightarrow> stop option) \<Rightarrow> day_limits \<Rightarrow> preset_walk \<Rightarrow> string \<Rightarrow> preset_walk" where
  "preset_visit byId limits w i =
     (case byId i of
        None \<Rightarrow> w
      | Some stop \<Rightarrow>
          if stop \<in> set (pw_used w) then w
          else
            let full = (pw_full w \<or> MAX_STOPS_PER_DAY \<le> length (pw_path w) \<or>
                  maxOnSiteMinutes limits < pw_onSite w + onSiteMinutes stop);
                w = w\<lparr>pw_used := pw_used w @ [stop], pw_full := full\<rparr>
            in if full then w\<lparr>pw_loose := pw_loose w @ [stop]\<rparr>
               else w\<lparr>pw_path := pw_path w @ [stop], pw_onSite := pw_onSite w + onSiteMinutes stop\<rparr>)"

definition preset_group ::
  "(string \<Rightarrow> stop option) \<Rightarrow> group_rules \<Rightarrow> stop list \<times> group list \<times> stop list \<Rightarrow> nat \<times> string list \<Rightarrow>
    stop list \<times> group list \<times> stop list" where
  "preset_group byId rules st preset =
     (let (used, groups, loose) = st;
          w = foldl (preset_visit byId (ru_limits rules))
            \<lparr>pw_used = used, pw_loose = loose, pw_path = [], pw_onSite = 0, pw_full = False\<rparr> (snd preset)
      in (pw_used w, if pw_path w = [] then groups else groups @ [asGroup (pw_path w) rules (Some (fst preset))], pw_loose w))"

definition presetGroupsOf :: "string list list \<Rightarrow> stop list \<Rightarrow> group_rules \<Rightarrow> presets" where
  "presetGroupsOf presets left rules =
     (let byId = map_of (rev (map (\<lambda>stop. (stopId stop, stop)) left));
          (used, groups, loose) = foldl (preset_group byId rules) ([], [], []) (enumerate 0 presets)
      in \<lparr>ps_groups = groups, ps_loose = loose @ filter (\<lambda>stop. stop \<notin> set used) left\<rparr>)"

record joining =
  jo_group :: nat
  jo_at :: nat
  jo_added :: real

definition room_of :: "group_rules \<Rightarrow> group \<Rightarrow> nat" where
  "room_of rules grp =
     (case gr_preset grp of
        None \<Rightarrow> ru_most rules
      | Some p \<Rightarrow>
          (case ru_presetRoom rules of
             None \<Rightarrow> ru_most rules
           | Some rooms \<Rightarrow> if p < length rooms then rooms ! p else ru_most rules))"

definition nearest_offer :: "group_rules \<Rightarrow> group list \<Rightarrow> stop \<Rightarrow> nat \<Rightarrow> joining option" where
  "nearest_offer rules groups stop i =
     (let grp = groups ! i
      in if room_of rules grp \<le> length (gr_path grp) \<or>
            maxOnSiteMinutes (ru_limits rules) < gr_onSite grp + onSiteMinutes stop then None
         else
           let (k, added) = cheapestInsertion (gr_path grp) stop (on_stops (ru_cost rules))
           in if overLong added then None else Some \<lparr>jo_group = i, jo_at = k, jo_added = added\<rparr>)"

definition joinNearest :: "stop \<Rightarrow> group list \<Rightarrow> group_rules \<Rightarrow> bool \<times> group list" where
  "joinNearest stop groups rules =
     (case least_offer jo_added (nearest_offer rules groups stop) [0..<length groups] of
        None \<Rightarrow> (False, groups)
      | Some b \<Rightarrow>
          let grp = groups ! jo_group b
          in (True, groups[jo_group b := grp\<lparr>gr_path := insert_at (jo_at b) stop (gr_path grp),
                gr_cost := gr_cost grp + jo_added b, gr_onSite := gr_onSite grp + onSiteMinutes stop\<rparr>]))"

definition anyway_offer :: "group_rules \<Rightarrow> group list \<Rightarrow> stop \<Rightarrow> nat \<Rightarrow> joining option" where
  "anyway_offer rules groups stop i =
     (let grp = groups ! i
      in if maxOnSiteMinutes (ru_limits rules) < gr_onSite grp + onSiteMinutes stop then None
         else
           let (k, added) = cheapestInsertion (gr_path grp) stop (on_stops (ru_drive rules))
           in Some \<lparr>jo_group = i, jo_at = k, jo_added = added\<rparr>)"

definition joinAnyway :: "stop \<Rightarrow> group list \<Rightarrow> group_rules \<Rightarrow> bool \<times> group list" where
  "joinAnyway stop groups rules =
     (case least_offer jo_added (anyway_offer rules groups stop) [0..<length groups] of
        None \<Rightarrow> (False, groups)
      | Some b \<Rightarrow>
          let grp = groups ! jo_group b; path = insert_at (jo_at b) stop (gr_path grp)
          in (True, groups[jo_group b := grp\<lparr>gr_path := path,
                gr_cost := pathMinutes path (on_stops (ru_cost rules)), gr_onSite := gr_onSite grp + onSiteMinutes stop\<rparr>]))"

text \<open>\<open>filter\<close> with a joining as its test: the visits not taken, and the groups with those that were.\<close>

fun not_joined :: "(stop \<Rightarrow> group list \<Rightarrow> bool \<times> group list) \<Rightarrow> stop list \<Rightarrow> group list \<Rightarrow> stop list \<times> group list" where
  "not_joined join [] pool = ([], pool)"
| "not_joined join (stop # stops) pool =
     (let (ok, pool') = join stop pool; (rest, pool'') = not_joined join stops pool'
      in (if ok then rest else stop # rest, pool''))"

definition looseIntoGroups :: "(string \<Rightarrow> string \<Rightarrow> int) \<Rightarrow> stop list \<Rightarrow> group list \<Rightarrow> group_rules \<Rightarrow> group list" where
  "looseIntoGroups lc loose groups rules =
     (if loose = [] then groups
      else
        let own = groupsOf lc loose rules;
            pool = groups @ filter (\<lambda>grp. ru_size rules \<le> length (gr_path grp)) own;
            short = concat (map gr_path (filter (\<lambda>grp. length (gr_path grp) < ru_size rules) own));
            (stranded, pool) = not_joined (\<lambda>stop gs. joinNearest stop gs rules) short pool;
            (overTime, pool) = not_joined (\<lambda>stop gs. joinAnyway stop gs rules) stranded pool
        in pool @ groupsOf lc overTime rules)"

record preset_day =
  pr_group :: nat
  pr_visits :: "stop list"
  pr_dropped :: "stop list"
  pr_drive :: real
  pr_onSite :: int

definition nearness :: "drive \<Rightarrow> day_anchor list \<Rightarrow> stop \<Rightarrow> real" where
  "nearness drive anchors stop = min_list (map (\<lambda>anchor. drive (point.truncate anchor) (spot stop)) anchors)"

text \<open>The nearest visits, until one does not fit.\<close>

fun keep_while_fits :: "int \<Rightarrow> int \<Rightarrow> stop list \<Rightarrow> stop list \<times> int" where
  "keep_while_fits most onSite [] = ([], onSite)"
| "keep_while_fits most onSite (stop # stops) =
     (if most < onSite + onSiteMinutes stop then ([], onSite)
      else let (kept, spent) = keep_while_fits most (onSite + onSiteMinutes stop) stops in (stop # kept, spent))"

definition nearest_group :: "drive \<Rightarrow> day_anchor list \<Rightarrow> group list \<Rightarrow> nat" where
  "nearest_group drive anchors groups =
     (case least_offer snd
         (\<lambda>i. if gr_path (groups ! i) = [] then None
              else Some (i, min_list (map (nearness drive anchors) (gr_path (groups ! i))))) [0..<length groups] of
        None \<Rightarrow> 0 | Some (i, _) \<Rightarrow> i)"

definition presetAroundAnchors ::
  "day_anchor list \<Rightarrow> group list \<Rightarrow> day_limits \<Rightarrow> drive \<Rightarrow> drive \<Rightarrow> preset_day option" where
  "presetAroundAnchors anchors groups limits cost drive =
     (if groups = [] then None
      else
        let i = nearest_group drive anchors groups;
            path = gr_path (groups ! i);
            (kept, onSite) = keep_while_fits (maxOnSiteMinutes limits) (sum_list (map an_onSiteMinutes anchors))
              (sort_key (nearness drive anchors) path);
            ordered = pa_path (polished (map anchorAsStop anchors @ filter (\<lambda>stop. stop \<in> set kept) path) (on_stops cost))
        in Some \<lparr>pr_group = i, pr_visits = filter (\<lambda>stop. anchorIdOf stop = None) ordered,
             pr_dropped = filter (\<lambda>stop. stop \<notin> set kept) path, pr_drive = pathMinutes ordered (on_stops drive),
             pr_onSite = onSite\<rparr>)"


section \<open>The layout\<close>

datatype anchor_skip = NOT_A_PLANNED_DAY | TECHNICIAN_NOT_WORKING | DAY_TAKEN

datatype unplaced_reason = NO_WORKING_DAYS | NO_QUALIFIED_TECHNICIAN | NO_CAPACITY | LONGER_THAN_A_DAY | NO_TRIP_DAYS

record layout_options =
  op_limits :: "day_limits option"
  op_driveMinutes :: "drive option"
  op_position :: "string \<Rightarrow> int option"
  op_taken :: "crew_key list"
  op_anchors :: "day_anchor list"
  op_homes :: "string \<Rightarrow> point option"
  op_tripZones :: "string list"
  op_rescheduleMondays :: "plannable_day list"
  op_neighbourMinutes :: "real option"
  op_presetGroups :: "string list list option"
  op_presetTargets :: "nat list option"

record placed_stop =
  pl_stopId :: string
  pl_date :: day
  pl_technicianId :: string
  pl_position :: nat

record capacity =
  cp_stops :: nat
  cp_onSiteMinutes :: int
  cp_availableMinutes :: int

record quarter_assignment =
  qa_placed :: "placed_stop list"
  qa_crews :: "assigned_crew list"
  qa_unplaced :: "(string \<times> unplaced_reason) list"
  qa_skippedAnchors :: "(string \<times> anchor_skip) list"
  qa_capacity :: capacity

definition NEW_VISIT_MONTH :: int where "NEW_VISIT_MONTH = 2"

definition limits_of :: "layout_options \<Rightarrow> day_limits" where
  "limits_of opts = (case op_limits opts of None \<Rightarrow> DEFAULT_DAY_LIMITS | Some l \<Rightarrow> l)"

definition drive_of :: "layout_options \<Rightarrow> drive" where
  "drive_of opts = (case op_driveMinutes opts of None \<Rightarrow> estimatedDriveMinutes | Some d \<Rightarrow> d)"

definition cost_of :: "layout_options \<Rightarrow> drive" where
  "cost_of opts = pricedLegs (drive_of opts) (max_leg_of (limits_of opts))"

definition rules_of :: "plannable_day list \<Rightarrow> layout_options \<Rightarrow> group_rules" where
  "rules_of days opts =
     \<lparr>ru_size = fst (dayVisitRange (limits_of opts) 0), ru_most = snd (dayVisitRange (limits_of opts) 0),
      ru_close = close_of (limits_of opts), ru_limits = limits_of opts, ru_cost = cost_of opts, ru_drive = drive_of opts,
      ru_neighbourMinutes = (case op_neighbourMinutes opts of None \<Rightarrow> NEIGHBOUR_MINUTES | Some m \<Rightarrow> m),
      ru_zoned = list_ex (\<lambda>d. pd_zoneTechnicians d \<noteq> None) days, ru_presetRoom = op_presetTargets opts\<rparr>"

text \<open>A \<open>Map\<close> made from pairs keeps the last value of a key.\<close>

definition map_from :: "('a \<times> 'b) list \<Rightarrow> 'a \<rightharpoonup> 'b" where
  "map_from pairs = map_of (rev pairs)"

definition before_of :: "stop list \<Rightarrow> layout_options \<Rightarrow> string \<Rightarrow> int" where
  "before_of stops opts i =
     the (map_from (map (\<lambda>(index, s). (stopId s, case op_position opts (stopId s) of None \<Rightarrow> int index | Some p \<Rightarrow> p))
       (enumerate 0 stops)) i)"

definition ordered_stops :: "stop list \<Rightarrow> layout_options \<Rightarrow> stop list" where
  "ordered_stops stops opts =
     sort_cmp (then_cmp (on_key (\<lambda>s. case month s of None \<Rightarrow> NEW_VISIT_MONTH | Some m \<Rightarrow> m) by_number)
       (then_cmp (on_key (\<lambda>s. before_of stops opts (stopId s)) by_number) (on_key sequence by_number))) stops"

definition someone_for :: "plannable_day list \<Rightarrow> stop \<Rightarrow> bool" where
  "someone_for days stop = list_ex (\<lambda>d. list_ex (\<lambda>t. qualified_for d t stop) (pd_technicianIds d)) days"

definition dayOn_of :: "plannable_day list \<Rightarrow> day \<Rightarrow> plannable_day option" where
  "dayOn_of days = map_from (map (\<lambda>d. (pd_date d, d)) days)"

definition crew_of :: "plannable_day list \<Rightarrow> string list" where
  "crew_of days = uniq (concat (map pd_technicianIds days))"

section \<open>Appointments\<close>

definition add_anchor :: "(crew_key \<times> day_anchor list) list \<Rightarrow> day_anchor \<Rightarrow> (crew_key \<times> day_anchor list) list" where
  "add_anchor byDay anchor =
     (let key = (an_date anchor, an_technicianId anchor)
      in AList.update key ((case map_of byDay key of None \<Rightarrow> [] | Some as \<Rightarrow> as) @ [anchor]) byDay)"

definition skip_reason :: "plannable_day list \<Rightarrow> layout_options \<Rightarrow> crew_key \<Rightarrow> anchor_skip option" where
  "skip_reason days opts key =
     (case dayOn_of days (fst key) of
        None \<Rightarrow> Some NOT_A_PLANNED_DAY
      | Some d \<Rightarrow>
          if snd key \<notin> set (pd_technicianIds d) then Some TECHNICIAN_NOT_WORKING
          else if key \<in> set (op_taken opts) then Some DAY_TAKEN else None)"

definition anchors_by_day :: "(string \<Rightarrow> string \<Rightarrow> int) \<Rightarrow> layout_options \<Rightarrow> (crew_key \<times> day_anchor list) list" where
  "anchors_by_day lc opts = sort_cmp (on_key fst (compare_keys lc)) (foldl add_anchor [] (op_anchors opts))"

definition skipped_anchors :: "(string \<Rightarrow> string \<Rightarrow> int) \<Rightarrow> plannable_day list \<Rightarrow> layout_options \<Rightarrow> (string \<times> anchor_skip) list" where
  "skipped_anchors lc days opts =
     concat (map (\<lambda>(key, as). case skip_reason days opts key of
         None \<Rightarrow> [] | Some reason \<Rightarrow> map (\<lambda>a. (an_id a, reason)) as) (anchors_by_day lc opts))"

definition anchored_days :: "(string \<Rightarrow> string \<Rightarrow> int) \<Rightarrow> plannable_day list \<Rightarrow> layout_options \<Rightarrow> (crew_key \<times> day_anchor list) list" where
  "anchored_days lc days opts = filter (\<lambda>(key, as). skip_reason days opts key = None) (anchors_by_day lc opts)"

section \<open>The state a layout is made in\<close>

record monday_day =
  mo_date :: day
  mo_technicianId :: string
  mo_stops :: "stop list"
  mo_onSite :: int

record layout =
  la_left :: "stop list"
  la_crews :: "assigned_crew list"
  la_unplaced :: "(string \<times> unplaced_reason) list"
  la_presets :: "presets option"
  la_groups :: "group list option"
  la_onTrip :: "crew_key list"
  la_mondays :: "(crew_key \<times> monday_day) list"
  la_turnOf :: "string \<rightharpoonup> nat"

definition sort_stop :: "plannable_day list \<Rightarrow> layout_options \<Rightarrow> layout \<Rightarrow> stop \<Rightarrow> layout" where
  "sort_stop days opts la stop =
     (if maxOnSiteMinutes (limits_of opts) < onSiteMinutes stop then
        la\<lparr>la_unplaced := la_unplaced la @ [(stopId stop, LONGER_THAN_A_DAY)]\<rparr>
      else if \<not> someone_for days stop then
        la\<lparr>la_unplaced := la_unplaced la @ [(stopId stop, NO_QUALIFIED_TECHNICIAN)]\<rparr>
      else la\<lparr>la_left := la_left la @ [stop]\<rparr>)"

definition layout_start :: "stop list \<Rightarrow> plannable_day list \<Rightarrow> layout_options \<Rightarrow> layout" where
  "layout_start stops days opts =
     (let la = foldl (sort_stop days opts)
            \<lparr>la_left = [], la_crews = [], la_unplaced = [], la_presets = None, la_groups = None, la_onTrip = [],
             la_mondays = [], la_turnOf = Map.empty\<rparr> (ordered_stops stops opts)
      in la\<lparr>la_presets := map_option (\<lambda>ps. presetGroupsOf ps (la_left la) (rules_of days opts)) (op_presetGroups opts)\<rparr>)"

section \<open>Step 0: trips\<close>

definition trip_members :: "layout \<Rightarrow> string \<Rightarrow> group list \<times> stop list \<times> stop list" where
  "trip_members la z =
     (case la_presets la of
        None \<Rightarrow> ([], [], filter (\<lambda>stop. zoneOf stop = z) (la_left la))
      | Some ps \<Rightarrow>
          let tripGroups = filter (\<lambda>grp. mainZone (gr_path grp) = z) (ps_groups ps);
              looseHere = filter (\<lambda>stop. zoneOf stop = z) (ps_loose ps)
          in (tripGroups, looseHere, concat (map gr_path tripGroups) @ looseHere))"

definition without_trip :: "string \<Rightarrow> stop list \<Rightarrow> layout \<Rightarrow> layout" where
  "without_trip z members la =
     la\<lparr>la_left := filter (\<lambda>stop. stop \<notin> set members) (la_left la),
        la_presets := map_option (\<lambda>ps.
          \<lparr>ps_groups = filter (\<lambda>grp. mainZone (gr_path grp) \<noteq> z) (ps_groups ps),
           ps_loose = filter (\<lambda>stop. zoneOf stop \<noteq> z) (ps_loose ps)\<rparr>) (la_presets la)\<rparr>"

definition trip_step ::
  "(string \<Rightarrow> string \<Rightarrow> int) \<Rightarrow> plannable_day list \<Rightarrow> layout_options \<Rightarrow> layout \<Rightarrow> string \<Rightarrow> layout" where
  "trip_step lc days opts la z =
     (let (tripGroups, looseHere, members) = trip_members la z;
          rules = (rules_of days opts)\<lparr>ru_zoned := False\<rparr>;
          groups = (if la_presets la = None then groupsOf lc members rules else tripGroups @ groupsOf lc looseHere rules);
          unavailable = (\<lambda>key. key \<in> set (op_taken opts) \<or> key \<in> fst ` set (anchored_days lc days opts) \<or> key \<in> set (la_onTrip la))
      in if members = [] then la
         else
           let la = without_trip z members la
           in case planTrip z members days (crew_of days) (ru_drive rules) (op_homes opts) unavailable groups of
                None \<Rightarrow> la\<lparr>la_unplaced := la_unplaced la @ map (\<lambda>stop. (stopId stop, NO_TRIP_DAYS)) members\<rparr>
              | Some trip \<Rightarrow>
                  la\<lparr>la_onTrip := la_onTrip la @ map (\<lambda>c. (ac_date c, ac_technicianId c)) trip,
                     la_crews := la_crews la @ trip\<rparr>)"

section \<open>Step 1: move-out and move-in days\<close>

definition monday_after :: "layout_options \<Rightarrow> day \<Rightarrow> plannable_day option" where
  "monday_after opts date =
     find (\<lambda>d. date < pd_date d) (sort_cmp (on_key pd_date by_number) (op_rescheduleMondays opts))"

definition monday_visit ::
  "plannable_day \<Rightarrow> plannable_day list \<Rightarrow> layout_options \<Rightarrow> string \<Rightarrow> monday_day \<times> stop list \<Rightarrow> stop \<Rightarrow> monday_day \<times> stop list" where
  "monday_visit monday days opts technicianId st stop =
     (let (d, rest) = st
      in if length (mo_stops d) < ru_size (rules_of days opts) \<and>
            mo_onSite d + onSiteMinutes stop \<le> maxOnSiteMinutes (limits_of opts) \<and> qualified_for monday technicianId stop
         then (d\<lparr>mo_stops := mo_stops d @ [stop], mo_onSite := mo_onSite d + onSiteMinutes stop\<rparr>, rest)
         else (d, rest @ [stop]))"

definition toMonday ::
  "plannable_day list \<Rightarrow> layout_options \<Rightarrow> day \<Rightarrow> string \<Rightarrow> stop list \<Rightarrow> (crew_key \<times> monday_day) list \<Rightarrow>
    stop list \<times> (crew_key \<times> monday_day) list" where
  "toMonday days opts date technicianId trimmed mondays =
     (case monday_after opts date of
        None \<Rightarrow> (trimmed, mondays)
      | Some monday \<Rightarrow>
          let key = (pd_date monday, technicianId)
          in if technicianId \<notin> set (pd_technicianIds monday) \<or> key \<in> set (op_taken opts) then (trimmed, mondays)
             else
               let d = (case map_of mondays key of Some d \<Rightarrow> d
                        | None \<Rightarrow> \<lparr>mo_date = pd_date monday, mo_technicianId = technicianId, mo_stops = [], mo_onSite = 0\<rparr>);
                   (d, rest) = foldl (monday_visit monday days opts technicianId) (d, []) trimmed
               in (rest, if mo_stops d = [] then mondays else AList.update key d mondays))"

definition plain_crew :: "day \<Rightarrow> string \<Rightarrow> stop list \<Rightarrow> int \<Rightarrow> real \<Rightarrow> day_anchor list option \<Rightarrow> nat option \<Rightarrow> assigned_crew" where
  "plain_crew date technicianId stops onSite drive anchors preset =
     \<lparr>ac_date = date, ac_technicianId = technicianId, ac_stops = stops, ac_onSiteMinutes = onSite, ac_driveMinutes = drive,
      ac_anchors = anchors, ac_trip = None, ac_preset = preset, ac_rescheduleMonday = False\<rparr>"

definition can_take :: "plannable_day \<Rightarrow> string \<Rightarrow> group \<Rightarrow> bool" where
  "can_take d technicianId grp = list_all (qualified_for d technicianId) (gr_path grp)"

text \<open>From a template: the office's group nearest the appointments, less what the day cannot hold.\<close>

definition anchored_preset ::
  "(string \<Rightarrow> string \<Rightarrow> int) \<Rightarrow> plannable_day list \<Rightarrow> layout_options \<Rightarrow> plannable_day \<Rightarrow> string \<Rightarrow> day_anchor list \<Rightarrow> group list \<Rightarrow>
    layout \<Rightarrow> layout" where
  "anchored_preset lc days opts d technicianId anchors groups la =
     (let theirs = filter (\<lambda>i. can_take d technicianId (groups ! i)) [0..<length groups]
      in case presetAroundAnchors anchors (map (\<lambda>i. groups ! i) theirs) (limits_of opts) (cost_of opts) (drive_of opts) of
           None \<Rightarrow>
             let filled = fillAroundAnchors anchors [] (limits_of opts) (cost_of opts) (drive_of opts)
             in la\<lparr>la_crews := la_crews la @ [plain_crew (pd_date d) technicianId (fd_visits filled) (fd_onSite filled)
                  (fd_drive filled) (Some anchors) None]\<rparr>
         | Some p \<Rightarrow>
             let i = theirs ! pr_group p;
                 rest_mondays = toMonday days opts (pd_date d) technicianId (pr_dropped p) (la_mondays la);
                 rest = fst rest_mondays;
                 left = filter (\<lambda>s. s \<notin> set (pr_visits p)) (la_left la);
                 left = filter (\<lambda>s. \<not> (s \<in> set (pr_dropped p) \<and> s \<notin> set rest)) left
             in la\<lparr>la_left := left, la_mondays := snd rest_mondays,
                   la_groups := Some (looseIntoGroups lc rest (take i groups @ drop (i + 1) groups) (rules_of days opts)),
                   la_crews := la_crews la @ [plain_crew (pd_date d) technicianId (pr_visits p) (pr_onSite p) (pr_drive p)
                     (Some anchors) (gr_preset (groups ! i))]\<rparr>)"

text \<open>Otherwise: the visits nearest the appointments, which breaks the groups made so far.\<close>

definition anchored_plain ::
  "layout_options \<Rightarrow> plannable_day \<Rightarrow> string \<Rightarrow> day_anchor list \<Rightarrow> layout \<Rightarrow> layout" where
  "anchored_plain opts d technicianId anchors la =
     (let filled = fillAroundAnchors anchors (filter (qualified_for d technicianId) (la_left la))
            (limits_of opts) (cost_of opts) (drive_of opts)
      in la\<lparr>la_groups := (if fd_visits filled = [] then la_groups la else None),
            la_left := filter (\<lambda>s. s \<notin> set (fd_visits filled)) (la_left la),
            la_crews := la_crews la @ [plain_crew (pd_date d) technicianId (fd_visits filled) (fd_onSite filled)
              (fd_drive filled) (Some anchors) None]\<rparr>)"

definition anchored_step ::
  "(string \<Rightarrow> string \<Rightarrow> int) \<Rightarrow> plannable_day list \<Rightarrow> layout_options \<Rightarrow> plannable_day \<Rightarrow> layout \<Rightarrow> string \<Rightarrow> layout" where
  "anchored_step lc days opts d la technicianId =
     (case map_of (anchored_days lc days opts) (pd_date d, technicianId) of
        None \<Rightarrow> la
      | Some anchors \<Rightarrow>
          (case (la_presets la, la_groups la) of
             (Some _, Some groups) \<Rightarrow> anchored_preset lc days opts d technicianId anchors groups la
           | _ \<Rightarrow> anchored_plain opts d technicianId anchors la))"


section \<open>Step 1: a group each, round the zones\<close>

definition circle_of :: "(string \<Rightarrow> string \<Rightarrow> int) \<Rightarrow> stop list \<Rightarrow> string list" where
  "circle_of lc left = sort_cmp (byZoneNumber lc) (uniq (map zoneOf left))"

definition startOf :: "plannable_day list \<Rightarrow> string list \<Rightarrow> (string \<rightharpoonup> nat) \<Rightarrow> string \<Rightarrow> plannable_day \<Rightarrow> nat" where
  "startOf days circle turnOf technicianId d =
     (case turnOf technicianId of
        Some known \<Rightarrow> known + 1
      | None \<Rightarrow>
          let owners = (case pd_zoneTechnicians d of None \<Rightarrow> [] | Some os \<Rightarrow> os);
              own = map_option fst (find (\<lambda>(z, t). t = technicianId) owners);
              place_in_crew = (case indexOf technicianId (crew_of days) of None \<Rightarrow> 0 | Some i \<Rightarrow> i)
          in case own of
               None \<Rightarrow> place_in_crew
             | Some z \<Rightarrow> (case indexOf z circle of None \<Rightarrow> place_in_crew | Some i \<Rightarrow> i))"

text \<open>\<open>group.zone ?? ''\<close>.\<close>

definition zone_label :: "group \<Rightarrow> string" where
  "zone_label grp = (case gr_zone grp of None \<Rightarrow> '''' | Some z \<Rightarrow> z)"

definition rank :: "stop list \<Rightarrow> layout_options \<Rightarrow> group \<Rightarrow> real" where
  "rank stops opts grp =
     - metresFromDowntown (map spot (gr_path grp)) +
     min_list (map (\<lambda>stop. of_nat (the (map_from (map (\<lambda>(index, s). (stopId s, index)) (enumerate 0 (ordered_stops stops opts)))
       (stopId stop)))) (gr_path grp)) / 10 ^ 6"

definition zone_for ::
  "(string \<Rightarrow> string \<Rightarrow> int) \<Rightarrow> plannable_day list \<Rightarrow> string list \<Rightarrow> plannable_day \<Rightarrow> (string \<rightharpoonup> nat) \<Rightarrow> string \<Rightarrow> string list \<Rightarrow>
    string list \<Rightarrow> string" where
  "zone_for lc days circle d turnOf technicianId available takenToday =
     (if circle \<noteq> [] then zoneRoundTheCircle lc circle (startOf days circle turnOf technicianId d) (uniq available) takenToday
      else available ! 0)"

definition give_group ::
  "(string \<Rightarrow> string \<Rightarrow> int) \<Rightarrow> stop list \<Rightarrow> plannable_day list \<Rightarrow> layout_options \<Rightarrow> string list \<Rightarrow> plannable_day \<Rightarrow>
    layout \<times> string list \<Rightarrow> string \<Rightarrow> layout \<times> string list" where
  "give_group lc stops days opts circle d st technicianId =
     (let (la, takenToday) = st;
          today = (case la_groups la of None \<Rightarrow> [] | Some gs \<Rightarrow> gs);
          theirs = filter (\<lambda>i. can_take d technicianId (today ! i)) [0..<length today]
      in if theirs = [] then st
         else
           let z = zone_for lc days circle d (la_turnOf la) technicianId (map (\<lambda>i. zone_label (today ! i)) theirs) takenToday;
               turnOf = (case indexOf z circle of None \<Rightarrow> la_turnOf la | Some i \<Rightarrow> (la_turnOf la)(technicianId \<mapsto> i));
               i = sort_key (\<lambda>i. rank stops opts (today ! i)) (filter (\<lambda>i. zone_label (today ! i) = z) theirs) ! 0;
               grp = today ! i
           in (la\<lparr>la_turnOf := turnOf,
                  la_groups := Some (take i today @ drop (i + 1) today),
                  la_left := filter (\<lambda>s. s \<notin> set (gr_path grp)) (la_left la),
                  la_crews := la_crews la @ [plain_crew (pd_date d) technicianId (gr_path grp) (gr_onSite grp)
                    (pathMinutes (gr_path grp) (on_stops (drive_of opts))) None (gr_preset grp)]\<rparr>,
               takenToday @ [z]))"

definition has_own_turn ::
  "plannable_day list \<Rightarrow> string list \<Rightarrow> plannable_day \<Rightarrow> (string \<rightharpoonup> nat) \<Rightarrow> group list \<Rightarrow> string \<Rightarrow> bool" where
  "has_own_turn days circle d turnOf today technicianId \<longleftrightarrow>
     circle \<noteq> [] \<and>
     list_ex (\<lambda>grp. zone_label grp = circle ! (startOf days circle turnOf technicianId d mod length circle) \<and>
       can_take d technicianId grp) today"

definition day_step ::
  "(string \<Rightarrow> string \<Rightarrow> int) \<Rightarrow> stop list \<Rightarrow> plannable_day list \<Rightarrow> layout_options \<Rightarrow> string list \<Rightarrow> layout \<Rightarrow> plannable_day \<Rightarrow> layout" where
  "day_step lc stops days opts circle la d =
     (let free = filter (\<lambda>t. (pd_date d, t) \<notin> set (op_taken opts) \<and> (pd_date d, t) \<notin> set (la_onTrip la)) (pd_technicianIds d);
          la = foldl (anchored_step lc days opts d) la free;
          others = filter (\<lambda>t. map_of (anchored_days lc days opts) (pd_date d, t) = None) free
      in if others = [] \<or> la_left la = [] then la
         else
           let today = (case la_groups la of None \<Rightarrow> groupsOf lc (la_left la) (rules_of days opts) | Some gs \<Rightarrow> gs);
               own = has_own_turn days circle d (la_turnOf la) today
           in fst (foldl (give_group lc stops days opts circle d) (la\<lparr>la_groups := Some today\<rparr>, [])
                (filter own others @ filter (\<lambda>t. \<not> own t) others)))"

section \<open>The whole quarter\<close>

definition monday_crew :: "layout_options \<Rightarrow> monday_day \<Rightarrow> assigned_crew" where
  "monday_crew opts m =
     (let ordered = pa_path (polished (mo_stops m) (on_stops (cost_of opts)))
      in \<lparr>ac_date = mo_date m, ac_technicianId = mo_technicianId m, ac_stops = ordered, ac_onSiteMinutes = mo_onSite m,
          ac_driveMinutes = pathMinutes ordered (on_stops (drive_of opts)), ac_anchors = None, ac_trip = None,
          ac_preset = None, ac_rescheduleMonday = True\<rparr>)"

definition finish_layout :: "plannable_day list \<Rightarrow> layout_options \<Rightarrow> layout \<Rightarrow> layout" where
  "finish_layout days opts la =
     (let (crews, left) = (if la_left la = [] then (la_crews la, []) else
            squeezeIn (la_crews la) (la_left la) (dayOn_of days) (limits_of opts) (cost_of opts) (drive_of opts))
      in la\<lparr>la_crews := crews @ map (\<lambda>(key, m). monday_crew opts m) (la_mondays la),
            la_left := left,
            la_unplaced := la_unplaced la @ map (\<lambda>stop. (stopId stop, NO_CAPACITY)) left\<rparr>)"

definition before_days ::
  "(string \<Rightarrow> string \<Rightarrow> int) \<Rightarrow> stop list \<Rightarrow> plannable_day list \<Rightarrow> layout_options \<Rightarrow> layout" where
  "before_days lc stops days opts =
     (let la = foldl (trip_step lc days opts) (layout_start stops days opts) (sort (uniq (op_tripZones opts)))
      in la\<lparr>la_groups := map_option (\<lambda>ps. looseIntoGroups lc (ps_loose ps) (ps_groups ps) (rules_of days opts)) (la_presets la)\<rparr>)"

definition layout_days ::
  "(string \<Rightarrow> string \<Rightarrow> int) \<Rightarrow> stop list \<Rightarrow> plannable_day list \<Rightarrow> layout_options \<Rightarrow> layout" where
  "layout_days lc stops days opts =
     (let la = before_days lc stops days opts
      in finish_layout days opts (foldl (day_step lc stops days opts (circle_of lc (la_left la))) la days))"

definition places :: "assigned_crew \<Rightarrow> placed_stop list" where
  "places c =
     map (\<lambda>(index, stop). \<lparr>pl_stopId = stopId stop, pl_date = ac_date c, pl_technicianId = ac_technicianId c, pl_position = index + 1\<rparr>)
       (enumerate 0 (ac_stops c))"

definition layoutEveryDay ::
  "(string \<Rightarrow> string \<Rightarrow> int) \<Rightarrow> stop list \<Rightarrow> plannable_day list \<Rightarrow> layout_options \<Rightarrow> quarter_assignment" where
  "layoutEveryDay lc stops days opts =
     (let capacity = \<lparr>cp_stops = length stops, cp_onSiteMinutes = sum_list (map onSiteMinutes stops),
            cp_availableMinutes = sum_list (map (\<lambda>d. int (length (pd_technicianIds d)) * maxOnSiteMinutes (limits_of opts)) days)\<rparr>
      in if days = [] then
           \<lparr>qa_placed = [], qa_crews = [], qa_unplaced = map (\<lambda>stop. (stopId stop, NO_WORKING_DAYS)) stops,
            qa_skippedAnchors = map (\<lambda>a. (an_id a, NOT_A_PLANNED_DAY)) (op_anchors opts), qa_capacity = capacity\<rparr>
         else
           let la = layout_days lc stops days opts;
               crews = sort_cmp (then_cmp (on_key ac_date by_number) (on_key ac_technicianId lc)) (la_crews la)
           in \<lparr>qa_placed = concat (map places crews), qa_crews = crews, qa_unplaced = la_unplaced la,
               qa_skippedAnchors = skipped_anchors lc days opts, qa_capacity = capacity\<rparr>)"

section \<open>The straight-line order\<close>

text \<open>\<open>bestIndex\<close> starts at \<open>0\<close> and \<open>bestDistance\<close> at \<open>Infinity\<close>.\<close>

definition nearest_index :: "point \<Rightarrow> point list \<Rightarrow> nat" where
  "nearest_index here remaining =
     (case least_offer (\<lambda>i. haversineMeters here (remaining ! i)) Some [0..<length remaining] of None \<Rightarrow> 0 | Some i \<Rightarrow> i)"

function nearest_order :: "point \<Rightarrow> point list \<Rightarrow> point list" where
  "nearest_order here remaining =
     (if remaining = [] then []
      else
        let i = nearest_index here remaining
        in remaining ! i # nearest_order (remaining ! i) (take i remaining @ drop (i + 1) remaining))"
  by pat_completeness auto
termination
proof (relation "measure (\<lambda>(here, remaining). length remaining)", goal_cases)
  case (2 here remaining i)
  have "i < length remaining"
    using 2 least_offer_SomeD(1) [of "\<lambda>i. haversineMeters here (remaining ! i)" Some "[0..<length remaining]"]
    by (force simp: nearest_index_def split: option.splits)
  then show ?case by simp
qed simp

declare nearest_order.simps [simp del]

definition nearestNeighbourOrder :: "point list \<Rightarrow> point list" where
  "nearestNeighbourOrder dayStops =
     (if length dayStops \<le> 2 then dayStops
      else dayStops ! 0 # nearest_order (dayStops ! 0) (drop 1 dayStops))"

end
