(* ===== verification/Day_Layout_Correct.thy ===== *)
theory Day_Layout_Correct
  imports Day_Layout
begin

text \<open>
  What a layout keeps: every visit is placed once or reported once, nobody has two days on one date,
  and nobody is given a visit they are not qualified for.
\<close>

section \<open>Visits that are the quarter's\<close>

text \<open>
  What a quarter's visits are taken to be: told apart by id, with ids that are neither empty, nor
  an appointment's (\<open>anchor:\<close>), nor run together when joined, and no negative minutes.
\<close>

definition quarter_stops :: "stop list \<Rightarrow> bool" where
  "quarter_stops stops \<longleftrightarrow> proper_stops stops \<and> (\<forall>s \<in> set stops. \<not> starts_with ANCHOR_STOP_PREFIX (stopId s))"

lemma quarter_stops_anchor: "quarter_stops u \<Longrightarrow> s \<in> set u \<Longrightarrow> anchorIdOf s = None"
  by (simp add: quarter_stops_def anchorIdOf_def)

lemma proper_sub:
  assumes "proper_stops u" "mset xs \<subseteq># mset u"
  shows "proper_stops xs"
proof -
  have "mset (map stopId xs) \<subseteq># mset (map stopId u)" using assms(2) by (simp add: image_mset_subseteq_mono)
  then have "distinct (map stopId xs)" using assms(1) unfolding proper_stops_def by (blast intro: distinct_submset)
  moreover have "set xs \<subseteq> set u" using assms(2) by (metis set_mset_mono set_mset_mset)
  ultimately show ?thesis using assms(1) by (auto simp: proper_stops_def)
qed

lemma sub_facts:
  assumes "proper_stops u" "mset xs \<subseteq># mset u"
  shows "distinct xs" "set xs \<subseteq> set u"
proof -
  show "distinct xs" by (rule proper_stops_distinct [OF proper_sub [OF assms]])
  show "set xs \<subseteq> set u" using set_mset_mono [OF assms(2)] by simp
qed

section \<open>Groups joined\<close>

lemma visits_of_map: "visits_of gs = sum_list (map (\<lambda>grp. mset (gr_path grp)) gs)"
  by (induction gs) simp_all

lemma visits_of_update:
  "i < length gs \<Longrightarrow> mset (gr_path grp) = add_mset stop (mset (gr_path (gs ! i))) \<Longrightarrow>
    visits_of (gs[i := grp]) = add_mset stop (visits_of gs)"
  using visits_of_change [of "gs[i := grp]" gs i] by simp

lemma visits_of_remove: "i < length gs \<Longrightarrow> visits_of (take i gs @ drop (i + 1) gs) + mset (gr_path (gs ! i)) = visits_of gs"
proof -
  assume "i < length gs"
  then have "gs = take i gs @ gs ! i # drop (i + 1) gs" by (simp add: id_take_nth_drop)
  then have "visits_of gs = visits_of (take i gs) + (mset (gr_path (gs ! i)) + visits_of (drop (i + 1) gs))"
    by (metis visits_of_append visits_of_simps(2))
  then show ?thesis by (simp add: ac_simps)
qed

lemma nearest_offer_group: "nearest_offer rules groups stop i = Some b \<Longrightarrow> jo_group b = i"
  by (auto simp: nearest_offer_def Let_def split: if_splits prod.splits)

lemma anyway_offer_group: "anyway_offer rules groups stop i = Some b \<Longrightarrow> jo_group b = i"
  by (auto simp: anyway_offer_def Let_def split: if_splits prod.splits)

lemma joined_one:
  assumes "i < length groups" "groups' = groups[i := grp]" "gr_path grp = insert_at k stop (gr_path (groups ! i))"
  shows "visits_of groups' = add_mset stop (visits_of groups)"
    "(\<forall>grp \<in> set groups. gr_path grp \<noteq> []) \<longrightarrow> (\<forall>grp \<in> set groups'. gr_path grp \<noteq> [])"
proof -
  show "visits_of groups' = add_mset stop (visits_of groups)" using assms by (simp add: visits_of_update)
  have "gr_path grp \<noteq> []" using assms(3) by (simp add: insert_at_def)
  then show "(\<forall>grp \<in> set groups. gr_path grp \<noteq> []) \<longrightarrow> (\<forall>grp \<in> set groups'. gr_path grp \<noteq> [])"
    using set_update_subset_insert [of groups i grp] assms(2) by blast
qed

lemma joinNearest_facts:
  assumes "joinNearest stop groups rules = (ok, groups')"
  shows "visits_of groups' + (if ok then {#} else {#stop#}) = add_mset stop (visits_of groups)"
    "\<forall>grp \<in> set groups. gr_path grp \<noteq> [] \<Longrightarrow> \<forall>grp \<in> set groups'. gr_path grp \<noteq> []"
proof -
  have "visits_of groups' + (if ok then {#} else {#stop#}) = add_mset stop (visits_of groups) \<and>
    ((\<forall>grp \<in> set groups. gr_path grp \<noteq> []) \<longrightarrow> (\<forall>grp \<in> set groups'. gr_path grp \<noteq> []))"
  proof (cases "least_offer jo_added (nearest_offer rules groups stop) [0..<length groups]")
    case None
    then show ?thesis using assms by (simp add: joinNearest_def)
  next
    case (Some b)
    then have b: "jo_group b < length groups"
      using least_offer_SomeD(1) [OF Some] nearest_offer_group by fastforce
    from assms Some have "ok" and eq: "groups' = groups[jo_group b := (groups ! jo_group b)\<lparr>gr_path := insert_at (jo_at b) stop (gr_path (groups ! jo_group b)), gr_cost := gr_cost (groups ! jo_group b) + jo_added b, gr_onSite := gr_onSite (groups ! jo_group b) + onSiteMinutes stop\<rparr>]"
      by (simp_all add: joinNearest_def Let_def)
    with joined_one [OF b eq, of "jo_at b" stop] show ?thesis by simp
  qed
  then show "visits_of groups' + (if ok then {#} else {#stop#}) = add_mset stop (visits_of groups)"
    "\<forall>grp \<in> set groups. gr_path grp \<noteq> [] \<Longrightarrow> \<forall>grp \<in> set groups'. gr_path grp \<noteq> []" by blast+
qed

lemma joinAnyway_facts:
  assumes "joinAnyway stop groups rules = (ok, groups')"
  shows "visits_of groups' + (if ok then {#} else {#stop#}) = add_mset stop (visits_of groups)"
    "\<forall>grp \<in> set groups. gr_path grp \<noteq> [] \<Longrightarrow> \<forall>grp \<in> set groups'. gr_path grp \<noteq> []"
proof -
  have "visits_of groups' + (if ok then {#} else {#stop#}) = add_mset stop (visits_of groups) \<and>
    ((\<forall>grp \<in> set groups. gr_path grp \<noteq> []) \<longrightarrow> (\<forall>grp \<in> set groups'. gr_path grp \<noteq> []))"
  proof (cases "least_offer jo_added (anyway_offer rules groups stop) [0..<length groups]")
    case None
    then show ?thesis using assms by (simp add: joinAnyway_def)
  next
    case (Some b)
    then have b: "jo_group b < length groups"
      using least_offer_SomeD(1) [OF Some] anyway_offer_group by fastforce
    from assms Some have "ok" and eq: "groups' = groups[jo_group b := (groups ! jo_group b)\<lparr>gr_path := insert_at (jo_at b) stop (gr_path (groups ! jo_group b)),
        gr_cost := pathMinutes (insert_at (jo_at b) stop (gr_path (groups ! jo_group b))) (on_stops (ru_cost rules)), gr_onSite := gr_onSite (groups ! jo_group b) + onSiteMinutes stop\<rparr>]"
      by (simp_all add: joinAnyway_def Let_def)
    with joined_one [OF b eq, of "jo_at b" stop] show ?thesis by simp
  qed
  then show "visits_of groups' + (if ok then {#} else {#stop#}) = add_mset stop (visits_of groups)"
    "\<forall>grp \<in> set groups. gr_path grp \<noteq> [] \<Longrightarrow> \<forall>grp \<in> set groups'. gr_path grp \<noteq> []" by blast+
qed

locale joining_rule =
  fixes join :: "stop \<Rightarrow> group list \<Rightarrow> bool \<times> group list"
  assumes keeps: "join stop groups = (ok, groups') \<Longrightarrow>
      visits_of groups' + (if ok then {#} else {#stop#}) = add_mset stop (visits_of groups)"
    and nonempty: "join stop groups = (ok, groups') \<Longrightarrow> \<forall>grp \<in> set groups. gr_path grp \<noteq> [] \<Longrightarrow>
      \<forall>grp \<in> set groups'. gr_path grp \<noteq> []"
begin

lemma not_joined_keeps:
  "not_joined join stops pool = (rest, pool') \<Longrightarrow>
    visits_of pool' + mset rest = visits_of pool + mset stops \<and> mset rest \<subseteq># mset stops \<and>
    ((\<forall>grp \<in> set pool. gr_path grp \<noteq> []) \<longrightarrow> (\<forall>grp \<in> set pool'. gr_path grp \<noteq> []))"
proof (induction stops arbitrary: pool rest pool')
  case (Cons stop stops)
  obtain ok pool1 where one: "join stop pool = (ok, pool1)" by fastforce
  obtain rest1 pool2 where two: "not_joined join stops pool1 = (rest1, pool2)" by fastforce
  have eqs: "rest = (if ok then rest1 else stop # rest1)" "pool' = pool2" using Cons.prems one two by auto
  note ih = Cons.IH [OF two]
  show ?case
  proof (cases ok)
    case True
    with ih keeps [OF one] nonempty [OF one] eqs show ?thesis by (auto intro: subset_mset.order_trans)
  next
    case False
    with ih keeps [OF one] nonempty [OF one] eqs show ?thesis by auto
  qed
qed simp

end

interpretation nearest: joining_rule "\<lambda>stop gs. joinNearest stop gs rules" for rules
proof
  fix stop groups ok groups'
  assume r: "joinNearest stop groups rules = (ok, groups')"
  from r show "visits_of groups' + (if ok then {#} else {#stop#}) = add_mset stop (visits_of groups)" by (rule joinNearest_facts(1))
  from r show "\<forall>grp \<in> set groups. gr_path grp \<noteq> [] \<Longrightarrow> \<forall>grp \<in> set groups'. gr_path grp \<noteq> []" by (rule joinNearest_facts(2))
qed

interpretation anyway: joining_rule "\<lambda>stop gs. joinAnyway stop gs rules" for rules
proof
  fix stop groups ok groups'
  assume r: "joinAnyway stop groups rules = (ok, groups')"
  from r show "visits_of groups' + (if ok then {#} else {#stop#}) = add_mset stop (visits_of groups)" by (rule joinAnyway_facts(1))
  from r show "\<forall>grp \<in> set groups. gr_path grp \<noteq> [] \<Longrightarrow> \<forall>grp \<in> set groups'. gr_path grp \<noteq> []" by (rule joinAnyway_facts(2))
qed

lemma visits_of_partition: "visits_of (filter P gs) + visits_of (filter (\<lambda>grp. \<not> P grp) gs) = visits_of gs"
  by (induction gs) (simp_all add: ac_simps)

definition sizes_ok :: "group_rules \<Rightarrow> bool" where
  "sizes_ok rules \<longleftrightarrow> ru_size rules \<le> ru_most rules \<and> 1 \<le> ru_most rules"

lemma groupsOf_visits:
  assumes "proper_stops pool" "sizes_ok rules" "\<forall>s \<in> set pool. onSiteMinutes s \<le> maxOnSiteMinutes (ru_limits rules)"
  shows "visits_of (groupsOf lc pool rules) = mset pool" "\<forall>grp \<in> set (groupsOf lc pool rules). gr_path grp \<noteq> []"
  using groupsOf_facts [OF assms(1) _ _ assms(3), of lc] assms(2) by (auto simp: sizes_ok_def grouping_ok_def)

lemma looseIntoGroups_facts:
  assumes proper: "proper_stops loose" and sizes: "sizes_ok rules"
    and time: "\<forall>s \<in> set loose. onSiteMinutes s \<le> maxOnSiteMinutes (ru_limits rules)"
    and ne: "\<forall>grp \<in> set groups. gr_path grp \<noteq> []"
  shows "visits_of (looseIntoGroups lc loose groups rules) = visits_of groups + mset loose"
    "\<forall>grp \<in> set (looseIntoGroups lc loose groups rules). gr_path grp \<noteq> []"
proof -
  define own where "own = groupsOf lc loose rules"
  note own = groupsOf_visits [OF proper sizes time, of lc, folded own_def]
  define pool where "pool = groups @ filter (\<lambda>grp. ru_size rules \<le> length (gr_path grp)) own"
  define short where "short = concat (map gr_path (filter (\<lambda>grp. length (gr_path grp) < ru_size rules) own))"
  have split: "visits_of pool + mset short = visits_of groups + mset loose"
    using visits_of_partition [of "\<lambda>grp. ru_size rules \<le> length (gr_path grp)" own] own(1)
    by (simp add: pool_def short_def visits_of_concat [symmetric] not_le add.assoc)
  have short: "mset short \<subseteq># mset loose"
    using visits_of_partition [of "\<lambda>grp. ru_size rules \<le> length (gr_path grp)" own] own(1)
    by (simp add: short_def visits_of_concat [symmetric] not_le) (metis mset_subset_eq_add_right)
  have pool_ne: "\<forall>grp \<in> set pool. gr_path grp \<noteq> []" using ne own(2) by (auto simp: pool_def)
  obtain stranded pool1 where one: "not_joined (\<lambda>stop gs. joinNearest stop gs rules) short pool = (stranded, pool1)" by fastforce
  obtain over pool2 where two: "not_joined (\<lambda>stop gs. joinAnyway stop gs rules) stranded pool1 = (over, pool2)" by fastforce
  note f1 = nearest.not_joined_keeps [OF one] and f2 = anyway.not_joined_keeps [OF two]
  have over: "mset over \<subseteq># mset loose" using f1 f2 short by (meson subset_mset.order_trans)
  then have "set over \<subseteq> set loose" by (metis set_mset_mono set_mset_mset)
  with time have "\<forall>s \<in> set over. onSiteMinutes s \<le> maxOnSiteMinutes (ru_limits rules)" by blast
  note last = groupsOf_visits [OF proper_sub [OF proper over] sizes this, of lc]
  have eq: "looseIntoGroups lc loose groups rules = (if loose = [] then groups else pool2 @ groupsOf lc over rules)"
    using one two by (simp add: looseIntoGroups_def Let_def own_def pool_def short_def)
  show "visits_of (looseIntoGroups lc loose groups rules) = visits_of groups + mset loose"
    using f1 f2 split by (simp add: eq last)
  show "\<forall>grp \<in> set (looseIntoGroups lc loose groups rules). gr_path grp \<noteq> []"
    using f1 f2 pool_ne ne last(2) by (auto simp: eq)
qed


section \<open>What a layout holds\<close>

definition crew_visits :: "assigned_crew list \<Rightarrow> stop multiset" where
  "crew_visits crews = mset (concat (map ac_stops crews))"

definition monday_visits :: "(crew_key \<times> monday_day) list \<Rightarrow> stop multiset" where
  "monday_visits mondays = mset (concat (map (mo_stops \<circ> snd) mondays))"

definition held :: "layout \<Rightarrow> stop multiset" where
  "held la = mset (la_left la) + crew_visits (la_crews la) + monday_visits (la_mondays la)"

definition layout_ok :: "stop list \<Rightarrow> group_rules \<Rightarrow> layout \<Rightarrow> bool" where
  "layout_ok u rules la \<longleftrightarrow>
     held la \<subseteq># mset u \<and> mset (map fst (la_unplaced la)) = image_mset stopId (mset u - held la) \<and>
     (\<forall>s \<in> set (la_left la). onSiteMinutes s \<le> maxOnSiteMinutes (ru_limits rules)) \<and>
     distinct (map fst (la_mondays la))"

text \<open>The groups still to be given out hold what is left.\<close>

definition groups_hold :: "layout \<Rightarrow> bool" where
  "groups_hold la \<longleftrightarrow>
     (\<forall>gs. la_groups la = Some gs \<longrightarrow> visits_of gs = mset (la_left la) \<and> (\<forall>grp \<in> set gs. gr_path grp \<noteq> []))"

definition presets_hold :: "layout \<Rightarrow> bool" where
  "presets_hold la \<longleftrightarrow>
     (\<forall>ps. la_presets la = Some ps \<longrightarrow>
        visits_of (ps_groups ps) + mset (ps_loose ps) = mset (la_left la) \<and> (\<forall>grp \<in> set (ps_groups ps). gr_path grp \<noteq> []))"

lemma crew_visits_simps [simp]:
  "crew_visits [] = {#}" "crew_visits (c # cs) = mset (ac_stops c) + crew_visits cs" "crew_visits (cs @ ds) = crew_visits cs + crew_visits ds"
  by (simp_all add: crew_visits_def)

lemma monday_visits_simps [simp]:
  "monday_visits [] = {#}" "monday_visits (m # ms) = mset (mo_stops (snd m)) + monday_visits ms"
  by (simp_all add: monday_visits_def)

lemma left_sub: "layout_ok u rules la \<Longrightarrow> mset (la_left la) \<subseteq># mset u"
  unfolding layout_ok_def held_def by (meson mset_subset_eq_add_left subset_mset.order_trans)

text \<open>Visits taken from what is left and given to crews and Mondays.\<close>

lemma layout_ok_moved:
  assumes "layout_ok u rules la" "held la' = held la" "la_unplaced la' = la_unplaced la" "set (la_left la') \<subseteq> set (la_left la)"
    "distinct (map fst (la_mondays la'))"
  shows "layout_ok u rules la'"
  using assms by (auto simp: layout_ok_def)

lemma mset_take_out:
  assumes "distinct left" "mset path \<subseteq># mset left"
  shows "mset (filter (\<lambda>s. s \<notin> set path) left) + mset path = mset left"
proof (rule mset_filter_run [OF assms(1)])
  show "distinct path" by (rule distinct_submset [OF assms(2,1)])
  show "set path \<subseteq> set left" using set_mset_mono [OF assms(2)] by simp
qed

section \<open>The start of a layout\<close>

lemma ordered_stops_mset [simp]: "mset (ordered_stops stops opts) = mset stops"
  by (simp add: ordered_stops_def)

lemma sort_stops_facts:
  assumes "la' = foldl (sort_stop days opts) la xs"
  shows "mset (map stopId (la_left la')) + mset (map fst (la_unplaced la')) =
      mset (map stopId (la_left la)) + mset (map fst (la_unplaced la)) + mset (map stopId xs)"
    "mset (la_left la') \<subseteq># mset (la_left la) + mset xs"
    "\<forall>s \<in> set (la_left la'). s \<in> set (la_left la) \<or> onSiteMinutes s \<le> maxOnSiteMinutes (limits_of opts)"
    "la_crews la' = la_crews la" "la_mondays la' = la_mondays la" "la_onTrip la' = la_onTrip la"
    "la_groups la' = la_groups la"
proof -
  have "mset (map stopId (la_left la')) + mset (map fst (la_unplaced la')) =
      mset (map stopId (la_left la)) + mset (map fst (la_unplaced la)) + mset (map stopId xs) \<and>
    mset (la_left la') \<subseteq># mset (la_left la) + mset xs \<and>
    (\<forall>s \<in> set (la_left la'). s \<in> set (la_left la) \<or> onSiteMinutes s \<le> maxOnSiteMinutes (limits_of opts)) \<and>
    la_crews la' = la_crews la \<and> la_mondays la' = la_mondays la \<and> la_onTrip la' = la_onTrip la \<and> la_groups la' = la_groups la"
    using assms
  proof (induction xs arbitrary: la)
    case (Cons x xs)
    from Cons.prems have "la' = foldl (sort_stop days opts) (sort_stop days opts la x) xs" by simp
    from Cons.IH [OF this] show ?case
      by (auto simp: sort_stop_def split: if_splits intro: subset_mset.order_trans)
  qed simp
  then show "mset (map stopId (la_left la')) + mset (map fst (la_unplaced la')) =
      mset (map stopId (la_left la)) + mset (map fst (la_unplaced la)) + mset (map stopId xs)"
    "mset (la_left la') \<subseteq># mset (la_left la) + mset xs"
    "\<forall>s \<in> set (la_left la'). s \<in> set (la_left la) \<or> onSiteMinutes s \<le> maxOnSiteMinutes (limits_of opts)"
    "la_crews la' = la_crews la" "la_mondays la' = la_mondays la" "la_onTrip la' = la_onTrip la"
    "la_groups la' = la_groups la"
    by blast+
qed

section \<open>The office's groups\<close>

definition walk_ok :: "stop list \<Rightarrow> stop multiset \<Rightarrow> preset_walk \<Rightarrow> bool" where
  "walk_ok left given w \<longleftrightarrow>
     mset (pw_used w) = given + mset (pw_path w) + mset (pw_loose w) \<and> distinct (pw_used w) \<and> set (pw_used w) \<subseteq> set left"

lemma preset_visit_ok:
  assumes "walk_ok left given w" "\<And>stop. byId i = Some stop \<Longrightarrow> stop \<in> set left"
  shows "walk_ok left given (preset_visit byId limits w i)"
  using assms by (auto simp: walk_ok_def preset_visit_def Let_def split: option.split)

lemma preset_visits_ok:
  assumes "\<And>i stop. byId i = Some stop \<Longrightarrow> stop \<in> set left"
  shows "walk_ok left given w \<Longrightarrow> walk_ok left given (foldl (preset_visit byId limits) w is)"
proof (induction "is" arbitrary: w)
  case (Cons i "is")
  from Cons.IH [OF preset_visit_ok [OF Cons.prems assms]] show ?case by simp
qed simp

lemma preset_groups_ok:
  assumes "\<And>i stop. byId i = Some stop \<Longrightarrow> stop \<in> set left"
    and "mset used = visits_of groups + mset loose" "distinct used" "set used \<subseteq> set left" "\<forall>grp \<in> set groups. gr_path grp \<noteq> []"
    and "foldl (preset_group byId rules) (used, groups, loose) ps = (used', groups', loose')"
  shows "mset used' = visits_of groups' + mset loose' \<and> distinct used' \<and> set used' \<subseteq> set left \<and> (\<forall>grp \<in> set groups'. gr_path grp \<noteq> [])"
  using assms(2-)
proof (induction ps arbitrary: used groups loose)
  case (Cons p ps)
  define w where "w = foldl (preset_visit byId (ru_limits rules))
    \<lparr>pw_used = used, pw_loose = loose, pw_path = [], pw_onSite = 0, pw_full = False\<rparr> (snd p)"
  have "walk_ok left (visits_of groups) w"
    unfolding w_def by (rule preset_visits_ok [OF assms(1)]) (use Cons.prems in \<open>simp_all add: walk_ok_def\<close>)
  then have w: "mset (pw_used w) = visits_of (if pw_path w = [] then groups else groups @ [asGroup (pw_path w) rules (Some (fst p))]) + mset (pw_loose w)"
    "distinct (pw_used w)" "set (pw_used w) \<subseteq> set left"
    by (simp_all add: walk_ok_def asGroup_def)
  have "\<forall>grp \<in> set (if pw_path w = [] then groups else groups @ [asGroup (pw_path w) rules (Some (fst p))]). gr_path grp \<noteq> []"
    using Cons.prems(4) by (simp add: asGroup_def)
  moreover have "preset_group byId rules (used, groups, loose) p =
      (pw_used w, if pw_path w = [] then groups else groups @ [asGroup (pw_path w) rules (Some (fst p))], pw_loose w)"
    by (simp add: preset_group_def w_def Let_def)
  with Cons.prems(5) have "foldl (preset_group byId rules)
      (pw_used w, if pw_path w = [] then groups else groups @ [asGroup (pw_path w) rules (Some (fst p))], pw_loose w) ps =
    (used', groups', loose')" by (simp only: foldl_Cons)
  ultimately show ?case by (intro Cons.IH [OF w])
qed simp

lemma presetGroupsOf_facts:
  assumes "distinct left"
  shows "visits_of (ps_groups (presetGroupsOf presets left rules)) + mset (ps_loose (presetGroupsOf presets left rules)) = mset left \<and>
    (\<forall>grp \<in> set (ps_groups (presetGroupsOf presets left rules)). gr_path grp \<noteq> [])"
proof -
  define byId where "byId = map_of (rev (map (\<lambda>stop. (stopId stop, stop)) left))"
  obtain used groups loose where r: "foldl (preset_group byId rules) ([], [], []) (enumerate 0 presets) = (used, groups, loose)"
    by (cases "foldl (preset_group byId rules) ([], [], []) (enumerate 0 presets)") auto
  have "stop \<in> set left" if "byId i = Some stop" for i stop
    using map_of_SomeD [OF that [unfolded byId_def]] by auto
  from preset_groups_ok [OF this _ _ _ _ r] have
    h: "mset used = visits_of groups + mset loose" "distinct used" "set used \<subseteq> set left" "\<forall>grp \<in> set groups. gr_path grp \<noteq> []"
    by auto
  have "mset (filter (\<lambda>s. s \<notin> set used) left) + mset used = mset left"
    by (rule mset_filter_run [OF assms h(2,3)])
  with h show ?thesis
    using r by (simp add: presetGroupsOf_def byId_def [symmetric] Let_def ac_simps)
qed

lemma layout_start_ok:
  assumes u: "proper_stops u" and rules: "ru_limits rules = limits_of opts"
  shows "layout_ok u rules (layout_start u days opts)" "presets_hold (layout_start u days opts)"
    "la_presets (layout_start u days opts) = None \<longleftrightarrow> op_presetGroups opts = None"
    "la_crews (layout_start u days opts) = []" "la_onTrip (layout_start u days opts) = []"
    "la_mondays (layout_start u days opts) = []" "la_groups (layout_start u days opts) = None"
proof -
  define la where "la = foldl (sort_stop days opts)
    \<lparr>la_left = [], la_crews = [], la_unplaced = [], la_presets = None, la_groups = None, la_onTrip = [],
     la_mondays = [], la_turnOf = Map.empty\<rparr> (ordered_stops u opts)"
  note start = sort_stops_facts [OF la_def, simplified]
  have eq: "layout_start u days opts =
      la\<lparr>la_presets := map_option (\<lambda>ps. presetGroupsOf ps (la_left la) (rules_of days opts)) (op_presetGroups opts)\<rparr>"
    by (simp add: layout_start_def la_def Let_def)
  have sub: "mset (la_left la) \<subseteq># mset u" using start(2) by simp
  have "mset (map fst (la_unplaced la)) = image_mset stopId (mset u - mset (la_left la))"
  proof -
    have "image_mset stopId (mset u) = image_mset stopId (mset u - mset (la_left la)) + image_mset stopId (mset (la_left la))"
      using sub by (metis image_mset_union subset_mset.diff_add)
    moreover have "image_mset stopId (mset (la_left la)) + mset (map fst (la_unplaced la)) = image_mset stopId (mset u)"
      using start(1) by (metis mset_map ordered_stops_mset)
    ultimately show ?thesis by simp
  qed
  then show "layout_ok u rules (layout_start u days opts)"
    using start sub by (simp add: eq layout_ok_def held_def rules)
  show "presets_hold (layout_start u days opts)"
    using presetGroupsOf_facts [OF sub_facts(1) [OF u sub]] by (auto simp: eq presets_hold_def)
  show "la_presets (layout_start u days opts) = None \<longleftrightarrow> op_presetGroups opts = None"
    "la_crews (layout_start u days opts) = []" "la_onTrip (layout_start u days opts) = []"
    "la_mondays (layout_start u days opts) = []" "la_groups (layout_start u days opts) = None"
    using start by (simp_all add: eq)
qed


section \<open>Trips\<close>

lemma visits_of_mset: "mset gs = mset hs \<Longrightarrow> visits_of gs = visits_of hs"
  unfolding visits_of_map by (metis mset_map sum_mset_sum_list)

lemma chain_groups_mset: "mset (chain_groups drive start left) = mset left"
proof (induction drive start left rule: chain_groups.induct)
  case (1 drive start left)
  show ?case
  proof (cases "least_offer (group_minutes drive start) Some left")
    case None
    then have "left = []" by (cases left) (auto simp: least_offer_None)
    with None show ?thesis by (subst chain_groups.simps) simp
  next
    case (Some grp)
    then have "grp \<in> set left" using least_offer_SomeD(1) by fastforce
    with Some 1 [OF Some] show ?thesis by (subst chain_groups.simps) simp
  qed
qed

lemma first_some_SomeD: "first_some f xs = Some y \<Longrightarrow> \<exists>x \<in> set xs. f x = Some y"
  by (induction xs) (auto split: option.splits)

lemma trip_crews_visits: "crew_visits (map (trip_crew drive z t run n) (enumerate k trip)) = visits_of trip"
  by (induction trip arbitrary: k) (simp_all add: trip_crew_def)

lemma planTrip_SomeD:
  assumes "planTrip z members days crew drive homes unavailable groups = Some crews"
  obtains t run trip where "t \<in> set crew" "firstRun days (length groups)
      (\<lambda>d. \<not> unavailable (pd_date d, t) \<and> list_all (qualified_for d t) members) = Some run"
    "mset trip = mset groups" "crews = map (trip_crew drive z t run (length trip)) (enumerate 0 trip)"
proof -
  from first_some_SomeD [OF assms [unfolded planTrip_def Let_def]] obtain t where t: "t \<in> set crew"
    "trip_of z members days drive homes unavailable groups t = Some crews" by auto
  then show thesis
    using that [OF t(1), of _ "chainedGroups groups (homes t) drive"]
    by (auto simp: trip_of_def Let_def chainedGroups_def chain_groups_mset)
qed

lemma layout_ok_take:
  assumes ok: "layout_ok u rules la" and left: "mset left' + mset members = mset (la_left la)"
  shows "layout_ok u rules (la\<lparr>la_left := left', la_unplaced := la_unplaced la @ map (\<lambda>s. (stopId s, reason)) members\<rparr>)"
    "crew_visits trip = mset members \<Longrightarrow> layout_ok u rules (la\<lparr>la_left := left', la_crews := la_crews la @ trip\<rparr>)"
proof -
  define h where "h = mset left' + crew_visits (la_crews la) + monday_visits (la_mondays la)"
  have held: "held la = h + mset members" using left by (simp add: held_def h_def ac_simps)
  then have h: "h \<subseteq># mset u" using ok by (metis layout_ok_def mset_subset_eq_add_left subset_mset.order_trans)
  have more: "mset u - h = (mset u - (h + mset members)) + mset members"
  proof -
    from ok have "h + mset members \<subseteq># mset u" by (simp add: layout_ok_def held)
    then obtain k where "mset u = h + mset members + k" by (metis mset_subset_eq_exists_conv)
    then show ?thesis by (simp add: add.assoc)
  qed
  have "set left' \<subseteq> set (la_left la)" using left by (metis mset_subset_eq_add_left set_mset_mono set_mset_mset)
  then show "layout_ok u rules (la\<lparr>la_left := left', la_unplaced := la_unplaced la @ map (\<lambda>s. (stopId s, reason)) members\<rparr>)"
    using ok h held image_mset_union [of stopId "mset u - (h + mset members)" "mset members", folded more]
    by (auto simp: layout_ok_def held_def h_def [symmetric] comp_def)
  show "layout_ok u rules (la\<lparr>la_left := left', la_crews := la_crews la @ trip\<rparr>)" if "crew_visits trip = mset members"
    using that held \<open>set left' \<subseteq> set (la_left la)\<close>
    by (intro layout_ok_moved [OF ok]) (use ok in \<open>auto simp: held_def h_def layout_ok_def ac_simps\<close>)
qed

lemma trip_members_facts:
  assumes u: "proper_stops u" and ok: "layout_ok u rules la" and ps: "presets_hold la"
    and m: "trip_members la z = (tripGroups, looseHere, members)"
  shows "mset members \<subseteq># mset (la_left la)" "visits_of tripGroups + mset looseHere = (if la_presets la = None then {#} else mset members)"
    "la_presets la \<noteq> None \<Longrightarrow> visits_of tripGroups + mset looseHere = mset members"
    "mset looseHere \<subseteq># mset (la_left la)"
    "presets_hold (without_trip z members la)"
    "mset (la_left (without_trip z members la)) + mset members = mset (la_left la)"
proof -
  have left: "distinct (la_left la)" using sub_facts(1) [OF u left_sub [OF ok]] .
  have all: "mset members \<subseteq># mset (la_left la) \<and>
    visits_of tripGroups + mset looseHere = (if la_presets la = None then {#} else mset members) \<and>
    mset looseHere \<subseteq># mset (la_left la)"
  proof (cases "la_presets la")
    case None
    with m show ?thesis by (auto simp: trip_members_def Let_def multiset_filter_subset)
  next
    case (Some p)
    then have g: "tripGroups = filter (\<lambda>grp. mainZone (gr_path grp) = z) (ps_groups p)"
      and l: "looseHere = filter (\<lambda>stop. zoneOf stop = z) (ps_loose p)" and mm: "members = concat (map gr_path tripGroups) @ looseHere"
      using m by (auto simp: trip_members_def Let_def)
    have "visits_of tripGroups \<subseteq># visits_of (ps_groups p)"
      using visits_of_partition [of "\<lambda>grp. mainZone (gr_path grp) = z" "ps_groups p"] unfolding g by (metis mset_subset_eq_add_left)
    moreover have loose: "mset looseHere \<subseteq># mset (ps_loose p)" unfolding l by (simp add: multiset_filter_subset)
    ultimately have "visits_of tripGroups + mset looseHere \<subseteq># visits_of (ps_groups p) + mset (ps_loose p)" by (rule subset_mset.add_mono)
    moreover have "visits_of (ps_groups p) + mset (ps_loose p) = mset (la_left la)" using ps Some by (simp add: presets_hold_def)
    moreover have "mset members = visits_of tripGroups + mset looseHere" by (simp add: mm visits_of_concat)
    ultimately show ?thesis using Some by (metis (no_types, lifting) mset_subset_eq_add_right option.simps(3) subset_mset.order_trans)
  qed
  then show sub: "mset members \<subseteq># mset (la_left la)" "visits_of tripGroups + mset looseHere = (if la_presets la = None then {#} else mset members)"
    "la_presets la \<noteq> None \<Longrightarrow> visits_of tripGroups + mset looseHere = mset members" "mset looseHere \<subseteq># mset (la_left la)"
    by auto
  show out: "mset (la_left (without_trip z members la)) + mset members = mset (la_left la)"
    using mset_take_out [OF left sub(1)] by (simp add: without_trip_def)
  show "presets_hold (without_trip z members la)"
  proof (cases "la_presets la")
    case None
    then show ?thesis by (simp add: presets_hold_def without_trip_def)
  next
    case (Some p)
    let ?rest = "filter (\<lambda>grp. mainZone (gr_path grp) \<noteq> z) (ps_groups p)" and ?loose = "filter (\<lambda>stop. zoneOf stop \<noteq> z) (ps_loose p)"
    have g: "tripGroups = filter (\<lambda>grp. mainZone (gr_path grp) = z) (ps_groups p)"
      and l: "looseHere = filter (\<lambda>stop. zoneOf stop = z) (ps_loose p)"
      using m Some by (auto simp: trip_members_def Let_def)
    have "visits_of tripGroups + visits_of ?rest = visits_of (ps_groups p)" unfolding g by (rule visits_of_partition)
    moreover have "mset (ps_loose p) = mset looseHere + mset ?loose"
      unfolding l mset_filter by (rule multiset_partition)
    moreover have "visits_of (ps_groups p) + mset (ps_loose p) = mset (la_left la)" using ps Some by (simp add: presets_hold_def)
    ultimately have "mset (la_left la) = (visits_of tripGroups + visits_of ?rest) + (mset looseHere + mset ?loose)" by metis
    then have "(visits_of ?rest + mset ?loose) + (visits_of tripGroups + mset looseHere) = mset (la_left la)"
      by (simp add: ac_simps del: mset_filter)
    with out sub(3) Some have "visits_of ?rest + mset ?loose = mset (la_left (without_trip z members la))"
      by (metis add_right_cancel option.simps(3))
    moreover have "la_presets (without_trip z members la) = Some \<lparr>ps_groups = ?rest, ps_loose = ?loose\<rparr>"
      using Some by (simp add: without_trip_def)
    moreover have "\<forall>grp \<in> set ?rest. gr_path grp \<noteq> []" using ps Some by (simp add: presets_hold_def)
    ultimately show ?thesis unfolding presets_hold_def by (metis option.sel presets.select_convs(1) presets.select_convs(2))
  qed
qed


lemma sizes_ok_zoned [simp]: "sizes_ok (rules\<lparr>ru_zoned := zoned\<rparr>) = sizes_ok rules"
  by (simp add: sizes_ok_def)

lemma left_time: "layout_ok u rules la \<Longrightarrow> mset xs \<subseteq># mset (la_left la) \<Longrightarrow> \<forall>s \<in> set xs. onSiteMinutes s \<le> maxOnSiteMinutes (ru_limits rules)"
  using set_mset_mono [of "mset xs" "mset (la_left la)"] by (auto simp: layout_ok_def)

lemma trip_step_ok:
  assumes u: "proper_stops u" and rules: "rules = rules_of days opts" "sizes_ok rules"
    and ok: "layout_ok u rules la" "presets_hold la"
  shows "layout_ok u rules (trip_step lc days opts la z) \<and> presets_hold (trip_step lc days opts la z) \<and>
    la_mondays (trip_step lc days opts la z) = la_mondays la \<and> la_groups (trip_step lc days opts la z) = la_groups la \<and>
    (la_presets (trip_step lc days opts la z) = None \<longleftrightarrow> la_presets la = None)"
proof -
  obtain tripGroups looseHere members where m: "trip_members la z = (tripGroups, looseHere, members)"
    by (cases "trip_members la z") auto
  note facts = trip_members_facts [OF u ok m]
  let ?rules = "(rules_of days opts)\<lparr>ru_zoned := False\<rparr>"
  define groups where "groups = (if la_presets la = None then groupsOf lc members ?rules else tripGroups @ groupsOf lc looseHere ?rules)"
  have sub: "mset members \<subseteq># mset u" "mset looseHere \<subseteq># mset u"
    using facts(1,4) left_sub [OF ok(1)] by (meson subset_mset.order_trans)+
  have lim: "ru_limits ?rules = ru_limits rules" by (simp add: rules)
  have "visits_of (groupsOf lc members ?rules) = mset members" "visits_of (groupsOf lc looseHere ?rules) = mset looseHere"
    using groupsOf_visits(1) [OF proper_sub [OF u sub(1)], of ?rules lc] groupsOf_visits(1) [OF proper_sub [OF u sub(2)], of ?rules lc]
      rules(2) left_time [OF ok(1) facts(1)] left_time [OF ok(1) facts(4)] by (simp_all add: rules)
  then have groups: "visits_of groups = mset members"
    using facts(3) by (simp add: groups_def)
  define la1 where "la1 = without_trip z members la"
  have la1: "la_crews la1 = la_crews la" "la_mondays la1 = la_mondays la" "la_unplaced la1 = la_unplaced la"
    "la_groups la1 = la_groups la" "la_presets la1 = None \<longleftrightarrow> la_presets la = None"
    by (simp_all add: la1_def without_trip_def)
  have left1: "mset (la_left la1) + mset members = mset (la_left la)" and ps1: "presets_hold la1"
    using facts(5,6) by (simp_all add: la1_def)
  let ?un = "\<lambda>key. key \<in> set (op_taken opts) \<or> key \<in> fst ` set (anchored_days lc days opts) \<or> key \<in> set (la_onTrip la)"
  let ?trip = "planTrip z members days (crew_of days) (ru_drive ?rules) (op_homes opts) ?un groups"
  have eq: "trip_step lc days opts la z = (if members = [] then la else case ?trip of
      None \<Rightarrow> la1\<lparr>la_unplaced := la_unplaced la1 @ map (\<lambda>stop. (stopId stop, NO_TRIP_DAYS)) members\<rparr>
    | Some trip \<Rightarrow> la1\<lparr>la_onTrip := la_onTrip la1 @ map (\<lambda>c. (ac_date c, ac_technicianId c)) trip, la_crews := la_crews la1 @ trip\<rparr>)"
    unfolding trip_step_def m groups_def la1_def Let_def by simp
  note take = layout_ok_take [OF ok(1) left1]
  show ?thesis
  proof (cases "members = []")
    case True
    then show ?thesis using ok by (simp add: eq)
  next
    case False
    show ?thesis
    proof (cases ?trip)
      case None
      then have step: "trip_step lc days opts la z = la1\<lparr>la_unplaced := la_unplaced la @ map (\<lambda>stop. (stopId stop, NO_TRIP_DAYS)) members\<rparr>"
        using False by (simp add: eq la1)
      have "layout_ok u rules (trip_step lc days opts la z)"
        using take(1) [of NO_TRIP_DAYS] la1 by (simp add: step layout_ok_def held_def)
      then show ?thesis using ps1 la1 by (simp add: step presets_hold_def)
    next
      case (Some trip)
      then have step: "trip_step lc days opts la z = la1\<lparr>la_onTrip := la_onTrip la1 @ map (\<lambda>c. (ac_date c, ac_technicianId c)) trip,
          la_crews := la_crews la @ trip\<rparr>"
        using False by (simp add: eq la1)
      from planTrip_SomeD [OF Some] obtain t run gs where
        "mset gs = mset groups" "trip = map (trip_crew (ru_drive ?rules) z t run (length gs)) (enumerate 0 gs)" by blast
      then have "crew_visits trip = mset members" using visits_of_mset groups by (metis trip_crews_visits)
      then have "layout_ok u rules (trip_step lc days opts la z)"
        using take(2) [of trip] la1 by (simp add: step layout_ok_def held_def)
      then show ?thesis using ps1 la1 by (simp add: step presets_hold_def)
    qed
  qed
qed

section \<open>Mondays\<close>

lemma monday_visits_facts:
  assumes "foldl (monday_visit monday days opts t) (d, rest) xs = (d', rest')"
  shows "mset (mo_stops d') + mset rest' = mset (mo_stops d) + mset rest + mset xs"
    "mset rest' \<subseteq># mset rest + mset xs" "mo_date d' = mo_date d" "mo_technicianId d' = mo_technicianId d"
    "list_all (qualified_for monday t) (mo_stops d) \<Longrightarrow> list_all (qualified_for monday t) (mo_stops d')"
proof -
  have "mset (mo_stops d') + mset rest' = mset (mo_stops d) + mset rest + mset xs \<and>
    mset rest' \<subseteq># mset rest + mset xs \<and> mo_date d' = mo_date d \<and> mo_technicianId d' = mo_technicianId d \<and>
    (list_all (qualified_for monday t) (mo_stops d) \<longrightarrow> list_all (qualified_for monday t) (mo_stops d'))"
    using assms
  proof (induction xs arbitrary: d rest)
    case (Cons x xs)
    obtain d1 rest1 where one: "monday_visit monday days opts t (d, rest) x = (d1, rest1)" by fastforce
    with Cons.prems have "foldl (monday_visit monday days opts t) (d1, rest1) xs = (d', rest')" by simp
    from Cons.IH [OF this] one show ?case
      by (auto simp: monday_visit_def split: if_splits intro: subset_mset.order_trans)
  qed auto
  then show "mset (mo_stops d') + mset rest' = mset (mo_stops d) + mset rest + mset xs"
    "mset rest' \<subseteq># mset rest + mset xs" "mo_date d' = mo_date d" "mo_technicianId d' = mo_technicianId d"
    "list_all (qualified_for monday t) (mo_stops d) \<Longrightarrow> list_all (qualified_for monday t) (mo_stops d')" by blast+
qed

lemma monday_visits_update:
  assumes "distinct (map fst ms)"
  shows "monday_visits (AList.update key d ms) + (case map_of ms key of None \<Rightarrow> {#} | Some d0 \<Rightarrow> mset (mo_stops d0)) =
    monday_visits ms + mset (mo_stops d)"
  using assms
proof (induction ms)
  case (Cons m ms)
  obtain k d0 where m: "m = (k, d0)" by (cases m)
  show ?case
  proof (cases "k = key")
    case True
    then have "map_of ms key = None" using Cons.prems m by (simp add: map_of_eq_None_iff)
    then show ?thesis using True m by (simp add: ac_simps)
  next
    case False
    then show ?thesis using Cons m by (auto simp: ac_simps split: option.split)
  qed
qed (simp add: monday_visits_def)

lemma toMonday_facts:
  assumes "toMonday days opts date t trimmed mondays = (rest, mondays')" "distinct (map fst mondays)"
  shows "monday_visits mondays' + mset rest = monday_visits mondays + mset trimmed" "mset rest \<subseteq># mset trimmed"
    "distinct (map fst mondays')"
proof -
  have "monday_visits mondays' + mset rest = monday_visits mondays + mset trimmed \<and> mset rest \<subseteq># mset trimmed \<and> distinct (map fst mondays')"
  proof (cases "mondays' = mondays \<and> rest = trimmed")
    case True
    with assms(2) show ?thesis by simp
  next
    case False
    then obtain monday where monday: "monday_after opts date = Some monday"
      using assms(1) by (cases "monday_after opts date") (auto simp: toMonday_def)
    let ?key = "(pd_date monday, t)"
    define d0 where "d0 = (case map_of mondays ?key of Some d \<Rightarrow> d
      | None \<Rightarrow> \<lparr>mo_date = pd_date monday, mo_technicianId = t, mo_stops = [], mo_onSite = 0\<rparr>)"
    obtain d1 rest1 where f: "foldl (monday_visit monday days opts t) (d0, []) trimmed = (d1, rest1)" by fastforce
    have r: "rest = rest1" "mondays' = (if mo_stops d1 = [] then mondays else AList.update ?key d1 mondays)"
      using assms(1) False by (auto simp: toMonday_def monday Let_def d0_def [symmetric] f split: if_splits)
    note mv = monday_visits_facts(1,2) [OF f, simplified]
    have d0: "(case map_of mondays ?key of None \<Rightarrow> {#} | Some d0 \<Rightarrow> mset (mo_stops d0)) = mset (mo_stops d0)"
      by (simp add: d0_def split: option.split)
    have "monday_visits mondays' + mset rest = monday_visits mondays + mset trimmed"
    proof (cases "mo_stops d1 = []")
      case True
      with mv r show ?thesis by simp
    next
      case False
      then have "monday_visits mondays' + mset (mo_stops d0) = monday_visits mondays + mset (mo_stops d1)"
        using monday_visits_update [OF assms(2), of ?key d1] r(2) d0 by simp
      then have "(monday_visits mondays' + mset rest) + mset (mo_stops d0) = monday_visits mondays + (mset (mo_stops d1) + mset rest)"
        by (simp add: ac_simps)
      also have "\<dots> = (monday_visits mondays + mset trimmed) + mset (mo_stops d0)" using mv(1) r(1) by (simp add: ac_simps)
      finally show ?thesis by (rule add_right_imp_eq)
    qed
    then show ?thesis using mv(2) r assms(2) by (simp add: distinct_update)
  qed
  then show "monday_visits mondays' + mset rest = monday_visits mondays + mset trimmed" "mset rest \<subseteq># mset trimmed"
    "distinct (map fst mondays')" by blast+
qed


section \<open>Move-out and move-in days\<close>

lemma keep_while_fits_prefix: "fst (keep_while_fits most onSite stops) = take (length (fst (keep_while_fits most onSite stops))) stops"
  by (induction stops arbitrary: onSite) (auto simp: case_prod_beta Let_def)

lemma keep_while_fits_set: "set (fst (keep_while_fits most onSite stops)) \<subseteq> set stops"
  by (subst keep_while_fits_prefix) (rule set_take_subset)

lemma nearest_group_less: "groups \<noteq> [] \<Longrightarrow> nearest_group drive anchors groups < length groups"
  using least_offer_SomeD(1) [of snd "\<lambda>i. if gr_path (groups ! i) = [] then None
      else Some (i, min_list (map (nearness drive anchors) (gr_path (groups ! i))))" "[0..<length groups]"]
  by (fastforce simp: nearest_group_def split: option.split if_splits)

lemma presetAroundAnchors_facts:
  assumes "presetAroundAnchors anchors groups limits cost drive = Some p"
    and "\<forall>grp \<in> set groups. \<forall>s \<in> set (gr_path grp). anchorIdOf s = None"
  shows "pr_group p < length groups" "mset (pr_visits p) + mset (pr_dropped p) = mset (gr_path (groups ! pr_group p))"
proof -
  have ne: "groups \<noteq> []" using assms(1) by (auto simp: presetAroundAnchors_def)
  define i where "i = nearest_group drive anchors groups"
  let ?path = "gr_path (groups ! i)"
  obtain kept onSite where k: "keep_while_fits (maxOnSiteMinutes limits) (sum_list (map an_onSiteMinutes anchors))
      (sort_key (nearness drive anchors) ?path) = (kept, onSite)" by fastforce
  let ?in = "filter (\<lambda>stop. stop \<in> set kept) ?path"
  have i: "i < length groups" unfolding i_def using ne by (rule nearest_group_less)
  then have "\<forall>s \<in> set ?in. anchorIdOf s = None" using assms(2) by auto
  then have "mset (filter (\<lambda>s. anchorIdOf s = None) (pa_path (polished (map anchorAsStop anchors @ ?in) (on_stops cost)))) = mset ?in"
    by (intro filter_anchors) (simp_all del: mset_filter)
  moreover have p: "pr_group p = i" "pr_dropped p = filter (\<lambda>stop. stop \<notin> set kept) ?path"
    "pr_visits p = filter (\<lambda>s. anchorIdOf s = None) (pa_path (polished (map anchorAsStop anchors @ ?in) (on_stops cost)))"
    using assms(1) ne by (auto simp: presetAroundAnchors_def Let_def i_def [symmetric] k)
  ultimately show "pr_group p < length groups" "mset (pr_visits p) + mset (pr_dropped p) = mset (gr_path (groups ! pr_group p))"
    using i by (simp_all add: multiset_partition [symmetric])
qed

lemma anchored_plain_ok:
  assumes u: "quarter_stops u" and ok: "layout_ok u rules la" and gs: "groups_hold la"
  shows "layout_ok u rules (anchored_plain opts d t anchors la)" "groups_hold (anchored_plain opts d t anchors la)"
proof -
  define filled where "filled = fillAroundAnchors anchors (filter (qualified_for d t) (la_left la)) (limits_of opts) (cost_of opts) (drive_of opts)"
  have proper: "proper_stops u" using u by (simp add: quarter_stops_def)
  have left: "distinct (la_left la)" "set (la_left la) \<subseteq> set u" using sub_facts [OF proper left_sub [OF ok]] .
  then have "\<forall>s \<in> set (filter (qualified_for d t) (la_left la)). anchorIdOf s = None"
    using quarter_stops_anchor [OF u] by auto
  note fd = fillAroundAnchors_facts(1) [OF this filled_def]
  have "mset (fd_visits filled) \<subseteq># mset (la_left la)"
    using fd left(1) by (auto intro: subset_mset.order_trans multiset_filter_subset)
  note out = mset_take_out [OF left(1) this]
  have eq: "anchored_plain opts d t anchors la = la\<lparr>la_groups := (if fd_visits filled = [] then la_groups la else None),
      la_left := filter (\<lambda>s. s \<notin> set (fd_visits filled)) (la_left la),
      la_crews := la_crews la @ [plain_crew (pd_date d) t (fd_visits filled) (fd_onSite filled) (fd_drive filled) (Some anchors) None]\<rparr>"
    by (simp add: anchored_plain_def filled_def Let_def)
  have "held (anchored_plain opts d t anchors la) = (mset (filter (\<lambda>s. s \<notin> set (fd_visits filled)) (la_left la)) + mset (fd_visits filled)) +
      crew_visits (la_crews la) + monday_visits (la_mondays la)"
    by (simp add: eq held_def plain_crew_def ac_simps del: mset_filter)
  then show "layout_ok u rules (anchored_plain opts d t anchors la)"
    using ok unfolding out by (intro layout_ok_moved [OF ok]) (auto simp: eq held_def layout_ok_def)
  show "groups_hold (anchored_plain opts d t anchors la)"
    using gs by (auto simp: eq groups_hold_def)
qed

lemma anchored_preset_ok:
  assumes u: "quarter_stops u" and sizes: "sizes_ok rules" and rules: "rules = rules_of days opts"
    and ok: "layout_ok u rules la" and gs: "groups_hold la" "la_groups la = Some groups"
  shows "layout_ok u rules (anchored_preset lc days opts d t anchors groups la)"
    "groups_hold (anchored_preset lc days opts d t anchors groups la)"
proof -
  define theirs where "theirs = filter (\<lambda>i. can_take d t (groups ! i)) [0..<length groups]"
  define offered where "offered = presetAroundAnchors anchors (map (\<lambda>i. groups ! i) theirs) (limits_of opts) (cost_of opts) (drive_of opts)"
  have proper: "proper_stops u" using u by (simp add: quarter_stops_def)
  have left: "distinct (la_left la)" "set (la_left la) \<subseteq> set u" using sub_facts [OF proper left_sub [OF ok]] .
  have visits: "visits_of groups = mset (la_left la)" and ne: "\<forall>grp \<in> set groups. gr_path grp \<noteq> []"
    using gs by (simp_all add: groups_hold_def)
  have "layout_ok u rules (anchored_preset lc days opts d t anchors groups la) \<and>
    groups_hold (anchored_preset lc days opts d t anchors groups la)"
  proof (cases offered)
    case None
    define filled where "filled = fillAroundAnchors anchors [] (limits_of opts) (cost_of opts) (drive_of opts)"
    have "mset (fd_visits filled) \<subseteq># {#}"
      using fillAroundAnchors_facts(1) [OF _ filled_def] by simp
    then have "fd_visits filled = []" by simp
    moreover have "anchored_preset lc days opts d t anchors groups la = la\<lparr>la_crews := la_crews la @
        [plain_crew (pd_date d) t (fd_visits filled) (fd_onSite filled) (fd_drive filled) (Some anchors) None]\<rparr>"
      using None by (simp add: anchored_preset_def offered_def theirs_def filled_def Let_def)
    ultimately show ?thesis
      using ok gs by (simp add: layout_ok_def held_def groups_hold_def plain_crew_def)
  next
    case (Some p)
    have anchor: "\<forall>grp \<in> set (map (\<lambda>i. groups ! i) theirs). \<forall>s \<in> set (gr_path grp). anchorIdOf s = None"
    proof safe
      fix grp s assume "grp \<in> set (map (\<lambda>i. groups ! i) theirs)" "s \<in> set (gr_path grp)"
      then have "s \<in># visits_of groups" by (auto simp: theirs_def visits_of_concat)
      then show "anchorIdOf s = None" using visits left(2) quarter_stops_anchor [OF u] by auto
    qed
    note p = presetAroundAnchors_facts [OF Some [unfolded offered_def] anchor]
    define i where "i = theirs ! pr_group p"
    have "i \<in> set theirs" unfolding i_def using p(1) by (intro nth_mem) simp
    then have i: "i < length groups" by (simp add: theirs_def)
    have path: "mset (pr_visits p) + mset (pr_dropped p) = mset (gr_path (groups ! i))" using p by (simp add: i_def)
    obtain rest mondays where tm: "toMonday days opts (pd_date d) t (pr_dropped p) (la_mondays la) = (rest, mondays)" by fastforce
    have dist: "distinct (map fst (la_mondays la))" using ok by (simp add: layout_ok_def)
    note mo = toMonday_facts [OF tm dist]
    let ?left1 = "filter (\<lambda>s. s \<notin> set (pr_visits p)) (la_left la)"
    let ?left2 = "filter (\<lambda>s. \<not> (s \<in> set (pr_dropped p) \<and> s \<notin> set rest)) ?left1"
    let ?others = "take i groups @ drop (i + 1) groups"
    have all: "visits_of ?others + (mset (pr_visits p) + mset (pr_dropped p)) = mset (la_left la)"
      using visits_of_remove [OF i] visits path by simp
    then have sub: "mset (pr_visits p) \<subseteq># mset (la_left la)"
      by (metis add.assoc add.commute mset_subset_eq_add_left)
    note out1 = mset_take_out [OF left(1) sub]
    have left1: "mset ?left1 = visits_of ?others + mset (pr_dropped p)"
    proof -
      have "mset ?left1 + mset (pr_visits p) = (visits_of ?others + mset (pr_dropped p)) + mset (pr_visits p)"
        unfolding out1 all [symmetric] by (simp add: ac_simps)
      then show ?thesis by (rule add_right_imp_eq)
    qed
    have "mset (pr_dropped p) \<subseteq># mset ?left1" unfolding left1 by simp
    then have dd: "distinct (pr_dropped p)" using left(1) distinct_submset distinct_filter by blast
    have rest: "distinct rest" "set rest \<subseteq> set (pr_dropped p)"
      using mo(2) distinct_submset [OF mo(2) dd] set_mset_mono [OF mo(2)] by simp_all
    have gone: "mset (filter (\<lambda>s. s \<notin> set rest) (pr_dropped p)) + mset rest = mset (pr_dropped p)"
      by (rule mset_filter_run [OF dd rest])
    let ?gone = "filter (\<lambda>s. s \<notin> set rest) (pr_dropped p)"
    have "?left2 = filter (\<lambda>s. s \<notin> set ?gone) ?left1" by (auto intro!: filter_cong)
    moreover have "mset ?gone \<subseteq># mset ?left1" using gone left1 by (metis add.assoc mset_subset_eq_add_right add.commute)
    ultimately have out2: "mset ?left2 + mset ?gone = mset ?left1"
      using mset_take_out [of ?left1 ?gone] left(1) by (simp del: mset_filter)
    have left2: "mset ?left2 = visits_of ?others + mset rest"
    proof -
      have "mset ?left2 + mset ?gone = (visits_of ?others + mset rest) + mset ?gone"
        unfolding out2 left1 gone [symmetric] by (simp add: ac_simps del: mset_filter)
      then show ?thesis by (rule add_right_imp_eq)
    qed
    have rest_sub: "mset rest \<subseteq># mset (la_left la)"
      using all mo(2) by (metis add.assoc mset_subset_eq_add_right subset_mset.order_trans)
    have proper_rest: "proper_stops rest"
      using proper_sub [OF proper] rest_sub left_sub [OF ok] by (meson subset_mset.order_trans)
    have ne': "\<forall>grp \<in> set ?others. gr_path grp \<noteq> []" using ne by (auto dest: in_set_takeD in_set_dropD)
    note lo = looseIntoGroups_facts [OF proper_rest sizes left_time [OF ok rest_sub] ne', of lc]
    let ?la = "anchored_preset lc days opts d t anchors groups la"
    have eq: "?la = la\<lparr>la_left := ?left2, la_mondays := mondays,
        la_groups := Some (looseIntoGroups lc rest ?others (rules_of days opts)),
        la_crews := la_crews la @ [plain_crew (pd_date d) t (pr_visits p) (pr_onSite p) (pr_drive p) (Some anchors) (gr_preset (groups ! i))]\<rparr>"
      using Some tm by (simp add: anchored_preset_def offered_def [symmetric] theirs_def [symmetric] Let_def i_def)
    have "held ?la = mset ?left2 + mset (pr_visits p) + crew_visits (la_crews la) + monday_visits mondays"
      by (simp add: eq held_def plain_crew_def ac_simps del: mset_filter)
    also have "mset ?left2 + mset (pr_visits p) = visits_of ?others + mset (pr_visits p) + mset rest"
      unfolding left2 by (simp add: ac_simps)
    also have "\<dots> + crew_visits (la_crews la) + monday_visits mondays =
        visits_of ?others + mset (pr_visits p) + crew_visits (la_crews la) + (monday_visits mondays + mset rest)"
      by (simp add: ac_simps)
    also have "\<dots> = held la" unfolding mo(1) held_def all [symmetric] by (simp add: ac_simps)
    finally have "layout_ok u rules ?la"
      by (intro layout_ok_moved [OF ok]) (use mo(3) in \<open>auto simp: eq\<close>)
    moreover have "groups_hold ?la"
      using lo left2 unfolding rules by (simp add: eq groups_hold_def del: mset_filter filter_filter)
    ultimately show ?thesis by simp
  qed
  then show "layout_ok u rules (anchored_preset lc days opts d t anchors groups la)"
    "groups_hold (anchored_preset lc days opts d t anchors groups la)" by auto
qed

lemma anchored_steps_ok:
  assumes u: "quarter_stops u" and sizes: "sizes_ok rules" and rules: "rules = rules_of days opts"
  shows "layout_ok u rules la \<Longrightarrow> groups_hold la \<Longrightarrow>
    layout_ok u rules (foldl (anchored_step lc days opts d) la ts) \<and> groups_hold (foldl (anchored_step lc days opts d) la ts)"
proof (induction ts arbitrary: la)
  case (Cons t ts)
  have "layout_ok u rules (anchored_step lc days opts d la t) \<and> groups_hold (anchored_step lc days opts d la t)"
    using anchored_plain_ok [OF u Cons.prems] anchored_preset_ok [OF u sizes rules Cons.prems(1,2)] Cons.prems
    by (simp add: anchored_step_def split: option.split)
  with Cons.IH show ?case by simp
qed simp


section \<open>A group each\<close>

lemma zoneRoundTheCircle_member: "available \<noteq> [] \<Longrightarrow> zoneRoundTheCircle lc circle start available takenToday \<in> set available"
proof -
  assume "available \<noteq> []"
  then have "sort_cmp (byZoneNumber lc) available ! 0 \<in> set available"
    by (metis length_greater_0_conv length_sort_cmp nth_mem set_sort_cmp)
  then show ?thesis
    by (auto simp: zoneRoundTheCircle_def Let_def dest: find_SomeD split: option.split)
qed

lemma zone_for_member: "available \<noteq> [] \<Longrightarrow> zone_for lc days circle d turnOf t available takenToday \<in> set available"
  using zoneRoundTheCircle_member [of "uniq available"] by (cases available) (auto simp: zone_for_def)

text \<open>Either there is nothing for the technician, or one of the groups they can take is theirs.\<close>

lemma give_group_cases:
  obtains "give_group lc stops days opts circle d (la, taken) t = (la, taken)"
  | i today la' z where "la_groups la = Some today" "i < length today" "can_take d t (today ! i)"
    "give_group lc stops days opts circle d (la, taken) t = (la', z)"
    "la_left la' = filter (\<lambda>s. s \<notin> set (gr_path (today ! i))) (la_left la)"
    "la_groups la' = Some (take i today @ drop (i + 1) today)"
    "la_crews la' = la_crews la @ [plain_crew (pd_date d) t (gr_path (today ! i)) (gr_onSite (today ! i))
       (pathMinutes (gr_path (today ! i)) (on_stops (drive_of opts))) None (gr_preset (today ! i))]"
    "la_unplaced la' = la_unplaced la" "la_mondays la' = la_mondays la" "la_onTrip la' = la_onTrip la" "la_presets la' = la_presets la"
proof -
  define today where "today = (case la_groups la of None \<Rightarrow> [] | Some gs \<Rightarrow> gs)"
  define theirs where "theirs = filter (\<lambda>i. can_take d t (today ! i)) [0..<length today]"
  show thesis
  proof (cases "theirs = []")
    case True
    then show ?thesis using that(1) by (simp add: give_group_def theirs_def today_def)
  next
    case False
    define z where "z = zone_for lc days circle d (la_turnOf la) t (map (\<lambda>i. zone_label (today ! i)) theirs) taken"
    define i where "i = sort_key (\<lambda>i. rank stops opts (today ! i)) (filter (\<lambda>i. zone_label (today ! i) = z) theirs) ! 0"
    have "z \<in> set (map (\<lambda>i. zone_label (today ! i)) theirs)" unfolding z_def using False by (intro zone_for_member) simp
    then have "filter (\<lambda>i. zone_label (today ! i) = z) theirs \<noteq> []" by (auto simp: filter_empty_conv)
    then have "i \<in> set (sort_key (\<lambda>i. rank stops opts (today ! i)) (filter (\<lambda>i. zone_label (today ! i) = z) theirs))"
      unfolding i_def by (intro nth_mem) simp
    then have i: "i < length today" "can_take d t (today ! i)" by (auto simp: theirs_def)
    then have today: "la_groups la = Some today" by (cases "la_groups la") (auto simp: today_def)
    have "give_group lc stops days opts circle d (la, taken) t =
        (la\<lparr>la_turnOf := (case indexOf z circle of None \<Rightarrow> la_turnOf la | Some i \<Rightarrow> (la_turnOf la)(t \<mapsto> i)),
            la_groups := Some (take i today @ drop (i + 1) today),
            la_left := filter (\<lambda>s. s \<notin> set (gr_path (today ! i))) (la_left la),
            la_crews := la_crews la @ [plain_crew (pd_date d) t (gr_path (today ! i)) (gr_onSite (today ! i))
              (pathMinutes (gr_path (today ! i)) (on_stops (drive_of opts))) None (gr_preset (today ! i))]\<rparr>, taken @ [z])"
      using False by (simp add: give_group_def today_def [symmetric] theirs_def [symmetric] z_def [symmetric] i_def [symmetric] Let_def)
    from that(2) [OF today i this] show ?thesis by simp
  qed
qed

lemma give_groups_ok:
  assumes u: "proper_stops u"
  shows "layout_ok u rules la \<Longrightarrow> groups_hold la \<Longrightarrow>
    layout_ok u rules (fst (foldl (give_group lc stops days opts circle d) (la, taken) ts)) \<and>
    groups_hold (fst (foldl (give_group lc stops days opts circle d) (la, taken) ts))"
proof (induction ts arbitrary: la taken)
  case (Cons t ts)
  show ?case
  proof (cases rule: give_group_cases [of lc stops days opts circle d la taken t])
    case 1
    with Cons show ?thesis by simp
  next
    case (2 i today la' z)
    have left: "distinct (la_left la)" using sub_facts(1) [OF u left_sub [OF Cons.prems(1)]] .
    have visits: "visits_of today = mset (la_left la)" and ne: "\<forall>grp \<in> set today. gr_path grp \<noteq> []"
      using Cons.prems(2) 2(1) by (simp_all add: groups_hold_def)
    have rest: "visits_of (take i today @ drop (i + 1) today) + mset (gr_path (today ! i)) = mset (la_left la)"
      using visits_of_remove [OF 2(2)] visits by simp
    then have "mset (gr_path (today ! i)) \<subseteq># mset (la_left la)" by (metis mset_subset_eq_add_right)
    from mset_take_out [OF left this] have out: "mset (la_left la') + mset (gr_path (today ! i)) = mset (la_left la)" by (simp add: 2)
    then have "visits_of (take i today @ drop (i + 1) today) = mset (la_left la')" using rest by (metis add_right_cancel)
    moreover have "\<forall>grp \<in> set (take i today @ drop (i + 1) today). gr_path grp \<noteq> []"
      using ne by (auto dest: in_set_takeD in_set_dropD)
    ultimately have "groups_hold la'" by (simp only: groups_hold_def 2 option.inject) blast
    moreover have "held la' = held la"
      using out by (simp add: held_def 2 plain_crew_def ac_simps del: mset_filter)
    then have "layout_ok u rules la'"
      using Cons.prems(1) by (intro layout_ok_moved [OF Cons.prems(1)]) (auto simp: 2 layout_ok_def)
    ultimately show ?thesis using Cons.IH [of la' z] 2(4) by simp
  qed
qed simp

lemma day_step_ok:
  assumes u: "quarter_stops u" and sizes: "sizes_ok rules" and rules: "rules = rules_of days opts"
    and ok: "layout_ok u rules la" "groups_hold la"
  shows "layout_ok u rules (day_step lc stops days opts circle la d) \<and> groups_hold (day_step lc stops days opts circle la d)"
proof -
  have proper: "proper_stops u" using u by (simp add: quarter_stops_def)
  define free where "free = filter (\<lambda>t. (pd_date d, t) \<notin> set (op_taken opts) \<and> (pd_date d, t) \<notin> set (la_onTrip la)) (pd_technicianIds d)"
  define la1 where "la1 = foldl (anchored_step lc days opts d) la free"
  define others where "others = filter (\<lambda>t. map_of (anchored_days lc days opts) (pd_date d, t) = None) free"
  have la1: "layout_ok u rules la1 \<and> groups_hold la1"
    unfolding la1_def by (rule anchored_steps_ok [OF u sizes rules ok])
  show ?thesis
  proof (cases "others = [] \<or> la_left la1 = []")
    case True
    then have "day_step lc stops days opts circle la d = la1"
      by (simp add: day_step_def free_def [symmetric] la1_def [symmetric] others_def [symmetric] Let_def)
    with la1 show ?thesis by simp
  next
    case False
    define today where "today = (case la_groups la1 of None \<Rightarrow> groupsOf lc (la_left la1) (rules_of days opts) | Some gs \<Rightarrow> gs)"
    have "visits_of today = mset (la_left la1)" "\<forall>grp \<in> set today. gr_path grp \<noteq> []"
      using la1 groupsOf_visits [OF proper_sub [OF proper left_sub [OF la1 [THEN conjunct1]]] sizes
        left_time [OF la1 [THEN conjunct1] subset_mset.order_refl], of lc]
      by (auto simp: today_def groups_hold_def rules split: option.split)
    then have "groups_hold (la1\<lparr>la_groups := Some today\<rparr>)" by (simp add: groups_hold_def)
    moreover have "layout_ok u rules (la1\<lparr>la_groups := Some today\<rparr>)" using la1 by (simp add: layout_ok_def held_def)
    moreover have "day_step lc stops days opts circle la d =
        fst (foldl (give_group lc stops days opts circle d) (la1\<lparr>la_groups := Some today\<rparr>, [])
          (filter (has_own_turn days circle d (la_turnOf la1) today) others @
           filter (\<lambda>t. \<not> has_own_turn days circle d (la_turnOf la1) today t) others))"
      by (simp only: day_step_def Let_def free_def [symmetric] la1_def [symmetric] others_def [symmetric] today_def [symmetric] False if_False)
    ultimately show ?thesis using give_groups_ok [OF proper] by metis
  qed
qed

lemma day_steps_ok:
  assumes "quarter_stops u" "sizes_ok rules" "rules = rules_of days opts"
  shows "layout_ok u rules la \<Longrightarrow> groups_hold la \<Longrightarrow>
    layout_ok u rules (foldl (day_step lc stops days opts circle) la ds)"
  by (induction ds arbitrary: la) (use day_step_ok [OF assms] in auto)

section \<open>The end of a layout\<close>

lemma crew_visits_update:
  "i < length crews \<Longrightarrow> crew_visits (crews[i := c]) + mset (ac_stops (crews ! i)) = crew_visits crews + mset (ac_stops c)"
proof (induction crews arbitrary: i)
  case (Cons d crews)
  then show ?case by (cases i) (auto simp: ac_simps)
qed simp

lemma squeeze_offer_SomeD:
  assumes "squeeze_offer crews dayOn limits cost stop i = Some b"
  shows "sq_crew b = i" "\<exists>k. sq_path b = insert_at k stop (map anchorAsStop (anchors_of (crews ! i)) @ ac_stops (crews ! i))"
    "\<exists>d. dayOn (ac_date (crews ! i)) = Some d \<and> qualified_for d (ac_technicianId (crews ! i)) stop"
  using assms by (auto simp: squeeze_offer_def Let_def split: option.splits if_splits prod.splits)

lemma squeeze_into_visits:
  assumes "sq_path b = insert_at k stop (map anchorAsStop anchors @ ac_stops c)" "\<forall>s \<in> set (stop # ac_stops c). anchorIdOf s = None"
  shows "mset (ac_stops (squeeze_into cost drive stop b c)) = add_mset stop (mset (ac_stops c))"
proof -
  have "mset (filter (\<lambda>s. anchorIdOf s = None) (pa_path (polished (sq_path b) (on_stops cost)))) = mset (stop # ac_stops c)"
    by (rule filter_anchors [OF _ assms(2), of _ anchors]) (simp add: assms(1))
  then show ?thesis by (simp add: squeeze_into_def Let_def)
qed

lemma squeeze_one_facts:
  assumes "squeeze_one dayOn limits cost drive (crews, left) stop = (crews', left')"
    and u: "quarter_stops u" "stop \<in> set left" "set left \<subseteq> set u" "\<forall>c \<in> set crews. set (ac_stops c) \<subseteq> set u"
  shows "crew_visits crews' + mset left' = crew_visits crews + mset left"
    "\<forall>c \<in> set crews'. set (ac_stops c) \<subseteq> set u" "set left' \<subseteq> set left" "left' = left \<or> left' = remove1 stop left"
proof -
  have "crew_visits crews' + mset left' = crew_visits crews + mset left \<and> (\<forall>c \<in> set crews'. set (ac_stops c) \<subseteq> set u) \<and>
    set left' \<subseteq> set left \<and> (left' = left \<or> left' = remove1 stop left)"
  proof (cases "least_offer sq_added (squeeze_offer crews dayOn limits cost stop) [0..<length crews]")
    case None
    with assms show ?thesis by (simp add: squeeze_one_def)
  next
    case (Some b)
    let ?c = "squeeze_into cost drive stop b (crews ! sq_crew b)"
    from least_offer_SomeD(1) [OF Some] obtain i where i: "i < length crews" "squeeze_offer crews dayOn limits cost stop i = Some b" by auto
    note b = squeeze_offer_SomeD [OF i(2)]
    have eqs: "crews' = crews[i := ?c]" "left' = remove1 stop left" using assms(1) Some b(1) by (simp_all add: squeeze_one_def)
    have "\<forall>s \<in> set (stop # ac_stops (crews ! i)). anchorIdOf s = None"
      using u i(1) quarter_stops_anchor [OF u(1)] nth_mem [OF i(1)] by fastforce
    then have c: "mset (ac_stops ?c) = add_mset stop (mset (ac_stops (crews ! i)))"
      using b(1,2) squeeze_into_visits by metis
    have "crew_visits crews' + mset left' + mset (ac_stops (crews ! i)) = crew_visits crews + mset left + mset (ac_stops (crews ! i))"
      using crew_visits_update [OF i(1), of ?c] c u(2) by (simp add: eqs ac_simps)
    then have "crew_visits crews' + mset left' = crew_visits crews + mset left" by (rule add_right_imp_eq)
    moreover have "set (ac_stops ?c) \<subseteq> set u"
    proof -
      have "set (ac_stops ?c) = insert stop (set (ac_stops (crews ! i)))" using c by (metis set_mset_add_mset_insert set_mset_mset)
      then show ?thesis using u i(1) nth_mem [OF i(1)] by auto
    qed
    then have "\<forall>c \<in> set crews'. set (ac_stops c) \<subseteq> set u" using u(4) eqs(1) set_update_subset_insert by fastforce
    ultimately show ?thesis using set_remove1_subset [of stop left] by (simp add: eqs)
  qed
  then show "crew_visits crews' + mset left' = crew_visits crews + mset left"
    "\<forall>c \<in> set crews'. set (ac_stops c) \<subseteq> set u" "set left' \<subseteq> set left" "left' = left \<or> left' = remove1 stop left" by blast+
qed


lemma squeezeIn_facts:
  assumes u: "quarter_stops u"
  shows "foldl (squeeze_one dayOn limits cost drive) (crews, left) xs = (crews', left') \<Longrightarrow> distinct xs \<Longrightarrow>
    set xs \<subseteq> set left \<Longrightarrow> set left \<subseteq> set u \<Longrightarrow> distinct left \<Longrightarrow> \<forall>c \<in> set crews. set (ac_stops c) \<subseteq> set u \<Longrightarrow>
    crew_visits crews' + mset left' = crew_visits crews + mset left \<and> set left' \<subseteq> set left"
proof (induction xs arbitrary: crews left)
  case (Cons x xs)
  obtain crews1 left1 where one: "squeeze_one dayOn limits cost drive (crews, left) x = (crews1, left1)" by fastforce
  have x: "x \<in> set left" using Cons.prems(3) by simp
  note s = squeeze_one_facts [OF one u x Cons.prems(4,6)]
  have "set xs \<subseteq> set left1" "distinct left1" "set left1 \<subseteq> set u"
    using s(3,4) Cons.prems(2-5) by (auto simp: distinct_remove1)
  moreover have "foldl (squeeze_one dayOn limits cost drive) (crews1, left1) xs = (crews', left')" using Cons.prems(1) one by simp
  ultimately have "crew_visits crews' + mset left' = crew_visits crews1 + mset left1 \<and> set left' \<subseteq> set left1"
    using Cons.IH Cons.prems(2) s(2) by simp
  with s show ?case by auto
qed simp

lemma crew_visits_sets: "crew_visits crews \<subseteq># mset u \<Longrightarrow> c \<in> set crews \<Longrightarrow> set (ac_stops c) \<subseteq> set u"
proof -
  assume "crew_visits crews \<subseteq># mset u" "c \<in> set crews"
  then have "set (concat (map ac_stops crews)) \<subseteq> set u" unfolding crew_visits_def by (metis set_mset_mono set_mset_mset)
  with \<open>c \<in> set crews\<close> show ?thesis by auto
qed

lemma monday_crews_visits: "crew_visits (map (\<lambda>(key, m). monday_crew opts m) ms) = monday_visits ms"
  by (induction ms) (auto simp: monday_crew_def Let_def)

lemma finish_layout_facts:
  assumes u: "quarter_stops u" and ok: "layout_ok u rules la"
  shows "image_mset stopId (crew_visits (la_crews (finish_layout days opts la))) + mset (map fst (la_unplaced (finish_layout days opts la))) =
    mset (map stopId u)"
proof -
  have proper: "proper_stops u" using u by (simp add: quarter_stops_def)
  obtain crews left where sq: "(if la_left la = [] then (la_crews la, []) else
      squeezeIn (la_crews la) (la_left la) (dayOn_of days) (limits_of opts) (cost_of opts) (drive_of opts)) = (crews, left)" by fastforce
  have "crew_visits (la_crews la) \<subseteq># mset u"
    using ok unfolding layout_ok_def held_def
    by (meson mset_subset_eq_add_left mset_subset_eq_add_right subset_mset.order_trans)
  then have crews: "\<forall>c \<in> set (la_crews la). set (ac_stops c) \<subseteq> set u" using crew_visits_sets by blast
  note left = sub_facts [OF proper left_sub [OF ok]]
  have visits: "crew_visits crews + mset left = crew_visits (la_crews la) + mset (la_left la)"
  proof (cases "la_left la = []")
    case False
    with sq have "foldl (squeeze_one (dayOn_of days) (limits_of opts) (cost_of opts) (drive_of opts)) (la_crews la, la_left la) (la_left la) = (crews, left)"
      by (simp add: squeezeIn_def)
    from squeezeIn_facts [OF u this left(1) subset_refl left(2,1) crews] show ?thesis by blast
  qed (use sq in auto)
  have fin: "la_crews (finish_layout days opts la) = crews @ map (\<lambda>(key, m). monday_crew opts m) (la_mondays la)"
    "la_unplaced (finish_layout days opts la) = la_unplaced la @ map (\<lambda>stop. (stopId stop, NO_CAPACITY)) left"
    unfolding finish_layout_def Let_def sq by simp_all
  have "image_mset stopId (crew_visits (la_crews (finish_layout days opts la))) + mset (map fst (la_unplaced (finish_layout days opts la))) =
      image_mset stopId (crew_visits crews + mset left + monday_visits (la_mondays la)) + mset (map fst (la_unplaced la))"
    by (simp add: fin monday_crews_visits comp_def ac_simps)
  also have "\<dots> = image_mset stopId (held la) + image_mset stopId (mset u - held la)"
    using ok by (simp add: visits held_def layout_ok_def ac_simps)
  also have "\<dots> = mset (map stopId u)"
    using ok unfolding layout_ok_def by (metis image_mset_union mset_map subset_mset.add_diff_inverse)
  finally show ?thesis .
qed

lemma places_ids: "map pl_stopId (places c) = map stopId (ac_stops c)"
  unfolding places_def by (rule map_enumerate_value) simp

lemma concat_places: "mset (map pl_stopId (concat (map places crews))) = image_mset stopId (crew_visits crews)"
  by (induction crews) (simp_all add: places_ids flip: mset_map)

lemma crew_visits_mset: "mset cs = mset ds \<Longrightarrow> crew_visits cs = crew_visits ds"
  unfolding crew_visits_def by (rule mset_concat_cong) simp

lemma rules_sizes: "sensible_limits (limits_of opts) \<Longrightarrow> sizes_ok (rules_of days opts)"
  by (simp add: sizes_ok_def rules_of_def dayVisitRange_def sensible_limits_def MAX_STOPS_PER_DAY_def Let_def)

lemma trip_steps_ok:
  assumes "proper_stops u" "rules = rules_of days opts" "sizes_ok rules"
  shows "layout_ok u rules la \<Longrightarrow> presets_hold la \<Longrightarrow>
    layout_ok u rules (foldl (trip_step lc days opts) la zs) \<and> presets_hold (foldl (trip_step lc days opts) la zs) \<and>
    la_mondays (foldl (trip_step lc days opts) la zs) = la_mondays la"
proof (induction zs arbitrary: la)
  case (Cons z zs)
  note s = trip_step_ok [OF assms Cons.prems(1,2), of lc z]
  with Cons.IH [of "trip_step lc days opts la z"] show ?case by simp
qed simp

lemma before_days_ok:
  assumes u: "quarter_stops u" and limits: "sensible_limits (limits_of opts)"
  shows "layout_ok u (rules_of days opts) (before_days lc u days opts)" "groups_hold (before_days lc u days opts)"
    "la_mondays (before_days lc u days opts) = []"
proof -
  define rules where "rules = rules_of days opts"
  have proper: "proper_stops u" using u by (simp add: quarter_stops_def)
  have sizes: "sizes_ok rules" unfolding rules_def by (rule rules_sizes [OF limits])
  have lim: "ru_limits rules = limits_of opts" by (simp add: rules_def rules_of_def)
  note start = layout_start_ok [OF proper lim, of days]
  define la1 where "la1 = foldl (trip_step lc days opts) (layout_start u days opts) (sort (uniq (op_tripZones opts)))"
  have la1: "layout_ok u rules la1" "presets_hold la1" "la_mondays la1 = []"
    using trip_steps_ok [OF proper rules_def sizes start(1,2)] start(6) by (simp_all add: la1_def)
  have eq: "before_days lc u days opts =
      la1\<lparr>la_groups := map_option (\<lambda>ps. looseIntoGroups lc (ps_loose ps) (ps_groups ps) (rules_of days opts)) (la_presets la1)\<rparr>"
    by (simp add: before_days_def la1_def Let_def)
  show "layout_ok u (rules_of days opts) (before_days lc u days opts)" "la_mondays (before_days lc u days opts) = []"
    using la1 by (simp_all add: eq layout_ok_def held_def rules_def)
  show "groups_hold (before_days lc u days opts)"
  proof (cases "la_presets la1")
    case None
    then show ?thesis by (simp add: eq groups_hold_def)
  next
    case (Some ps)
    then have h: "visits_of (ps_groups ps) + mset (ps_loose ps) = mset (la_left la1)" "\<forall>grp \<in> set (ps_groups ps). gr_path grp \<noteq> []"
      using la1(2) by (simp_all add: presets_hold_def)
    then have sub: "mset (ps_loose ps) \<subseteq># mset (la_left la1)" by (metis mset_subset_eq_add_right)
    have "proper_stops (ps_loose ps)" by (rule proper_sub [OF proper subset_mset.order_trans [OF sub left_sub [OF la1(1)]]])
    from looseIntoGroups_facts [OF this sizes left_time [OF la1(1) sub] h(2), of lc] h(1) Some show ?thesis
      by (simp add: eq groups_hold_def rules_def)
  qed
qed

lemma layout_days_facts:
  assumes u: "quarter_stops u" and limits: "sensible_limits (limits_of opts)"
  shows "image_mset stopId (crew_visits (la_crews (layout_days lc u days opts))) + mset (map fst (la_unplaced (layout_days lc u days opts))) =
    mset (map stopId u)"
proof -
  note days_ok = day_steps_ok [OF u rules_sizes [OF limits] refl before_days_ok(1,2) [OF u limits]]
  show ?thesis unfolding layout_days_def Let_def by (rule finish_layout_facts [OF u days_ok])
qed

text \<open>
  C1. Every visit of the quarter is accounted for, once. Whatever trips, appointments, groups of
  the office's, rescheduled Mondays and squeezing a build goes through, each visit ends up either
  at exactly one place of exactly one technician's day or, exactly once, in the list of visits that
  were not placed.
\<close>

theorem every_visit_accounted_for:
  assumes "quarter_stops stops" "sensible_limits (limits_of opts)"
  shows "mset (map pl_stopId (qa_placed (layoutEveryDay lc stops days opts))) +
      mset (map fst (qa_unplaced (layoutEveryDay lc stops days opts))) = mset (map stopId stops)"
proof (cases "days = []")
  case True
  then show ?thesis by (simp add: layoutEveryDay_def comp_def)
next
  case False
  have "crew_visits (sort_cmp (then_cmp (on_key ac_date by_number) (on_key ac_technicianId lc)) (la_crews (layout_days lc stops days opts))) =
      crew_visits (la_crews (layout_days lc stops days opts))" by (rule crew_visits_mset) simp
  with layout_days_facts [OF assms, of lc days] False show ?thesis
    by (simp add: layoutEveryDay_def Let_def concat_places del: mset_map)
qed

definition example_day :: "day \<Rightarrow> plannable_day" where
  "example_day d = \<lparr>pd_date = d, pd_technicianIds = [''ann'', ''bob''], pd_qualified = (\<lambda>kind. None), pd_zoneTechnicians = None\<rparr>"

definition example_options :: layout_options where
  "example_options =
     \<lparr>op_limits = None, op_driveMinutes = Some along_the_road, op_position = (\<lambda>i. None), op_taken = [],
      op_anchors = [], op_homes = (\<lambda>t. None), op_tripZones = [], op_rescheduleMondays = [], op_neighbourMinutes = None,
      op_presetGroups = None, op_presetTargets = None\<rparr>"

lemma quarter_example: "quarter_stops example_stops"
  using proper_example by (simp add: quarter_stops_def example_stops_def example_stop_def ANCHOR_STOP_PREFIX_def)

lemma sensible_example: "sensible_limits (limits_of example_options)"
  by (simp add: limits_of_def example_options_def)

theorem every_visit_accounted_for_witness:
  "mset (map pl_stopId (qa_placed (layoutEveryDay code_unit_compare example_stops [example_day 0, example_day 1] example_options))) +
    mset (map fst (qa_unplaced (layoutEveryDay code_unit_compare example_stops [example_day 0, example_day 1] example_options))) =
   {#''a'', ''b'', ''c'', ''d''#}"
  using every_visit_accounted_for [OF quarter_example sensible_example, of code_unit_compare "[example_day 0, example_day 1]"]
  by (simp add: example_stops_def example_stop_def)

end
