(* ===== verification/Day_Layout_Safe.thy ===== *)
theory Day_Layout_Safe
  imports Day_Layout_Correct
begin

text \<open>
  Who a layout sends where: nobody has two days on one date or a day that was taken already, and
  nobody is given a visit they are not qualified for on its date.
\<close>

abbreviation key_of :: "assigned_crew \<Rightarrow> crew_key" where
  "key_of c \<equiv> (ac_date c, ac_technicianId c)"

text \<open>The days a calendar gives: no date twice, nobody twice on one day, Mondays apart from planned days.\<close>

definition proper_calendar :: "plannable_day list \<Rightarrow> layout_options \<Rightarrow> bool" where
  "proper_calendar days opts \<longleftrightarrow>
     distinct (map pd_date (days @ op_rescheduleMondays opts)) \<and> (\<forall>d \<in> set days. distinct (pd_technicianIds d))"

definition fit_for :: "plannable_day list \<Rightarrow> assigned_crew \<Rightarrow> bool" where
  "fit_for ds c \<longleftrightarrow> (\<exists>d \<in> set ds. pd_date d = ac_date c \<and> list_all (qualified_for d (ac_technicianId c)) (ac_stops c))"

definition crews_ok :: "plannable_day list \<Rightarrow> layout_options \<Rightarrow> day set \<Rightarrow> layout \<Rightarrow> bool" where
  "crews_ok days opts processed la \<longleftrightarrow>
     distinct (map key_of (la_crews la)) \<and>
     (\<forall>c \<in> set (la_crews la). key_of c \<notin> set (op_taken opts) \<and> fit_for days c \<and>
        (key_of c \<in> set (la_onTrip la) \<or> ac_date c \<in> processed))"

definition monday_ok :: "layout_options \<Rightarrow> crew_key \<times> monday_day \<Rightarrow> bool" where
  "monday_ok opts km \<longleftrightarrow>
     fst km = (mo_date (snd km), mo_technicianId (snd km)) \<and> fst km \<notin> set (op_taken opts) \<and>
     (\<exists>d \<in> set (op_rescheduleMondays opts). pd_date d = mo_date (snd km) \<and>
        list_all (qualified_for d (mo_technicianId (snd km))) (mo_stops (snd km)))"

definition mondays_ok :: "layout_options \<Rightarrow> (crew_key \<times> monday_day) list \<Rightarrow> bool" where
  "mondays_ok opts ms \<longleftrightarrow> distinct (map fst ms) \<and> (\<forall>km \<in> set ms. monday_ok opts km)"

section \<open>Trips\<close>

lemma find_map_SomeD: "find P (map f xs) = Some y \<Longrightarrow> \<exists>x \<in> set xs. y = f x \<and> P y"
  by (induction xs) (auto split: if_splits)

lemma firstRun_SomeD:
  assumes "firstRun days n usable = Some run"
  shows "length run = n" "set run \<subseteq> set days" "in_a_row run" "list_all usable run"
proof -
  from assms have "\<exists>start \<in> set (if n \<le> length days then [0..<length days - n + 1] else []).
      run = slice start (start + n) days \<and> in_a_row run \<and> list_all usable run"
    unfolding firstRun_def by (rule find_map_SomeD)
  then obtain start where start: "start \<in> set (if n \<le> length days then [0..<length days - n + 1] else [])"
    and run: "run = slice start (start + n) days" "in_a_row run" "list_all usable run" by blast
  from start have "n \<le> length days" "start \<le> length days - n" by (auto split: if_splits)
  with run show "length run = n" "set run \<subseteq> set days" "in_a_row run" "list_all usable run"
    using slice_subset [of start "start + n" days] by (auto simp: slice_def)
qed

lemma in_a_row_dates: "in_a_row run \<Longrightarrow> i < length run \<Longrightarrow> pd_date (run ! i) = pd_date (run ! 0) + int i"
proof (induction i)
  case (Suc i)
  have "midnight (pd_date (run ! Suc i)) - midnight (pd_date (run ! i)) = MS_PER_DAY"
    using Suc.prems by (fastforce simp: in_a_row_def list_all_iff)
  then have "pd_date (run ! Suc i) = pd_date (run ! i) + 1" by (simp add: midnight_def MS_PER_DAY_def)
  with Suc show ?case by simp
qed simp

lemma trip_crews_keys:
  assumes trip: "trip = map (trip_crew drive z t run n) (enumerate 0 gs)" and len: "length run = length gs" and row: "in_a_row run"
  shows "distinct (map key_of trip)" "\<forall>c \<in> set trip. ac_technicianId c = t \<and> (\<exists>d \<in> set run. ac_date c = pd_date d) \<and> (\<exists>grp \<in> set gs. ac_stops c = gr_path grp)"
proof -
  have nth: "key_of (trip ! i) = (pd_date (run ! 0) + int i, t)" if "i < length trip" for i
    using that in_a_row_dates [OF row, of i] len by (simp add: trip nth_enumerate_eq trip_crew_def)
  show "distinct (map key_of trip)"
    unfolding distinct_conv_nth using nth by simp
  show "\<forall>c \<in> set trip. ac_technicianId c = t \<and> (\<exists>d \<in> set run. ac_date c = pd_date d) \<and> (\<exists>grp \<in> set gs. ac_stops c = gr_path grp)"
  proof
    fix c assume "c \<in> set trip"
    then obtain i where "i < length gs" "c = trip_crew drive z t run n (i, gs ! i)"
      by (auto simp: trip in_set_conv_nth nth_enumerate_eq)
    then show "ac_technicianId c = t \<and> (\<exists>d \<in> set run. ac_date c = pd_date d) \<and> (\<exists>grp \<in> set gs. ac_stops c = gr_path grp)"
      using len by (auto simp: trip_crew_def intro: nth_mem)
  qed
qed

lemma visits_of_member: "grp \<in> set gs \<Longrightarrow> set (gr_path grp) \<subseteq> set_mset (visits_of gs)"
  by (induction gs) auto

definition trips_ok :: "plannable_day list \<Rightarrow> layout_options \<Rightarrow> layout \<Rightarrow> bool" where
  "trips_ok days opts la \<longleftrightarrow> crews_ok days opts {} la \<and> set (map key_of (la_crews la)) = set (la_onTrip la)"

lemma trip_step_safe:
  assumes u: "proper_stops u" and rules: "rules = rules_of days opts" "sizes_ok rules"
    and ok: "layout_ok u rules la" "presets_hold la" and safe: "trips_ok days opts la"
  shows "trips_ok days opts (trip_step lc days opts la z)"
proof -
  obtain tripGroups looseHere members where m: "trip_members la z = (tripGroups, looseHere, members)"
    by (cases "trip_members la z") auto
  note facts = trip_members_facts [OF u ok m]
  let ?rules = "(rules_of days opts)\<lparr>ru_zoned := False\<rparr>"
  define groups where "groups = (if la_presets la = None then groupsOf lc members ?rules else tripGroups @ groupsOf lc looseHere ?rules)"
  let ?un = "\<lambda>key. key \<in> set (op_taken opts) \<or> key \<in> fst ` set (anchored_days lc days opts) \<or> key \<in> set (la_onTrip la)"
  let ?trip = "planTrip z members days (crew_of days) (ru_drive ?rules) (op_homes opts) ?un groups"
  have sub: "mset members \<subseteq># mset u" "mset looseHere \<subseteq># mset u"
    using facts(1,4) left_sub [OF ok(1)] by (meson subset_mset.order_trans)+
  have "visits_of (groupsOf lc members ?rules) = mset members" "visits_of (groupsOf lc looseHere ?rules) = mset looseHere"
    using groupsOf_visits(1) [OF proper_sub [OF u sub(1)], of ?rules lc] groupsOf_visits(1) [OF proper_sub [OF u sub(2)], of ?rules lc]
      rules(2) left_time [OF ok(1) facts(1)] left_time [OF ok(1) facts(4)] by (simp_all add: rules)
  then have groups: "visits_of groups = mset members" using facts(3) by (simp add: groups_def)
  have eq: "trip_step lc days opts la z = (if members = [] then la else case ?trip of
      None \<Rightarrow> (without_trip z members la)\<lparr>la_unplaced := la_unplaced (without_trip z members la) @ map (\<lambda>stop. (stopId stop, NO_TRIP_DAYS)) members\<rparr>
    | Some trip \<Rightarrow> (without_trip z members la)\<lparr>la_onTrip := la_onTrip (without_trip z members la) @ map key_of trip,
        la_crews := la_crews (without_trip z members la) @ trip\<rparr>)"
    unfolding trip_step_def m groups_def Let_def by simp
  have same: "la_crews (without_trip z members la) = la_crews la" "la_onTrip (without_trip z members la) = la_onTrip la"
    by (simp_all add: without_trip_def)
  show ?thesis
  proof (cases "members = [] \<or> ?trip = None")
    case True
    then show ?thesis using safe by (auto simp: eq same trips_ok_def crews_ok_def)
  next
    case False
    then obtain trip where trip: "?trip = Some trip" by auto
    then obtain t run gs where t: "firstRun days (length groups) (\<lambda>d. \<not> ?un (pd_date d, t) \<and> list_all (qualified_for d t) members) = Some run"
      "mset gs = mset groups" "trip = map (trip_crew (ru_drive ?rules) z t run (length gs)) (enumerate 0 gs)"
      by (elim planTrip_SomeD) blast
    note run = firstRun_SomeD [OF t(1)]
    have len: "length run = length gs" using run(1) t(2) by (metis mset_eq_length)
    note keys = trip_crews_keys [OF t(3) len run(3)]
    have new: "key_of c \<notin> set (op_taken opts) \<and> key_of c \<notin> set (la_onTrip la) \<and> fit_for days c" if c: "c \<in> set trip" for c
    proof -
      from keys(2) c obtain d grp where d: "ac_technicianId c = t" "d \<in> set run" "ac_date c = pd_date d" "grp \<in> set gs" "ac_stops c = gr_path grp"
        by blast
      have "grp \<in> set groups" using d(4) t(2) by (metis set_mset_mset)
      then have "set (gr_path grp) \<subseteq> set members"
        using visits_of_member [of grp groups] groups by simp
      moreover have "\<not> ?un (pd_date d, t)" "list_all (qualified_for d t) members"
        using run(4) d(2) by (auto simp: list_all_iff)
      ultimately show ?thesis
        using d run(2) by (auto simp: fit_for_def list_all_iff)
    qed
    have "set (map key_of (la_crews la)) = set (la_onTrip la)" using safe by (simp add: trips_ok_def)
    with new have "set (map key_of (la_crews la)) \<inter> set (map key_of trip) = {}" by auto
    with keys(1) safe have "distinct (map key_of (la_crews la @ trip))" by (simp add: trips_ok_def crews_ok_def)
    moreover have "trip_step lc days opts la z = (without_trip z members la)\<lparr>la_onTrip := la_onTrip la @ map key_of trip, la_crews := la_crews la @ trip\<rparr>"
      using False trip by (simp add: eq same)
    ultimately show ?thesis using safe new by (auto simp: trips_ok_def crews_ok_def)
  qed
qed


section \<open>Mondays\<close>

lemma monday_after_SomeD: "monday_after opts date = Some monday \<Longrightarrow> monday \<in> set (op_rescheduleMondays opts)"
  by (auto simp: monday_after_def dest: find_SomeD)

lemma toMonday_safe:
  assumes cal: "proper_calendar days opts" and ms: "mondays_ok opts mondays"
    and r: "toMonday days opts date t trimmed mondays = (rest, mondays')"
  shows "mondays_ok opts mondays'"
proof (cases "mondays' = mondays")
  case True
  with ms show ?thesis by simp
next
  case False
  then obtain monday where monday: "monday_after opts date = Some monday"
    using r by (cases "monday_after opts date") (auto simp: toMonday_def)
  let ?key = "(pd_date monday, t)"
  define d0 where "d0 = (case map_of mondays ?key of Some d \<Rightarrow> d
    | None \<Rightarrow> \<lparr>mo_date = pd_date monday, mo_technicianId = t, mo_stops = [], mo_onSite = 0\<rparr>)"
  obtain d1 rest1 where f: "foldl (monday_visit monday days opts t) (d0, []) trimmed = (d1, rest1)" by fastforce
  have r': "mondays' = AList.update ?key d1 mondays" and free: "?key \<notin> set (op_taken opts)"
    using r False by (auto simp: toMonday_def monday Let_def d0_def [symmetric] f split: if_splits)
  have m: "monday \<in> set (op_rescheduleMondays opts)" using monday by (rule monday_after_SomeD)
  have "mo_date d0 = pd_date monday \<and> mo_technicianId d0 = t \<and> list_all (qualified_for monday t) (mo_stops d0)"
  proof (cases "map_of mondays ?key")
    case None
    then show ?thesis by (simp add: d0_def)
  next
    case (Some d)
    then have "(?key, d) \<in> set mondays" by (rule map_of_SomeD)
    with ms obtain d' where d': "mo_date d = pd_date monday" "mo_technicianId d = t" "d' \<in> set (op_rescheduleMondays opts)"
      "pd_date d' = pd_date monday" "list_all (qualified_for d' t) (mo_stops d)"
      by (fastforce simp: mondays_ok_def monday_ok_def)
    have "distinct (map pd_date (op_rescheduleMondays opts))" using cal by (simp add: proper_calendar_def)
    from distinct_map_eqD [OF this d'(3) m d'(4)] d' Some show ?thesis by (simp add: d0_def)
  qed
  with monday_visits_facts(3-5) [OF f] have d1: "mo_date d1 = pd_date monday" "mo_technicianId d1 = t" "list_all (qualified_for monday t) (mo_stops d1)"
    by auto
  have "set (AList.update ?key d1 mondays) \<subseteq> insert (?key, d1) (set mondays)"
    by (induction mondays) auto
  moreover have "monday_ok opts (?key, d1)" using m d1 free by (auto simp: monday_ok_def)
  ultimately show ?thesis using ms unfolding r' mondays_ok_def by (auto simp: distinct_update)
qed

section \<open>Days\<close>

text \<open>One more crew on a day nobody else has with them.\<close>

lemma crews_ok_add:
  assumes "crews_ok days opts processed la" "la_crews la' = la_crews la @ [c]" "la_onTrip la' = la_onTrip la"
    "key_of c \<notin> set (op_taken opts)" "key_of c \<notin> set (la_onTrip la)" "fit_for days c"
    "\<forall>c' \<in> set (la_crews la). key_of c' \<noteq> key_of c" "processed \<subseteq> processed'" "ac_date c \<in> processed'"
  shows "crews_ok days opts processed' la'"
  using assms by (auto simp: crews_ok_def)

lemma crews_ok_mono:
  "crews_ok days opts processed la \<Longrightarrow> processed \<subseteq> processed' \<Longrightarrow> la_crews la' = la_crews la \<Longrightarrow> la_onTrip la' = la_onTrip la \<Longrightarrow>
    crews_ok days opts processed' la'"
  by (auto simp: crews_ok_def)

lemma presetAroundAnchors_subset:
  assumes "presetAroundAnchors anchors groups limits cost drive = Some p"
  shows "set (pr_visits p) \<subseteq> set (gr_path (groups ! pr_group p))" "pr_group p < length groups"
proof -
  have ne: "groups \<noteq> []" using assms by (auto simp: presetAroundAnchors_def)
  then show "pr_group p < length groups"
    using assms nearest_group_less [OF ne] by (auto simp: presetAroundAnchors_def Let_def case_prod_beta)
  show "set (pr_visits p) \<subseteq> set (gr_path (groups ! pr_group p))"
    using assms ne by (auto simp: presetAroundAnchors_def Let_def case_prod_beta)
qed

lemma anchored_step_cases:
  assumes cal: "proper_calendar days opts" and u: "quarter_stops u" and ok: "layout_ok u rules la"
    and ms: "mondays_ok opts (la_mondays la)"
  obtains "map_of (anchored_days lc days opts) (pd_date d, t) = None" "anchored_step lc days opts d la t = la"
  | c where "map_of (anchored_days lc days opts) (pd_date d, t) \<noteq> None"
      "la_crews (anchored_step lc days opts d la t) = la_crews la @ [c]" "key_of c = (pd_date d, t)"
      "list_all (qualified_for d t) (ac_stops c)" "la_onTrip (anchored_step lc days opts d la t) = la_onTrip la"
      "mondays_ok opts (la_mondays (anchored_step lc days opts d la t))"
proof (cases "map_of (anchored_days lc days opts) (pd_date d, t)")
  case None
  then show thesis using that(1) by (simp add: anchored_step_def)
next
  case (Some anchors)
  have left: "set (la_left la) \<subseteq> set u"
    using sub_facts(2) [OF _ left_sub [OF ok]] u by (simp add: quarter_stops_def)
  show thesis
  proof (cases "\<exists>ps groups. la_presets la = Some ps \<and> la_groups la = Some groups")
    case False
    define filled where "filled = fillAroundAnchors anchors (filter (qualified_for d t) (la_left la)) (limits_of opts) (cost_of opts) (drive_of opts)"
    have "\<forall>s \<in> set (filter (qualified_for d t) (la_left la)). anchorIdOf s = None"
      using left quarter_stops_anchor [OF u] by auto
    from fillAroundAnchors_facts(1) [OF this filled_def] have "set (fd_visits filled) \<subseteq> set (filter (qualified_for d t) (la_left la))"
      by (metis set_mset_mono set_mset_mset set_uniq)
    then have "list_all (qualified_for d t) (fd_visits filled)" by (auto simp: list_all_iff)
    moreover have "anchored_step lc days opts d la t = anchored_plain opts d t anchors la"
      using Some False by (auto simp: anchored_step_def split: option.split)
    ultimately show thesis
      using that(2) [of "plain_crew (pd_date d) t (fd_visits filled) (fd_onSite filled) (fd_drive filled) (Some anchors) None"] Some ms
      by (simp add: anchored_plain_def filled_def [symmetric] Let_def plain_crew_def)
  next
    case True
    then obtain ps groups where g: "la_presets la = Some ps" "la_groups la = Some groups" by blast
    have step: "anchored_step lc days opts d la t = anchored_preset lc days opts d t anchors groups la"
      using Some g by (simp add: anchored_step_def)
    define theirs where "theirs = filter (\<lambda>i. can_take d t (groups ! i)) [0..<length groups]"
    define offered where "offered = presetAroundAnchors anchors (map (\<lambda>i. groups ! i) theirs) (limits_of opts) (cost_of opts) (drive_of opts)"
    show thesis
    proof (cases offered)
      case None
      define filled where "filled = fillAroundAnchors anchors [] (limits_of opts) (cost_of opts) (drive_of opts)"
      have "fd_visits filled = []" using fillAroundAnchors_facts(1) [OF _ filled_def] by simp
      with that(2) [of "plain_crew (pd_date d) t (fd_visits filled) (fd_onSite filled) (fd_drive filled) (Some anchors) None"] Some ms None
      show thesis by (simp add: step anchored_preset_def theirs_def [symmetric] offered_def [symmetric] filled_def [symmetric] Let_def plain_crew_def)
    next
      case (Some p)
      note p = presetAroundAnchors_subset [OF Some [unfolded offered_def]]
      have "theirs ! pr_group p \<in> set theirs" using p(2) by (intro nth_mem) simp
      then have "can_take d t (groups ! (theirs ! pr_group p))" by (simp add: theirs_def)
      then have "list_all (qualified_for d t) (pr_visits p)"
        using p by (auto simp: can_take_def list_all_iff)
      moreover obtain rest mondays where tm: "toMonday days opts (pd_date d) t (pr_dropped p) (la_mondays la) = (rest, mondays)" by fastforce
      moreover have "mondays_ok opts mondays" by (rule toMonday_safe [OF cal ms tm])
      ultimately show thesis
        using that(2) [of "plain_crew (pd_date d) t (pr_visits p) (pr_onSite p) (pr_drive p) (Some anchors) (gr_preset (groups ! (theirs ! pr_group p)))"]
          \<open>map_of (anchored_days lc days opts) (pd_date d, t) = Some anchors\<close> Some
        by (simp add: step anchored_preset_def theirs_def [symmetric] offered_def [symmetric] Let_def plain_crew_def)
    qed
  qed
qed

text \<open>While a day is given out: who already has it.\<close>

definition day_state :: "plannable_day list \<Rightarrow> layout_options \<Rightarrow> plannable_day \<Rightarrow> day set \<Rightarrow> string set \<Rightarrow> layout \<Rightarrow> bool" where
  "day_state days opts d processed busy la \<longleftrightarrow>
     crews_ok days opts (insert (pd_date d) processed) la \<and> mondays_ok opts (la_mondays la) \<and>
     (\<forall>c \<in> set (la_crews la). ac_date c = pd_date d \<longrightarrow> key_of c \<in> set (la_onTrip la) \<or> ac_technicianId c \<in> busy)"

lemma day_state_add:
  assumes st: "day_state days opts d processed busy la" and d: "d \<in> set days"
    and c: "la_crews la' = la_crews la @ [c]" "key_of c = (pd_date d, t)" "list_all (qualified_for d t) (ac_stops c)"
      "la_onTrip la' = la_onTrip la" "mondays_ok opts (la_mondays la')"
    and free: "(pd_date d, t) \<notin> set (op_taken opts)" "(pd_date d, t) \<notin> set (la_onTrip la)" "t \<notin> busy"
  shows "day_state days opts d processed (insert t busy) la'"
proof -
  have fit: "fit_for days c" using c(2,3) d by (auto simp: fit_for_def)
  from st have crews: "crews_ok days opts (insert (pd_date d) processed) la" and
    busy: "\<forall>c \<in> set (la_crews la). ac_date c = pd_date d \<longrightarrow> key_of c \<in> set (la_onTrip la) \<or> ac_technicianId c \<in> busy"
    by (simp_all add: day_state_def)
  have "\<forall>c' \<in> set (la_crews la). key_of c' \<noteq> key_of c" using busy c(2) free(2,3) by fastforce
  moreover have "key_of c \<notin> set (op_taken opts)" "key_of c \<notin> set (la_onTrip la)" "ac_date c \<in> insert (pd_date d) processed"
    using c(2) free by simp_all
  ultimately have "crews_ok days opts (insert (pd_date d) processed) la'"
    using crews_ok_add [OF crews c(1,4) _ _ fit _ subset_refl] by blast
  moreover have "\<forall>c \<in> set (la_crews la'). ac_date c = pd_date d \<longrightarrow> key_of c \<in> set (la_onTrip la') \<or> ac_technicianId c \<in> insert t busy"
    using busy c(1,2,4) by auto
  ultimately show ?thesis using c(5) by (simp add: day_state_def)
qed


lemma day_state_mono: "day_state days opts d processed busy la \<Longrightarrow> busy \<subseteq> busy' \<Longrightarrow> day_state days opts d processed busy' la"
  by (auto simp: day_state_def)

lemma anchored_steps_safe:
  assumes cal: "proper_calendar days opts" and u: "quarter_stops u" and rules: "sizes_ok rules" "rules = rules_of days opts" and d: "d \<in> set days"
  shows "layout_ok u rules la \<Longrightarrow> groups_hold la \<Longrightarrow> day_state days opts d processed busy la \<Longrightarrow> distinct ts \<Longrightarrow>
    busy \<inter> set ts = {} \<Longrightarrow> \<forall>t \<in> set ts. (pd_date d, t) \<notin> set (op_taken opts) \<and> (pd_date d, t) \<notin> set (la_onTrip la) \<Longrightarrow>
    day_state days opts d processed (busy \<union> {t \<in> set ts. map_of (anchored_days lc days opts) (pd_date d, t) \<noteq> None})
      (foldl (anchored_step lc days opts d) la ts) \<and>
    la_onTrip (foldl (anchored_step lc days opts d) la ts) = la_onTrip la"
proof (induction ts arbitrary: la busy)
  case (Cons t ts)
  have ms: "mondays_ok opts (la_mondays la)" using Cons.prems(3) by (simp add: day_state_def)
  have next_ok: "layout_ok u rules (anchored_step lc days opts d la t)" "groups_hold (anchored_step lc days opts d la t)"
    using anchored_steps_ok [OF u rules Cons.prems(1,2), of lc d "[t]"] by simp_all
  show ?case
  proof (cases rule: anchored_step_cases [OF cal u Cons.prems(1) ms, of lc d t])
    case 1
    with Cons.IH [OF Cons.prems(1-3)] Cons.prems(4-6) show ?thesis
      by (auto elim: day_state_mono)
  next
    case (2 c)
    let ?la = "anchored_step lc days opts d la t"
    have "day_state days opts d processed (insert t busy) ?la"
      using day_state_add [OF Cons.prems(3) d 2(2-6)] Cons.prems(5,6) by simp
    from Cons.IH [OF next_ok this] Cons.prems(4-6) 2(1,5) show ?thesis
      by (auto elim: day_state_mono)
  qed
qed simp

lemma give_groups_safe:
  assumes d: "d \<in> set days"
  shows "day_state days opts d processed busy la \<Longrightarrow> distinct ts \<Longrightarrow> busy \<inter> set ts = {} \<Longrightarrow>
    \<forall>t \<in> set ts. (pd_date d, t) \<notin> set (op_taken opts) \<and> (pd_date d, t) \<notin> set (la_onTrip la) \<Longrightarrow>
    day_state days opts d processed (busy \<union> set ts) (fst (foldl (give_group lc stops days opts circle d) (la, taken) ts)) \<and>
    la_onTrip (fst (foldl (give_group lc stops days opts circle d) (la, taken) ts)) = la_onTrip la"
proof (induction ts arbitrary: la taken busy)
  case (Cons t ts)
  show ?case
  proof (cases rule: give_group_cases [of lc stops days opts circle d la taken t])
    case 1
    with Cons.IH [OF Cons.prems(1)] Cons.prems(2-4) show ?thesis
      by (auto intro: day_state_mono [of days opts d processed "busy \<union> set ts"])
  next
    case (2 i today la' z)
    have "day_state days opts d processed (insert t busy) la'"
      by (rule day_state_add [OF Cons.prems(1) d 2(7)])
        (use 2 Cons.prems(1,3,4) in \<open>simp_all add: plain_crew_def can_take_def day_state_def\<close>)
    from Cons.IH [OF this] Cons.prems(2-4) 2 show ?thesis by (auto elim: day_state_mono)
  qed
qed simp

lemma day_step_safe:
  assumes cal: "proper_calendar days opts" and u: "quarter_stops u" and rules: "sizes_ok rules" "rules = rules_of days opts"
    and d: "d \<in> set days" and ok: "layout_ok u rules la" "groups_hold la"
    and safe: "crews_ok days opts processed la" "mondays_ok opts (la_mondays la)" and new: "pd_date d \<notin> processed"
  shows "crews_ok days opts (insert (pd_date d) processed) (day_step lc stops days opts circle la d) \<and>
    mondays_ok opts (la_mondays (day_step lc stops days opts circle la d))"
proof -
  define free where "free = filter (\<lambda>t. (pd_date d, t) \<notin> set (op_taken opts) \<and> (pd_date d, t) \<notin> set (la_onTrip la)) (pd_technicianIds d)"
  define la1 where "la1 = foldl (anchored_step lc days opts d) la free"
  define others where "others = filter (\<lambda>t. map_of (anchored_days lc days opts) (pd_date d, t) = None) free"
  have start: "day_state days opts d processed {} la"
    using safe new by (auto simp: day_state_def crews_ok_def)
  have free: "distinct free" "\<forall>t \<in> set free. (pd_date d, t) \<notin> set (op_taken opts) \<and> (pd_date d, t) \<notin> set (la_onTrip la)"
    using cal d by (simp_all add: free_def proper_calendar_def)
  have one: "day_state days opts d processed {t \<in> set free. map_of (anchored_days lc days opts) (pd_date d, t) \<noteq> None} la1"
    "la_onTrip la1 = la_onTrip la"
    using anchored_steps_safe [OF cal u rules d ok start free(1) _ free(2), of lc] by (simp_all add: la1_def)
  have "\<exists>busy. day_state days opts d processed busy (day_step lc stops days opts circle la d)"
  proof (cases "others = [] \<or> la_left la1 = []")
    case True
    then have "day_step lc stops days opts circle la d = la1"
      by (simp add: day_step_def free_def [symmetric] la1_def [symmetric] others_def [symmetric] Let_def)
    with one show ?thesis by auto
  next
    case False
    define today where "today = (case la_groups la1 of None \<Rightarrow> groupsOf lc (la_left la1) (rules_of days opts) | Some gs \<Rightarrow> gs)"
    define ts where "ts = filter (has_own_turn days circle d (la_turnOf la1) today) others @
           filter (\<lambda>t. \<not> has_own_turn days circle d (la_turnOf la1) today t) others"
    have eq: "day_step lc stops days opts circle la d =
        fst (foldl (give_group lc stops days opts circle d) (la1\<lparr>la_groups := Some today\<rparr>, []) ts)"
      by (simp only: day_step_def Let_def free_def [symmetric] la1_def [symmetric] others_def [symmetric] today_def [symmetric]
          ts_def [symmetric] False if_False)
    have ts: "distinct ts" "set ts = set others"
      using free(1) by (auto simp: ts_def others_def)
    have "day_state days opts d processed {t \<in> set free. map_of (anchored_days lc days opts) (pd_date d, t) \<noteq> None} (la1\<lparr>la_groups := Some today\<rparr>)"
      using one(1) by (simp add: day_state_def crews_ok_def)
    note given = give_groups_safe [OF d this ts(1), of lc stops circle "[]"]
    have "{t \<in> set free. map_of (anchored_days lc days opts) (pd_date d, t) \<noteq> None} \<inter> set ts = {}"
      unfolding ts(2) others_def by auto
    moreover have "\<forall>t \<in> set ts. (pd_date d, t) \<notin> set (op_taken opts) \<and> (pd_date d, t) \<notin> set (la_onTrip (la1\<lparr>la_groups := Some today\<rparr>))"
      unfolding ts(2) others_def using one(2) free(2) by simp
    ultimately show ?thesis unfolding eq using given by blast
  qed
  then show ?thesis by (auto simp: day_state_def)
qed

lemma day_steps_safe:
  assumes cal: "proper_calendar days opts" and u: "quarter_stops u" and rules: "sizes_ok rules" "rules = rules_of days opts"
  shows "set ds \<subseteq> set days \<Longrightarrow> distinct (map pd_date ds) \<Longrightarrow> processed \<inter> pd_date ` set ds = {} \<Longrightarrow>
    layout_ok u rules la \<Longrightarrow> groups_hold la \<Longrightarrow> crews_ok days opts processed la \<Longrightarrow> mondays_ok opts (la_mondays la) \<Longrightarrow>
    crews_ok days opts (processed \<union> pd_date ` set ds) (foldl (day_step lc stops days opts circle) la ds) \<and>
    mondays_ok opts (la_mondays (foldl (day_step lc stops days opts circle) la ds))"
proof (induction ds arbitrary: la processed)
  case (Cons d ds)
  have d: "d \<in> set days" "pd_date d \<notin> processed" using Cons.prems(1,3) by auto
  note safe = day_step_safe [OF cal u rules d(1) Cons.prems(4-7) d(2), of lc stops circle]
  note ok = day_step_ok [OF u rules Cons.prems(4,5), of lc stops circle d]
  have "insert (pd_date d) processed \<inter> pd_date ` set ds = {}" using Cons.prems(2,3) by auto
  from Cons.IH [OF _ _ this, of "day_step lc stops days opts circle la d"] ok safe Cons.prems(1,2) show ?case by simp
qed simp


section \<open>The end of a layout\<close>

lemma dayOn_SomeD: "dayOn_of days date = Some d \<Longrightarrow> d \<in> set days \<and> pd_date d = date"
  unfolding dayOn_of_def map_from_def by (drule map_of_SomeD) auto

lemma squeeze_into_subset:
  assumes "sq_path b = insert_at k stop (map anchorAsStop anchors @ ac_stops c)"
  shows "set (ac_stops (squeeze_into cost drive stop b c)) \<subseteq> insert stop (set (ac_stops c))"
    "key_of (squeeze_into cost drive stop b c) = key_of c"
proof -
  have "set (sq_path b) = insert stop (set (map anchorAsStop anchors @ ac_stops c))"
    unfolding assms using mset_insert_at by (metis set_mset_add_mset_insert set_mset_mset)
  then show "set (ac_stops (squeeze_into cost drive stop b c)) \<subseteq> insert stop (set (ac_stops c))"
    by (auto simp: squeeze_into_def Let_def)
  show "key_of (squeeze_into cost drive stop b c) = key_of c" by (simp add: squeeze_into_def Let_def)
qed

lemma squeeze_one_safe:
  assumes cal: "distinct (map pd_date days)" and fit: "\<forall>c \<in> set crews. fit_for days c"
    and r: "squeeze_one (dayOn_of days) limits cost drive (crews, left) stop = (crews', left')"
  shows "map key_of crews' = map key_of crews" "\<forall>c \<in> set crews'. fit_for days c"
proof -
  have "map key_of crews' = map key_of crews \<and> (\<forall>c \<in> set crews'. fit_for days c)"
  proof (cases "least_offer sq_added (squeeze_offer crews (dayOn_of days) limits cost stop) [0..<length crews]")
    case None
    with r fit show ?thesis by (simp add: squeeze_one_def)
  next
    case (Some b)
    from least_offer_SomeD(1) [OF Some] obtain i where
      i: "i < length crews" "squeeze_offer crews (dayOn_of days) limits cost stop i = Some b" by auto
    note b = squeeze_offer_SomeD [OF i(2)]
    let ?c = "squeeze_into cost drive stop b (crews ! i)"
    have eq: "crews' = crews[i := ?c]" using r Some b(1) by (simp add: squeeze_one_def)
    from b(2) obtain k where k: "sq_path b = insert_at k stop (map anchorAsStop (anchors_of (crews ! i)) @ ac_stops (crews ! i))" by blast
    note c = squeeze_into_subset [OF k, of cost drive]
    obtain d where d: "d \<in> set days" "pd_date d = ac_date (crews ! i)" "qualified_for d (ac_technicianId (crews ! i)) stop"
      using b(3) dayOn_SomeD by blast
    obtain d' where d': "d' \<in> set days" "pd_date d' = ac_date (crews ! i)"
      "list_all (qualified_for d' (ac_technicianId (crews ! i))) (ac_stops (crews ! i))"
      using fit nth_mem [OF i(1)] unfolding fit_for_def by blast
    have "d' = d" using distinct_map_eqD [OF cal d'(1) d(1)] d(2) d'(2) by simp
    with d'(3) d(3) have "\<forall>s \<in> insert stop (set (ac_stops (crews ! i))). qualified_for d (ac_technicianId (crews ! i)) s"
      by (simp add: list_all_iff)
    with c have "list_all (qualified_for d (ac_technicianId ?c)) (ac_stops ?c)" by (auto simp: list_all_iff)
    with d(1,2) c(2) have "fit_for days ?c" by (auto simp: fit_for_def)
    moreover have "map key_of crews' = map key_of crews"
      unfolding eq map_update c(2) using i(1) by (simp add: list_update_same_conv)
    ultimately show ?thesis using fit set_update_subset_insert [of crews i ?c] unfolding eq by blast
  qed
  then show "map key_of crews' = map key_of crews" "\<forall>c \<in> set crews'. fit_for days c" by auto
qed

lemma squeezeIn_safe:
  assumes cal: "distinct (map pd_date days)"
  shows "\<forall>c \<in> set crews. fit_for days c \<Longrightarrow> foldl (squeeze_one (dayOn_of days) limits cost drive) (crews, left) xs = (crews', left') \<Longrightarrow>
    map key_of crews' = map key_of crews \<and> (\<forall>c \<in> set crews'. fit_for days c)"
proof (induction xs arbitrary: crews left)
  case (Cons x xs)
  obtain crews1 left1 where one: "squeeze_one (dayOn_of days) limits cost drive (crews, left) x = (crews1, left1)" by fastforce
  note s = squeeze_one_safe [OF cal Cons.prems(1) one]
  from Cons.IH [OF s(2)] Cons.prems(2) one s(1) show ?case by simp
qed simp

lemma fit_for_mono: "fit_for ds c \<Longrightarrow> set ds \<subseteq> set ds' \<Longrightarrow> fit_for ds' c"
  by (auto simp: fit_for_def)

definition safe_crews :: "plannable_day list \<Rightarrow> layout_options \<Rightarrow> assigned_crew list \<Rightarrow> bool" where
  "safe_crews days opts crews \<longleftrightarrow>
     distinct (map key_of crews) \<and>
     (\<forall>c \<in> set crews. key_of c \<notin> set (op_taken opts) \<and> fit_for (days @ op_rescheduleMondays opts) c)"

lemma monday_crew_safe:
  assumes "monday_ok opts km"
  shows "key_of (monday_crew opts (snd km)) = fst km" "fst km \<notin> set (op_taken opts)"
    "fit_for (op_rescheduleMondays opts) (monday_crew opts (snd km))"
  using assms by (auto simp: monday_ok_def monday_crew_def Let_def fit_for_def list_all_iff)

lemma finish_layout_safe:
  assumes cal: "proper_calendar days opts" and crews: "crews_ok days opts processed la" and ms: "mondays_ok opts (la_mondays la)"
  shows "safe_crews days opts (la_crews (finish_layout days opts la))"
proof -
  obtain crews' left where sq: "(if la_left la = [] then (la_crews la, []) else
      squeezeIn (la_crews la) (la_left la) (dayOn_of days) (limits_of opts) (cost_of opts) (drive_of opts)) = (crews', left)" by fastforce
  have dates: "distinct (map pd_date days)" using cal by (simp add: proper_calendar_def)
  have fit: "\<forall>c \<in> set (la_crews la). fit_for days c" using crews by (simp add: crews_ok_def)
  have crews': "map key_of crews' = map key_of (la_crews la) \<and> (\<forall>c \<in> set crews'. fit_for days c)"
  proof (cases "la_left la = []")
    case False
    with sq show ?thesis by (intro squeezeIn_safe [OF dates fit]) (simp add: squeezeIn_def)
  qed (use sq fit in auto)
  let ?mondays = "map (\<lambda>(key, m). monday_crew opts m) (la_mondays la)"
  have fin: "la_crews (finish_layout days opts la) = crews' @ ?mondays"
    unfolding finish_layout_def Let_def sq by simp
  have mkeys: "map key_of ?mondays = map fst (la_mondays la)"
    using ms monday_crew_safe(1) by (auto simp: mondays_ok_def case_prod_beta)
  have "fst key \<in> pd_date ` set days" if "key \<in> set (map key_of crews')" for key
  proof -
    from that obtain c where "c \<in> set crews'" "key = key_of c" by auto
    moreover from this crews' obtain d where "d \<in> set days" "pd_date d = ac_date c" by (auto simp: fit_for_def)
    ultimately show ?thesis by (metis fst_conv image_eqI)
  qed
  moreover have "fst key \<in> pd_date ` set (op_rescheduleMondays opts)" if "key \<in> fst ` set (la_mondays la)" for key
  proof -
    from that obtain km where "km \<in> set (la_mondays la)" "key = fst km" by auto
    with ms have "monday_ok opts km" "key = fst km" by (simp_all add: mondays_ok_def)
    then obtain d where "d \<in> set (op_rescheduleMondays opts)" "pd_date d = fst key" by (auto simp: monday_ok_def)
    then show ?thesis by (metis image_eqI)
  qed
  moreover have "pd_date ` set days \<inter> pd_date ` set (op_rescheduleMondays opts) = {}"
    using cal by (simp add: proper_calendar_def)
  ultimately have apart: "set (map key_of crews') \<inter> fst ` set (la_mondays la) = {}" by blast
  have "distinct (map key_of (crews' @ ?mondays))"
    unfolding map_append mkeys using apart crews crews' ms by (simp add: crews_ok_def mondays_ok_def)
  moreover have "key_of c \<notin> set (op_taken opts) \<and> fit_for (days @ op_rescheduleMondays opts) c" if c: "c \<in> set (crews' @ ?mondays)" for c
  proof (cases "c \<in> set crews'")
    case True
    then have "key_of c \<in> key_of ` set crews'" by (rule imageI)
    also have "key_of ` set crews' = key_of ` set (la_crews la)" using crews' by (simp only: set_map [symmetric])
    finally have "key_of c \<notin> set (op_taken opts)" using crews by (auto simp: crews_ok_def)
    moreover have "fit_for (days @ op_rescheduleMondays opts) c" using True crews' fit_for_mono [of days c] by auto
    ultimately show ?thesis by simp
  next
    case False
    then obtain km where km: "km \<in> set (la_mondays la)" "c = monday_crew opts (snd km)" using c by auto
    then have ok: "monday_ok opts km" using ms by (simp add: mondays_ok_def)
    have "fit_for (days @ op_rescheduleMondays opts) c"
      unfolding km(2) by (rule fit_for_mono [OF monday_crew_safe(3) [OF ok]]) simp
    with monday_crew_safe(1,2) [OF ok] show ?thesis unfolding km(2) by simp
  qed
  ultimately show ?thesis unfolding safe_crews_def fin by blast
qed

lemma trip_steps_safe:
  assumes "proper_stops u" "rules = rules_of days opts" "sizes_ok rules"
  shows "layout_ok u rules la \<Longrightarrow> presets_hold la \<Longrightarrow> trips_ok days opts la \<Longrightarrow>
    trips_ok days opts (foldl (trip_step lc days opts) la zs)"
proof (induction zs arbitrary: la)
  case (Cons z zs)
  note s = trip_step_ok [OF assms Cons.prems(1,2), of lc z] and t = trip_step_safe [OF assms Cons.prems, of lc z]
  with Cons.IH [of "trip_step lc days opts la z"] show ?case by simp
qed simp

lemma layout_days_safe:
  assumes cal: "proper_calendar days opts" and u: "quarter_stops u" and limits: "sensible_limits (limits_of opts)"
  shows "safe_crews days opts (la_crews (layout_days lc u days opts))"
proof -
  have proper: "proper_stops u" using u by (simp add: quarter_stops_def)
  have lim: "ru_limits (rules_of days opts) = limits_of opts" by (simp add: rules_of_def)
  note start = layout_start_ok [OF proper lim, of days]
  have "trips_ok days opts (layout_start u days opts)" using start by (simp add: trips_ok_def crews_ok_def)
  from trip_steps_safe [OF proper refl rules_sizes [OF limits] start(1,2) this]
  have "crews_ok days opts {} (before_days lc u days opts)"
    by (simp add: trips_ok_def before_days_def Let_def crews_ok_def)
  moreover have "mondays_ok opts (la_mondays (before_days lc u days opts))"
    using before_days_ok(3) [OF u limits] by (simp add: mondays_ok_def)
  moreover have "distinct (map pd_date days)" using cal by (simp add: proper_calendar_def)
  ultimately have "crews_ok days opts ({} \<union> pd_date ` set days)
      (foldl (day_step lc u days opts (circle_of lc (la_left (before_days lc u days opts)))) (before_days lc u days opts) days) \<and>
    mondays_ok opts (la_mondays
      (foldl (day_step lc u days opts (circle_of lc (la_left (before_days lc u days opts)))) (before_days lc u days opts) days))"
    by (intro day_steps_safe [OF cal u rules_sizes [OF limits] refl subset_refl _ _ before_days_ok(1,2) [OF u limits]]) simp_all
  then show ?thesis unfolding layout_days_def Let_def by (intro finish_layout_safe [OF cal]) blast+
qed

lemma layoutEveryDay_crews: "mset (qa_crews (layoutEveryDay lc stops days opts)) = (if days = [] then {#} else mset (la_crews (layout_days lc stops days opts)))"
  by (simp add: layoutEveryDay_def Let_def)

lemma safe_crews_mset:
  assumes "mset cs = mset ds" "safe_crews days opts cs"
  shows "safe_crews days opts ds"
proof -
  have "mset (map key_of cs) = mset (map key_of ds)" using assms(1) by simp
  then have "distinct (map key_of ds)" using assms(2) by (metis mset_eq_imp_distinct_iff safe_crews_def)
  with assms(2) mset_eq_setD [OF assms(1)] show ?thesis by (simp add: safe_crews_def)
qed

lemma layoutEveryDay_safe:
  assumes "proper_calendar days opts" "quarter_stops stops" "sensible_limits (limits_of opts)"
  shows "safe_crews days opts (qa_crews (layoutEveryDay lc stops days opts))"
proof (cases "days = []")
  case True
  then show ?thesis by (simp add: layoutEveryDay_def safe_crews_def)
next
  case False
  then show ?thesis
    using safe_crews_mset [OF _ layout_days_safe [OF assms, of lc]] layoutEveryDay_crews [of lc stops days opts] by simp
qed

text \<open>
  C2. Nobody is sent out twice on one date, and a day a coordinator has taken stays theirs: each
  technician has at most one day of the layout on any date, and none on a technician-day that was
  taken before.
\<close>

theorem nobody_twice:
  assumes "proper_calendar days opts" "quarter_stops stops" "sensible_limits (limits_of opts)"
  shows "distinct (map (\<lambda>c. (ac_date c, ac_technicianId c)) (qa_crews (layoutEveryDay lc stops days opts))) \<and>
    (\<lambda>c. (ac_date c, ac_technicianId c)) ` set (qa_crews (layoutEveryDay lc stops days opts)) \<inter> set (op_taken opts) = {}"
  using layoutEveryDay_safe [OF assms, of lc] by (auto simp: safe_crews_def)

text \<open>
  C3. Nobody is given a visit they cannot take: on a planned day or a Monday kept for rescheduled
  visits, each technician works that day and is qualified for the kind of each visit on it,
  the visits of trips, of appointment days and those squeezed in at the end included.
\<close>

theorem everyone_qualified:
  assumes "proper_calendar days opts" "quarter_stops stops" "sensible_limits (limits_of opts)"
  shows "list_all (\<lambda>c. list_ex (\<lambda>d. pd_date d = ac_date c \<and> list_all (qualified_for d (ac_technicianId c)) (ac_stops c))
      (days @ op_rescheduleMondays opts)) (qa_crews (layoutEveryDay lc stops days opts))"
  using layoutEveryDay_safe [OF assms, of lc] by (fastforce simp: safe_crews_def fit_for_def list_all_iff list_ex_iff)

lemma proper_example_calendar: "proper_calendar [example_day 0, example_day 1] example_options"
  by (simp add: proper_calendar_def example_day_def example_options_def)

theorem nobody_twice_witness:
  "distinct (map (\<lambda>c. (ac_date c, ac_technicianId c))
    (qa_crews (layoutEveryDay code_unit_compare example_stops [example_day 0, example_day 1] example_options)))"
  using nobody_twice [OF proper_example_calendar quarter_example sensible_example] by blast

theorem everyone_qualified_witness:
  "list_all (\<lambda>c. list_ex (\<lambda>d. pd_date d = ac_date c \<and> list_all (qualified_for d (ac_technicianId c)) (ac_stops c))
      ([example_day 0, example_day 1] @ []))
    (qa_crews (layoutEveryDay code_unit_compare example_stops [example_day 0, example_day 1] example_options))"
  using everyone_qualified [OF proper_example_calendar quarter_example sensible_example, of code_unit_compare]
  by (simp add: example_options_def)

end
