(* ===== verification/Group_Ops.thy ===== *)
theory Group_Ops
  imports Zone_Rotation "HOL-Library.AList"
begin

text \<open>
  \<open>shared/src/contracts/group-template-ops.ts\<close>: live editing of a group template. Every change is
  a small operation; the server and every browser apply the same batches with \<open>applyGroupOps\<close>, and
  a browser works out what its user just did with \<open>diffGroupOps\<close>.

  The file's numbers are doubles. The number in a group's name is an integer below \<open>2 ^ 53\<close> in
  practice, where adding one is exact; at \<open>2 ^ 53\<close> it rounds back, which \<open>next_number\<close> keeps.
  Numbers above that are outside the model. A loop that looks for a free number may therefore never
  end: what depends on it is an \<open>option\<close>, \<open>None\<close> for never.
\<close>

section \<open>Data\<close>

record 'k live_group =
  lg_id :: string
  lg_name :: string
  lg_color :: string
  lg_target :: int
  lg_stops :: "'k list"

type_synonym 'k live_groups = "'k live_group list"

datatype 'k group_op =
    Template_Update "string option" "int option"
  | Group_Create string string string int "int option"
  | Group_Update string "string option" "string option" "int option"
  | Group_Delete string
  | Groups_Order "string list"
  | Stop_Add string 'k
  | Stop_Remove 'k
  | Stops_Order string "'k list"

section \<open>What the server accepts\<close>

definition is_hex :: "char \<Rightarrow> bool" where
  "is_hex c \<longleftrightarrow> is_digit c \<or> (let n = of_char (lower_char c) :: nat in 97 \<le> n \<and> n \<le> 102)"

text \<open>\<open>[0-9a-f]{n}\<close>, \<open>-\<close> between, and nothing more.\<close>

fun hex_blocks :: "nat list \<Rightarrow> string \<Rightarrow> bool" where
  "hex_blocks [] s = (s = [])"
| "hex_blocks [n] s = (length s = n \<and> list_all is_hex s)"
| "hex_blocks (n # ns) s =
     (list_all is_hex (take n s) \<and> length (take n s) = n \<and>
      (case drop n s of [] \<Rightarrow> False | c # rest \<Rightarrow> c = CHR ''-'' \<and> hex_blocks ns rest))"

definition is_uuid :: "string \<Rightarrow> bool" where
  "is_uuid s \<longleftrightarrow> hex_blocks [8, 4, 4, 4, 12] s"

definition name_schema :: "string \<Rightarrow> string option" where
  "name_schema s = (let t = js_trim s in if 1 \<le> length t \<and> length t \<le> 80 then Some t else None)"

definition is_color :: "string \<Rightarrow> bool" where
  "is_color s \<longleftrightarrow> (case s of [] \<Rightarrow> False | c # rest \<Rightarrow> c = CHR ''#'' \<and> hex_blocks [6] rest)"

definition is_target :: "int \<Rightarrow> bool" where
  "is_target n \<longleftrightarrow> 1 \<le> n \<and> n \<le> 24"

text \<open>\<open>.optional()\<close>: nothing stays nothing.\<close>

definition optional_name :: "string option \<Rightarrow> string option option" where
  "optional_name n = (case n of None \<Rightarrow> Some None | Some s \<Rightarrow> map_option Some (name_schema s))"

definition is_optional :: "('a \<Rightarrow> bool) \<Rightarrow> 'a option \<Rightarrow> bool" where
  "is_optional P v \<longleftrightarrow> (case v of None \<Rightarrow> True | Some x \<Rightarrow> P x)"

text \<open>An operation as the schema reads it, names trimmed; \<open>None\<close> when it refuses it.\<close>

fun groupTemplateOpSchema :: "string group_op \<Rightarrow> string group_op option" where
  "groupTemplateOpSchema (Template_Update n minutes) =
     (if is_optional (\<lambda>m. 5 \<le> m \<and> m \<le> 240) minutes then map_option (\<lambda>n. Template_Update n minutes) (optional_name n) else None)"
| "groupTemplateOpSchema (Group_Create i n c t index) =
     (if is_uuid i \<and> is_color c \<and> is_target t \<and> is_optional (\<lambda>k. 0 \<le> k \<and> k \<le> 1000) index
      then map_option (\<lambda>n. Group_Create i n c t index) (name_schema n) else None)"
| "groupTemplateOpSchema (Group_Update i n c t) =
     (if is_uuid i \<and> is_optional is_color c \<and> is_optional is_target t
      then map_option (\<lambda>n. Group_Update i n c t) (optional_name n) else None)"
| "groupTemplateOpSchema (Group_Delete i) = (if is_uuid i then Some (Group_Delete i) else None)"
| "groupTemplateOpSchema (Groups_Order is) =
     (if list_all is_uuid is \<and> length is \<le> 1000 then Some (Groups_Order is) else None)"
| "groupTemplateOpSchema (Stop_Add i s) = (if is_uuid i \<and> is_uuid s then Some (Stop_Add i s) else None)"
| "groupTemplateOpSchema (Stop_Remove s) = (if is_uuid s then Some (Stop_Remove s) else None)"
| "groupTemplateOpSchema (Stops_Order i ss) =
     (if is_uuid i \<and> list_all is_uuid ss \<and> length ss \<le> 100 then Some (Stops_Order i ss) else None)"

definition groupTemplateOpsSchema :: "string group_op list \<Rightarrow> string group_op list option" where
  "groupTemplateOpsSchema ops =
     (if 1 \<le> length ops \<and> length ops \<le> 500 then those (map groupTemplateOpSchema ops) else None)"

section \<open>Names\<close>

definition name_key :: "string \<Rightarrow> string" where
  "name_key value = toLowerCase (js_trim value)"

text \<open>
  \<open>/^(.*?[^\d\s])?\s*(\d+)$/\<close> on the trimmed name. What the optional group takes ends at the last
  character that is neither a digit nor white space, and holds no line terminator (\<open>.\<close> matches
  none); the rest is white space and then digits.
\<close>

definition digit_or_space :: "char \<Rightarrow> bool" where
  "digit_or_space c \<longleftrightarrow> is_digit c \<or> is_space c"

definition ends_line :: "char \<Rightarrow> bool" where
  "ends_line c \<longleftrightarrow> c = CHR 0x0A \<or> c = CHR 0x0D"

definition split_number :: "string \<Rightarrow> (string \<times> string) option" where
  "split_number t =
     (let prefix = rev (dropWhile digit_or_space (rev t));
          ds = dropWhile is_space (rev (takeWhile digit_or_space (rev t)))
      in if ds = [] \<or> \<not> list_all is_digit ds \<or> list_ex ends_line prefix then None else Some (prefix, ds))"

definition numbered :: "string \<Rightarrow> (string \<times> int) option" where
  "numbered value = map_option (\<lambda>(prefix, ds). (prefix, number_of_digits ds)) (split_number (js_trim value))"

definition MAX_COUNTED :: int where
  "MAX_COUNTED = 2 ^ 53"

definition next_number :: "int \<Rightarrow> int" where
  "next_number n = (if n < MAX_COUNTED then n + 1 else n)"

definition join_name :: "string \<Rightarrow> int \<Rightarrow> string" where
  "join_name prefix value = (if prefix \<noteq> [] then prefix @ '' '' @ string_of_int value else string_of_int value)"

text \<open>The highest number among the names of a kind, from the number given.\<close>

definition highest_number :: "string \<Rightarrow> string list \<Rightarrow> int \<Rightarrow> int" where
  "highest_number prefix taken start =
     foldl (\<lambda>number other. case numbered other of
        None \<Rightarrow> number
      | Some (p, n) \<Rightarrow> if name_key p = name_key prefix then max number n else number) start taken"

text \<open>\<open>do number += 1; while (names.has(key(join(number))))\<close>.\<close>

partial_function (option) free_name :: "string set \<Rightarrow> string \<Rightarrow> int \<Rightarrow> string option" where
  "free_name names prefix number =
     (let number = next_number number
      in if name_key (join_name prefix number) \<in> names then free_name names prefix number
         else Some (join_name prefix number))"

declare free_name.simps [code]

definition uniqueGroupName :: "string \<Rightarrow> string list \<Rightarrow> string option" where
  "uniqueGroupName wanted taken =
     (let trimmed = js_trim wanted;
          names = name_key ` set taken
      in if name_key trimmed \<notin> names then Some trimmed
         else
           let prefix = (case numbered trimmed of None \<Rightarrow> trimmed | Some (p, n) \<Rightarrow> p)
           in free_name names prefix (highest_number prefix taken 1))"

text \<open>The names' kinds, in the order they are first met: key, prefix, how many, last index.\<close>

record name_kind =
  nk_prefix :: string
  nk_count :: int
  nk_last :: int

definition count_kind :: "(string \<times> name_kind) list \<Rightarrow> nat \<times> string \<Rightarrow> (string \<times> name_kind) list" where
  "count_kind kinds entry =
     (case numbered (snd entry) of
        None \<Rightarrow> kinds
      | Some (prefix, n) \<Rightarrow>
          if prefix = [] then kinds
          else
            let kind = (case map_of kinds (name_key prefix) of
                  None \<Rightarrow> \<lparr>nk_prefix = prefix, nk_count = 0, nk_last = - 1\<rparr> | Some k \<Rightarrow> k)
            in AList.update (name_key prefix)
                 \<lparr>nk_prefix = prefix, nk_count = nk_count kind + 1, nk_last = int (fst entry)\<rparr> kinds)"

definition chosen_kind :: "string list \<Rightarrow> name_kind option" where
  "chosen_kind taken =
     (case sort_cmp (then_cmp (on_key (\<lambda>k. - nk_count k) by_number) (on_key (\<lambda>k. - nk_last k) by_number))
             (map snd (foldl count_kind [] (enumerate 0 taken))) of
        [] \<Rightarrow> None
      | k # ks \<Rightarrow> Some k)"

definition suggestGroupName :: "string list \<Rightarrow> string option" where
  "suggestGroupName taken =
     (let prefix = (case chosen_kind taken of None \<Rightarrow> ''Group'' | Some k \<Rightarrow> nk_prefix k)
      in uniqueGroupName (prefix @ '' '' @ string_of_int (next_number (highest_number prefix taken 0))) taken)"

section \<open>Applying a batch\<close>

definition find_group :: "string \<Rightarrow> 'k live_groups \<Rightarrow> 'k live_group option" where
  "find_group i groups = find (\<lambda>g. lg_id g = i) groups"

text \<open>A change to the group \<open>find\<close> gives: the first of that id.\<close>

fun change_group :: "string \<Rightarrow> ('k live_group \<Rightarrow> 'k live_group) \<Rightarrow> 'k live_groups \<Rightarrow> 'k live_groups" where
  "change_group i f [] = []"
| "change_group i f (g # gs) = (if lg_id g = i then f g # gs else g # change_group i f gs)"

definition clamp_to :: "int \<Rightarrow> int \<Rightarrow> int \<Rightarrow> int" where
  "clamp_to value low high = min high (max low value)"

definition insert_group :: "int option \<Rightarrow> 'k live_group \<Rightarrow> 'k live_groups \<Rightarrow> 'k live_groups" where
  "insert_group index made groups =
     (let n = (case index of None \<Rightarrow> length groups | Some i \<Rightarrow> nat (clamp_to i 0 (int (length groups))))
      in take n groups @ made # drop n groups)"

definition namesBesides :: "string \<Rightarrow> 'k live_groups \<Rightarrow> string list" where
  "namesBesides i groups = map lg_name (filter (\<lambda>g. lg_id g \<noteq> i) groups)"

definition without_stop :: "'k \<Rightarrow> 'k live_groups \<Rightarrow> 'k live_groups" where
  "without_stop s groups = map (\<lambda>g. g\<lparr>lg_stops := filter (\<lambda>t. t \<noteq> s) (lg_stops g)\<rparr>) groups"

definition repaint :: "string option \<Rightarrow> string option \<Rightarrow> int option \<Rightarrow> 'k live_group \<Rightarrow> 'k live_group" where
  "repaint n c t g =
     g\<lparr>lg_name := (case n of None \<Rightarrow> lg_name g | Some n \<Rightarrow> n),
       lg_color := (case c of None \<Rightarrow> lg_color g | Some c \<Rightarrow> c),
       lg_target := (case t of None \<Rightarrow> lg_target g | Some t \<Rightarrow> t)\<rparr>"

text \<open>Those named first that are there, in the order named, then the rest.\<close>

definition named_first :: "'a list \<Rightarrow> 'a list \<Rightarrow> 'a list" where
  "named_first wanted present =
     (let named = filter (\<lambda>x. x \<in> set present) (uniq wanted)
      in named @ filter (\<lambda>x. x \<notin> set named) present)"

definition groups_named :: "string list \<Rightarrow> 'k live_groups \<Rightarrow> 'k live_groups" where
  "groups_named is groups = List.map_filter (\<lambda>i. find_group i groups) (uniq is)"

fun apply_op :: "'k live_groups \<Rightarrow> 'k group_op \<Rightarrow> 'k live_groups option" where
  "apply_op groups (Template_Update n m) = Some groups"
| "apply_op groups (Group_Create i n c t index) =
     (if find_group i groups \<noteq> None then Some groups
      else map_option
        (\<lambda>made. insert_group index \<lparr>lg_id = i, lg_name = made, lg_color = c, lg_target = t, lg_stops = []\<rparr> groups)
        (uniqueGroupName n (map lg_name groups)))"
| "apply_op groups (Group_Update i n c t) =
     (if find_group i groups = None then Some groups
      else case n of
        None \<Rightarrow> Some (change_group i (repaint None c t) groups)
      | Some wanted \<Rightarrow>
          map_option (\<lambda>made. change_group i (repaint (Some made) c t) groups)
            (uniqueGroupName wanted (namesBesides i groups)))"
| "apply_op groups (Group_Delete i) = Some (filter (\<lambda>g. lg_id g \<noteq> i) groups)"
| "apply_op groups (Groups_Order is) =
     (let named = groups_named is groups
      in Some (named @ filter (\<lambda>g. lg_id g \<notin> lg_id ` set named) groups))"
| "apply_op groups (Stop_Add i s) =
     (case find_group i groups of
        None \<Rightarrow> Some groups
      | Some g \<Rightarrow>
          if s \<in> set (lg_stops g) then Some groups
          else Some (change_group i (\<lambda>g. g\<lparr>lg_stops := lg_stops g @ [s]\<rparr>) (without_stop s groups)))"
| "apply_op groups (Stop_Remove s) = Some (without_stop s groups)"
| "apply_op groups (Stops_Order i ss) =
     (if find_group i groups = None then Some groups
      else Some (change_group i (\<lambda>g. g\<lparr>lg_stops := named_first ss (lg_stops g)\<rparr>) groups))"

primrec applyGroupOps :: "'k live_groups \<Rightarrow> 'k group_op list \<Rightarrow> 'k live_groups option" where
  "applyGroupOps groups [] = Some groups"
| "applyGroupOps groups (op # ops) = Option.bind (apply_op groups op) (\<lambda>groups. applyGroupOps groups ops)"

section \<open>What one person just did\<close>

text \<open>\<open>new Map(groups.map(...)).get\<close>: of two with one id, the last.\<close>

definition group_at :: "'k live_groups \<Rightarrow> string \<Rightarrow> 'k live_group option" where
  "group_at groups i = find_group i (rev groups)"

definition stop_homes :: "'k live_groups \<Rightarrow> ('k \<times> string) list" where
  "stop_homes groups = foldl (\<lambda>m g. foldl (\<lambda>m s. AList.update s (lg_id g) m) m (lg_stops g)) [] groups"

definition diff_deletes :: "'k live_groups \<Rightarrow> 'k live_groups \<Rightarrow> 'k group_op list" where
  "diff_deletes before after =
     map (\<lambda>g. Group_Delete (lg_id g)) (filter (\<lambda>g. group_at after (lg_id g) = None) before)"

definition diff_creates :: "'k live_groups \<Rightarrow> 'k live_groups \<Rightarrow> 'k group_op list" where
  "diff_creates before after =
     map (\<lambda>(index, g). Group_Create (lg_id g) (lg_name g) (lg_color g) (lg_target g) (Some (int index)))
       (filter (\<lambda>(index, g). group_at before (lg_id g) = None) (enumerate 0 after))"

definition changed :: "'a \<Rightarrow> 'a \<Rightarrow> 'a option" where
  "changed old new = (if old \<noteq> new then Some new else None)"

definition diff_update :: "'k live_groups \<Rightarrow> 'k live_group \<Rightarrow> 'k group_op list" where
  "diff_update before g =
     (case group_at before (lg_id g) of
        None \<Rightarrow> []
      | Some old \<Rightarrow>
          let n = changed (lg_name old) (lg_name g); c = changed (lg_color old) (lg_color g);
              t = changed (lg_target old) (lg_target g)
          in if n = None \<and> c = None \<and> t = None then [] else [Group_Update (lg_id g) n c t])"

definition misnamed :: "'k live_groups \<Rightarrow> 'k live_groups \<Rightarrow> 'k live_groups" where
  "misnamed reached after =
     filter (\<lambda>g. case find_group (lg_id g) reached of None \<Rightarrow> False | Some got \<Rightarrow> lg_name got \<noteq> lg_name g) after"

definition rename_again :: "'k live_group \<Rightarrow> 'k group_op" where
  "rename_again g = Group_Update (lg_id g) (Some (lg_name g)) None None"

text \<open>\<open>for (let round = 0; round < 3; round += 1)\<close>: the number is of rounds left.\<close>

fun rename_rounds :: "nat \<Rightarrow> 'k live_groups \<Rightarrow> 'k live_groups \<Rightarrow> 'k group_op list \<Rightarrow> 'k group_op list option" where
  "rename_rounds 0 before after ops = Some ops"
| "rename_rounds (Suc n) before after ops =
     Option.bind (applyGroupOps before ops)
       (\<lambda>reached.
          let wrong = misnamed reached after
          in if wrong = [] then Some ops else rename_rounds n before after (ops @ map rename_again wrong))"

definition diff_removes :: "'k live_groups \<Rightarrow> 'k live_groups \<Rightarrow> 'k group_op list" where
  "diff_removes before after =
     map (\<lambda>(s, i). Stop_Remove s)
       (filter (\<lambda>(s, i). map_of (stop_homes after) s = None \<and> group_at after i \<noteq> None) (stop_homes before))"

definition diff_adds :: "'k live_groups \<Rightarrow> 'k live_groups \<Rightarrow> 'k group_op list" where
  "diff_adds before after =
     concat (map (\<lambda>g.
       map (Stop_Add (lg_id g))
         (filter (\<lambda>s. map_of (stop_homes before) s \<noteq> Some (lg_id g) \<or> group_at before (lg_id g) = None) (lg_stops g))) after)"

definition diff_orders :: "'k live_groups \<Rightarrow> 'k live_groups \<Rightarrow> 'k group_op list" where
  "diff_orders reached after =
     map (\<lambda>g. Stops_Order (lg_id g) (lg_stops g))
       (filter (\<lambda>g. case find_group (lg_id g) reached of None \<Rightarrow> False | Some got \<Rightarrow> lg_stops got \<noteq> lg_stops g) after)"

definition diff_group_order :: "'k live_groups \<Rightarrow> 'k live_groups \<Rightarrow> 'k group_op list" where
  "diff_group_order reached after =
     (if map lg_id reached \<noteq> map lg_id after then [Groups_Order (map lg_id after)] else [])"

definition diff_fields :: "'k live_groups \<Rightarrow> 'k live_groups \<Rightarrow> 'k group_op list" where
  "diff_fields before after =
     diff_deletes before after @ diff_creates before after @ concat (map (diff_update before) after)"

definition diffGroupOps :: "'k live_groups \<Rightarrow> 'k live_groups \<Rightarrow> 'k group_op list option" where
  "diffGroupOps before after =
     Option.bind (rename_rounds 3 before after (diff_fields before after)) (\<lambda>renamed.
       let ops = renamed @ diff_removes before after @ diff_adds before after
       in Option.bind (applyGroupOps before ops) (\<lambda>reached.
            let ops = ops @ diff_orders reached after
            in Option.bind (applyGroupOps before ops) (\<lambda>reached. Some (ops @ diff_group_order reached after))))"

section \<open>Comparing, and another way to name the stops\<close>

definition sameGroups :: "'k live_groups \<Rightarrow> 'k live_groups \<Rightarrow> bool" where
  "sameGroups one other \<longleftrightarrow>
     length one = length other \<and>
     list_all (\<lambda>(g, that). lg_id g = lg_id that \<and> lg_name g = lg_name that \<and> lg_color g = lg_color that \<and>
       lg_target g = lg_target that \<and> lg_stops g = lg_stops that) (zip one other)"

fun map_op :: "('k \<Rightarrow> 'l option) \<Rightarrow> 'k group_op \<Rightarrow> 'l group_op list" where
  "map_op f (Stop_Add i s) = (case f s of None \<Rightarrow> [] | Some t \<Rightarrow> [Stop_Add i t])"
| "map_op f (Stop_Remove s) = (case f s of None \<Rightarrow> [] | Some t \<Rightarrow> [Stop_Remove t])"
| "map_op f (Stops_Order i ss) = [Stops_Order i (List.map_filter f ss)]"
| "map_op f (Template_Update n m) = [Template_Update n m]"
| "map_op f (Group_Create i n c t index) = [Group_Create i n c t index]"
| "map_op f (Group_Update i n c t) = [Group_Update i n c t]"
| "map_op f (Group_Delete i) = [Group_Delete i]"
| "map_op f (Groups_Order is) = [Groups_Order is]"

definition mapOpStops :: "'k group_op list \<Rightarrow> ('k \<Rightarrow> 'l option) \<Rightarrow> 'l group_op list" where
  "mapOpStops ops f = concat (map (map_op f) ops)"

section \<open>Names: kinds and numbers\<close>

lemma of_lower_char: "(of_char (lower_char c) :: nat) = (let n = of_char c in if 65 \<le> n \<and> n \<le> 90 then n + 32 else n)"
  by (simp add: lower_char_def Let_def of_char_of)

lemma lower_char_simps [simp]:
  "is_digit (lower_char c) = is_digit c" "is_space (lower_char c) = is_space c"
  "digit_or_space (lower_char c) = digit_or_space c" "lower_char (lower_char c) = lower_char c"
proof -
  show d: "is_digit (lower_char c) = is_digit c" by (auto simp: is_digit_def of_lower_char Let_def)
  show s: "is_space (lower_char c) = is_space c" by (auto simp: is_space_def of_lower_char Let_def)
  show "digit_or_space (lower_char c) = digit_or_space c" by (simp add: digit_or_space_def d s)
  show "lower_char (lower_char c) = lower_char c"
    by (subst (1 2) lower_char_def) (auto simp: lower_char_def Let_def of_char_of)
qed

lemma lower_char_digit: "is_digit c \<Longrightarrow> lower_char c = c"
  by (auto simp: is_digit_def lower_char_def Let_def)

lemma ends_line_lower [simp]: "ends_line (lower_char c) = ends_line c"
proof -
  have "ends_line d \<longleftrightarrow> (of_char d :: nat) = 10 \<or> (of_char d :: nat) = 13" for d
    by (cases d) (auto simp: ends_line_def)
  then show ?thesis by (auto simp: of_lower_char Let_def)
qed

lemma predicate_lower [simp]:
  "is_digit \<circ> lower_char = is_digit" "is_space \<circ> lower_char = is_space" "digit_or_space \<circ> lower_char = digit_or_space"
  "ends_line \<circ> lower_char = ends_line"
  by (simp_all add: fun_eq_iff)

lemma trim_lower: "js_trim (toLowerCase s) = toLowerCase (js_trim s)"
  by (simp add: js_trim_def toLowerCase_def dropWhile_map rev_map)

lemma trim_trim [simp]: "js_trim (js_trim s) = js_trim s"
proof -
  have start: "dropWhile P (rev (dropWhile P (rev (dropWhile P xs)))) = rev (dropWhile P (rev (dropWhile P xs)))" for P and xs :: string
  proof (cases "dropWhile P xs")
    case (Cons y ys)
    then have "\<not> P y" by (metis dropWhile_eq_Cons_conv)
    have "rev (dropWhile P (rev ys @ [y])) = y # rev (dropWhile P (rev ys))"
      using \<open>\<not> P y\<close> by (simp add: dropWhile_append3)
    then show ?thesis using Cons \<open>\<not> P y\<close> by simp
  next
    case Nil
    then show ?thesis by (simp del: dropWhile_eq_Nil_conv)
  qed
  show ?thesis by (simp add: js_trim_def start)
qed

lemma lower_digits: "list_all is_digit ds \<Longrightarrow> toLowerCase ds = ds"
  by (induction ds) (simp_all add: toLowerCase_def lower_char_digit)

lemma split_number_lower:
  "split_number (toLowerCase t) = map_option (\<lambda>(p, ds). (toLowerCase p, ds)) (split_number t)"
proof -
  have "(takeWhile digit_or_space (rev (toLowerCase t))) = map lower_char (takeWhile digit_or_space (rev t))"
    "(dropWhile digit_or_space (rev (toLowerCase t))) = map lower_char (dropWhile digit_or_space (rev t))"
    by (simp_all add: toLowerCase_def takeWhile_map dropWhile_map rev_map)
  then have "split_number (toLowerCase t) =
      (let prefix = toLowerCase (rev (dropWhile digit_or_space (rev t)));
          ds = toLowerCase (dropWhile is_space (rev (takeWhile digit_or_space (rev t))))
      in if ds = [] \<or> \<not> list_all is_digit ds \<or> list_ex ends_line prefix then None else Some (prefix, ds))"
    by (simp add: split_number_def toLowerCase_def rev_map dropWhile_map Let_def)
  also have "\<dots> = map_option (\<lambda>(p, ds). (toLowerCase p, ds)) (split_number t)"
  proof -
    have "list_all is_digit (toLowerCase ds) = list_all is_digit ds" "list_ex ends_line (toLowerCase ds) = list_ex ends_line ds"
      "(toLowerCase ds = []) = (ds = [])" for ds
      by (simp_all add: toLowerCase_def list_all_iff list_ex_iff)
    then show ?thesis by (simp add: split_number_def Let_def lower_digits)
  qed
  finally show ?thesis .
qed

text \<open>A name's kind and number, from its key: the number \<open>-1\<close> when it has none.\<close>

definition rank_of :: "string \<Rightarrow> string \<times> int" where
  "rank_of w = (case numbered w of None \<Rightarrow> (name_key w, - 1) | Some (p, n) \<Rightarrow> (name_key p, n))"

lemma first_of_trim: "js_trim t \<noteq> [] \<Longrightarrow> \<not> is_space (hd (js_trim t))"
proof -
  assume ne: "js_trim t \<noteq> []"
  let ?d = "dropWhile is_space t"
  have "?d = js_trim t @ rev (takeWhile is_space (rev ?d))"
    unfolding js_trim_def by (metis rev_append rev_rev_ident takeWhile_dropWhile_id)
  with ne have "?d \<noteq> []" "hd ?d = hd (js_trim t)" by (metis append_is_Nil_conv, metis hd_append2)
  with hd_dropWhile [of is_space t] show ?thesis by simp
qed

lemma js_trim_fixed: "p \<noteq> [] \<Longrightarrow> \<not> is_space (hd p) \<Longrightarrow> \<not> is_space (last p) \<Longrightarrow> js_trim p = p"
proof -
  assume p: "p \<noteq> []" "\<not> is_space (hd p)" "\<not> is_space (last p)"
  then have "dropWhile is_space p = p" "dropWhile is_space (rev p) = rev p"
    by (simp_all add: dropWhile_eq_self_iff hd_rev)
  then show ?thesis by (simp add: js_trim_def)
qed

lemma split_number_prefix:
  assumes "split_number (js_trim t) = Some (p, ds)"
  shows "js_trim p = p"
proof -
  let ?t = "js_trim t"
  have p: "p = rev (dropWhile digit_or_space (rev ?t))"
    using assms by (auto simp: split_number_def Let_def split: if_splits)
  have start: "?t = [] \<or> \<not> is_space (hd ?t)"
    using first_of_trim [of t] by blast
  obtain s where s: "?t = p @ s" by (metis p rev_append rev_rev_ident takeWhile_dropWhile_id)
  show ?thesis
  proof (cases "p = []")
    case False
    then have "\<not> is_space (hd p)" using start s by fastforce
    moreover have "\<not> is_space (last p)"
      using p False by (metis digit_or_space_def hd_dropWhile last_rev rev_is_Nil_conv)
    ultimately show ?thesis using False by (intro js_trim_fixed)
  qed (simp add: js_trim_def)
qed

lemma rank_of_key: "name_key a = name_key b \<Longrightarrow> rank_of a = rank_of b"
proof -
  assume k: "name_key a = name_key b"
  have "rank_of w = (case split_number (name_key w) of None \<Rightarrow> (name_key w, - 1) | Some (p, ds) \<Rightarrow> (p, number_of_digits ds))" for w
  proof (cases "split_number (js_trim w)")
    case (Some r)
    obtain p ds where "r = (p, ds)" by fastforce
    then show ?thesis
      using Some split_number_prefix [of w p ds]
      by (simp add: rank_of_def numbered_def name_key_def split_number_lower)
  qed (simp add: rank_of_def numbered_def name_key_def split_number_lower)
  then show ?thesis by (simp only: k)
qed

lemma name_key_trim [simp]: "name_key (js_trim w) = name_key w"
  by (simp add: name_key_def)

lemma rank_of_trim [simp]: "rank_of (js_trim w) = rank_of w" "numbered (js_trim w) = numbered w"
  by (cases "split_number (js_trim w)"; simp add: rank_of_def numbered_def)+

section \<open>Names that end in a number\<close>

lemma of_char_digit_of: "0 \<le> k \<Longrightarrow> k < 10 \<Longrightarrow> (of_char (digit k) :: nat) = 48 + nat k"
  by (simp add: digit_def of_char_of)

lemma digits_facts: "list_all is_digit (digits n) \<and> digits n \<noteq> [] \<and> number_of_digits (digits n) = int n"
proof (induction n rule: digits.induct)
  case (1 n)
  show ?case
  proof (cases "n < 10")
    case True
    then show ?thesis by (simp add: digits.simps [of n] is_digit_def of_char_digit_of number_of_digits_def)
  next
    case False
    have d: "is_digit (digit (int (n mod 10)))" "int ((of_char (digit (int (n mod 10))) :: nat) - 48) = int (n mod 10)"
      by (simp_all add: is_digit_def of_char_digit_of nat_mod_distrib)
    have "number_of_digits (digits n) = 10 * number_of_digits (digits (n div 10)) + int (n mod 10)"
      using False d(2) by (simp add: digits.simps [of n] number_of_digits_def)
    also have "\<dots> = int n" using 1 [OF False] by (simp add: zdiv_int zmod_int)
    finally show ?thesis using 1 [OF False] False d(1) by (simp add: digits.simps [of n])
  qed
qed

lemma digits_no_space: "\<not> is_space (hd (digits n))" "\<not> is_space (last (digits n))"
proof -
  have no: "is_digit c \<Longrightarrow> \<not> is_space c" for c by (auto simp: is_digit_def is_space_def Let_def)
  have d: "list_all is_digit (digits n)" "digits n \<noteq> []" using digits_facts by blast+
  show "\<not> is_space (hd (digits n))" "\<not> is_space (last (digits n))"
    using d no by (simp_all add: list_all_iff)
qed

text \<open>What a name's number may follow: no number, no white space at either end, one line.\<close>

definition prefix_ok :: "string \<Rightarrow> bool" where
  "prefix_ok p \<longleftrightarrow> js_trim p = p \<and> \<not> list_ex ends_line p \<and> (p = [] \<or> \<not> digit_or_space (last p))"

lemma last_of_trim: "js_trim p = p \<Longrightarrow> p \<noteq> [] \<Longrightarrow> \<not> is_space (hd p)"
  by (metis first_of_trim)

lemma trim_join: "js_trim p = p \<Longrightarrow> 0 \<le> n \<Longrightarrow> js_trim (join_name p n) = join_name p n"
  using digits_facts [of "nat n"] digits_no_space [of "nat n"] last_of_trim [of p]
  by (cases "p = []") (simp_all add: join_name_def string_of_int_def js_trim_fixed)

lemma key_join:
  "js_trim p = p \<Longrightarrow> 0 \<le> n \<Longrightarrow>
   name_key (join_name p n) = (if p = [] then digits (nat n) else toLowerCase p @ '' '' @ digits (nat n))"
  using digits_facts [of "nat n"]
  by (simp add: name_key_def trim_join) (simp add: join_name_def string_of_int_def toLowerCase_def lower_digits [unfolded toLowerCase_def] lower_char_def)

lemma key_join_inject:
  assumes "js_trim p = p" "0 \<le> m" "0 \<le> n" "name_key (join_name p m) = name_key (join_name p n)"
  shows "m = n"
proof -
  have "digits (nat m) = digits (nat n)" using assms by (simp add: key_join split: if_splits)
  then have "int (nat m) = int (nat n)" using digits_facts by metis
  with assms(2,3) show ?thesis by simp
qed

lemma while_append:
  "\<forall>x \<in> set xs. P x \<Longrightarrow> takeWhile P (xs @ ys) = xs @ takeWhile P ys"
  "\<forall>x \<in> set xs. P x \<Longrightarrow> dropWhile P (xs @ ys) = dropWhile P ys"
  by (induction xs) auto

lemma numbered_join:
  assumes "prefix_ok p" "0 \<le> n"
  shows "numbered (join_name p n) = Some (p, n)"
proof -
  let ?ds = "digits (nat n)"
  have d: "list_all is_digit ?ds" "?ds \<noteq> []" "number_of_digits ?ds = int (nat n)" using digits_facts by blast+
  define mid where "mid = (if p = [] then [] else '' '')"
  have join: "join_name p n = p @ mid @ ?ds" using assms(2) by (simp add: join_name_def string_of_int_def mid_def)
  have all: "\<forall>c \<in> set (mid @ ?ds). digit_or_space c"
    using d(1) by (auto simp: mid_def digit_or_space_def list_all_iff is_space_def)
  have tail: "takeWhile digit_or_space (rev (p @ mid @ ?ds)) = rev (mid @ ?ds)"
    "dropWhile digit_or_space (rev (p @ mid @ ?ds)) = rev p"
  proof -
    have stop: "rev p = [] \<or> \<not> digit_or_space (hd (rev p))" using assms(1) by (simp add: prefix_ok_def hd_rev)
    have "takeWhile digit_or_space (rev p) = []" "dropWhile digit_or_space (rev p) = rev p"
      using stop by (cases "rev p"; simp)+
    moreover have "rev (p @ mid @ ?ds) = rev (mid @ ?ds) @ rev p" by simp
    moreover have "\<forall>c \<in> set (rev (mid @ ?ds)). digit_or_space c" using all by auto
    ultimately show "takeWhile digit_or_space (rev (p @ mid @ ?ds)) = rev (mid @ ?ds)"
      "dropWhile digit_or_space (rev (p @ mid @ ?ds)) = rev p"
      by (simp_all only: while_append append_Nil2)
  qed
  have "dropWhile is_space (mid @ ?ds) = ?ds"
    using digits_no_space(1) [of "nat n"] d(2) by (cases ?ds) (auto simp: mid_def is_space_def)
  then have "split_number (p @ mid @ ?ds) = Some (p, ?ds)"
    using tail d assms(1) unfolding split_number_def Let_def by (simp add: prefix_ok_def)
  moreover have "js_trim (join_name p n) = p @ mid @ ?ds" using trim_join [of p n] assms join by (simp add: prefix_ok_def)
  ultimately show ?thesis using d(3) assms(2) by (simp add: numbered_def)
qed

lemma numbered_facts:
  assumes "numbered w = Some (p, n)"
  shows "prefix_ok p" "0 \<le> n"
proof -
  obtain ds where r: "split_number (js_trim w) = Some (p, ds)" "n = number_of_digits ds"
    using assms by (auto simp: numbered_def)
  have "p = rev (dropWhile digit_or_space (rev (js_trim w)))" "\<not> list_ex ends_line p"
    using r(1) by (auto simp: split_number_def Let_def split: if_splits)
  then show "prefix_ok p"
    using split_number_prefix [OF r(1)] hd_dropWhile [of digit_or_space "rev (js_trim w)"]
    by (auto simp: prefix_ok_def last_rev)
  have "0 \<le> foldl (\<lambda>acc c. 10 * acc + int (of_char c - 48)) k ds" if "0 \<le> k" for k
    using that by (induction ds arbitrary: k) auto
  then show "0 \<le> n" by (simp add: r(2) number_of_digits_def)
qed


section \<open>A name nobody has\<close>

definition name_number :: "string \<Rightarrow> int" where
  "name_number w = max 1 (snd (rank_of w))"

lemma highest_number_facts:
  assumes "0 \<le> start" "name_key prefix = k"
  shows "start \<le> highest_number prefix taken start"
    "\<And>t. t \<in> set taken \<Longrightarrow> fst (rank_of t) = k \<Longrightarrow> snd (rank_of t) \<le> highest_number prefix taken start"
    "start \<le> B \<Longrightarrow> (\<And>t. t \<in> set taken \<Longrightarrow> snd (rank_of t) \<le> B) \<Longrightarrow> highest_number prefix taken start \<le> B"
proof -
  have "start \<le> highest_number prefix taken start \<and>
    (\<forall>t \<in> set taken. fst (rank_of t) = k \<longrightarrow> snd (rank_of t) \<le> highest_number prefix taken start) \<and>
    (start \<le> B \<longrightarrow> (\<forall>t \<in> set taken. snd (rank_of t) \<le> B) \<longrightarrow> highest_number prefix taken start \<le> B)"
    using assms
  proof (induction taken arbitrary: start)
    case (Cons t ts)
    define s where "s = (case numbered t of None \<Rightarrow> start
      | Some (p, n) \<Rightarrow> if name_key p = name_key prefix then max start n else start)"
    have s: "start \<le> s" "fst (rank_of t) = k \<Longrightarrow> snd (rank_of t) \<le> s" "start \<le> B \<Longrightarrow> snd (rank_of t) \<le> B \<Longrightarrow> s \<le> B"
      using Cons.prems by (auto simp: s_def rank_of_def split: option.splits)
    have "highest_number prefix (t # ts) start = highest_number prefix ts s"
      by (simp add: highest_number_def s_def)
    then show ?case using Cons.IH [of s] Cons.prems s by force
  qed (simp add: highest_number_def)
  then show "start \<le> highest_number prefix taken start"
    "\<And>t. t \<in> set taken \<Longrightarrow> fst (rank_of t) = k \<Longrightarrow> snd (rank_of t) \<le> highest_number prefix taken start"
    "start \<le> B \<Longrightarrow> (\<And>t. t \<in> set taken \<Longrightarrow> snd (rank_of t) \<le> B) \<Longrightarrow> highest_number prefix taken start \<le> B"
    by blast+
qed

lemma free_name_fresh: "free_name names prefix n = Some v \<Longrightarrow> name_key v \<notin> names"
  by (rule free_name.raw_induct [where P = "\<lambda>names prefix n v. name_key v \<notin> names"])
    (auto simp: Let_def split: if_splits)

lemma uniqueGroupName_fresh: "uniqueGroupName wanted taken = Some v \<Longrightarrow> name_key v \<notin> name_key ` set taken"
  by (auto simp: uniqueGroupName_def Let_def dest: free_name_fresh split: if_splits)

lemma free_name_returns:
  assumes "finite names" "js_trim p = p" "0 \<le> n" "n + int k \<le> MAX_COUNTED"
    "card (names \<inter> {name_key (join_name p m) | m. n < m}) < k"
  shows "\<exists>m. n < m \<and> m \<le> n + int k \<and> free_name names p n = Some (join_name p m)"
  using assms
proof (induction k arbitrary: n)
  case (Suc k)
  have step: "next_number n = n + 1" using Suc.prems(4) by (simp add: next_number_def)
  show ?case
  proof (cases "name_key (join_name p (n + 1)) \<in> names")
    case False
    then show ?thesis using step by (subst free_name.simps) (auto simp: Let_def intro!: exI [of _ "n + 1"])
  next
    case True
    let ?A = "\<lambda>n. names \<inter> {name_key (join_name p m) | m. n < m}"
    have "name_key (join_name p (n + 1)) \<notin> ?A (n + 1)"
      using key_join_inject [OF Suc.prems(2), of "n + 1"] Suc.prems(3) by (auto dest!: key_join_inject [OF Suc.prems(2), rotated 2])
    moreover have "name_key (join_name p (n + 1)) \<in> ?A n" using True by force
    moreover have "?A (n + 1) \<subseteq> ?A n" by force
    ultimately have "card (?A (n + 1)) < card (?A n)" using Suc.prems(1) by (intro psubset_card_mono) auto
    then have "card (?A (n + 1)) < k" using Suc.prems(5) by linarith
    from Suc.IH [OF Suc.prems(1,2) _ _ this] Suc.prems(3,4) obtain m
      where "n + 1 < m" "m \<le> n + 1 + int k" "free_name names p (n + 1) = Some (join_name p m)" by force
    then show ?thesis using True step by (subst free_name.simps) (auto simp: Let_def intro!: exI [of _ m])
  qed
qed simp

definition prefix_of :: "string \<Rightarrow> string" where
  "prefix_of w = (case numbered w of None \<Rightarrow> js_trim w | Some (p, n) \<Rightarrow> p)"

lemma prefix_of_facts: "js_trim (prefix_of w) = prefix_of w" "name_key (prefix_of w) = fst (rank_of w)"
  by (auto simp: prefix_of_def rank_of_def numbered_facts [unfolded prefix_ok_def] split: option.splits)

lemma uniqueGroupName_prefix:
  "uniqueGroupName wanted taken =
     (if name_key wanted \<notin> name_key ` set taken then Some (js_trim wanted)
      else free_name (name_key ` set taken) (prefix_of wanted) (highest_number (prefix_of wanted) taken 1))"
  unfolding uniqueGroupName_def Let_def by (cases "numbered wanted") (auto simp: prefix_of_def)

definition plain_name :: "string \<Rightarrow> bool" where
  "plain_name w \<longleftrightarrow> js_trim w = w \<and> (numbered w \<noteq> None \<or> prefix_ok w)"

lemma plain_prefix: "plain_name w \<Longrightarrow> prefix_ok (prefix_of w)"
  by (auto simp: plain_name_def prefix_of_def numbered_facts split: option.splits)

text \<open>
  What \<open>uniqueGroupName\<close> gives for a plain name: the name itself when nobody has it, else a name
  of the same kind whose number is higher than any of the kind that is taken.
\<close>

lemma uniqueGroupName_plain:
  assumes w: "plain_name w" and B: "\<And>t. t \<in> set taken \<Longrightarrow> name_number t \<le> B" "1 \<le> B" "B < MAX_COUNTED"
  obtains v where "uniqueGroupName w taken = Some v"
    "name_key w \<notin> name_key ` set taken \<Longrightarrow> v = w"
    "name_key w \<in> name_key ` set taken \<Longrightarrow> fst (rank_of v) = fst (rank_of w)"
    "\<And>t. name_key w \<in> name_key ` set taken \<Longrightarrow> t \<in> set taken \<Longrightarrow> fst (rank_of t) = fst (rank_of w) \<Longrightarrow> snd (rank_of t) < snd (rank_of v)"
    "name_number v \<le> max (B + 1) (name_number w)"
proof (cases "name_key w \<in> name_key ` set taken")
  case False
  then show ?thesis using that [of w] w by (auto simp: uniqueGroupName_prefix plain_name_def)
next
  case True
  let ?p = "prefix_of w" let ?h = "highest_number ?p taken 1"
  have h: "1 \<le> ?h" "?h \<le> B" and taken: "\<And>t. t \<in> set taken \<Longrightarrow> fst (rank_of t) = fst (rank_of w) \<Longrightarrow> snd (rank_of t) \<le> ?h"
    using highest_number_facts [where start = 1 and prefix = ?p and taken = taken, OF _ prefix_of_facts(2)] B by (auto simp: name_number_def)
  have p: "prefix_ok ?p" using plain_prefix [OF w] .
  let ?v = "join_name ?p (?h + 1)"
  have rank: "rank_of ?v = (fst (rank_of w), ?h + 1)"
    using numbered_join [OF p, of "?h + 1"] h(1) prefix_of_facts(2) [of w] by (simp add: rank_of_def)
  have "name_key ?v \<notin> name_key ` set taken"
  proof
    assume "name_key ?v \<in> name_key ` set taken"
    then obtain t where t: "t \<in> set taken" "name_key ?v = name_key t" by blast
    from taken [OF t(1)] rank rank_of_key [OF t(2)] show False by simp
  qed
  then have v: "uniqueGroupName w taken = Some ?v"
    using True h B(3) by (simp add: uniqueGroupName_prefix free_name.simps [of _ ?p ?h] next_number_def Let_def)
  show ?thesis
    by (rule that [OF v]) (use True rank taken h in \<open>force simp: name_number_def\<close>)+
qed

text \<open>
  Settling on a name always ends, with a name nobody has. When the numbers in the names and
  how many there are stay below \<open>2 ^ 53\<close> together, \<open>uniqueGroupName\<close> returns; what it returns is the
  name wanted when it is free, and in any case differs from every name taken, upper and lower
  case and space around it apart.
\<close>

theorem a_name_is_found:
  assumes "list_all (\<lambda>t. name_number t + int (length taken) < 2 ^ 53) taken"
  shows "\<exists>v. uniqueGroupName wanted taken = Some v \<and> list_all (\<lambda>t. name_key t \<noteq> name_key v) taken \<and>
    (v = js_trim wanted \<or> list_ex (\<lambda>t. name_key t = name_key wanted) taken)"
proof -
  let ?p = "prefix_of wanted" let ?h = "highest_number ?p taken 1" let ?names = "name_key ` set taken"
  have "\<exists>v. uniqueGroupName wanted taken = Some v"
  proof (cases "taken = [] \<or> name_key wanted \<notin> ?names")
    case True
    then show ?thesis by (auto simp: uniqueGroupName_prefix)
  next
    case False
    have "1 + int (length taken) \<le> name_number t + int (length taken)" if "t \<in> set taken" for t
      by (simp add: name_number_def)
    then have "1 \<le> MAX_COUNTED - 1 - int (length taken)"
      using False assms by (cases taken) (force simp: MAX_COUNTED_def list_all_iff)+
    moreover have "snd (rank_of t) \<le> MAX_COUNTED - 1 - int (length taken)" if "t \<in> set taken" for t
      using assms that by (force simp: list_all_iff name_number_def MAX_COUNTED_def)
    ultimately have h: "1 \<le> ?h" "?h \<le> MAX_COUNTED - 1 - int (length taken)"
      using highest_number_facts(1,3) [where start = 1 and prefix = ?p and taken = taken, OF _ prefix_of_facts(2)] by force+
    have "card (?names \<inter> X) < length taken + 1" for X
    proof -
      have "card (?names \<inter> X) \<le> card ?names" by (simp add: card_mono)
      also have "\<dots> \<le> length taken" using card_image_le [of "set taken" name_key] card_length [of taken] by simp
      finally show ?thesis by simp
    qed
    from free_name_returns [OF _ prefix_of_facts(1) [of wanted] _ _ this, where n = ?h] h False show ?thesis
      by (auto simp: uniqueGroupName_prefix)
  qed
  then obtain v where v: "uniqueGroupName wanted taken = Some v" ..
  moreover have "v = js_trim wanted \<or> name_key wanted \<in> ?names"
    using v by (auto simp: uniqueGroupName_prefix split: if_splits)
  ultimately show ?thesis using uniqueGroupName_fresh [OF v] by (auto simp: list_all_iff list_ex_iff image_iff)
qed

theorem a_name_is_found_witness:
  "list_all (\<lambda>t. name_key t \<noteq> name_key (the (uniqueGroupName ''Group 4'' [''Group 1'', ''group 4'', ''Group 7'']))) [''Group 1'', ''group 4'', ''Group 7'']"
proof -
  have "list_all (\<lambda>t. name_number t + int (length [''Group 1'', ''group 4'', ''Group 7'']) < 2 ^ 53) [''Group 1'', ''group 4'', ''Group 7'']"
    by code_simp
  from a_name_is_found [OF this, of "''Group 4''"] show ?thesis by auto
qed

section \<open>What every batch keeps\<close>

text \<open>
  The groups of a template: no two with one id, no two with one name, and no property in two
  groups or twice in one.
\<close>

definition proper_groups :: "'k live_groups \<Rightarrow> bool" where
  "proper_groups groups \<longleftrightarrow> distinct (map lg_id groups) \<and> distinct (map (\<lambda>g. name_key (lg_name g)) groups) \<and>
     distinct (concat (map lg_stops groups))"


lemma mset_concat_map: "mset (concat (map f xs)) = (\<Sum>x \<in># mset xs. mset (f x))"
  by (induction xs) auto

lemma proper_groups_mset: "mset gs = mset hs \<Longrightarrow> proper_groups gs = proper_groups hs"
  unfolding proper_groups_def
  by (intro arg_cong2 [where f = "(\<and>)"] mset_eq_imp_distinct_iff) (simp_all add: mset_concat_map)

lemma change_group_map:
  "distinct (map lg_id gs) \<Longrightarrow> change_group i f gs = map (\<lambda>g. if lg_id g = i then f g else g) gs"
proof (induction gs)
  case (Cons g gs)
  have "map (\<lambda>g. if lg_id g = i then f g else g) gs = gs" if "lg_id g = i"
    using Cons.prems that by (intro map_idI) (metis (full_types) distinct.simps(2) image_eqI list.set_map list.simps(9))
  with Cons show ?case by auto
qed simp

lemma find_group_Some: "find_group i gs = Some g \<Longrightarrow> g \<in> set gs \<and> lg_id g = i"
  unfolding find_group_def by (auto dest: find_SomeD)

lemma find_group_None: "find_group i gs = None \<longleftrightarrow> i \<notin> lg_id ` set gs"
  by (auto simp: find_group_def find_None_iff)

lemma find_group_in: "distinct (map lg_id gs) \<Longrightarrow> g \<in> set gs \<Longrightarrow> find_group (lg_id g) gs = Some g"
proof -
  assume *: "distinct (map lg_id gs)" "g \<in> set gs"
  then obtain h where "find_group (lg_id g) gs = Some h" using find_group_None [of "lg_id g" gs] by (cases "find_group (lg_id g) gs") auto
  with * show ?thesis using find_group_Some [of "lg_id g" gs h] distinct_map_eqD [of lg_id gs h g] by simp
qed

lemma mset_named_first: "distinct present \<Longrightarrow> mset (named_first wanted present) = mset present"
proof -
  assume d: "distinct present"
  have "set (named_first wanted present) = set present" by (auto simp: named_first_def Let_def)
  moreover have "distinct (named_first wanted present)" using d by (auto simp: named_first_def Let_def)
  ultimately show ?thesis using d set_eq_iff_mset_eq_distinct by blast
qed

lemma groups_named_facts:
  assumes "distinct (map lg_id gs)"
  shows "map lg_id (groups_named is gs) = filter (\<lambda>i. i \<in> lg_id ` set gs) (uniq is)" "set (groups_named is gs) \<subseteq> set gs"
proof -
  have "map lg_id (List.map_filter (\<lambda>i. find_group i gs) xs) = filter (\<lambda>i. i \<in> lg_id ` set gs) xs \<and>
      set (List.map_filter (\<lambda>i. find_group i gs) xs) \<subseteq> set gs" for xs
  proof (induction xs)
    case (Cons i xs)
    then show ?case
      using find_group_None [of i gs] find_group_Some [of i gs]
      by (cases "find_group i gs") (auto simp: List.map_filter_simps)
  qed (simp add: List.map_filter_simps)
  then show "map lg_id (groups_named is gs) = filter (\<lambda>i. i \<in> lg_id ` set gs) (uniq is)" "set (groups_named is gs) \<subseteq> set gs"
    by (simp_all add: groups_named_def)
qed

lemma mset_groups_order:
  assumes d: "distinct (map lg_id gs)"
  shows "mset (groups_named is gs @ filter (\<lambda>g. lg_id g \<notin> lg_id ` set (groups_named is gs)) gs) = mset gs"
proof -
  let ?n = "groups_named is gs"
  note n = groups_named_facts [OF d, of "is"]
  have dn: "distinct (map lg_id ?n)" by (simp add: n(1))
  have "g \<in> set ?n" if "g \<in> set gs" "lg_id g \<in> lg_id ` set ?n" for g
    using that n(2) distinct_map_eqD [OF d, of g] by (metis imageE subsetD)
  then have "set (?n @ filter (\<lambda>g. lg_id g \<notin> lg_id ` set ?n) gs) = set gs" using n(2) by auto
  moreover have "distinct (?n @ filter (\<lambda>g. lg_id g \<notin> lg_id ` set ?n) gs)"
    using dn d by (auto simp: distinct_map)
  ultimately show ?thesis using d set_eq_iff_mset_eq_distinct distinct_map by blast
qed

end
