(* ===== verification/Group_Ops_Proper.thy ===== *)
theory Group_Ops_Proper
  imports Group_Ops
begin

text \<open>
  What every batch of operations on a template keeps: ids, names and properties stay apart,
  operation by operation and then for a batch.
\<close>

text \<open>A change that leaves ids and names alone keeps them apart.\<close>

lemma proper_restop:
  assumes "proper_groups gs" "map lg_id hs = map lg_id gs" "map lg_name hs = map lg_name gs" "distinct (concat (map lg_stops hs))"
  shows "proper_groups hs"
proof -
  have "map (\<lambda>g. name_key (lg_name g)) hs = map name_key (map lg_name hs)"
    "map (\<lambda>g. name_key (lg_name g)) gs = map name_key (map lg_name gs)" by simp_all
  then have "map (\<lambda>g. name_key (lg_name g)) hs = map (\<lambda>g. name_key (lg_name g)) gs" by (simp only: assms(3))
  with assms show ?thesis by (simp only: proper_groups_def simp_thms)
qed

lemma change_group_fields:
  "(\<And>g. lg_id (f g) = lg_id g) \<Longrightarrow> map lg_id (change_group i f gs) = map lg_id gs"
  "(\<And>g. lg_name (f g) = lg_name g) \<Longrightarrow> map lg_name (change_group i f gs) = map lg_name gs"
  "(\<And>g. lg_stops (f g) = lg_stops g) \<Longrightarrow> map lg_stops (change_group i f gs) = map lg_stops gs"
  by (induction gs) auto

lemma stops_without: "concat (map lg_stops (without_stop s gs)) = filter (\<lambda>t. t \<noteq> s) (concat (map lg_stops gs))"
  by (induction gs) (auto simp: without_stop_def)

lemma without_fields [simp]:
  "map lg_id (without_stop s gs) = map lg_id gs" "map lg_name (without_stop s gs) = map lg_name gs"
  by (simp_all add: without_stop_def)

lemma stops_added:
  "i \<in> lg_id ` set gs \<Longrightarrow> mset (concat (map lg_stops (change_group i (\<lambda>g. g\<lparr>lg_stops := lg_stops g @ [s]\<rparr>) gs))) =
     add_mset s (mset (concat (map lg_stops gs)))"
  by (induction gs) auto

lemma stops_reordered:
  "\<forall>g \<in> set gs. distinct (lg_stops g) \<Longrightarrow>
   mset (concat (map lg_stops (change_group i (\<lambda>g. g\<lparr>lg_stops := named_first ss (lg_stops g)\<rparr>) gs))) =
     mset (concat (map lg_stops gs))"
  by (induction gs) (auto simp: mset_named_first)

lemma find_without: "find_group i (without_stop s gs) = None \<longleftrightarrow> find_group i gs = None"
  by (simp add: find_group_None image_image without_stop_def)

lemma proper_renamed:
  assumes "proper_groups gs" "name_key made \<notin> name_key ` set (namesBesides i gs)"
  shows "proper_groups (change_group i (repaint (Some made) c t) gs)"
proof -
  let ?f = "repaint (Some made) c t"
  have d: "distinct (map lg_id gs)" "distinct (map (\<lambda>g. name_key (lg_name g)) gs)" "distinct (concat (map lg_stops gs))"
    using assms(1) by (simp_all add: proper_groups_def)
  have "distinct (map (\<lambda>g. name_key (lg_name g)) (change_group i ?f gs))"
    using d(1,2) assms(2)
  proof (induction gs)
    case (Cons g gs)
    show ?case
    proof (cases "lg_id g = i")
      case True
      then have "namesBesides i (g # gs) = map lg_name gs"
        using Cons.prems(1) unfolding namesBesides_def
        by (intro arg_cong [where f = "map lg_name"]) (auto intro!: filter_True, metis image_eqI)
      with True Cons.prems show ?thesis by (auto simp: repaint_def)
    next
      case False
      then have ne: "name_key (lg_name g) \<noteq> name_key made" using Cons.prems(3) by (auto simp: namesBesides_def)
      have "name_key made \<notin> name_key ` set (namesBesides i gs)" using Cons.prems(3) by (auto simp: namesBesides_def)
      then have IH: "distinct (map (\<lambda>g. name_key (lg_name g)) (change_group i ?f gs))" using Cons by simp
      have "name_key (lg_name h) \<in> insert (name_key made) ((\<lambda>g. name_key (lg_name g)) ` set gs)"
        if "h \<in> set (change_group i ?f gs)" for h
        using that Cons.prems(1) by (auto simp: change_group_map repaint_def)
      with ne Cons.prems(2) have "name_key (lg_name g) \<notin> (\<lambda>g. name_key (lg_name g)) ` set (change_group i ?f gs)" by fastforce
      with IH False show ?thesis by simp
    qed
  qed simp
  moreover have "map lg_id (change_group i ?f gs) = map lg_id gs" "map lg_stops (change_group i ?f gs) = map lg_stops gs"
    by (simp_all add: change_group_fields repaint_def)
  ultimately show ?thesis using d by (simp add: proper_groups_def)
qed

lemma mset_insert_group: "mset (insert_group index made gs) = add_mset made (mset gs)"
proof -
  have "mset (take n gs @ made # drop n gs) = add_mset made (mset (take n gs @ drop n gs))" for n
    by (simp only: mset_append mset.simps union_mset_add_mset_right)
  then show ?thesis by (simp only: insert_group_def Let_def append_take_drop_id)
qed

lemma apply_op_proper:
  assumes g: "proper_groups gs" and step: "apply_op gs op = Some hs"
  shows "proper_groups hs"
proof -
  have d: "distinct (map lg_id gs)" "distinct (map (\<lambda>g. name_key (lg_name g)) gs)" "distinct (concat (map lg_stops gs))"
    using g by (simp_all add: proper_groups_def)
  show ?thesis
  proof (cases op)
    case (Template_Update n m)
    then show ?thesis using g step by simp
  next
    case (Group_Create i n c t index)
    show ?thesis
    proof (cases "find_group i gs")
      case None
      then obtain made where made: "uniqueGroupName n (map lg_name gs) = Some made"
        and hs: "hs = insert_group index \<lparr>lg_id = i, lg_name = made, lg_color = c, lg_target = t, lg_stops = []\<rparr> gs"
        using step Group_Create by auto
      let ?m = "\<lparr>lg_id = i, lg_name = made, lg_color = c, lg_target = t, lg_stops = []\<rparr>"
      have "mset hs = mset (?m # gs)" by (simp add: hs mset_insert_group)
      moreover have "proper_groups (?m # gs)"
        using d None uniqueGroupName_fresh [OF made] by (auto simp: proper_groups_def find_group_None image_image)
      ultimately show ?thesis using proper_groups_mset by metis
    qed (use g step Group_Create in simp)
  next
    case (Group_Update i n c t)
    show ?thesis
    proof (cases "find_group i gs = None \<or> n = None")
      case True
      have "proper_groups (change_group i (repaint None c t) gs)"
        by (rule proper_restop [OF g]) (simp_all add: change_group_fields repaint_def d)
      then show ?thesis using True g step Group_Update by (auto split: if_splits)
    next
      case False
      then obtain wanted where n: "n = Some wanted" "find_group i gs \<noteq> None" by blast
      then obtain made where made: "uniqueGroupName wanted (namesBesides i gs) = Some made"
        and hs: "hs = change_group i (repaint (Some made) c t) gs"
        using step Group_Update by auto
      show ?thesis unfolding hs by (rule proper_renamed [OF g uniqueGroupName_fresh [OF made]])
    qed
  next
    case (Group_Delete i)
    have "distinct (concat (map lg_stops (filter P gs)))" for P
      using d(3) by (induction gs) auto
    then show ?thesis using d step Group_Delete by (auto simp: proper_groups_def distinct_map_filterI)
  next
    case (Groups_Order "is")
    then show ?thesis using step proper_groups_mset [OF mset_groups_order [OF d(1)]] g by (auto simp: Let_def)
  next
    case (Stop_Add i s)
    show ?thesis
    proof (cases "hs = gs")
      case False
      let ?w = "without_stop s gs"
      from False step Stop_Add have found: "i \<in> lg_id ` set ?w"
        and hs: "hs = change_group i (\<lambda>g. g\<lparr>lg_stops := lg_stops g @ [s]\<rparr>) ?w"
        using find_without [of i s gs] find_group_None [of i ?w] by (auto split: option.splits if_splits)
      have "distinct (s # concat (map lg_stops ?w))" using d(3) by (simp add: stops_without)
      then have "distinct (concat (map lg_stops hs))"
        using stops_added [OF found, of s] mset_eq_imp_distinct_iff [of "s # concat (map lg_stops ?w)"] by (simp add: hs)
      then show ?thesis by (rule proper_restop [OF g, rotated 2]) (simp_all add: hs change_group_fields)
    qed (use g in simp)
  next
    case (Stop_Remove s)
    have "distinct (concat (map lg_stops (without_stop s gs)))" using d(3) by (simp add: stops_without)
    then have "proper_groups (without_stop s gs)" by (rule proper_restop [OF g, rotated 2]) simp_all
    then show ?thesis using step Stop_Remove by simp
  next
    case (Stops_Order i ss)
    let ?h = "change_group i (\<lambda>g. g\<lparr>lg_stops := named_first ss (lg_stops g)\<rparr>) gs"
    have "\<forall>g \<in> set gs. distinct (lg_stops g)" using d(3) by (auto simp: distinct_concat_iff)
    from mset_eq_imp_distinct_iff [OF stops_reordered [OF this]] d(3) have "distinct (concat (map lg_stops ?h))" by blast
    then have "proper_groups ?h" by (rule proper_restop [OF g, rotated 2]) (simp_all add: change_group_fields)
    then show ?thesis using g step Stops_Order by (auto split: if_splits)
  qed
qed

text \<open>
  C10. Whatever batches arrive, in whatever order and from whoever, a template stays a template: no
  two groups with one id, no two with one name, and no property in two groups or twice in one.
\<close>

theorem batches_keep_a_template:
  assumes "proper_groups groups"
  shows "case applyGroupOps groups ops of None \<Rightarrow> True | Some after \<Rightarrow> proper_groups after"
  using assms
proof (induction ops arbitrary: groups)
  case (Cons op ops)
  then show ?case using apply_op_proper [OF Cons.prems] by (cases "apply_op groups op") auto
qed simp

definition example_groups :: "int live_groups" where
  "example_groups =
     [\<lparr>lg_id = ''a'', lg_name = ''North'', lg_color = ''#ff0000'', lg_target = 9, lg_stops = [1, 2, 3]\<rparr>,
      \<lparr>lg_id = ''b'', lg_name = ''Group 2'', lg_color = ''#00ff00'', lg_target = 9, lg_stops = [4]\<rparr>]"

lemma proper_example_groups: "proper_groups example_groups"
  by (simp add: proper_groups_def example_groups_def name_key_def toLowerCase_def js_trim_def is_space_def lower_char_def)

theorem batches_keep_a_template_witness:
  "case applyGroupOps example_groups [Stop_Add ''b'' 2, Group_Update ''b'' (Some ''north'') None None] of
     None \<Rightarrow> True | Some after \<Rightarrow> proper_groups after"
  by (rule batches_keep_a_template [OF proper_example_groups])

end
