(* ===== verification/Group_Ops_Names.thy ===== *)
theory Group_Ops_Names
  imports Group_Ops_Proper
begin

text \<open>
  The names \<open>diffGroupOps\<close> reaches. A group renamed to a name another still has is given a number
  of the same kind above every other (its name is bumped), and the rounds that follow set it right:
  after the first no group holds the name of a bumped one, so the second sets them all.
\<close>

section \<open>Groups by id\<close>

text \<open>A template whose groups are \<open>f i\<close> for the ids \<open>i\<close> of a list.\<close>

definition shaped :: "string list \<Rightarrow> (string \<Rightarrow> 'k live_group) \<Rightarrow> bool" where
  "shaped is f \<longleftrightarrow> distinct is \<and> (\<forall>i \<in> set is. lg_id (f i) = i)"

lemma shaped_ids: "shaped is f \<Longrightarrow> map lg_id (map f is) = is"
  by (auto simp: shaped_def intro: map_idI)

lemma shaped_distinct: "shaped is f \<Longrightarrow> distinct (map lg_id (map f is))"
  using shaped_ids [of "is" f] by (simp add: shaped_def)

lemma find_shaped: "shaped is f \<Longrightarrow> find_group i (map f is) = (if i \<in> set is then Some (f i) else None)"
proof (cases "i \<in> set is")
  case True
  assume s: "shaped is f"
  then have "lg_id (f i) = i" "f i \<in> set (map f is)" using True by (auto simp: shaped_def)
  then show ?thesis using find_group_in [OF shaped_distinct [OF s], of "f i"] True by simp
qed (auto simp: find_group_None shaped_def)

lemma change_shaped: "shaped is f \<Longrightarrow> i \<in> set is \<Longrightarrow> change_group i h (map f is) = map (f(i := h (f i))) is"
  using change_group_map [OF shaped_distinct, of "is" f i h] by (auto simp: shaped_def)

lemma names_shaped: "shaped is f \<Longrightarrow> namesBesides i (map f is) = map (\<lambda>j. lg_name (f j)) (filter (\<lambda>j. j \<noteq> i) is)"
proof -
  assume "shaped is f"
  then have "filter ((\<lambda>g. lg_id g \<noteq> i) \<circ> f) is = filter (\<lambda>j. j \<noteq> i) is" by (intro filter_cong) (auto simp: shaped_def)
  then show ?thesis by (simp add: namesBesides_def filter_map comp_def)
qed

lemma insert_shaped:
  assumes "shaped is f" "i \<notin> set is" "lg_id made = i"
  obtains js where "insert_group index made (map f is) = map (f(i := made)) js" "shaped js (f(i := made))" "set js = insert i (set is)"
proof -
  define n where "n = (case index of None \<Rightarrow> length is | Some k \<Rightarrow> nat (clamp_to k 0 (int (length is))))"
  let ?js = "take n is @ i # drop n is"
  have "set (take n is) \<union> set (drop n is) = set is" by (metis append_take_drop_id set_append)
  then have s: "set ?js = insert i (set is)" by auto
  have d: "distinct ?js" using assms(1,2) by (auto simp: shaped_def set_take_disj_set_drop_if_distinct dest: in_set_takeD in_set_dropD)
  have "map (f(i := made)) (take n is) = map f (take n is)" "map (f(i := made)) (drop n is) = map f (drop n is)"
    using assms(2) by (auto dest: in_set_takeD in_set_dropD)
  then have "insert_group index made (map f is) = map (f(i := made)) ?js"
    by (simp add: insert_group_def n_def take_map drop_map Let_def cong: option.case_cong)
  moreover have "shaped ?js (f(i := made))" using d assms(1,3) s unfolding shaped_def by (metis fun_upd_apply insert_iff)
  ultimately show ?thesis using that s by blast
qed

section \<open>One name\<close>

text \<open>The name a group has on the way: the one it is to have, or one above it of the same kind.\<close>

definition ok_name :: "string \<Rightarrow> string \<Rightarrow> bool" where
  "ok_name n w \<longleftrightarrow> n = w \<or> fst (rank_of n) = fst (rank_of w) \<and> snd (rank_of w) < snd (rank_of n)"

definition targets :: "string set \<Rightarrow> (string \<Rightarrow> string) \<Rightarrow> int \<Rightarrow> bool" where
  "targets A T B \<longleftrightarrow> (\<forall>i \<in> A. plain_name (T i) \<and> name_number (T i) \<le> B) \<and> inj_on (\<lambda>i. name_key (T i)) A"

lemma targets_apart: "targets A T B \<Longrightarrow> i \<in> A \<Longrightarrow> j \<in> A \<Longrightarrow> i \<noteq> j \<Longrightarrow> name_key (T i) \<noteq> name_key (T j)"
  by (auto simp: targets_def inj_on_def)

lemma targets_mono: "targets A T B \<Longrightarrow> B \<le> C \<Longrightarrow> targets A T C"
  by (force simp: targets_def)

lemma uniqueGroupName_ok:
  assumes "plain_name w" "\<And>t. t \<in> set taken \<Longrightarrow> name_number t \<le> B" "1 \<le> B" "B < MAX_COUNTED"
  obtains made where "uniqueGroupName w taken = Some made" "ok_name made w" "name_number made \<le> max (B + 1) (name_number w)"
    "name_key w \<notin> name_key ` set taken \<Longrightarrow> made = w"
    "\<And>t. made \<noteq> w \<Longrightarrow> t \<in> set taken \<Longrightarrow> fst (rank_of t) = fst (rank_of w) \<Longrightarrow> snd (rank_of t) < snd (rank_of made)"
proof -
  obtain made where m: "uniqueGroupName w taken = Some made" "name_key w \<notin> name_key ` set taken \<Longrightarrow> made = w"
    "name_key w \<in> name_key ` set taken \<Longrightarrow> fst (rank_of made) = fst (rank_of w)"
    "\<And>t. name_key w \<in> name_key ` set taken \<Longrightarrow> t \<in> set taken \<Longrightarrow> fst (rank_of t) = fst (rank_of w) \<Longrightarrow> snd (rank_of t) < snd (rank_of made)"
    "name_number made \<le> max (B + 1) (name_number w)"
    using uniqueGroupName_plain [of w taken B, OF assms] by metis
  show ?thesis
  proof (rule that [OF m(1) _ m(5,2)])
    show "ok_name made w"
    proof (cases "name_key w \<in> name_key ` set taken")
      case True
      then obtain t where t: "t \<in> set taken" "name_key t = name_key w" by force
      then have "rank_of t = rank_of w" by (intro rank_of_key)
      then show ?thesis using m(3,4) True t(1) by (force simp: ok_name_def)
    qed (simp add: m(2) ok_name_def)
  qed (use m(2,4) in blast)+
qed

text \<open>
  A new name is right when no other group has it; otherwise bumped, and then it is no other group's
  to have: above every name of its kind, it is above the name of any group that is itself bumped.
\<close>

lemma new_name:
  assumes t: "targets A T B" and i: "i \<in> A" "i \<notin> J" "J \<subseteq> A"
    and B: "\<And>j. j \<in> J \<Longrightarrow> name_number (nm j) \<le> B" "1 \<le> B" "B < MAX_COUNTED"
    and taken: "set taken = nm ` J"
  obtains made where "uniqueGroupName (T i) taken = Some made" "ok_name made (T i)" "name_number made \<le> B + 1"
    "(\<And>j. j \<in> J \<Longrightarrow> name_key (nm j) \<noteq> name_key (T i)) \<Longrightarrow> made = T i"
    "\<And>j. j \<in> J \<Longrightarrow> ok_name (nm j) (T j) \<Longrightarrow> name_key made \<noteq> name_key (T j)"
proof -
  have plain: "plain_name (T i)" "name_number (T i) \<le> B" using t i(1) by (auto simp: targets_def)
  have b: "\<And>w. w \<in> set taken \<Longrightarrow> name_number w \<le> B" using taken B(1) by auto
  obtain made where m: "uniqueGroupName (T i) taken = Some made" "ok_name made (T i)"
    "name_number made \<le> max (B + 1) (name_number (T i))" "name_key (T i) \<notin> name_key ` set taken \<Longrightarrow> made = T i"
    "\<And>w. made \<noteq> T i \<Longrightarrow> w \<in> set taken \<Longrightarrow> fst (rank_of w) = fst (rank_of (T i)) \<Longrightarrow> snd (rank_of w) < snd (rank_of made)"
    using uniqueGroupName_ok [of "T i" taken B, OF plain(1) b B(2,3)] by metis
  show ?thesis
  proof (rule that [OF m(1,2)])
    show "name_number made \<le> B + 1" using m(3) plain(2) by linarith
    show "made = T i" if "\<And>j. j \<in> J \<Longrightarrow> name_key (nm j) \<noteq> name_key (T i)"
      using m(4) that taken by force
    show "name_key made \<noteq> name_key (T j)" if j: "j \<in> J" and ok: "ok_name (nm j) (T j)" for j
    proof
      assume k: "name_key made = name_key (T j)"
      have "i \<noteq> j" "j \<in> A" using j i by auto
      have ne: "made \<noteq> T i" using k targets_apart [OF t i(1) \<open>j \<in> A\<close> \<open>i \<noteq> j\<close>] by metis
      have fresh: "name_key made \<notin> name_key ` set taken" by (rule uniqueGroupName_fresh [OF m(1)])
      have "nm j \<noteq> T j" using k fresh j taken by force
      then have above: "fst (rank_of (nm j)) = fst (rank_of (T j))" "snd (rank_of (T j)) < snd (rank_of (nm j))"
        using ok by (auto simp: ok_name_def)
      have r: "rank_of made = rank_of (T j)" by (rule rank_of_key [OF k])
      have "nm j \<in> set taken" using j taken by blast
      with m(2,5) ne above r show False by (force simp: ok_name_def)
    qed
  qed
qed

section \<open>Creating and updating\<close>

lemma apply_append: "applyGroupOps gs (xs @ ys) = Option.bind (applyGroupOps gs xs) (\<lambda>hs. applyGroupOps hs ys)"
  by (induction xs arbitrary: gs) simp_all

definition create_op :: "nat \<Rightarrow> 'k live_group \<Rightarrow> 'k group_op" where
  "create_op index g = Group_Create (lg_id g) (lg_name g) (lg_color g) (lg_target g) (Some (int index))"

lemma creates_reach:
  assumes "shaped is f" "distinct (map (\<lambda>e. lg_id (snd e)) es)" "(\<lambda>e. lg_id (snd e)) ` set es \<inter> set is = {}"
    "\<And>e. e \<in> set es \<Longrightarrow> lg_name (snd e) = T (lg_id (snd e))"
    "targets ((\<lambda>e. lg_id (snd e)) ` set es) T B"
    "\<And>j. j \<in> set is \<Longrightarrow> name_number (lg_name (f j)) \<le> B" "1 \<le> B" "B + int (length es) \<le> MAX_COUNTED"
  obtains js f' where "applyGroupOps (map f is) (map (\<lambda>(index, g). create_op index g) es) = Some (map f' js)"
    "shaped js f'" "set js = set is \<union> (\<lambda>e. lg_id (snd e)) ` set es" "\<And>j. j \<in> set is \<Longrightarrow> f' j = f j"
    "\<And>e. e \<in> set es \<Longrightarrow> \<exists>n. ok_name n (T (lg_id (snd e))) \<and> f' (lg_id (snd e)) = (snd e)\<lparr>lg_name := n, lg_stops := []\<rparr>"
    "\<And>j. j \<in> set js \<Longrightarrow> name_number (lg_name (f' j)) \<le> B + int (length es)"
  using assms
proof (induction es arbitrary: "is" f B thesis)
  case Nil
  then show ?case by simp
next
  case (Cons e es)
  obtain index g where e: "e = (index, g)" by fastforce
  let ?i = "lg_id g"
  have i: "?i \<notin> set is" "lg_name g = T ?i" using Cons.prems(4) Cons.prems(5) [of e] e by simp_all
  have one: "targets {?i} T B" "targets ((\<lambda>e. lg_id (snd e)) ` set es) T (B + 1)"
    using Cons.prems(6) e by (auto simp: targets_def inj_on_def)
  have "\<exists>made. uniqueGroupName (T ?i) (map lg_name (map f is)) = Some made \<and> ok_name made (T ?i) \<and> name_number made \<le> B + 1"
  proof -
    have plain: "plain_name (T ?i)" "name_number (T ?i) \<le> B" using one(1) by (auto simp: targets_def)
    have b: "\<And>w. w \<in> set (map lg_name (map f is)) \<Longrightarrow> name_number w \<le> B" using Cons.prems(7) by auto
    have "B < MAX_COUNTED" using Cons.prems(9) by simp
    obtain made where "uniqueGroupName (T ?i) (map lg_name (map f is)) = Some made" "ok_name made (T ?i)"
      "name_number made \<le> max (B + 1) (name_number (T ?i))"
      using uniqueGroupName_ok [OF plain(1) b Cons.prems(8) \<open>B < MAX_COUNTED\<close>] by metis
    moreover from this(3) plain(2) have "name_number made \<le> B + 1" by linarith
    ultimately show ?thesis by blast
  qed
  then obtain made where made: "uniqueGroupName (T ?i) (map lg_name (map f is)) = Some made" "ok_name made (T ?i)" "name_number made \<le> B + 1"
    by blast
  let ?m = "g\<lparr>lg_name := made, lg_stops := []\<rparr>"
  obtain js where js: "insert_group (Some (int index)) ?m (map f is) = map (f(?i := ?m)) js" "shaped js (f(?i := ?m))" "set js = insert ?i (set is)"
    using insert_shaped [OF Cons.prems(2) i(1), of ?m "Some (int index)"] by auto
  have step: "apply_op (map f is) (create_op index g) = Some (map (f(?i := ?m)) js)"
    using js(1) made(1) i find_shaped [OF Cons.prems(2), of ?i] by (cases g) (simp add: create_op_def)
  show ?case
  proof (rule Cons.IH [OF _ js(2), where B = "B + 1"])
    show "distinct (map (\<lambda>e. lg_id (snd e)) es)" "(\<lambda>e. lg_id (snd e)) ` set es \<inter> set js = {}"
      "\<And>e. e \<in> set es \<Longrightarrow> lg_name (snd e) = T (lg_id (snd e))"
      using Cons.prems(3-5) e js(3) by auto
    show "name_number (lg_name ((f(?i := ?m)) j)) \<le> B + 1" if "j \<in> set js" for j
      using that js(3) made(3) Cons.prems(7) by force
    show "1 \<le> B + 1" "B + 1 + int (length es) \<le> MAX_COUNTED" using Cons.prems(8,9) by simp_all
    fix ks f'
    assume IH: "applyGroupOps (map (f(?i := ?m)) js) (map (\<lambda>(index, g). create_op index g) es) = Some (map f' ks)"
      "shaped ks f'" "set ks = set js \<union> (\<lambda>e. lg_id (snd e)) ` set es" "\<And>j. j \<in> set js \<Longrightarrow> f' j = (f(?i := ?m)) j"
      "\<And>e. e \<in> set es \<Longrightarrow> \<exists>n. ok_name n (T (lg_id (snd e))) \<and> f' (lg_id (snd e)) = (snd e)\<lparr>lg_name := n, lg_stops := []\<rparr>"
      "\<And>j. j \<in> set ks \<Longrightarrow> name_number (lg_name (f' j)) \<le> B + 1 + int (length es)"
    show thesis
    proof (rule Cons.prems(1) [of f' ks])
      show "applyGroupOps (map f is) (map (\<lambda>(index, g). create_op index g) (e # es)) = Some (map f' ks)"
        using step IH(1) e by simp
      show "set ks = set is \<union> (\<lambda>e. lg_id (snd e)) ` set (e # es)" using IH(3) js(3) e by auto
      show "f' j = f j" if "j \<in> set is" for j using IH(4) [of j] js(3) i(1) that by auto
      show "\<exists>n. ok_name n (T (lg_id (snd d))) \<and> f' (lg_id (snd d)) = (snd d)\<lparr>lg_name := n, lg_stops := []\<rparr>" if "d \<in> set (e # es)" for d
      proof (cases "d = e")
        case True
        then show ?thesis using IH(4) [of ?i] js(3) made(2) e by auto
      qed (use that IH(5) in auto)
      show "name_number (lg_name (f' j)) \<le> B + int (length (e # es))" if "j \<in> set ks" for j
        using IH(6) [OF that] by simp
    qed (rule IH(2))
  qed (rule one(2))
qed

definition repainted :: "'k live_group \<Rightarrow> 'k live_group \<Rightarrow> 'k live_group \<Rightarrow> bool" where
  "repainted after old new \<longleftrightarrow>
     ok_name (lg_name new) (lg_name after) \<and> new = after\<lparr>lg_name := lg_name new, lg_stops := lg_stops old\<rparr>"


lemma updates_reach:
  assumes "shaped is f" "distinct (map lg_id gs)" "lg_id ` set gs \<subseteq> set is"
    "\<And>g. g \<in> set gs \<Longrightarrow> lg_name g = T (lg_id g)" "targets (set is) T B"
    "\<And>j. j \<in> set is \<Longrightarrow> name_number (lg_name (f j)) \<le> B" "1 \<le> B" "B + int (length gs) \<le> MAX_COUNTED"
    "\<And>g. g \<in> set gs \<Longrightarrow> case group_at before (lg_id g) of
        None \<Rightarrow> ok_name (lg_name (f (lg_id g))) (lg_name g) \<and> lg_color (f (lg_id g)) = lg_color g \<and> lg_target (f (lg_id g)) = lg_target g
      | Some old \<Rightarrow> f (lg_id g) = old"
  obtains f' where "applyGroupOps (map f is) (concat (map (diff_update before) gs)) = Some (map f' is)" "shaped is f'"
    "\<And>j. j \<notin> lg_id ` set gs \<Longrightarrow> f' j = f j"
    "\<And>g. g \<in> set gs \<Longrightarrow> repainted g (f (lg_id g)) (f' (lg_id g))"
    "\<And>j. j \<in> set is \<Longrightarrow> name_number (lg_name (f' j)) \<le> B + int (length gs)"
  using assms
proof (induction gs arbitrary: f B thesis)
  case Nil
  then show ?case by simp
next
  case (Cons g gs)
  let ?i = "lg_id g" let ?ops = "diff_update before g"
  have i: "?i \<in> set is" "lg_name g = T ?i" "lg_id (f ?i) = ?i"
    using Cons.prems(4) Cons.prems(5) [of g] Cons.prems(2) by (auto simp: shaped_def)
  have same: "f ?i = g\<lparr>lg_name := lg_name (f ?i), lg_stops := lg_stops (f ?i)\<rparr>"
    if "lg_color (f ?i) = lg_color g" "lg_target (f ?i) = lg_target g"
    using that i(3) by (cases "f ?i"; cases g) simp
  have "\<exists>h. applyGroupOps (map f is) ?ops = Some (map (f(?i := h)) is) \<and> lg_id h = ?i \<and> repainted g (f ?i) h \<and>
      name_number (lg_name h) \<le> B + 1"
  proof (cases "?ops = []")
    case True
    have "repainted g (f ?i) (f ?i)"
    proof (cases "group_at before ?i")
      case None
      then show ?thesis using Cons.prems(10) [of g] same by (simp add: repainted_def)
    next
      case (Some old)
      with True Cons.prems(10) [of g] same show ?thesis
        by (auto simp: diff_update_def Let_def changed_def repainted_def ok_name_def split: if_splits)
    qed
    with True i Cons.prems(7) [of ?i] show ?thesis by (intro exI [of _ "f ?i"]) simp
  next
    case False
    then obtain old where old: "group_at before ?i = Some old" by (cases "group_at before ?i") (auto simp: diff_update_def)
    let ?c = "changed (lg_color old) (lg_color g)" let ?t = "changed (lg_target old) (lg_target g)"
    have f: "f ?i = old" using Cons.prems(10) [of g] old by simp
    have ops: "?ops = [Group_Update ?i (changed (lg_name old) (lg_name g)) ?c ?t]"
      using False old by (auto simp: diff_update_def Let_def split: if_splits)
    have paint: "repaint n ?c ?t (f ?i) = g\<lparr>lg_name := (case n of None \<Rightarrow> lg_name old | Some n \<Rightarrow> n), lg_stops := lg_stops (f ?i)\<rparr>" for n
      using i(3) unfolding f by (intro live_group.equality) (simp_all add: repaint_def changed_def)
    show ?thesis
    proof (cases "lg_name old = lg_name g")
      case True
      let ?h = "repaint None ?c ?t (f ?i)"
      have "applyGroupOps (map f is) ?ops = Some (map (f(?i := ?h)) is)"
        using True ops i(1) find_shaped [OF Cons.prems(2)] change_shaped [OF Cons.prems(2) i(1)] by (simp add: changed_def)
      moreover have "repainted g (f ?i) ?h" using paint [of None] True by (simp add: repainted_def ok_name_def)
      ultimately show ?thesis using paint [of None] Cons.prems(7) [OF i(1)] f by (intro exI [of _ ?h]) simp
    next
      case new: False
      have plain: "plain_name (T ?i)" "name_number (T ?i) \<le> B" using Cons.prems(6) i(1) by (auto simp: targets_def)
      have b: "\<And>w. w \<in> set (namesBesides ?i (map f is)) \<Longrightarrow> name_number w \<le> B"
        using Cons.prems(7) names_shaped [OF Cons.prems(2), of ?i] by auto
      have "B < MAX_COUNTED" using Cons.prems(9) by simp
      obtain made where made: "uniqueGroupName (T ?i) (namesBesides ?i (map f is)) = Some made" "ok_name made (T ?i)"
        "name_number made \<le> max (B + 1) (name_number (T ?i))"
        using uniqueGroupName_ok [OF plain(1) b Cons.prems(8) \<open>B < MAX_COUNTED\<close>] by metis
      let ?h = "repaint (Some made) ?c ?t (f ?i)"
      have "applyGroupOps (map f is) ?ops = Some (map (f(?i := ?h)) is)"
        using new ops i made(1) find_shaped [OF Cons.prems(2)] change_shaped [OF Cons.prems(2) i(1)] by (simp add: changed_def)
      moreover have "repainted g (f ?i) ?h" using paint [of "Some made"] made(2) i(2) by (simp add: repainted_def)
      ultimately show ?thesis using paint [of "Some made"] made(3) plain(2) by (intro exI [of _ ?h]) simp
    qed
  qed
  then obtain h where h: "applyGroupOps (map f is) ?ops = Some (map (f(?i := h)) is)" "lg_id h = ?i" "repainted g (f ?i) h"
    "name_number (lg_name h) \<le> B + 1" by blast
  have others: "lg_id d \<noteq> ?i" if "d \<in> set gs" for d using Cons.prems(3) that by (auto, metis image_eqI)
  show ?case
  proof (rule Cons.IH [where f = "f(?i := h)" and B = "B + 1"])
    show "shaped is (f(?i := h))" using Cons.prems(2) h(2) by (simp add: shaped_def)
    show "targets (set is) T (B + 1)" using Cons.prems(6) by (rule targets_mono) simp
    show "name_number (lg_name ((f(?i := h)) j)) \<le> B + 1" if "j \<in> set is" for j
      using that Cons.prems(7) [of j] h(4) by simp
    show "case group_at before (lg_id d) of
        None \<Rightarrow> ok_name (lg_name ((f(?i := h)) (lg_id d))) (lg_name d) \<and> lg_color ((f(?i := h)) (lg_id d)) = lg_color d \<and>
          lg_target ((f(?i := h)) (lg_id d)) = lg_target d
      | Some old \<Rightarrow> (f(?i := h)) (lg_id d) = old" if "d \<in> set gs" for d
      using Cons.prems(10) [of d] that others [OF that] by (cases "group_at before (lg_id d)") simp_all
    fix f'
    assume IH: "applyGroupOps (map (f(?i := h)) is) (concat (map (diff_update before) gs)) = Some (map f' is)" "shaped is f'"
      "\<And>j. j \<notin> lg_id ` set gs \<Longrightarrow> f' j = (f(?i := h)) j"
      "\<And>d. d \<in> set gs \<Longrightarrow> repainted d ((f(?i := h)) (lg_id d)) (f' (lg_id d))"
      "\<And>j. j \<in> set is \<Longrightarrow> name_number (lg_name (f' j)) \<le> B + 1 + int (length gs)"
    show thesis
    proof (rule Cons.prems(1) [of f'])
      show "applyGroupOps (map f is) (concat (map (diff_update before) (g # gs))) = Some (map f' is)"
        using h(1) IH(1) by (simp add: apply_append)
      show "f' j = f j" if "j \<notin> lg_id ` set (g # gs)" for j using IH(3) [of j] that by simp
      show "repainted d (f (lg_id d)) (f' (lg_id d))" if "d \<in> set (g # gs)" for d
      proof (cases "d = g")
        case True
        have "?i \<notin> lg_id ` set gs" using Cons.prems(3) by simp
        then have "f' ?i = h" using IH(3) [of ?i] by simp
        then show ?thesis using True h(3) by simp
      qed (use that IH(4) [of d] others in auto)
      show "name_number (lg_name (f' j)) \<le> B + int (length (g # gs))" if "j \<in> set is" for j
        using IH(5) [OF that] by simp
    qed (rule IH(2))
  qed (use Cons.prems in auto)
qed


section \<open>Setting the names right\<close>

definition named :: "(string \<Rightarrow> 'k live_group) \<Rightarrow> (string \<Rightarrow> string) \<Rightarrow> string \<Rightarrow> 'k live_group" where
  "named f nm i = (f i)\<lparr>lg_name := nm i\<rparr>"

lemma named_facts [simp]:
  "lg_id (named f nm i) = lg_id (f i)" "lg_name (named f nm i) = nm i" "lg_stops (named f nm i) = lg_stops (f i)"
  by (simp_all add: named_def)

lemma shaped_named [simp]: "shaped is (named f nm) = shaped is f"
  by (simp add: shaped_def)

lemma named_update: "(named f nm)(i := repaint (Some made) None None (named f nm i)) = named f (nm(i := made))"
  by (auto simp: fun_eq_iff named_def repaint_def)

definition clear :: "string set \<Rightarrow> (string \<Rightarrow> string) \<Rightarrow> (string \<Rightarrow> string) \<Rightarrow> string \<Rightarrow> bool" where
  "clear A T nm i \<longleftrightarrow> (\<forall>j \<in> A. j \<noteq> i \<longrightarrow> name_key (nm i) \<noteq> name_key (T j))"

lemma round_reaches:
  assumes "shaped is f" "distinct (map lg_id ws)" "lg_id ` set ws \<subseteq> set is"
    "\<And>g. g \<in> set ws \<Longrightarrow> lg_name g = T (lg_id g)" "targets (set is) T B"
    "\<And>j. j \<in> set is \<Longrightarrow> name_number (nm j) \<le> B" "1 \<le> B" "B + int (length ws) \<le> MAX_COUNTED"
    "\<And>j. j \<in> set is \<Longrightarrow> ok_name (nm j) (T j)"
  obtains nm' where "applyGroupOps (map (named f nm) is) (map rename_again ws) = Some (map (named f nm') is)"
    "\<And>j. j \<notin> lg_id ` set ws \<Longrightarrow> nm' j = nm j" "\<And>j. j \<in> set is \<Longrightarrow> ok_name (nm' j) (T j)"
    "\<And>j. j \<in> lg_id ` set ws \<Longrightarrow> clear (set is) T nm' j"
    "\<And>j. (\<forall>i \<in> set is. clear (set is) T nm i) \<Longrightarrow> j \<in> lg_id ` set ws \<Longrightarrow> nm' j = T j"
    "\<And>j. j \<in> set is \<Longrightarrow> name_number (nm' j) \<le> B + int (length ws)"
  using assms
proof (induction ws arbitrary: nm B thesis)
  case Nil
  then show ?case by simp
next
  case (Cons g ws)
  let ?i = "lg_id g" let ?J = "set is - {?i}"
  have i: "?i \<in> set is" "lg_name g = T ?i" using Cons.prems(4) Cons.prems(5) [of g] by auto
  have sh: "shaped is (named f nm)" using Cons.prems(2) by simp
  have taken: "set (namesBesides ?i (map (named f nm) is)) = nm ` ?J" by (auto simp: names_shaped [OF sh])
  have lt: "B < MAX_COUNTED" using Cons.prems(9) by simp
  obtain made where made: "uniqueGroupName (T ?i) (namesBesides ?i (map (named f nm) is)) = Some made" "ok_name made (T ?i)"
    "name_number made \<le> B + 1" "(\<And>j. j \<in> ?J \<Longrightarrow> name_key (nm j) \<noteq> name_key (T ?i)) \<Longrightarrow> made = T ?i"
    "\<And>j. j \<in> ?J \<Longrightarrow> ok_name (nm j) (T j) \<Longrightarrow> name_key made \<noteq> name_key (T j)"
  proof (rule new_name [OF Cons.prems(6) i(1) _ _ _ Cons.prems(8) lt taken])
    show "name_number (nm j) \<le> B" if "j \<in> ?J" for j using that Cons.prems(7) by simp
  qed simp_all
  have step: "applyGroupOps (map (named f nm) is) [rename_again g] = Some (map (named f (nm(?i := made))) is)"
    using i made(1) find_shaped [OF sh] change_shaped [OF sh i(1)] by (simp add: rename_again_def named_update)
  have others: "?i \<notin> lg_id ` set ws" using Cons.prems(3) by simp
  show ?case
  proof (rule Cons.IH [where nm = "nm(?i := made)" and B = "B + 1"])
    show "targets (set is) T (B + 1)" using Cons.prems(6) by (rule targets_mono) simp
    show "name_number ((nm(?i := made)) j) \<le> B + 1" if "j \<in> set is" for j using that Cons.prems(7) [of j] made(3) by simp
    show "ok_name ((nm(?i := made)) j) (T j)" if "j \<in> set is" for j using that Cons.prems(10) made(2) by simp
    fix nm'
    assume IH: "applyGroupOps (map (named f (nm(?i := made))) is) (map rename_again ws) = Some (map (named f nm') is)"
      "\<And>j. j \<notin> lg_id ` set ws \<Longrightarrow> nm' j = (nm(?i := made)) j" "\<And>j. j \<in> set is \<Longrightarrow> ok_name (nm' j) (T j)"
      "\<And>j. j \<in> lg_id ` set ws \<Longrightarrow> clear (set is) T nm' j"
      "\<And>j. (\<forall>i \<in> set is. clear (set is) T (nm(?i := made)) i) \<Longrightarrow> j \<in> lg_id ` set ws \<Longrightarrow> nm' j = T j"
      "\<And>j. j \<in> set is \<Longrightarrow> name_number (nm' j) \<le> B + 1 + int (length ws)"
    have here: "nm' ?i = made" using IH(2) others by simp
    show thesis
    proof (rule Cons.prems(1) [of nm'])
      show "applyGroupOps (map (named f nm) is) (map rename_again (g # ws)) = Some (map (named f nm') is)"
        using step IH(1) apply_append [of _ "[rename_again g]"] by simp
      show "nm' j = nm j" if "j \<notin> lg_id ` set (g # ws)" for j using IH(2) [of j] that by simp
      show "clear (set is) T nm' j" if "j \<in> lg_id ` set (g # ws)" for j
      proof (cases "j = ?i")
        case True
        then show ?thesis using here made(5) Cons.prems(10) by (auto simp: clear_def)
      qed (use that IH(4) in auto)
      show "nm' j = T j" if all: "\<forall>i \<in> set is. clear (set is) T nm i" and j: "j \<in> lg_id ` set (g # ws)" for j
      proof -
        have "name_key (nm k) \<noteq> name_key (T ?i)" if "k \<in> ?J" for k using all that i(1) by (auto simp: clear_def)
        then have m: "made = T ?i" by (rule made(4))
        have "clear (set is) T (nm(?i := made)) k" if "k \<in> set is" for k
          using all that targets_apart [OF Cons.prems(6)] m i(1) by (auto simp: clear_def)
        then show ?thesis using IH(5) [of j] j here m by auto
      qed
      show "name_number (nm' j) \<le> B + int (length (g # ws))" if "j \<in> set is" for j using IH(6) [OF that] by simp
    qed (rule IH(3))
  qed (use Cons.prems in auto)
qed

lemma misnamed_shaped:
  "shaped is f \<Longrightarrow> lg_id ` set after \<subseteq> set is \<Longrightarrow>
   misnamed (map (named f nm) is) after = filter (\<lambda>g. nm (lg_id g) \<noteq> lg_name g) after"
  unfolding misnamed_def by (rule filter_cong) (auto simp: find_shaped)

text \<open>Two rounds are enough; the third finds nothing left to do.\<close>

lemma rounds_reach:
  assumes "shaped is f" "distinct (map lg_id after)" "lg_id ` set after = set is"
    "\<And>g. g \<in> set after \<Longrightarrow> lg_name g = T (lg_id g)" "targets (set is) T B"
    "\<And>j. j \<in> set is \<Longrightarrow> name_number (nm j) \<le> B" "1 \<le> B" "B + 2 * int (length after) \<le> MAX_COUNTED"
    "\<And>j. j \<in> set is \<Longrightarrow> ok_name (nm j) (T j)"
    and reached: "applyGroupOps before ops = Some (map (named f nm) is)"
  shows "\<exists>ops'. rename_rounds 3 before after ops = Some ops' \<and> applyGroupOps before ops' = Some (map (named f T) is)"
proof -
  let ?wrong = "\<lambda>nm. filter (\<lambda>g. nm (lg_id g) \<noteq> lg_name g) after"
  have wrong: "misnamed (map (named f nm) is) after = ?wrong nm" for nm
    by (rule misnamed_shaped) (use assms(1,3) in auto)
  have finished: "map (named f nm) is = map (named f T) is" if "?wrong nm = []" for nm
  proof -
    have "nm i = T i" if "i \<in> set is" for i
      using that \<open>?wrong nm = []\<close> assms(3,4) by (force simp: filter_empty_conv)
    then show ?thesis by (simp add: named_def)
  qed
  have ws: "distinct (map lg_id (?wrong nm))" "lg_id ` set (?wrong nm) \<subseteq> set is" "\<And>g. g \<in> set (?wrong nm) \<Longrightarrow> lg_name g = T (lg_id g)"
    "int (length (?wrong nm)) \<le> int (length after)" for nm
    using assms(2-4) by (auto simp: distinct_map_filterI)
  have small: "B + int (length (?wrong nm)) \<le> MAX_COUNTED" using ws(4) [of nm] assms(8) of_nat_0_le_iff [of "length after"] by linarith
  obtain nm1 where r1: "applyGroupOps (map (named f nm) is) (map rename_again (?wrong nm)) = Some (map (named f nm1) is)"
    "\<And>j. j \<notin> lg_id ` set (?wrong nm) \<Longrightarrow> nm1 j = nm j" "\<And>j. j \<in> set is \<Longrightarrow> ok_name (nm1 j) (T j)"
    "\<And>j. j \<in> lg_id ` set (?wrong nm) \<Longrightarrow> clear (set is) T nm1 j"
    "\<And>j. j \<in> set is \<Longrightarrow> name_number (nm1 j) \<le> B + int (length (?wrong nm))"
    by (rule round_reaches [where f = f and ws = "?wrong nm" and T = T and B = B and nm = nm,
          OF assms(1) ws(1,2)]) (use that assms(5-7,9) ws(3) small in blast)+
  have clear1: "clear (set is) T nm1 j" if "j \<in> set is" for j
  proof (cases "j \<in> lg_id ` set (?wrong nm)")
    case False
    then have "nm1 j = T j" using r1(2) that assms(3,4) by force
    then show ?thesis using targets_apart [OF assms(5) that] by (auto simp: clear_def)
  qed (rule r1(4))
  let ?B = "B + int (length (?wrong nm))"
  have t1: "targets (set is) T ?B" by (rule targets_mono [OF assms(5)]) simp
  have small1: "1 \<le> ?B" "?B + int (length (?wrong nm1)) \<le> MAX_COUNTED"
    using ws(4) [of nm] ws(4) [of nm1] assms(7,8) of_nat_0_le_iff [of "length (?wrong nm)"] by linarith+
  obtain nm2 where r2: "applyGroupOps (map (named f nm1) is) (map rename_again (?wrong nm1)) = Some (map (named f nm2) is)"
    "\<And>j. j \<notin> lg_id ` set (?wrong nm1) \<Longrightarrow> nm2 j = nm1 j" "\<And>j. j \<in> lg_id ` set (?wrong nm1) \<Longrightarrow> nm2 j = T j"
    by (rule round_reaches [where f = f and ws = "?wrong nm1" and T = T and B = ?B and nm = nm1,
          OF assms(1) ws(1,2)]) (use that clear1 t1 r1(3,5) ws(3) small1 in blast)+
  have "nm2 (lg_id g) = lg_name g" if "g \<in> set after" for g
    using r2(2,3) [of "lg_id g"] that assms(4) [OF that] by (cases "lg_id g \<in> lg_id ` set (?wrong nm1)") auto
  then have none: "?wrong nm2 = []" by simp
  let ?o1 = "ops @ map rename_again (?wrong nm)" let ?o2 = "?o1 @ map rename_again (?wrong nm1)"
  have a1: "applyGroupOps before ?o1 = Some (map (named f nm1) is)" using reached r1(1) by (simp only: apply_append bind.bind_lunit)
  have a2: "applyGroupOps before ?o2 = Some (map (named f nm2) is)" using a1 r2(1) by (simp only: apply_append bind.bind_lunit)
  have unfold: "rename_rounds (Suc n) before after o' = (if ?wrong nm' = [] then Some o' else rename_rounds n before after (o' @ map rename_again (?wrong nm')))"
    if "applyGroupOps before o' = Some (map (named f nm') is)" for n o' nm'
    using that wrong [of nm'] by simp
  consider "?wrong nm = []" | "?wrong nm \<noteq> []" "?wrong nm1 = []" | "?wrong nm \<noteq> []" "?wrong nm1 \<noteq> []" by blast
  then show ?thesis
  proof cases
    case 1
    then show ?thesis using unfold [OF reached] reached finished [OF 1] by (simp add: numeral_3_eq_3)
  next
    case 2
    then show ?thesis using unfold [OF reached] unfold [OF a1] a1 finished [OF 2(2)] by (simp add: numeral_3_eq_3 del: rename_rounds.simps)
  next
    case 3
    then show ?thesis using unfold [OF reached] unfold [OF a1] unfold [OF a2] a2 finished [OF none] none
      by (simp add: numeral_3_eq_3 del: rename_rounds.simps)
  qed
qed

end
