(* ===== verification/Group_Ops_Diff.thy ===== *)
theory Group_Ops_Diff
  imports Group_Ops_Names
begin

text \<open>
  \<open>diffGroupOps\<close> and \<open>applyGroupOps\<close> together: the operations worked out from a template before and
  after a change make the one into the other, names, properties and orders.
\<close>

section \<open>Where each property is\<close>

definition stopped :: "(string \<Rightarrow> 'k live_group) \<Rightarrow> (string \<Rightarrow> 'k list) \<Rightarrow> string \<Rightarrow> 'k live_group" where
  "stopped f st i = (f i)\<lparr>lg_stops := st i\<rparr>"

lemma stopped_facts [simp]:
  "lg_id (stopped f st i) = lg_id (f i)" "lg_stops (stopped f st i) = st i" "shaped is (stopped f st) = shaped is f"
  by (simp_all add: stopped_def shaped_def)

text \<open>Each property is in the group \<open>own\<close> says, once, and in no other.\<close>

definition kept :: "string list \<Rightarrow> (string \<Rightarrow> 'k list) \<Rightarrow> ('k \<rightharpoonup> string) \<Rightarrow> bool" where
  "kept is st own \<longleftrightarrow> (\<forall>i \<in> set is. distinct (st i) \<and> (\<forall>s. s \<in> set (st i) \<longleftrightarrow> own s = Some i))"

lemma without_stopped: "without_stop s (map (stopped f st) is) = map (stopped f (\<lambda>i. filter (\<lambda>t. t \<noteq> s) (st i))) is"
  by (simp add: without_stop_def stopped_def)

lemma removes_reach:
  assumes "kept is st own"
  shows "\<exists>st'. applyGroupOps (map (stopped f st) is) (map Stop_Remove rs) = Some (map (stopped f st') is) \<and>
    kept is st' (\<lambda>s. if s \<in> set rs then None else own s)"
  using assms
proof (induction rs arbitrary: st own)
  case (Cons r rs)
  let ?st = "\<lambda>i. filter (\<lambda>t. t \<noteq> r) (st i)"
  have "kept is ?st (own(r := None))" using Cons.prems by (auto simp: kept_def)
  from Cons.IH [OF this] obtain st' where "applyGroupOps (map (stopped f ?st) is) (map Stop_Remove rs) = Some (map (stopped f st') is)"
    and k: "kept is st' (\<lambda>s. if s \<in> set rs then None else (own(r := None)) s)"
    by blast
  moreover have "(\<lambda>s. if s \<in> set rs then None else (own(r := None)) s) = (\<lambda>s. if s \<in> set (r # rs) then None else own s)"
    by auto
  ultimately show ?case by (intro exI [of _ st']) (simp add: without_stopped)
qed auto

lemma adds_reach:
  assumes "shaped is f" "kept is st own" "snd ` set ps \<subseteq> set is" "distinct (map fst ps)"
  shows "\<exists>st'. applyGroupOps (map (stopped f st) is) (map (\<lambda>(s, i). Stop_Add i s) ps) = Some (map (stopped f st') is) \<and>
    kept is st' (own ++ map_of ps)"
  using assms(2-)
proof (induction ps arbitrary: st own)
  case (Cons p ps)
  obtain s i where p: "p = (s, i)" by fastforce
  have i: "i \<in> set is" using Cons.prems(2) p by auto
  have sh: "shaped is (stopped f st)" using assms(1) by simp
  have "\<exists>st1. apply_op (map (stopped f st) is) (Stop_Add i s) = Some (map (stopped f st1) is) \<and> kept is st1 (own(s \<mapsto> i))"
  proof (cases "s \<in> set (st i)")
    case True
    then have "own(s \<mapsto> i) = own" using Cons.prems(1) i by (auto simp: kept_def fun_upd_idem_iff)
    with True i Cons.prems(1) show ?thesis by (intro exI [of _ st]) (simp add: find_shaped [OF sh])
  next
    case False
    let ?w = "\<lambda>j. filter (\<lambda>t. t \<noteq> s) (st j)" let ?st = "?w(i := ?w i @ [s])"
    have shw: "shaped is (stopped f ?w)" using assms(1) by simp
    have "(stopped f ?w)(i := (stopped f ?w i)\<lparr>lg_stops := lg_stops (stopped f ?w i) @ [s]\<rparr>) = stopped f ?st"
      by (auto simp: fun_eq_iff stopped_def)
    then have "apply_op (map (stopped f st) is) (Stop_Add i s) = Some (map (stopped f ?st) is)"
      using False i by (simp only: apply_op.simps find_shaped [OF sh] without_stopped change_shaped [OF shw i] if_True option.case stopped_facts if_False)
    moreover have "kept is ?st (own(s \<mapsto> i))" using Cons.prems(1) i by (auto simp: kept_def)
    ultimately show ?thesis by blast
  qed
  then obtain st1 where st1: "apply_op (map (stopped f st) is) (Stop_Add i s) = Some (map (stopped f st1) is)" "kept is st1 (own(s \<mapsto> i))"
    by blast
  have "s \<notin> dom (map_of ps)" using Cons.prems(3) p by (simp add: dom_map_of_conv_image_fst)
  then have own: "own(s \<mapsto> i) ++ map_of ps = own ++ map_of (p # ps)" by (auto simp: p fun_eq_iff map_add_def split: option.splits)
  have "snd ` set ps \<subseteq> set is" "distinct (map fst ps)" using Cons.prems(2,3) by simp_all
  from Cons.IH [OF st1(2) this] obtain st' where "applyGroupOps (map (stopped f st1) is) (map (\<lambda>(s, i). Stop_Add i s) ps) = Some (map (stopped f st') is)"
    and k: "kept is st' (own(s \<mapsto> i) ++ map_of ps)"
    by blast
  then have "applyGroupOps (map (stopped f st) is) (map (\<lambda>(s, i). Stop_Add i s) (p # ps)) = Some (map (stopped f st') is)"
    using st1(1) by (simp add: p del: apply_op.simps)
  then show ?case using k unfolding own by blast
qed auto

lemma named_first_same: "distinct wanted \<Longrightarrow> set wanted = set present \<Longrightarrow> named_first wanted present = wanted"
  by (simp add: named_first_def Let_def)

lemma orders_reach:
  assumes "shaped is f" "distinct (map lg_id gs)" "lg_id ` set gs \<subseteq> set is"
    "\<And>g. g \<in> set gs \<Longrightarrow> distinct (lg_stops g) \<and> set (lg_stops g) = set (st (lg_id g))"
  shows "applyGroupOps (map (stopped f st) is) (map (\<lambda>g. Stops_Order (lg_id g) (lg_stops g)) gs) =
    Some (map (stopped f (\<lambda>i. case find_group i gs of None \<Rightarrow> st i | Some g \<Rightarrow> lg_stops g)) is)"
  using assms(2-4)
proof (induction gs arbitrary: st)
  case (Cons g gs)
  let ?i = "lg_id g" let ?st = "st(?i := lg_stops g)"
  have sh: "shaped is (stopped f st)" using assms(1) by simp
  have i: "?i \<in> set is" using Cons.prems(2) by simp
  have "(stopped f st)(?i := (stopped f st ?i)\<lparr>lg_stops := named_first (lg_stops g) (lg_stops (stopped f st ?i))\<rparr>) = stopped f ?st"
    using Cons.prems(3) [of g] by (auto simp: fun_eq_iff stopped_def named_first_same)
  then have step: "apply_op (map (stopped f st) is) (Stops_Order ?i (lg_stops g)) = Some (map (stopped f ?st) is)"
    using i by (simp only: apply_op.simps find_shaped [OF sh] change_shaped [OF sh i] if_True option.distinct if_False)
  have others: "?i \<notin> lg_id ` set gs" using Cons.prems(1) by simp
  have "applyGroupOps (map (stopped f ?st) is) (map (\<lambda>g. Stops_Order (lg_id g) (lg_stops g)) gs) =
      Some (map (stopped f (\<lambda>i. case find_group i gs of None \<Rightarrow> ?st i | Some g \<Rightarrow> lg_stops g)) is)"
  proof (rule Cons.IH)
    show "distinct (lg_stops d) \<and> set (lg_stops d) = set (?st (lg_id d))" if "d \<in> set gs" for d
    proof -
      have "lg_id d \<noteq> ?i" using that others by (metis image_eqI)
      then show ?thesis using Cons.prems(3) [of d] that by simp
    qed
  qed (use Cons.prems in simp_all)
  moreover have "(\<lambda>i. case find_group i gs of None \<Rightarrow> ?st i | Some g \<Rightarrow> lg_stops g) =
      (\<lambda>i. case find_group i (g # gs) of None \<Rightarrow> st i | Some g \<Rightarrow> lg_stops g)"
  proof
    fix i
    show "(case find_group i gs of None \<Rightarrow> ?st i | Some g \<Rightarrow> lg_stops g) = (case find_group i (g # gs) of None \<Rightarrow> st i | Some g \<Rightarrow> lg_stops g)"
      using others find_group_None [of ?i gs] by (cases "i = ?i"; cases "find_group i gs") (auto simp: find_group_def)
  qed
  ultimately show ?case using step by simp
qed (simp add: find_group_def)

section \<open>The maps from a property to its group\<close>

lemma update_fresh: "s \<notin> fst ` set m \<Longrightarrow> AList.update s v m = m @ [(s, v)]"
  by (induction m) auto

lemma homes_one:
  "distinct ss \<Longrightarrow> fst ` set m \<inter> set ss = {} \<Longrightarrow> foldl (\<lambda>m s. AList.update s v m) m ss = m @ map (\<lambda>s. (s, v)) ss"
  by (induction ss arbitrary: m) (auto simp: update_fresh)

lemma stop_homes_eq:
  assumes "distinct (concat (map lg_stops gs))"
  shows "stop_homes gs = concat (map (\<lambda>g. map (\<lambda>s. (s, lg_id g)) (lg_stops g)) gs)"
proof -
  have "foldl (\<lambda>m g. foldl (\<lambda>m s. AList.update s (lg_id g) m) m (lg_stops g)) m gs =
      m @ concat (map (\<lambda>g. map (\<lambda>s. (s, lg_id g)) (lg_stops g)) gs)"
    if "fst ` set m \<inter> set (concat (map lg_stops gs)) = {}" for m
    using that assms
  proof (induction gs arbitrary: m)
    case (Cons g gs)
    have "foldl (\<lambda>m s. AList.update s (lg_id g) m) m (lg_stops g) = m @ map (\<lambda>s. (s, lg_id g)) (lg_stops g)"
      using Cons.prems by (intro homes_one) auto
    moreover have "fst ` set (m @ map (\<lambda>s. (s, lg_id g)) (lg_stops g)) \<inter> set (concat (map lg_stops gs)) = {}"
      using Cons.prems by (auto simp: image_Un image_image)
    ultimately show ?case using Cons.IH Cons.prems(2) by simp
  qed simp
  from this [of "[]"] show ?thesis by (simp add: stop_homes_def)
qed

lemma map_of_homes:
  assumes "proper_groups gs"
  shows "distinct (map fst (stop_homes gs))" "map_of (stop_homes gs) s = Some i \<longleftrightarrow> (\<exists>g \<in> set gs. lg_id g = i \<and> s \<in> set (lg_stops g))"
proof -
  have d: "distinct (concat (map lg_stops gs))" using assms by (simp add: proper_groups_def)
  have "map fst (stop_homes gs) = concat (map lg_stops gs)"
    by (simp add: stop_homes_eq [OF d] map_concat comp_def)
  then show df: "distinct (map fst (stop_homes gs))" using d by simp
  show "map_of (stop_homes gs) s = Some i \<longleftrightarrow> (\<exists>g \<in> set gs. lg_id g = i \<and> s \<in> set (lg_stops g))"
    using map_of_eq_Some_iff [OF df, of s i] by (auto simp: stop_homes_eq [OF d])
qed

section \<open>From before to after\<close>

lemma group_at_find: "distinct (map lg_id gs) \<Longrightarrow> group_at gs i = find_group i gs"
proof (cases "find_group i gs")
  case None
  then have "find_group i (rev gs) = None" by (simp add: find_group_None)
  with None show ?thesis by (simp add: group_at_def)
next
  case (Some g)
  assume d: "distinct (map lg_id gs)"
  have "g \<in> set (rev gs)" "lg_id g = i" using find_group_Some [OF Some] by simp_all
  with d find_group_in [of "rev gs" g] Some show ?thesis by (simp add: group_at_def rev_map [symmetric])
qed

definition as_map :: "'k live_groups \<Rightarrow> string \<Rightarrow> 'k live_group" where
  "as_map gs i = the (find_group i gs)"

lemma as_map_facts:
  assumes "distinct (map lg_id gs)"
  shows "shaped (map lg_id gs) (as_map gs)" "map (as_map gs) (map lg_id gs) = gs" "g \<in> set gs \<Longrightarrow> as_map gs (lg_id g) = g"
proof -
  show *: "as_map gs (lg_id g) = g" if "g \<in> set gs" for g using find_group_in [OF assms that] by (simp add: as_map_def)
  show "shaped (map lg_id gs) (as_map gs)" using assms by (auto simp: shaped_def *)
  show "map (as_map gs) (map lg_id gs) = gs" by (auto simp: comp_def * intro: map_idI)
qed

lemma deletes_reach:
  assumes "distinct (map lg_id before)" "distinct (map lg_id after)"
  shows "applyGroupOps before (diff_deletes before after) =
    Some (map (as_map before) (filter (\<lambda>i. i \<in> lg_id ` set after) (map lg_id before)))"
proof -
  have one: "applyGroupOps gs (map (\<lambda>g. Group_Delete (lg_id g)) ds) = Some (filter (\<lambda>g. lg_id g \<notin> lg_id ` set ds) gs)" for gs ds :: "'a live_groups"
    by (induction ds arbitrary: gs) (auto intro!: filter_cong)
  let ?ds = "filter (\<lambda>g. group_at after (lg_id g) = None) before"
  have "lg_id g \<notin> lg_id ` set ?ds \<longleftrightarrow> lg_id g \<in> lg_id ` set after" if "g \<in> set before" for g
    using that by (auto simp: group_at_find [OF assms(2)] find_group_None)
  then have "filter (\<lambda>g. lg_id g \<notin> lg_id ` set ?ds) before = filter (\<lambda>g. lg_id g \<in> lg_id ` set after) before" by (intro filter_cong) auto
  also have "\<dots> = map (as_map before) (filter (\<lambda>i. i \<in> lg_id ` set after) (map lg_id before))"
    by (auto simp: filter_map comp_def as_map_facts(3) [OF assms(1)] intro!: map_idI [symmetric])
  finally show ?thesis by (simp add: diff_deletes_def one)
qed

text \<open>What the two templates have to be: the numbers in their names far from \<open>2 ^ 53\<close>.\<close>

definition small_names :: "int \<Rightarrow> 'k live_groups \<Rightarrow> bool" where
  "small_names B gs \<longleftrightarrow> list_all (\<lambda>g. name_number (lg_name g) \<le> B) gs"

definition plain_names :: "'k live_groups \<Rightarrow> bool" where
  "plain_names gs \<longleftrightarrow> list_all (\<lambda>g. plain_name (lg_name g)) gs"

lemma targets_after:
  assumes "proper_groups after" "plain_names after" "small_names B after"
  shows "targets (lg_id ` set after) (\<lambda>i. lg_name (as_map after i)) B"
proof -
  have d: "distinct (map lg_id after)" "distinct (map (\<lambda>g. name_key (lg_name g)) after)"
    using assms(1) by (simp_all add: proper_groups_def)
  then show ?thesis
    using assms(2,3) by (auto simp: targets_def plain_names_def small_names_def list_all_iff as_map_facts(3) inj_on_def distinct_map)
qed

lemma map_snd_filter_enumerate: "map snd (filter (\<lambda>(i, x). P x) (enumerate n xs)) = filter P xs"
  by (induction xs arbitrary: n) auto

text \<open>The fields: after the deletes, creates, updates and rounds only properties and orders are left.\<close>

lemma fields_reach:
  assumes before: "proper_groups before" "small_names B before"
    and after: "proper_groups after" "plain_names after" "small_names B after"
    and B: "1 \<le> B" "B + 4 * int (length after) \<le> MAX_COUNTED"
  obtains ops "is" where "rename_rounds 3 before after (diff_fields before after) = Some ops"
    "applyGroupOps before ops = Some (map (stopped (as_map after) (\<lambda>i. if i \<in> lg_id ` set before then lg_stops (as_map before i) else [])) is)"
    "set is = lg_id ` set after" "distinct is"
proof -
  let ?A = "lg_id ` set after" let ?fb = "as_map before" let ?fa = "as_map after"
  define T where "T = (\<lambda>i. lg_name (?fa i))"
  have db: "distinct (map lg_id before)" and da: "distinct (map lg_id after)" using before(1) after(1) by (simp_all add: proper_groups_def)
  have Tg: "lg_name g = T (lg_id g)" if "g \<in> set after" for g using as_map_facts(3) [OF da that] by (simp add: T_def)
  have tg: "targets ?A T C" if "B \<le> C" for C
    unfolding T_def by (rule targets_mono [OF targets_after [OF after] that])
  let ?bs = "filter (\<lambda>i. i \<in> ?A) (map lg_id before)"
  have sh0: "shaped ?bs ?fb" using as_map_facts(1) [OF db] by (auto simp: shaped_def)
  have b0: "name_number (lg_name (?fb j)) \<le> B" if j: "j \<in> set ?bs" for j
  proof -
    obtain g where "g \<in> set before" "lg_id g = j" using j by auto
    then show ?thesis using before(2) as_map_facts(3) [OF db, of g] by (auto simp: small_names_def list_all_iff)
  qed
  define es where "es = filter (\<lambda>(index, g). group_at before (lg_id g) = None) (enumerate 0 after)"
  have es: "diff_creates before after = map (\<lambda>(index, g). create_op index g) es"
    by (simp add: diff_creates_def es_def create_op_def)
  have snd_es: "map snd es = filter (\<lambda>g. group_at before (lg_id g) = None) after"
    unfolding es_def by (rule map_snd_filter_enumerate)
  have new: "(\<lambda>e. lg_id (snd e)) ` set es = ?A - lg_id ` set before"
  proof -
    have "(\<lambda>e. lg_id (snd e)) ` set es = lg_id ` set (map snd es)" by (simp add: image_image)
    also have "\<dots> = ?A - lg_id ` set before" by (auto simp: snd_es group_at_find [OF db] find_group_None)
    finally show ?thesis .
  qed
  have in_after: "snd e \<in> set after" if "e \<in> set es" for e
    using that snd_es by (metis (no_types, lifting) filter_is_subset image_eqI list.set_map subsetD)
  have "distinct (map lg_id (map snd es))" unfolding snd_es by (rule distinct_map_filterI [OF da])
  then have des: "distinct (map (\<lambda>e. lg_id (snd e)) es)" by (simp add: comp_def)
  have les: "length es \<le> length after" unfolding length_map [of snd es, symmetric] snd_es by (rule length_filter_le)
  obtain js f1 where c: "applyGroupOps (map ?fb ?bs) (map (\<lambda>(index, g). create_op index g) es) = Some (map f1 js)"
    "shaped js f1" "set js = set ?bs \<union> (\<lambda>e. lg_id (snd e)) ` set es" "\<And>j. j \<in> set ?bs \<Longrightarrow> f1 j = ?fb j"
    "\<And>e. e \<in> set es \<Longrightarrow> \<exists>n. ok_name n (T (lg_id (snd e))) \<and> f1 (lg_id (snd e)) = (snd e)\<lparr>lg_name := n, lg_stops := []\<rparr>"
    "\<And>j. j \<in> set js \<Longrightarrow> name_number (lg_name (f1 j)) \<le> B + int (length es)"
  proof (rule creates_reach [OF sh0 des, where T = T and B = B])
    show "(\<lambda>e. lg_id (snd e)) ` set es \<inter> set ?bs = {}" using new by auto
    show "lg_name (snd e) = T (lg_id (snd e))" if "e \<in> set es" for e by (rule Tg [OF in_after [OF that]])
    show "targets ((\<lambda>e. lg_id (snd e)) ` set es) T B" using tg [of B] new by (auto simp: targets_def inj_on_def)
    show "B + int (length es) \<le> MAX_COUNTED" using B(2) les by linarith
  qed (use b0 B(1) in auto)
  have js: "set js = ?A" using c(3) new by auto
  let ?B1 = "B + int (length after)" let ?B2 = "B + 2 * int (length after)"
  have b1: "name_number (lg_name (f1 j)) \<le> ?B1" if "j \<in> set js" for j using c(6) [OF that] les by linarith
  obtain f2 where u: "applyGroupOps (map f1 js) (concat (map (diff_update before) after)) = Some (map f2 js)" "shaped js f2"
    "\<And>g. g \<in> set after \<Longrightarrow> repainted g (f1 (lg_id g)) (f2 (lg_id g))"
    "\<And>j. j \<in> set js \<Longrightarrow> name_number (lg_name (f2 j)) \<le> ?B1 + int (length after)"
  proof (rule updates_reach [OF c(2) da, where T = T and B = ?B1 and before = before])
    show "case group_at before (lg_id g) of
        None \<Rightarrow> ok_name (lg_name (f1 (lg_id g))) (lg_name g) \<and> lg_color (f1 (lg_id g)) = lg_color g \<and> lg_target (f1 (lg_id g)) = lg_target g
      | Some old \<Rightarrow> f1 (lg_id g) = old" if "g \<in> set after" for g
    proof (cases "group_at before (lg_id g)")
      case None
      then have "g \<in> set (map snd es)" using snd_es that by simp
      then obtain e where "e \<in> set es" "snd e = g" by auto
      then show ?thesis using c(5) [of e] None Tg [OF that] by auto
    next
      case (Some old)
      then have "old \<in> set before" "lg_id old = lg_id g" using find_group_Some [of "lg_id g" before old] by (simp_all add: group_at_find [OF db])
      moreover from this that have "lg_id g \<in> set ?bs" by (auto simp: image_iff) metis
      ultimately have "f1 (lg_id g) = old" using c(4) [of "lg_id g"] as_map_facts(3) [OF db, of old] by simp
      then show ?thesis using Some by simp
    qed
    show "targets (set js) T ?B1" unfolding js by (rule tg) simp
    show "1 \<le> ?B1" "?B1 + int (length after) \<le> MAX_COUNTED" using B of_nat_0_le_iff [of "length after"] by linarith+
  qed (use js Tg b1 that in auto)
  let ?st = "\<lambda>i. if i \<in> lg_id ` set before then lg_stops (?fb i) else []"
  let ?f = "stopped ?fa ?st"
  have f2: "f2 i = named ?f (\<lambda>i. lg_name (f2 i)) i" "ok_name (lg_name (f2 i)) (T i)" if i: "i \<in> set js" for i
  proof -
    obtain g where g: "g \<in> set after" "lg_id g = i" using i js by auto
    have r: "ok_name (lg_name (f2 i)) (lg_name g)" "f2 i = g\<lparr>lg_name := lg_name (f2 i), lg_stops := lg_stops (f1 i)\<rparr>"
      using u(3) [OF g(1)] g(2) by (simp_all add: repainted_def)
    show "ok_name (lg_name (f2 i)) (T i)" using r(1) Tg [OF g(1)] g(2) by simp
    have "lg_stops (f1 i) = ?st i"
    proof (cases "i \<in> lg_id ` set before")
      case True
      then show ?thesis using c(4) [of i] that js by auto
    next
      case False
      then have "i \<in> (\<lambda>e. lg_id (snd e)) ` set es" using new that js by blast
      then obtain e where e: "e \<in> set es" "lg_id (snd e) = i" by auto
      from c(5) [OF e(1)] e(2) obtain n where "f1 i = (snd e)\<lparr>lg_name := n, lg_stops := []\<rparr>" by auto
      then show ?thesis using False by simp
    qed
    with r(2) have "f2 i = g\<lparr>lg_name := lg_name (f2 i), lg_stops := ?st i\<rparr>" by (simp only:)
    also have "\<dots> = named ?f (\<lambda>i. lg_name (f2 i)) i"
      using as_map_facts(3) [OF da g(1)] g(2) by (cases g) (simp add: named_def stopped_def)
    finally show "f2 i = named ?f (\<lambda>i. lg_name (f2 i)) i" .
  qed
  have sh: "shaped js ?f" using as_map_facts(1) [OF da] c(2) js by (auto simp: shaped_def)
  have f2_map: "map f2 js = map (named ?f (\<lambda>i. lg_name (f2 i))) js" using f2(1) by (intro map_cong) auto
  have reached: "applyGroupOps before (diff_fields before after) = Some (map (named ?f (\<lambda>i. lg_name (f2 i))) js)"
    using deletes_reach [OF db da] c(1) u(1) f2_map by (simp add: diff_fields_def apply_append es)
  have "\<exists>ops'. rename_rounds 3 before after (diff_fields before after) = Some ops' \<and> applyGroupOps before ops' = Some (map (named ?f T) js)"
  proof (rule rounds_reach [OF sh da, where B = ?B2])
    show "targets (set js) T ?B2" unfolding js by (rule tg) simp
    show "name_number (lg_name (f2 j)) \<le> ?B2" if "j \<in> set js" for j using u(4) [OF that] by simp
    show "1 \<le> ?B2" "?B2 + 2 * int (length after) \<le> MAX_COUNTED" using B of_nat_0_le_iff [of "length after"] by linarith+
  qed (use js Tg f2(2) reached in auto)
  moreover have "map (named ?f T) js = map ?f js" by (simp add: named_def stopped_def T_def)
  ultimately show ?thesis using that [of _ js] js c(2) by (auto simp: shaped_def)
qed


lemma diff_removes_eq:
  "diff_removes before after = map Stop_Remove (map fst
     (filter (\<lambda>(s, i). map_of (stop_homes after) s = None \<and> group_at after i \<noteq> None) (stop_homes before)))"
  by (simp add: diff_removes_def comp_def case_prod_beta)

lemma diff_adds_eq:
  "diff_adds before after = map (\<lambda>(s, i). Stop_Add i s) (filter (\<lambda>(s, i). map_of (stop_homes before) s \<noteq> Some i \<or> group_at before i = None)
     (concat (map (\<lambda>g. map (\<lambda>s. (s, lg_id g)) (lg_stops g)) after)))"
  unfolding diff_adds_def by (induction after) (simp_all add: filter_map comp_def)

text \<open>
  The properties: what is taken out and put in leaves every property of a group of \<open>after\<close> in that
  group and every other in none.
\<close>

lemma stops_reach:
  assumes before: "proper_groups before" and after: "proper_groups after"
    and sh: "shaped is f" and ids: "set is = lg_id ` set after"
  obtains st where "applyGroupOps (map (stopped f (\<lambda>i. if i \<in> lg_id ` set before then lg_stops (as_map before i) else [])) is)
      (diff_removes before after @ diff_adds before after) = Some (map (stopped f st) is)"
    "kept is st (map_of (stop_homes after))"
proof -
  let ?st = "\<lambda>i. if i \<in> lg_id ` set before then lg_stops (as_map before i) else []"
  let ?B = "map_of (stop_homes before)" let ?A = "map_of (stop_homes after)"
  have db: "distinct (map lg_id before)" and da: "distinct (map lg_id after)" using before after by (simp_all add: proper_groups_def)
  note homeB = map_of_homes [OF before] and homeA = map_of_homes [OF after]
  define own0 where "own0 = (\<lambda>s. case ?B s of None \<Rightarrow> None | Some i \<Rightarrow> if i \<in> set is then Some i else None)"
  have own0: "own0 s = Some i \<longleftrightarrow> ?B s = Some i \<and> i \<in> set is" for s i by (auto simp: own0_def split: option.splits)
  have k0: "kept is ?st own0"
    unfolding kept_def
  proof (intro ballI conjI allI)
    fix i s assume i: "i \<in> set is"
    show "distinct (?st i)"
      using before as_map_facts(3) [OF db] by (auto simp: proper_groups_def distinct_concat_iff)
    show "s \<in> set (?st i) \<longleftrightarrow> own0 s = Some i"
      using i as_map_facts(3) [OF db] by (auto simp: own0 homeB(2))
  qed
  define rs where "rs = map fst (filter (\<lambda>(s, i). ?A s = None \<and> group_at after i \<noteq> None) (stop_homes before))"
  obtain st1 where r: "applyGroupOps (map (stopped f ?st) is) (map Stop_Remove rs) = Some (map (stopped f st1) is)"
    "kept is st1 (\<lambda>s. if s \<in> set rs then None else own0 s)"
    using removes_reach [OF k0] by blast
  have rs: "s \<in> set rs \<longleftrightarrow> ?A s = None \<and> (\<exists>i \<in> set is. ?B s = Some i)" for s
  proof -
    have "group_at after i \<noteq> None \<longleftrightarrow> i \<in> set is" for i using find_group_None [of i after] by (simp add: group_at_find [OF da] ids)
    then have "s \<in> set rs \<longleftrightarrow> (\<exists>i. (s, i) \<in> set (stop_homes before) \<and> ?A s = None \<and> i \<in> set is)" by (auto simp: rs_def image_iff)
    then show ?thesis using map_of_eq_Some_iff [OF homeB(1), of s] by blast
  qed
  define ps where "ps = filter (\<lambda>(s, i). ?B s \<noteq> Some i \<or> group_at before i = None) (stop_homes after)"
  have ps: "snd ` set ps \<subseteq> set is" "distinct (map fst ps)"
  proof -
    show "distinct (map fst ps)" unfolding ps_def by (rule distinct_map_filterI [OF homeA(1)])
    show "snd ` set ps \<subseteq> set is"
    proof
      fix i assume "i \<in> snd ` set ps"
      then obtain s where "(s, i) \<in> set (stop_homes after)" by (auto simp: ps_def)
      then have "?A s = Some i" using map_of_eq_Some_iff [OF homeA(1)] by blast
      then show "i \<in> set is" using homeA(2) [of s i] ids by auto
    qed
  qed
  obtain st2 where a: "applyGroupOps (map (stopped f st1) is) (map (\<lambda>(s, i). Stop_Add i s) ps) = Some (map (stopped f st2) is)"
    "kept is st2 ((\<lambda>s. if s \<in> set rs then None else own0 s) ++ map_of ps)"
    using adds_reach [OF sh r(2) ps] by blast
  have "((\<lambda>s. if s \<in> set rs then None else own0 s) ++ map_of ps) s = ?A s" for s
  proof -
    have psA: "map_of ps s = Some i \<longleftrightarrow> ?A s = Some i \<and> (?B s \<noteq> Some i \<or> group_at before i = None)" for i
      using map_of_eq_Some_iff [OF ps(2), of s i] map_of_eq_Some_iff [OF homeA(1), of s i] by (auto simp: ps_def)
    have in_before: "?B s = Some i \<Longrightarrow> group_at before i \<noteq> None" for i
      using homeB(2) by (auto simp: group_at_find [OF db] find_group_None)
    have in_after: "?A s = Some i \<Longrightarrow> i \<in> set is" for i using homeA(2) ids by auto
    show ?thesis
    proof (cases "?A s")
      case None
      then have "map_of ps s = None" using psA by (cases "map_of ps s") auto
      then show ?thesis using None rs [of s] by (auto simp: map_add_def own0_def split: option.splits)
    next
      case (Some i)
      show ?thesis
      proof (cases "?B s = Some i")
        case True
        then have "map_of ps s = None" using psA Some in_before by (cases "map_of ps s") auto
        then show ?thesis using True Some rs [of s] in_after [OF Some] by (simp add: map_add_def own0_def)
      next
        case False
        then have "map_of ps s = Some i" using psA Some by simp
        then show ?thesis using Some by (simp add: map_add_def)
      qed
    qed
  qed
  then have "kept is st2 ?A" using a(2) by (simp add: kept_def)
  moreover have "diff_removes before after = map Stop_Remove rs" by (simp add: diff_removes_eq rs_def)
  moreover have "diff_adds before after = map (\<lambda>(s, i). Stop_Add i s) ps"
    using after by (simp add: diff_adds_eq ps_def stop_homes_eq proper_groups_def)
  ultimately show ?thesis using that [of st2] r(1) a(1) by (simp add: apply_append)
qed

lemma diff_apply:
  assumes before: "proper_groups before" "small_names B before"
    and after: "proper_groups after" "plain_names after" "small_names B after"
    and B: "1 \<le> B" "B + 4 * int (length after) \<le> 2 ^ 53"
  shows "Option.bind (diffGroupOps before after) (applyGroupOps before) = Some after"
proof -
  let ?fa = "as_map after" let ?st = "\<lambda>i. if i \<in> lg_id ` set before then lg_stops (as_map before i) else []"
  have da: "distinct (map lg_id after)" using after(1) by (simp add: proper_groups_def)
  obtain ops "is" where names: "rename_rounds 3 before after (diff_fields before after) = Some ops"
    "applyGroupOps before ops = Some (map (stopped ?fa ?st) is)" "set is = lg_id ` set after" "distinct is"
    by (rule fields_reach [OF before after B [folded MAX_COUNTED_def]])
  have sh: "shaped is ?fa" using as_map_facts(1) [OF da] names(3,4) by (auto simp: shaped_def)
  obtain st where stops: "applyGroupOps (map (stopped ?fa ?st) is) (diff_removes before after @ diff_adds before after) = Some (map (stopped ?fa st) is)"
    "kept is st (map_of (stop_homes after))"
    by (rule stops_reach [OF before(1) after(1) sh names(3)])
  let ?ops = "ops @ diff_removes before after @ diff_adds before after"
  have r1: "applyGroupOps before ?ops = Some (map (stopped ?fa st) is)" using names(2) stops(1) by (simp add: apply_append)
  have same_set: "distinct (lg_stops g) \<and> set (lg_stops g) = set (st (lg_id g))" if "g \<in> set after" for g
  proof -
    have "s \<in> set (st (lg_id g)) \<longleftrightarrow> s \<in> set (lg_stops g)" for s
      using stops(2) names(3) that map_of_homes(2) [OF after(1), of s "lg_id g"] distinct_map_eqD [OF da _ that]
      by (auto simp: kept_def)
    moreover have "distinct (lg_stops g)" using after(1) that by (auto simp: proper_groups_def distinct_concat_iff)
    ultimately show ?thesis by blast
  qed
  let ?gs = "filter (\<lambda>g. st (lg_id g) \<noteq> lg_stops g) after"
  have "diff_orders (map (stopped ?fa st) is) after = map (\<lambda>g. Stops_Order (lg_id g) (lg_stops g)) ?gs"
    unfolding diff_orders_def
    by (intro arg_cong [where f = "map _"] filter_cong) (use names(3) sh in \<open>auto simp: find_shaped\<close>)
  moreover have "applyGroupOps (map (stopped ?fa st) is) (map (\<lambda>g. Stops_Order (lg_id g) (lg_stops g)) ?gs) = Some (map ?fa is)"
  proof -
    have "(case find_group i ?gs of None \<Rightarrow> st i | Some g \<Rightarrow> lg_stops g) = lg_stops (?fa i)" if i: "i \<in> set is" for i
    proof -
      obtain g where g: "g \<in> set after" "lg_id g = i" using i names(3) by auto
      have fa: "?fa i = g" using as_map_facts(3) [OF da g(1)] g(2) by simp
      show ?thesis
      proof (cases "find_group i ?gs")
        case None
        then have "g \<notin> set ?gs" using g(2) by (auto simp: find_group_None)
        then show ?thesis using None g fa by simp
      next
        case (Some h)
        then have "h = g" using find_group_Some [OF Some] distinct_map_eqD [OF da _ g(1), of h] g(2) by auto
        then show ?thesis using Some fa by simp
      qed
    qed
    then have "map (stopped ?fa (\<lambda>i. case find_group i ?gs of None \<Rightarrow> st i | Some g \<Rightarrow> lg_stops g)) is = map ?fa is"
      by (simp add: stopped_def)
    moreover have "distinct (map lg_id ?gs)" by (rule distinct_map_filterI [OF da])
    then have "applyGroupOps (map (stopped ?fa st) is) (map (\<lambda>g. Stops_Order (lg_id g) (lg_stops g)) ?gs) =
        Some (map (stopped ?fa (\<lambda>i. case find_group i ?gs of None \<Rightarrow> st i | Some g \<Rightarrow> lg_stops g)) is)"
      by (rule orders_reach [OF sh]) (use same_set names(3) in auto)
    ultimately show ?thesis by (simp only:)
  qed
  ultimately have r2: "applyGroupOps before (?ops @ diff_orders (map (stopped ?fa st) is) after) = Some (map ?fa is)"
    using r1 by (simp only: apply_append bind.bind_lunit)
  have diff: "diffGroupOps before after =
      Some ((?ops @ diff_orders (map (stopped ?fa st) is) after) @ diff_group_order (map ?fa is) after)"
    using names(1) r1 r2 by (simp add: diffGroupOps_def Let_def)
  have ids: "map lg_id (map ?fa is) = is" by (rule shaped_ids [OF sh])
  have "applyGroupOps (map ?fa is) (diff_group_order (map ?fa is) after) = Some after"
  proof (cases "is = map lg_id after")
    case True
    then show ?thesis using as_map_facts(2) [OF da] ids by (simp add: diff_group_order_def)
  next
    case False
    have "groups_named (map lg_id after) (map ?fa is) = after"
    proof -
      have "List.map_filter (\<lambda>i. find_group i (map ?fa is)) (map lg_id hs) = hs" if "set hs \<subseteq> set after" for hs
        using that by (induction hs) (auto simp: List.map_filter_simps find_shaped [OF sh] names(3) as_map_facts(3) [OF da])
      then show ?thesis using da by (simp add: groups_named_def)
    qed
    moreover have "filter (\<lambda>g. lg_id g \<notin> lg_id ` set after) (map ?fa is) = []"
      using sh names(3) by (auto simp: filter_empty_conv shaped_def)
    ultimately show ?thesis using False ids by (simp add: diff_group_order_def)
  qed
  with diff r2 show ?thesis by (simp only: bind.bind_lunit apply_append)
qed

text \<open>
  C7. What one person did reaches everyone. For two templates whose new names are plain (trimmed,
  on one line, ending in a number or in no digit) and whose numbers are far from \<open>2 ^ 53\<close>,
  \<open>diffGroupOps\<close> returns, and applying what it returns to the template before gives the template
  after: fields, names two groups traded, properties moved, orders, and no operation refused.
\<close>

theorem diff_then_apply:
  assumes "proper_groups before" "proper_groups after" "plain_names after"
    and "small_names B before" "small_names B after" "1 \<le> B" "B + 4 * int (length after) \<le> 2 ^ 53"
  shows "Option.bind (diffGroupOps before after) (applyGroupOps before) = Some after"
  using diff_apply assms by blast

definition traded_groups :: "int live_groups" where
  "traded_groups =
     [\<lparr>lg_id = ''b'', lg_name = ''North'', lg_color = ''#00ff00'', lg_target = 9, lg_stops = [4, 2]\<rparr>,
      \<lparr>lg_id = ''c'', lg_name = ''Group 3'', lg_color = ''#0000ff'', lg_target = 5, lg_stops = [7]\<rparr>,
      \<lparr>lg_id = ''a'', lg_name = ''Group 2'', lg_color = ''#ff0000'', lg_target = 9, lg_stops = [3]\<rparr>]"

theorem diff_then_apply_witness:
  "Option.bind (diffGroupOps example_groups traded_groups) (applyGroupOps example_groups) = Some traded_groups"
proof (rule diff_then_apply [where B = 100])
  show "proper_groups traded_groups" "plain_names traded_groups" "small_names 100 traded_groups" "small_names 100 example_groups"
    by code_simp+
  show "(1::int) \<le> 100" "100 + 4 * int (length traded_groups) \<le> 2 ^ 53" by (simp_all add: traded_groups_def)
qed (rule proper_example_groups)

section \<open>Where it stops holding\<close>

text \<open>
  At \<open>2 ^ 53\<close> adding one changes nothing, so the search for a free number never ends. Such a name
  has 22 characters; the server's schema takes up to 80.
\<close>

lemma free_name_stuck:
  "name_key (join_name prefix MAX_COUNTED) \<in> names \<Longrightarrow> free_name names prefix MAX_COUNTED = None"
proof -
  assume taken: "name_key (join_name prefix MAX_COUNTED) \<in> names"
  have "free_name names' prefix' n = Some v \<Longrightarrow> \<not> (n = MAX_COUNTED \<and> name_key (join_name prefix' MAX_COUNTED) \<in> names')" for names' prefix' n v
    by (rule free_name.raw_induct [where P = "\<lambda>names prefix n v. \<not> (n = MAX_COUNTED \<and> name_key (join_name prefix MAX_COUNTED) \<in> names)"])
      (auto simp: Let_def next_number_def split: if_splits)
  with taken show ?thesis by (cases "free_name names prefix MAX_COUNTED") blast+
qed

lemma digit_chars:
  "digit 0 = CHR ''0''" "digit 1 = CHR ''1''" "digit 2 = CHR ''2''" "digit 3 = CHR ''3''" "digit 4 = CHR ''4''"
  "digit 5 = CHR ''5''" "digit 6 = CHR ''6''" "digit 7 = CHR ''7''" "digit 8 = CHR ''8''" "digit 9 = CHR ''9''"
  by code_simp+

definition two_huge_groups :: "string group_op list" where
  "two_huge_groups =
     [Group_Create ''00000000-0000-0000-0000-000000000001'' ''Group 9007199254740992'' ''#ff0000'' 9 None,
      Group_Create ''00000000-0000-0000-0000-000000000002'' ''Group 9007199254740992'' ''#ff0000'' 9 None]"

text \<open>
  C40. A batch the server accepts and then never finishes applying: two new groups, both called
  Group 9007199254740992.
\<close>

theorem accepted_batch_never_ends:
  "groupTemplateOpsSchema two_huge_groups = Some two_huge_groups \<and> applyGroupOps [] two_huge_groups = None"
proof
  show "groupTemplateOpsSchema two_huge_groups = Some two_huge_groups" by code_simp
  let ?n = "''Group 9007199254740992''"
  have first: "uniqueGroupName ?n [] = Some ?n" by code_simp
  have "string_of_int MAX_COUNTED = ''9007199254740992''"
    by (simp add: string_of_int_def MAX_COUNTED_def digits.simps digit_chars)
  then have "join_name ''Group'' MAX_COUNTED = ?n" by (simp add: join_name_def)
  then have "name_key (join_name ''Group'' MAX_COUNTED) \<in> name_key ` set [?n]" "name_key ?n \<in> name_key ` set [?n]" by simp_all
  moreover have "prefix_of ?n = ''Group''" "highest_number ''Group'' [?n] 1 = MAX_COUNTED" by code_simp+
  ultimately have "uniqueGroupName ?n [?n] = None" by (simp only: uniqueGroupName_prefix not_not not_True_eq_False if_False free_name_stuck)
  with first show "applyGroupOps [] two_huge_groups = None"
    by (simp add: two_huge_groups_def find_group_def insert_group_def del: uniqueGroupName_def)
qed

text \<open>
  Names that are not plain: a new group called \<open>1 2\<close> has no number to the code, and three rounds
  are not enough for four such groups, two of them new, that follow each other's names.
\<close>

definition numbered_group :: "string \<Rightarrow> string \<Rightarrow> int live_group" where
  "numbered_group i n = \<lparr>lg_id = i, lg_name = n, lg_color = ''#000000'', lg_target = 9, lg_stops = []\<rparr>"

lemma three_rounds_too_few:
  "let before = [numbered_group ''a'' ''1 2'', numbered_group ''c'' ''1 2 2 2''];
       after = [numbered_group ''a'' ''1 2 2 2 2'', numbered_group ''b'' ''1 2 2 2'',
                numbered_group ''c'' ''1 2 2'', numbered_group ''d'' ''1 2'']
   in map_option (map lg_name) (Option.bind (diffGroupOps before after) (applyGroupOps before)) \<noteq> Some (map lg_name after)"
  by code_simp

text \<open>A batch applied a second time: the two stops change places.\<close>

lemma applied_twice:
  "let groups = [\<lparr>lg_id = ''a'', lg_name = ''A'', lg_color = ''#000000'', lg_target = 9, lg_stops = []\<rparr>,
                 \<lparr>lg_id = ''b'', lg_name = ''B'', lg_color = ''#000000'', lg_target = 9, lg_stops = []\<rparr>];
       ops = [Stop_Add ''a'' 1, Stop_Add ''b'' 1, Stop_Add ''b'' (2::int)];
       once = applyGroupOps groups ops
   in map_option (map lg_stops) once = Some [[], [1, 2]] \<and>
      map_option (map lg_stops) (Option.bind once (\<lambda>groups. applyGroupOps groups ops)) = Some [[], [2, 1]]"
  by code_simp

end
