(* ===== verification/Template_Sync.thy ===== *)
theory Template_Sync
  imports Group_Ops_Diff
begin

text \<open>
  \<open>web/components/planning/template-sync.ts\<close>: one browser's copy of a live group template. What
  this person does goes out a batch at a time; what everyone does arrives by revision and is
  applied in order; with nothing on its way what the person sees is the server's copy.

  An asynchronous method is cut at its awaits: each piece that runs without one is a function on
  the state, the requests and sleeps it waits for are part of the state. \<open>None\<close> is a piece that
  does not return, which \<open>applyGroupOps\<close> and \<open>diffGroupOps\<close> may not (\<open>Group_Ops\<close>).
\<close>

section \<open>State\<close>

datatype sync_status = Is_Saved | Is_Saving | Is_Offline | Is_Refused string

type_synonym batch = "string \<times> string group_op list"

text \<open>What the engine is given: \<open>'v\<close> is what the person sees, as the console keeps it.\<close>

record 'v sync_deps =
  sd_view :: "'v \<Rightarrow> string live_groups"
  sd_applyToView :: "string group_op list \<Rightarrow> 'v \<Rightarrow> 'v option"
  sd_visible :: "string live_groups \<Rightarrow> string live_groups"
  sd_newId :: "nat \<Rightarrow> string"

text \<open>
  \<open>ts_posting\<close> and \<open>ts_sleeping\<close> are the batches a running \<open>flush\<close> waits for, with the attempt;
  \<open>ts_timers\<close> the timers that have not fired, \<open>ts_gapTimer\<close> the one the engine can still clear.
  \<open>ts_resyncing\<close> is also that the template is being read.
\<close>

record 'v template_sync =
  ts_confirmed :: "string live_groups"
  ts_revision :: int
  ts_queue :: "string group_op list"
  ts_inflight :: "batch option"
  ts_arrived :: "(int \<times> batch) list"
  ts_gapTimer :: "nat option"
  ts_resyncing :: bool
  ts_closed :: bool
  ts_view :: 'v
  ts_statuses :: "sync_status list"
  ts_posting :: "(batch \<times> nat) list"
  ts_sleeping :: "(batch \<times> nat) list"
  ts_timers :: "nat list"
  ts_ids :: nat
  ts_made :: nat

definition new_sync :: "string live_groups \<Rightarrow> int \<Rightarrow> 'v \<Rightarrow> 'v template_sync" where
  "new_sync base revision view =
     \<lparr>ts_confirmed = base, ts_revision = revision, ts_queue = [], ts_inflight = None, ts_arrived = [], ts_gapTimer = None,
      ts_resyncing = False, ts_closed = False, ts_view = view, ts_statuses = [], ts_posting = [], ts_sleeping = [],
      ts_timers = [], ts_ids = 0, ts_made = 0\<rparr>"

definition pending :: "'v template_sync \<Rightarrow> bool" where
  "pending s \<longleftrightarrow> ts_inflight s \<noteq> None \<or> ts_queue s \<noteq> []"

definition onStatus :: "sync_status \<Rightarrow> 'v template_sync \<Rightarrow> 'v template_sync" where
  "onStatus status s = s\<lparr>ts_statuses := ts_statuses s @ [status]\<rparr>"

definition set_gap :: "'v template_sync \<Rightarrow> 'v template_sync" where
  "set_gap s = s\<lparr>ts_timers := ts_timers s @ [ts_made s], ts_gapTimer := Some (ts_made s), ts_made := ts_made s + 1\<rparr>"

definition clearGap :: "'v template_sync \<Rightarrow> 'v template_sync" where
  "clearGap s =
     (case ts_gapTimer s of
        None \<Rightarrow> s
      | Some timer \<Rightarrow> s\<lparr>ts_timers := filter (\<lambda>t. t \<noteq> timer) (ts_timers s), ts_gapTimer := None\<rparr>)"

section \<open>Sending\<close>

text \<open>\<open>flush\<close> as far as its first \<open>post\<close>.\<close>

definition flush :: "'v sync_deps \<Rightarrow> 'v template_sync \<Rightarrow> 'v template_sync" where
  "flush D s =
     (if ts_closed s \<or> ts_resyncing s \<or> ts_inflight s \<noteq> None \<or> ts_queue s = [] then s
      else
        let batch = (sd_newId D (ts_ids s), ts_queue s)
        in onStatus Is_Saving
             (s\<lparr>ts_ids := ts_ids s + 1, ts_queue := [], ts_inflight := Some batch, ts_posting := ts_posting s @ [(batch, 0)]\<rparr>))"

definition local :: "'v sync_deps \<Rightarrow> string group_op list \<Rightarrow> 'v template_sync \<Rightarrow> 'v template_sync" where
  "local D ops s = (if ts_closed s \<or> ops = [] then s else flush D (s\<lparr>ts_queue := ts_queue s @ ops\<rparr>))"

section \<open>Following the server\<close>

text \<open>The view brought to a target, when it is not there.\<close>

definition bring_view :: "'v sync_deps \<Rightarrow> string live_groups \<Rightarrow> 'v template_sync \<Rightarrow> 'v template_sync option" where
  "bring_view D target s =
     (let view = sd_view D (ts_view s)
      in if sameGroups view target then Some s
         else Option.bind (diffGroupOps view target) (\<lambda>ops.
                map_option (\<lambda>v. s\<lparr>ts_view := v\<rparr>) (sd_applyToView D ops (ts_view s))))"

definition settle :: "'v sync_deps \<Rightarrow> 'v template_sync \<Rightarrow> 'v template_sync option" where
  "settle D s = bring_view D (sd_visible D (ts_confirmed s)) s"

text \<open>One batch the server saved next, made to its copy and to the view unless it is our own.\<close>

definition take_batch :: "'v sync_deps \<Rightarrow> batch \<Rightarrow> 'v template_sync \<Rightarrow> 'v template_sync option" where
  "take_batch D batch s =
     Option.bind (applyGroupOps (ts_confirmed s) (snd batch)) (\<lambda>confirmed.
       let s = s\<lparr>ts_arrived := AList.delete (ts_revision s + 1) (ts_arrived s), ts_revision := ts_revision s + 1,
                 ts_confirmed := confirmed\<rparr>
       in if map_option fst (ts_inflight s) = Some (fst batch) then Some (s\<lparr>ts_inflight := None\<rparr>)
          else map_option (\<lambda>v. s\<lparr>ts_view := v\<rparr>) (sd_applyToView D (snd batch) (ts_view s)))"

lemma take_batch_arrived:
  "take_batch D batch s = Some s' \<Longrightarrow> ts_arrived s' = AList.delete (ts_revision s + 1) (ts_arrived s)"
  by (auto simp: take_batch_def Let_def bind_eq_Some_conv split: if_splits)

lemma length_delete: "map_of m k = Some v \<Longrightarrow> length (AList.delete k m) < length m"
  by (induction m) (auto simp: AList.delete_eq le_imp_less_Suc)

function advance_loop :: "'v sync_deps \<Rightarrow> 'v template_sync \<Rightarrow> 'v template_sync option" where
  "advance_loop D s =
     (case map_of (ts_arrived s) (ts_revision s + 1) of
        None \<Rightarrow> Some s
      | Some batch \<Rightarrow>
          (case take_batch D batch s of
             None \<Rightarrow> None
           | Some s' \<Rightarrow> advance_loop D s'))"
  by pat_completeness auto

termination
  by (relation "measure (\<lambda>(D, s). length (ts_arrived s))") (auto simp: take_batch_arrived intro: length_delete)

declare advance_loop.simps [simp del]

text \<open>What \<open>advance\<close> does once no batch is next.\<close>

definition advanced :: "'v sync_deps \<Rightarrow> 'v template_sync \<Rightarrow> 'v template_sync option" where
  "advanced D s =
     (if ts_inflight s \<noteq> None then Some s
      else if ts_queue s \<noteq> [] then Some (flush D s)
      else map_option (onStatus Is_Saved) (settle D s))"

definition renew_gap :: "'v template_sync \<Rightarrow> 'v template_sync" where
  "renew_gap s = (let s = clearGap s in if ts_arrived s \<noteq> [] then set_gap s else s)"

definition advance :: "'v sync_deps \<Rightarrow> 'v template_sync \<Rightarrow> 'v template_sync option" where
  "advance D s = Option.bind (advance_loop D s) (\<lambda>s. advanced D (renew_gap s))"

definition received :: "'v sync_deps \<Rightarrow> int \<Rightarrow> batch \<Rightarrow> 'v template_sync \<Rightarrow> 'v template_sync option" where
  "received D revision batch s =
     (if ts_closed s \<or> revision \<le> ts_revision s then Some s
      else advance D (if map_of (ts_arrived s) revision = None
             then s\<lparr>ts_arrived := ts_arrived s @ [(revision, batch)]\<rparr> else s))"

section \<open>Reading the template again\<close>

text \<open>\<open>resync\<close> as far as its \<open>fetch\<close>, and after it.\<close>

definition resync :: "'v template_sync \<Rightarrow> 'v template_sync" where
  "resync s = (if ts_closed s \<or> ts_resyncing s then s else clearGap (s\<lparr>ts_resyncing := True\<rparr>))"

definition fetched :: "'v sync_deps \<Rightarrow> string live_groups \<Rightarrow> int \<Rightarrow> 'v template_sync \<Rightarrow> 'v template_sync option" where
  "fetched D groups revision s =
     (let s = s\<lparr>ts_confirmed := groups, ts_revision := revision, ts_arrived := [], ts_inflight := None\<rparr>
      in Option.bind (applyGroupOps groups (ts_queue s)) (\<lambda>target.
           Option.bind (bring_view D (sd_visible D target) s) (\<lambda>s.
             let s = s\<lparr>ts_resyncing := False\<rparr>
             in Some (if ts_queue s \<noteq> [] then flush D s else onStatus Is_Saved s))))"

definition fetch_failed :: "'v template_sync \<Rightarrow> 'v template_sync" where
  "fetch_failed s = (set_gap (onStatus Is_Offline s))\<lparr>ts_resyncing := False\<rparr>"

definition resyncFrom :: "int option \<Rightarrow> 'v template_sync \<Rightarrow> 'v template_sync" where
  "resyncFrom revision s =
     (case revision of
        None \<Rightarrow> resync s
      | Some r \<Rightarrow> if ts_revision s < r then resync s else s)"

definition timer_fired :: "nat \<Rightarrow> 'v template_sync \<Rightarrow> 'v template_sync" where
  "timer_fired timer s = resync (s\<lparr>ts_timers := filter (\<lambda>t. t \<noteq> timer) (ts_timers s)\<rparr>)"

definition close :: "'v template_sync \<Rightarrow> 'v template_sync" where
  "close s = clearGap (s\<lparr>ts_closed := True\<rparr>)"

section \<open>What \<open>flush\<close> does with the answer\<close>

definition post_saved :: "'v sync_deps \<Rightarrow> batch \<times> nat \<Rightarrow> int \<Rightarrow> 'v template_sync \<Rightarrow> 'v template_sync option" where
  "post_saved D sent revision s =
     (let s = s\<lparr>ts_posting := remove1 sent (ts_posting s)\<rparr>
      in if ts_inflight s \<noteq> Some (fst sent) then Some s
         else advance D (if ts_revision s < revision \<and> map_of (ts_arrived s) revision = None
                then s\<lparr>ts_arrived := ts_arrived s @ [(revision, fst sent)]\<rparr> else s))"

definition post_refused :: "batch \<times> nat \<Rightarrow> string \<Rightarrow> 'v template_sync \<Rightarrow> 'v template_sync" where
  "post_refused sent refusal s =
     (let s = s\<lparr>ts_posting := remove1 sent (ts_posting s)\<rparr>;
          s = (if ts_inflight s = Some (fst sent) then s\<lparr>ts_inflight := None\<rparr> else s)
      in resync (onStatus (Is_Refused refusal) s))"

definition post_lost :: "batch \<times> nat \<Rightarrow> 'v template_sync \<Rightarrow> 'v template_sync" where
  "post_lost sent s =
     onStatus Is_Offline (s\<lparr>ts_posting := remove1 sent (ts_posting s), ts_sleeping := ts_sleeping s @ [sent]\<rparr>)"

definition slept :: "batch \<times> nat \<Rightarrow> 'v template_sync \<Rightarrow> 'v template_sync" where
  "slept sent s =
     (let s = s\<lparr>ts_sleeping := remove1 sent (ts_sleeping s)\<rparr>
      in if ts_inflight s \<noteq> Some (fst sent) \<or> ts_closed s then s
         else s\<lparr>ts_posting := ts_posting s @ [(fst sent, snd sent + 1)]\<rparr>)"

end
