(* ===== verification/Group_Ops_Tame.thy ===== *)
theory Group_Ops_Tame
  imports Group_Ops_Diff
begin

text \<open>
  Templates on which the difference of two is known to reach (\<open>Group_Ops_Diff\<close>), and what a batch
  makes of one: the numbers in its names grow by one at most with every operation.
\<close>

definition tame_name :: "int \<Rightarrow> string \<Rightarrow> bool" where
  "tame_name B w \<longleftrightarrow> plain_name w \<and> name_number w \<le> B"

definition tame_groups :: "int \<Rightarrow> 'k live_groups \<Rightarrow> bool" where
  "tame_groups B gs \<longleftrightarrow> proper_groups gs \<and> list_all (\<lambda>g. tame_name B (lg_name g) \<and> toLowerCase (lg_color g) = lg_color g) gs"

fun tame_op :: "int \<Rightarrow> 'k group_op \<Rightarrow> bool" where
  "tame_op B (Group_Create i n c t index) = (tame_name B (js_trim n) \<and> toLowerCase c = c)"
| "tame_op B (Group_Update i n c t) = (pred_option (\<lambda>n. tame_name B (js_trim n)) n \<and> pred_option (\<lambda>c. toLowerCase c = c) c)"
| "tame_op B op = True"

lemma tame_name_mono: "tame_name B w \<Longrightarrow> B \<le> C \<Longrightarrow> tame_name C w"
  by (simp add: tame_name_def)

lemma tame_groups_mono: "tame_groups B gs \<Longrightarrow> B \<le> C \<Longrightarrow> tame_groups C gs"
  by (auto simp: tame_groups_def list_all_iff tame_name_mono)

lemma tame_groups_facts: "tame_groups B gs \<Longrightarrow> proper_groups gs \<and> plain_names gs \<and> small_names B gs"
  by (auto simp: tame_groups_def plain_names_def small_names_def list_all_iff tame_name_def)

lemma tame_op_mono: "tame_op B op \<Longrightarrow> B \<le> C \<Longrightarrow> tame_op C op"
  by (cases op) (auto simp: pred_option_def tame_name_mono)

lemma name_number_trim [simp]: "name_number (js_trim w) = name_number w" "prefix_of (js_trim w) = prefix_of w"
  by (cases "numbered w"; simp add: name_number_def prefix_of_def)+

lemma uniqueGroupName_trim [simp]: "uniqueGroupName (js_trim w) taken = uniqueGroupName w taken"
  by (simp add: uniqueGroupName_prefix)

lemma free_name_joined: "free_name names p n = Some v \<Longrightarrow> 1 \<le> n \<Longrightarrow> \<exists>m. 1 \<le> m \<and> v = join_name p m"
proof -
  assume v: "free_name names p n = Some v" and n: "1 \<le> n"
  have more: "1 \<le> n \<Longrightarrow> 1 \<le> next_number n" for n by (simp add: next_number_def)
  have "1 \<le> n \<longrightarrow> (\<exists>m. 1 \<le> m \<and> v = join_name p m)"
    by (rule free_name.raw_induct [where P = "\<lambda>names p n v. 1 \<le> n \<longrightarrow> (\<exists>m. 1 \<le> m \<and> v = join_name p m)", OF _ v])
      (use more in \<open>auto simp: Let_def split: if_splits\<close>)
  with n show ?thesis by blast
qed

lemma plain_join: "prefix_ok p \<Longrightarrow> 0 \<le> m \<Longrightarrow> plain_name (join_name p m)"
  by (simp add: plain_name_def trim_join numbered_join prefix_ok_def)

lemma uniqueGroupName_tame:
  assumes w: "tame_name B (js_trim w)" and taken: "\<And>t. t \<in> set taken \<Longrightarrow> name_number t \<le> B"
    and B: "1 \<le> B" "B < MAX_COUNTED" and v: "uniqueGroupName w taken = Some v"
  shows "tame_name (B + 1) v"
proof -
  have p: "plain_name (js_trim w)" "name_number w \<le> B" using w by (simp_all add: tame_name_def)
  obtain v' where "uniqueGroupName (js_trim w) taken = Some v'" "name_number v' \<le> max (B + 1) (name_number (js_trim w))"
    using uniqueGroupName_plain [of "js_trim w" taken B, OF p(1) taken B] by metis
  then have n: "name_number v \<le> B + 1" using v p(2) by simp
  have "plain_name v"
  proof (cases "name_key w \<notin> name_key ` set taken")
    case True
    then show ?thesis using v p(1) by (auto simp: uniqueGroupName_prefix)
  next
    case False
    have "1 \<le> highest_number (prefix_of w) taken 1" by (rule highest_number_facts(1)) simp_all
    moreover have "free_name (name_key ` set taken) (prefix_of w) (highest_number (prefix_of w) taken 1) = Some v"
      using v False by (simp add: uniqueGroupName_prefix)
    ultimately obtain m where "1 \<le> m" "v = join_name (prefix_of w) m" using free_name_joined by blast
    then show ?thesis using plain_join [OF plain_prefix [OF p(1)], of m] by simp
  qed
  with n show ?thesis by (simp add: tame_name_def)
qed

section \<open>A batch\<close>

lemma change_group_in: "h \<in> set (change_group i f gs) \<Longrightarrow> h \<in> set gs \<or> (\<exists>g \<in> set gs. h = f g)"
  by (induction gs) (auto split: if_splits)

lemma length_change_group [simp]: "length (change_group i f gs) = length gs"
  by (induction gs) auto

text \<open>Every group left is one that was there, or has been given a tame name and colour.\<close>

lemma apply_op_names:
  assumes tame: "list_all (\<lambda>g. tame_name B (lg_name g) \<and> toLowerCase (lg_color g) = lg_color g) gs"
    and ok: "tame_op B op" and B: "1 \<le> B" "B < MAX_COUNTED" and step: "apply_op gs op = Some hs"
  shows "list_all (\<lambda>g. tame_name (B + 1) (lg_name g) \<and> toLowerCase (lg_color g) = lg_color g) hs"
proof -
  have gs: "\<And>g. g \<in> set gs \<Longrightarrow> tame_name (B + 1) (lg_name g) \<and> name_number (lg_name g) \<le> B \<and> toLowerCase (lg_color g) = lg_color g"
    using tame tame_name_mono [of B _ "B + 1"] by (auto simp: list_all_iff tame_name_def)
  have same: ?thesis if "\<And>h. h \<in> set hs \<Longrightarrow> \<exists>g \<in> set gs. lg_name h = lg_name g \<and> lg_color h = lg_color g"
    using that gs by (force simp: list_all_iff)
  show ?thesis
  proof (cases op)
    case (Group_Create i n c t index)
    show ?thesis
    proof (cases "find_group i gs")
      case None
      then obtain made where made: "uniqueGroupName n (map lg_name gs) = Some made"
        and hs: "hs = insert_group index \<lparr>lg_id = i, lg_name = made, lg_color = c, lg_target = t, lg_stops = []\<rparr> gs"
        using step Group_Create by auto
      have "tame_name (B + 1) made"
        by (rule uniqueGroupName_tame [OF _ _ B made]) (use ok Group_Create gs in auto)
      moreover have "mset hs = add_mset \<lparr>lg_id = i, lg_name = made, lg_color = c, lg_target = t, lg_stops = []\<rparr> (mset gs)"
        by (simp add: hs mset_insert_group)
      then have "set hs = insert \<lparr>lg_id = i, lg_name = made, lg_color = c, lg_target = t, lg_stops = []\<rparr> (set gs)"
        by (metis set_mset_add_mset_insert set_mset_mset)
      ultimately show ?thesis using gs ok Group_Create by (auto simp: list_all_iff)
    qed (use step Group_Create same in auto)
  next
    case (Group_Update i n c t)
    have color: "toLowerCase (lg_color (repaint m c t g)) = lg_color (repaint m c t g)" if "g \<in> set gs" for g m
      using gs [OF that] ok Group_Update by (auto simp: repaint_def split: option.splits)
    consider "hs = gs" | "hs = change_group i (repaint None c t) gs" 
      | wanted made where "n = Some wanted" "uniqueGroupName wanted (namesBesides i gs) = Some made" "hs = change_group i (repaint (Some made) c t) gs"
    proof (cases "find_group i gs = None")
      case False
      show ?thesis
      proof (cases n)
        case None
        then have "hs = change_group i (repaint None c t) gs" using step False by (simp add: Group_Update)
        then show ?thesis by (rule that(2))
      next
        case (Some wanted)
        then obtain made where "uniqueGroupName wanted (namesBesides i gs) = Some made" "hs = change_group i (repaint (Some made) c t) gs"
          using step False by (auto simp: Group_Update)
        then show ?thesis by (rule that(3) [OF Some])
      qed
    next
      case True
      then have "hs = gs" using step by (simp add: Group_Update)
      then show ?thesis by (rule that(1))
    qed
    then show ?thesis
    proof cases
      case 1
      then show ?thesis using same by auto
    next
      case 2
      have "lg_name (repaint None c t g) = lg_name g" for g :: "'a live_group" by (simp add: repaint_def)
      then show ?thesis using 2 gs color by (auto simp: list_all_iff dest!: change_group_in)
    next
      case 3
      have "tame_name (B + 1) made"
        by (rule uniqueGroupName_tame [OF _ _ B 3(2)]) (use ok Group_Update 3(1) gs in \<open>auto simp: namesBesides_def\<close>)
      then have "tame_name (B + 1) (lg_name (repaint (Some made) c t g))" for g :: "'a live_group" by (simp add: repaint_def)
      then show ?thesis using 3(3) gs color by (auto simp: list_all_iff dest!: change_group_in)
    qed
  next
    case (Groups_Order "is")
    have "set (List.map_filter (\<lambda>i. find_group i gs) is) \<subseteq> set gs" for "is"
      by (induction "is") (auto simp: List.map_filter_simps dest!: find_group_Some split: option.splits)
    then have "set (groups_named is gs) \<subseteq> set gs" for "is" by (simp add: groups_named_def)
    then show ?thesis using step Groups_Order by (intro same) (fastforce simp: Let_def)
  next
    case (Stop_Add i s)
    then show ?thesis using step
      by (intro same) (fastforce simp: without_stop_def split: option.splits if_splits dest!: change_group_in)
  next
    case (Stops_Order i ss)
    then show ?thesis using step by (intro same) (fastforce split: if_splits dest!: change_group_in)
  next
    case (Group_Delete i)
    then show ?thesis using step by (intro same) auto
  next
    case (Stop_Remove s)
    then show ?thesis using step by (intro same) (fastforce simp: without_stop_def)
  next
    case (Template_Update n m)
    then show ?thesis using step by (intro same) auto
  qed
qed

lemma apply_tame:
  "tame_groups B gs \<Longrightarrow> list_all (tame_op B) ops \<Longrightarrow> 1 \<le> B \<Longrightarrow> B + int (length ops) \<le> MAX_COUNTED \<Longrightarrow>
   applyGroupOps gs ops = Some hs \<Longrightarrow> tame_groups (B + int (length ops)) hs"
proof (induction ops arbitrary: B gs)
  case (Cons op ops)
  obtain ms where ms: "apply_op gs op = Some ms" "applyGroupOps ms ops = Some hs" using Cons.prems(5) by (auto simp: bind_eq_Some_conv)
  have "tame_groups (B + 1) ms"
    using apply_op_names [OF _ _ _ _ ms(1), of B] apply_op_proper [OF _ ms(1)] Cons.prems by (simp add: tame_groups_def)
  moreover have "list_all (tame_op (B + 1)) ops" using Cons.prems(2) tame_op_mono [of B _ "B + 1"] by (auto simp: list_all_iff)
  ultimately have "tame_groups (B + 1 + int (length ops)) hs" using Cons.IH [of "B + 1" ms] Cons.prems(3,4) ms(2) by simp
  then show ?case by (simp add: algebra_simps)
qed simp

text \<open>A batch as sent and as the server read it do the same, and are as tame.\<close>

lemma schema_op:
  assumes "groupTemplateOpSchema op = Some op'"
  shows "apply_op gs op' = apply_op gs op" "tame_op B op' = tame_op B op"
  using assms by (cases op; auto simp: name_schema_def optional_name_def Let_def split: if_splits option.splits)+

lemma those_map: "those (map f xs) = Some ys \<Longrightarrow> list_all2 (\<lambda>x y. f x = Some y) xs ys"
  by (induction xs arbitrary: ys) (auto split: option.splits)

lemma schema_ops:
  assumes "groupTemplateOpsSchema ops = Some ops'"
  shows "applyGroupOps gs ops' = applyGroupOps gs ops" "list_all (tame_op B) ops' = list_all (tame_op B) ops"
    "length ops' = length ops" "length ops \<le> 500"
proof -
  have all: "list_all2 (\<lambda>op op'. groupTemplateOpSchema op = Some op') ops ops'" and n: "length ops \<le> 500"
    using assms by (auto simp: groupTemplateOpsSchema_def intro: those_map split: if_splits)
  from all have "applyGroupOps gs ops' = applyGroupOps gs ops \<and> list_all (tame_op B) ops' = list_all (tame_op B) ops"
    by (induction arbitrary: gs rule: list_all2_induct) (simp_all add: schema_op)
  then show "applyGroupOps gs ops' = applyGroupOps gs ops" "list_all (tame_op B) ops' = list_all (tame_op B) ops" by simp_all
  show "length ops' = length ops" "length ops \<le> 500" using list_all2_lengthD [OF all] n by simp_all
qed

end
