(* ===== verification/Group_Maker.thy ===== *)
theory Group_Maker
  imports Template_Sync Group_Ops_Tame
begin

text \<open>
  \<open>web/components/planning/group-maker.ts\<close> and the live part of \<open>group-maker-view.tsx\<close>: the Group
  maker draws properties as rows numbered from 2, and what a person sees of a template is its
  groups in row numbers. A property it does not draw is left out of the view and kept on the server.
\<close>

section \<open>Rows and buildings\<close>

text \<open>\<open>makerProperties\<close>: the row of each building listed, and back; of two the last, as \<open>new Map\<close> keeps it.\<close>

definition rowOf :: "string list \<Rightarrow> string \<Rightarrow> int option" where
  "rowOf buildings b = map_of (rev (map (\<lambda>(index, b). (b, int index + 2)) (enumerate 0 buildings))) b"

definition buildingOf :: "string list \<Rightarrow> int \<Rightarrow> string option" where
  "buildingOf buildings r = map_of (rev (map (\<lambda>(index, b). (int index + 2, b)) (enumerate 0 buildings))) r"

definition restop :: "('k list \<Rightarrow> 'l list) \<Rightarrow> 'k live_group \<Rightarrow> 'l live_group" where
  "restop f g = \<lparr>lg_id = lg_id g, lg_name = lg_name g, lg_color = lg_color g, lg_target = lg_target g, lg_stops = f (lg_stops g)\<rparr>"

text \<open>What is drawn, as buildings; and the server's groups as this browser can draw them.\<close>

definition liveGroupsOf :: "(int \<Rightarrow> string option) \<Rightarrow> int live_groups \<Rightarrow> string live_groups" where
  "liveGroupsOf building state = map (restop (List.map_filter building)) state"

definition visibleGroups :: "(string \<Rightarrow> int option) \<Rightarrow> string live_groups \<Rightarrow> string live_groups" where
  "visibleGroups row groups = map (restop (filter (\<lambda>stop. row stop \<noteq> None))) groups"

text \<open>A saved template as groups to edit, and the members that are not drawn with their group.\<close>

definition stateFromTemplate :: "(string \<Rightarrow> int option) \<Rightarrow> string live_groups \<Rightarrow> int live_groups \<times> (string \<times> string) list" where
  "stateFromTemplate row groups =
     (map (restop (List.map_filter row)) groups,
      concat (map (\<lambda>g. map (\<lambda>b. (b, lg_name g)) (filter (\<lambda>b. row b = None) (lg_stops g))) groups))"

section \<open>The view, live\<close>

fun is_template_update :: "'k group_op \<Rightarrow> bool" where
  "is_template_update (Template_Update n m) = True"
| "is_template_update op = False"

definition applyToView :: "(string \<Rightarrow> int option) \<Rightarrow> string group_op list \<Rightarrow> int live_groups \<Rightarrow> int live_groups option" where
  "applyToView row ops state =
     (let rows = mapOpStops (filter (\<lambda>op. \<not> is_template_update op) ops) row
      in if rows = [] then Some state else applyGroupOps state rows)"

definition maker_deps :: "string list \<Rightarrow> (nat \<Rightarrow> string) \<Rightarrow> int live_groups sync_deps" where
  "maker_deps buildings newId =
     \<lparr>sd_view = liveGroupsOf (buildingOf buildings), sd_applyToView = applyToView (rowOf buildings),
      sd_visible = visibleGroups (rowOf buildings), sd_newId = newId\<rparr>"

text \<open>
  What this person did, from the groups before and after it; \<open>minutes\<close> when the minutes changed.
  The panel's buttons make their operations to the view themselves.
\<close>

definition onViewChange :: "'v sync_deps \<Rightarrow> int option \<Rightarrow> 'v \<Rightarrow> 'v template_sync \<Rightarrow> 'v template_sync option" where
  "onViewChange D minutes snapshot s =
     map_option (\<lambda>ops.
         local D ((case minutes of None \<Rightarrow> [] | Some m \<Rightarrow> if 5 \<le> m \<and> m \<le> 240 then [Template_Update None (Some m)] else []) @ ops)
           (s\<lparr>ts_view := snapshot\<rparr>))
       (diffGroupOps (sd_view D (ts_view s)) (sd_view D snapshot))"

definition applyFromPanel :: "'v sync_deps \<Rightarrow> string group_op list \<Rightarrow> 'v template_sync \<Rightarrow> 'v template_sync option" where
  "applyFromPanel D ops s =
     map_option (\<lambda>v. local D ops (s\<lparr>ts_view := v\<rparr>)) (sd_applyToView D ops (ts_view s))"

section \<open>Another name for the stops\<close>

lemma restop_simps [simp]:
  "lg_id (restop f g) = lg_id g" "lg_name (restop f g) = lg_name g" "lg_color (restop f g) = lg_color g"
  "lg_target (restop f g) = lg_target g" "lg_stops (restop f g) = f (lg_stops g)"
  by (simp_all add: restop_def)

lemma restop_eq: "restop f g = restop h g' \<longleftrightarrow> lg_id g = lg_id g' \<and> lg_name g = lg_name g' \<and> lg_color g = lg_color g' \<and>
    lg_target g = lg_target g' \<and> f (lg_stops g) = h (lg_stops g')"
  by (simp add: restop_def)

definition stops_in :: "'k set \<Rightarrow> 'k live_groups \<Rightarrow> bool" where
  "stops_in S gs \<longleftrightarrow> (\<forall>g \<in> set gs. set (lg_stops g) \<subseteq> S)"

lemma stops_in_simps [simp]:
  "stops_in S [] = True" "stops_in S (g # gs) = (set (lg_stops g) \<subseteq> S \<and> stops_in S gs)"
  "stops_in S (gs @ hs) = (stops_in S gs \<and> stops_in S hs)"
  by (auto simp: stops_in_def)

lemma find_restop: "find_group i (map (restop f) gs) = map_option (restop f) (find_group i gs)"
  by (induction gs) (simp_all add: find_group_def)

lemma change_restop:
  "(\<And>g. g \<in> set gs \<Longrightarrow> restop f (h g) = h' (restop f g)) \<Longrightarrow>
   change_group i h' (map (restop f) gs) = map (restop f) (change_group i h gs)"
  by (induction gs) simp_all

lemma filter_map_inj: "inj_on f S \<Longrightarrow> set xs \<subseteq> S \<Longrightarrow> s \<in> S \<Longrightarrow> filter (\<lambda>t. t \<noteq> f s) (map f xs) = map f (filter (\<lambda>t. t \<noteq> s) xs)"
  by (induction xs) (auto simp: inj_on_def)

lemma uniq_map_inj: "inj_on f (set xs) \<Longrightarrow> uniq (map f xs) = map f (uniq xs)"
proof (induction xs)
  case (Cons x xs)
  have "filter (\<lambda>t. t \<noteq> f x) (map f (uniq xs)) = map f (filter (\<lambda>t. t \<noteq> x) (uniq xs))"
    by (rule filter_map_inj [OF Cons.prems]) auto
  with Cons show ?case by simp
qed simp

lemma named_first_map:
  assumes inj: "inj_on f S" and S: "set ss \<subseteq> S" "set xs \<subseteq> S"
  shows "named_first (map f ss) (map f xs) = map f (named_first ss xs)"
proof -
  have in_map: "f x \<in> f ` set ys \<longleftrightarrow> x \<in> set ys" if "x \<in> S" "set ys \<subseteq> S" for x ys
    using inj that by (auto simp: inj_on_def)
  have u: "uniq (map f ss) = map f (uniq ss)" by (rule uniq_map_inj [OF inj_on_subset [OF inj S(1)]])
  have named: "filter (\<lambda>x. x \<in> set (map f xs)) (uniq (map f ss)) = map f (filter (\<lambda>x. x \<in> set xs) (uniq ss))"
    using S in_map [OF _ S(2)] by (auto simp: u filter_map intro!: arg_cong [where f = "map f"] filter_cong)
  have sub: "set (filter (\<lambda>x. x \<in> set xs) (uniq ss)) \<subseteq> S" using S by auto
  have "filter (\<lambda>x. x \<notin> set (map f (filter (\<lambda>x. x \<in> set xs) (uniq ss)))) (map f xs) =
      map f (filter (\<lambda>x. x \<notin> set (filter (\<lambda>x. x \<in> set xs) (uniq ss))) xs)"
    using S in_map [OF _ sub] by (auto simp: filter_map simp del: set_filter intro!: arg_cong [where f = "map f"] filter_cong)
  then show ?thesis unfolding named_first_def Let_def named by simp
qed

abbreviation restops :: "('k \<Rightarrow> 'l) \<Rightarrow> 'k live_groups \<Rightarrow> 'l live_groups" where
  "restops f \<equiv> map (restop (map f))"

lemma apply_op_restop:
  assumes inj: "inj_on f S" and S: "stops_in S gs" "set_group_op op \<subseteq> S"
  shows "apply_op (restops f gs) (map_group_op f op) = map_option (restops f) (apply_op gs op)"
proof (cases op)
  case (Group_Create i n c t index)
  have "map (restop (map f)) (insert_group index \<lparr>lg_id = i, lg_name = made, lg_color = c, lg_target = t, lg_stops = []\<rparr> gs) =
      insert_group index \<lparr>lg_id = i, lg_name = made, lg_color = c, lg_target = t, lg_stops = []\<rparr> (restops f gs)" for made
    by (cases index) (simp_all add: insert_group_def Let_def take_map drop_map restop_def)
  then show ?thesis by (simp add: Group_Create find_restop option.map_comp comp_def)
next
  case (Group_Update i n c t)
  have names: "namesBesides i (restops f gs) = namesBesides i gs" by (simp add: namesBesides_def filter_map comp_def)
  have "change_group i (repaint m c t) (restops f gs) = restops f (change_group i (repaint m c t) gs)" for m
    by (rule change_restop) (simp add: repaint_def restop_def split: option.split)
  then show ?thesis by (cases n) (simp_all add: Group_Update find_restop names option.map_comp comp_def)
next
  case (Group_Delete i)
  then show ?thesis by (simp add: filter_map comp_def)
next
  case (Groups_Order "is")
  have "List.map_filter (\<lambda>i. find_group i (restops f gs)) js = restops f (List.map_filter (\<lambda>i. find_group i gs) js)" for js
    by (induction js) (auto simp: List.map_filter_simps find_restop split: option.splits)
  then have "groups_named is (restops f gs) = restops f (groups_named is gs)" by (simp add: groups_named_def)
  then show ?thesis by (simp add: Groups_Order Let_def filter_map comp_def image_image)
next
  case (Stop_Add i s)
  have s: "s \<in> S" using S(2) Stop_Add by simp
  have w: "without_stop (f s) (restops f gs) = restops f (without_stop s gs)"
    using S(1) filter_map_inj [OF inj _ s] by (auto simp: without_stop_def restop_def stops_in_def)
  have c: "change_group i (\<lambda>g. g\<lparr>lg_stops := lg_stops g @ [f s]\<rparr>) (restops f hs) =
      restops f (change_group i (\<lambda>g. g\<lparr>lg_stops := lg_stops g @ [s]\<rparr>) hs)" for hs
    by (rule change_restop) (simp add: restop_def)
  have "f s \<in> f ` set (lg_stops g) \<longleftrightarrow> s \<in> set (lg_stops g)" if "find_group i gs = Some g" for g
    using find_group_Some [OF that] S(1) s inj by (auto simp: stops_in_def inj_on_def)
  then show ?thesis
    by (cases "find_group i gs") (simp_all add: Stop_Add find_restop w c)
next
  case (Stop_Remove s)
  then show ?thesis using S(1) filter_map_inj [OF inj, of _ s] S(2)
    by (auto simp: without_stop_def restop_def stops_in_def)
next
  case (Stops_Order i ss)
  have "change_group i (\<lambda>g. g\<lparr>lg_stops := named_first (map f ss) (lg_stops g)\<rparr>) (restops f gs) =
      restops f (change_group i (\<lambda>g. g\<lparr>lg_stops := named_first ss (lg_stops g)\<rparr>) gs)"
    by (rule change_restop) (use S named_first_map [OF inj, of ss] in \<open>auto simp: restop_def stops_in_def Stops_Order\<close>)
  then show ?thesis by (simp add: Stops_Order find_restop)
qed simp

lemma apply_op_stops:
  assumes S: "stops_in S gs" "set_group_op op \<subseteq> S" and step: "apply_op gs op = Some hs"
  shows "stops_in S hs"
proof (cases op)
  case (Group_Create i n c t index)
  have "set (insert_group index made gs) = insert made (set gs)" for made
    by (metis mset_insert_group set_mset_add_mset_insert set_mset_mset)
  then show ?thesis using S(1) step Group_Create by (cases "find_group i gs") (auto simp: stops_in_def)
next
  case (Group_Update i n c t)
  have "stops_in S (change_group i (repaint m c t) gs)" for m
    using S(1) by (fastforce simp: stops_in_def repaint_def dest!: change_group_in)
  then show ?thesis using S(1) step Group_Update by (cases n) (auto split: if_splits)
next
  case (Groups_Order "is")
  have "set (List.map_filter (\<lambda>i. find_group i gs) js) \<subseteq> set gs" for js
    by (induction js) (auto simp: List.map_filter_simps dest!: find_group_Some split: option.splits)
  then have "set (groups_named is gs) \<subseteq> set gs" by (simp add: groups_named_def)
  then have "set hs \<subseteq> set gs" using step Groups_Order by (auto simp: Let_def)
  with S(1) show ?thesis by (auto simp: stops_in_def)
next
  case (Stop_Add i s)
  then show ?thesis using S step
    by (auto simp: stops_in_def without_stop_def split: option.splits if_splits dest!: change_group_in) force+
next
  case (Stops_Order i ss)
  have "set (named_first ss xs) \<subseteq> set xs" for xs by (auto simp: named_first_def Let_def)
  then show ?thesis using S step Stops_Order by (fastforce simp: stops_in_def split: if_splits dest!: change_group_in)
qed (use S step in \<open>fastforce simp: stops_in_def without_stop_def\<close>)+

lemma apply_ops_restop:
  assumes "inj_on f S" "stops_in S gs" "\<forall>op \<in> set ops. set_group_op op \<subseteq> S"
  shows "applyGroupOps (restops f gs) (map (map_group_op f) ops) = map_option (restops f) (applyGroupOps gs ops) \<and>
    (\<forall>hs. applyGroupOps gs ops = Some hs \<longrightarrow> stops_in S hs)"
  using assms(2,3)
proof (induction ops arbitrary: gs)
  case (Cons op ops)
  have op: "set_group_op op \<subseteq> S" using Cons.prems(2) by simp
  note one = apply_op_restop [OF assms(1) Cons.prems(1) op]
  show ?case
  proof (cases "apply_op gs op")
    case (Some ms)
    have "stops_in S ms" by (rule apply_op_stops [OF Cons.prems(1) op Some])
    from Cons.IH [OF this] Cons.prems(2) show ?thesis by (simp add: one Some)
  qed (simp add: one)
qed simp

section \<open>The operations of a difference\<close>

definition all_stops :: "'k live_groups \<Rightarrow> 'k set" where
  "all_stops gs = (\<Union>g \<in> set gs. set (lg_stops g))"

lemma homes_stops:
  fixes gs :: "'k live_groups"
  shows "fst ` set (stop_homes gs) = all_stops gs"
proof -
  have one: "fst ` set (foldl (\<lambda>m s. AList.update s v m) m ss) = fst ` set m \<union> set ss" for m :: "('k \<times> string) list" and ss v
    by (induction ss arbitrary: m) (auto simp: dom_update)
  have "fst ` set (foldl (\<lambda>m g. foldl (\<lambda>m s. AList.update s (lg_id g) m) m (lg_stops g)) m gs) = fst ` set m \<union> all_stops gs" for m :: "('k \<times> string) list"
    by (induction gs arbitrary: m) (auto simp: one all_stops_def)
  then show ?thesis by (simp add: stop_homes_def)
qed

lemma rename_rounds_all:
  "rename_rounds n before after ops = Some ops' \<Longrightarrow> list_all P ops \<Longrightarrow> (\<And>g. P (rename_again g)) \<Longrightarrow> list_all P ops'"
proof (induction n arbitrary: ops)
  case (Suc n)
  then obtain reached where r: "applyGroupOps before ops = Some reached"
    and step: "(if misnamed reached after = [] then Some ops
      else rename_rounds n before after (ops @ map rename_again (misnamed reached after))) = Some ops'"
    by (auto simp: bind_eq_Some_conv Let_def)
  have "list_all P (ops @ map rename_again (misnamed reached after))" using Suc.prems(2,3) by (auto simp: list_all_iff)
  then show ?case using Suc.IH [OF _ _ Suc.prems(3)] Suc.prems(2) step by (auto split: if_splits)
qed simp

lemma diff_ops:
  assumes "diffGroupOps before after = Some ops"
  shows "list_all (\<lambda>op. set_group_op op \<subseteq> all_stops before \<union> all_stops after \<and> \<not> is_template_update op) ops"
proof -
  let ?P = "\<lambda>op. set_group_op op \<subseteq> all_stops before \<union> all_stops after \<and> \<not> is_template_update op"
  obtain renamed reached reached' where r: "rename_rounds 3 before after (diff_fields before after) = Some renamed"
    and ops: "ops = (renamed @ diff_removes before after @ diff_adds before after) @ diff_orders reached after @ diff_group_order reached' after"
    using assms by (auto simp: diffGroupOps_def Let_def bind_eq_Some_conv)
  have "list_all ?P (diff_fields before after)"
    by (auto simp: list_all_iff diff_fields_def diff_deletes_def diff_creates_def diff_update_def Let_def split: option.splits if_splits)
  then have "list_all ?P renamed" by (rule rename_rounds_all [OF r]) (simp add: rename_again_def)
  moreover have "list_all ?P (diff_removes before after)"
    using homes_stops [of before] by (force simp: list_all_iff diff_removes_def)
  moreover have "list_all ?P (diff_adds before after)" "list_all ?P (diff_orders reached after)" "list_all ?P (diff_group_order reached' after)"
    by (auto simp: list_all_iff diff_adds_def diff_orders_def diff_group_order_def all_stops_def)
  ultimately show ?thesis by (simp add: ops)
qed

section \<open>What the engine needs of a view\<close>

text \<open>
  The interface of \<open>TemplateSync\<close>: what its operations do to what a person sees. Operations made to
  the view leave a tame one, and those of a difference to a target that can be shown reach it.
\<close>

locale live_view =
  fixes D :: "'v sync_deps" and ok :: "'v \<Rightarrow> bool"
  assumes stays: "ok v \<Longrightarrow> sd_applyToView D ops v = Some v' \<Longrightarrow> ok v'"
    and keeps: "ok v \<Longrightarrow> tame_groups B (sd_view D v) \<Longrightarrow> list_all (tame_op B) ops \<Longrightarrow> 1 \<le> B \<Longrightarrow>
      B + int (length ops) \<le> MAX_COUNTED \<Longrightarrow> sd_applyToView D ops v = Some v' \<Longrightarrow>
      tame_groups (B + int (length ops)) (sd_view D v')"
    and reaches: "ok v \<Longrightarrow> applyGroupOps (sd_view D v) ops = Some (sd_visible D gs) \<Longrightarrow>
      diffGroupOps (sd_view D v) (sd_visible D gs) = Some ops \<Longrightarrow>
      \<exists>v'. sd_applyToView D ops v = Some v' \<and> ok v' \<and> sd_view D v' = sd_visible D gs"
    and shown: "tame_groups B gs \<Longrightarrow> tame_groups B (sd_visible D gs) \<and> length (sd_visible D gs) = length gs"

text \<open>A view brought to what the server holds, as far as it can be shown, is exactly that.\<close>

lemma sameGroups_eq: "sameGroups gs hs \<longleftrightarrow> gs = hs"
proof
  show "sameGroups gs hs \<Longrightarrow> gs = hs"
  proof (induction gs arbitrary: hs)
    case (Cons g gs)
    then show ?case by (cases hs) (auto simp: sameGroups_def intro: live_group.equality)
  qed (simp add: sameGroups_def)
  show "gs = hs \<Longrightarrow> sameGroups gs hs" by (induction gs arbitrary: hs) (auto simp: sameGroups_def)
qed

context live_view
begin

lemma brought:
  assumes v: "ok (ts_view s)" "tame_groups B (sd_view D (ts_view s))" and gs: "tame_groups B gs"
    and B: "1 \<le> B" "B + 4 * int (length gs) \<le> 2 ^ 53" and s': "bring_view D (sd_visible D gs) s = Some s'"
  shows "\<exists>v'. s' = s\<lparr>ts_view := v'\<rparr> \<and> ok v' \<and> sd_view D v' = sd_visible D gs"
proof (cases "sd_view D (ts_view s) = sd_visible D gs")
  case True
  then show ?thesis using s' v(1) by (intro exI [of _ "ts_view s"]) (simp add: bring_view_def sameGroups_eq Let_def)
next
  case False
  let ?a = "sd_view D (ts_view s)" let ?b = "sd_visible D gs"
  have b: "tame_groups B ?b" "length ?b = length gs" using shown [OF gs] by blast+
  have "Option.bind (diffGroupOps ?a ?b) (applyGroupOps ?a) = Some ?b"
    using tame_groups_facts [OF v(2)] tame_groups_facts [OF b(1)] B b(2) by (intro diff_apply) simp_all
  then obtain ops where ops: "diffGroupOps ?a ?b = Some ops" "applyGroupOps ?a ops = Some ?b" by (auto simp: bind_eq_Some_conv)
  from reaches [OF v(1) ops(2,1)] obtain v' where "sd_applyToView D ops (ts_view s) = Some v'" "ok v'" "sd_view D v' = ?b" by blast
  then show ?thesis using s' False ops(1) by (auto simp: bring_view_def sameGroups_eq Let_def)
qed

end

section \<open>The maker's view is one\<close>

lemma map_of_rev: "distinct (map fst xs) \<Longrightarrow> map_of (rev xs) = map_of xs"
proof
  fix k assume d: "distinct (map fst xs)"
  then have d': "distinct (map fst (rev xs))" by (simp add: rev_map [symmetric])
  show "map_of (rev xs) k = map_of xs k"
  proof (cases "map_of xs k")
    case None
    then have "map_of (rev xs) k = None" by (simp add: map_of_eq_None_iff)
    with None show ?thesis by simp
  next
    case (Some v)
    then have "(k, v) \<in> set (rev xs)" by (simp add: map_of_SomeD)
    with map_of_is_SomeI [OF d'] Some show ?thesis by simp
  qed
qed

lemma row_building: "distinct bs \<Longrightarrow> rowOf bs b = Some r \<longleftrightarrow> buildingOf bs r = Some b"
proof -
  assume d: "distinct bs"
  let ?e = "enumerate 0 bs"
  have "map fst (map (\<lambda>(i, b). (b, int i + 2)) ?e) = bs" by (simp add: comp_def case_prod_beta)
  then have 1: "distinct (map fst (map (\<lambda>(i, b). (b, int i + 2)) ?e))" using d by (simp only:)
  have "map fst (map (\<lambda>(i, b). (int i + 2, b)) ?e) = map (\<lambda>i. int i + 2) [0..<length bs]"
    by (rule nth_equalityI) (simp_all add: nth_enumerate_eq case_prod_beta)
  then have 2: "distinct (map fst (map (\<lambda>(i, b). (int i + 2, b)) ?e))"
    by (simp add: distinct_map inj_on_def)
  have "rowOf bs b = Some r \<longleftrightarrow> (b, r) \<in> set (map (\<lambda>(i, b). (b, int i + 2)) ?e)"
    unfolding rowOf_def map_of_rev [OF 1] by (rule map_of_eq_Some_iff [OF 1])
  also have "\<dots> \<longleftrightarrow> (r, b) \<in> set (map (\<lambda>(i, b). (int i + 2, b)) ?e)" by auto
  also have "\<dots> \<longleftrightarrow> buildingOf bs r = Some b"
    unfolding buildingOf_def map_of_rev [OF 2] by (rule map_of_eq_Some_iff [OF 2, symmetric])
  finally show ?thesis .
qed

definition drawn :: "string list \<Rightarrow> int live_groups \<Rightarrow> bool" where
  "drawn bs v \<longleftrightarrow> stops_in (dom (buildingOf bs)) v"

abbreviation building :: "string list \<Rightarrow> int \<Rightarrow> string" where
  "building bs r \<equiv> the (buildingOf bs r)"

lemma live_restops: "drawn bs v \<Longrightarrow> liveGroupsOf (buildingOf bs) v = restops (building bs) v"
proof -
  have "List.map_filter (buildingOf bs) xs = map (building bs) xs" if "set xs \<subseteq> dom (buildingOf bs)" for xs
    using that by (induction xs) (auto simp: List.map_filter_simps)
  then show "drawn bs v \<Longrightarrow> ?thesis" by (auto simp: liveGroupsOf_def drawn_def stops_in_def restop_def)
qed

lemma building_inj: "distinct bs \<Longrightarrow> inj_on (building bs) (dom (buildingOf bs))"
  by (auto simp: inj_on_def) (metis option.inject row_building)

text \<open>A batch to the view: its operations in rows, those on what is not drawn left out.\<close>

lemma map_op_rows:
  assumes "distinct bs"
  shows "\<forall>r \<in> set (map_op (rowOf bs) op). set_group_op r \<subseteq> dom (buildingOf bs)"
    "length (map_op (rowOf bs) op) \<le> 1" "tame_op B op \<Longrightarrow> list_all (\<lambda>r. tame_op B (map_group_op (building bs) r)) (map_op (rowOf bs) op)"
    "set_group_op op \<subseteq> dom (rowOf bs) \<Longrightarrow> map (map_group_op (building bs)) (map_op (rowOf bs) op) = [op]"
proof -
  have row: "rowOf bs b = Some r \<Longrightarrow> buildingOf bs r = Some b" for b r using row_building [OF assms] by blast
  have "set (List.map_filter (rowOf bs) ss) \<subseteq> dom (buildingOf bs)" for ss
    by (induction ss) (auto simp: List.map_filter_simps dest: row split: option.splits)
  then show "\<forall>r \<in> set (map_op (rowOf bs) op). set_group_op r \<subseteq> dom (buildingOf bs)"
    by (cases op) (auto dest: row [OF sym] split: option.splits)
  show "length (map_op (rowOf bs) op) \<le> 1" by (cases op) (auto split: option.splits)
  show "tame_op B op \<Longrightarrow> list_all (\<lambda>r. tame_op B (map_group_op (building bs) r)) (map_op (rowOf bs) op)"
    by (cases op) (auto split: option.splits)
  have "map (building bs) (List.map_filter (rowOf bs) ss) = ss" if "set ss \<subseteq> dom (rowOf bs)" for ss
    using that by (induction ss) (fastforce simp: List.map_filter_simps dest: row)+
  then show "set_group_op op \<subseteq> dom (rowOf bs) \<Longrightarrow> map (map_group_op (building bs)) (map_op (rowOf bs) op) = [op]"
    by (cases op) (fastforce dest: row)+
qed

text \<open>What a batch does to what the person sees.\<close>

lemma applyToView_eq: "applyToView row ops state = applyGroupOps state (mapOpStops (filter (\<lambda>op. \<not> is_template_update op) ops) row)"
  by (simp add: applyToView_def Let_def)

lemma view_after:
  assumes bs: "distinct bs" and v: "drawn bs v" and step: "applyToView (rowOf bs) ops v = Some v'"
  defines "rows \<equiv> mapOpStops (filter (\<lambda>op. \<not> is_template_update op) ops) (rowOf bs)"
  shows "drawn bs v'"
    "applyGroupOps (liveGroupsOf (buildingOf bs) v) (map (map_group_op (building bs)) rows) = Some (liveGroupsOf (buildingOf bs) v')"
proof -
  have "\<forall>r \<in> set rows. set_group_op r \<subseteq> dom (buildingOf bs)"
    using map_op_rows(1) [OF bs] by (auto simp: rows_def mapOpStops_def)
  note moved = apply_ops_restop [OF building_inj [OF bs] v [unfolded drawn_def] this]
  have "applyGroupOps v rows = Some v'" using step by (simp add: applyToView_eq rows_def)
  with moved show "drawn bs v'" by (simp add: drawn_def)
  with moved \<open>applyGroupOps v rows = Some v'\<close> v
  show "applyGroupOps (liveGroupsOf (buildingOf bs) v) (map (map_group_op (building bs)) rows) = Some (liveGroupsOf (buildingOf bs) v')"
    by (simp add: live_restops)
qed

lemma rows_tame:
  assumes bs: "distinct bs" and ops: "list_all (tame_op B) ops"
  defines "rows \<equiv> mapOpStops (filter (\<lambda>op. \<not> is_template_update op) ops) (rowOf bs)"
  shows "list_all (tame_op B) (map (map_group_op (building bs)) rows)" "length rows \<le> length ops"
  unfolding rows_def using ops
proof (induction ops)
  case (Cons op ops)
  case 1
  then show ?case using Cons.IH(1) map_op_rows(3) [OF bs] by (auto simp: mapOpStops_def list_all_iff)
  case 2
  then show ?case using Cons.IH(2) map_op_rows(2) [OF bs, of op] 2 by (auto simp: mapOpStops_def)
qed (simp_all add: mapOpStops_def)

lemma visible_facts:
  "tame_groups B gs \<Longrightarrow> tame_groups B (visibleGroups row gs)" "length (visibleGroups row gs) = length gs"
  "all_stops (visibleGroups row gs) \<subseteq> dom row"
proof -
  have "concat (map lg_stops (visibleGroups row gs)) = filter (\<lambda>stop. row stop \<noteq> None) (concat (map lg_stops gs))"
    by (induction gs) (simp_all add: visibleGroups_def)
  then have "distinct (concat (map lg_stops gs)) \<Longrightarrow> distinct (concat (map lg_stops (visibleGroups row gs)))" by simp
  then show "tame_groups B gs \<Longrightarrow> tame_groups B (visibleGroups row gs)"
    by (auto simp: tame_groups_def proper_groups_def list_all_iff comp_def visibleGroups_def simp del: distinct_concat_iff map_map) (simp_all add: comp_def)
qed (auto simp: visibleGroups_def all_stops_def)

lemma maker_deps_simps [simp]:
  "sd_view (maker_deps bs newId) = liveGroupsOf (buildingOf bs)" "sd_applyToView (maker_deps bs newId) = applyToView (rowOf bs)"
  "sd_visible (maker_deps bs newId) = visibleGroups (rowOf bs)" "sd_newId (maker_deps bs newId) = newId"
  by (simp_all add: maker_deps_def)

lemma maker_keeps:
  assumes "distinct bs" "drawn bs v" "tame_groups B (liveGroupsOf (buildingOf bs) v)" "list_all (tame_op B) ops" "1 \<le> B"
    "B + int (length ops) \<le> MAX_COUNTED" "applyToView (rowOf bs) ops v = Some v'"
  shows "drawn bs v' \<and> tame_groups (B + int (length ops)) (liveGroupsOf (buildingOf bs) v')"
proof -
  define rows where "rows = mapOpStops (filter (\<lambda>op. \<not> is_template_update op) ops) (rowOf bs)"
  note r = rows_tame [OF assms(1,4), folded rows_def]
  note after = view_after [OF assms(1,2,7), folded rows_def]
  have "tame_groups (B + int (length rows)) (liveGroupsOf (buildingOf bs) v')"
    using apply_tame [OF assms(3) r(1) assms(5) _ after(2)] r(2) assms(6) by simp
  with after(1) r(2) show ?thesis using tame_groups_mono [of "B + int (length rows)" _ "B + int (length ops)"] by simp
qed

lemma drawn_stops: "distinct bs \<Longrightarrow> drawn bs v \<Longrightarrow> all_stops (liveGroupsOf (buildingOf bs) v) \<subseteq> dom (rowOf bs)"
proof -
  assume bs: "distinct bs" and v: "drawn bs v"
  have "building bs r \<in> dom (rowOf bs)" if "r \<in> dom (buildingOf bs)" for r
  proof -
    from that obtain b where b: "buildingOf bs r = Some b" by blast
    then have "rowOf bs b = Some r" using row_building [OF bs] by blast
    with b show ?thesis by (simp add: domI)
  qed
  moreover have "r \<in> dom (buildingOf bs)" if "r \<in> all_stops v" for r
    using that v by (auto simp: all_stops_def drawn_def stops_in_def)
  moreover have "all_stops (restops (building bs) v) = building bs ` all_stops v" by (simp add: all_stops_def image_UN)
  ultimately show ?thesis unfolding live_restops [OF v] by (simp add: image_subset_iff)
qed

lemma rows_back:
  assumes "distinct bs" "\<forall>op \<in> set ops. set_group_op op \<subseteq> dom (rowOf bs) \<and> \<not> is_template_update op"
  shows "map (map_group_op (building bs)) (mapOpStops (filter (\<lambda>op. \<not> is_template_update op) ops) (rowOf bs)) = ops"
  using assms(2)
proof (induction ops)
  case (Cons op ops)
  then show ?case using map_op_rows(4) [OF assms(1), of op] by (simp add: mapOpStops_def)
qed (simp add: mapOpStops_def)

lemma maker_reaches:
  assumes bs: "distinct bs" and v: "drawn bs v" and reach: "applyGroupOps (liveGroupsOf (buildingOf bs) v) ops = Some (visibleGroups (rowOf bs) gs)"
    and diff: "diffGroupOps (liveGroupsOf (buildingOf bs) v) (visibleGroups (rowOf bs) gs) = Some ops"
  shows "\<exists>v'. applyToView (rowOf bs) ops v = Some v' \<and> drawn bs v' \<and> liveGroupsOf (buildingOf bs) v' = visibleGroups (rowOf bs) gs"
proof -
  have "\<forall>op \<in> set ops. set_group_op op \<subseteq> dom (rowOf bs) \<and> \<not> is_template_update op"
    using diff_ops [OF diff] drawn_stops [OF bs v] visible_facts(3) [of "rowOf bs" gs] by (fastforce simp: list_all_iff)
  note same = rows_back [OF bs this]
  let ?rows = "mapOpStops (filter (\<lambda>op. \<not> is_template_update op) ops) (rowOf bs)"
  have "\<forall>r \<in> set ?rows. set_group_op r \<subseteq> dom (buildingOf bs)" using map_op_rows(1) [OF bs] by (auto simp: mapOpStops_def)
  note moved = apply_ops_restop [OF building_inj [OF bs] v [unfolded drawn_def] this]
  have "\<exists>v'. applyGroupOps v ?rows = Some v'" using moved reach same live_restops [OF v] by auto
  then obtain v' where "applyToView (rowOf bs) ops v = Some v'" unfolding applyToView_eq ..
  then show ?thesis using view_after [OF bs v] reach same by fastforce
qed

interpretation maker_view: live_view "maker_deps bs newId" "\<lambda>v. distinct bs \<and> drawn bs v" for bs newId
  by unfold_locales (auto dest: maker_keeps maker_reaches view_after(1) simp: visible_facts)

end
