(* ===== verification/Template_Service.thy ===== *)
theory Template_Service
  imports Group_Ops_Proper Day_Paths
begin

text \<open>
  \<open>backend/src/planning/group-template.service.ts\<close>: the office's group templates on the server.
  Saving a template replaces its groups when nobody else changed it meanwhile; a batch of live
  edits is applied on top of whatever it holds. The database is a record of rows. A transaction
  is one step, with the audit row and the message that follow it: what it did is undone when it
  throws, so an error leaves the rows as they were.
\<close>

section \<open>Rows\<close>

record template_user =
  us_id :: string
  us_org :: string
  us_name :: string
  us_machine :: bool
  us_client :: "string option"

record group_input =
  gi_id :: "string option"
  gi_name :: string
  gi_color :: string
  gi_target :: int
  gi_buildings :: "string list"

record template_input =
  ti_name :: string
  ti_minutes :: "int option"
  ti_groups :: "group_input list"
  ti_revision :: "int option"

text \<open>The groups are kept in the order of their position, each group's members in theirs.\<close>

record template_row =
  tr_id :: string
  tr_org :: string
  tr_name :: string
  tr_minutes :: int
  tr_active :: bool
  tr_revision :: int
  tr_archived :: "millis option"
  tr_groups :: "string live_groups"
  tr_updatedBy :: "string option"

record tenancy_row =
  tn_org :: string
  tn_active :: bool
  tn_building :: "string option"
  tn_zone :: "string option"
  tn_enrolment :: "string option"

datatype template_action = TEMPLATE_CREATED | TEMPLATE_SAVED | TEMPLATE_EDITED | TEMPLATE_ACTIVATED | TEMPLATE_DEACTIVATED | TEMPLATE_WAS_ARCHIVED

record audit_row =
  ad_org :: string
  ad_user :: "string option"
  ad_client :: "string option"
  ad_action :: template_action
  ad_template :: string
  ad_at :: millis

datatype replaced_reason = SAVED | ARCHIVED | ACTIVATED

text \<open>What the gateway tells everyone with a template open.\<close>

datatype template_event =
    Ops_Event string int string "string group_op list" string
  | Replaced_Event string int replaced_reason string

text \<open>\<open>setActive\<close> between the read that lets it go on and its transaction.\<close>

record activation =
  av_user :: template_user
  av_template :: string
  av_active :: bool

record template_db =
  td_templates :: "template_row list"
  td_buildings :: "(string \<times> string) list"
  td_tenancies :: "tenancy_row list"
  td_audit :: "audit_row list"
  td_events :: "template_event list"
  td_activating :: "activation list"

datatype template_error =
    TEMPLATE_NOT_FOUND
  | TEMPLATE_REVISION_REQUIRED
  | TEMPLATE_ARCHIVED
  | TEMPLATE_CHANGED
  | INVALID_GROUP_TEMPLATE string
  | INVALID_GROUP_TEMPLATE_OPS
  | UNKNOWN_PROPERTY
  | NOT_IN_PACKAGE_ZONE nat
  | UNIQUE_VIOLATION

section \<open>What is wrong with a template\<close>

definition MAX_TEMPLATE_GROUPS :: nat where "MAX_TEMPLATE_GROUPS = 200"
definition EDIT_AUDIT_WINDOW_MS :: millis where "EDIT_AUDIT_WINDOW_MS = 10 * 60 * 1000"

fun building_problem :: "string \<Rightarrow> string list \<Rightarrow> (string \<rightharpoonup> string) \<Rightarrow> string + (string \<rightharpoonup> string)" where
  "building_problem groupName [] seen = Inr seen"
| "building_problem groupName (b # bs) seen =
     (case seen b of
        Some other \<Rightarrow>
          Inl (if other = groupName then groupName @ '' lists one property twice.''
               else ''One property is in both '' @ other @ '' and '' @ groupName @ ''; a property is in one group.'')
      | None \<Rightarrow> building_problem groupName bs (seen(b \<mapsto> groupName)))"

fun group_problems :: "group_input list \<Rightarrow> (string \<rightharpoonup> string) \<Rightarrow> string option" where
  "group_problems [] seen = None"
| "group_problems (g # gs) seen =
     (if js_trim (gi_name g) = [] then Some ''Every group needs a name.''
      else if \<not> is_color (gi_color g) then Some (gi_name g @ CHR 0x27 # ''s colour must be written as #rrggbb.'')
      else if MAX_STOPS_PER_DAY < length (gi_buildings g) then
        Some (gi_name g @ '' has '' @ string_of_int (int (length (gi_buildings g))) @ '' properties; a day holds at most '' @
          string_of_int (int MAX_STOPS_PER_DAY) @ ''.'')
      else case building_problem (gi_name g) (gi_buildings g) seen of
        Inl problem \<Rightarrow> Some problem
      | Inr seen \<Rightarrow> group_problems gs seen)"

definition templateProblem :: "template_input \<Rightarrow> string option" where
  "templateProblem input =
     (if js_trim (ti_name input) = [] then Some ''Give the template a name.''
      else if MAX_TEMPLATE_GROUPS < length (ti_groups input) then
        Some (''A template holds at most '' @ string_of_int (int MAX_TEMPLATE_GROUPS) @ '' groups.'')
      else group_problems (ti_groups input) Map.empty)"

section \<open>Reading\<close>

definition template_of :: "template_db \<Rightarrow> string \<Rightarrow> string \<Rightarrow> template_row option" where
  "template_of db org i = find (\<lambda>t. tr_id t = i \<and> tr_org t = org) (td_templates db)"

text \<open>A group for planning: its place in the template from 1, and its buildings in order.\<close>

record planning_group =
  pg_id :: string
  pg_position :: nat
  pg_name :: string
  pg_color :: string
  pg_target :: int
  pg_buildingIds :: "string list"

record planning_template =
  pt_id :: string
  pt_name :: string
  pt_revision :: int
  pt_archivedAt :: "millis option"
  pt_groups :: "planning_group list"

definition templateForPlanning :: "template_db \<Rightarrow> string \<Rightarrow> string \<Rightarrow> planning_template option" where
  "templateForPlanning db org i =
     map_option (\<lambda>t. \<lparr>pt_id = tr_id t, pt_name = tr_name t, pt_revision = tr_revision t, pt_archivedAt = tr_archived t,
         pt_groups = map (\<lambda>(index, g). \<lparr>pg_id = lg_id g, pg_position = index + 1, pg_name = lg_name g, pg_color = lg_color g,
           pg_target = lg_target g, pg_buildingIds = lg_stops g\<rparr>) (enumerate 0 (tr_groups t))\<rparr>)
       (template_of db org i)"

definition activeTemplateId :: "template_db \<Rightarrow> string \<Rightarrow> string option" where
  "activeTemplateId db org =
     map_option tr_id (find (\<lambda>t. tr_org t = org \<and> tr_active t \<and> tr_archived t = None) (td_templates db))"

definition isTbpEnrolled :: "string option \<Rightarrow> bool" where
  "isTbpEnrolled v = (toLowerCase (js_trim (case v of None \<Rightarrow> '''' | Some s \<Rightarrow> s)) = toLowerCase ''Yes'')"

text \<open>The properties asked about whose enrolled tenancies are all in zones outside the package.\<close>

definition zonesOf :: "template_db \<Rightarrow> string \<Rightarrow> string list \<Rightarrow> (string \<times> string option list) list" where
  "zonesOf db org buildings =
     foldl (\<lambda>zones tn. case tn_building tn of
         None \<Rightarrow> zones
       | Some b \<Rightarrow>
           if isTbpEnrolled (tn_enrolment tn)
           then AList.update b ((case map_of zones b of None \<Rightarrow> [] | Some zs \<Rightarrow> zs) @ [tn_zone tn]) zones
           else zones)
       [] (filter (\<lambda>tn. tn_org tn = org \<and> tn_active tn \<and> (\<exists>b \<in> set buildings. tn_building tn = Some b)) (td_tenancies db))"

definition refuseOutsidePackageZones :: "template_db \<Rightarrow> string \<Rightarrow> string list \<Rightarrow> template_error option" where
  "refuseOutsidePackageZones db org buildings =
     (if buildings = [] then None
      else
        let outside = filter (\<lambda>(b, zones). \<not> list_ex isTbpZone zones) (zonesOf db org buildings)
        in if outside = [] then None else Some (NOT_IN_PACKAGE_ZONE (length outside)))"

definition known_buildings :: "template_db \<Rightarrow> string \<Rightarrow> string list \<Rightarrow> nat" where
  "known_buildings db org buildings = length (filter (\<lambda>(o', b). o' = org \<and> b \<in> set buildings) (td_buildings db))"

definition checked :: "template_db \<Rightarrow> string \<Rightarrow> template_input \<Rightarrow> template_error option" where
  "checked db org input =
     (case templateProblem input of
        Some problem \<Rightarrow> Some (INVALID_GROUP_TEMPLATE problem)
      | None \<Rightarrow>
          let buildings = uniq (concat (map gi_buildings (ti_groups input)))
          in if buildings = [] then None
             else if known_buildings db org buildings \<noteq> length buildings then Some UNKNOWN_PROPERTY
             else refuseOutsidePackageZones db org buildings)"

section \<open>Writing\<close>

text \<open>The rows of a template's groups; \<open>fresh\<close> stands for \<open>randomUUID\<close>.\<close>

definition group_rows :: "(nat \<Rightarrow> string) \<Rightarrow> group_input list \<Rightarrow> string live_groups" where
  "group_rows fresh groups =
     map (\<lambda>(index, g). \<lparr>lg_id = (case gi_id g of None \<Rightarrow> fresh index | Some i \<Rightarrow> i), lg_name = js_trim (gi_name g),
         lg_color = toLowerCase (gi_color g), lg_target = gi_target g, lg_stops = gi_buildings g\<rparr>)
       (enumerate 0 groups)"

definition other_groups :: "template_db \<Rightarrow> string \<Rightarrow> string live_groups" where
  "other_groups db i = concat (map tr_groups (filter (\<lambda>t. tr_id t \<noteq> i) (td_templates db)))"

text \<open>
  The rows put in place of the template's own, which were deleted: refused by the database when
  a group's id is in use, or a building is in the template twice.
\<close>

definition writeGroups :: "(nat \<Rightarrow> string) \<Rightarrow> template_db \<Rightarrow> string \<Rightarrow> group_input list \<Rightarrow> template_error + string live_groups" where
  "writeGroups fresh db i groups =
     (let rows = group_rows fresh groups
      in if distinct (map lg_id rows @ map lg_id (other_groups db i)) \<and> distinct (concat (map lg_stops rows))
         then Inr rows else Inl UNIQUE_VIOLATION)"

definition set_template :: "string \<Rightarrow> (template_row \<Rightarrow> template_row) \<Rightarrow> template_db \<Rightarrow> template_db" where
  "set_template i f db = db\<lparr>td_templates := map (\<lambda>t. if tr_id t = i then f t else t) (td_templates db)\<rparr>"

definition updatedBy :: "template_user \<Rightarrow> string option" where
  "updatedBy user = (if us_machine user then None else Some (us_id user))"

definition audited :: "millis \<Rightarrow> template_user \<Rightarrow> template_action \<Rightarrow> string \<Rightarrow> template_db \<Rightarrow> template_db" where
  "audited now user action i db =
     db\<lparr>td_audit := td_audit db @
       [\<lparr>ad_org = us_org user, ad_user = (if us_machine user then None else Some (us_id user)),
         ad_client = (if us_machine user then Some (case us_client user of None \<Rightarrow> us_id user | Some c \<Rightarrow> c) else None),
         ad_action = action, ad_template = i, ad_at = now\<rparr>]\<rparr>"

definition same_actor :: "template_user \<Rightarrow> audit_row \<Rightarrow> bool" where
  "same_actor user a \<longleftrightarrow>
     ad_user a = (if us_machine user then None else Some (us_id user)) \<and>
     ad_client a = (if us_machine user then Some (case us_client user of None \<Rightarrow> us_id user | Some c \<Rightarrow> c) else None)"

definition auditEdit :: "millis \<Rightarrow> template_user \<Rightarrow> string \<Rightarrow> template_db \<Rightarrow> template_db" where
  "auditEdit now user i db =
     (if list_ex (\<lambda>a. ad_org a = us_org user \<and> ad_action a = TEMPLATE_EDITED \<and> ad_template a = i \<and> same_actor user a \<and>
           now - EDIT_AUDIT_WINDOW_MS \<le> ad_at a) (td_audit db)
      then db else audited now user TEMPLATE_EDITED i db)"

definition published :: "template_event \<Rightarrow> template_db \<Rightarrow> template_db" where
  "published e db = db\<lparr>td_events := td_events db @ [e]\<rparr>"

section \<open>The operations\<close>

definition create ::
  "millis \<Rightarrow> string \<Rightarrow> (nat \<Rightarrow> string) \<Rightarrow> template_user \<Rightarrow> template_input \<Rightarrow> template_db \<Rightarrow> (template_error + string) \<times> template_db" where
  "create now i fresh user input db =
     (case checked db (us_org user) input of
        Some e \<Rightarrow> (Inl e, db)
      | None \<Rightarrow>
          if i \<in> tr_id ` set (td_templates db) then (Inl UNIQUE_VIOLATION, db)
          else case writeGroups fresh db i (ti_groups input) of
            Inl e \<Rightarrow> (Inl e, db)
          | Inr rows \<Rightarrow>
              (Inr i, audited now user TEMPLATE_CREATED i
                 (db\<lparr>td_templates := td_templates db @
                   [\<lparr>tr_id = i, tr_org = us_org user, tr_name = js_trim (ti_name input),
                     tr_minutes = (case ti_minutes input of None \<Rightarrow> 30 | Some m \<Rightarrow> m), tr_active = False, tr_revision = 1,
                     tr_archived = None, tr_groups = rows, tr_updatedBy = updatedBy user\<rparr>]\<rparr>)))"

definition save ::
  "millis \<Rightarrow> (nat \<Rightarrow> string) \<Rightarrow> template_user \<Rightarrow> string \<Rightarrow> template_input \<Rightarrow> template_db \<Rightarrow> (template_error + int) \<times> template_db" where
  "save now fresh user i input db =
     (case checked db (us_org user) input of
        Some e \<Rightarrow> (Inl e, db)
      | None \<Rightarrow>
          (case ti_revision input of
             None \<Rightarrow> (Inl TEMPLATE_REVISION_REQUIRED, db)
           | Some revision \<Rightarrow>
               (case template_of db (us_org user) i of
                  None \<Rightarrow> (Inl TEMPLATE_NOT_FOUND, db)
                | Some t \<Rightarrow>
                    if tr_archived t \<noteq> None then (Inl TEMPLATE_ARCHIVED, db)
                    else if tr_revision t \<noteq> revision then (Inl TEMPLATE_CHANGED, db)
                    else case writeGroups fresh db i (ti_groups input) of
                      Inl e \<Rightarrow> (Inl e, db)
                    | Inr rows \<Rightarrow>
                        (Inr (revision + 1),
                         published (Replaced_Event i (revision + 1) SAVED (us_name user))
                           (audited now user TEMPLATE_SAVED i
                             (set_template i (\<lambda>t. t\<lparr>tr_name := js_trim (ti_name input),
                                tr_minutes := (case ti_minutes input of None \<Rightarrow> tr_minutes t | Some m \<Rightarrow> m),
                                tr_revision := tr_revision t + 1, tr_updatedBy := updatedBy user, tr_groups := rows\<rparr>) db))))))"

text \<open>The name and the minutes a batch sets: the last of each.\<close>

fun op_settings :: "string option \<times> int option \<Rightarrow> string group_op \<Rightarrow> string option \<times> int option" where
  "op_settings (n, m) (Template_Update name minutes) =
     ((case name of None \<Rightarrow> n | Some s \<Rightarrow> Some (js_trim s)), (case minutes of None \<Rightarrow> m | Some k \<Rightarrow> Some k))"
| "op_settings s op = s"

definition input_of_groups :: "string \<Rightarrow> string live_groups \<Rightarrow> template_input" where
  "input_of_groups n groups =
     \<lparr>ti_name = n, ti_minutes = None,
      ti_groups = map (\<lambda>g. \<lparr>gi_id = Some (lg_id g), gi_name = lg_name g, gi_color = lg_color g, gi_target = lg_target g,
        gi_buildings = lg_stops g\<rparr>) groups, ti_revision = None\<rparr>"

text \<open>What is refused of the groups a batch leaves.\<close>

definition batch_problem :: "template_db \<Rightarrow> string \<Rightarrow> string \<Rightarrow> string live_groups \<Rightarrow> string live_groups \<Rightarrow> template_error option" where
  "batch_problem db org n before after =
     (case templateProblem (input_of_groups n after) of
        Some problem \<Rightarrow> Some (INVALID_GROUP_TEMPLATE problem)
      | None \<Rightarrow>
          let known = concat (map lg_stops before);
              added = filter (\<lambda>b. b \<notin> set known) (uniq (concat (map lg_stops after)));
              made = filter (\<lambda>i. i \<notin> lg_id ` set before) (map lg_id after)
          in if added \<noteq> [] \<and> known_buildings db org added \<noteq> length added then Some UNKNOWN_PROPERTY
             else case (if added = [] then None else refuseOutsidePackageZones db org added) of
               Some e \<Rightarrow> Some e
             | None \<Rightarrow>
                 if list_ex (\<lambda>t. list_ex (\<lambda>g. lg_id g \<in> set made) (tr_groups t)) (td_templates db)
                 then Some (INVALID_GROUP_TEMPLATE ''A new group came with an id already in use. Reload the template.'')
                 else None)"

definition applyOps ::
  "millis \<Rightarrow> template_user \<Rightarrow> string \<Rightarrow> string \<Rightarrow> string group_op list \<Rightarrow> template_db \<Rightarrow> ((template_error + int) \<times> template_db) option" where
  "applyOps now user i batchId raw db =
     (case groupTemplateOpsSchema raw of
        None \<Rightarrow> Some (Inl INVALID_GROUP_TEMPLATE_OPS, db)
      | Some ops \<Rightarrow>
          (case template_of db (us_org user) i of
             None \<Rightarrow> Some (Inl TEMPLATE_NOT_FOUND, db)
           | Some t \<Rightarrow>
               if tr_archived t \<noteq> None then Some (Inl TEMPLATE_ARCHIVED, db)
               else
                 let (newName, newMinutes) = foldl op_settings (None, None) ops;
                     n = (case newName of None \<Rightarrow> tr_name t | Some s \<Rightarrow> s)
                 in Option.bind (applyGroupOps (tr_groups t) ops) (\<lambda>after.
                      case batch_problem db (us_org user) n (tr_groups t) after of
                        Some e \<Rightarrow> Some (Inl e, db)
                      | None \<Rightarrow>
                          case writeGroups (\<lambda>_. '''') db i (ti_groups (input_of_groups n after)) of
                            Inl e \<Rightarrow> Some (Inl e, db)
                          | Inr rows \<Rightarrow>
                              Some (Inr (tr_revision t + 1),
                                auditEdit now user i
                                  (published (Ops_Event i (tr_revision t + 1) batchId ops (us_name user))
                                    (set_template i (\<lambda>t. t\<lparr>tr_name := n,
                                       tr_minutes := (case newMinutes of None \<Rightarrow> tr_minutes t | Some m \<Rightarrow> m),
                                       tr_revision := tr_revision t + 1, tr_updatedBy := updatedBy user, tr_groups := rows\<rparr>) db))))))"

text \<open>
  \<open>setActive\<close> reads the template first and writes in a transaction of its own afterwards: other
  requests may come between, and are steps between. The name it keeps for the audit is left out.
\<close>

definition setActive :: "template_user \<Rightarrow> string \<Rightarrow> bool \<Rightarrow> template_db \<Rightarrow> template_error option \<times> template_db" where
  "setActive user i active db =
     (case template_of db (us_org user) i of
        None \<Rightarrow> (Some TEMPLATE_NOT_FOUND, db)
      | Some t \<Rightarrow>
          if active \<and> tr_archived t \<noteq> None then (Some TEMPLATE_ARCHIVED, db)
          else (None, db\<lparr>td_activating := td_activating db @ [\<lparr>av_user = user, av_template = i, av_active = active\<rparr>]\<rparr>))"

definition finishActive :: "millis \<Rightarrow> activation \<Rightarrow> template_db \<Rightarrow> template_db" where
  "finishActive now a db =
     (let user = av_user a; i = av_template a; active = av_active a;
          others = (if active
            then db\<lparr>td_templates := map (\<lambda>o'. if tr_org o' = us_org user \<and> tr_active o' \<and> tr_id o' \<noteq> i
              then o'\<lparr>tr_active := False\<rparr> else o') (td_templates db)\<rparr>
            else db);
          written = (set_template i (\<lambda>t. t\<lparr>tr_active := active\<rparr>) others)\<lparr>td_activating := remove1 a (td_activating db)\<rparr>;
          recorded = audited now user (if active then TEMPLATE_ACTIVATED else TEMPLATE_DEACTIVATED) i written
      in case template_of recorded (us_org user) i of
           None \<Rightarrow> recorded
         | Some t \<Rightarrow> published (Replaced_Event i (tr_revision t) ACTIVATED (us_name user)) recorded)"

definition archive :: "millis \<Rightarrow> template_user \<Rightarrow> string \<Rightarrow> template_db \<Rightarrow> template_error option \<times> template_db" where
  "archive now user i db =
     (case template_of db (us_org user) i of
        None \<Rightarrow> (Some TEMPLATE_NOT_FOUND, db)
      | Some t \<Rightarrow>
          let db' = (if tr_archived t \<noteq> None then db
                else audited now user TEMPLATE_WAS_ARCHIVED i
                       (set_template i (\<lambda>t. t\<lparr>tr_archived := Some now, tr_active := False\<rparr>) db))
          in (None, published (Replaced_Event i (tr_revision t) ARCHIVED (us_name user)) db'))"

text \<open>The value most of them have, the first of a tie.\<close>

definition mostCommon :: "string option list \<Rightarrow> string option" where
  "mostCommon values =
     (let counts = foldl (\<lambda>cs v. case v of
            None \<Rightarrow> cs
          | Some s \<Rightarrow> if s = [] then cs else AList.update s ((case map_of cs s of None \<Rightarrow> 0 | Some n \<Rightarrow> n) + 1) cs)
          ([] :: (string \<times> nat) list) values
      in fst (foldl (\<lambda>(best, most) (v, n). if most < n then (Some v, n) else (best, most)) (None, 0) counts))"

end
