(* ===== verification/Template_Rows.thy ===== *)
theory Template_Rows
  imports Template_Service
begin

text \<open>
  What the operations on group templates keep of the rows, whoever makes them and in whatever
  order, and what a template's revision tells: as long as it stays the same, so do the groups.
\<close>

section \<open>Templates without a problem\<close>

lemma building_problem_facts:
  "building_problem n bs seen = Inr seen' \<Longrightarrow> distinct bs \<and> set bs \<inter> dom seen = {} \<and> dom seen' = dom seen \<union> set bs"
  by (induction n bs seen rule: building_problem.induct) (auto split: option.splits)

lemma group_problems_facts:
  "group_problems gs seen = None \<Longrightarrow>
     distinct (concat (map gi_buildings gs)) \<and> set (concat (map gi_buildings gs)) \<inter> dom seen = {} \<and>
     (\<forall>g \<in> set gs. js_trim (gi_name g) \<noteq> [] \<and> is_color (gi_color g) \<and> length (gi_buildings g) \<le> MAX_STOPS_PER_DAY)"
proof (induction gs arbitrary: seen)
  case (Cons g gs)
  obtain seen' where ok: "js_trim (gi_name g) \<noteq> []" "is_color (gi_color g)" "length (gi_buildings g) \<le> MAX_STOPS_PER_DAY"
    and b: "building_problem (gi_name g) (gi_buildings g) seen = Inr seen'" and rest: "group_problems gs seen' = None"
    using Cons.prems by (auto split: if_splits sum.splits)
  from Cons.IH [OF rest] building_problem_facts [OF b] ok show ?case by auto
qed simp

lemma templateProblem_facts:
  assumes "templateProblem input = None"
  shows "js_trim (ti_name input) \<noteq> []" "length (ti_groups input) \<le> 200" "distinct (concat (map gi_buildings (ti_groups input)))"
    "\<forall>g \<in> set (ti_groups input). length (gi_buildings g) \<le> 24"
  using assms group_problems_facts [of "ti_groups input" Map.empty]
  by (auto simp: templateProblem_def MAX_TEMPLATE_GROUPS_def MAX_STOPS_PER_DAY_def split: if_splits)

section \<open>The rows\<close>

text \<open>
  A template: a name, at most two hundred groups of at most twenty-four properties, no property
  twice. All of them: ids of templates and of groups apart, one active template at most for an
  organization, and activations under way for templates there are.
\<close>

definition row_ok :: "template_row \<Rightarrow> bool" where
  "row_ok t \<longleftrightarrow> js_trim (tr_name t) \<noteq> [] \<and> 1 \<le> tr_revision t \<and> length (tr_groups t) \<le> 200 \<and>
     distinct (concat (map lg_stops (tr_groups t))) \<and> list_all (\<lambda>g. length (lg_stops g) \<le> 24) (tr_groups t)"

definition all_groups :: "template_db \<Rightarrow> string live_groups" where
  "all_groups db = concat (map tr_groups (td_templates db))"

definition active_in :: "template_db \<Rightarrow> string \<Rightarrow> template_row list" where
  "active_in db org = filter (\<lambda>t. tr_org t = org \<and> tr_active t) (td_templates db)"

definition known_in :: "template_db \<Rightarrow> activation \<Rightarrow> bool" where
  "known_in db a \<longleftrightarrow> (\<exists>t \<in> set (td_templates db). tr_id t = av_template a \<and> tr_org t = us_org (av_user a))"

definition templates_ok :: "template_db \<Rightarrow> bool" where
  "templates_ok db \<longleftrightarrow> distinct (map tr_id (td_templates db)) \<and> distinct (map lg_id (all_groups db)) \<and>
     (\<forall>t \<in> set (td_templates db). row_ok t) \<and> (\<forall>org. length (active_in db org) \<le> 1) \<and>
     (\<forall>a \<in> set (td_activating db). known_in db a)"

lemma td_frame [simp]:
  "td_templates (audited now user action i db) = td_templates db" "td_templates (published e db) = td_templates db"
  "td_templates (auditEdit now user i db) = td_templates db"
  "td_activating (audited now user action i db) = td_activating db" "td_activating (published e db) = td_activating db"
  "td_activating (auditEdit now user i db) = td_activating db" "td_activating (set_template i f db) = td_activating db"
  by (simp_all add: set_template_def audited_def published_def auditEdit_def)

lemma templates_ok_cong:
  "td_templates db = td_templates db' \<Longrightarrow> td_activating db = td_activating db' \<Longrightarrow> templates_ok db = templates_ok db'"
  by (simp add: templates_ok_def all_groups_def active_in_def known_in_def)

lemma templates_ok_frame [simp]:
  "templates_ok (audited now user action i db) = templates_ok db" "templates_ok (published e db) = templates_ok db"
  "templates_ok (auditEdit now user i db) = templates_ok db"
  by (rule templates_ok_cong; simp)+

lemma template_of_facts: "template_of db org i = Some t \<Longrightarrow> t \<in> set (td_templates db) \<and> tr_id t = i \<and> tr_org t = org"
  by (auto simp: template_of_def dest: find_SomeD)

text \<open>A row rewritten in place: its own groups leave, the new ones come.\<close>

lemma length_filter_replace:
  "(\<And>t. t \<in> set ts \<Longrightarrow> P (f t) \<Longrightarrow> P t) \<Longrightarrow> length (filter P (map f ts)) \<le> length (filter P ts)"
  by (induction ts) (auto simp: le_SucI)

lemma templates_ok_set:
  assumes ok: "templates_ok db"
    and f: "\<And>t. t \<in> set (td_templates db) \<Longrightarrow> tr_id t = i \<Longrightarrow>
      tr_id (f t) = i \<and> tr_org (f t) = tr_org t \<and> (tr_active (f t) \<longrightarrow> tr_active t) \<and> row_ok (f t)"
    and groups: "\<And>t. t \<in> set (td_templates db) \<Longrightarrow> tr_id t = i \<Longrightarrow>
      distinct (map lg_id (tr_groups (f t)) @ map lg_id (other_groups db i)) \<or> tr_groups (f t) = tr_groups t"
  shows "templates_ok (set_template i f db)"
proof -
  let ?g = "\<lambda>t. if tr_id t = i then f t else t"
  have ids: "map tr_id (map ?g (td_templates db)) = map tr_id (td_templates db)" using f by auto
  have d: "distinct (map tr_id (td_templates db))" "distinct (map lg_id (all_groups db))" using ok by (simp_all add: templates_ok_def)
  have "distinct (map lg_id (concat (map tr_groups (map ?g (td_templates db)))))"
  proof (cases "i \<in> tr_id ` set (td_templates db)")
    case False
    then have "map ?g (td_templates db) = td_templates db" by (intro map_idI) auto
    then show ?thesis using d(2) by (simp only: all_groups_def)
  next
    case True
    then obtain t where t: "t \<in> set (td_templates db)" "tr_id t = i" by auto
    obtain as bs where ts: "td_templates db = as @ t # bs" using split_list [OF t(1)] by blast
    have ne: "\<And>x. x \<in> set as \<Longrightarrow> tr_id x \<noteq> i" "\<And>x. x \<in> set bs \<Longrightarrow> tr_id x \<noteq> i"
      using d(1) t(2) unfolding ts by (auto, (metis image_eqI)+)
    then have others: "filter (\<lambda>t. tr_id t \<noteq> i) (td_templates db) = as @ bs"
      using t(2) unfolding ts by (simp add: filter_id_conv)
    have "map ?g as = as" "map ?g bs = bs" using ne by (auto intro!: map_idI)
    then have g: "map ?g (td_templates db) = as @ f t # bs" using t(2) by (simp add: ts)
    from groups [OF t] show ?thesis
    proof
      assume "distinct (map lg_id (tr_groups (f t)) @ map lg_id (other_groups db i))"
      moreover have "mset (map lg_id (concat (map tr_groups (as @ f t # bs)))) = mset (map lg_id (tr_groups (f t)) @ map lg_id (concat (map tr_groups (as @ bs))))"
        by simp
      ultimately show ?thesis unfolding g other_groups_def others by (metis mset_eq_imp_distinct_iff)
    next
      assume same: "tr_groups (f t) = tr_groups t"
      have "map tr_groups (map ?g (td_templates db)) = map tr_groups (td_templates db)" unfolding g by (simp add: ts same)
      then show ?thesis using d(2) by (simp only: all_groups_def)
    qed
  qed
  moreover have "row_ok t" if "t \<in> set (map ?g (td_templates db))" for t
    using that f ok by (auto simp: templates_ok_def)
  moreover have "length (filter (\<lambda>t. tr_org t = org \<and> tr_active t) (map ?g (td_templates db))) \<le> 1" for org
  proof -
    have "length (filter (\<lambda>t. tr_org t = org \<and> tr_active t) (map ?g (td_templates db))) \<le>
        length (filter (\<lambda>t. tr_org t = org \<and> tr_active t) (td_templates db))"
      by (rule length_filter_replace) (use f in \<open>auto split: if_splits\<close>)
    also have "\<dots> \<le> 1" using ok by (simp add: templates_ok_def active_in_def)
    finally show ?thesis .
  qed
  moreover have "known_in (set_template i f db) a" if a: "a \<in> set (td_activating db)" for a
  proof -
    obtain t where t: "t \<in> set (td_templates db)" "tr_id t = av_template a" "tr_org t = us_org (av_user a)"
      using ok a by (auto simp: templates_ok_def known_in_def)
    then have "?g t \<in> set (td_templates (set_template i f db))" "tr_id (?g t) = av_template a" "tr_org (?g t) = us_org (av_user a)"
      using f by (auto simp: set_template_def)
    then show ?thesis unfolding known_in_def by blast
  qed
  ultimately show ?thesis using d(1) ids
    by (simp add: templates_ok_def all_groups_def active_in_def del: map_map) (simp add: set_template_def del: map_map)
qed

lemma writeGroups_facts:
  assumes "writeGroups fresh db i groups = Inr rows" "\<forall>g \<in> set groups. length (gi_buildings g) \<le> 24"
  shows "distinct (map lg_id rows @ map lg_id (other_groups db i))" "distinct (concat (map lg_stops rows))"
    "length rows = length groups" "list_all (\<lambda>g. length (lg_stops g) \<le> 24) rows"
proof -
  have rows: "rows = group_rows fresh groups" and d: "distinct (map lg_id rows @ map lg_id (other_groups db i))" "distinct (concat (map lg_stops rows))"
    using assms(1) by (auto simp: writeGroups_def Let_def split: if_splits)
  show "distinct (map lg_id rows @ map lg_id (other_groups db i))" "distinct (concat (map lg_stops rows))" by (fact d)+
  show "length rows = length groups" by (simp add: rows group_rows_def)
  show "list_all (\<lambda>g. length (lg_stops g) \<le> 24) rows"
    using assms(2) by (auto simp: rows group_rows_def list_all_iff dest: set_enumerate_snd)
qed

lemma create_ok:
  assumes ok: "templates_ok db" and step: "create now i fresh user input db = (r, db')"
  shows "templates_ok db'"
proof (cases r)
  case (Inl e)
  then show ?thesis using assms by (auto simp: create_def split: option.splits sum.splits if_splits)
next
  case (Inr i')
  then obtain rows where c: "checked db (us_org user) input = None" and new: "i \<notin> tr_id ` set (td_templates db)"
    and w: "writeGroups fresh db i (ti_groups input) = Inr rows"
    and db': "db' = audited now user TEMPLATE_CREATED i (db\<lparr>td_templates := td_templates db @
       [\<lparr>tr_id = i, tr_org = us_org user, tr_name = js_trim (ti_name input),
         tr_minutes = (case ti_minutes input of None \<Rightarrow> 30 | Some m \<Rightarrow> m), tr_active = False, tr_revision = 1,
         tr_archived = None, tr_groups = rows, tr_updatedBy = updatedBy user\<rparr>]\<rparr>)"
    using step by (auto simp: create_def split: option.splits sum.splits if_splits)
  have p: "templateProblem input = None" using c by (auto simp: checked_def split: option.splits)
  note problem = templateProblem_facts [OF p]
  note rows = writeGroups_facts [OF w problem(4)]
  have "other_groups db i = all_groups db"
    using new by (auto simp: other_groups_def all_groups_def intro!: arg_cong [where f = "\<lambda>ts. concat (map tr_groups ts)"] filter_True)
  then have "distinct (map lg_id rows @ map lg_id (all_groups db))" using rows(1) ok by (auto simp: templates_ok_def)
  then have "distinct (map lg_id (all_groups db'))" by (simp add: db' all_groups_def) blast
  moreover have "distinct (map tr_id (td_templates db'))" using ok new by (simp add: db' templates_ok_def)
  moreover have "active_in db' org = active_in db org" for org by (simp add: db' active_in_def)
  moreover have "\<forall>t \<in> set (td_templates db'). row_ok t"
    using ok problem rows by (auto simp: db' templates_ok_def row_ok_def)
  moreover have "\<forall>a \<in> set (td_activating db'). known_in db' a" using ok by (auto simp: db' templates_ok_def known_in_def)
  ultimately show ?thesis using ok by (simp add: templates_ok_def)
qed

lemma save_ok:
  assumes ok: "templates_ok db" and step: "save now fresh user i input db = (r, db')"
  shows "templates_ok db'"
proof (cases r)
  case (Inl e)
  then show ?thesis using assms by (auto simp: save_def split: option.splits sum.splits if_splits)
next
  case (Inr revision)
  then obtain t rows where c: "checked db (us_org user) input = None" and t: "template_of db (us_org user) i = Some t"
    and w: "writeGroups fresh db i (ti_groups input) = Inr rows"
    and db': "td_templates db' = td_templates (set_template i (\<lambda>t. t\<lparr>tr_name := js_trim (ti_name input),
        tr_minutes := (case ti_minutes input of None \<Rightarrow> tr_minutes t | Some m \<Rightarrow> m),
        tr_revision := tr_revision t + 1, tr_updatedBy := updatedBy user, tr_groups := rows\<rparr>) db)"
      "td_activating db' = td_activating (set_template i (\<lambda>t. t\<lparr>tr_name := js_trim (ti_name input),
        tr_minutes := (case ti_minutes input of None \<Rightarrow> tr_minutes t | Some m \<Rightarrow> m),
        tr_revision := tr_revision t + 1, tr_updatedBy := updatedBy user, tr_groups := rows\<rparr>) db)"
    using step by (auto simp: save_def split: option.splits sum.splits if_splits)
  have p: "templateProblem input = None" using c by (auto simp: checked_def split: option.splits)
  note problem = templateProblem_facts [OF p]
  note rows = writeGroups_facts [OF w problem(4)]
  show ?thesis
    unfolding templates_ok_cong [OF db']
    by (rule templates_ok_set [OF ok]) (use ok problem rows in \<open>force simp: templates_ok_def row_ok_def\<close>)+
qed

lemma input_of_groups_simps [simp]:
  "ti_name (input_of_groups n gs) = n" "length (ti_groups (input_of_groups n gs)) = length gs"
  by (simp_all add: input_of_groups_def)

text \<open>A batch that was saved: what it applied to, and what it left.\<close>

lemma applyOps_saved:
  assumes "applyOps now user i batchId raw db = Some (Inr revision, db')"
  obtains t ops after n m where "groupTemplateOpsSchema raw = Some ops" "template_of db (us_org user) i = Some t" "tr_archived t = None"
    "applyGroupOps (tr_groups t) ops = Some after" "batch_problem db (us_org user) n (tr_groups t) after = None"
    "writeGroups (\<lambda>_. '''') db i (ti_groups (input_of_groups n after)) = Inr (group_rows (\<lambda>_. '''') (ti_groups (input_of_groups n after)))"
    "revision = tr_revision t + 1"
    "db' = auditEdit now user i (published (Ops_Event i (tr_revision t + 1) batchId ops (us_name user))
       (set_template i (\<lambda>t. t\<lparr>tr_name := n, tr_minutes := (case m of None \<Rightarrow> tr_minutes t | Some k \<Rightarrow> k),
          tr_revision := tr_revision t + 1, tr_updatedBy := updatedBy user,
          tr_groups := group_rows (\<lambda>_. '''') (ti_groups (input_of_groups n after))\<rparr>) db))"
proof -
  obtain ops where ops: "groupTemplateOpsSchema raw = Some ops" using assms by (auto simp: applyOps_def split: option.splits)
  obtain t where t: "template_of db (us_org user) i = Some t" using assms ops by (auto simp: applyOps_def split: option.splits)
  have live: "tr_archived t = None" using assms ops t by (auto simp: applyOps_def split: if_splits)
  obtain nn m where s: "foldl op_settings (None, None) ops = (nn, m)" by fastforce
  let ?n = "case nn of None \<Rightarrow> tr_name t | Some s \<Rightarrow> s"
  obtain after where after: "applyGroupOps (tr_groups t) ops = Some after"
    using assms ops t live by (cases "applyGroupOps (tr_groups t) ops") (simp_all add: applyOps_def s)
  have b: "batch_problem db (us_org user) ?n (tr_groups t) after = None"
    using assms ops t live s after by (auto simp: applyOps_def Let_def split: option.splits)
  let ?rows = "group_rows (\<lambda>_. '''') (ti_groups (input_of_groups ?n after))"
  have w: "writeGroups (\<lambda>_. '''') db i (ti_groups (input_of_groups ?n after)) = Inr ?rows"
    using assms ops t live s after b by (auto simp: applyOps_def writeGroups_def Let_def split: if_splits)
  show ?thesis
    by (rule that [where m = m, OF ops t live after b w]) (use assms in \<open>auto simp: applyOps_def Let_def ops t live s after b w\<close>)
qed

lemma applyOps_ok:
  assumes ok: "templates_ok db" and step: "applyOps now user i batchId raw db = Some (r, db')"
  shows "templates_ok db'"
proof (cases r)
  case (Inl e)
  then show ?thesis using assms
    by (auto simp: applyOps_def Let_def split: option.splits sum.splits if_splits prod.splits Option.bind_splits)
next
  case (Inr revision)
  from step [unfolded Inr] obtain t ops after n m where "groupTemplateOpsSchema raw = Some ops" "template_of db (us_org user) i = Some t"
    "tr_archived t = None" "applyGroupOps (tr_groups t) ops = Some after" and b: "batch_problem db (us_org user) n (tr_groups t) after = None"
    and w: "writeGroups (\<lambda>_. '''') db i (ti_groups (input_of_groups n after)) = Inr (group_rows (\<lambda>_. '''') (ti_groups (input_of_groups n after)))"
    and "revision = tr_revision t + 1"
    and db': "db' = auditEdit now user i (published (Ops_Event i (tr_revision t + 1) batchId ops (us_name user))
       (set_template i (\<lambda>t. t\<lparr>tr_name := n, tr_minutes := (case m of None \<Rightarrow> tr_minutes t | Some k \<Rightarrow> k),
          tr_revision := tr_revision t + 1, tr_updatedBy := updatedBy user,
          tr_groups := group_rows (\<lambda>_. '''') (ti_groups (input_of_groups n after))\<rparr>) db))"
    by (rule applyOps_saved)
  have p: "templateProblem (input_of_groups n after) = None" using b by (auto simp: batch_problem_def split: option.splits)
  note problem = templateProblem_facts [OF p]
  note rows = writeGroups_facts [OF w problem(4)]
  show ?thesis
    unfolding db' templates_ok_frame
    by (rule templates_ok_set [OF ok]) (use ok problem rows in \<open>force simp: templates_ok_def row_ok_def\<close>)+
qed

lemma length_filter_imp: "(\<And>x. x \<in> set xs \<Longrightarrow> P x \<Longrightarrow> Q x) \<Longrightarrow> length (filter P xs) \<le> length (filter Q xs)"
  by (induction xs) (auto simp: le_SucI)

lemma one_id: "distinct (map f xs) \<Longrightarrow> length (filter (\<lambda>x. f x = i) xs) \<le> 1"
proof (induction xs)
  case (Cons x xs)
  have "filter (\<lambda>y. f y = i) xs = []" if "f x = i" using Cons.prems that by (auto simp: filter_empty_conv image_iff)
  with Cons show ?case by (cases "f x = i") auto
qed simp

section \<open>What a revision tells\<close>

text \<open>A row some requests later: further on, or as it was.\<close>

definition kept_row :: "template_row \<Rightarrow> template_row \<Rightarrow> bool" where
  "kept_row t t' \<longleftrightarrow> tr_id t' = tr_id t \<and> tr_org t' = tr_org t \<and>
     (tr_revision t < tr_revision t' \<or>
      tr_revision t' = tr_revision t \<and> tr_groups t' = tr_groups t \<and> tr_name t' = tr_name t \<and> tr_minutes t' = tr_minutes t)"

lemma kept_row_trans: "kept_row a b \<Longrightarrow> kept_row b c \<Longrightarrow> kept_row a c"
  by (auto simp: kept_row_def)

lemma kept_row_refl [simp]: "kept_row t t"
  by (simp add: kept_row_def)

definition activated :: "template_user \<Rightarrow> string \<Rightarrow> bool \<Rightarrow> template_row \<Rightarrow> template_row" where
  "activated user i active x =
     (if tr_id x = i then x\<lparr>tr_active := active\<rparr>
      else if active \<and> tr_org x = us_org user \<and> tr_active x then x\<lparr>tr_active := False\<rparr> else x)"

lemma activated_simps [simp]:
  "tr_id (activated user i active x) = tr_id x" "tr_groups (activated user i active x) = tr_groups x"
  "tr_org (activated user i active x) = tr_org x" "kept_row x (activated user i active x)"
  by (simp_all add: activated_def kept_row_def)

lemma setActive_cases:
  assumes "setActive user i active db = (r, db')"
  obtains "db' = db" |
    t where "template_of db (us_org user) i = Some t" "\<not> (active \<and> tr_archived t \<noteq> None)"
      "db' = db\<lparr>td_activating := td_activating db @ [\<lparr>av_user = user, av_template = i, av_active = active\<rparr>]\<rparr>"
  using assms by (auto simp: setActive_def split: option.splits if_splits)

lemma setActive_ok:
  assumes ok: "templates_ok db" and step: "setActive user i active db = (r, db')"
  shows "templates_ok db'"
  using step
proof (cases rule: setActive_cases)
  case (2 t)
  have "known_in db \<lparr>av_user = user, av_template = i, av_active = active\<rparr>"
    using template_of_facts [OF 2(1)] by (auto simp: known_in_def)
  then show ?thesis using ok by (simp add: 2(3) templates_ok_def all_groups_def active_in_def known_in_def)
qed (use ok in simp)

lemma finishActive_frame:
  "td_templates (finishActive now a db) = map (activated (av_user a) (av_template a) (av_active a)) (td_templates db)"
  "td_activating (finishActive now a db) = remove1 a (td_activating db)"
  by (simp_all add: finishActive_def Let_def set_template_def activated_def comp_def split: option.split)

lemma finishActive_ok:
  assumes ok: "templates_ok db" and a: "a \<in> set (td_activating db)"
  shows "templates_ok (finishActive now a db)"
proof -
  let ?user = "av_user a" and ?i = "av_template a" and ?active = "av_active a" and ?db = "finishActive now a db"
  let ?h = "activated ?user ?i ?active"
  have dist: "distinct (map tr_id (td_templates db))" using ok by (simp add: templates_ok_def)
  obtain t where t: "t \<in> set (td_templates db)" "tr_id t = ?i" "tr_org t = us_org ?user"
    using ok a by (auto simp: templates_ok_def known_in_def)
  have only: "x = t" if "x \<in> set (td_templates db)" "tr_id x = ?i" for x
    using distinct_map_eqD [OF dist that(1) t(1)] t(2) that(2) by simp
  have "row_ok (?h x)" if "x \<in> set (td_templates db)" for x
    using ok that by (auto simp: templates_ok_def row_ok_def activated_def)
  moreover have "length (active_in ?db org) \<le> 1" for org
  proof (cases "?active \<and> org = us_org ?user")
    case True
    have "length (active_in ?db org) \<le> length (filter (\<lambda>x. tr_id x = ?i) (td_templates db))"
      unfolding active_in_def finishActive_frame(1) filter_map length_map
      by (rule length_filter_imp) (use True in \<open>auto simp: activated_def split: if_splits\<close>)
    also have "\<dots> \<le> 1" by (rule one_id [OF dist])
    finally show ?thesis .
  next
    case False
    have "length (active_in ?db org) \<le> length (active_in db org)"
      unfolding active_in_def finishActive_frame(1) filter_map length_map
    proof (rule length_filter_imp)
      fix x assume x: "x \<in> set (td_templates db)" and p: "((\<lambda>t. tr_org t = org \<and> tr_active t) \<circ> ?h) x"
      show "tr_org x = org \<and> tr_active x"
      proof (cases "tr_id x = ?i")
        case True
        then have "x = t" using only x by blast
        then have "tr_org x = us_org ?user" "?active" using t p True by (simp_all add: activated_def)
        with False p show ?thesis by simp
      qed (use p in \<open>auto simp: activated_def split: if_splits\<close>)
    qed
    also have "\<dots> \<le> 1" using ok by (simp add: templates_ok_def)
    finally show ?thesis .
  qed
  moreover have "known_in ?db b" if "b \<in> set (td_activating ?db)" for b
    using ok that set_remove1_subset [of a "td_activating db"]
    by (auto simp: templates_ok_def known_in_def finishActive_frame)
  moreover have "map tr_groups (td_templates ?db) = map tr_groups (td_templates db)" "map tr_id (td_templates ?db) = map tr_id (td_templates db)"
    by (simp_all add: finishActive_frame(1))
  moreover have "set (td_templates ?db) = ?h ` set (td_templates db)" by (simp add: finishActive_frame(1))
  ultimately show ?thesis using ok unfolding templates_ok_def all_groups_def by simp
qed

lemma archive_ok:
  assumes ok: "templates_ok db" and step: "archive now user i db = (r, db')"
  shows "templates_ok db'"
proof -
  have "templates_ok (set_template i (\<lambda>t. t\<lparr>tr_archived := Some now, tr_active := False\<rparr>) db)"
    by (rule templates_ok_set [OF ok]) (use ok in \<open>auto simp: templates_ok_def row_ok_def\<close>)
  then show ?thesis using assms by (auto simp: archive_def Let_def split: option.splits if_splits)
qed

section \<open>Requests\<close>

text \<open>
  A request as it reaches the service: when, by whom, and the ids \<open>randomUUID\<close> gives; and the second
  half of an activation under way.
\<close>

datatype template_request =
    Create_Template millis template_user string "nat \<Rightarrow> string" template_input
  | Save_Template millis template_user "nat \<Rightarrow> string" string template_input
  | Apply_Ops millis template_user string string "string group_op list"
  | Set_Active template_user string bool
  | Finish_Active millis activation
  | Archive_Template millis template_user string

fun template_step :: "template_request \<Rightarrow> template_db \<Rightarrow> template_db option" where
  "template_step (Create_Template now user i fresh input) db = Some (snd (create now i fresh user input db))"
| "template_step (Save_Template now user fresh i input) db = Some (snd (save now fresh user i input db))"
| "template_step (Apply_Ops now user i batchId raw) db = map_option snd (applyOps now user i batchId raw db)"
| "template_step (Set_Active user i active) db = Some (snd (setActive user i active db))"
| "template_step (Finish_Active now a) db = (if a \<in> set (td_activating db) then Some (finishActive now a db) else None)"
| "template_step (Archive_Template now user i) db = Some (snd (archive now user i db))"

fun template_run :: "template_request list \<Rightarrow> template_db \<Rightarrow> template_db option" where
  "template_run [] db = Some db"
| "template_run (r # rs) db = Option.bind (template_step r db) (template_run rs)"

lemma template_step_ok: "templates_ok db \<Longrightarrow> template_step r db = Some db' \<Longrightarrow> templates_ok db'"
proof (cases r)
  case (Apply_Ops now user i batchId raw)
  assume "templates_ok db" "template_step r db = Some db'"
  then show ?thesis using Apply_Ops applyOps_ok by (cases "applyOps now user i batchId raw db") (auto simp: prod_eq_iff)
next
  case (Create_Template now user i fresh input)
  assume "templates_ok db" "template_step r db = Some db'"
  then show ?thesis using Create_Template create_ok [of db now i fresh user input "fst (create now i fresh user input db)" db'] by auto
next
  case (Save_Template now user fresh i input)
  assume "templates_ok db" "template_step r db = Some db'"
  then show ?thesis using Save_Template save_ok [of db now fresh user i input "fst (save now fresh user i input db)" db'] by auto
next
  case (Set_Active user i active)
  assume "templates_ok db" "template_step r db = Some db'"
  then show ?thesis using Set_Active setActive_ok [of db user i active "fst (setActive user i active db)" db'] by auto
next
  case (Finish_Active now a)
  assume "templates_ok db" "template_step r db = Some db'"
  then show ?thesis using Finish_Active finishActive_ok [of db a now] by (auto split: if_splits)
next
  case (Archive_Template now user i)
  assume "templates_ok db" "template_step r db = Some db'"
  then show ?thesis using Archive_Template archive_ok [of db now user i "fst (archive now user i db)" db'] by auto
qed

text \<open>
  Archived templates are not active as long as nobody archives one whose activation is under way:
  \<open>setActive\<close> looks at \<open>archivedAt\<close> before its transaction, and not again in it.
\<close>

definition archived_idle :: "template_db \<Rightarrow> bool" where
  "archived_idle db \<longleftrightarrow> (\<forall>t \<in> set (td_templates db). tr_active t \<longrightarrow> tr_archived t = None) \<and>
     (\<forall>a \<in> set (td_activating db). \<forall>t \<in> set (td_templates db). av_active a \<longrightarrow> tr_id t = av_template a \<longrightarrow> tr_archived t = None)"

fun calm :: "template_request \<Rightarrow> template_db \<Rightarrow> bool" where
  "calm (Archive_Template now user i) db \<longleftrightarrow> \<not> list_ex (\<lambda>a. av_template a = i \<and> av_active a) (td_activating db)"
| "calm r db \<longleftrightarrow> True"

fun calm_run :: "template_request list \<Rightarrow> template_db \<Rightarrow> bool" where
  "calm_run [] db \<longleftrightarrow> True"
| "calm_run (r # rs) db \<longleftrightarrow> calm r db \<and> (case template_step r db of None \<Rightarrow> True | Some db' \<Rightarrow> calm_run rs db')"

lemma archived_idle_set:
  "archived_idle db \<Longrightarrow> (\<And>t. tr_id (f t) = tr_id t \<and> tr_active (f t) = tr_active t \<and> tr_archived (f t) = tr_archived t) \<Longrightarrow>
   archived_idle (set_template i f db)"
  unfolding archived_idle_def set_template_def by auto

lemma archived_idle_frame [simp]:
  "archived_idle (audited now user action i db) = archived_idle db" "archived_idle (published e db) = archived_idle db"
  "archived_idle (auditEdit now user i db) = archived_idle db"
  by (simp_all add: archived_idle_def)

lemma template_step_idle:
  assumes ok: "templates_ok db" and idle: "archived_idle db" and step: "template_step r db = Some db'" and calm: "calm r db"
  shows "archived_idle db'"
proof (cases r)
  case (Create_Template now user i fresh input)
  show ?thesis
  proof (cases "create now i fresh user input db")
    case (Pair r' d)
    then have d: "d = db'" using step Create_Template by simp
    have "known_in db a" if "a \<in> set (td_activating db)" for a using ok that by (simp add: templates_ok_def)
    then show ?thesis using Pair idle unfolding d
      by (auto simp: create_def archived_idle_def known_in_def split: option.splits sum.splits if_splits)
  qed
next
  case (Save_Template now user fresh i input)
  then show ?thesis using step idle
    by (auto simp: save_def split: option.splits sum.splits if_splits intro!: archived_idle_set)
next
  case (Apply_Ops now user i batchId raw)
  then obtain r' where a: "applyOps now user i batchId raw db = Some (r', db')" using step by auto
  show ?thesis
  proof (cases r')
    case (Inl e)
    then show ?thesis using a idle
      by (auto simp: applyOps_def Let_def split: option.splits sum.splits if_splits prod.splits Option.bind_splits)
  next
    case (Inr revision)
    from a [unfolded Inr] show ?thesis
      by (rule applyOps_saved) (auto intro!: archived_idle_set [OF idle])
  qed
next
  case (Set_Active user i active)
  then have "setActive user i active db = (fst (setActive user i active db), db')" using step by auto
  then show ?thesis
  proof (cases rule: setActive_cases)
    case (2 t)
    have "x = t" if "x \<in> set (td_templates db)" "tr_id x = i" for x
      using distinct_map_eqD [of tr_id "td_templates db" x t] template_of_facts [OF 2(1)] that ok by (simp add: templates_ok_def)
    then show ?thesis using idle 2(2) by (auto simp: 2(3) archived_idle_def)
  qed (use idle in simp)
next
  case (Finish_Active now a)
  then have "a \<in> set (td_activating db)" "db' = finishActive now a db" using step by (auto split: if_splits)
  then show ?thesis using idle set_remove1_subset [of a "td_activating db"]
    by (auto simp: archived_idle_def finishActive_frame activated_def split: if_splits)
next
  case (Archive_Template now user i)
  then show ?thesis using step idle calm
    by (auto simp: archive_def Let_def archived_idle_def set_template_def list_ex_iff split: option.splits if_splits)
qed

text \<open>
  C11. Whatever requests the service answers, and whatever comes between the two halves of an
  activation, its rows keep the rules of the office: no property in two groups of a template or
  twice in one, no more than two hundred groups of twenty-four, no two groups anywhere with one id,
  and for each organization one active template at most; and unless a template is archived while an
  activation of it is under way, the active one is not an archived one.
\<close>

theorem templates_keep_their_rules:
  assumes "templates_ok db" "template_run requests db = Some db'"
  shows "templates_ok db' \<and> (archived_idle db \<and> calm_run requests db \<longrightarrow> archived_idle db')"
  using assms
proof (induction requests arbitrary: db)
  case (Cons r rs)
  then obtain mid where mid: "template_step r db = Some mid" "template_run rs mid = Some db'" by (cases "template_step r db") auto
  have ok: "templates_ok mid" by (rule template_step_ok [OF Cons.prems(1) mid(1)])
  have "archived_idle mid \<and> calm_run rs mid" if "archived_idle db \<and> calm_run (r # rs) db"
    using template_step_idle [OF Cons.prems(1) _ mid(1)] that mid(1) by simp
  then show ?case using Cons.IH [OF ok mid(2)] by blast
qed simp

definition rows_kept :: "template_db \<Rightarrow> template_db \<Rightarrow> bool" where
  "rows_kept db db' \<longleftrightarrow> list_all2 kept_row (td_templates db) (take (length (td_templates db)) (td_templates db'))"

lemma list_all2_map_kept: "(\<And>t. kept_row t (f t)) \<Longrightarrow> list_all2 kept_row ts (map f ts)"
  by (induction ts) auto

lemma rows_kept_map: "td_templates db' = map f (td_templates db) \<Longrightarrow> (\<And>t. kept_row t (f t)) \<Longrightarrow> rows_kept db db'"
  by (simp add: rows_kept_def list_all2_map_kept)

lemma rows_kept_same: "td_templates db' = td_templates db \<Longrightarrow> rows_kept db db'"
  using rows_kept_map [of db' id db] by simp

lemma template_step_keeps: "template_step r db = Some db' \<Longrightarrow> rows_kept db db'"
proof -
  have set: "rows_kept db (set_template i f db)" if "\<And>t. kept_row t (f t)" for i f
    by (rule rows_kept_map [where f = "\<lambda>t. if tr_id t = i then f t else t"]) (use that in \<open>simp_all add: set_template_def\<close>)
  have frame: "rows_kept db d = rows_kept db (audited now user action i d)" "rows_kept db d = rows_kept db (published e d)"
    "rows_kept db d = rows_kept db (auditEdit now user i d)" for d now user action i e
    by (simp_all add: rows_kept_def)
  have refl: "rows_kept db db" by (simp add: rows_kept_same)
  assume "template_step r db = Some db'"
  then show ?thesis
  proof (cases r)
    case (Create_Template now user i fresh input)
    then show ?thesis using \<open>template_step r db = Some db'\<close> refl list.rel_refl [of kept_row]
      by (auto simp: create_def rows_kept_def split: option.splits sum.splits if_splits)
  next
    case (Save_Template now user fresh i input)
    then show ?thesis using \<open>template_step r db = Some db'\<close> refl
      by (auto simp: save_def kept_row_def split: option.splits sum.splits if_splits simp flip: frame intro!: set)
  next
    case (Apply_Ops now user i batchId raw)
    then obtain r' where a: "applyOps now user i batchId raw db = Some (r', db')" using \<open>template_step r db = Some db'\<close> by auto
    show ?thesis
    proof (cases r')
      case (Inl e)
      then show ?thesis using a refl
        by (auto simp: applyOps_def Let_def split: option.splits sum.splits if_splits prod.splits Option.bind_splits)
    next
      case (Inr revision)
      from a [unfolded Inr] show ?thesis
        by (rule applyOps_saved) (simp add: kept_row_def flip: frame, auto intro!: set simp: kept_row_def)
    qed
  next
    case (Set_Active user i active)
    then have "setActive user i active db = (fst (setActive user i active db), db')"
      using \<open>template_step r db = Some db'\<close> by auto
    then show ?thesis
      by (cases rule: setActive_cases) (use refl rows_kept_same [of db' db] in auto)
  next
    case (Finish_Active now a)
    then have "td_templates db' = map (activated (av_user a) (av_template a) (av_active a)) (td_templates db)"
      using \<open>template_step r db = Some db'\<close> by (auto simp: finishActive_frame split: if_splits)
    then show ?thesis by (rule rows_kept_map) simp
  next
    case (Archive_Template now user i)
    then show ?thesis using \<open>template_step r db = Some db'\<close> refl
      by (auto simp: archive_def Let_def kept_row_def split: option.splits if_splits simp flip: frame intro!: set)
  qed
qed

lemma rows_kept_trans: "rows_kept a b \<Longrightarrow> rows_kept b c \<Longrightarrow> rows_kept a c"
proof -
  assume a: "rows_kept a b" and b: "rows_kept b c"
  let ?n = "length (td_templates a)"
  have n: "?n \<le> length (td_templates b)" using list_all2_lengthD [OF a [unfolded rows_kept_def]] by simp
  have "list_all2 kept_row (take ?n (td_templates b)) (take ?n (take (length (td_templates b)) (td_templates c)))"
    using b unfolding rows_kept_def by (rule list_all2_takeI)
  then have "list_all2 kept_row (take ?n (td_templates b)) (take ?n (td_templates c))" using n by (simp add: min_absorb1)
  with a show ?thesis unfolding rows_kept_def using list_all2_trans [of kept_row kept_row kept_row] kept_row_trans by blast
qed

lemma template_run_keeps: "template_run requests db = Some db' \<Longrightarrow> rows_kept db db'"
proof (induction requests arbitrary: db)
  case (Cons r rs)
  then obtain db1 where "template_step r db = Some db1" "template_run rs db1 = Some db'" by (cases "template_step r db") auto
  then show ?case using template_step_keeps Cons.IH rows_kept_trans by blast
qed (simp add: rows_kept_same)

section \<open>Saving over somebody else\<close>

lemma template_of_in: "distinct (map tr_id (td_templates db)) \<Longrightarrow> t \<in> set (td_templates db) \<Longrightarrow> template_of db (tr_org t) (tr_id t) = Some t"
proof -
  assume d: "distinct (map tr_id (td_templates db))" and t: "t \<in> set (td_templates db)"
  then obtain t' where "template_of db (tr_org t) (tr_id t) = Some t'"
    unfolding template_of_def by (cases "find (\<lambda>x. tr_id x = tr_id t \<and> tr_org x = tr_org t) (td_templates db)") (auto simp: find_None_iff)
  with template_of_facts [OF this] distinct_map_eqD [OF d _ t] show ?thesis by auto
qed

lemma rows_kept_template:
  assumes "rows_kept db db'" "templates_ok db'" "template_of db org i = Some t"
  obtains t' where "template_of db' org i = Some t'" "kept_row t t'"
proof -
  have t: "t \<in> set (td_templates db)" "tr_id t = i" "tr_org t = org" using template_of_facts [OF assms(3)] by auto
  let ?n = "length (td_templates db)"
  from t(1) obtain k where k: "k < ?n" "td_templates db ! k = t" by (auto simp: in_set_conv_nth)
  have all: "list_all2 kept_row (td_templates db) (take ?n (td_templates db'))" using assms(1) by (simp add: rows_kept_def)
  let ?t = "take ?n (td_templates db') ! k"
  have kept: "kept_row t ?t" using list_all2_nthD [OF all k(1)] k(2) by simp
  have "?t \<in> set (take ?n (td_templates db'))" using k(1) list_all2_lengthD [OF all] by (intro nth_mem) simp
  then have "?t \<in> set (td_templates db')" by (rule in_set_takeD)
  then have "template_of db' (tr_org ?t) (tr_id ?t) = Some ?t" using assms(2) by (intro template_of_in) (simp_all add: templates_ok_def)
  with kept t show ?thesis using that by (auto simp: kept_row_def)
qed

text \<open>
  C12. A save overwrites only what its author saw. Somebody opened a template, whatever happened to
  it since, and now saves under the revision they opened: either the save is refused and changes
  nothing, or the template still has the name, the minutes and the groups they opened, and then it
  has the groups they sent, one revision on.
\<close>

theorem save_overwrites_what_was_seen:
  assumes "templates_ok db" "template_of db (us_org user) i = Some opened" "template_run requests db = Some now_db"
    and "ti_revision input = Some (tr_revision opened)"
  shows "case save at_time fresh user i input now_db of
      (Inl e, db') \<Rightarrow> db' = now_db
    | (Inr revision, db') \<Rightarrow>
        (case (template_of now_db (us_org user) i, template_of db' (us_org user) i) of
           (Some t, Some t') \<Rightarrow> tr_groups t = tr_groups opened \<and> tr_name t = tr_name opened \<and> tr_minutes t = tr_minutes opened \<and>
             tr_groups t' = group_rows fresh (ti_groups input) \<and> tr_revision t' = tr_revision opened + 1 \<and> revision = tr_revision t'
         | _ \<Rightarrow> False)"
proof -
  have ok: "templates_ok now_db"
    using assms(1,3) template_step_ok
    by (induction requests arbitrary: db) (fastforce simp: Option.bind_eq_Some_conv)+
  obtain t where t: "template_of now_db (us_org user) i = Some t" "kept_row opened t"
    using rows_kept_template [OF template_run_keeps [OF assms(3)] ok assms(2)] .
  show ?thesis
  proof (cases "save at_time fresh user i input now_db")
    case (Pair r db')
    show ?thesis
    proof (cases r)
      case (Inl e)
      then show ?thesis using Pair by (auto simp: save_def split: option.splits sum.splits if_splits)
    next
      case (Inr revision)
      then obtain rows where c: "tr_revision t = tr_revision opened" "revision = tr_revision opened + 1"
        and w: "writeGroups fresh now_db i (ti_groups input) = Inr rows"
        and db': "td_templates db' = map (\<lambda>x. if tr_id x = i then x\<lparr>tr_name := js_trim (ti_name input),
            tr_minutes := (case ti_minutes input of None \<Rightarrow> tr_minutes x | Some m \<Rightarrow> m),
            tr_revision := tr_revision x + 1, tr_updatedBy := updatedBy user, tr_groups := rows\<rparr> else x) (td_templates now_db)"
        using Pair t assms(4) by (auto simp: save_def set_template_def split: option.splits sum.splits if_splits)
      have ids: "t \<in> set (td_templates now_db)" "tr_id t = i" "tr_org t = us_org user" using template_of_facts [OF t(1)] by auto
      let ?t = "t\<lparr>tr_name := js_trim (ti_name input), tr_minutes := (case ti_minutes input of None \<Rightarrow> tr_minutes t | Some m \<Rightarrow> m),
            tr_revision := tr_revision t + 1, tr_updatedBy := updatedBy user, tr_groups := rows\<rparr>"
      have "templates_ok db'" using save_ok [OF ok] Pair by simp
      moreover have "?t \<in> set (td_templates db')" unfolding db' using ids by force
      ultimately have "template_of db' (tr_org ?t) (tr_id ?t) = Some ?t" by (intro template_of_in) (simp_all add: templates_ok_def)
      moreover have "rows = group_rows fresh (ti_groups input)" using w by (auto simp: writeGroups_def Let_def split: if_splits)
      ultimately show ?thesis using t c ids Pair Inr by (auto simp: kept_row_def)
    qed
  qed
qed

definition office_user :: template_user where
  "office_user = \<lparr>us_id = ''u1'', us_org = ''org'', us_name = ''Maria'', us_machine = False, us_client = None\<rparr>"

definition first_group :: group_input where
  "first_group = \<lparr>gi_id = None, gi_name = ''Group 1'', gi_color = ''#FF0000'', gi_target = 9, gi_buildings = [''b1'', ''b2'']\<rparr>"

definition first_input :: template_input where
  "first_input = \<lparr>ti_name = ''Houston'', ti_minutes = None, ti_groups = [first_group], ti_revision = Some 1\<rparr>"

definition empty_office :: template_db where
  "empty_office = \<lparr>td_templates = [], td_buildings = [(''org'', ''b1''), (''org'', ''b2'')], td_tenancies = [], td_audit = [], td_events = [], td_activating = []\<rparr>"

definition one_template :: template_db where
  "one_template = snd (create 1 ''t1'' (\<lambda>n. ''g'' @ string_of_int (int n)) office_user first_input empty_office)"

lemma one_template_ok: "templates_ok one_template"
proof -
  have "templates_ok empty_office" by (simp add: templates_ok_def empty_office_def all_groups_def active_in_def)
  then show ?thesis unfolding one_template_def
    using create_ok [of empty_office 1 "''t1''" "\<lambda>n. ''g'' @ string_of_int (int n)" office_user first_input "fst (create 1 ''t1'' (\<lambda>n. ''g'' @ string_of_int (int n)) office_user first_input empty_office)"] by simp
qed

definition houston_active :: activation where
  "houston_active = \<lparr>av_user = office_user, av_template = ''t1'', av_active = True\<rparr>"

definition activated_then_archived :: "template_request list" where
  "activated_then_archived = [Set_Active office_user ''t1'' True, Finish_Active 2 houston_active, Archive_Template 3 office_user ''t1'']"

theorem templates_keep_their_rules_witness:
  "templates_ok (the (template_run activated_then_archived one_template)) \<and>
   archived_idle (the (template_run activated_then_archived one_template))"
proof -
  have run: "template_run activated_then_archived one_template = Some (the (template_run activated_then_archived one_template))" by code_simp
  have "archived_idle one_template" "calm_run activated_then_archived one_template" by code_simp+
  then show ?thesis using templates_keep_their_rules [OF one_template_ok run] by blast
qed

text \<open>An archive between the two halves of an activation leaves an archived template the active one.\<close>

lemma archived_made_active:
  "map (\<lambda>t. (tr_active t, tr_archived t)) (td_templates (the (template_run
      [Set_Active office_user ''t1'' True, Archive_Template 2 office_user ''t1'', Finish_Active 3 houston_active] one_template))) = [(True, Some 2)]"
  by code_simp

definition since_then :: "template_request list" where
  "since_then = [Set_Active office_user ''t1'' True, Finish_Active 2 houston_active]"

lemma one_template_there:
  "template_of one_template ''org'' ''t1'' = Some (the (template_of one_template ''org'' ''t1''))"
  "template_run since_then one_template = Some (the (template_run since_then one_template))"
  "ti_revision first_input = Some (tr_revision (the (template_of one_template ''org'' ''t1'')))"
  "us_org office_user = ''org''"
  by code_simp+

theorem save_overwrites_what_was_seen_witness:
  "case save 9 (\<lambda>n. ''h'' @ string_of_int (int n)) office_user ''t1'' first_input (the (template_run since_then one_template)) of
      (Inl e, db') \<Rightarrow> False
    | (Inr revision, db') \<Rightarrow> map_option tr_groups (template_of db' ''org'' ''t1'') =
        Some (group_rows (\<lambda>n. ''h'' @ string_of_int (int n)) (ti_groups first_input))"
proof -
  note s = save_overwrites_what_was_seen [where user = office_user and i = "''t1''", unfolded one_template_there(4),
      OF one_template_ok one_template_there(1-3), where at_time = 9 and fresh = "\<lambda>n. ''h'' @ string_of_int (int n)"]
  have "isl (fst (save 9 (\<lambda>n. ''h'' @ string_of_int (int n)) office_user ''t1'' first_input (the (template_run since_then one_template)))) = False"
    by code_simp
  with s show ?thesis by (auto split: prod.splits sum.splits option.splits)
qed

end
