(* ===== verification/Template_Live.thy ===== *)
theory Template_Live
  imports Group_Maker Template_Rows
begin

text \<open>
  Everyone on one live template: the service's rows and what it publishes, one browser's engine,
  and a network that loses, repeats and reorders. The other people are the requests that reach the
  service; each of them is the one browser of a system of their own.
\<close>

section \<open>The system\<close>

text \<open>\<open>sy_held\<close> is what the template held at each revision, for the proofs only.\<close>

record 'v live_system =
  sy_db :: template_db
  sy_held :: "int \<rightharpoonup> string live_groups"
  sy_client :: "'v template_sync"

definition noted :: "string \<Rightarrow> string \<Rightarrow> template_db \<Rightarrow> (int \<rightharpoonup> string live_groups) \<Rightarrow> (int \<rightharpoonup> string live_groups)" where
  "noted org i db held =
     (case template_of db org i of None \<Rightarrow> held | Some t \<Rightarrow> held(tr_revision t \<mapsto> tr_groups t))"

definition served :: "string \<Rightarrow> string \<Rightarrow> template_db \<Rightarrow> 'v live_system \<Rightarrow> 'v live_system" where
  "served org i db s = s\<lparr>sy_db := db, sy_held := noted org i db (sy_held s)\<rparr>"

text \<open>Requests from elsewhere: no batch of theirs has an id of this browser's \<open>crypto.randomUUID\<close>.\<close>

fun foreign :: "'v sync_deps \<Rightarrow> template_request \<Rightarrow> bool" where
  "foreign D (Apply_Ops now user i batchId raw) = (batchId \<notin> range (sd_newId D))"
| "foreign D r = True"

text \<open>
  What can happen next. An event reaches the browser late, twice or never; an answer is lost or
  arrives; a read gives what the template held at some time; a person edits whenever they like.
\<close>

inductive live_step :: "'v sync_deps \<Rightarrow> ('v \<Rightarrow> bool) \<Rightarrow> template_user \<Rightarrow> string \<Rightarrow> 'v live_system \<Rightarrow> 'v live_system \<Rightarrow> bool"
  for D ok user i where
  Request: "template_step r (sy_db s) = Some db \<Longrightarrow> foreign D r \<Longrightarrow> live_step D ok user i s (served (us_org user) i db s)"
| Post: "(batch, n) \<in> set (ts_posting (sy_client s)) \<Longrightarrow>
    template_step (Apply_Ops now user i (fst batch) (snd batch)) (sy_db s) = Some db \<Longrightarrow>
    live_step D ok user i s (served (us_org user) i db s)"
| Edit: "ok v \<Longrightarrow> onViewChange D minutes v (sy_client s) = Some c \<Longrightarrow> live_step D ok user i s (s\<lparr>sy_client := c\<rparr>)"
| Panel: "ops \<noteq> [] \<Longrightarrow> applyFromPanel D ops (sy_client s) = Some c \<Longrightarrow>
    live_step D ok user i s (s\<lparr>sy_client := c\<rparr>)"
| Hear: "Ops_Event i revision batchId ops who \<in> set (td_events (sy_db s)) \<Longrightarrow>
    received D revision (batchId, ops) (sy_client s) = Some c \<Longrightarrow> live_step D ok user i s (s\<lparr>sy_client := c\<rparr>)"
| Hear_Of: "live_step D ok user i s (s\<lparr>sy_client := resyncFrom revision (sy_client s)\<rparr>)"
| Answer: "sent \<in> set (ts_posting (sy_client s)) \<Longrightarrow> groupTemplateOpsSchema (snd (fst sent)) = Some ops \<Longrightarrow>
    Ops_Event i revision (fst (fst sent)) ops who \<in> set (td_events (sy_db s)) \<Longrightarrow>
    post_saved D sent revision (sy_client s) = Some c \<Longrightarrow> live_step D ok user i s (s\<lparr>sy_client := c\<rparr>)"
| Refuse: "sent \<in> set (ts_posting (sy_client s)) \<Longrightarrow>
    live_step D ok user i s (s\<lparr>sy_client := post_refused sent refusal (sy_client s)\<rparr>)"
| Lose: "sent \<in> set (ts_posting (sy_client s)) \<Longrightarrow> live_step D ok user i s (s\<lparr>sy_client := post_lost sent (sy_client s)\<rparr>)"
| Wake: "sent \<in> set (ts_sleeping (sy_client s)) \<Longrightarrow> live_step D ok user i s (s\<lparr>sy_client := slept sent (sy_client s)\<rparr>)"
| Read: "ts_resyncing (sy_client s) \<Longrightarrow> sy_held s revision = Some groups \<Longrightarrow> fetched D groups revision (sy_client s) = Some c \<Longrightarrow>
    live_step D ok user i s (s\<lparr>sy_client := c\<rparr>)"
| Not_Read: "ts_resyncing (sy_client s) \<Longrightarrow> live_step D ok user i s (s\<lparr>sy_client := fetch_failed (sy_client s)\<rparr>)"
| Timer: "timer \<in> set (ts_timers (sy_client s)) \<Longrightarrow> live_step D ok user i s (s\<lparr>sy_client := timer_fired timer (sy_client s)\<rparr>)"
| Close: "live_step D ok user i s (s\<lparr>sy_client := close (sy_client s)\<rparr>)"

text \<open>
  As long as names are plain and their numbers far from \<open>2 ^ 53\<close>, colours are written in lower case
  and fewer than a billion groups and batches wait. The service reads at most 500 operations.
\<close>

fun tame_event :: "string \<Rightarrow> template_event \<Rightarrow> bool" where
  "tame_event i (Ops_Event j revision batchId ops who) = (j = i \<longrightarrow> list_all (tame_op (2 ^ 50)) ops \<and> length ops \<le> 500)"
| "tame_event i (Replaced_Event j revision reason who) = True"

definition tame_system :: "'v sync_deps \<Rightarrow> template_user \<Rightarrow> string \<Rightarrow> 'v live_system \<Rightarrow> bool" where
  "tame_system D user i s \<longleftrightarrow>
     list_all (tame_event i) (td_events (sy_db s)) \<and>
     pred_option (\<lambda>t. tame_groups (2 ^ 50) (tr_groups t) \<and> length (tr_groups t) \<le> 10 ^ 9) (template_of (sy_db s) (us_org user) i) \<and>
     tame_groups (2 ^ 50) (sd_view D (ts_view (sy_client s))) \<and> length (sd_view D (ts_view (sy_client s))) \<le> 10 ^ 9 \<and>
     length (ts_arrived (sy_client s)) \<le> 10 ^ 9"

text \<open>A template opened: what it holds, read and drawn.\<close>

definition opened :: "'v sync_deps \<Rightarrow> ('v \<Rightarrow> bool) \<Rightarrow> template_user \<Rightarrow> string \<Rightarrow> 'v live_system \<Rightarrow> bool" where
  "opened D ok user i s \<longleftrightarrow> templates_ok (sy_db s) \<and> td_events (sy_db s) = [] \<and> tame_system D user i s \<and>
     (case template_of (sy_db s) (us_org user) i of
        None \<Rightarrow> False
      | Some t \<Rightarrow> sy_held s = [tr_revision t \<mapsto> tr_groups t] \<and> ok (ts_view (sy_client s)) \<and>
          sd_view D (ts_view (sy_client s)) = sd_visible D (tr_groups t) \<and>
          sy_client s = new_sync (tr_groups t) (tr_revision t) (ts_view (sy_client s)))"

inductive live :: "'v sync_deps \<Rightarrow> ('v \<Rightarrow> bool) \<Rightarrow> template_user \<Rightarrow> string \<Rightarrow> 'v live_system \<Rightarrow> bool" for D ok user i where
  "opened D ok user i s \<Longrightarrow> live D ok user i s"
| "live D ok user i s \<Longrightarrow> live_step D ok user i s s' \<Longrightarrow> tame_system D user i s' \<Longrightarrow> live D ok user i s'"

text \<open>Nothing of this person's on its way, and nothing of anyone's waited for.\<close>

definition quiet :: "'v template_sync \<Rightarrow> bool" where
  "quiet c \<longleftrightarrow> \<not> ts_closed c \<and> \<not> pending c \<and> \<not> ts_resyncing c \<and> ts_timers c = []"

section \<open>The service\<close>

definition service_inv :: "string \<Rightarrow> string \<Rightarrow> template_db \<Rightarrow> (int \<rightharpoonup> string live_groups) \<Rightarrow> bool" where
  "service_inv org i db held \<longleftrightarrow> templates_ok db \<and>
     (\<exists>t. template_of db org i = Some t \<and> held (tr_revision t) = Some (tr_groups t) \<and> (\<forall>r \<in> dom held. r \<le> tr_revision t)) \<and>
     (\<forall>r b ops w. Ops_Event i r b ops w \<in> set (td_events db) \<longrightarrow>
        (\<exists>g g'. held (r - 1) = Some g \<and> held r = Some g' \<and> applyGroupOps g ops = Some g')) \<and>
     (\<forall>gs \<in> ran held. tame_groups (2 ^ 50) gs \<and> length gs \<le> 10 ^ 9)"

text \<open>What a request publishes of a template: the one batch it applied.\<close>

lemma template_step_events:
  assumes step: "template_step r db = Some db'" and e: "Ops_Event j revision b ops w \<in> set (td_events db')"
  obtains "Ops_Event j revision b ops w \<in> set (td_events db)"
  | now user raw t after n m where "r = Apply_Ops now user j b raw" "groupTemplateOpsSchema raw = Some ops"
    "template_of db (us_org user) j = Some t" "revision = tr_revision t + 1" "applyGroupOps (tr_groups t) ops = Some after"
    "td_templates db' = td_templates (set_template j (\<lambda>t. t\<lparr>tr_name := n, tr_minutes := (case m of None \<Rightarrow> tr_minutes t | Some k \<Rightarrow> k),
          tr_revision := tr_revision t + 1, tr_updatedBy := updatedBy user,
          tr_groups := group_rows (\<lambda>_. '''') (ti_groups (input_of_groups n after))\<rparr>) db)"
proof (cases r)
  case (Apply_Ops now user i batchId raw)
  then obtain r' where a: "applyOps now user i batchId raw db = Some (r', db')" using step by auto
  show thesis
  proof (cases r')
    case (Inl e)
    then have "db' = db" using a
      by (auto simp: applyOps_def Let_def split: option.splits sum.splits if_splits prod.splits Option.bind_splits)
    then show thesis using e that(1) by simp
  next
    case (Inr rev')
    from a [unfolded Inr] show thesis
    proof (rule applyOps_saved, goal_cases)
      case (1 t ops' after n m)
      have events: "td_events db' = td_events db @ [Ops_Event i (tr_revision t + 1) batchId ops' (us_name user)]"
        by (simp add: 1(8) auditEdit_def audited_def published_def set_template_def)
      show thesis
      proof (cases "Ops_Event j revision b ops w \<in> set (td_events db)")
        case False
        then have "j = i" "revision = tr_revision t + 1" "b = batchId" "ops = ops'" using e events by simp_all
        then show thesis using that(2) [of now user raw t after n m] 1 Apply_Ops by simp
      qed (rule that(1))
    qed
  qed
next
  case (Create_Template now user i fresh input)
  then show thesis using step e that(1)
    by (auto simp: create_def audited_def split: option.splits sum.splits if_splits)
next
  case (Save_Template now user fresh i input)
  then show thesis using step e that(1)
    by (auto simp: save_def audited_def published_def set_template_def split: option.splits sum.splits if_splits)
next
  case (Set_Active user i active)
  then show thesis using step e that(1) by (auto simp: setActive_def split: option.splits if_splits)
next
  case (Finish_Active now a)
  then show thesis using step e that(1)
    by (auto simp: finishActive_def Let_def audited_def published_def set_template_def split: option.splits if_splits)
next
  case (Archive_Template now user i)
  then show thesis using step e that(1)
    by (auto simp: archive_def Let_def audited_def published_def set_template_def split: option.splits if_splits)
qed

text \<open>Groups with trimmed names and lower-case colours are written as they are.\<close>

lemma rows_as_given:
  assumes "tame_groups B gs"
  shows "group_rows (\<lambda>_. '''') (ti_groups (input_of_groups n gs)) = gs"
proof -
  have "js_trim (lg_name g) = lg_name g" "toLowerCase (lg_color g) = lg_color g" if "g \<in> set gs" for g
    using assms that by (auto simp: tame_groups_def list_all_iff tame_name_def plain_name_def)
  then have "map (\<lambda>(k, g). \<lparr>lg_id = lg_id g, lg_name = js_trim (lg_name g), lg_color = toLowerCase (lg_color g), lg_target = lg_target g,
      lg_stops = lg_stops g\<rparr>) (enumerate k gs) = gs" for k
    by (induction gs arbitrary: k) simp_all
  moreover have "enumerate k (map f xs) = map (\<lambda>(i, x). (i, f x)) (enumerate k xs)" for k and f :: "string live_group \<Rightarrow> group_input" and xs
    by (induction xs arbitrary: k) simp_all
  ultimately show ?thesis by (simp add: group_rows_def input_of_groups_def comp_def split_def)
qed

lemma template_of_replaced:
  assumes "templates_ok db'" "template_of db org i = Some t" "tr_id (f t) = i" "tr_org (f t) = org"
    and "td_templates db' = td_templates (set_template i f db)"
  shows "template_of db' org i = Some (f t)"
proof -
  have "f t \<in> set (td_templates db')" using template_of_facts [OF assms(2)] by (force simp: assms(5) set_template_def)
  then show ?thesis using template_of_in [of db' "f t"] assms(1,3,4) by (simp add: templates_ok_def)
qed

lemma template_of_org: "templates_ok db \<Longrightarrow> template_of db org i = Some t \<Longrightarrow> template_of db org' i = Some t' \<Longrightarrow> t' = t"
  using template_of_facts [of db org i t] template_of_facts [of db org' i t'] distinct_map_eqD [of tr_id "td_templates db" t' t]
  by (simp add: templates_ok_def)

lemma map_le_iff: "m \<subseteq>\<^sub>m m' \<longleftrightarrow> (\<forall>k v. m k = Some v \<longrightarrow> m' k = Some v)"
  by (force simp: map_le_def dom_def)

lemma service_step:
  assumes inv: "service_inv org i db held" and step: "template_step r db = Some db'"
    and tame: "list_all (tame_event i) (td_events db')"
      "pred_option (\<lambda>t. tame_groups (2 ^ 50) (tr_groups t) \<and> length (tr_groups t) \<le> 10 ^ 9) (template_of db' org i)"
  shows "service_inv org i db' (noted org i db' held) \<and> held \<subseteq>\<^sub>m noted org i db' held"
proof -
  obtain t where ok: "templates_ok db" and t: "template_of db org i = Some t" "held (tr_revision t) = Some (tr_groups t)"
    "\<And>r. r \<in> dom held \<Longrightarrow> r \<le> tr_revision t"
    and events: "\<And>r b ops w. Ops_Event i r b ops w \<in> set (td_events db) \<Longrightarrow>
        \<exists>g g'. held (r - 1) = Some g \<and> held r = Some g' \<and> applyGroupOps g ops = Some g'"
    and all_tame: "\<And>gs. gs \<in> ran held \<Longrightarrow> tame_groups (2 ^ 50) gs \<and> length gs \<le> 10 ^ 9"
    using inv unfolding service_inv_def by blast
  have ok': "templates_ok db'" by (rule template_step_ok [OF ok step])
  obtain t' where t': "template_of db' org i = Some t'" "kept_row t t'"
    using rows_kept_template [OF template_step_keeps [OF step] ok' t(1)] .
  let ?held = "held(tr_revision t' \<mapsto> tr_groups t')"
  have held: "noted org i db' held = ?held" by (simp add: noted_def t'(1))
  have le: "tr_revision t \<le> tr_revision t'" using t'(2) by (auto simp: kept_row_def)
  have sub: "held \<subseteq>\<^sub>m ?held"
    unfolding map_le_iff
  proof (intro allI impI)
    fix r gs assume r: "held r = Some gs"
    show "?held r = Some gs"
    proof (cases "r = tr_revision t'")
      case True
      then have "r = tr_revision t" using r t(3) le by (metis domI order_antisym)
      then show ?thesis using True r t(2) t'(2) by (auto simp: kept_row_def)
    qed (use r in simp)
  qed
  have "\<exists>g g'. ?held (r - 1) = Some g \<and> ?held r = Some g' \<and> applyGroupOps g ops = Some g'"
    if e: "Ops_Event i r b ops w \<in> set (td_events db')" for r b ops w
    using step e
  proof (cases rule: template_step_events)
    case 1
    from events [OF 1] show ?thesis using sub unfolding map_le_iff by blast
  next
    case (2 now user raw u after n m)
    have u: "u = t" by (rule template_of_org [OF ok t(1) 2(3)])
    have org: "us_org user = org" using template_of_facts [OF 2(3)] template_of_facts [OF t(1)] u by simp
    have ops: "list_all (tame_op (2 ^ 50)) ops" "length ops \<le> 500" using tame(1) e by (force simp: list_all_iff)+
    have "tame_groups (2 ^ 50) (tr_groups t)" using all_tame t(2) by (auto simp: ran_def)
    from apply_tame [OF this ops(1) _ _ 2(5) [unfolded u]] ops(2)
    have "tame_groups (2 ^ 50 + int (length ops)) after" by (simp add: MAX_COUNTED_def)
    from rows_as_given [OF this] have rows: "group_rows (\<lambda>_. '''') (ti_groups (input_of_groups n after)) = after" for n .
    have "template_of db' org i = Some (t\<lparr>tr_name := n, tr_minutes := (case m of None \<Rightarrow> tr_minutes t | Some k \<Rightarrow> k),
          tr_revision := tr_revision t + 1, tr_updatedBy := updatedBy user, tr_groups := after\<rparr>)"
      using template_of_replaced [OF ok' t(1) _ _ 2(6)] template_of_facts [OF t(1)] by (simp add: rows)
    then have "tr_revision t' = tr_revision t + 1" "tr_groups t' = after" using t'(1) by auto
    moreover have "?held (tr_revision t) = Some (tr_groups t)" using sub t(2) unfolding map_le_iff by blast
    ultimately show ?thesis using 2(4,5) u by auto
  qed
  moreover have "\<And>gs. gs \<in> ran ?held \<Longrightarrow> tame_groups (2 ^ 50) gs \<and> length gs \<le> 10 ^ 9"
    using all_tame tame(2) by (auto simp: t'(1) ran_def split: if_splits)
  moreover have "\<And>r. r \<in> dom ?held \<Longrightarrow> r \<le> tr_revision t'" using t(3) le by fastforce
  ultimately show ?thesis using ok' t'(1) sub unfolding held service_inv_def by simp
qed

section \<open>The browser\<close>

text \<open>A batch the engine holds is one the service published, as sent or as read.\<close>

definition batch_saved :: "string \<Rightarrow> template_event list \<Rightarrow> int \<Rightarrow> batch \<Rightarrow> bool" where
  "batch_saved i events r b \<longleftrightarrow>
     (\<exists>ops w. Ops_Event i r (fst b) ops w \<in> set events \<and> (snd b = ops \<or> groupTemplateOpsSchema (snd b) = Some ops))"

definition follows :: "'v sync_deps \<Rightarrow> ('v \<Rightarrow> bool) \<Rightarrow> string \<Rightarrow> template_event list \<Rightarrow> (int \<rightharpoonup> string live_groups) \<Rightarrow> 'v template_sync \<Rightarrow> bool" where
  "follows D ok i events held c \<longleftrightarrow> held (ts_revision c) = Some (ts_confirmed c) \<and>
     (\<forall>(r, b) \<in> set (ts_arrived c). batch_saved i events r b) \<and> ok (ts_view c)"

definition settled :: "'v sync_deps \<Rightarrow> 'v template_sync \<Rightarrow> bool" where
  "settled D c \<longleftrightarrow> (quiet c \<longrightarrow> sd_view D (ts_view c) = sd_visible D (ts_confirmed c))"

definition published_ok :: "string \<Rightarrow> template_event list \<Rightarrow> (int \<rightharpoonup> string live_groups) \<Rightarrow> bool" where
  "published_ok i events held \<longleftrightarrow> list_all (tame_event i) events \<and>
     (\<forall>r b ops w. Ops_Event i r b ops w \<in> set events \<longrightarrow>
        (\<exists>g g'. held (r - 1) = Some g \<and> held r = Some g' \<and> applyGroupOps g ops = Some g')) \<and>
     (\<forall>gs \<in> ran held. tame_groups (2 ^ 50) gs \<and> length gs \<le> 10 ^ 9)"

lemma batch_saved_facts:
  assumes "published_ok i events held" "batch_saved i events r b"
  shows "list_all (tame_op (2 ^ 50)) (snd b)" "length (snd b) \<le> 500"
    "\<exists>g g'. held (r - 1) = Some g \<and> held r = Some g' \<and> applyGroupOps g (snd b) = Some g'"
proof -
  obtain ops w where e: "Ops_Event i r (fst b) ops w \<in> set events" and o: "snd b = ops \<or> groupTemplateOpsSchema (snd b) = Some ops"
    using assms(2) by (auto simp: batch_saved_def)
  have "tame_event i (Ops_Event i r (fst b) ops w)" using assms(1) e unfolding published_ok_def list_all_iff by blast
  then have "list_all (tame_op (2 ^ 50)) ops" "length ops \<le> 500" by simp_all
  with o show "list_all (tame_op (2 ^ 50)) (snd b)" "length (snd b) \<le> 500" using schema_ops [of "snd b" ops] by auto
  have "\<exists>g g'. held (r - 1) = Some g \<and> held r = Some g' \<and> applyGroupOps g ops = Some g'"
    using assms(1) e unfolding published_ok_def by blast
  with o show "\<exists>g g'. held (r - 1) = Some g \<and> held r = Some g' \<and> applyGroupOps g (snd b) = Some g'"
    using schema_ops(1) [of "snd b" ops] by auto
qed

text \<open>What the pieces leave alone.\<close>

lemma gap_frame [simp]:
  "ts_confirmed (clearGap c) = ts_confirmed c" "ts_revision (clearGap c) = ts_revision c" "ts_queue (clearGap c) = ts_queue c"
  "ts_inflight (clearGap c) = ts_inflight c" "ts_arrived (clearGap c) = ts_arrived c" "ts_resyncing (clearGap c) = ts_resyncing c"
  "ts_closed (clearGap c) = ts_closed c" "ts_view (clearGap c) = ts_view c" "ts_posting (clearGap c) = ts_posting c"
  "ts_sleeping (clearGap c) = ts_sleeping c" "ts_ids (clearGap c) = ts_ids c"
  "ts_confirmed (set_gap c) = ts_confirmed c" "ts_revision (set_gap c) = ts_revision c" "ts_queue (set_gap c) = ts_queue c"
  "ts_inflight (set_gap c) = ts_inflight c" "ts_arrived (set_gap c) = ts_arrived c" "ts_resyncing (set_gap c) = ts_resyncing c"
  "ts_closed (set_gap c) = ts_closed c" "ts_view (set_gap c) = ts_view c" "ts_posting (set_gap c) = ts_posting c"
  "ts_sleeping (set_gap c) = ts_sleeping c" "ts_ids (set_gap c) = ts_ids c" "ts_timers (set_gap c) \<noteq> []"
  by (simp_all add: clearGap_def set_gap_def split: option.splits)

lemma renew_frame [simp]:
  "ts_confirmed (renew_gap c) = ts_confirmed c" "ts_revision (renew_gap c) = ts_revision c" "ts_queue (renew_gap c) = ts_queue c"
  "ts_inflight (renew_gap c) = ts_inflight c" "ts_arrived (renew_gap c) = ts_arrived c" "ts_resyncing (renew_gap c) = ts_resyncing c"
  "ts_closed (renew_gap c) = ts_closed c" "ts_view (renew_gap c) = ts_view c" "ts_posting (renew_gap c) = ts_posting c"
  "ts_sleeping (renew_gap c) = ts_sleeping c" "ts_ids (renew_gap c) = ts_ids c"
  by (simp_all add: renew_gap_def Let_def)

lemma status_frame [simp]:
  "ts_confirmed (onStatus x c) = ts_confirmed c" "ts_revision (onStatus x c) = ts_revision c" "ts_queue (onStatus x c) = ts_queue c"
  "ts_inflight (onStatus x c) = ts_inflight c" "ts_arrived (onStatus x c) = ts_arrived c" "ts_resyncing (onStatus x c) = ts_resyncing c"
  "ts_closed (onStatus x c) = ts_closed c" "ts_view (onStatus x c) = ts_view c" "ts_posting (onStatus x c) = ts_posting c"
  "ts_sleeping (onStatus x c) = ts_sleeping c" "ts_ids (onStatus x c) = ts_ids c" "ts_timers (onStatus x c) = ts_timers c"
  by (simp_all add: onStatus_def)

lemma flush_frame [simp]:
  "ts_confirmed (flush D c) = ts_confirmed c" "ts_revision (flush D c) = ts_revision c" "ts_arrived (flush D c) = ts_arrived c"
  "ts_resyncing (flush D c) = ts_resyncing c" "ts_closed (flush D c) = ts_closed c" "ts_view (flush D c) = ts_view c"
  "ts_timers (flush D c) = ts_timers c" "ts_sleeping (flush D c) = ts_sleeping c"
  by (simp_all add: flush_def Let_def)

lemma flush_pending: "ts_queue c \<noteq> [] \<Longrightarrow> pending (flush D c) \<or> ts_closed c \<or> ts_resyncing c"
  by (auto simp: flush_def Let_def pending_def)

lemma flush_settled [simp]: "ts_queue c \<noteq> [] \<Longrightarrow> settled D (flush D c)"
  using flush_pending [of c D] by (auto simp: settled_def quiet_def)

lemma follows_cong:
  "ts_confirmed c' = ts_confirmed c \<Longrightarrow> ts_revision c' = ts_revision c \<Longrightarrow> ts_arrived c' = ts_arrived c \<Longrightarrow> ts_view c' = ts_view c \<Longrightarrow>
   follows D ok i events held c' = follows D ok i events held c"
  by (simp add: follows_def)

context live_view
begin

lemma take_batch_follows:
  assumes p: "published_ok i events held" and c: "follows D ok i events held c" "tame_groups B (sd_view D (ts_view c))"
    and b: "map_of (ts_arrived c) (ts_revision c + 1) = Some b" "take_batch D b c = Some c'"
    and B: "2 ^ 50 \<le> B" "B + 500 \<le> MAX_COUNTED"
  shows "follows D ok i events held c' \<and> tame_groups (B + 500) (sd_view D (ts_view c'))"
proof -
  have saved: "batch_saved i events (ts_revision c + 1) b"
    using c(1) map_of_SomeD [OF b(1)] by (auto simp: follows_def)
  note facts = batch_saved_facts [OF p saved]
  obtain g g' where g: "held (ts_revision c) = Some g" "held (ts_revision c + 1) = Some g'" "applyGroupOps g (snd b) = Some g'"
    using facts(3) by auto
  have conf: "applyGroupOps (ts_confirmed c) (snd b) = Some g'" using c(1) g by (simp add: follows_def)
  have rest: "\<forall>(r, b) \<in> set (AList.delete (ts_revision c + 1) (ts_arrived c)). batch_saved i events r b"
    using c(1) by (auto simp: follows_def AList.delete_eq)
  show ?thesis
  proof (cases "map_option fst (ts_inflight c) = Some (fst b)")
    case True
    then have "ts_view c' = ts_view c" "ts_revision c' = ts_revision c + 1" "ts_confirmed c' = g'"
      "ts_arrived c' = AList.delete (ts_revision c + 1) (ts_arrived c)"
      using b(2) conf by (auto simp: take_batch_def Let_def)
    then show ?thesis using c g(2) rest tame_groups_mono [OF c(2), of "B + 500"] by (auto simp: follows_def)
  next
    case False
    then obtain v where v: "sd_applyToView D (snd b) (ts_view c) = Some v" and c': "ts_view c' = v" "ts_revision c' = ts_revision c + 1"
      "ts_confirmed c' = g'" "ts_arrived c' = AList.delete (ts_revision c + 1) (ts_arrived c)"
      using b(2) conf by (auto simp: take_batch_def Let_def)
    have "list_all (tame_op B) (snd b)" using facts(1) tame_op_mono B(1) by (auto simp: list_all_iff)
    with v have "tame_groups (B + int (length (snd b))) (sd_view D v)"
      by (intro keeps [OF _ c(2)]) (use c(1) B facts(2) in \<open>auto simp: follows_def\<close>)
    then have "tame_groups (B + 500) (sd_view D v)"
      using tame_groups_mono [of "B + int (length (snd b))" "sd_view D v" "B + 500"] facts(2) by simp
    moreover have "ok v" using stays [OF _ v] c(1) by (simp add: follows_def)
    ultimately show ?thesis using c' g(2) rest by (simp add: follows_def)
  qed
qed

lemma advance_loop_follows:
  assumes p: "published_ok i events held"
  shows "advance_loop D c = Some c' \<Longrightarrow> follows D ok i events held c \<Longrightarrow> tame_groups B (sd_view D (ts_view c)) \<Longrightarrow> 2 ^ 50 \<le> B \<Longrightarrow>
    B + 500 * int (length (ts_arrived c)) \<le> MAX_COUNTED \<Longrightarrow>
    follows D ok i events held c' \<and> tame_groups (B + 500 * int (length (ts_arrived c))) (sd_view D (ts_view c'))"
proof (induction "length (ts_arrived c)" arbitrary: c B rule: less_induct)
  case less
  show ?case
  proof (cases "map_of (ts_arrived c) (ts_revision c + 1)")
    case None
    then have "c' = c" using less(2) by (simp add: advance_loop.simps)
    then show ?thesis using less(3,4) tame_groups_mono [of B _ "B + 500 * int (length (ts_arrived c))"] by simp
  next
    case (Some b)
    then obtain m where m: "take_batch D b c = Some m" "advance_loop D m = Some c'"
      using less(2) by (auto simp: advance_loop.simps [of D c] split: option.splits)
    have fewer: "length (ts_arrived m) < length (ts_arrived c)"
      using take_batch_arrived [OF m(1)] length_delete [OF Some] by simp
    then have one: "B + 500 * int (length (ts_arrived m)) + 500 \<le> B + 500 * int (length (ts_arrived c))" by linarith
    with less(6) have "B + 500 \<le> MAX_COUNTED" by linarith
    from take_batch_follows [OF p less(3,4) Some m(1) less(5) this]
    have "follows D ok i events held m" "tame_groups (B + 500) (sd_view D (ts_view m))" by blast+
    from less(1) [OF fewer m(2) this] less(5,6) one
    have "follows D ok i events held c' \<and> tame_groups (B + 500 + 500 * int (length (ts_arrived m))) (sd_view D (ts_view c'))" by simp
    then show ?thesis using one
      tame_groups_mono [of "B + 500 + 500 * int (length (ts_arrived m))" "sd_view D (ts_view c')" "B + 500 * int (length (ts_arrived c))"] by simp
  qed
qed

text \<open>A view in order, brought to what the server holds.\<close>

lemma brought_follows:
  assumes p: "published_ok i events held" and c: "follows D ok i events held c" "tame_groups (2 ^ 52) (sd_view D (ts_view c))"
    and b: "bring_view D (sd_visible D (ts_confirmed c)) c = Some c'"
  shows "follows D ok i events held c' \<and> sd_view D (ts_view c') = sd_visible D (ts_confirmed c') \<and> (\<exists>v. c' = c\<lparr>ts_view := v\<rparr>)"
proof -
  have "ts_confirmed c \<in> ran held" using c(1) by (auto simp: follows_def ran_def)
  then have g: "tame_groups (2 ^ 50) (ts_confirmed c)" "length (ts_confirmed c) \<le> 10 ^ 9" using p by (auto simp: published_ok_def)
  have "\<exists>v'. c' = c\<lparr>ts_view := v'\<rparr> \<and> ok v' \<and> sd_view D v' = sd_visible D (ts_confirmed c)"
    by (rule brought [OF _ c(2) _ _ _ b]) (use c(1) g tame_groups_mono [OF g(1)] in \<open>auto simp: follows_def\<close>)
  then show ?thesis using c(1) by (auto simp: follows_def)
qed

lemma advance_follows:
  assumes p: "published_ok i events held" and c: "follows D ok i events held c" "tame_groups (2 ^ 50) (sd_view D (ts_view c))"
    and n: "length (ts_arrived c) \<le> 10 ^ 9 + 1" and step: "advance D c = Some c'"
  shows "follows D ok i events held c' \<and> settled D c'"
proof -
  obtain m where m: "advance_loop D c = Some m" and c': "advanced D (renew_gap m) = Some c'"
    using step by (auto simp: advance_def bind_eq_Some_conv)
  have "follows D ok i events held m \<and> tame_groups (2 ^ 50 + 500 * int (length (ts_arrived c))) (sd_view D (ts_view m))"
    by (rule advance_loop_follows [OF p m c]) (use n in \<open>simp_all add: MAX_COUNTED_def\<close>)
  then have f: "follows D ok i events held m" and t: "tame_groups (2 ^ 52) (sd_view D (ts_view m))"
    using tame_groups_mono [of "2 ^ 50 + 500 * int (length (ts_arrived c))" "sd_view D (ts_view m)" "2 ^ 52"] n by auto
  define k where "k = renew_gap m"
  have k: "ts_confirmed k = ts_confirmed m" "ts_revision k = ts_revision m" "ts_arrived k = ts_arrived m" "ts_view k = ts_view m"
    by (simp_all add: k_def)
  have fk: "follows D ok i events held k" and tk: "tame_groups (2 ^ 52) (sd_view D (ts_view k))" using f t follows_cong [OF k] k(4) by simp_all
  consider "ts_inflight k \<noteq> None" "c' = k" | "ts_queue k \<noteq> []" "c' = flush D k"
    | s where "settle D k = Some s" "c' = onStatus Is_Saved s"
    using c' unfolding advanced_def k_def by (auto split: if_splits)
  then show ?thesis
  proof cases
    case 1
    then show ?thesis using fk by (simp add: settled_def quiet_def pending_def)
  next
    case 2
    then show ?thesis using fk follows_cong [of "flush D k" k] by simp
  next
    case 3
    from brought_follows [OF p fk tk 3(1) [unfolded settle_def]]
    have "follows D ok i events held s" "sd_view D (ts_view s) = sd_visible D (ts_confirmed s)" by blast+
    then show ?thesis using 3(2) follows_cong [of "onStatus Is_Saved s" s] by (simp add: settled_def)
  qed
qed

lemma resync_follows:
  "follows D ok i events held c \<Longrightarrow> settled D c \<Longrightarrow> follows D ok i events held (resync c) \<and> settled D (resync c)"
  by (simp add: resync_def follows_def settled_def quiet_def)

lemma fetched_follows:
  assumes p: "published_ok i events held" and c: "follows D ok i events held c" "tame_groups (2 ^ 50) (sd_view D (ts_view c))"
    and g: "held revision = Some groups" and step: "fetched D groups revision c = Some c'"
  shows "follows D ok i events held c' \<and> settled D c'"
proof -
  obtain target s where t: "applyGroupOps groups (ts_queue c) = Some target"
    and s: "bring_view D (sd_visible D target) (c\<lparr>ts_confirmed := groups, ts_revision := revision, ts_arrived := [], ts_inflight := None\<rparr>) = Some s"
    and c': "c' = (let s = s\<lparr>ts_resyncing := False\<rparr> in if ts_queue s \<noteq> [] then flush D s else onStatus Is_Saved s)"
    using step by (auto simp: fetched_def Let_def bind_eq_Some_conv)
  let ?r = "c\<lparr>ts_confirmed := groups, ts_revision := revision, ts_arrived := [], ts_inflight := None\<rparr>"
  have r: "follows D ok i events held ?r" using c(1) g by (simp add: follows_def)
  have view: "\<exists>v. s = ?r\<lparr>ts_view := v\<rparr> \<and> ok v"
  proof (cases "sameGroups (sd_view D (ts_view c)) (sd_visible D target)")
    case True
    then have "s = ?r" using s by (simp add: bring_view_def)
    moreover have "?r = ?r\<lparr>ts_view := ts_view c\<rparr>" by (rule template_sync.equality) simp_all
    ultimately show ?thesis using c(1) by (metis follows_def)
  next
    case False
    then show ?thesis using s c(1) stays [of "ts_view c"] by (auto simp: bring_view_def Let_def follows_def bind_eq_Some_conv)
  qed
  then have f: "follows D ok i events held (s\<lparr>ts_resyncing := False\<rparr>)" using r by (auto simp: follows_def)
  show ?thesis
  proof (cases "ts_queue c = []")
    case True
    then have "bring_view D (sd_visible D (ts_confirmed ?r)) ?r = Some s" using t s by simp
    moreover have "tame_groups (2 ^ 52) (sd_view D (ts_view ?r))" using tame_groups_mono [OF c(2)] by simp
    ultimately have "sd_view D (ts_view s) = sd_visible D (ts_confirmed s)" using brought_follows [OF p r] by blast
    moreover have "ts_queue s = []" using view True by auto
    ultimately show ?thesis using f c' follows_cong [of c' "s\<lparr>ts_resyncing := False\<rparr>"] by (simp add: settled_def)
  next
    case False
    moreover have "ts_queue s = ts_queue c" using view by auto
    ultimately show ?thesis using f c' follows_cong [of c' "s\<lparr>ts_resyncing := False\<rparr>"] by simp
  qed
qed

text \<open>One step of the system.\<close>

lemma local_follows:
  "follows D ok i events held (c\<lparr>ts_view := v\<rparr>) \<Longrightarrow> follows D ok i events held (local D ops (c\<lparr>ts_view := v\<rparr>)) \<and>
    (ops \<noteq> [] \<longrightarrow> settled D (local D ops (c\<lparr>ts_view := v\<rparr>)))"
  using follows_cong [of "local D ops (c\<lparr>ts_view := v\<rparr>)" "c\<lparr>ts_view := v\<rparr>"]
    flush_settled [of "c\<lparr>ts_view := v, ts_queue := ts_queue c @ ops\<rparr>" D]
  by (auto simp: local_def) (auto simp: settled_def quiet_def)

lemma received_follows:
  assumes p: "published_ok i events held" and c: "follows D ok i events held c" "tame_groups (2 ^ 50) (sd_view D (ts_view c))"
    and old: "settled D c" and n: "length (ts_arrived c) \<le> 10 ^ 9" and b: "batch_saved i events r b" and step: "received D r b c = Some c'"
  shows "follows D ok i events held c' \<and> settled D c'"
proof (cases "ts_closed c \<or> r \<le> ts_revision c")
  case False
  let ?c = "if map_of (ts_arrived c) r = None then c\<lparr>ts_arrived := ts_arrived c @ [(r, b)]\<rparr> else c"
  show ?thesis
    by (rule advance_follows [OF p, of ?c]) (use False c n b step in \<open>auto simp: received_def follows_def\<close>)
qed (use c old step in \<open>auto simp: received_def\<close>)

lemma post_saved_follows:
  assumes p: "published_ok i events held" and c: "follows D ok i events held c" "tame_groups (2 ^ 50) (sd_view D (ts_view c))"
    and old: "settled D c" and n: "length (ts_arrived c) \<le> 10 ^ 9" and b: "batch_saved i events r (fst sent)"
    and step: "post_saved D sent r c = Some c'"
  shows "follows D ok i events held c' \<and> settled D c'"
proof (cases "ts_inflight c = Some (fst sent)")
  case True
  let ?c = "c\<lparr>ts_posting := remove1 sent (ts_posting c)\<rparr>"
  let ?d = "if ts_revision ?c < r \<and> map_of (ts_arrived ?c) r = None then ?c\<lparr>ts_arrived := ts_arrived ?c @ [(r, fst sent)]\<rparr> else ?c"
  show ?thesis
    by (rule advance_follows [OF p, of ?d]) (use True c n b step in \<open>auto simp: post_saved_def follows_def Let_def\<close>)
next
  case False
  then have "c' = c\<lparr>ts_posting := remove1 sent (ts_posting c)\<rparr>" using step by (auto simp: post_saved_def)
  then show ?thesis using c(1) old by (simp add: follows_def settled_def quiet_def pending_def)
qed

lemma edit_follows:
  assumes c: "follows D ok i events held c" "settled D c" and tame: "tame_groups (2 ^ 50) (sd_view D (ts_view c))" "tame_groups (2 ^ 50) (sd_view D (ts_view c'))"
    and v: "ok v" and step: "onViewChange D minutes v c = Some c'" and n: "length (sd_view D (ts_view c')) \<le> 10 ^ 9"
  shows "follows D ok i events held c' \<and> settled D c'"
proof -
  obtain ops where ops: "diffGroupOps (sd_view D (ts_view c)) (sd_view D v) = Some ops"
    using step by (auto simp: onViewChange_def)
  define all where "all = (case minutes of None \<Rightarrow> [] | Some m \<Rightarrow> if 5 \<le> m \<and> m \<le> 240 then [Template_Update None (Some m)] else []) @ ops"
  have c': "c' = local D all (c\<lparr>ts_view := v\<rparr>)" using step ops by (simp add: onViewChange_def all_def)
  have "ts_view c' = v" by (simp add: c' local_def)
  have f: "follows D ok i events held (c\<lparr>ts_view := v\<rparr>)" using c(1) v by (simp add: follows_def)
  show ?thesis
  proof (cases "all = []")
    case True
    then have "ops = []" by (simp add: all_def)
    have "Option.bind (diffGroupOps (sd_view D (ts_view c)) (sd_view D v)) (applyGroupOps (sd_view D (ts_view c))) = Some (sd_view D v)"
      using tame n \<open>ts_view c' = v\<close> tame_groups_facts [OF tame(1)] tame_groups_facts [OF tame(2)]
      by (intro diff_apply [where B = "2 ^ 50"]) simp_all
    then have "sd_view D v = sd_view D (ts_view c)" using ops \<open>ops = []\<close> by simp
    then show ?thesis using f c(2) True c' by (simp add: local_def settled_def quiet_def pending_def)
  next
    case False
    then show ?thesis using local_follows [OF f, of all] c' by simp
  qed
qed

end

definition live_inv :: "'v sync_deps \<Rightarrow> ('v \<Rightarrow> bool) \<Rightarrow> template_user \<Rightarrow> string \<Rightarrow> 'v live_system \<Rightarrow> bool" where
  "live_inv D ok user i s \<longleftrightarrow> service_inv (us_org user) i (sy_db s) (sy_held s) \<and>
     follows D ok i (td_events (sy_db s)) (sy_held s) (sy_client s) \<and> settled D (sy_client s)"

lemma template_step_adds: "template_step r db = Some db' \<Longrightarrow> set (td_events db) \<subseteq> set (td_events db')"
proof (cases r)
  case (Apply_Ops now user i batchId raw)
  assume "template_step r db = Some db'"
  then obtain r' where a: "applyOps now user i batchId raw db = Some (r', db')" using Apply_Ops by auto
  show ?thesis
  proof (cases r')
    case (Inl e)
    then show ?thesis using a
      by (auto simp: applyOps_def Let_def split: option.splits sum.splits if_splits prod.splits Option.bind_splits)
  next
    case (Inr rev')
    from a [unfolded Inr] show ?thesis
      by (rule applyOps_saved) (auto simp: auditEdit_def audited_def published_def set_template_def)
  qed
qed (auto simp: create_def save_def setActive_def finishActive_def archive_def Let_def audited_def published_def set_template_def split: option.splits sum.splits if_splits)

lemma follows_mono: "follows D ok i events held c \<Longrightarrow> set events \<subseteq> set events' \<Longrightarrow> held \<subseteq>\<^sub>m held' \<Longrightarrow> follows D ok i events' held' c"
  unfolding follows_def batch_saved_def map_le_iff by fast

lemma service_published:
  "service_inv org i db held \<Longrightarrow> list_all (tame_event i) (td_events db) \<Longrightarrow> published_ok i (td_events db) held"
  unfolding service_inv_def published_ok_def by blast

lemma served_inv:
  assumes inv: "live_inv D ok user i s" and step: "template_step r (sy_db s) = Some db"
    and tame: "tame_system D user i (served (us_org user) i db s)"
  shows "live_inv D ok user i (served (us_org user) i db s)"
proof -
  have "list_all (tame_event i) (td_events db)"
    "pred_option (\<lambda>t. tame_groups (2 ^ 50) (tr_groups t) \<and> length (tr_groups t) \<le> 10 ^ 9) (template_of db (us_org user) i)"
    using tame by (simp_all add: tame_system_def served_def)
  from service_step [OF _ step this, of "sy_held s"] inv template_step_adds [OF step] follows_mono show ?thesis
    by (auto simp: live_inv_def served_def)
qed

context live_view
begin

lemma live_step_inv:
  assumes "live_step D ok user i s s'" and inv: "live_inv D ok user i s" and tame: "tame_system D user i s" "tame_system D user i s'"
  shows "live_inv D ok user i s'"
proof -
  note i = inv [unfolded live_inv_def]
  have p: "published_ok i (td_events (sy_db s)) (sy_held s)"
    using i tame(1) by (intro service_published) (auto simp: tame_system_def)
  have f: "follows D ok i (td_events (sy_db s)) (sy_held s) (sy_client s)" and old: "settled D (sy_client s)" using i by blast+
  have t: "tame_groups (2 ^ 50) (sd_view D (ts_view (sy_client s)))" and n: "length (ts_arrived (sy_client s)) \<le> 10 ^ 9"
    using tame(1) by (simp_all add: tame_system_def)
  have client: "live_inv D ok user i (s\<lparr>sy_client := c\<rparr>)"
    if "follows D ok i (td_events (sy_db s)) (sy_held s) c \<and> settled D c" for c
    using i that by (simp add: live_inv_def)
  have same: "follows D ok i (td_events (sy_db s)) (sy_held s) c \<and> settled D c"
    if "ts_confirmed c = ts_confirmed (sy_client s)" "ts_revision c = ts_revision (sy_client s)" "ts_arrived c = ts_arrived (sy_client s)"
      "ts_view c = ts_view (sy_client s)" "quiet c \<Longrightarrow> quiet (sy_client s)" for c
    using f old follows_cong [OF that(1-4)] that by (simp add: settled_def)
  have again: "follows D ok i (td_events (sy_db s)) (sy_held s) (resync c) \<and> settled D (resync c)"
    if "ts_confirmed c = ts_confirmed (sy_client s)" "ts_revision c = ts_revision (sy_client s)" "ts_arrived c = ts_arrived (sy_client s)"
      "ts_view c = ts_view (sy_client s)" for c
    using f follows_cong [OF that(1-4)] that follows_cong [of "resync c" c D ok i "td_events (sy_db s)" "sy_held s"]
    by (simp add: resync_def settled_def quiet_def)
  from assms(1) show ?thesis
  proof cases
    case (Request r db)
    then show ?thesis using served_inv [OF inv] tame(2) by simp
  next
    case (Post batch n now db)
    show ?thesis using served_inv [OF inv Post(3)] tame(2) unfolding Post(1) .
  next
    case (Edit v minutes c)
    then show ?thesis using edit_follows [OF f old t] tame(2) client by (simp add: tame_system_def)
  next
    case (Panel ops c)
    then obtain v where v: "sd_applyToView D ops (ts_view (sy_client s)) = Some v" and c: "c = local D ops ((sy_client s)\<lparr>ts_view := v\<rparr>)"
      by (auto simp: applyFromPanel_def)
    have "follows D ok i (td_events (sy_db s)) (sy_held s) ((sy_client s)\<lparr>ts_view := v\<rparr>)"
      using f stays [OF _ v] by (simp add: follows_def)
    from local_follows [OF this, of ops] Panel(2) show ?thesis unfolding Panel(1) c by (intro client) blast
  next
    case (Hear revision batchId ops who c)
    then have "batch_saved i (td_events (sy_db s)) revision (batchId, ops)" by (auto simp: batch_saved_def)
    then show ?thesis using Hear received_follows [OF p f t old n] client by simp
  next
    case (Hear_Of revision)
    then show ?thesis using again [OF refl refl refl refl] f old client by (auto simp: resyncFrom_def split: option.splits)
  next
    case (Answer sent ops revision who c)
    then have "batch_saved i (td_events (sy_db s)) revision (fst sent)" by (auto simp: batch_saved_def)
    then show ?thesis using Answer post_saved_follows [OF p f t old n] client by simp
  next
    case (Refuse sent refusal)
    show ?thesis unfolding Refuse(1) post_refused_def Let_def by (rule client, rule again) simp_all
  next
    case (Lose sent)
    show ?thesis unfolding Lose(1) by (rule client, rule same) (simp_all add: post_lost_def quiet_def pending_def)
  next
    case (Wake sent)
    show ?thesis unfolding Wake(1) by (rule client, rule same) (auto simp: slept_def Let_def quiet_def pending_def split: if_splits)
  next
    case (Read revision groups c)
    then show ?thesis using fetched_follows [OF p f t] client by simp
  next
    case Not_Read
    show ?thesis unfolding Not_Read(1) by (rule client, rule same) (simp_all add: fetch_failed_def quiet_def)
  next
    case (Timer timer)
    show ?thesis unfolding Timer(1) timer_fired_def by (rule client, rule again) simp_all
  next
    case Close
    show ?thesis unfolding Close by (rule client, rule same) (simp_all add: close_def quiet_def)
  qed
qed

lemma live_holds: "live D ok user i s \<Longrightarrow> live_inv D ok user i s \<and> tame_system D user i s"
proof (induction rule: live.induct)
  case (1 s)
  then obtain t where t: "template_of (sy_db s) (us_org user) i = Some t" "sy_held s = [tr_revision t \<mapsto> tr_groups t]"
    "ok (ts_view (sy_client s))" "sd_view D (ts_view (sy_client s)) = sd_visible D (tr_groups t)"
    "sy_client s = new_sync (tr_groups t) (tr_revision t) (ts_view (sy_client s))"
    by (auto simp: opened_def split: option.splits)
  let ?c = "new_sync (tr_groups t) (tr_revision t) (ts_view (sy_client s))"
  have "follows D ok i (td_events (sy_db s)) (sy_held s) ?c \<and> settled D ?c"
    using t(2-4) by (simp add: new_sync_def follows_def settled_def)
  then have "follows D ok i (td_events (sy_db s)) (sy_held s) (sy_client s) \<and> settled D (sy_client s)"
    by (subst (1 2) t(5))
  moreover have "service_inv (us_org user) i (sy_db s) (sy_held s)" "tame_system D user i s"
    using 1 t(1,2) by (auto simp: opened_def service_inv_def tame_system_def)
  ultimately show ?case by (simp add: live_inv_def)
next
  case (2 s s')
  then show ?case using live_step_inv by blast
qed

text \<open>Quiet, a person sees what the service held at the revision the engine has reached.\<close>

lemma quiet_view:
  assumes "live D ok user i s" "quiet (sy_client s)"
  obtains groups where "sy_held s (ts_revision (sy_client s)) = Some groups" "sd_view D (ts_view (sy_client s)) = sd_visible D groups"
  using live_holds [OF assms(1)] assms(2) by (auto simp: live_inv_def follows_def settled_def)

lemma caught_up:
  assumes l: "live D ok user i s" and q: "quiet (sy_client s)" and t: "template_of (sy_db s) (us_org user) i = Some t"
    and r: "ts_revision (sy_client s) = tr_revision t"
  shows "sd_view D (ts_view (sy_client s)) = sd_visible D (tr_groups t)"
proof -
  obtain groups where g: "sy_held s (ts_revision (sy_client s)) = Some groups" "sd_view D (ts_view (sy_client s)) = sd_visible D groups"
    using quiet_view [OF l q] .
  moreover have "sy_held s (tr_revision t) = Some (tr_groups t)" using live_holds [OF l] t by (auto simp: live_inv_def service_inv_def)
  ultimately show ?thesis using r by simp
qed

end

end
