(* ===== verification/Template_Alive.thy ===== *)
theory Template_Alive
  imports Template_Live
begin

text \<open>
  No change of this person's waits for nothing: as long as one is on its way, a request, a sleep, a
  read or a timer is too. The ids of \<open>crypto.randomUUID\<close> are taken to be all different.
\<close>

section \<open>Something is always on its way\<close>

text \<open>
  Batches carry ids of this browser in order; the one in flight is newer than what the engine has
  followed, and is being sent, is asleep, or has arrived; and what has arrived and what is queued
  wait for a read or a timer.
\<close>

definition event_ids :: "string \<Rightarrow> template_event list \<Rightarrow> (int \<times> string) set" where
  "event_ids i events = {(r, b). \<exists>ops w. Ops_Event i r b ops w \<in> set events}"

definition sent_batches :: "'v template_sync \<Rightarrow> batch set" where
  "sent_batches c = fst ` (set (ts_posting c) \<union> set (ts_sleeping c))"

definition ids_ok :: "'v sync_deps \<Rightarrow> string \<Rightarrow> template_event list \<Rightarrow> 'v template_sync \<Rightarrow> bool" where
  "ids_ok D i events c \<longleftrightarrow>
     (\<forall>b \<in> sent_batches c. \<exists>k < ts_ids c. fst b = sd_newId D k) \<and>
     (\<forall>(r, b) \<in> event_ids i events. \<forall>k. b = sd_newId D k \<longrightarrow> k < ts_ids c)"

definition flight_ok :: "string \<Rightarrow> template_event list \<Rightarrow> 'v template_sync \<Rightarrow> bool" where
  "flight_ok i events c \<longleftrightarrow>
     (\<forall>b. ts_inflight c = Some b \<longrightarrow>
        (\<forall>r. (r, fst b) \<in> event_ids i events \<longrightarrow> ts_revision c < r) \<and>
        (ts_closed c \<or> b \<in> sent_batches c \<or> (\<exists>r \<in> fst ` set (ts_arrived c). (r, fst b) \<in> event_ids i events)))"

definition arrived_ok :: "string \<Rightarrow> template_event list \<Rightarrow> 'v template_sync \<Rightarrow> bool" where
  "arrived_ok i events c \<longleftrightarrow> (\<forall>(r, b) \<in> set (ts_arrived c). (r, fst b) \<in> event_ids i events)"

definition awake :: "'v template_sync \<Rightarrow> bool" where
  "awake c \<longleftrightarrow> ts_closed c \<or> ts_resyncing c \<or> ts_timers c \<noteq> [] \<or> ts_arrived c = [] \<and> (ts_queue c = [] \<or> ts_inflight c \<noteq> None)"

definition going :: "'v sync_deps \<Rightarrow> string \<Rightarrow> template_event list \<Rightarrow> 'v template_sync \<Rightarrow> bool" where
  "going D i events c \<longleftrightarrow> ids_ok D i events c \<and> flight_ok i events c \<and> arrived_ok i events c"

definition one_batch :: "string \<Rightarrow> template_event list \<Rightarrow> bool" where
  "one_batch i events \<longleftrightarrow> (\<forall>r b b'. (r, b) \<in> event_ids i events \<longrightarrow> (r, b') \<in> event_ids i events \<longrightarrow> b = b')"

lemma going_cong:
  "ts_revision c' = ts_revision c \<Longrightarrow> ts_inflight c' = ts_inflight c \<Longrightarrow> ts_arrived c' = ts_arrived c \<Longrightarrow> ts_ids c' = ts_ids c \<Longrightarrow>
   ts_posting c' = ts_posting c \<Longrightarrow> ts_sleeping c' = ts_sleeping c \<Longrightarrow> (ts_closed c \<Longrightarrow> ts_closed c') \<Longrightarrow>
   going D i events c \<Longrightarrow> going D i events c'"
  by (auto simp: going_def ids_ok_def flight_ok_def arrived_ok_def sent_batches_def)

lemma take_batch_frame:
  assumes "take_batch D b c = Some c'"
  shows "ts_revision c' = ts_revision c + 1" "ts_ids c' = ts_ids c" "ts_posting c' = ts_posting c" "ts_sleeping c' = ts_sleeping c"
    "ts_closed c' = ts_closed c" "ts_queue c' = ts_queue c" "ts_resyncing c' = ts_resyncing c"
    "ts_inflight c' = (if map_option fst (ts_inflight c) = Some (fst b) then None else ts_inflight c)"
    "ts_arrived c' = AList.delete (ts_revision c + 1) (ts_arrived c)"
proof -
  let ?own = "map_option fst (ts_inflight c) = Some (fst b)"
  let ?m = "\<lambda>confirmed. c\<lparr>ts_arrived := AList.delete (ts_revision c + 1) (ts_arrived c), ts_revision := ts_revision c + 1, ts_confirmed := confirmed\<rparr>"
  obtain confirmed where "if ?own then c' = ?m confirmed\<lparr>ts_inflight := None\<rparr> else \<exists>v. c' = ?m confirmed\<lparr>ts_view := v\<rparr>"
    using assms by (cases ?own) (auto simp: take_batch_def Let_def bind_eq_Some_conv)
  then show "ts_revision c' = ts_revision c + 1" "ts_ids c' = ts_ids c" "ts_posting c' = ts_posting c" "ts_sleeping c' = ts_sleeping c"
    "ts_closed c' = ts_closed c" "ts_queue c' = ts_queue c" "ts_resyncing c' = ts_resyncing c"
    "ts_inflight c' = (if ?own then None else ts_inflight c)" "ts_arrived c' = AList.delete (ts_revision c + 1) (ts_arrived c)"
    by (auto split: if_splits)
qed

lemma take_batch_going:
  assumes e: "one_batch i events" and c: "going D i events c" and b: "map_of (ts_arrived c) (ts_revision c + 1) = Some b"
    and step: "take_batch D b c = Some c'"
  shows "going D i events c'"
proof -
  note f = take_batch_frame [OF step]
  have saved: "(ts_revision c + 1, fst b) \<in> event_ids i events"
    using c map_of_SomeD [OF b] by (auto simp: going_def arrived_ok_def)
  have "flight_ok i events c'" unfolding flight_ok_def
  proof (intro allI impI)
    fix x assume x: "ts_inflight c' = Some x"
    then have xi: "ts_inflight c = Some x" "fst x \<noteq> fst b" using f(8) by (cases x; cases b; auto split: if_splits)+
    have other: "r \<noteq> ts_revision c + 1" if "(r, fst x) \<in> event_ids i events" for r
      using that e saved xi(2) unfolding one_batch_def by blast
    have old: "\<And>r. (r, fst x) \<in> event_ids i events \<Longrightarrow> ts_revision c < r"
      "ts_closed c \<or> x \<in> sent_batches c \<or> (\<exists>r \<in> fst ` set (ts_arrived c). (r, fst x) \<in> event_ids i events)"
      using c xi(1) by (auto simp: going_def flight_ok_def)
    have "ts_revision c' < r" if "(r, fst x) \<in> event_ids i events" for r
      using old(1) [OF that] other [OF that] f(1) by simp
    moreover have "r \<in> fst ` set (ts_arrived c')" if "r \<in> fst ` set (ts_arrived c)" "(r, fst x) \<in> event_ids i events" for r
      using that(1) other [OF that(2)] f(9) by (force simp: AList.delete_eq)
    ultimately show "(\<forall>r. (r, fst x) \<in> event_ids i events \<longrightarrow> ts_revision c' < r) \<and>
        (ts_closed c' \<or> x \<in> sent_batches c' \<or> (\<exists>r \<in> fst ` set (ts_arrived c'). (r, fst x) \<in> event_ids i events))"
      using old(2) f(3-5) unfolding sent_batches_def by (simp only: f) blast
  qed
  moreover have "ids_ok D i events c'" using c f(2-4) by (simp add: going_def ids_ok_def sent_batches_def)
  moreover have "arrived_ok i events c'" using c f(9) by (auto simp: going_def arrived_ok_def AList.delete_eq)
  ultimately show ?thesis by (simp add: going_def)
qed

lemma advance_loop_going:
  "one_batch i events \<Longrightarrow> advance_loop D c = Some c' \<Longrightarrow> going D i events c \<Longrightarrow> going D i events c' \<and>
    ts_closed c' = ts_closed c \<and> ts_resyncing c' = ts_resyncing c \<and> ts_queue c' = ts_queue c"
proof (induction "length (ts_arrived c)" arbitrary: c rule: less_induct)
  case less
  show ?case
  proof (cases "map_of (ts_arrived c) (ts_revision c + 1)")
    case None
    then show ?thesis using less by (simp add: advance_loop.simps)
  next
    case (Some b)
    then obtain m where m: "take_batch D b c = Some m" "advance_loop D m = Some c'"
      using less(3) by (auto simp: advance_loop.simps [of D c] split: option.splits)
    have "length (ts_arrived m) < length (ts_arrived c)"
      using take_batch_arrived [OF m(1)] length_delete [OF Some] by simp
    from less(1) [OF this less(2) m(2) take_batch_going [OF less(2,4) Some m(1)]] take_batch_frame [OF m(1)]
    show ?thesis by simp
  qed
qed

lemma flush_going:
  assumes inj: "inj (sd_newId D)" and c: "going D i events c"
  shows "going D i events (flush D c)"
proof (cases "ts_closed c \<or> ts_resyncing c \<or> ts_inflight c \<noteq> None \<or> ts_queue c = []")
  case True
  then show ?thesis using c by (simp add: flush_def)
next
  case False
  let ?b = "(sd_newId D (ts_ids c), ts_queue c)"
  have f: "ts_inflight (flush D c) = Some ?b" "ts_posting (flush D c) = ts_posting c @ [(?b, 0)]" "ts_ids (flush D c) = ts_ids c + 1"
    using False by (simp_all add: flush_def Let_def onStatus_def)
  have none: "(r, fst ?b) \<notin> event_ids i events" for r
    using c inj by (force simp: going_def ids_ok_def inj_def)
  have "ids_ok D i events (flush D c)"
  proof -
    have old: "\<forall>b \<in> sent_batches c. \<exists>k < ts_ids c. fst b = sd_newId D k" "\<forall>(r, b) \<in> event_ids i events. \<forall>k. b = sd_newId D k \<longrightarrow> k < ts_ids c"
      using c by (simp_all add: going_def ids_ok_def)
    have "sent_batches (flush D c) = insert ?b (sent_batches c)" using f(2) by (auto simp: sent_batches_def)
    moreover have "\<exists>k < ts_ids c + 1. fst b = sd_newId D k" if "b \<in> insert ?b (sent_batches c)" for b
      using that old(1) less_SucI by fastforce
    ultimately show ?thesis using old(2) f(3) unfolding ids_ok_def by (simp add: less_Suc_eq) fast
  qed
  moreover have "flight_ok i events (flush D c)" using f none by (auto simp: flight_ok_def sent_batches_def)
  moreover have "arrived_ok i events (flush D c)" using c by (simp add: going_def arrived_ok_def)
  ultimately show ?thesis by (simp add: going_def)
qed

lemma flush_awake: "ts_queue c \<noteq> [] \<Longrightarrow> ts_arrived c = [] \<or> ts_timers c \<noteq> [] \<Longrightarrow> awake (flush D c)"
  using flush_pending [of c D] by (auto simp: awake_def flush_def Let_def)

lemma renew_awake: "ts_arrived (renew_gap c) = [] \<or> ts_timers (renew_gap c) \<noteq> []"
  by (simp add: renew_gap_def Let_def)

lemma bring_view_frame: "bring_view D target c = Some c' \<Longrightarrow> \<exists>v. c' = c\<lparr>ts_view := v\<rparr>"
proof (cases "sameGroups (sd_view D (ts_view c)) target")
  case True
  assume "bring_view D target c = Some c'"
  then have "c' = c" using True by (simp add: bring_view_def)
  moreover have "c = c\<lparr>ts_view := ts_view c\<rparr>" by (rule template_sync.equality) simp_all
  ultimately show ?thesis by blast
next
  case False
  then show "bring_view D target c = Some c' \<Longrightarrow> ?thesis" by (auto simp: bring_view_def Let_def bind_eq_Some_conv)
qed

lemma advance_going:
  assumes e: "one_batch i events" and inj: "inj (sd_newId D)" and c: "going D i events c" and step: "advance D c = Some c'"
  shows "going D i events c' \<and> awake c'"
proof -
  obtain m where m: "advance_loop D c = Some m" and c': "advanced D (renew_gap m) = Some c'"
    using step by (auto simp: advance_def bind_eq_Some_conv)
  define k where "k = renew_gap m"
  have k: "going D i events k"
    by (rule going_cong [of k m]) (use advance_loop_going [OF e m c] in \<open>simp_all add: k_def\<close>)
  have w: "ts_arrived k = [] \<or> ts_timers k \<noteq> []" unfolding k_def by (rule renew_awake)
  consider "ts_inflight k \<noteq> None" "c' = k" | "ts_queue k \<noteq> []" "c' = flush D k"
    | s where "ts_queue k = []" "settle D k = Some s" "c' = onStatus Is_Saved s"
    using c' unfolding advanced_def k_def by (auto split: if_splits)
  then show ?thesis
  proof cases
    case 1
    then show ?thesis using k w by (auto simp: awake_def)
  next
    case 2
    then show ?thesis using flush_going [OF inj k] flush_awake [OF 2(1) w] by simp
  next
    case 3
    from bring_view_frame [OF 3(2) [unfolded settle_def]] obtain v where "s = k\<lparr>ts_view := v\<rparr>" ..
    then show ?thesis using 3(1,3) w k going_cong [of c' k] by (auto simp: awake_def)
  qed
qed

lemma arrive_going:
  assumes c: "going D i events c" and b: "(r, fst b) \<in> event_ids i events"
  shows "going D i events (c\<lparr>ts_arrived := ts_arrived c @ [(r, b)]\<rparr>)"
  using c b by (auto simp: going_def ids_ok_def flight_ok_def arrived_ok_def sent_batches_def)

lemma received_going:
  assumes "one_batch i events" "inj (sd_newId D)" "going D i events c" "awake c" "(r, fst b) \<in> event_ids i events"
    "received D r b c = Some c'"
  shows "going D i events c' \<and> awake c'"
  using assms advance_going [OF assms(1,2), of "if map_of (ts_arrived c) r = None then c\<lparr>ts_arrived := ts_arrived c @ [(r, b)]\<rparr> else c" c']
    arrive_going [OF assms(3,5)]
  by (auto simp: received_def split: if_splits)

text \<open>A batch whose \<open>flush\<close> is done with it leaves the list it was in.\<close>

lemma remove1_sent: "b \<noteq> fst x \<Longrightarrow> b \<in> fst ` (set (remove1 x xs) \<union> Y) \<longleftrightarrow> b \<in> fst ` (set xs \<union> Y)"
proof -
  assume "b \<noteq> fst x"
  then have "b \<in> fst ` set (remove1 x xs) \<longleftrightarrow> b \<in> fst ` set xs" by (induction xs) auto
  then show ?thesis by (simp add: image_Un)
qed

lemma done_going:
  assumes c: "going D i events c" and "ts_inflight c \<noteq> Some (fst sent)"
  shows "going D i events (c\<lparr>ts_posting := remove1 sent (ts_posting c)\<rparr>)" "going D i events (c\<lparr>ts_sleeping := remove1 sent (ts_sleeping c)\<rparr>)"
proof -
  have sub: "sent_batches (c\<lparr>ts_posting := remove1 sent (ts_posting c)\<rparr>) \<subseteq> sent_batches c"
    "sent_batches (c\<lparr>ts_sleeping := remove1 sent (ts_sleeping c)\<rparr>) \<subseteq> sent_batches c"
    using set_remove1_subset by (fastforce simp: sent_batches_def)+
  have same: "b \<in> sent_batches (c\<lparr>ts_posting := remove1 sent (ts_posting c)\<rparr>)" "b \<in> sent_batches (c\<lparr>ts_sleeping := remove1 sent (ts_sleeping c)\<rparr>)"
    if "b \<in> sent_batches c" "ts_inflight c = Some b" for b
    using that remove1_sent [of b sent] assms(2) by (auto simp: sent_batches_def Un_commute)
  show "going D i events (c\<lparr>ts_posting := remove1 sent (ts_posting c)\<rparr>)" "going D i events (c\<lparr>ts_sleeping := remove1 sent (ts_sleeping c)\<rparr>)"
    using c sub same unfolding going_def ids_ok_def flight_ok_def arrived_ok_def by simp_all blast+
qed

lemma post_saved_going:
  assumes e: "one_batch i events" and inj: "inj (sd_newId D)" and c: "going D i events c" "awake c"
    and b: "(r, fst (fst sent)) \<in> event_ids i events" and step: "post_saved D sent r c = Some c'"
  shows "going D i events c' \<and> awake c'"
proof (cases "ts_inflight c = Some (fst sent)")
  case False
  then have "c' = c\<lparr>ts_posting := remove1 sent (ts_posting c)\<rparr>" using step by (auto simp: post_saved_def)
  then show ?thesis using done_going(1) [OF c(1) False] c(2) by (simp add: awake_def)
next
  case True
  have new: "ts_revision c < r" using c(1) True b by (auto simp: going_def flight_ok_def)
  let ?c = "c\<lparr>ts_posting := remove1 sent (ts_posting c)\<rparr>"
  let ?d = "if map_of (ts_arrived c) r = None then ?c\<lparr>ts_arrived := ts_arrived ?c @ [(r, fst sent)]\<rparr> else ?c"
  have "going D i events ?d"
  proof -
    have "sent_batches ?d \<subseteq> sent_batches c"
      using set_remove1_subset [of sent "ts_posting c"] by (auto simp: sent_batches_def)
    then have "ids_ok D i events ?d" using c(1) unfolding going_def ids_ok_def by auto
    moreover have "flight_ok i events ?d"
    proof -
      have r: "r \<in> fst ` set (ts_arrived ?d)" by (auto simp: map_of_eq_None_iff)
      have "\<forall>r. (r, fst (fst sent)) \<in> event_ids i events \<longrightarrow> ts_revision c < r"
        using c(1) True by (simp add: going_def flight_ok_def)
      moreover have "ts_inflight ?d = Some (fst sent)" "ts_revision ?d = ts_revision c" using True by simp_all
      ultimately show ?thesis unfolding flight_ok_def using r b by (metis option.inject)
    qed
    moreover have "arrived_ok i events ?d" using c(1) b by (auto simp: going_def arrived_ok_def)
    ultimately show ?thesis by (simp add: going_def)
  qed
  from advance_going [OF e inj this] step True new show ?thesis by (simp add: post_saved_def Let_def)
qed

lemma fetched_going:
  assumes inj: "inj (sd_newId D)" and c: "going D i events c" and step: "fetched D groups revision c = Some c'"
  shows "going D i events c' \<and> awake c'"
proof -
  let ?r = "c\<lparr>ts_confirmed := groups, ts_revision := revision, ts_arrived := [], ts_inflight := None\<rparr>"
  obtain target s where s: "bring_view D (sd_visible D target) ?r = Some s"
    and c': "c' = (let s = s\<lparr>ts_resyncing := False\<rparr> in if ts_queue s \<noteq> [] then flush D s else onStatus Is_Saved s)"
    using step by (auto simp: fetched_def Let_def bind_eq_Some_conv)
  from bring_view_frame [OF s] obtain v where v: "s = ?r\<lparr>ts_view := v\<rparr>" ..
  have g: "going D i events (s\<lparr>ts_resyncing := False\<rparr>)"
    using c by (auto simp: v going_def ids_ok_def flight_ok_def arrived_ok_def sent_batches_def)
  show ?thesis
  proof (cases "ts_queue c = []")
    case True
    then show ?thesis using g c' v going_cong [of c' "s\<lparr>ts_resyncing := False\<rparr>"] by (simp add: awake_def)
  next
    case False
    then show ?thesis using flush_going [OF inj g] c' v flush_awake [of "s\<lparr>ts_resyncing := False\<rparr>" D] by simp
  qed
qed

section \<open>The system\<close>

lemma event_ids_mono: "set events \<subseteq> set events' \<Longrightarrow> event_ids i events \<subseteq> event_ids i events'"
  by (auto simp: event_ids_def)

text \<open>A request: what is new among the ids is its own, at a revision after all the others.\<close>

lemma template_step_ids:
  assumes inv: "service_inv org i db held" and step: "template_step r db = Some db'" and e: "(revision, b) \<in> event_ids i (td_events db')"
  shows "(revision, b) \<in> event_ids i (td_events db) \<or>
    (\<exists>now user raw. r = Apply_Ops now user i b raw) \<and> (\<forall>k \<in> dom held. k < revision) \<and>
    (\<forall>b'. (revision, b') \<in> event_ids i (td_events db') \<longrightarrow> b' = b)"
proof -
  obtain t where t: "template_of db org i = Some t" "\<And>k. k \<in> dom held \<Longrightarrow> k \<le> tr_revision t" and ok: "templates_ok db"
    using inv unfolding service_inv_def by blast
  have old: "k \<in> dom held" if "(k, b') \<in> event_ids i (td_events db)" for k b'
    using inv that unfolding service_inv_def event_ids_def by blast
  have new: "(k, b') \<in> event_ids i (td_events db) \<or> (\<exists>now user raw. r = Apply_Ops now user i b' raw) \<and> k = tr_revision t + 1"
    if kb: "(k, b') \<in> event_ids i (td_events db')" for k b'
  proof -
    obtain ops w where "Ops_Event i k b' ops w \<in> set (td_events db')" using kb by (auto simp: event_ids_def)
    from template_step_events [OF step this] show ?thesis
      using template_of_org [OF ok t(1)] by (fastforce simp: event_ids_def)
  qed
  show ?thesis
  proof (cases "(revision, b) \<in> event_ids i (td_events db)")
    case False
    with new [OF e] have r: "\<exists>now user raw. r = Apply_Ops now user i b raw" "revision = tr_revision t + 1" by blast+
    moreover have "b' = b" if "(revision, b') \<in> event_ids i (td_events db')" for b'
    proof -
      have "(revision, b') \<notin> event_ids i (td_events db)" using old t(2) r(2) by fastforce
      with new [OF that] r(1) show ?thesis by auto
    qed
    ultimately show ?thesis using t(2) by fastforce
  qed simp
qed

definition alive :: "'v sync_deps \<Rightarrow> string \<Rightarrow> 'v live_system \<Rightarrow> bool" where
  "alive D i s \<longleftrightarrow> one_batch i (td_events (sy_db s)) \<and> going D i (td_events (sy_db s)) (sy_client s) \<and> awake (sy_client s)"

lemma served_alive:
  assumes a: "alive D i s" and inv: "service_inv org i (sy_db s) (sy_held s)" and rev: "ts_revision (sy_client s) \<in> dom (sy_held s)"
    and step: "template_step r (sy_db s) = Some db"
    and own: "\<And>now user b raw k. r = Apply_Ops now user i b raw \<Longrightarrow> b = sd_newId D k \<Longrightarrow> k < ts_ids (sy_client s)"
  shows "alive D i (served org i db s)"
proof -
  let ?old = "event_ids i (td_events (sy_db s))" let ?new = "event_ids i (td_events db)"
  have sub: "?old \<subseteq> ?new" by (rule event_ids_mono [OF template_step_adds [OF step]])
  note ids = template_step_ids [OF inv step]
  have old: "\<And>k b. (k, b) \<in> ?old \<Longrightarrow> k \<in> dom (sy_held s)"
    using inv unfolding service_inv_def event_ids_def by blast
  have one: "one_batch i (td_events db)"
    unfolding one_batch_def
  proof (intro allI impI)
    fix k b b' assume "(k, b) \<in> ?new" "(k, b') \<in> ?new"
    with ids [OF this(1)] ids [OF this(2)] a show "b = b'" unfolding alive_def one_batch_def by blast
  qed
  have "\<forall>k. b = sd_newId D k \<longrightarrow> k < ts_ids (sy_client s)" if "(r', b) \<in> ?new" for r' b
    using ids [OF that] own a unfolding alive_def going_def ids_ok_def by blast
  then have "ids_ok D i (td_events db) (sy_client s)"
    using a unfolding alive_def going_def ids_ok_def by blast
  moreover have "ts_revision (sy_client s) < k" if "(k, fst b) \<in> ?new" "ts_inflight (sy_client s) = Some b" for k b
    using ids [OF that(1)] that(2) rev a unfolding alive_def going_def flight_ok_def by blast
  then have "flight_ok i (td_events db) (sy_client s)"
    using a sub unfolding alive_def going_def flight_ok_def by blast
  moreover have "arrived_ok i (td_events db) (sy_client s)"
    using a sub unfolding alive_def going_def arrived_ok_def by blast
  ultimately show ?thesis using a one by (simp add: alive_def going_def served_def)
qed

lemma resync_going: "going D i events c \<Longrightarrow> going D i events (resync c)"
  by (rule going_cong [of "resync c" c]) (simp_all add: resync_def)

lemma resync_awake: "awake (resync c)"
  by (simp add: awake_def resync_def)

lemma local_going:
  assumes "inj (sd_newId D)" "going D i events c" "awake c"
  shows "going D i events (local D ops (c\<lparr>ts_view := v\<rparr>)) \<and> awake (local D ops (c\<lparr>ts_view := v\<rparr>))"
proof (cases "ts_closed c \<or> ops = []")
  case True
  then show ?thesis using assms going_cong [of "c\<lparr>ts_view := v\<rparr>" c] by (auto simp: local_def awake_def)
next
  case False
  let ?c = "c\<lparr>ts_view := v, ts_queue := ts_queue c @ ops\<rparr>"
  have "going D i events (flush D ?c)" by (rule flush_going [OF assms(1) going_cong [OF _ _ _ _ _ _ _ assms(2)]]) simp_all
  moreover have "awake (flush D ?c)"
    using assms(3) False flush_pending [of ?c D] by (auto simp: awake_def flush_def Let_def pending_def)
  ultimately show ?thesis using False by (simp add: local_def)
qed

context live_view
begin

lemma live_step_alive:
  assumes "live_step D ok user i s s'" and inj: "inj (sd_newId D)" and a: "alive D i s" and inv: "live_inv D ok user i s"
  shows "alive D i s'"
proof -
  have e: "one_batch i (td_events (sy_db s))" and g: "going D i (td_events (sy_db s)) (sy_client s)" and w: "awake (sy_client s)"
    using a by (simp_all add: alive_def)
  have serve: "service_inv (us_org user) i (sy_db s) (sy_held s)" and rev: "ts_revision (sy_client s) \<in> dom (sy_held s)"
    using inv by (auto simp: live_inv_def follows_def)
  have client: "alive D i (s\<lparr>sy_client := c\<rparr>)" if "going D i (td_events (sy_db s)) c \<and> awake c" for c
    using a that by (simp add: alive_def)
  have id: "(r, b) \<in> event_ids i (td_events (sy_db s))" if "Ops_Event i r b ops who \<in> set (td_events (sy_db s))" for r b ops who
    using that by (auto simp: event_ids_def)
  from assms(1) show ?thesis
  proof cases
    case (Request r db)
    show ?thesis unfolding Request(1)
      by (rule served_alive [OF a serve rev Request(2)]) (use Request(3) in auto)
  next
    case (Post batch n now db)
    have "batch \<in> sent_batches (sy_client s)" using Post(2) by (force simp: sent_batches_def)
    then obtain k where "k < ts_ids (sy_client s)" "fst batch = sd_newId D k" using g by (auto simp: going_def ids_ok_def)
    then show ?thesis unfolding Post(1)
      by (intro served_alive [OF a serve rev Post(3)]) (use inj in \<open>auto simp: inj_def\<close>)
  next
    case (Edit v minutes c)
    then show ?thesis using local_going [OF inj g w] client by (auto simp: onViewChange_def)
  next
    case (Panel ops c)
    then show ?thesis using local_going [OF inj g w] client by (auto simp: applyFromPanel_def)
  next
    case (Hear revision batchId ops who c)
    show ?thesis unfolding Hear(1) by (rule client, rule received_going [OF e inj g w _ Hear(3)]) (use id [OF Hear(2)] in simp)
  next
    case (Hear_Of revision)
    then show ?thesis using resync_going [OF g] resync_awake a client by (auto simp: resyncFrom_def split: option.splits)
  next
    case (Answer sent ops revision who c)
    show ?thesis unfolding Answer(1) by (rule client, rule post_saved_going [OF e inj g w id [OF Answer(4)] Answer(5)])
  next
    case (Refuse sent refusal)
    let ?c = "(sy_client s)\<lparr>ts_posting := remove1 sent (ts_posting (sy_client s))\<rparr>"
    have "going D i (td_events (sy_db s)) (if ts_inflight (sy_client s) = Some (fst sent) then ?c\<lparr>ts_inflight := None\<rparr> else ?c)"
    proof (cases "ts_inflight (sy_client s) = Some (fst sent)")
      case True
      have "sent_batches (?c\<lparr>ts_inflight := None\<rparr>) \<subseteq> sent_batches (sy_client s)"
        using set_remove1_subset [of sent "ts_posting (sy_client s)"] by (auto simp: sent_batches_def)
      then show ?thesis using g True unfolding going_def ids_ok_def flight_ok_def arrived_ok_def by auto
    qed (use done_going(1) [OF g] in simp)
    then have "going D i (td_events (sy_db s)) (post_refused sent refusal (sy_client s))"
      unfolding post_refused_def Let_def by (intro resync_going) (erule going_cong [rotated -1]; simp)
    then show ?thesis unfolding Refuse(1) by (intro client) (simp add: post_refused_def Let_def resync_awake)
  next
    case (Lose sent)
    have "b \<in> sent_batches (post_lost sent (sy_client s)) \<longleftrightarrow> b \<in> sent_batches (sy_client s)" for b
    proof (cases "b = fst sent")
      case True
      then show ?thesis using Lose(2) by (auto simp: post_lost_def onStatus_def sent_batches_def)
    next
      case False
      then show ?thesis using remove1_sent [OF False] by (auto simp: post_lost_def onStatus_def sent_batches_def image_Un)
    qed
    then have "sent_batches (post_lost sent (sy_client s)) = sent_batches (sy_client s)" by blast
    then have "going D i (td_events (sy_db s)) (post_lost sent (sy_client s))"
      using g by (simp add: going_def ids_ok_def flight_ok_def arrived_ok_def post_lost_def)
    then show ?thesis unfolding Lose(1) using w by (intro client) (simp add: awake_def post_lost_def)
  next
    case (Wake sent)
    have sub: "set (remove1 sent (ts_sleeping (sy_client s))) \<subseteq> set (ts_sleeping (sy_client s))" by (rule set_remove1_subset)
    have "going D i (td_events (sy_db s)) (slept sent (sy_client s))"
    proof (cases "ts_inflight (sy_client s) = Some (fst sent)")
      case False
      then show ?thesis using done_going(2) [OF g False] by (simp add: slept_def)
    next
      case True
      have "sent_batches (slept sent (sy_client s)) \<subseteq> sent_batches (sy_client s)"
        using sub Wake(2) by (auto simp: slept_def sent_batches_def Let_def)
      moreover have "ts_closed (slept sent (sy_client s)) \<or> fst sent \<in> sent_batches (slept sent (sy_client s))"
        using True by (auto simp: slept_def sent_batches_def Let_def)
      moreover have "ts_inflight (slept sent (sy_client s)) = Some (fst sent)" "ts_revision (slept sent (sy_client s)) = ts_revision (sy_client s)"
        "ts_ids (slept sent (sy_client s)) = ts_ids (sy_client s)" "ts_arrived (slept sent (sy_client s)) = ts_arrived (sy_client s)"
        using True by (simp_all add: slept_def Let_def)
      ultimately show ?thesis using g True unfolding going_def ids_ok_def flight_ok_def arrived_ok_def by auto
    qed
    then show ?thesis unfolding Wake(1) using w by (intro client) (auto simp: awake_def slept_def Let_def)
  next
    case (Read revision groups c)
    show ?thesis unfolding Read(1) by (rule client, rule fetched_going [OF inj g Read(4)])
  next
    case Not_Read
    have "going D i (td_events (sy_db s)) (fetch_failed (sy_client s))"
      by (rule going_cong [OF _ _ _ _ _ _ _ g]) (simp_all add: fetch_failed_def)
    then show ?thesis unfolding Not_Read(1) by (intro client) (simp add: fetch_failed_def awake_def)
  next
    case (Timer timer)
    have "going D i (td_events (sy_db s)) (timer_fired timer (sy_client s))"
      unfolding timer_fired_def by (rule resync_going, rule going_cong [OF _ _ _ _ _ _ _ g]) simp_all
    then show ?thesis unfolding Timer(1) by (intro client) (simp add: timer_fired_def resync_awake)
  next
    case Close
    have "going D i (td_events (sy_db s)) (close (sy_client s))"
      by (rule going_cong [OF _ _ _ _ _ _ _ g]) (simp_all add: close_def)
    then show ?thesis unfolding Close by (intro client) (simp add: close_def awake_def)
  qed
qed

lemma live_alive: "live D ok user i s \<Longrightarrow> inj (sd_newId D) \<Longrightarrow> alive D i s"
proof (induction rule: live.induct)
  case (1 s)
  then obtain gs rev v where "td_events (sy_db s) = []" "sy_client s = new_sync gs rev v"
    by (auto simp: opened_def split: option.splits)
  then show ?case
    by (simp add: alive_def one_batch_def event_ids_def going_def ids_ok_def flight_ok_def arrived_ok_def awake_def new_sync_def sent_batches_def)
next
  case (2 s s')
  then show ?case using live_step_alive live_holds by blast
qed

lemma never_stuck:
  assumes "live D ok user i s" "inj (sd_newId D)" "\<not> ts_closed (sy_client s)" "pending (sy_client s)"
  shows "ts_posting (sy_client s) \<noteq> [] \<or> ts_sleeping (sy_client s) \<noteq> [] \<or> ts_resyncing (sy_client s) \<or> ts_timers (sy_client s) \<noteq> []"
proof -
  have a: "going D i (td_events (sy_db s)) (sy_client s)" "awake (sy_client s)"
    using live_alive [OF assms(1,2)] by (simp_all add: alive_def)
  show ?thesis
  proof (cases "ts_inflight (sy_client s)")
    case None
    then show ?thesis using a(2) assms(3,4) by (auto simp: awake_def pending_def)
  next
    case (Some b)
    then have "b \<in> sent_batches (sy_client s) \<or> ts_arrived (sy_client s) \<noteq> []"
      using a(1) assms(3) by (auto simp: going_def flight_ok_def)
    then show ?thesis using a(2) assms(3) by (auto simp: sent_batches_def awake_def)
  qed
qed

end

end
