(* ===== verification/Template_Together.thy ===== *)
theory Template_Together
  imports Template_Alive
begin

text \<open>
  What the live system keeps, for the Group maker's own view: people who are quiet see the same
  groups, nothing waits for nothing, and where it goes wrong.
\<close>

section \<open>A template opened\<close>

lemma drawn_state:
  assumes "distinct bs"
  shows "drawn bs (fst (stateFromTemplate (rowOf bs) gs))"
    "liveGroupsOf (buildingOf bs) (fst (stateFromTemplate (rowOf bs) gs)) = visibleGroups (rowOf bs) gs"
proof -
  have row: "rowOf bs b = Some r \<Longrightarrow> buildingOf bs r = Some b" for b r using row_building [OF assms] by blast
  have "set (List.map_filter (rowOf bs) ss) \<subseteq> dom (buildingOf bs)" for ss
    by (induction ss) (auto simp: List.map_filter_simps dest: row split: option.splits)
  then show "drawn bs (fst (stateFromTemplate (rowOf bs) gs))"
    by (simp add: drawn_def stops_in_def stateFromTemplate_def)
  have "List.map_filter (buildingOf bs) (List.map_filter (rowOf bs) ss) = filter (\<lambda>b. rowOf bs b \<noteq> None) ss" for ss
    by (induction ss) (auto simp: List.map_filter_simps row split: option.splits)
  then show "liveGroupsOf (buildingOf bs) (fst (stateFromTemplate (rowOf bs) gs)) = visibleGroups (rowOf bs) gs"
    by (simp add: liveGroupsOf_def visibleGroups_def stateFromTemplate_def restop_def)
qed

section \<open>Everyone sees the same\<close>

text \<open>
  C13. Two people on one template see the same groups. Whatever anybody does, and however the
  network loses, repeats and reorders what passes, as long as what the template holds, what is
  published and what is seen stay tame (plain names with numbers up to \<open>2 ^ 50\<close>, colours in lower
  case, at most \<open>10 ^ 9\<close> groups and arrived batches, at most 500 operations in a batch): when nothing
  of a person's is on its way, nothing is waited for, and the engine has reached the template's
  revision, what they see is exactly the template's groups, less the properties their map does not
  draw.
\<close>

theorem quiet_editors_see_the_template:
  assumes "live (maker_deps buildings newId) (\<lambda>v. distinct buildings \<and> drawn buildings v) user i s" "quiet (sy_client s)"
    and "template_of (sy_db s) (us_org user) i = Some t" "ts_revision (sy_client s) = tr_revision t"
  shows "liveGroupsOf (buildingOf buildings) (ts_view (sy_client s)) = visibleGroups (rowOf buildings) (tr_groups t)"
  using maker_view.caught_up [OF assms] by simp

definition a_group :: string where "a_group = ''00000000-0000-0000-0000-00000000000a''"

definition live_office :: template_db where
  "live_office = snd (create 1 ''t1'' (\<lambda>n. a_group) office_user first_input empty_office)"

definition live_template :: template_row where
  "live_template = the (template_of live_office ''org'' ''t1'')"

definition browser :: "int live_groups sync_deps" where
  "browser = maker_deps [''b1''] (\<lambda>n. ''id '' @ string_of_int (int n))"

definition first_view :: "int live_groups" where
  "first_view = fst (stateFromTemplate (rowOf [''b1'']) (tr_groups live_template))"

definition just_opened :: "int live_groups live_system" where
  "just_opened = \<lparr>sy_db = live_office, sy_held = [tr_revision live_template \<mapsto> tr_groups live_template],
     sy_client = new_sync (tr_groups live_template) (tr_revision live_template) first_view\<rparr>"

definition renamed :: "string group_op list" where
  "renamed = [Group_Update a_group (Some ''North'') None None]"

definition office_after :: template_db where
  "office_after = the (template_step (Apply_Ops 2 office_user ''t1'' ''batch'' renamed) live_office)"

definition template_after :: template_row where
  "template_after = the (template_of office_after ''org'' ''t1'')"

definition browser_after :: "int live_groups template_sync" where
  "browser_after = the (received browser 2 (''batch'', renamed) (sy_client just_opened))"

lemma live_office_ok: "templates_ok live_office"
proof -
  have "templates_ok empty_office" by (simp add: templates_ok_def empty_office_def all_groups_def active_in_def)
  then show ?thesis unfolding live_office_def
    using create_ok [of empty_office 1 "''t1''" "\<lambda>n. a_group" office_user first_input "fst (create 1 ''t1'' (\<lambda>n. a_group) office_user first_input empty_office)"] by simp
qed

lemma live_evaluated:
  "template_of live_office ''org'' ''t1'' = Some live_template" "td_events live_office = []" "us_org office_user = ''org''"
  "tame_groups (2 ^ 50) (tr_groups live_template)" "length (tr_groups live_template) = 1"
  "liveGroupsOf (buildingOf [''b1'']) first_view = visibleGroups (rowOf [''b1'']) (tr_groups live_template)"
  "tame_groups (2 ^ 50) (liveGroupsOf (buildingOf [''b1'']) first_view)" "length (liveGroupsOf (buildingOf [''b1'']) first_view) = 1"
  by code_simp+

lemma live_evaluated_after:
  "template_step (Apply_Ops 2 office_user ''t1'' ''batch'' renamed) live_office = Some office_after"
  "received browser 2 (''batch'', renamed) (sy_client just_opened) = Some browser_after"
  "td_events office_after = [Ops_Event ''t1'' 2 ''batch'' renamed ''Maria'']" "tame_name (2 ^ 50) (js_trim ''North'')"
  "quiet browser_after"
  "template_of office_after ''org'' ''t1'' = Some template_after"
  "ts_revision browser_after = tr_revision template_after"
  "tame_groups (2 ^ 50) (tr_groups template_after)" "length (tr_groups template_after) = 1"
  "tame_groups (2 ^ 50) (liveGroupsOf (buildingOf [''b1'']) (ts_view browser_after))"
  "length (liveGroupsOf (buildingOf [''b1'']) (ts_view browser_after)) = 1" "ts_arrived browser_after = []"
  by code_simp+

lemma office_after_tame: "list_all (tame_event ''t1'') (td_events office_after)"
  using live_evaluated_after(4) by (simp add: live_evaluated_after(3) renamed_def)

lemma just_opened_live: "live browser (\<lambda>v. distinct [''b1''] \<and> drawn [''b1''] v) office_user ''t1'' just_opened"
proof (rule live.intros(1))
  have "drawn [''b1''] first_view" unfolding first_view_def by (rule drawn_state) simp
  then show "opened browser (\<lambda>v. distinct [''b1''] \<and> drawn [''b1''] v) office_user ''t1'' just_opened"
    using live_evaluated live_office_ok
    by (simp add: opened_def just_opened_def browser_def tame_system_def new_sync_def)
qed

definition hearing :: "int live_groups live_system" where
  "hearing = (served ''org'' ''t1'' office_after just_opened)\<lparr>sy_client := browser_after\<rparr>"

lemma hearing_live: "live browser (\<lambda>v. distinct [''b1''] \<and> drawn [''b1''] v) office_user ''t1'' hearing"
proof -
  let ?ok = "\<lambda>v. distinct [''b1''] \<and> drawn [''b1''] v"
  let ?s = "served ''org'' ''t1'' office_after just_opened"
  have "foreign browser (Apply_Ops 2 office_user ''t1'' ''batch'' renamed)" by (auto simp: browser_def)
  from live_step.Request [of _ just_opened office_after browser ?ok office_user "''t1''", OF _ this] live_evaluated_after(1) live_evaluated(3)
  have one: "live_step browser ?ok office_user ''t1'' just_opened ?s" by (simp add: just_opened_def)
  have "tame_system browser office_user ''t1'' ?s"
    using live_evaluated live_evaluated_after office_after_tame by (simp add: tame_system_def served_def just_opened_def browser_def new_sync_def)
  with one have l: "live browser ?ok office_user ''t1'' ?s" by (rule live.intros(2) [OF just_opened_live])
  have two: "live_step browser ?ok office_user ''t1'' ?s hearing"
    unfolding hearing_def by (rule live_step.Hear) (use live_evaluated_after in \<open>simp_all add: served_def\<close>)
  have "tame_system browser office_user ''t1'' hearing"
    using live_evaluated live_evaluated_after office_after_tame by (simp add: tame_system_def hearing_def served_def just_opened_def browser_def)
  with l two show ?thesis by (rule live.intros(2))
qed

theorem quiet_editors_see_the_template_witness:
  "liveGroupsOf (buildingOf [''b1'']) (ts_view browser_after) =
     visibleGroups (rowOf [''b1'']) (tr_groups template_after)"
proof -
  have "sy_db hearing = office_after" "sy_client hearing = browser_after" by (simp_all add: hearing_def served_def)
  with quiet_editors_see_the_template [OF hearing_live [unfolded browser_def]] live_evaluated_after live_evaluated(3)
  show ?thesis by simp
qed

text \<open>
  C14. No change gets stuck. While anything a person did is on its way, a request to the service is
  waited for, or a batch is about to be sent again, or the template is being read, or a timer will
  have it read.
\<close>

theorem changes_never_stuck:
  assumes "live (maker_deps buildings newId) (\<lambda>v. distinct buildings \<and> drawn buildings v) user i s" "inj newId"
    and "\<not> ts_closed (sy_client s)" "pending (sy_client s)"
  shows "ts_posting (sy_client s) \<noteq> [] \<or> ts_sleeping (sy_client s) \<noteq> [] \<or> ts_resyncing (sy_client s) \<or> ts_timers (sy_client s) \<noteq> []"
  using maker_view.never_stuck [OF assms(1)] assms(2-4) by simp

section \<open>Where it goes wrong\<close>

definition own_view :: "int live_groups" where
  "own_view = map (\<lambda>g. g\<lparr>lg_name := ''South''\<rparr>) first_view"

definition own_change :: "int live_groups template_sync" where
  "own_change = the (onViewChange browser None own_view (sy_client just_opened))"

lemma string_of_int_inj: "inj (\<lambda>n. ''id '' @ string_of_int (int n))"
proof (rule injI)
  fix m n assume "''id '' @ string_of_int (int m) = ''id '' @ string_of_int (int n)"
  then have "digits m = digits n" by (simp add: string_of_int_def)
  then have "int m = int n" using digits_facts by metis
  then show "m = n" by simp
qed

lemma own_change_evaluated:
  "onViewChange browser None own_view (sy_client just_opened) = Some own_change"
  "liveGroupsOf (buildingOf [''b1'']) (ts_view own_change) = liveGroupsOf (buildingOf [''b1'']) own_view"
  "tame_groups (2 ^ 50) (liveGroupsOf (buildingOf [''b1'']) own_view)" "length (liveGroupsOf (buildingOf [''b1'']) own_view) = 1"
  "ts_arrived own_change = []" "pending own_change" "\<not> ts_closed own_change" "\<not> ts_resyncing own_change" "ts_queue own_change = []"
  "length (ts_posting own_change) = 1" "ts_inflight own_change = Some (fst (hd (ts_posting own_change)))"
  by code_simp+

lemma own_change_live: "live browser (\<lambda>v. distinct [''b1''] \<and> drawn [''b1''] v) office_user ''t1'' (just_opened\<lparr>sy_client := own_change\<rparr>)"
proof -
  have "drawn [''b1''] first_view" unfolding first_view_def by (rule drawn_state) simp
  then have "drawn [''b1''] own_view" by (auto simp: drawn_def stops_in_def own_view_def)
  then have "live_step browser (\<lambda>v. distinct [''b1''] \<and> drawn [''b1''] v) office_user ''t1'' just_opened (just_opened\<lparr>sy_client := own_change\<rparr>)"
    by (intro live_step.Edit [OF _ own_change_evaluated(1)]) simp
  moreover have "tame_system browser office_user ''t1'' (just_opened\<lparr>sy_client := own_change\<rparr>)"
    using live_evaluated own_change_evaluated by (simp add: tame_system_def just_opened_def browser_def)
  ultimately show ?thesis by (rule live.intros(2) [OF just_opened_live])
qed

theorem changes_never_stuck_witness:
  "0 < length (ts_posting own_change) + length (ts_sleeping own_change) + of_bool (ts_resyncing own_change) + length (ts_timers own_change)"
  using changes_never_stuck [OF own_change_live [unfolded browser_def] string_of_int_inj] own_change_evaluated by auto

text \<open>
  C39. An edit is lost, and reported saved. The comment in \<open>resync\<close> says that what was sent and not
  yet seen is in the copy just read, or was refused. A batch whose request never reached the service
  is neither: when the template is read again before it is sent again, it is forgotten, and the
  person is told that everything is saved.
\<close>

theorem unsent_batch_forgotten:
  assumes "ts_inflight s = Some (fst sent)" "ts_queue s = []" "\<not> ts_closed s" "\<not> ts_resyncing s"
    and "fetched D groups revision (resync (post_lost sent s)) = Some s'"
  shows "\<not> pending s' \<and> last (ts_statuses s') = Is_Saved \<and> ts_posting s' = remove1 sent (ts_posting s) \<and>
    ts_posting (slept sent s') = ts_posting s'"
proof -
  let ?s = "resync (post_lost sent s)"
  have f: "ts_queue ?s = []" "ts_posting ?s = remove1 sent (ts_posting s)"
    using assms(2) by (simp_all add: resync_def post_lost_def)
  obtain target m where m: "bring_view D (sd_visible D target)
      (?s\<lparr>ts_confirmed := groups, ts_revision := revision, ts_arrived := [], ts_inflight := None\<rparr>) = Some m"
    and s': "s' = (let s = m\<lparr>ts_resyncing := False\<rparr> in if ts_queue s \<noteq> [] then flush D s else onStatus Is_Saved s)"
    using assms(5) by (auto simp: fetched_def Let_def bind_eq_Some_conv)
  from bring_view_frame [OF m] obtain v
    where "m = ?s\<lparr>ts_confirmed := groups, ts_revision := revision, ts_arrived := [], ts_inflight := None, ts_view := v\<rparr>" by auto
  with s' f show ?thesis by (simp add: pending_def onStatus_def slept_def)
qed

theorem unsent_batch_forgotten_witness:
  "let sent = hd (ts_posting own_change);
       s' = the (fetched browser (tr_groups template_after) 2 (resync (post_lost sent own_change)))
   in last (ts_statuses s') = Is_Saved \<and> ts_posting (slept sent s') = [] \<and> map lg_name (ts_view s') = [''North'']"
proof -
  let ?sent = "hd (ts_posting own_change)"
  let ?s' = "the (fetched browser (tr_groups template_after) 2 (resync (post_lost ?sent own_change)))"
  have f: "fetched browser (tr_groups template_after) 2 (resync (post_lost ?sent own_change)) = Some ?s'" "map lg_name (ts_view ?s') = [''North'']"
    by code_simp+
  have "ts_posting own_change = [?sent]" using own_change_evaluated(10) by (cases "ts_posting own_change") auto
  then have "remove1 ?sent (ts_posting own_change) = []" by (metis remove1.simps)
  with unsent_batch_forgotten [OF own_change_evaluated(11,9,7,8) f(1)] f(2) show ?thesis by (simp add: Let_def)
qed

text \<open>
  Closing an engine does not stop a read on its way: when it is answered, the view is brought
  to the template that was closed, whatever it shows by then.
\<close>

theorem closed_engine_still_draws:
  "map_option ts_view (fetched D groups revision (close s)) = map_option ts_view (fetched D groups revision s)"
proof -
  have view: "map_option ts_view (bring_view D target c) = map_option ts_view (bring_view D target c')"
    if "ts_view c = ts_view c'" for target and c c' :: "'a template_sync"
    using that by (auto simp: bring_view_def Let_def option.map_comp comp_def split: Option.bind_splits)
  have q: "ts_queue (close s) = ts_queue s" "ts_view (close s) = ts_view s" by (simp_all add: close_def)
  have f: "map_option ts_view (fetched D groups revision c) =
      Option.bind (applyGroupOps groups (ts_queue c)) (\<lambda>target. map_option ts_view (bring_view D (sd_visible D target)
        (c\<lparr>ts_confirmed := groups, ts_revision := revision, ts_arrived := [], ts_inflight := None\<rparr>)))" for c :: "'a template_sync"
    by (auto simp: fetched_def Let_def split: Option.bind_splits)
  show ?thesis unfolding f q(1) by (rule Option.bind_cong [OF refl]) (rule view, simp add: q(2))
qed

end
