(* ===== verification/Road_Routes.thy ===== *)
theory Road_Routes
  imports Prelude "HOL-Library.Word"
begin

unbundle bit_operations_syntax

text \<open>
  \<open>web/components/planning/road-routes.ts\<close>, the routes themselves: stops in runs a request can
  take, an answer read and the runs joined, and the form a route is kept in, an encoded line.
\<close>

section \<open>Routes\<close>

text \<open>\<open>[longitude, latitude]\<close>.\<close>

type_synonym lng_lat = "real \<times> real"

record road_leg =
  rl_durationS :: real
  rl_distanceM :: real

record road_route =
  rr_geometry :: "lng_lat list"
  rr_durationS :: real
  rr_distanceM :: real
  rr_legs :: "road_leg list"
  rr_splits :: "int list"

definition MAX_WAYPOINTS :: nat where "MAX_WAYPOINTS = 25"

text \<open>\<open>for (let start = 0; start < length - 1; start += 24)\<close>, on what is left from \<open>start\<close>.\<close>

function chunks_from :: "'a list \<Rightarrow> 'a list list" where
  "chunks_from rest = (if 1 < length rest then take MAX_WAYPOINTS rest # chunks_from (drop (MAX_WAYPOINTS - 1) rest) else [])"
  by pat_completeness auto
termination by (relation "measure length") (auto simp: MAX_WAYPOINTS_def)

declare chunks_from.simps [simp del]

definition waypointChunks :: "'a list \<Rightarrow> 'a list list" where
  "waypointChunks coordinates = (if length coordinates \<le> MAX_WAYPOINTS then [coordinates] else chunks_from coordinates)"

definition square_apart :: "lng_lat \<Rightarrow> lng_lat \<Rightarrow> real" where
  "square_apart p q = (fst p - fst q) ^ 2 + (snd p - snd q) ^ 2"

text \<open>The vertex the line comes nearest at, from \<open>vertex\<close> on; the first that lies on it ends the search.\<close>

fun nearest_vertex :: "lng_lat \<Rightarrow> nat \<Rightarrow> nat \<Rightarrow> real option \<Rightarrow> lng_lat list \<Rightarrow> nat" where
  "nearest_vertex stop best vertex bestDistance [] = best"
| "nearest_vertex stop best vertex bestDistance (p # ps) =
     (let distance = square_apart p stop
      in if (case bestDistance of None \<Rightarrow> True | Some b \<Rightarrow> distance < b) then
           if distance < 1 / 10 ^ 12 then vertex
           else nearest_vertex stop vertex (vertex + 1) (Some distance) ps
         else nearest_vertex stop best (vertex + 1) bestDistance ps)"

fun split_from :: "lng_lat list \<Rightarrow> nat \<Rightarrow> lng_lat list \<Rightarrow> nat list" where
  "split_from geometry start [] = []"
| "split_from geometry start (stop # stops) =
     (let best = nearest_vertex stop start start None (drop start geometry)
      in best # split_from geometry best stops)"

definition splitAtWaypoints :: "lng_lat list \<Rightarrow> lng_lat list \<Rightarrow> int list" where
  "splitAtWaypoints geometry waypoints =
     0 # map int (split_from geometry 0 (butlast (drop 1 waypoints))) @ [max 0 (int (length geometry) - 1)]"

text \<open>\<open>slice\<close> ends before its second argument; a negative one counts from the end.\<close>

definition js_slice_index :: "int \<Rightarrow> 'a list \<Rightarrow> nat" where
  "js_slice_index k xs = (if k < 0 then nat (int (length xs) + k) else nat k)"

definition js_slice :: "int \<Rightarrow> int \<Rightarrow> 'a list \<Rightarrow> 'a list" where
  "js_slice from_at to_at xs = drop (js_slice_index from_at xs) (take (js_slice_index to_at xs) xs)"

definition legGeometry :: "road_route \<Rightarrow> nat \<Rightarrow> lng_lat list" where
  "legGeometry route leg =
     js_slice (if leg < length (rr_splits route) then rr_splits route ! leg else 0)
       ((if leg + 1 < length (rr_splits route) then rr_splits route ! (leg + 1) else int (length (rr_geometry route)) - 1) + 1)
       (rr_geometry route)"

section \<open>What Mapbox answers\<close>

record directions_route =
  dr_duration :: real
  dr_distance :: real
  dr_coordinates :: "lng_lat list"
  dr_legs :: "(real \<times> real) list"

record directions =
  di_code :: string
  di_message :: "string option"
  di_routes :: "directions_route list option"
  di_waypoints :: "lng_lat list option"

text \<open>\<open>None\<close> is a body the schema refuses; \<open>Inl\<close> is an error thrown, with its message.\<close>

definition parseDirections :: "directions option \<Rightarrow> lng_lat list \<Rightarrow> string + road_route" where
  "parseDirections body requested =
     (case body of
        None \<Rightarrow> Inl ''Mapbox sent back something that is not a route.''
      | Some answer \<Rightarrow>
          (let unrouted = Inl (case di_message answer of Some m \<Rightarrow> m | None \<Rightarrow> ''Mapbox could not route it ('' @ di_code answer @ '').'')
           in case di_routes answer of
                None \<Rightarrow> unrouted
              | Some [] \<Rightarrow> unrouted
              | Some (route # _) \<Rightarrow>
                  if di_code answer \<noteq> ''Ok'' then unrouted
                  else if int (length (dr_legs route)) \<noteq> int (length requested) - 1
                  then Inl ''Mapbox routed a different number of stops.''
                  else Inr \<lparr>rr_geometry = dr_coordinates route, rr_durationS = dr_duration route, rr_distanceM = dr_distance route,
                     rr_legs = map (\<lambda>(s, m). \<lparr>rl_durationS = s, rl_distanceM = m\<rparr>) (dr_legs route),
                     rr_splits = splitAtWaypoints (dr_coordinates route)
                       (case di_waypoints answer of Some ws \<Rightarrow> ws | None \<Rightarrow> requested)\<rparr>))"

definition join_routes :: "road_route \<Rightarrow> road_route \<Rightarrow> road_route" where
  "join_routes joined part =
     (let offset = int (length (rr_geometry joined)) - 1
      in \<lparr>rr_geometry = rr_geometry joined @ drop 1 (rr_geometry part),
          rr_durationS = rr_durationS joined + rr_durationS part,
          rr_distanceM = rr_distanceM joined + rr_distanceM part,
          rr_legs = rr_legs joined @ rr_legs part,
          rr_splits = rr_splits joined @ map (\<lambda>split. split + offset) (drop 1 (rr_splits part))\<rparr>)"

definition mergeRoutes :: "road_route list \<Rightarrow> string + road_route" where
  "mergeRoutes parts = (case parts of [] \<Rightarrow> Inl ''Nothing to join.'' | first # rest \<Rightarrow> Inr (foldl join_routes first rest))"

section \<open>Runs of stops join up\<close>

text \<open>Runs one after another, each starting where the last ended.\<close>

definition joined_runs :: "'a list list \<Rightarrow> 'a list" where
  "joined_runs runs = (case runs of [] \<Rightarrow> [] | r # rs \<Rightarrow> r @ concat (map (drop 1) rs))"

lemma joined_runs_Cons:
  "rest \<noteq> [] \<Longrightarrow> hd rest \<noteq> [] \<Longrightarrow> joined_runs (r # rest) = r @ drop 1 (joined_runs rest)"
  by (cases rest; cases "hd rest") (auto simp: joined_runs_def)

lemma joined_runs_snoc: "runs \<noteq> [] \<Longrightarrow> joined_runs (runs @ [r]) = joined_runs runs @ drop 1 r"
  by (cases runs) (simp_all add: joined_runs_def)

lemma chunks_from_short: "length rest \<le> 1 \<Longrightarrow> chunks_from rest = []"
  by (simp add: chunks_from.simps)

lemma chunks_from_facts:
  "1 < length rest \<Longrightarrow> chunks_from rest \<noteq> [] \<and> hd (chunks_from rest) = take MAX_WAYPOINTS rest \<and>
    (\<forall>c\<in>set (chunks_from rest). 2 \<le> length c \<and> length c \<le> MAX_WAYPOINTS) \<and> joined_runs (chunks_from rest) = rest"
proof (induction rest rule: chunks_from.induct)
  case (1 rest)
  let ?left = "drop (MAX_WAYPOINTS - 1) rest"
  have eq: "chunks_from rest = take MAX_WAYPOINTS rest # chunks_from ?left" using 1(2) by (subst chunks_from.simps) simp
  show ?case
  proof (cases "1 < length ?left")
    case True
    note ih = 1(1) [OF 1(2) True]
    have h: "hd (chunks_from ?left) \<noteq> []" using ih True by (auto simp: MAX_WAYPOINTS_def)
    have "joined_runs (chunks_from rest) = take MAX_WAYPOINTS rest @ drop 1 ?left"
      using ih joined_runs_Cons [OF _ h] by (simp add: eq)
    also have "\<dots> = rest" by (simp add: MAX_WAYPOINTS_def)
    finally show ?thesis using 1(2) ih True by (auto simp: eq MAX_WAYPOINTS_def)
  next
    case False
    then show ?thesis using 1(2) by (auto simp: eq chunks_from_short joined_runs_def MAX_WAYPOINTS_def)
  qed
qed

lemma runs_of_stops:
  assumes "2 \<le> length stops"
  shows "list_all (\<lambda>run. 2 \<le> length run \<and> length run \<le> 25) (waypointChunks stops)" "joined_runs (waypointChunks stops) = stops"
    "waypointChunks stops \<noteq> []"
proof (atomize (full), cases "length stops \<le> MAX_WAYPOINTS", goal_cases)
  case 1
  then show ?case using assms by (simp add: waypointChunks_def joined_runs_def MAX_WAYPOINTS_def)
next
  case 2
  then have "1 < length stops" by (simp add: MAX_WAYPOINTS_def)
  from chunks_from_facts [OF this] 2 show ?case
    by (auto simp: waypointChunks_def list_all_iff MAX_WAYPOINTS_def)
qed

text \<open>
  The stops of a long day are asked for in runs a request can take, from two to twenty-five
  stops, each starting at the stop the last ended at; joined, they are the stops, in order.
\<close>

theorem runs_cover_the_stops:
  assumes "2 \<le> length stops"
  shows "list_all (\<lambda>run. 2 \<le> length run \<and> length run \<le> 25) (waypointChunks stops) \<and> joined_runs (waypointChunks stops) = stops"
  using runs_of_stops [OF assms] by blast

theorem runs_cover_the_stops_witness:
  "map length (waypointChunks [0..<50]) = [25, 25, 2] \<and> joined_runs (waypointChunks [0..<50]) = [0..<50]"
  using runs_cover_the_stops [of "[0..<50]"] by (simp add: waypointChunks_def chunks_from.simps MAX_WAYPOINTS_def)

section \<open>A route's splits\<close>

definition route_for :: "nat \<Rightarrow> road_route \<Rightarrow> bool" where
  "route_for n r \<longleftrightarrow> rr_geometry r \<noteq> [] \<and> length (rr_legs r) + 1 = n \<and> length (rr_splits r) = n \<and> 2 \<le> n \<and>
     sorted (rr_splits r) \<and> hd (rr_splits r) = 0 \<and> last (rr_splits r) = int (length (rr_geometry r)) - 1"

lemma route_first: "route_for n r \<Longrightarrow> rr_splits r ! 0 = 0"
  by (cases "rr_splits r") (auto simp: route_for_def)

lemma route_mono: "route_for n r \<Longrightarrow> i \<le> j \<Longrightarrow> j < n \<Longrightarrow> rr_splits r ! i \<le> rr_splits r ! j"
  by (auto simp: route_for_def sorted_iff_nth_mono)

lemma route_bound:
  assumes r: "route_for n r" and i: "i < n"
  shows "0 \<le> rr_splits r ! i" "rr_splits r ! i < int (length (rr_geometry r))"
proof -
  show "0 \<le> rr_splits r ! i" using route_mono [OF r, of 0 i] route_first [OF r] i by simp
  have "rr_splits r ! (n - 1) = last (rr_splits r)"
    using r by (cases "rr_splits r = []") (auto simp: route_for_def last_conv_nth)
  then have "rr_splits r ! (n - 1) < int (length (rr_geometry r))" using r by (simp add: route_for_def)
  moreover have "rr_splits r ! i \<le> rr_splits r ! (n - 1)" using route_mono [OF r, of i "n - 1"] i by simp
  ultimately show "rr_splits r ! i < int (length (rr_geometry r))" by simp
qed

lemma nearest_vertex_between:
  "best \<le> vertex \<Longrightarrow> best \<le> nearest_vertex stop best vertex d ps \<and>
   (nearest_vertex stop best vertex d ps = best \<or> nearest_vertex stop best vertex d ps < vertex + length ps)"
proof (induction ps arbitrary: best vertex d)
  case (Cons p ps)
  show ?case
    using Cons.IH [of "vertex" "vertex + 1" "Some (square_apart p stop)"] Cons.IH [of best "vertex + 1" d] Cons.prems
    by (auto simp: Let_def split: option.split)
qed simp

lemma split_from_sorted:
  "start < length geometry \<Longrightarrow> sorted (start # split_from geometry start stops) \<and> length (split_from geometry start stops) = length stops \<and>
   (\<forall>s\<in>set (split_from geometry start stops). s < length geometry)"
proof (induction stops arbitrary: start)
  case (Cons stop stops)
  let ?best = "nearest_vertex stop start start None (drop start geometry)"
  have "start \<le> ?best" "?best < length geometry"
    using nearest_vertex_between [of start start stop None "drop start geometry"] Cons.prems by auto
  with Cons.IH [of ?best] show ?case by (auto simp: Let_def)
qed simp

lemma splitAtWaypoints_facts:
  assumes "geometry \<noteq> []" "2 \<le> length ws"
  shows "sorted (splitAtWaypoints geometry ws)" "length (splitAtWaypoints geometry ws) = length ws"
    "hd (splitAtWaypoints geometry ws) = 0" "last (splitAtWaypoints geometry ws) = int (length geometry) - 1"
proof -
  let ?inner = "split_from geometry 0 (butlast (drop 1 ws))"
  have inner: "sorted (0 # ?inner)" "length ?inner = length ws - 2" "\<forall>s\<in>set ?inner. s < length geometry"
    using split_from_sorted [of 0 geometry "butlast (drop 1 ws)"] assms by auto
  have "sorted (map int ?inner)" using inner(1) by (simp add: sorted_map)
  then show "sorted (splitAtWaypoints geometry ws)" using inner(3) assms(1)
    by (auto simp: splitAtWaypoints_def sorted_append Suc_leI)
  show "length (splitAtWaypoints geometry ws) = length ws" using inner(2) assms(2) by (simp add: splitAtWaypoints_def)
  show "hd (splitAtWaypoints geometry ws) = 0" by (simp add: splitAtWaypoints_def)
  show "last (splitAtWaypoints geometry ws) = int (length geometry) - 1" using assms(1)
    by (cases geometry) (simp_all add: splitAtWaypoints_def)
qed

lemma route_for_parsed:
  assumes "parseDirections (Some answer) requested = Inr r" "2 \<le> length requested" "rr_geometry r \<noteq> []"
    and "di_waypoints answer \<noteq> None \<longrightarrow> length (the (di_waypoints answer)) = length requested"
  shows "route_for (length requested) r"
proof -
  obtain route others where "di_routes answer = Some (route # others)"
    using assms(1) by (auto simp: parseDirections_def Let_def split: option.splits list.splits)
  with assms(1) have r: "int (length (dr_legs route)) = int (length requested) - 1"
    "r = \<lparr>rr_geometry = dr_coordinates route, rr_durationS = dr_duration route, rr_distanceM = dr_distance route,
       rr_legs = map (\<lambda>(s, m). \<lparr>rl_durationS = s, rl_distanceM = m\<rparr>) (dr_legs route),
       rr_splits = splitAtWaypoints (dr_coordinates route) (case di_waypoints answer of Some ws \<Rightarrow> ws | None \<Rightarrow> requested)\<rparr>"
    by (simp_all add: parseDirections_def Let_def split: if_splits)
  let ?ws = "case di_waypoints answer of Some ws \<Rightarrow> ws | None \<Rightarrow> requested"
  have ws: "length ?ws = length requested" using assms(4) by (cases "di_waypoints answer") simp_all
  have g: "dr_coordinates route \<noteq> []" using assms(3) r(2) by simp
  have "2 \<le> length ?ws" using ws assms(2) by simp
  from splitAtWaypoints_facts [OF g this] ws r assms(2) show ?thesis
    by (simp add: route_for_def g)
qed

lemma route_for_joined:
  assumes a: "route_for m a" and b: "route_for k b"
  shows "route_for (m + k - 1) (join_routes a b)"
proof -
  let ?offset = "int (length (rr_geometry a)) - 1"
  obtain s ss where s: "rr_splits b = s # ss" using b by (cases "rr_splits b") (auto simp: route_for_def)
  then have ne: "ss \<noteq> []" using b by (auto simp: route_for_def)
  with s have ss: "s = 0" "sorted ss" "\<forall>x\<in>set ss. 0 \<le> x" "last ss = int (length (rr_geometry b)) - 1"
    using b by (auto simp: route_for_def)
  have last: "\<forall>x\<in>set (rr_splits a). x \<le> ?offset"
    using route_bound(2) [OF a] a by (force simp: in_set_conv_nth route_for_def)
  have eq: "rr_splits (join_routes a b) = rr_splits a @ map (\<lambda>split. split + ?offset) ss"
    by (simp add: join_routes_def Let_def s)
  have "sorted (rr_splits (join_routes a b))" unfolding eq sorted_append
    using a ss last by (fastforce simp: route_for_def sorted_map sorted_wrt_iff_nth_less)
  moreover have "hd (rr_splits (join_routes a b)) = 0" "length (rr_splits (join_routes a b)) = m + k - 1"
    using a b s by (auto simp: eq route_for_def hd_append)
  moreover have "last (rr_splits (join_routes a b)) = int (length (rr_geometry (join_routes a b))) - 1"
    using ss ne a b by (cases "rr_geometry b") (auto simp: eq last_map route_for_def join_routes_def Let_def)
  moreover have "rr_geometry (join_routes a b) \<noteq> []" "length (rr_legs (join_routes a b)) + 1 = m + k - 1" "2 \<le> m + k - 1"
    using a b by (auto simp: join_routes_def route_for_def Let_def)
  ultimately show ?thesis unfolding route_for_def by blast
qed

lemma route_for_merged:
  "route_for m first \<Longrightarrow> list_all2 (\<lambda>run part. route_for (length run) part) runs rest \<Longrightarrow>
   route_for (m + sum_list (map (\<lambda>run. length run - 1) runs)) (foldl join_routes first rest)"
proof (induction rest arbitrary: first m runs)
  case (Cons part rest)
  then obtain run runs' where runs: "runs = run # runs'" "route_for (length run) part"
    "list_all2 (\<lambda>run part. route_for (length run) part) runs' rest" by (auto simp: list_all2_Cons2)
  have "2 \<le> length run" using runs(2) by (simp add: route_for_def)
  then have e: "m + length run - Suc 0 = m + (length run - Suc 0)" by simp
  show ?case using Cons.IH [OF route_for_joined [OF Cons.prems(1) runs(2)] runs(3)]
    by (simp add: runs(1) e add.assoc)
qed simp

lemma length_joined_runs:
  "runs \<noteq> [] \<Longrightarrow> list_all (\<lambda>run. run \<noteq> []) runs \<Longrightarrow>
   length (joined_runs runs) = length (hd runs) + sum_list (map (\<lambda>run. length run - 1) (tl runs))"
  by (cases runs) (simp_all add: joined_runs_def length_concat o_def)

section \<open>The legs are the line\<close>

lemma slice_between: "0 \<le> a \<Longrightarrow> 0 \<le> b \<Longrightarrow> js_slice a b xs = drop (nat a) (take (nat b) xs)"
  by (simp add: js_slice_def js_slice_index_def)

lemma leg_between:
  "route_for n r \<Longrightarrow> leg + 1 < n \<Longrightarrow>
   legGeometry r leg = drop (nat (rr_splits r ! leg)) (take (nat (rr_splits r ! (leg + 1)) + 1) (rr_geometry r))"
proof -
  assume r: "route_for n r" and leg: "leg + 1 < n"
  note bound = route_bound [OF r]
  from bound(1) [of leg] bound(1) [of "leg + 1"] leg r show ?thesis
    by (simp add: legGeometry_def slice_between route_for_def nat_add_distrib)
qed

lemma legs_cover:
  assumes r: "route_for n r" and k: "0 < k" "k < n"
  shows "joined_runs (map (legGeometry r) [0..<k]) = take (nat (rr_splits r ! k) + 1) (rr_geometry r)"
  using k
proof (induction k)
  case (Suc k)
  note mono = route_mono [OF r] and zero = route_first [OF r] and bound = route_bound [OF r]
  show ?case
  proof (cases "k = 0")
    case True
    then show ?thesis using leg_between [OF r, of 0] Suc.prems zero by (simp add: joined_runs_def)
  next
    case False
    let ?a = "nat (rr_splits r ! k)" and ?b = "nat (rr_splits r ! Suc k)"
    have ab: "?a \<le> ?b" "?a < length (rr_geometry r)" using mono [of k "Suc k"] bound [of k] Suc.prems by auto
    have "joined_runs (map (legGeometry r) [0..<Suc k]) = joined_runs (map (legGeometry r) [0..<k]) @ drop 1 (legGeometry r k)"
      using False by (simp add: joined_runs_snoc)
    also have "\<dots> = take (?a + 1) (rr_geometry r) @ drop (?a + 1) (take (?b + 1) (rr_geometry r))"
      using Suc.IH False Suc.prems leg_between [OF r, of k] by simp
    also have "\<dots> = take (?b + 1) (rr_geometry r)"
      using ab by (metis append_take_drop_id min.absorb1 add_le_mono1 take_take)
    finally show ?thesis .
  qed
qed simp

text \<open>An answer as Mapbox documents it for a run: a line, and a place on it for each stop asked for.\<close>

definition answers_run :: "lng_lat list \<Rightarrow> directions \<times> road_route \<Rightarrow> bool" where
  "answers_run run got \<longleftrightarrow> parseDirections (Some (fst got)) run = Inr (snd got) \<and> rr_geometry (snd got) \<noteq> [] \<and>
     (case di_waypoints (fst got) of None \<Rightarrow> True | Some ws \<Rightarrow> length ws = length run)"

lemma foldl_join_durationS: "rr_durationS (foldl join_routes first rest) = rr_durationS first + sum_list (map rr_durationS rest)"
  by (induction rest arbitrary: first) (simp_all add: join_routes_def Let_def)

text \<open>
  C22. The whole drive. When every run is answered, the runs are one route through every stop: a leg
  from each stop to the next, whose lines laid end to end are the line drawn, and the runs' times are
  the drive's.
\<close>

theorem drive_is_whole:
  assumes "2 \<le> length stops" "list_all2 answers_run (waypointChunks stops) got"
  shows "\<exists>r. mergeRoutes (map snd got) = Inr r \<and> length (rr_legs r) = length stops - 1 \<and> length (rr_splits r) = length stops \<and>
    joined_runs (map (legGeometry r) [0..<length stops - 1]) = rr_geometry r \<and> rr_durationS r = sum_list (map (rr_durationS \<circ> snd) got)"
proof -
  note runs = runs_of_stops [OF assms(1)]
  have "list_all2 (\<lambda>run g. route_for (length run) (snd g)) (waypointChunks stops) got"
  proof (rule list.rel_mono_strong [OF assms(2)])
    fix run g assume "run \<in> set (waypointChunks stops)" "answers_run run g"
    then have "2 \<le> length run" and g: "parseDirections (Some (fst g)) run = Inr (snd g)" "rr_geometry (snd g) \<noteq> []"
      "di_waypoints (fst g) \<noteq> None \<longrightarrow> length (the (di_waypoints (fst g))) = length run"
      using runs(1) by (auto simp: answers_run_def list_all_iff split: option.splits)
    from route_for_parsed [OF g(1) this(1) g(2,3)] show "route_for (length run) (snd g)" .
  qed
  then have parts: "list_all2 (\<lambda>run part. route_for (length run) part) (waypointChunks stops) (map snd got)"
    by (simp add: list_all2_map2)
  then obtain run runs' first rest where c: "waypointChunks stops = run # runs'" "map snd got = first # rest"
    using runs(3) by (cases "waypointChunks stops"; cases "map snd got") auto
  let ?r = "foldl join_routes first rest"
  have f: "route_for (length run) first" "list_all2 (\<lambda>run part. route_for (length run) part) runs' rest" using parts c by auto
  have "list_all (\<lambda>run. run \<noteq> []) (waypointChunks stops)" using runs(1) by (auto simp: list_all_iff)
  from length_joined_runs [OF runs(3) this]
  have "length stops = length run + sum_list (map (\<lambda>run. length run - 1) runs')" by (simp add: runs(2)) (simp add: c(1))
  then have r: "route_for (length stops) ?r" using route_for_merged [OF f] by simp
  have k: "0 < length stops - 1" "length stops - 1 < length stops" using assms(1) by auto
  have "nat (rr_splits ?r ! (length stops - 1)) + 1 = length (rr_geometry ?r)"
    using r by (cases "rr_splits ?r = []"; cases "rr_geometry ?r") (auto simp: route_for_def last_conv_nth)
  then have "joined_runs (map (legGeometry ?r) [0..<length stops - 1]) = rr_geometry ?r" using legs_cover [OF r k] by simp
  moreover have "sum_list (map (rr_durationS \<circ> snd) got) = rr_durationS ?r"
    by (metis c(2) foldl_join_durationS list.simps(9) map_map sum_list.Cons)
  ultimately show ?thesis using r c(2) by (auto simp: mergeRoutes_def route_for_def)
qed

definition two_stops :: "lng_lat list" where
  "two_stops = [(-95, 29), (-96, 30)]"

definition short_answer :: directions where
  "short_answer = \<lparr>di_code = ''Ok'', di_message = None,
     di_routes = Some [\<lparr>dr_duration = 60, dr_distance = 1000, dr_coordinates = [(-95, 29), (-95, 30), (-96, 30)], dr_legs = [(60, 1000)]\<rparr>],
     di_waypoints = None\<rparr>"

definition short_route :: road_route where
  "short_route = \<lparr>rr_geometry = [(-95, 29), (-95, 30), (-96, 30)], rr_durationS = 60, rr_distanceM = 1000,
     rr_legs = [\<lparr>rl_durationS = 60, rl_distanceM = 1000\<rparr>], rr_splits = [0, 2]\<rparr>"

theorem drive_is_whole_witness:
  "mergeRoutes [short_route] = Inr short_route \<and> joined_runs (map (legGeometry short_route) [0..<1]) = rr_geometry short_route"
proof -
  have n: "2 \<le> length two_stops" by (simp add: two_stops_def)
  have chunks: "waypointChunks two_stops = [two_stops]" by (simp add: waypointChunks_def two_stops_def MAX_WAYPOINTS_def)
  have "answers_run two_stops (short_answer, short_route)"
    by (simp add: answers_run_def parseDirections_def two_stops_def short_answer_def short_route_def splitAtWaypoints_def Let_def)
  then have "list_all2 answers_run (waypointChunks two_stops) [(short_answer, short_route)]" by (simp add: chunks)
  from drive_is_whole [OF n this] show ?thesis by (auto simp: mergeRoutes_def two_stops_def)
qed

end
