(* ===== verification/Polyline.thy ===== *)
theory Polyline
  imports Road_Routes
begin

unbundle bit_operations_syntax

text \<open>
  \<open>web/components/planning/road-routes.ts\<close>, the form a route is kept in: Google's encoded line, over
  the 32-bit integers of \<open><<\<close>, \<open>>>\<close>, \<open>&\<close>, \<open>|\<close> and \<open>~\<close>.
\<close>

section \<open>The encoding\<close>

definition zigzag :: "int \<Rightarrow> 32 word" where
  "zigzag value = (if value < 0 then NOT (push_bit 1 (word_of_int value)) else push_bit 1 (word_of_int value))"

lemma signed_drop_smaller: "32 \<le> sint (w :: 32 word) \<Longrightarrow> nat (sint (signed_drop_bit 5 w)) < nat (sint w)"
  by (simp add: sint_signed_drop_bit_eq drop_bit_eq_div)

function polyline_chars :: "32 word \<Rightarrow> string" where
  "polyline_chars current =
     (if 32 \<le> sint current then
        char_of (nat (sint (32 OR (current AND 31)) + 63)) # polyline_chars (signed_drop_bit 5 current)
      else [char_of (nat (sint current + 63))])"
  by pat_completeness auto
termination by (relation "measure (\<lambda>w. nat (sint w))") (use signed_drop_smaller in auto)

declare polyline_chars.simps [simp del]

definition encode_value :: "int \<Rightarrow> string" where
  "encode_value value = polyline_chars (zigzag value)"

definition to_e5 :: "real \<Rightarrow> int" where
  "to_e5 degrees = js_round (degrees * 100000)"

fun encode_from :: "int \<Rightarrow> int \<Rightarrow> lng_lat list \<Rightarrow> string" where
  "encode_from previousLatitude previousLongitude [] = []"
| "encode_from previousLatitude previousLongitude ((longitude, latitude) # points) =
     (let latitudeE5 = to_e5 latitude; longitudeE5 = to_e5 longitude
      in encode_value (latitudeE5 - previousLatitude) @ encode_value (longitudeE5 - previousLongitude) @
         encode_from latitudeE5 longitudeE5 points)"

definition encodePolyline :: "lng_lat list \<Rightarrow> string" where
  "encodePolyline points = encode_from 0 0 points"

section \<open>The decoding\<close>

text \<open>Past the end a character reads as \<open>NaN\<close>: it adds nothing and ends the number.\<close>

fun decode_bits :: "32 word \<Rightarrow> nat \<Rightarrow> string \<Rightarrow> 32 word \<times> string" where
  "decode_bits result shift [] = (result, [])"
| "decode_bits result shift (c # chars) =
     (let byte = of_char c - 63 :: int;
          result = result OR push_bit (shift mod 32) (word_of_int byte AND 31)
      in if 32 \<le> byte \<and> chars \<noteq> [] then decode_bits result (shift + 5) chars else (result, chars))"

definition unzigzag :: "32 word \<Rightarrow> int" where
  "unzigzag result = sint (if result AND 1 \<noteq> 0 then NOT (signed_drop_bit 1 result) else signed_drop_bit 1 result)"

definition decode_value :: "string \<Rightarrow> int \<times> string" where
  "decode_value chars = (let (result, rest) = decode_bits 0 0 chars in (unzigzag result, rest))"

lemma decode_bits_shorter: "length (snd (decode_bits result shift chars)) \<le> length chars"
  "chars \<noteq> [] \<Longrightarrow> length (snd (decode_bits result shift chars)) < length chars"
  by (induction result shift chars rule: decode_bits.induct) (auto simp: Let_def le_SucI less_SucI)

function decode_from :: "int \<Rightarrow> int \<Rightarrow> string \<Rightarrow> lng_lat list" where
  "decode_from latitude longitude chars =
     (if chars = [] then []
      else let (dLat, chars1) = decode_value chars;
               (dLon, chars2) = decode_value chars1;
               latitude = latitude + dLat; longitude = longitude + dLon
           in (of_int longitude / 100000, of_int latitude / 100000) # decode_from latitude longitude chars2)"
  by pat_completeness auto
termination
proof (relation "measure (\<lambda>(_, _, chars). length chars)", simp, goal_cases)
  case (1 latitude longitude chars p dLat chars1 q dLon chars2 lat' lon')
  then have "chars1 = snd (decode_bits 0 0 chars)" "chars2 = snd (decode_bits 0 0 chars1)"
    by (auto simp: decode_value_def Let_def split: prod.splits)
  with 1(1) decode_bits_shorter(1) [of 0 0 chars1] decode_bits_shorter(2) [of chars 0 0] show ?case by simp
qed

declare decode_from.simps [simp del]

definition decodePolyline :: "string \<Rightarrow> lng_lat list" where
  "decodePolyline chars = decode_from 0 0 chars"

section \<open>Decoding undoes encoding\<close>

lemma zigzag_eq: "zigzag v = word_of_int (if v < 0 then - 2 * v - 1 else 2 * v)"
  by (simp add: zigzag_def not_eq_complement push_bit_eq_mult)

lemma polyline_chars_nonempty: "polyline_chars w \<noteq> []"
  by (subst polyline_chars.simps) simp

lemma and_31: "w AND 31 = take_bit 5 w" for w :: "32 word"
  by (simp add: take_bit_eq_mask mask_eq_exp_minus_1)

lemma bits_joined: "take_bit s w OR push_bit s (take_bit 5 (drop_bit s w)) = take_bit (s + 5) w" for w :: "32 word"
  by (rule bit_word_eqI) (auto simp: bit_simps)

lemma small_sint: "n < 2 ^ 31 \<Longrightarrow> sint (word_of_nat n :: 32 word) = int n"
  by (simp add: signed_of_nat signed_take_bit_int_eq_self)

lemma small_signed_drop: "n < 2 ^ 31 \<Longrightarrow> signed_drop_bit m (word_of_nat n :: 32 word) = word_of_nat (n div 2 ^ m)"
proof -
  assume n: "n < 2 ^ 31"
  moreover have "n div 2 ^ m < 2 ^ 31" using n div_le_dividend [of n "2 ^ m"] by linarith
  ultimately have "sint (signed_drop_bit m (word_of_nat n :: 32 word)) = sint (word_of_nat (n div 2 ^ m) :: 32 word)"
    by (simp add: sint_signed_drop_bit_eq small_sint drop_bit_eq_div zdiv_int)
  then show ?thesis by (simp only: signed_word_eqI)
qed

lemma small_unat: "n < 2 ^ 32 \<Longrightarrow> unat (word_of_nat n :: 32 word) = n"
  by (simp add: unsigned_of_nat take_bit_nat_eq_self)

lemma small_drop: "n < 2 ^ 32 \<Longrightarrow> drop_bit m (word_of_nat n :: 32 word) = word_of_nat (n div 2 ^ m)"
proof -
  assume n: "n < 2 ^ 32"
  then have "n div 2 ^ m < 2 ^ 32" using div_le_dividend [of n "2 ^ m"] by (rule le_less_trans [rotated])
  then have "unat (drop_bit m (word_of_nat n :: 32 word)) = unat (word_of_nat (n div 2 ^ m) :: 32 word)"
    by (simp only: unat_drop_bit_eq small_unat n drop_bit_nat_def)
  then show ?thesis by (simp only: word_unat_eq_iff)
qed

lemma small_low: "take_bit 5 (word_of_nat n :: 32 word) = word_of_nat (n mod 32)"
proof -
  have "take_bit 5 n = n mod 32" by (simp add: take_bit_eq_mod)
  then show ?thesis by (simp only: take_bit_of_nat)
qed

lemma small_or: "k < 32 \<Longrightarrow> (32 :: 32 word) OR word_of_nat k = word_of_nat (32 + k)"
proof -
  assume k: "k < 32"
  have "(32 :: 32 word) + word_of_nat k = 32 OR word_of_nat k"
  proof (rule disjunctive_add)
    fix n
    have "bit (32 :: 32 word) n \<longleftrightarrow> n = 5" using bit_exp_iff [of 5 n, where ?'a = "32 word"] by auto
    moreover have "\<not> bit k 5" using k by (simp add: bit_nat_def)
    ultimately show "\<not> bit (32 :: 32 word) n \<or> \<not> bit (word_of_nat k :: 32 word) n" by (auto simp: bit_of_nat_iff)
  qed
  then show ?thesis by simp
qed

lemma polyline_chars_nat:
  assumes n: "n < 2 ^ 31"
  shows "polyline_chars (word_of_nat n) =
    (if 32 \<le> n then char_of (95 + n mod 32) # polyline_chars (word_of_nat (n div 32)) else [char_of (n + 63)])"
proof -
  have "(word_of_nat n :: 32 word) AND 31 = word_of_nat (n mod 32)"
    by (simp only: and_31 small_low)
  then have "sint ((32 :: 32 word) OR (word_of_nat n AND 31)) = 32 + int (n mod 32)"
    using small_or [of "n mod 32"] small_sint [of "32 + n mod 32"] by simp
  then show ?thesis using n small_signed_drop [OF n, of 5]
    by (subst polyline_chars.simps) (simp add: small_sint nat_add_distrib)
qed

lemma small_char: "n < 256 \<Longrightarrow> (of_char (char_of n) :: int) = int n" for n :: nat
proof -
  assume "n < 256"
  then have "(of_char (char_of n) :: nat) = n" by simp
  then have "int (of_char (char_of n)) = int n" by simp
  then show ?thesis by (simp only: of_nat_of_char)
qed

lemma decode_chars:
  assumes "n < 2 ^ 30" "s \<le> 30" "w = word_of_nat n"
  shows "decode_bits (take_bit s w) s (polyline_chars (word_of_nat (n div 2 ^ s)) @ rest) = (w, rest)"
  using assms(2)
proof (induction "30 - s" arbitrary: s rule: less_induct)
  case less
  let ?m = "n div 2 ^ s"
  have m: "?m < 2 ^ 31" using le_less_trans [OF div_le_dividend [of n "2 ^ s"], of "2 ^ 31"] assms(1) by simp
  have low: "take_bit 5 (drop_bit s w) = word_of_nat (?m mod 32)"
    using assms(1,3) by (simp add: small_drop small_low)
  show ?case
  proof (cases "32 \<le> ?m")
    case True
    have "s < 26"
    proof (rule ccontr)
      assume "\<not> s < 26"
      then have "(2::nat) ^ 26 \<le> 2 ^ s" by (intro power_increasing) simp_all
      then have "?m \<le> n div 2 ^ 26" by (intro div_le_mono2) simp_all
      also have "\<dots> < 32" using assms(1) by (simp add: div_less_iff_less_mult)
      finally show False using True by simp
    qed
    moreover have "?m div 32 = n div 2 ^ (s + 5)" by (simp add: div_mult2_eq power_add)
    moreover have "of_char (char_of (95 + ?m mod 32) :: char) = 95 + int (?m mod 32)"
      by (subst small_char) simp_all
    moreover have "take_bit 5 (32 + word_of_nat (?m mod 32) :: 32 word) = word_of_nat (?m mod 32)"
      using small_low [of "32 + ?m mod 32"] by simp
    ultimately show ?thesis
      using less.hyps [of "s + 5"] True bits_joined [of s w] low
      by (simp add: polyline_chars_nat [OF m] polyline_chars_nonempty and_31)
  next
    case False
    have "take_bit (s + 5) w = w"
    proof -
      have "?m < 32" using False by (rule not_le_imp_less)
      then have "n < 32 * 2 ^ s" by (simp add: div_less_iff_less_mult)
      then have "take_bit (s + 5) n = n" by (simp add: take_bit_nat_eq_self power_add mult.commute)
      then show ?thesis by (simp only: assms(3) take_bit_of_nat)
    qed
    moreover have "of_char (char_of (?m + 63) :: char) = int (?m + 63)" using False by (subst small_char) simp_all
    ultimately show ?thesis
      using less.prems False bits_joined [of s w] low small_low [of ?m] by (simp add: polyline_chars_nat [OF m] and_31)
  qed
qed

lemma zigzag_back:
  assumes v: "- (2 ^ 28) \<le> v" "v \<le> 2 ^ 28"
  shows "unzigzag (zigzag v) = v"
proof -
  define n where "n = nat (if v < 0 then - 2 * v - 1 else 2 * v)"
  have n: "n < 2 ^ 31" "int n = (if v < 0 then - 2 * v - 1 else 2 * v)" using v by (auto simp: n_def)
  have z: "zigzag v = word_of_nat n" by (simp add: zigzag_eq n(2) [symmetric])
  have half: "sint (signed_drop_bit 1 (word_of_nat n :: 32 word)) = int n div 2"
    by (simp add: sint_signed_drop_bit_eq small_sint [OF n(1)] drop_bit_eq_div)
  have bit: "(word_of_nat n :: 32 word) AND 1 \<noteq> 0 \<longleftrightarrow> odd n"
  proof -
    have "(word_of_nat n :: 32 word) AND 1 \<noteq> 0 \<longleftrightarrow> odd (word_of_nat n :: 32 word)"
      by (simp only: and_one_eq even_iff_mod_2_eq_zero)
    also have "\<dots> \<longleftrightarrow> odd n" by (simp only: bit_0 [symmetric] bit_of_nat_iff possible_bit_0 simp_thms)
    finally show ?thesis .
  qed
  show ?thesis
  proof (cases "v < 0")
    case True
    have "odd (int n)" unfolding n(2) using True by simp
    then have "odd n" by simp
    have "- int (n div 2) - 1 = v" using n(2) True by (simp add: zdiv_int)
    then have "NOT (word_of_nat (n div 2) :: 32 word) = word_of_int v"
      by (metis not_eq_complement of_int_1 of_int_diff of_int_minus of_int_of_nat_eq)
    moreover have "sint (word_of_int v :: 32 word) = v" using v by (simp add: signed_of_int signed_take_bit_int_eq_self)
    ultimately show ?thesis using bit \<open>odd n\<close> small_signed_drop [OF n(1), of 1] by (simp add: unzigzag_def z)
  next
    case False
    have "even (int n)" unfolding n(2) using False by simp
    then have "even n" by simp
    then show ?thesis using bit half n(2) False by (simp add: unzigzag_def z)
  qed
qed

lemma decode_encoded:
  assumes "- (2 ^ 28) \<le> v" "v \<le> 2 ^ 28"
  shows "decode_value (encode_value v @ rest) = (v, rest)"
proof -
  define n where "n = nat (if v < 0 then - 2 * v - 1 else 2 * v)"
  have n: "n < 2 ^ 30" "int n = (if v < 0 then - 2 * v - 1 else 2 * v)" using assms by (auto simp: n_def)
  have z: "zigzag v = word_of_nat n" by (simp add: zigzag_eq n(2) [symmetric])
  have "decode_bits 0 0 (encode_value v @ rest) = (zigzag v, rest)"
    using decode_chars [OF n(1), of 0 "word_of_nat n" rest] by (simp add: encode_value_def z)
  then show ?thesis by (simp add: decode_value_def zigzag_back [OF assms])
qed

text \<open>A position on the map, and the nearest the encoding holds.\<close>

definition on_map :: "lng_lat \<Rightarrow> bool" where
  "on_map p \<longleftrightarrow> \<bar>fst p\<bar> \<le> 180 \<and> \<bar>snd p\<bar> \<le> 90"

definition nearest_e5 :: "lng_lat \<Rightarrow> lng_lat" where
  "nearest_e5 p = (of_int (to_e5 (fst p)) / 100000, of_int (to_e5 (snd p)) / 100000)"

lemma js_round_near: "\<bar>of_int (js_round x) - x\<bar> \<le> 1 / 2"
  unfolding js_round_def by linarith

lemma to_e5_near: "\<bar>of_int (to_e5 x) / 100000 - x\<bar> \<le> 5 / 1000000"
  using js_round_near [of "x * 100000"] by (simp add: to_e5_def abs_le_iff field_simps)

lemma to_e5_within: "\<bar>x\<bar> \<le> of_int k \<Longrightarrow> \<bar>to_e5 x\<bar> \<le> k * 100000"
  using js_round_mono [of "x * 100000" "of_int (k * 100000)", unfolded js_round_of_int]
    js_round_mono [of "of_int (- k * 100000)" "x * 100000", unfolded js_round_of_int]
  by (simp add: to_e5_def abs_le_iff)

lemma to_e5_bound: "\<bar>x\<bar> \<le> 180 \<Longrightarrow> \<bar>to_e5 x\<bar> \<le> 18000000"
  using to_e5_within [of x 180] by simp

lemma to_e5_of_e5: "to_e5 (of_int k / 100000) = k"
  by (simp add: to_e5_def)

lemma decode_encode_from:
  assumes "list_all on_map points" "\<bar>lat\<bar> \<le> 18000000" "\<bar>lon\<bar> \<le> 18000000"
  shows "decode_from lat lon (encode_from lat lon points) = map nearest_e5 points"
  using assms
proof (induction points arbitrary: lat lon)
  case (Cons p points)
  obtain longitude latitude where p: "p = (longitude, latitude)" by (cases p)
  have b: "\<bar>to_e5 latitude\<bar> \<le> 18000000" "\<bar>to_e5 longitude\<bar> \<le> 18000000"
    using Cons.prems(1) p by (auto intro!: to_e5_bound simp: on_map_def)
  have d: "- (2 ^ 28) \<le> to_e5 latitude - lat" "to_e5 latitude - lat \<le> 2 ^ 28"
    "- (2 ^ 28) \<le> to_e5 longitude - lon" "to_e5 longitude - lon \<le> 2 ^ 28" using b Cons.prems(2,3) by auto
  have ne: "encode_value v \<noteq> []" for v by (simp add: encode_value_def polyline_chars_nonempty)
  have "decode_from (to_e5 latitude) (to_e5 longitude) (encode_from (to_e5 latitude) (to_e5 longitude) points) = map nearest_e5 points"
    using Cons.prems(1) b by (intro Cons.IH) simp_all
  then show ?case
    by (subst decode_from.simps) (simp add: p Let_def ne decode_encoded [OF d(1,2)] decode_encoded [OF d(3,4)] nearest_e5_def)
qed (simp add: decode_from.simps)

lemma line_comes_back: "list_all on_map points \<Longrightarrow> decodePolyline (encodePolyline points) = map nearest_e5 points"
  unfolding decodePolyline_def encodePolyline_def by (rule decode_encode_from) simp_all

text \<open>
  C32. A line kept comes back: as many points, each within half of the fifth decimal of where it was,
  and a line read back once is kept exactly from then on.
\<close>

theorem kept_line_comes_back:
  assumes "list_all on_map points"
  shows "list_all2 (\<lambda>p q. \<bar>fst p - fst q\<bar> \<le> 5 / 1000000 \<and> \<bar>snd p - snd q\<bar> \<le> 5 / 1000000) points (decodePolyline (encodePolyline points)) \<and>
    decodePolyline (encodePolyline (decodePolyline (encodePolyline points))) = decodePolyline (encodePolyline points)"
proof
  show "list_all2 (\<lambda>p q. \<bar>fst p - fst q\<bar> \<le> 5 / 1000000 \<and> \<bar>snd p - snd q\<bar> \<le> 5 / 1000000) points (decodePolyline (encodePolyline points))"
    unfolding line_comes_back [OF assms] list_all2_map2
    using to_e5_near by (auto simp: list_all2_conv_all_nth nearest_e5_def abs_minus_commute)
  have "on_map (nearest_e5 p)" if "on_map p" for p
  proof -
    have "\<bar>to_e5 (fst p)\<bar> \<le> 18000000" using that by (intro to_e5_bound) (simp add: on_map_def)
    moreover have "\<bar>to_e5 (snd p)\<bar> \<le> 9000000"
      using that to_e5_within [of "snd p" 90] by (simp add: on_map_def)
    ultimately show ?thesis by (auto simp: on_map_def nearest_e5_def abs_le_iff)
  qed
  then have "list_all on_map (map nearest_e5 points)" using assms by (simp add: list_all_iff)
  from line_comes_back [OF this] show "decodePolyline (encodePolyline (decodePolyline (encodePolyline points))) = decodePolyline (encodePolyline points)"
    unfolding line_comes_back [OF assms] by (simp add: nearest_e5_def to_e5_of_e5)
qed

theorem kept_line_comes_back_witness:
  "decodePolyline (encodePolyline [(-95, 29), (-96, 30)]) = decodePolyline (encodePolyline (decodePolyline (encodePolyline [(-95, 29), (-96, 30)])))"
  using kept_line_comes_back [of "[(-95, 29), (-96, 30)]"] by (simp add: on_map_def)

section \<open>A route as it is stored\<close>

record stored_route =
  st_g :: string
  st_s :: "int list"
  st_d :: real
  st_m :: real
  st_l :: "(real \<times> real) list"
  st_t :: int

definition deflate :: "road_route \<Rightarrow> int \<Rightarrow> stored_route" where
  "deflate route now =
     \<lparr>st_g = encodePolyline (rr_geometry route), st_s = rr_splits route, st_d = rr_durationS route, st_m = rr_distanceM route,
      st_l = map (\<lambda>leg. (rl_durationS leg, rl_distanceM leg)) (rr_legs route), st_t = now\<rparr>"

definition inflate :: "stored_route \<Rightarrow> road_route option" where
  "inflate stored =
     (let geometry = decodePolyline (st_g stored)
      in if length (st_s stored) \<noteq> length (st_l stored) + 1 \<or> list_ex (\<lambda>split. int (length geometry) \<le> split) (st_s stored) then None
         else Some \<lparr>rr_geometry = geometry, rr_durationS = st_d stored, rr_distanceM = st_m stored,
           rr_legs = map (\<lambda>(s, m). \<lparr>rl_durationS = s, rl_distanceM = m\<rparr>) (st_l stored), rr_splits = st_s stored\<rparr>)"

lemma inflate_deflate:
  assumes "route_for n r" "list_all on_map (rr_geometry r)"
  shows "inflate (deflate r now) = Some (r\<lparr>rr_geometry := map nearest_e5 (rr_geometry r)\<rparr>)"
proof -
  have "\<not> list_ex (\<lambda>split. int (length (rr_geometry r)) \<le> split) (rr_splits r)"
    using route_bound(2) [OF assms(1)] assms(1) by (force simp: list_ex_iff in_set_conv_nth route_for_def)
  moreover have "length (rr_splits r) = length (rr_legs r) + 1" using assms(1) by (simp add: route_for_def)
  moreover have "map (\<lambda>(s, m). \<lparr>rl_durationS = s, rl_distanceM = m\<rparr>) (map (\<lambda>leg. (rl_durationS leg, rl_distanceM leg)) legs) = legs" for legs
    by (induction legs) simp_all
  ultimately show ?thesis
    by (simp add: inflate_def deflate_def line_comes_back [OF assms(2)] Let_def)
qed

end
