(* ===== verification/Manual_Grouping.thy ===== *)
theory Manual_Grouping
  imports Group_Maker Group_Ops_Proper "HOL-Library.Word"
begin

unbundle bit_operations_syntax

text \<open>
  \<open>web/components/planning/manual-grouping.ts\<close>: building groups by hand on the map. What a click
  does, the edits, the history they are undone through, and what this browser keeps of the work.
\<close>

section \<open>Edits\<close>

type_synonym manual_group = "int live_group"
type_synonym manual_state = "int live_groups"

datatype manual_edit =
    Create_Edit manual_group
  | Update_Edit string "string option" "string option" "int option"
  | Delete_Edit string
  | Add_Edit string int
  | Remove_Edit int
  | Reorder_Edit string int int
  | Order_Edit string "int list"

definition has_group :: "string \<Rightarrow> manual_state \<Rightarrow> bool" where
  "has_group i state \<longleftrightarrow> list_ex (\<lambda>g. lg_id g = i) state"

definition set_groups :: "string \<Rightarrow> (manual_group \<Rightarrow> manual_group) \<Rightarrow> manual_state \<Rightarrow> manual_state" where
  "set_groups i f state = map (\<lambda>g. if lg_id g = i then f g else g) state"

text \<open>One out of the list and in again elsewhere: the two \<open>splice\<close>s.\<close>

definition moved_stop :: "nat \<Rightarrow> nat \<Rightarrow> 'a list \<Rightarrow> 'a list" where
  "moved_stop at_from at_to stops =
     (let rest = take at_from stops @ drop (at_from + 1) stops
      in take at_to rest @ stops ! at_from # drop at_to rest)"

text \<open>\<open>None\<close> is the same object back: the edit changes nothing.\<close>

fun applyEdit :: "manual_state \<Rightarrow> manual_edit \<Rightarrow> manual_state option" where
  "applyEdit state (Create_Edit g) = Some (state @ [g])"
| "applyEdit state (Update_Edit i n c t) =
     (if \<not> has_group i state then None else Some (set_groups i (repaint n c t) state))"
| "applyEdit state (Delete_Edit i) =
     (if \<not> has_group i state then None else Some (filter (\<lambda>g. lg_id g \<noteq> i) state))"
| "applyEdit state (Add_Edit i row) =
     (if \<not> has_group i state then None
      else Some (map (\<lambda>g.
        let without = filter (\<lambda>r. r \<noteq> row) (lg_stops g)
        in if lg_id g = i then g\<lparr>lg_stops := without @ [row]\<rparr>
           else if length without = length (lg_stops g) then g
           else g\<lparr>lg_stops := without\<rparr>) state))"
| "applyEdit state (Remove_Edit row) =
     (if \<not> list_ex (\<lambda>g. row \<in> set (lg_stops g)) state then None
      else Some (map (\<lambda>g. if row \<in> set (lg_stops g) then g\<lparr>lg_stops := filter (\<lambda>r. r \<noteq> row) (lg_stops g)\<rparr> else g) state))"
| "applyEdit state (Reorder_Edit i from_at to_at) =
     (case find_group i state of
        None \<Rightarrow> None
      | Some g \<Rightarrow>
          let n = int (length (lg_stops g))
          in if from_at = to_at \<or> from_at < 0 \<or> n \<le> from_at \<or> to_at < 0 \<or> n \<le> to_at then None
             else let stops = moved_stop (nat from_at) (nat to_at) (lg_stops g)
                  in Some (set_groups i (\<lambda>g. g\<lparr>lg_stops := stops\<rparr>) state))"
| "applyEdit state (Order_Edit i stops) =
     (case find_group i state of
        None \<Rightarrow> None
      | Some g \<Rightarrow>
          let same = length stops = length (lg_stops g) \<and> distinct stops \<and> list_all (\<lambda>r. r \<in> set (lg_stops g)) stops
          in if \<not> same \<or> stops = lg_stops g then None
             else Some (set_groups i (\<lambda>g. g\<lparr>lg_stops := stops\<rparr>) state))"

definition nextGroupName :: "manual_state \<Rightarrow> string option" where
  "nextGroupName state = suggestGroupName (map lg_name state)"

text \<open>The colours, \<open>groupPalette\<close>, are a parameter: they are found by distances between colours.\<close>

definition nextGroupColor :: "string list \<Rightarrow> manual_state \<Rightarrow> string" where
  "nextGroupColor colors state =
     (case find (\<lambda>color. color \<notin> (\<lambda>g. toLowerCase (lg_color g)) ` set state) colors of
        Some color \<Rightarrow> color
      | None \<Rightarrow> colors ! (length state mod length colors))"

lemma nextGroupColor_fresh:
  assumes "distinct colors" "length state < length colors"
  shows "nextGroupColor colors state \<in> set colors - (\<lambda>g. toLowerCase (lg_color g)) ` set state"
proof -
  have "card ((\<lambda>g. toLowerCase (lg_color g)) ` set state) < card (set colors)"
    using assms card_image_le [of "set state" "\<lambda>g. toLowerCase (lg_color g)"] card_length [of state]
    by (simp add: distinct_card)
  then obtain color where "color \<in> set colors" "color \<notin> (\<lambda>g. toLowerCase (lg_color g)) ` set state"
    by (meson card_mono finite_imageI finite_set not_le subsetI)
  then have "find (\<lambda>color. color \<notin> (\<lambda>g. toLowerCase (lg_color g)) ` set state) colors \<noteq> None" by (auto simp: find_None_iff)
  then obtain c where c: "find (\<lambda>color. color \<notin> (\<lambda>g. toLowerCase (lg_color g)) ` set state) colors = Some c" by blast
  then have "c \<in> set colors" "c \<notin> (\<lambda>g. toLowerCase (lg_color g)) ` set state" by (auto simp: find_Some_iff)
  with c show ?thesis by (simp add: nextGroupColor_def)
qed

section \<open>History\<close>

record manual_history =
  mh_past :: "manual_state list"
  mh_present :: manual_state
  mh_future :: "manual_state list"

datatype history_action =
    Edit_Action manual_edit bool
  | Undo_Action
  | Redo_Action
  | Reset_Action manual_state
  | Rebase_Action "manual_state \<Rightarrow> manual_state"

definition HISTORY_LIMIT :: nat where "HISTORY_LIMIT = 500"

definition last_of :: "nat \<Rightarrow> 'a list \<Rightarrow> 'a list" where
  "last_of n xs = drop (length xs - n) xs"

fun historyReducer :: "manual_history \<Rightarrow> history_action \<Rightarrow> manual_history" where
  "historyReducer h (Edit_Action edit amend) =
     (case applyEdit (mh_present h) edit of
        None \<Rightarrow> h
      | Some state \<Rightarrow>
          if amend \<and> mh_past h \<noteq> [] then \<lparr>mh_past = mh_past h, mh_present = state, mh_future = []\<rparr>
          else \<lparr>mh_past = last_of HISTORY_LIMIT (mh_past h @ [mh_present h]), mh_present = state, mh_future = []\<rparr>)"
| "historyReducer h Undo_Action =
     (if mh_past h = [] then h
      else \<lparr>mh_past = butlast (mh_past h), mh_present = last (mh_past h), mh_future = mh_present h # mh_future h\<rparr>)"
| "historyReducer h Redo_Action =
     (case mh_future h of
        [] \<Rightarrow> h
      | state # rest \<Rightarrow> \<lparr>mh_past = mh_past h @ [mh_present h], mh_present = state, mh_future = rest\<rparr>)"
| "historyReducer h (Reset_Action state) = \<lparr>mh_past = [], mh_present = state, mh_future = []\<rparr>"
| "historyReducer h (Rebase_Action f) =
     \<lparr>mh_past = map f (mh_past h), mh_present = f (mh_present h), mh_future = map f (mh_future h)\<rparr>"

section \<open>Clicks\<close>

datatype click_intent = No_Active | Click_Remove manual_group | Click_Full manual_group | Click_Move manual_group manual_group | Click_Add manual_group

definition clickIntent :: "manual_state \<Rightarrow> string option \<Rightarrow> int \<Rightarrow> click_intent" where
  "clickIntent state activeId row =
     (case find (\<lambda>g. Some (lg_id g) = activeId) state of
        None \<Rightarrow> No_Active
      | Some active \<Rightarrow>
          if row \<in> set (lg_stops active) then Click_Remove active
          else if lg_target active \<le> int (length (lg_stops active)) then Click_Full active
          else case find (\<lambda>g. row \<in> set (lg_stops g)) state of
            Some owner \<Rightarrow> Click_Move owner active
          | None \<Rightarrow> Click_Add active)"

text \<open>\<open>onRowClick\<close>: the edit a click makes at once; a move is asked about first.\<close>

definition onRowClick :: "manual_state \<Rightarrow> string option \<Rightarrow> int \<Rightarrow> manual_edit option" where
  "onRowClick state activeId row =
     (case clickIntent state activeId row of
        Click_Remove g \<Rightarrow> Some (Remove_Edit row)
      | Click_Add g \<Rightarrow> Some (Add_Edit (lg_id g) row)
      | _ \<Rightarrow> None)"

definition raiseTarget :: "manual_state \<Rightarrow> string \<Rightarrow> manual_edit option" where
  "raiseTarget state i =
     map_option (\<lambda>g. Update_Edit i None None (Some (max (lg_target g) (int (length (lg_stops g))) + 1))) (find_group i state)"

section \<open>Fingerprints\<close>

text \<open>\<open>Math.imul\<close> and \<open>^\<close> are those of 32-bit words; \<open>charCodeAt\<close> of a character is its code.\<close>

definition cyrb_step :: "32 word \<times> 32 word \<Rightarrow> char \<Rightarrow> 32 word \<times> 32 word" where
  "cyrb_step h c =
     (let code = word_of_nat (of_char c)
      in ((fst h XOR code) * 2654435761, (snd h XOR code) * 1597334677))"

definition cyrb_mix :: "32 word \<Rightarrow> 32 word \<Rightarrow> 32 word" where
  "cyrb_mix h1 h2 = ((h1 XOR drop_bit 16 h1) * 2246822507) XOR ((h2 XOR drop_bit 13 h2) * 3266489909)"

fun digits36 :: "nat \<Rightarrow> string" where
  "digits36 n =
     (let d = n mod 36; c = (if d < 10 then char_of (48 + d) else char_of (87 + d))
      in if n < 36 then [c] else digits36 (n div 36) @ [c])"

declare digits36.simps [simp del]

definition cyrb_value :: "string \<Rightarrow> 32 word \<Rightarrow> nat" where
  "cyrb_value text seed =
     (let h = foldl cyrb_step (0xdeadbeef XOR seed, 0x41c6ce57 XOR seed) text;
          h1 = cyrb_mix (fst h) (snd h);
          h2 = cyrb_mix (snd h) h1
      in 4294967296 * unat (2097151 AND h2) + unat h1)"

definition cyrb53 :: "string \<Rightarrow> string" where
  "cyrb53 text = digits36 (cyrb_value text 0)"

section \<open>The autosave\<close>

record saved_grouping =
  sg_fileName :: string
  sg_open :: bool
  sg_savedAt :: string
  sg_activeId :: "string option"
  sg_minutes :: "int option"
  sg_autoOrder :: "bool option"
  sg_groups :: "string live_groups"

definition DEFAULT_MINUTES_PER_PROPERTY :: int where "DEFAULT_MINUTES_PER_PROPERTY = 30"

definition toSaved ::
  "string \<Rightarrow> manual_state \<Rightarrow> string option \<Rightarrow> (int \<times> string) list \<Rightarrow> string \<Rightarrow> bool \<Rightarrow> int option \<Rightarrow> bool option \<Rightarrow> saved_grouping" where
  "toSaved now state activeId prints fileName opened_now minutes autoOrder =
     \<lparr>sg_fileName = fileName, sg_open = opened_now, sg_savedAt = now, sg_activeId = activeId,
      sg_minutes = Some (case minutes of None \<Rightarrow> DEFAULT_MINUTES_PER_PROPERTY | Some m \<Rightarrow> m),
      sg_autoOrder = Some (case autoOrder of None \<Rightarrow> False | Some b \<Rightarrow> b),
      sg_groups = map (restop (\<lambda>stops. concat (map (\<lambda>row.
        case map_of prints row of None \<Rightarrow> [] | Some print \<Rightarrow> if print = [] then [] else [print]) stops))) state\<rparr>"

record loaded_grouping =
  lo_state :: manual_state
  lo_activeId :: "string option"
  lo_missing :: nat
  lo_minutes :: int
  lo_autoOrder :: bool

text \<open>One print: its row, unless nothing has it or its row is placed already.\<close>

definition place_print :: "(string \<Rightarrow> int option) \<Rightarrow> int list \<times> int set \<times> nat \<Rightarrow> string \<Rightarrow> int list \<times> int set \<times> nat" where
  "place_print row acc print =
     (let (stops, placed, missing) = acc
      in case row print of
           None \<Rightarrow> (stops, placed, missing + 1)
         | Some r \<Rightarrow> if r \<in> placed then acc else (stops @ [r], insert r placed, missing))"

definition load_group :: "(string \<Rightarrow> int option) \<Rightarrow> manual_state \<times> int set \<times> nat \<Rightarrow> string live_group \<Rightarrow> manual_state \<times> int set \<times> nat" where
  "load_group row acc g =
     (let (groups, placed, missing) = acc;
          (stops, placed, missing) = foldl (place_print row) ([], placed, missing) (lg_stops g)
      in (groups @ [\<lparr>lg_id = lg_id g, lg_name = lg_name g, lg_color = toLowerCase (lg_color g), lg_target = lg_target g, lg_stops = stops\<rparr>],
          placed, missing))"

definition row_of_print :: "(int \<times> string) list \<Rightarrow> string \<Rightarrow> int option" where
  "row_of_print prints = map_of (rev (map (\<lambda>(r, print). (print, r)) prints))"

definition fromSaved :: "saved_grouping \<Rightarrow> (int \<times> string) list \<Rightarrow> loaded_grouping" where
  "fromSaved saved prints =
     (let row = row_of_print prints;
          (groups, placed, missing) = foldl (load_group row) ([], {}, 0) (sg_groups saved)
      in \<lparr>lo_state = groups,
          lo_activeId = (if list_ex (\<lambda>g. Some (lg_id g) = sg_activeId saved) groups then sg_activeId saved else None),
          lo_missing = missing,
          lo_minutes = (case sg_minutes saved of None \<Rightarrow> DEFAULT_MINUTES_PER_PROPERTY | Some m \<Rightarrow> m),
          lo_autoOrder = (case sg_autoOrder saved of None \<Rightarrow> False | Some b \<Rightarrow> b)\<rparr>)"

section \<open>A property is in one group at most\<close>

definition placed_once :: "manual_state \<Rightarrow> bool" where
  "placed_once state \<longleftrightarrow> distinct (map lg_id state) \<and> distinct (concat (map lg_stops state))"

text \<open>A group is made empty, with an id of its own.\<close>

fun edit_ok :: "manual_state \<Rightarrow> manual_edit \<Rightarrow> bool" where
  "edit_ok state (Create_Edit g) = (\<not> has_group (lg_id g) state \<and> lg_stops g = [])"
| "edit_ok state edit = True"

lemma set_groups_fields [simp]:
  "(\<And>g. lg_id (f g) = lg_id g) \<Longrightarrow> map lg_id (set_groups i f state) = map lg_id state"
  by (simp add: set_groups_def)

lemma has_group_iff: "has_group i state \<longleftrightarrow> i \<in> lg_id ` set state"
  by (auto simp: has_group_def list_ex_iff)

lemma set_groups_change: "distinct (map lg_id state) \<Longrightarrow> set_groups i f state = change_group i f state"
proof (induction state)
  case (Cons g state)
  have "set_groups i f state = state" if "lg_id g = i"
    using Cons.prems that unfolding set_groups_def by (intro map_idI) (metis distinct.simps(2) image_eqI list.set_map list.simps(9))
  with Cons show ?case by (auto simp: set_groups_def)
qed (simp add: set_groups_def)

lemma mset_put_at: "mset (take b xs @ x # drop b xs) = add_mset x (mset xs)"
  by (metis append_take_drop_id mset.simps(2) mset_append union_mset_add_mset_right)

lemma mset_moved_stop: "a < length stops \<Longrightarrow> mset (moved_stop a b stops) = mset stops"
proof -
  assume a: "a < length stops"
  have "mset (moved_stop a b stops) = add_mset (stops ! a) (mset (take a stops @ drop (a + 1) stops))"
    unfolding moved_stop_def Let_def by (rule mset_put_at)
  also have "\<dots> = mset (take a stops @ stops ! a # drop (a + 1) stops)" by simp
  also have "\<dots> = mset stops" using id_take_nth_drop [OF a] by simp
  finally show ?thesis .
qed

lemma mset_one_changed:
  assumes "distinct (map lg_id state)" "find_group i state = Some g" "mset (f g) = mset (lg_stops g)"
  shows "mset (concat (map lg_stops (set_groups i (\<lambda>g'. g'\<lparr>lg_stops := f g\<rparr>) state))) = mset (concat (map lg_stops state))"
  using assms
proof (induction state)
  case (Cons h state)
  show ?case
  proof (cases "lg_id h = i")
    case True
    then have "h = g" using Cons.prems(2) by (simp add: find_group_def)
    moreover have "set_groups i (\<lambda>g'. g'\<lparr>lg_stops := f g\<rparr>) state = state"
      using Cons.prems(1) True unfolding set_groups_def
      by (intro map_idI) (metis distinct.simps(2) image_eqI list.set_map list.simps(9))
    ultimately show ?thesis using True Cons.prems(3) by (simp add: set_groups_def)
  next
    case False
    then have "find_group i state = Some g" using Cons.prems(2) by (simp add: find_group_def)
    with Cons False show ?thesis by (simp add: set_groups_def)
  qed
qed (simp add: find_group_def)

lemma applyEdit_placed:
  assumes s: "placed_once state" and ok: "edit_ok state edit" and step: "applyEdit state edit = Some state'"
  shows "placed_once state'"
proof -
  have d: "distinct (map lg_id state)" "distinct (concat (map lg_stops state))" using s by (simp_all add: placed_once_def)
  show ?thesis
  proof (cases edit)
    case (Create_Edit g)
    then show ?thesis using d ok step by (auto simp: placed_once_def has_group_iff)
  next
    case (Update_Edit i n c t)
    have "map lg_stops (set_groups i (repaint n c t) state) = map lg_stops state"
      "map lg_id (set_groups i (repaint n c t) state) = map lg_id state"
      by (simp_all add: set_groups_def repaint_def)
    then show ?thesis using d step Update_Edit by (auto simp: placed_once_def split: if_splits simp del: map_map distinct_concat_iff)
  next
    case (Delete_Edit i)
    have "distinct (concat (map lg_stops (filter P state)))" for P using d(2) by (induction state) auto
    then show ?thesis using d(1) step Delete_Edit by (auto simp: placed_once_def distinct_map_filterI split: if_splits)
  next
    case (Add_Edit i row)
    have w: "filter (\<lambda>r. r \<noteq> row) (lg_stops g) = lg_stops g" if "length (filter (\<lambda>r. r \<noteq> row) (lg_stops g)) = length (lg_stops g)" for g :: manual_group
      using that by (simp add: filter_id_conv length_filter_conv_card) (metis (mono_tags, lifting) filter_True length_filter_less less_irrefl that)
    have w': "g\<lparr>lg_stops := filter (\<lambda>r. r \<noteq> row) (lg_stops g)\<rparr> = g" if "length (filter (\<lambda>r. r \<noteq> row) (lg_stops g)) = length (lg_stops g)" for g :: manual_group
      using w [OF that] by simp
    have there: "i \<in> lg_id ` set state" using step Add_Edit by (auto simp: has_group_iff split: if_splits)
    have "state' = set_groups i (\<lambda>g. g\<lparr>lg_stops := lg_stops g @ [row]\<rparr>) (without_stop row state)"
      using step Add_Edit by (auto simp: w' set_groups_def without_stop_def Let_def split: if_splits)
    also have "\<dots> = change_group i (\<lambda>g. g\<lparr>lg_stops := lg_stops g @ [row]\<rparr>) (without_stop row state)"
      by (rule set_groups_change) (simp add: d(1))
    finally have eq: "state' = change_group i (\<lambda>g. g\<lparr>lg_stops := lg_stops g @ [row]\<rparr>) (without_stop row state)" .
    have "i \<in> lg_id ` set (without_stop row state)" using there by (simp add: without_stop_def image_image)
    from stops_added [OF this, of row]
    have "mset (concat (map lg_stops state')) = mset (row # concat (map lg_stops (without_stop row state)))" by (simp add: eq)
    moreover have "distinct (row # concat (map lg_stops (without_stop row state)))" using d(2) by (simp add: stops_without)
    ultimately have "distinct (concat (map lg_stops state'))" using mset_eq_imp_distinct_iff by metis
    then show ?thesis using d(1) by (simp add: placed_once_def eq change_group_fields)
  next
    case (Remove_Edit row)
    have w: "g\<lparr>lg_stops := filter (\<lambda>r. r \<noteq> row) (lg_stops g)\<rparr> = g" if "row \<notin> set (lg_stops g)" for g :: manual_group
    proof -
      have "filter (\<lambda>r. r \<noteq> row) (lg_stops g) = lg_stops g" using that by (auto simp: filter_id_conv)
      then show ?thesis by simp
    qed
    have "state' = without_stop row state"
      using step Remove_Edit by (auto simp: without_stop_def w split: if_splits)
    then show ?thesis using d by (simp add: placed_once_def stops_without)
  next
    case (Reorder_Edit i from_at to_at)
    then obtain g where g: "find_group i state = Some g" "nat from_at < length (lg_stops g)"
      and s': "state' = set_groups i (\<lambda>g'. g'\<lparr>lg_stops := moved_stop (nat from_at) (nat to_at) (lg_stops g)\<rparr>) state"
      using step by (auto simp: Let_def split: option.splits if_splits)
    have "mset (concat (map lg_stops state')) = mset (concat (map lg_stops state))"
      unfolding s' by (rule mset_one_changed [OF d(1) g(1)]) (rule mset_moved_stop [OF g(2)])
    then have "distinct (concat (map lg_stops state'))" using d(2) mset_eq_imp_distinct_iff by metis
    then show ?thesis using d(1) by (simp add: placed_once_def s')
  next
    case (Order_Edit i stops)
    then obtain g where g: "find_group i state = Some g" and same: "length stops = length (lg_stops g)" "distinct stops" "set stops \<subseteq> set (lg_stops g)"
      and s': "state' = set_groups i (\<lambda>g'. g'\<lparr>lg_stops := stops\<rparr>) state"
      using step by (auto simp: Let_def list_all_iff split: option.splits if_splits)
    have "distinct (lg_stops g)" using d(2) find_group_Some [OF g] by (auto simp: distinct_concat_iff)
    then have "mset stops = mset (lg_stops g)"
      using same by (metis card_subset_eq distinct_card finite_set set_eq_iff_mset_eq_distinct)
    then have "mset (concat (map lg_stops state')) = mset (concat (map lg_stops state))"
      unfolding s' by (rule mset_one_changed [OF d(1) g])
    then have "distinct (concat (map lg_stops state'))" using d(2) mset_eq_imp_distinct_iff by metis
    then show ?thesis using d(1) by (simp add: placed_once_def s')
  qed
qed

lemma without_absent: "row \<notin> set (lg_stops g) \<Longrightarrow> g\<lparr>lg_stops := filter (\<lambda>r. r \<noteq> row) (lg_stops g)\<rparr> = g" for g :: "'k live_group"
proof -
  assume "row \<notin> set (lg_stops g)"
  then have "filter (\<lambda>r. r \<noteq> row) (lg_stops g) = lg_stops g" by (auto simp: filter_id_conv)
  then show ?thesis by simp
qed

text \<open>A history: every step of it in order, and no more steps than undo reaches.\<close>

definition history_ok :: "manual_history \<Rightarrow> bool" where
  "history_ok h \<longleftrightarrow> list_all placed_once (mh_past h @ mh_present h # mh_future h) \<and>
     length (mh_past h) + length (mh_future h) \<le> HISTORY_LIMIT"

fun action_ok :: "manual_history \<Rightarrow> history_action \<Rightarrow> bool" where
  "action_ok h (Edit_Action edit amend) = edit_ok (mh_present h) edit"
| "action_ok h (Reset_Action state) = placed_once state"
| "action_ok h (Rebase_Action f) = list_all (\<lambda>state. placed_once (f state)) (mh_past h @ mh_present h # mh_future h)"
| "action_ok h action = True"

fun actions_ok :: "manual_history \<Rightarrow> history_action list \<Rightarrow> bool" where
  "actions_ok h [] = True"
| "actions_ok h (a # as) = (action_ok h a \<and> actions_ok (historyReducer h a) as)"

lemma length_last_of: "length (last_of n xs) = min n (length xs)"
  by (simp add: last_of_def)

lemma historyReducer_ok: "history_ok h \<Longrightarrow> action_ok h a \<Longrightarrow> history_ok (historyReducer h a)"
proof (cases a)
  case (Edit_Action edit amend)
  assume h: "history_ok h" and ok: "action_ok h a"
  show ?thesis
  proof (cases "applyEdit (mh_present h) edit")
    case (Some state)
    have "placed_once state" using applyEdit_placed [OF _ _ Some] h ok Edit_Action by (simp add: history_ok_def)
    then show ?thesis using Some h Edit_Action
      by (auto simp: history_ok_def length_last_of list_all_iff last_of_def dest: in_set_dropD)
  qed (use h Edit_Action in simp)
next
  case Undo_Action
  assume h: "history_ok h" and ok: "action_ok h a"
  show ?thesis
  proof (cases "mh_past h" rule: rev_cases)
    case (snoc past state)
    then show ?thesis using h Undo_Action by (auto simp: history_ok_def)
  qed (use h Undo_Action in simp)
qed (auto simp: history_ok_def list_all_iff split: list.splits)

text \<open>
  C18. Whatever a person does while grouping by hand, undoing and redoing it as they like, and
  whatever changes of others are worked in meanwhile, at every step of the history a property is in
  one group at most, once, and the history never holds more than five hundred steps.
\<close>

theorem grouping_stays_in_order:
  assumes "history_ok h" "actions_ok h actions"
  shows "history_ok (foldl historyReducer h actions)"
  using assms by (induction actions arbitrary: h) (simp_all add: historyReducer_ok)

definition two_rows :: "history_action list" where
  "two_rows = [Edit_Action (Create_Edit \<lparr>lg_id = ''a'', lg_name = ''A'', lg_color = ''#f3c300'', lg_target = 9, lg_stops = []\<rparr>) False,
     Edit_Action (Add_Edit ''a'' 2) False, Edit_Action (Add_Edit ''a'' 3) False, Edit_Action (Order_Edit ''a'' [3, 2]) True, Undo_Action, Redo_Action]"

definition nothing_grouped :: manual_history where
  "nothing_grouped = \<lparr>mh_past = [], mh_present = [], mh_future = []\<rparr>"

theorem grouping_stays_in_order_witness:
  "history_ok (foldl historyReducer nothing_grouped two_rows) \<and> map lg_stops (mh_present (foldl historyReducer nothing_grouped two_rows)) = [[3, 2]]"
proof -
  have ok: "history_ok nothing_grouped" by (simp add: history_ok_def nothing_grouped_def placed_once_def)
  have "actions_ok nothing_grouped two_rows" by code_simp
  moreover have "map lg_stops (mh_present (foldl historyReducer nothing_grouped two_rows)) = [[3, 2]]" by code_simp
  ultimately show ?thesis using grouping_stays_in_order [OF ok] by blast
qed

section \<open>Undo and redo move along a line\<close>

text \<open>The specification: the steps in order, and which one is shown.\<close>

definition timeline :: "manual_history \<Rightarrow> manual_state list \<times> nat" where
  "timeline h = (mh_past h @ mh_present h # mh_future h, length (mh_past h))"

fun timeline_step :: "manual_state list \<times> nat \<Rightarrow> history_action \<Rightarrow> manual_state list \<times> nat" where
  "timeline_step (steps, place) (Edit_Action edit amend) =
     (case applyEdit (steps ! place) edit of
        None \<Rightarrow> (steps, place)
      | Some state \<Rightarrow>
          if amend \<and> 0 < place then (take place steps @ [state], place)
          else let kept = min HISTORY_LIMIT (place + 1) in (drop (place + 1 - kept) (take (place + 1) steps) @ [state], kept))"
| "timeline_step (steps, place) Undo_Action = (steps, place - 1)"
| "timeline_step (steps, place) Redo_Action = (steps, min (place + 1) (length steps - 1))"
| "timeline_step (steps, place) (Reset_Action state) = ([state], 0)"
| "timeline_step (steps, place) (Rebase_Action f) = (map f steps, place)"

text \<open>
  C24. The history is a line of steps and a place on it. Undo and redo only move the place; an edit
  drops what was undone and puts the new step at the end, forgetting the oldest past five hundred,
  or in place of the last when it amends; another person's change is made to every step alike.
\<close>

theorem history_refines_timeline:
  "timeline (historyReducer h action) = timeline_step (timeline h) action"
proof (cases action)
  case (Edit_Action edit amend)
  show ?thesis
  proof (cases "applyEdit (mh_present h) edit")
    case (Some state)
    then show ?thesis by (simp add: Edit_Action timeline_def nth_append last_of_def Let_def min_def HISTORY_LIMIT_def)
  qed (simp add: Edit_Action timeline_def nth_append)
next
  case Undo_Action
  then show ?thesis by (cases "mh_past h" rule: rev_cases) (simp_all add: timeline_def)
qed (auto simp: timeline_def split: list.splits)

text \<open>
  Undo takes back one's own step and nobody else's. A person edits, others' changes come in,
  the person undoes: what is shown is what was shown before the edit, with the others' changes.
\<close>

theorem undo_keeps_the_others_changes:
  assumes "applyEdit (mh_present h) edit = Some state"
  shows "mh_present (historyReducer (foldl (\<lambda>h f. historyReducer h (Rebase_Action f)) (historyReducer h (Edit_Action edit False)) changes) Undo_Action) =
    foldl (\<lambda>state f. f state) (mh_present h) changes"
proof -
  have "mh_past h' \<noteq> [] \<Longrightarrow> mh_present (historyReducer (foldl (\<lambda>h f. historyReducer h (Rebase_Action f)) h' changes) Undo_Action) =
      foldl (\<lambda>state f. f state) (last (mh_past h')) changes" for h'
    by (induction changes arbitrary: h') (simp_all add: last_map)
  then show ?thesis using assms by (simp add: last_of_def HISTORY_LIMIT_def)
qed


theorem undo_keeps_the_others_changes_witness:
  "map lg_stops (mh_present (historyReducer
     (foldl (\<lambda>h f. historyReducer h (Rebase_Action f)) (historyReducer (foldl historyReducer nothing_grouped two_rows) (Edit_Action (Remove_Edit 3) False)) [without_stop 2])
     Undo_Action)) = [[3]]"
proof -
  let ?h = "foldl historyReducer nothing_grouped two_rows"
  have "applyEdit (mh_present ?h) (Remove_Edit 3) = Some (without_stop 3 (mh_present ?h))" by code_simp
  then show ?thesis by (simp only: undo_keeps_the_others_changes) code_simp
qed

section \<open>A click\<close>

definition within_target :: "manual_state \<Rightarrow> bool" where
  "within_target state \<longleftrightarrow> list_all (\<lambda>g. int (length (lg_stops g)) \<le> lg_target g) state"

lemma clickIntent_cases:
  assumes "onRowClick state activeId row = Some edit"
  obtains (out) g where "g \<in> set state" "activeId = Some (lg_id g)" "row \<in> set (lg_stops g)" "edit = Remove_Edit row"
  | (new) g where "g \<in> set state" "activeId = Some (lg_id g)" "\<not> list_ex (\<lambda>g. row \<in> set (lg_stops g)) state"
      "int (length (lg_stops g)) < lg_target g" "edit = Add_Edit (lg_id g) row"
proof -
  from assms obtain g where g: "find (\<lambda>g. Some (lg_id g) = activeId) state = Some g"
    by (auto simp: onRowClick_def clickIntent_def split: option.splits)
  then have "g \<in> set state" "activeId = Some (lg_id g)" by (auto simp: find_Some_iff)
  with that assms g show thesis
    by (auto simp: onRowClick_def clickIntent_def find_None_iff list_ex_iff split: option.splits if_splits)
qed

text \<open>
  What a click does. Clicking a property of the group being built takes it out of every group;
  clicking one that is in no group makes it that group's next stop, and only while the group has room:
  no click takes a group past its target, and none doubles a property.
\<close>

theorem clicks_keep_the_targets:
  assumes s: "placed_once state" "within_target state" and click: "onRowClick state (Some i) row = Some edit"
  shows "\<exists>state'. applyEdit state edit = Some state' \<and> placed_once state' \<and> within_target state' \<and>
    (if \<exists>g\<in>set state. row \<in> set (lg_stops g) then state' = without_stop row state
     else state' = change_group i (\<lambda>g. g\<lparr>lg_stops := lg_stops g @ [row]\<rparr>) state)"
  using click
proof (cases rule: clickIntent_cases)
  case (out g)
  have w: "g\<lparr>lg_stops := filter (\<lambda>r. r \<noteq> row) (lg_stops g)\<rparr> = g" if "row \<notin> set (lg_stops g)" for g :: manual_group
    using without_absent [OF that] .
  have step: "applyEdit state edit = Some (without_stop row state)"
    using out by (auto simp: without_stop_def list_ex_iff w)
  moreover have "placed_once (without_stop row state)" using applyEdit_placed [OF s(1) _ step] out(4) by simp
  moreover have "int (length (filter P (lg_stops g))) \<le> lg_target g" if "g \<in> set state" for P g
  proof -
    have "int (length (lg_stops g)) \<le> lg_target g" using s(2) that by (simp add: within_target_def list_all_iff)
    then show ?thesis using length_filter_le [of P "lg_stops g"] by linarith
  qed
  then have "within_target (without_stop row state)" by (auto simp: within_target_def without_stop_def list_all_iff)
  ultimately show ?thesis using out(1,3) by auto
next
  case (new g)
  have none: "row \<notin> set (lg_stops h)" if "h \<in> set state" for h using new(3) that by (auto simp: list_ex_iff)
  have same: "filter (\<lambda>r. r \<noteq> row) (lg_stops h) = lg_stops h" if "h \<in> set state" for h
    using none [OF that] by (auto simp: filter_id_conv)
  have i: "i = lg_id g" using new(2) by simp
  have d: "distinct (map lg_id state)" using s(1) by (simp add: placed_once_def)
  have "applyEdit state edit = Some (set_groups i (\<lambda>g. g\<lparr>lg_stops := lg_stops g @ [row]\<rparr>) state)"
    using new(1,5) i by (auto simp: has_group_iff set_groups_def same Let_def)
  then have step: "applyEdit state edit = Some (change_group i (\<lambda>g. g\<lparr>lg_stops := lg_stops g @ [row]\<rparr>) state)"
    by (simp only: set_groups_change [OF d])
  moreover have "placed_once (change_group i (\<lambda>g. g\<lparr>lg_stops := lg_stops g @ [row]\<rparr>) state)"
    using applyEdit_placed [OF s(1) _ step] new(5) by simp
  moreover have "h = g" if "h \<in> set state" "lg_id h = i" for h
    using d that new(1) i by (auto simp: distinct_map inj_on_def)
  then have "within_target (set_groups i (\<lambda>g. g\<lparr>lg_stops := lg_stops g @ [row]\<rparr>) state)"
    using s(2) new(4) by (auto simp: within_target_def set_groups_def list_all_iff)
  then have "within_target (change_group i (\<lambda>g. g\<lparr>lg_stops := lg_stops g @ [row]\<rparr>) state)"
    by (simp only: set_groups_change [OF d])
  moreover have "\<not> (\<exists>g\<in>set state. row \<in> set (lg_stops g))" using none by blast
  ultimately show ?thesis by simp
qed

definition half_built :: manual_state where
  "half_built = [\<lparr>lg_id = ''a'', lg_name = ''A'', lg_color = ''#f3c300'', lg_target = 2, lg_stops = [4]\<rparr>]"

theorem clicks_keep_the_targets_witness:
  "onRowClick half_built (Some ''a'') 7 = Some (Add_Edit ''a'' 7) \<and> map lg_stops (the (applyEdit half_built (Add_Edit ''a'' 7))) = [[4, 7]] \<and>
   within_target (the (applyEdit half_built (Add_Edit ''a'' 7)))"
proof -
  have s: "placed_once half_built" "within_target half_built" "onRowClick half_built (Some ''a'') 7 = Some (Add_Edit ''a'' 7)"
    by code_simp+
  from clicks_keep_the_targets [OF s] have "within_target (the (applyEdit half_built (Add_Edit ''a'' 7)))" by auto
  with s(3) show ?thesis by code_simp
qed

section \<open>Fingerprints are short and exact\<close>

lemma word_and_bound: "unat (2097151 AND x :: 32 word) < 2097152"
proof -
  have "unat (2097151 AND x :: 32 word) \<le> unat (2097151 :: 32 word)"
    by (rule word_le_nat_alt [THEN iffD1, OF word_and_le2])
  then show ?thesis by simp
qed

lemma length_digits36: "0 < k \<Longrightarrow> n < 36 ^ k \<Longrightarrow> length (digits36 n) \<le> k"
proof (induction k arbitrary: n)
  case (Suc k)
  show ?case
  proof (cases "n < 36")
    case True
    then show ?thesis by (simp add: digits36.simps [of n] Let_def)
  next
    case False
    then have "0 < k" using Suc.prems(2) by (cases k) auto
    moreover have "n div 36 < 36 ^ k" using Suc.prems(2) by (simp add: div_less_iff_less_mult)
    ultimately have "length (digits36 (n div 36)) \<le> k" using Suc.IH by blast
    then show ?thesis using False by (subst digits36.simps) (simp add: Let_def)
  qed
qed simp

text \<open>
  A fingerprint is a number the program's arithmetic holds exactly, below \<open>2 ^ 53\<close>, and its text
  is of one to eleven characters: it fits the forty the saved work
  allows, whatever the text it stands for.
\<close>

theorem fingerprints_are_exact_and_short:
  "cyrb_value text seed < 2 ^ 53 \<and> 0 < length (cyrb53 text) \<and> length (cyrb53 text) \<le> 11"
proof -
  have bound: "cyrb_value text seed < 2 ^ 53" for seed
  proof -
    have "4294967296 * unat (2097151 AND h2 :: 32 word) + unat (h1 :: 32 word) < 2 ^ 53" for h1 h2
    proof -
      have "unat h1 < 2 ^ LENGTH(32)" by (rule unsigned_less)
      moreover have "unat (2097151 AND h2) \<le> 2097151" using word_and_bound [of h2] by simp
      ultimately show ?thesis by simp
    qed
    then show ?thesis by (simp add: cyrb_value_def Let_def)
  qed
  moreover have "cyrb_value text 0 < 36 ^ 11" by (rule less_le_trans [OF bound]) simp
  then have "length (cyrb53 text) \<le> 11" unfolding cyrb53_def by (intro length_digits36) simp_all
  moreover have "digits36 n \<noteq> []" for n by (subst digits36.simps) (simp add: Let_def)
  ultimately show ?thesis by (simp add: cyrb53_def)
qed

section \<open>The autosave\<close>

text \<open>What loading comes to: the rows found, the first time each is met.\<close>

fun fresh_rows :: "int set \<Rightarrow> int list \<Rightarrow> int list" where
  "fresh_rows placed [] = []"
| "fresh_rows placed (r # rs) = (if r \<in> placed then fresh_rows placed rs else r # fresh_rows (insert r placed) rs)"

definition found_rows :: "(string \<Rightarrow> int option) \<Rightarrow> string list \<Rightarrow> int list" where
  "found_rows row ps = List.map_filter row ps"

fun loaded_groups :: "(string \<Rightarrow> int option) \<Rightarrow> int set \<Rightarrow> string live_groups \<Rightarrow> manual_state" where
  "loaded_groups row placed [] = []"
| "loaded_groups row placed (g # gs) =
     \<lparr>lg_id = lg_id g, lg_name = lg_name g, lg_color = toLowerCase (lg_color g), lg_target = lg_target g,
      lg_stops = fresh_rows placed (found_rows row (lg_stops g))\<rparr>
     # loaded_groups row (placed \<union> set (found_rows row (lg_stops g))) gs"

definition prints_missing :: "(string \<Rightarrow> int option) \<Rightarrow> string list \<Rightarrow> nat" where
  "prints_missing row ps = length (filter (\<lambda>p. row p = None) ps)"

lemma found_rows_simps [simp]:
  "found_rows row [] = []" "found_rows row (ps @ qs) = found_rows row ps @ found_rows row qs"
  "found_rows row (p # ps) = (case row p of None \<Rightarrow> found_rows row ps | Some r \<Rightarrow> r # found_rows row ps)"
  by (simp_all add: found_rows_def List.map_filter_def split: option.split)

lemma foldl_place_print:
  "foldl (place_print row) (stops, placed, missing) ps =
     (stops @ fresh_rows placed (found_rows row ps), placed \<union> set (found_rows row ps), missing + prints_missing row ps)"
  by (induction ps arbitrary: stops placed missing) (auto simp: place_print_def prints_missing_def insert_absorb split: option.split)

lemma foldl_load_group:
  "foldl (load_group row) (groups, placed, missing) gs =
     (groups @ loaded_groups row placed gs, placed \<union> set (found_rows row (concat (map lg_stops gs))),
      missing + prints_missing row (concat (map lg_stops gs)))"
  by (induction gs arbitrary: groups placed missing) (auto simp: load_group_def foldl_place_print prints_missing_def)

lemma fresh_rows_facts: "distinct (fresh_rows placed rs)" "set (fresh_rows placed rs) = set rs - placed"
  by (induction rs arbitrary: placed) auto

lemma fresh_rows_same: "distinct rs \<Longrightarrow> set rs \<inter> placed = {} \<Longrightarrow> fresh_rows placed rs = rs"
  by (induction rs arbitrary: placed) auto

lemma loaded_groups_stops:
  "distinct (concat (map lg_stops (loaded_groups row placed gs)))"
  "set (concat (map lg_stops (loaded_groups row placed gs))) = set (found_rows row (concat (map lg_stops gs))) - placed"
  by (induction gs arbitrary: placed) (auto simp: fresh_rows_facts)

lemma loaded_groups_ids: "map lg_id (loaded_groups row placed gs) = map lg_id gs"
  by (induction gs arbitrary: placed) auto

text \<open>
  Whatever was saved, and whatever file is now open, the work resumed has every property of the
  file once at most, every property it finds is placed, and those it does not find are counted.
\<close>

theorem resumed_work_is_in_order:
  assumes "distinct (map lg_id (sg_groups saved))"
  shows "placed_once (lo_state (fromSaved saved prints)) \<and>
    set (concat (map lg_stops (lo_state (fromSaved saved prints)))) =
      {r. \<exists>print\<in>set (concat (map lg_stops (sg_groups saved))). row_of_print prints print = Some r} \<and>
    lo_missing (fromSaved saved prints) = length (filter (\<lambda>print. print \<notin> snd ` set prints) (concat (map lg_stops (sg_groups saved))))"
proof -
  let ?row = "row_of_print prints"
  have eq: "lo_state (fromSaved saved prints) = loaded_groups ?row {} (sg_groups saved)"
    "lo_missing (fromSaved saved prints) = prints_missing ?row (concat (map lg_stops (sg_groups saved)))"
    by (simp_all add: fromSaved_def foldl_load_group Let_def)
  have "set (found_rows ?row ps) = {r. \<exists>print\<in>set ps. ?row print = Some r}" for ps
    by (induction ps) (auto split: option.split)
  moreover have "?row print = None \<longleftrightarrow> print \<notin> snd ` set prints" for print
    by (auto simp: row_of_print_def map_of_eq_None_iff image_image case_prod_beta')
  ultimately show ?thesis using assms
    by (simp add: eq placed_once_def loaded_groups_ids loaded_groups_stops prints_missing_def del: set_concat)
qed

definition two_prints :: "(int \<times> string) list" where
  "two_prints = [(4, ''k4''), (7, ''k7'')]"

definition saved_twice :: saved_grouping where
  "saved_twice = (toSaved ''2026-10-01'' half_built (Some ''a'') two_prints ''groups.csv'' True None None)\<lparr>sg_groups :=
     [\<lparr>lg_id = ''a'', lg_name = ''A'', lg_color = ''#F3C300'', lg_target = 2, lg_stops = [''k7'', ''k9'', ''k7'', ''k4'']\<rparr>]\<rparr>"

theorem resumed_work_is_in_order_witness:
  "placed_once (lo_state (fromSaved saved_twice two_prints)) \<and> map lg_stops (lo_state (fromSaved saved_twice two_prints)) = [[7, 4]] \<and>
   lo_missing (fromSaved saved_twice two_prints) = 1"
proof -
  have "distinct (map lg_id (sg_groups saved_twice))" by code_simp
  from resumed_work_is_in_order [OF this, of two_prints] have "placed_once (lo_state (fromSaved saved_twice two_prints))" by blast
  moreover have "map lg_stops (lo_state (fromSaved saved_twice two_prints)) = [[7, 4]]" by code_simp
  moreover have "lo_missing (fromSaved saved_twice two_prints) = 1" by code_simp
  ultimately show ?thesis by blast
qed

text \<open>
  C33. What is saved comes back: over the same file, the groups as they were, stop for stop, the
  group being built, and nothing missing.
\<close>

theorem autosave_comes_back:
  assumes "placed_once state" "list_all (\<lambda>g. toLowerCase (lg_color g) = lg_color g) state"
    and "distinct (map fst prints)" "distinct (map snd prints)" "[] \<notin> snd ` set prints"
    and "set (concat (map lg_stops state)) \<subseteq> fst ` set prints"
  shows "fromSaved (toSaved now state activeId prints fileName opened_now minutes autoOrder) prints =
    \<lparr>lo_state = state,
     lo_activeId = (if list_ex (\<lambda>g. Some (lg_id g) = activeId) state then activeId else None), lo_missing = 0,
     lo_minutes = (case minutes of None \<Rightarrow> DEFAULT_MINUTES_PER_PROPERTY | Some m \<Rightarrow> m),
     lo_autoOrder = (case autoOrder of None \<Rightarrow> False | Some b \<Rightarrow> b)\<rparr>"
proof -
  let ?row = "row_of_print prints"
  let ?prints = "\<lambda>stops. concat (map (\<lambda>row. case map_of prints row of None \<Rightarrow> [] | Some print \<Rightarrow> if print = [] then [] else [print]) stops)"
  have found: "\<exists>print. map_of prints r = Some print \<and> print \<noteq> [] \<and> ?row print = Some r" if r: "r \<in> fst ` set prints" for r
  proof -
    obtain print where print: "(r, print) \<in> set prints" using r by auto
    have "distinct (map fst (rev (map (\<lambda>(r, print). (print, r)) prints)))"
      using assms(4) by (simp add: rev_map [symmetric] o_def case_prod_beta')
    then have "?row print = Some r" using print unfolding row_of_print_def by (intro map_of_is_SomeI) force+
    moreover have "map_of prints r = Some print" using assms(3) print by simp
    moreover have "print \<noteq> []" using assms(5) print by force
    ultimately show ?thesis by blast
  qed
  have stops: "found_rows ?row (?prints stops) = stops \<and> prints_missing ?row (?prints stops) = 0" if "set stops \<subseteq> fst ` set prints" for stops
    using that
  proof (induction stops)
    case (Cons r stops)
    then obtain print where "map_of prints r = Some print" "print \<noteq> []" "?row print = Some r" using found [of r] by auto
    with Cons show ?case by (simp add: prints_missing_def)
  qed (simp add: prints_missing_def)
  have groups: "loaded_groups ?row placed (map (restop ?prints) gs) = gs"
    if "distinct (concat (map lg_stops gs))" "set (concat (map lg_stops gs)) \<inter> placed = {}" "set (concat (map lg_stops gs)) \<subseteq> fst ` set prints"
      "list_all (\<lambda>g. toLowerCase (lg_color g) = lg_color g) gs" for gs placed
    using that
  proof (induction gs arbitrary: placed)
    case (Cons g gs)
    have g: "found_rows ?row (?prints (lg_stops g)) = lg_stops g" using stops [of "lg_stops g"] Cons.prems(3) by auto
    have "loaded_groups ?row (placed \<union> set (lg_stops g)) (map (restop ?prints) gs) = gs"
      using Cons.prems by (intro Cons.IH) auto
    moreover have "fresh_rows placed (lg_stops g) = lg_stops g" using Cons.prems by (intro fresh_rows_same) auto
    ultimately show ?case using g Cons.prems(4) by simp
  qed simp
  have all: "concat (map lg_stops (map (restop ?prints) state)) = ?prints (concat (map lg_stops state))"
    by (induction state) (simp_all add: restop_def)
  have "loaded_groups ?row {} (map (restop ?prints) state) = state"
    using assms(1,2,6) by (intro groups) (simp_all add: placed_once_def)
  moreover have "prints_missing ?row (concat (map lg_stops (map (restop ?prints) state))) = 0"
    unfolding all using stops assms(6) by blast
  ultimately show ?thesis
    by (simp add: fromSaved_def toSaved_def foldl_load_group Let_def del: map_map)
qed

theorem autosave_comes_back_witness:
  "lo_state (fromSaved (toSaved ''2026-10-01'' half_built (Some ''a'') two_prints ''groups.csv'' True None (Some True)) two_prints) = half_built"
proof -
  have a: "placed_once half_built" "list_all (\<lambda>g. toLowerCase (lg_color g) = lg_color g) half_built" by code_simp+
  have b: "distinct (map fst two_prints)" "distinct (map snd two_prints)" "[] \<notin> snd ` set two_prints"
    "set (concat (map lg_stops half_built)) \<subseteq> fst ` set two_prints"
    by (simp_all add: two_prints_def half_built_def)
  show ?thesis by (simp add: autosave_comes_back [OF a b])
qed

end
