(* ===== verification/Route_Store.thy ===== *)
theory Route_Store
  imports Polyline Manual_Grouping "HOL-Library.AList" "HOL-Library.Multiset"
begin

text \<open>
  \<open>createRouteStore\<close> of \<open>web/components/planning/road-routes.ts\<close>: one cache and one queue of requests
  for the page. An \<open>await\<close> is where a step ends; the answer, the end of a pause and the release of a
  job's place are steps of their own. What the browser's storage takes is a parameter.
\<close>

section \<open>The state\<close>

datatype route_view = View_Loading | View_Ok road_route | View_Error string

record route_job =
  jb_key :: string
  jb_coordinates :: "lng_lat list"

text \<open>Waiting for the slot taken, for the answer to a request, for a pause to end, or done with and not released.\<close>

datatype run_phase = Sleeping int | Asked | Pausing | Ending

record job_run =
  rn_key :: string
  rn_coordinates :: "lng_lat list"
  rn_left :: "lng_lat list list"
  rn_parts :: "road_route list"
  rn_attempt :: nat
  rn_phase :: run_phase

record route_store =
  sr_memory :: "string \<Rightarrow> (route_view \<times> bool) option"
  sr_queue :: "route_job list"
  sr_running :: "job_run list"
  sr_persisted :: "(string \<times> stored_route) list"
  sr_version :: nat
  sr_nextSlot :: int
  sr_slots :: "int list"
  sr_sent :: "(int \<times> int) list"
  sr_settled :: "(string \<times> (string + road_route)) list"

text \<open>
  For the theorems, latest first: \<open>sr_slots\<close> are the slots taken, \<open>sr_sent\<close> the slot of each request sent
  and the time it went out, \<open>sr_settled\<close> the promises kept or broken.
\<close>

record store_options =
  so_token :: string
  so_concurrency :: nat
  so_gapMs :: int
  so_takes :: "(string \<times> stored_route) list \<Rightarrow> bool"

definition MAX_STORED :: nat where "MAX_STORED = 400"

definition new_store :: "(string \<times> stored_route) list \<Rightarrow> route_store" where
  "new_store persisted = \<lparr>sr_memory = Map.empty, sr_queue = [], sr_running = [], sr_persisted = persisted, sr_version = 0,
     sr_nextSlot = 0, sr_slots = [], sr_sent = [], sr_settled = []\<rparr>"

definition changed_store :: "route_store \<Rightarrow> route_store" where
  "changed_store s = s\<lparr>sr_version := sr_version s + 1\<rparr>"

section \<open>Operations\<close>

text \<open>The newest \<open>n\<close> stay; what the storage does not take leaves half.\<close>

definition keep_newest :: "nat \<Rightarrow> (string \<times> stored_route) list \<Rightarrow> (string \<times> stored_route) list \<Rightarrow> (string \<times> stored_route) list" where
  "keep_newest n newestFirst all = filter (\<lambda>(hash, _). hash \<notin> fst ` set (drop n newestFirst)) all"

definition save_store :: "store_options \<Rightarrow> (string \<times> stored_route) list \<Rightarrow> (string \<times> stored_route) list" where
  "save_store opts all =
     (let newestFirst = sort_cmp (on_key (\<lambda>(_, st). - st_t st) by_number) all;
          all = keep_newest MAX_STORED newestFirst all
      in if so_takes opts all then all else keep_newest (MAX_STORED div 2) newestFirst all)"

definition view_store :: "route_store \<Rightarrow> string \<Rightarrow> route_view option \<times> route_store" where
  "view_store s key =
     (case sr_memory s key of
        Some (v, _) \<Rightarrow> (Some v, s)
      | None \<Rightarrow>
          (case Option.bind (map_of (sr_persisted s) (cyrb53 key)) inflate of
             None \<Rightarrow> (None, s)
           | Some route \<Rightarrow> (Some (View_Ok route), s\<lparr>sr_memory := (sr_memory s)(key \<mapsto> (View_Ok route, False))\<rparr>)))"

definition take_slot :: "store_options \<Rightarrow> int \<Rightarrow> route_store \<Rightarrow> int \<times> route_store" where
  "take_slot opts now s =
     (let slot = max now (sr_nextSlot s)
      in (slot, s\<lparr>sr_nextSlot := slot + so_gapMs opts, sr_slots := slot # sr_slots s\<rparr>))"

definition set_run :: "job_run \<Rightarrow> route_store \<Rightarrow> route_store" where
  "set_run r s = s\<lparr>sr_running := map (\<lambda>r'. if rn_key r' = rn_key r then r else r') (sr_running s)\<rparr>"

text \<open>The \<open>try\<close> and the \<open>catch\<close> of \<open>run\<close>, from the merged route or the error; \<open>changed\<close> either way.\<close>

definition finish_run :: "store_options \<Rightarrow> int \<Rightarrow> job_run \<Rightarrow> string + road_route \<Rightarrow> route_store \<Rightarrow> route_store" where
  "finish_run opts now r result s =
     (let s = (case result of
          Inr route \<Rightarrow> s\<lparr>sr_memory := (sr_memory s)(rn_key r \<mapsto> (View_Ok route, False)),
            sr_persisted := save_store opts (AList.update (cyrb53 (rn_key r)) (deflate route now) (sr_persisted s))\<rparr>
        | Inl message \<Rightarrow> s\<lparr>sr_memory := (sr_memory s)(rn_key r \<mapsto> (View_Error message, False))\<rparr>);
          s = s\<lparr>sr_settled := (rn_key r, result) # sr_settled s\<rparr>
      in changed_store (set_run (r\<lparr>rn_phase := Ending\<rparr>) s))"

text \<open>\<open>request\<close>: it takes its slot, sleeps when that is ahead, and sends.\<close>

definition send_run :: "int \<Rightarrow> int \<Rightarrow> job_run \<Rightarrow> route_store \<Rightarrow> route_store" where
  "send_run slot now r s = set_run (r\<lparr>rn_phase := Asked\<rparr>) (s\<lparr>sr_sent := (slot, now) # sr_sent s\<rparr>)"

definition ask_run :: "store_options \<Rightarrow> int \<Rightarrow> job_run \<Rightarrow> route_store \<Rightarrow> route_store" where
  "ask_run opts now r s =
     (let (slot, s) = take_slot opts now s
      in if now < slot then set_run (r\<lparr>rn_phase := Sleeping slot\<rparr>) s else send_run slot now r s)"

definition start_run :: "store_options \<Rightarrow> int \<Rightarrow> route_job \<Rightarrow> route_store \<Rightarrow> route_store" where
  "start_run opts now job s =
     (let r = \<lparr>rn_key = jb_key job, rn_coordinates = jb_coordinates job, rn_left = waypointChunks (jb_coordinates job),
            rn_parts = [], rn_attempt = 0, rn_phase = Ending\<rparr>;
          s = s\<lparr>sr_running := sr_running s @ [r]\<rparr>
      in if so_token opts = [] then finish_run opts now r (Inl ''There is no Mapbox token to ask for routes with.'') s
         else ask_run opts now r s)"

fun pump_jobs :: "store_options \<Rightarrow> int \<Rightarrow> route_job list \<Rightarrow> route_store \<Rightarrow> route_store" where
  "pump_jobs opts now [] s = s"
| "pump_jobs opts now (job # jobs) s =
     (if length (sr_running s) < so_concurrency opts
      then pump_jobs opts now jobs (start_run opts now job (s\<lparr>sr_queue := jobs\<rparr>)) else s)"

definition pump :: "store_options \<Rightarrow> int \<Rightarrow> route_store \<Rightarrow> route_store" where
  "pump opts now s = pump_jobs opts now (sr_queue s) s"

datatype ensured = Kept road_route | Broken string | Promised

definition ensure :: "store_options \<Rightarrow> int \<Rightarrow> string \<Rightarrow> lng_lat list \<Rightarrow> route_store \<Rightarrow> ensured \<times> route_store" where
  "ensure opts now key coordinates s =
     (let (known, s) = view_store s key
      in case known of
           Some (View_Ok route) \<Rightarrow> (Kept route, s)
         | _ \<Rightarrow>
             (case sr_memory s key of
                Some (_, True) \<Rightarrow> (Promised, s)
              | _ \<Rightarrow>
                  (case known of
                     Some (View_Error message) \<Rightarrow> (Broken message, s)
                   | _ \<Rightarrow>
                       (let s = s\<lparr>sr_queue := sr_queue s @ [\<lparr>jb_key = key, jb_coordinates = coordinates\<rparr>],
                              sr_memory := (sr_memory s)(key \<mapsto> (View_Loading, True))\<rparr>
                        in (Promised, pump opts now (changed_store s))))))"

section \<open>What comes back\<close>

text \<open>A response with its status and its body, read two ways: as an answer, and for an error's message.\<close>

datatype mapbox_reply =
    Response int "directions option" "string option"
  | No_Response "string option"

definition fetch_error :: "string option \<Rightarrow> string" where
  "fetch_error thrown = (case thrown of Some m \<Rightarrow> m | None \<Rightarrow> ''The route could not be fetched.'')"

definition part_came :: "store_options \<Rightarrow> int \<Rightarrow> job_run \<Rightarrow> road_route \<Rightarrow> route_store \<Rightarrow> route_store" where
  "part_came opts now r part s =
     (let r = r\<lparr>rn_left := tl (rn_left r), rn_parts := rn_parts r @ [part], rn_attempt := 0\<rparr>
      in if rn_left r = [] then finish_run opts now r (mergeRoutes (rn_parts r)) s else ask_run opts now r s)"

definition replied :: "store_options \<Rightarrow> int \<Rightarrow> job_run \<Rightarrow> mapbox_reply \<Rightarrow> route_store \<Rightarrow> route_store" where
  "replied opts now r reply s =
     (case reply of
        No_Response thrown \<Rightarrow> finish_run opts now r (Inl (fetch_error thrown)) s
      | Response status body message \<Rightarrow>
          if status = 429 \<and> rn_attempt r < 3 then set_run (r\<lparr>rn_phase := Pausing\<rparr>) s
          else if status < 200 \<or> 300 \<le> status then
            finish_run opts now r (Inl (case message of Some m \<Rightarrow> m | None \<Rightarrow> ''Mapbox answered '' @ string_of_int status @ ''.'')) s
          else
            (case parseDirections body (hd (rn_left r)) of
               Inl m \<Rightarrow> finish_run opts now r (Inl m) s
             | Inr part \<Rightarrow> part_came opts now r part s))"

definition released :: "store_options \<Rightarrow> int \<Rightarrow> string \<Rightarrow> route_store \<Rightarrow> route_store" where
  "released opts now key s = pump opts now (s\<lparr>sr_running := filter (\<lambda>r. rn_key r \<noteq> key) (sr_running s)\<rparr>)"

section \<open>Steps\<close>

datatype store_event =
    Ensure_Route string "lng_lat list"
  | View_Route string
  | Slept string
  | Reply string mapbox_reply
  | Pause_Over string
  | Release string

definition run_of :: "string \<Rightarrow> route_store \<Rightarrow> job_run option" where
  "run_of key s = find (\<lambda>r. rn_key r = key) (sr_running s)"

text \<open>\<open>None\<close>: nothing of the kind is waited for. A sleep ends no sooner than it was to, and may end late.\<close>

fun store_step :: "store_options \<Rightarrow> int \<times> store_event \<Rightarrow> route_store \<Rightarrow> route_store option" where
  "store_step opts (now, Ensure_Route key coordinates) s = Some (snd (ensure opts now key coordinates s))"
| "store_step opts (now, View_Route key) s = Some (snd (view_store s key))"
| "store_step opts (now, Slept key) s =
     (case run_of key s of
        None \<Rightarrow> None
      | Some r \<Rightarrow> (case rn_phase r of Sleeping slot \<Rightarrow> if slot \<le> now then Some (send_run slot now r s) else None | _ \<Rightarrow> None))"
| "store_step opts (now, Reply key reply) s =
     (case run_of key s of
        None \<Rightarrow> None
      | Some r \<Rightarrow> if rn_phase r = Asked then Some (replied opts now r reply s) else None)"
| "store_step opts (now, Pause_Over key) s =
     (case run_of key s of
        None \<Rightarrow> None
      | Some r \<Rightarrow> if rn_phase r = Pausing then Some (ask_run opts now (r\<lparr>rn_attempt := rn_attempt r + 1\<rparr>) s) else None)"
| "store_step opts (now, Release key) s =
     (case run_of key s of
        None \<Rightarrow> None
      | Some r \<Rightarrow> if rn_phase r = Ending then Some (released opts now key s) else None)"

fun store_run :: "store_options \<Rightarrow> (int \<times> store_event) list \<Rightarrow> route_store \<Rightarrow> route_store option" where
  "store_run opts [] s = Some s"
| "store_run opts (e # es) s = Option.bind (store_step opts e s) (store_run opts es)"

section \<open>What holds between steps\<close>

definition loading :: "(route_view \<times> bool) option" where
  "loading = Some (View_Loading, True)"

fun view_of :: "string + road_route \<Rightarrow> route_view" where
  "view_of (Inl m) = View_Error m"
| "view_of (Inr r) = View_Ok r"

definition run_ok :: "(route_view \<times> bool) option \<Rightarrow> job_run \<Rightarrow> bool" where
  "run_ok mem r \<longleftrightarrow> (if rn_phase r = Ending then \<exists>v. mem = Some (v, False)
     else mem = loading \<and> rn_left r \<noteq> [] \<and> rn_attempt r \<le> 3 \<and> (rn_phase r = Pausing \<longrightarrow> rn_attempt r < 3))"

definition slots_ok :: "store_options \<Rightarrow> route_store \<Rightarrow> bool" where
  "slots_ok opts s \<longleftrightarrow> sorted_wrt (\<lambda>later earlier. earlier + so_gapMs opts \<le> later) (sr_slots s) \<and>
     (\<forall>slot\<in>set (sr_slots s). slot + so_gapMs opts \<le> sr_nextSlot s)"

definition memory_ok :: "string set \<Rightarrow> route_store \<Rightarrow> bool" where
  "memory_ok K s \<longleftrightarrow> (\<forall>key v p. sr_memory s key = Some (v, p) \<longrightarrow> (p \<longleftrightarrow> v = View_Loading) \<and>
     (p \<longrightarrow> key \<in> jb_key ` set (sr_queue s) \<or> (\<exists>r\<in>set (sr_running s). rn_key r = key \<and> (key \<in> K \<or> rn_phase r \<noteq> Ending))))"

definition settled_ok :: "route_store \<Rightarrow> bool" where
  "settled_ok s \<longleftrightarrow> distinct (map fst (sr_settled s)) \<and> (\<forall>e\<in>set (sr_settled s). sr_memory s (fst e) = Some (view_of (snd e), False))"

text \<open>\<open>K\<close>: the keys of runs in the middle of a step.\<close>

definition mid_ok :: "store_options \<Rightarrow> string set \<Rightarrow> route_store \<Rightarrow> bool" where
  "mid_ok opts K s \<longleftrightarrow> distinct (map jb_key (sr_queue s) @ map rn_key (sr_running s)) \<and>
     (\<forall>j\<in>set (sr_queue s). sr_memory s (jb_key j) = loading) \<and>
     (\<forall>r\<in>set (sr_running s). if rn_key r \<in> K then sr_memory s (rn_key r) = loading else run_ok (sr_memory s (rn_key r)) r) \<and>
     K \<subseteq> rn_key ` set (sr_running s) \<and> length (sr_running s) \<le> so_concurrency opts \<and>
     memory_ok K s \<and> settled_ok s \<and> slots_ok opts s"

lemma mid_okD:
  assumes "mid_ok opts K s"
  shows "distinct (map jb_key (sr_queue s) @ map rn_key (sr_running s))" "\<forall>j\<in>set (sr_queue s). sr_memory s (jb_key j) = loading"
    "\<forall>r\<in>set (sr_running s). if rn_key r \<in> K then sr_memory s (rn_key r) = loading else run_ok (sr_memory s (rn_key r)) r"
    "K \<subseteq> rn_key ` set (sr_running s)" "length (sr_running s) \<le> so_concurrency opts" "memory_ok K s" "settled_ok s" "slots_ok opts s"
  using assms unfolding mid_ok_def by blast+

lemma mid_ok_slots:
  "mid_ok opts K s \<Longrightarrow> slots_ok opts (s\<lparr>sr_nextSlot := a, sr_slots := b\<rparr>) \<Longrightarrow> mid_ok opts K (s\<lparr>sr_nextSlot := a, sr_slots := b\<rparr>)"
  unfolding mid_ok_def memory_ok_def settled_ok_def by simp

lemma mid_ok_sent: "mid_ok opts K s \<Longrightarrow> mid_ok opts K (s\<lparr>sr_sent := a\<rparr>)"
  unfolding mid_ok_def memory_ok_def settled_ok_def slots_ok_def by simp

lemma set_run_fields [simp]:
  "map rn_key (sr_running (set_run r s)) = map rn_key (sr_running s)" "sr_queue (set_run r s) = sr_queue s"
  "sr_memory (set_run r s) = sr_memory s" "sr_settled (set_run r s) = sr_settled s" "sr_slots (set_run r s) = sr_slots s"
  "sr_sent (set_run r s) = sr_sent s" "sr_persisted (set_run r s) = sr_persisted s" "sr_nextSlot (set_run r s) = sr_nextSlot s" "length (sr_running (set_run r s)) = length (sr_running s)"
  by (auto simp: set_run_def)

lemma set_set_run: "rn_key r \<in> rn_key ` set (sr_running s) \<Longrightarrow>
  set (sr_running (set_run r s)) = insert r {r' \<in> set (sr_running s). rn_key r' \<noteq> rn_key r}"
  by (auto simp: set_run_def)

text \<open>A run put back: asked, paused, in the state it is in.\<close>

lemma set_run_ok:
  assumes s: "mid_ok opts {rn_key r} s" and r: "rn_phase r \<noteq> Ending" "run_ok loading r"
  shows "mid_ok opts {} (set_run r s)"
proof -
  note d = mid_okD [OF s]
  have k: "rn_key r \<in> rn_key ` set (sr_running s)" using d(4) by simp
  have "\<forall>r'\<in>set (sr_running (set_run r s)). run_ok (sr_memory s (rn_key r')) r'"
    using d(3) r(2) k by (auto simp: set_set_run split: if_splits)
  moreover have "memory_ok {} (set_run r s)"
    unfolding memory_ok_def set_run_fields
  proof (intro allI impI)
    fix key v p assume m: "sr_memory s key = Some (v, p)"
    with d(6) have old: "p \<longleftrightarrow> v = View_Loading"
      "p \<Longrightarrow> key \<in> jb_key ` set (sr_queue s) \<or> (\<exists>r'\<in>set (sr_running s). rn_key r' = key \<and> (key \<in> {rn_key r} \<or> rn_phase r' \<noteq> Ending))"
      unfolding memory_ok_def by blast+
    show "(p = (v = View_Loading)) \<and>
      (p \<longrightarrow> key \<in> jb_key ` set (sr_queue s) \<or> (\<exists>r'\<in>set (sr_running (set_run r s)). rn_key r' = key \<and> (key \<in> {} \<or> rn_phase r' \<noteq> Ending)))"
    proof (cases "key = rn_key r")
      case True
      then show ?thesis using old(1) r(1) by (auto simp: set_set_run [OF k])
    next
      case False
      then show ?thesis using old by (auto simp: set_set_run [OF k])
    qed
  qed
  ultimately show ?thesis using d by (simp add: mid_ok_def settled_ok_def slots_ok_def)
qed

lemma finish_run_ok:
  assumes s: "mid_ok opts {rn_key r} s"
  shows "mid_ok opts {} (finish_run opts now r result s)"
proof -
  note d = mid_okD [OF s]
  let ?r = "r\<lparr>rn_phase := Ending\<rparr>" and ?s = "finish_run opts now r result s"
  have k: "rn_key r \<in> rn_key ` set (sr_running s)" using d(4) by simp
  have eq: "sr_queue ?s = sr_queue s" "sr_memory ?s = (sr_memory s)(rn_key r \<mapsto> (view_of result, False))"
    "sr_settled ?s = (rn_key r, result) # sr_settled s" "sr_slots ?s = sr_slots s" "sr_nextSlot ?s = sr_nextSlot s"
    "sr_running ?s = sr_running (set_run ?r s)"
    by (auto simp: finish_run_def Let_def changed_store_def set_run_def split: sum.split)
  have running: "set (sr_running ?s) = insert ?r {r' \<in> set (sr_running s). rn_key r' \<noteq> rn_key r}"
    using k by (simp add: eq set_set_run)
  have load: "sr_memory s (rn_key r) = loading" using d(3) k by auto
  have "rn_key r \<notin> jb_key ` set (sr_queue s)" using d(1) k by auto
  then have "\<forall>j\<in>set (sr_queue ?s). sr_memory ?s (jb_key j) = loading" using d(2) by (simp add: eq) (metis image_eqI)
  moreover have "\<forall>r'\<in>set (sr_running ?s). run_ok (sr_memory ?s (rn_key r')) r'"
    using d(3) by (auto simp: running eq(2) run_ok_def [of _ ?r] split: if_splits)
  moreover have "memory_ok {} ?s"
    unfolding memory_ok_def
  proof (intro allI impI)
    fix key v p assume m: "sr_memory ?s key = Some (v, p)"
    show "(p = (v = View_Loading)) \<and> (p \<longrightarrow> key \<in> jb_key ` set (sr_queue ?s) \<or> (\<exists>r\<in>set (sr_running ?s). rn_key r = key \<and> (key \<in> {} \<or> rn_phase r \<noteq> Ending)))"
    proof (cases "key = rn_key r")
      case True
      then have "v = view_of result" "\<not> p" using m by (simp_all add: eq(2))
      then show ?thesis by (cases result) simp_all
    next
      case False
      then have "sr_memory s key = Some (v, p)" using m by (simp add: eq(2))
      with d(6) have old: "p \<longleftrightarrow> v = View_Loading"
        "p \<Longrightarrow> key \<in> jb_key ` set (sr_queue s) \<or> (\<exists>r'\<in>set (sr_running s). rn_key r' = key \<and> (key \<in> {rn_key r} \<or> rn_phase r' \<noteq> Ending))"
        unfolding memory_ok_def by blast+
      then show ?thesis using False unfolding running eq(1) by auto
    qed
  qed
  moreover have "settled_ok ?s"
  proof -
    have "rn_key r \<notin> fst ` set (sr_settled s)" using d(7) load by (fastforce simp: settled_ok_def loading_def)
    then show ?thesis using d(7) by (auto simp: settled_ok_def eq image_iff)
  qed
  moreover have "map rn_key (sr_running ?s) = map rn_key (sr_running s)" "length (sr_running ?s) = length (sr_running s)"
    by (simp_all add: eq(6))
  ultimately show ?thesis using d by (simp add: mid_ok_def slots_ok_def eq(1,4,5))
qed

lemma send_run_ok:
  assumes "mid_ok opts {rn_key r} s" "rn_left r \<noteq> []" "rn_attempt r \<le> 3"
  shows "mid_ok opts {} (send_run slot now r s)"
  unfolding send_run_def by (rule set_run_ok) (use assms mid_ok_sent in \<open>auto simp: run_ok_def\<close>)

lemma ask_run_cases:
  assumes "P (set_run (r\<lparr>rn_phase := Sleeping slot\<rparr>) s1)" "slot \<le> now \<Longrightarrow> P (send_run slot now r s1)" "take_slot opts now s = (slot, s1)"
  shows "P (ask_run opts now r s)"
  using assms by (auto simp: ask_run_def)

lemma ask_run_ok:
  assumes s: "mid_ok opts {rn_key r} s" and r: "rn_left r \<noteq> []" "rn_attempt r \<le> 3" and gap: "0 \<le> so_gapMs opts"
  shows "mid_ok opts {} (ask_run opts now r s)"
proof -
  note d = mid_okD [OF s]
  let ?slot = "max now (sr_nextSlot s)"
  let ?s = "s\<lparr>sr_nextSlot := ?slot + so_gapMs opts, sr_slots := ?slot # sr_slots s\<rparr>"
  have "slots_ok opts ?s" using d(8) gap by (auto simp: slots_ok_def)
  then have mid: "mid_ok opts {rn_key r} ?s" by (rule mid_ok_slots [OF s])
  have "mid_ok opts {} (set_run (r\<lparr>rn_phase := Sleeping ?slot\<rparr>) ?s)" by (rule set_run_ok) (use mid r in \<open>auto simp: run_ok_def\<close>)
  then show ?thesis by (rule ask_run_cases) (rule send_run_ok [OF mid r], simp add: take_slot_def Let_def)
qed

lemma waypointChunks_nonempty: "waypointChunks coordinates \<noteq> []"
  by (auto simp: waypointChunks_def chunks_from.simps MAX_WAYPOINTS_def)

lemma start_run_ok:
  assumes s: "mid_ok opts {} s" and q: "sr_queue s = job # jobs" and room: "length (sr_running s) < so_concurrency opts"
    and gap: "0 \<le> so_gapMs opts"
  shows "mid_ok opts {} (start_run opts now job (s\<lparr>sr_queue := jobs\<rparr>))" "sr_queue (start_run opts now job (s\<lparr>sr_queue := jobs\<rparr>)) = jobs"
proof -
  note d = mid_okD [OF s]
  let ?r = "\<lparr>rn_key = jb_key job, rn_coordinates = jb_coordinates job, rn_left = waypointChunks (jb_coordinates job),
            rn_parts = [], rn_attempt = 0, rn_phase = Ending\<rparr>"
  let ?s = "s\<lparr>sr_queue := jobs, sr_running := sr_running s @ [?r]\<rparr>"
  have load: "sr_memory s (jb_key job) = loading" using d(2) q by simp
  have "memory_ok {jb_key job} ?s"
    unfolding memory_ok_def
  proof (intro allI impI)
    fix key v p assume "sr_memory ?s key = Some (v, p)"
    then have "sr_memory s key = Some (v, p)" by simp
    with d(6) have "p \<longleftrightarrow> v = View_Loading" "p \<Longrightarrow> key \<in> jb_key ` set (sr_queue s) \<or> (\<exists>r'\<in>set (sr_running s). rn_key r' = key \<and> rn_phase r' \<noteq> Ending)"
      unfolding memory_ok_def by blast+
    then show "(p = (v = View_Loading)) \<and> (p \<longrightarrow> key \<in> jb_key ` set (sr_queue ?s) \<or>
      (\<exists>r\<in>set (sr_running ?s). rn_key r = key \<and> (key \<in> {jb_key job} \<or> rn_phase r \<noteq> Ending)))"
      by (auto simp: q)
  qed
  moreover have "\<forall>r\<in>set (sr_running ?s). if rn_key r \<in> {jb_key job} then sr_memory ?s (rn_key r) = loading else run_ok (sr_memory ?s (rn_key r)) r"
    using d(3) load by auto
  moreover have "distinct (map jb_key (sr_queue ?s) @ map rn_key (sr_running ?s))" using d(1) q by auto
  ultimately have "mid_ok opts {rn_key ?r} ?s"
    using d(2,5,7,8) q room unfolding mid_ok_def by (simp add: settled_ok_def slots_ok_def)
  then show "mid_ok opts {} (start_run opts now job (s\<lparr>sr_queue := jobs\<rparr>))"
    using finish_run_ok [of opts ?r ?s] ask_run_ok [of opts ?r ?s] gap
    by (simp add: start_run_def Let_def waypointChunks_nonempty)
  show "sr_queue (start_run opts now job (s\<lparr>sr_queue := jobs\<rparr>)) = jobs"
    by (auto simp: start_run_def finish_run_def ask_run_def send_run_def take_slot_def changed_store_def Let_def split: sum.split)
qed

lemma start_run_running: "length (sr_running (start_run opts now job s)) = length (sr_running s) + 1"
  by (auto simp: start_run_def finish_run_def ask_run_def send_run_def take_slot_def changed_store_def Let_def split: sum.split)

lemma pump_jobs_ok:
  assumes "mid_ok opts {} s" "sr_queue s = jobs" "0 \<le> so_gapMs opts"
  shows "mid_ok opts {} (pump_jobs opts now jobs s) \<and>
    (sr_queue (pump_jobs opts now jobs s) \<noteq> [] \<longrightarrow> length (sr_running (pump_jobs opts now jobs s)) = so_concurrency opts)"
  using assms(1,2)
proof (induction jobs arbitrary: s)
  case (Cons job jobs)
  show ?case
  proof (cases "length (sr_running s) < so_concurrency opts")
    case True
    with start_run_ok [OF Cons.prems True assms(3)] Cons.IH show ?thesis by simp
  next
    case False
    then show ?thesis using Cons.prems mid_okD(5) [OF Cons.prems(1)] by simp
  qed
qed simp

text \<open>Between steps: nothing in the middle, and nobody waits while there is room.\<close>

definition store_ok :: "store_options \<Rightarrow> route_store \<Rightarrow> bool" where
  "store_ok opts s \<longleftrightarrow> mid_ok opts {} s \<and> (sr_queue s \<noteq> [] \<longrightarrow> length (sr_running s) = so_concurrency opts)"

lemma pump_ok: "mid_ok opts {} s \<Longrightarrow> 0 \<le> so_gapMs opts \<Longrightarrow> store_ok opts (pump opts now s)"
  unfolding store_ok_def pump_def by (rule pump_jobs_ok) simp_all

lemma view_store_ok:
  assumes s: "store_ok opts s"
  shows "store_ok opts (snd (view_store s key))"
proof (cases "fst (view_store s key) = None \<or> sr_memory s key \<noteq> None")
  case True
  then have "snd (view_store s key) = s" by (auto simp: view_store_def split: option.splits)
  with s show ?thesis by simp
next
  case False
  then obtain route where eq: "snd (view_store s key) = s\<lparr>sr_memory := (sr_memory s)(key \<mapsto> (View_Ok route, False))\<rparr>"
    and none: "sr_memory s key = None" by (auto simp: view_store_def split: option.splits)
  let ?s = "s\<lparr>sr_memory := (sr_memory s)(key \<mapsto> (View_Ok route, False))\<rparr>"
  note d = mid_okD [OF s [unfolded store_ok_def, THEN conjunct1]]
  have "key \<noteq> jb_key j" if "j \<in> set (sr_queue s)" for j using d(2) that none by (auto simp: loading_def)
  moreover have "key \<noteq> rn_key r" if "r \<in> set (sr_running s)" for r
    using d(3) that none by (auto simp: loading_def run_ok_def split: if_splits)
  moreover have "key \<noteq> fst e" if "e \<in> set (sr_settled s)" for e using d(7) that none by (auto simp: settled_ok_def)
  ultimately have "mid_ok opts {} ?s" using d by (auto simp: mid_ok_def memory_ok_def settled_ok_def slots_ok_def)
  then show ?thesis using s by (simp add: eq store_ok_def)
qed

lemma queued_mid:
  assumes s1: "store_ok opts s1" and None: "sr_memory s1 key = None"
  shows "mid_ok opts {} (changed_store (s1\<lparr>sr_queue := sr_queue s1 @ [\<lparr>jb_key = key, jb_coordinates = coordinates\<rparr>],
    sr_memory := (sr_memory s1)(key \<mapsto> (View_Loading, True))\<rparr>))"
proof -
  note d = mid_okD [OF s1 [unfolded store_ok_def, THEN conjunct1]]
  have out: "jb_key j \<noteq> key" if "j \<in> set (sr_queue s1)" for j using d(2) that None by (auto simp: loading_def)
  have out': "rn_key r \<noteq> key" if "r \<in> set (sr_running s1)" for r
    using d(3) that None by (auto simp: loading_def run_ok_def split: if_splits)
  have "fst e \<noteq> key" if "e \<in> set (sr_settled s1)" for e using d(7) that None by (auto simp: settled_ok_def)
  moreover have "key \<notin> jb_key ` set (sr_queue s1)" "key \<notin> rn_key ` set (sr_running s1)" using out out' by auto
  ultimately show ?thesis
    using d out out' by (auto simp: mid_ok_def memory_ok_def settled_ok_def slots_ok_def changed_store_def loading_def)
qed

lemma ensure_cases:
  assumes s1: "store_ok opts s1" and v: "view_store s key = (known, s1)"
  shows "snd (ensure opts now key coordinates s) = s1 \<or> sr_memory s1 key = None \<and>
    snd (ensure opts now key coordinates s) = pump opts now (changed_store (s1\<lparr>sr_queue := sr_queue s1 @ [\<lparr>jb_key = key, jb_coordinates = coordinates\<rparr>],
      sr_memory := (sr_memory s1)(key \<mapsto> (View_Loading, True))\<rparr>))"
proof (cases "sr_memory s1 key")
  case None
  then show ?thesis using v by (auto simp: ensure_def view_store_def split: option.splits route_view.splits)
next
  case (Some vp)
  note d = mid_okD [OF s1 [unfolded store_ok_def, THEN conjunct1]]
  have "known = Some (fst vp)" using v Some by (auto simp: view_store_def split: option.splits)
  moreover have "snd vp \<longleftrightarrow> fst vp = View_Loading" using d(6) Some unfolding memory_ok_def by (metis prod.collapse)
  ultimately show ?thesis using v Some
    by (cases vp; cases "fst vp") (auto simp: ensure_def split: option.splits route_view.splits bool.splits)
qed

lemma ensure_ok:
  assumes s: "store_ok opts s" and gap: "0 \<le> so_gapMs opts"
  shows "store_ok opts (snd (ensure opts now key coordinates s))"
proof -
  obtain known s1 where v: "view_store s key = (known, s1)" by fastforce
  have s1: "store_ok opts s1" using view_store_ok [OF s, of key] v by simp
  from ensure_cases [OF s1 v, of now coordinates] pump_ok [OF queued_mid [OF s1] gap] s1 show ?thesis by auto
qed

text \<open>A run waited for is one that may be in the middle of a step.\<close>

lemma run_of_Some: "run_of key s = Some r \<Longrightarrow> r \<in> set (sr_running s) \<and> rn_key r = key"
  by (auto simp: run_of_def find_Some_iff)

lemma waiting_mid:
  assumes s: "store_ok opts s" and r: "run_of key s = Some r" "rn_phase r \<noteq> Ending"
  shows "mid_ok opts {rn_key r} s" "rn_left r \<noteq> []" "rn_attempt r \<le> 3" "rn_phase r = Pausing \<Longrightarrow> rn_attempt r < 3"
proof -
  note d = mid_okD [OF s [unfolded store_ok_def, THEN conjunct1]]
  have in_r: "r \<in> set (sr_running s)" using run_of_Some [OF r(1)] by simp
  then have ok: "run_ok (sr_memory s (rn_key r)) r" using d(3) by simp
  then show "rn_left r \<noteq> []" "rn_attempt r \<le> 3" "rn_phase r = Pausing \<Longrightarrow> rn_attempt r < 3"
    using r(2) by (auto simp: run_ok_def)
  have "sr_memory s (rn_key r) = loading" using ok r(2) by (simp add: run_ok_def)
  moreover have "memory_ok {rn_key r} s" using d(6) unfolding memory_ok_def by blast
  ultimately show "mid_ok opts {rn_key r} s" using d in_r by (auto simp: mid_ok_def)
qed

lemma mid_ok_same_key: "mid_ok opts {rn_key r} s \<Longrightarrow> rn_key r' = rn_key r \<Longrightarrow> mid_ok opts {rn_key r'} s"
  by simp

lemma settle_queue_clause:
  assumes "mid_ok opts {} s'" "sr_queue s' = sr_queue s" "length (sr_running s') = length (sr_running s)" "store_ok opts s"
  shows "store_ok opts s'"
  using assms by (simp add: store_ok_def)

lemma step_frames:
  "sr_queue (finish_run opts now r result s) = sr_queue s" "length (sr_running (finish_run opts now r result s)) = length (sr_running s)"
  "sr_queue (ask_run opts now r s) = sr_queue s" "length (sr_running (ask_run opts now r s)) = length (sr_running s)"
  by (auto simp: finish_run_def ask_run_def send_run_def take_slot_def changed_store_def Let_def split: sum.split)

lemma replied_ok:
  assumes s: "store_ok opts s" and r: "run_of key s = Some r" "rn_phase r = Asked" and gap: "0 \<le> so_gapMs opts"
  shows "store_ok opts (replied opts now r reply s)"
proof -
  have w: "mid_ok opts {rn_key r} s" "rn_left r \<noteq> []" "rn_attempt r \<le> 3" using waiting_mid [OF s r(1)] r(2) by simp_all
  have finish: "store_ok opts (finish_run opts now r' result s)" if "rn_key r' = rn_key r" for r' result
    using finish_run_ok [OF mid_ok_same_key [OF w(1) that]] by (rule settle_queue_clause [where s = s]) (simp_all add: step_frames s)
  have pause: "store_ok opts (set_run (r\<lparr>rn_phase := Pausing\<rparr>) s)" if "rn_attempt r < 3"
  proof (rule settle_queue_clause [OF set_run_ok _ _ s])
    show "mid_ok opts {rn_key (r\<lparr>rn_phase := Pausing\<rparr>)} s" using w(1) by simp
  qed (use that w(2) in \<open>simp_all add: run_ok_def\<close>)
  have part: "store_ok opts (part_came opts now r part s)" for part
  proof (cases "tl (rn_left r) = []")
    case True
    then show ?thesis by (simp add: part_came_def Let_def finish)
  next
    case False
    let ?r = "r\<lparr>rn_left := tl (rn_left r), rn_parts := rn_parts r @ [part], rn_attempt := 0\<rparr>"
    have "mid_ok opts {} (ask_run opts now ?r s)" using w(1) False gap by (intro ask_run_ok) simp_all
    then have "store_ok opts (ask_run opts now ?r s)" by (rule settle_queue_clause [where s = s]) (simp_all add: step_frames s)
    with False show ?thesis by (simp add: part_came_def Let_def)
  qed
  show ?thesis using finish pause part by (auto simp: replied_def split: mapbox_reply.split sum.split)
qed

lemma slept_ok:
  assumes s: "store_ok opts s" and r: "run_of key s = Some r" "rn_phase r = Sleeping slot"
  shows "store_ok opts (send_run slot now r s)"
proof -
  have w: "mid_ok opts {rn_key r} s" "rn_left r \<noteq> []" "rn_attempt r \<le> 3" using waiting_mid [OF s r(1)] r(2) by simp_all
  show ?thesis by (rule settle_queue_clause [OF send_run_ok [OF w] _ _ s]) (simp_all add: send_run_def)
qed

lemma pause_over_ok:
  assumes s: "store_ok opts s" and r: "run_of key s = Some r" "rn_phase r = Pausing" and gap: "0 \<le> so_gapMs opts"
  shows "store_ok opts (ask_run opts now (r\<lparr>rn_attempt := rn_attempt r + 1\<rparr>) s)"
proof -
  have w: "mid_ok opts {rn_key r} s" "rn_left r \<noteq> []" "rn_attempt r < 3" using waiting_mid [OF s r(1)] r(2) by simp_all
  then have "mid_ok opts {} (ask_run opts now (r\<lparr>rn_attempt := rn_attempt r + 1\<rparr>) s)" using gap by (intro ask_run_ok) simp_all
  then show ?thesis by (rule settle_queue_clause [where s = s]) (simp_all add: step_frames s)
qed

lemma released_mid:
  assumes s: "store_ok opts s" and r: "run_of key s = Some r" "rn_phase r = Ending"
  shows "mid_ok opts {} (s\<lparr>sr_running := filter (\<lambda>r. rn_key r \<noteq> key) (sr_running s)\<rparr>)"
proof -
  note d = mid_okD [OF s [unfolded store_ok_def, THEN conjunct1]]
  let ?s = "s\<lparr>sr_running := filter (\<lambda>r. rn_key r \<noteq> key) (sr_running s)\<rparr>"
  have in_r: "r \<in> set (sr_running s)" "rn_key r = key" using run_of_Some [OF r(1)] by simp_all
  have gone: "r' = r" if "r' \<in> set (sr_running s)" "rn_key r' = key" for r'
    using d(1) in_r that by (auto simp: distinct_map inj_on_def)
  have "distinct (map jb_key (sr_queue ?s) @ map rn_key (sr_running ?s))" using d(1) by (auto simp: distinct_map_filter)
  moreover have "length (sr_running ?s) \<le> so_concurrency opts" using d(5) le_trans [OF length_filter_le] by auto
  moreover have "memory_ok {} ?s"
    unfolding memory_ok_def
  proof (intro allI impI)
    fix k v p assume "sr_memory ?s k = Some (v, p)"
    then have "sr_memory s k = Some (v, p)" by simp
    with d(6) have "p \<longleftrightarrow> v = View_Loading" "p \<Longrightarrow> k \<in> jb_key ` set (sr_queue s) \<or> (\<exists>r'\<in>set (sr_running s). rn_key r' = k \<and> rn_phase r' \<noteq> Ending)"
      unfolding memory_ok_def by blast+
    then show "(p = (v = View_Loading)) \<and> (p \<longrightarrow> k \<in> jb_key ` set (sr_queue ?s) \<or>
      (\<exists>r\<in>set (sr_running ?s). rn_key r = k \<and> (k \<in> {} \<or> rn_phase r \<noteq> Ending)))"
      using gone r(2) by (auto 0 3)
  qed
  ultimately show ?thesis using d by (simp add: mid_ok_def settled_ok_def slots_ok_def)
qed

lemma released_ok:
  "store_ok opts s \<Longrightarrow> run_of key s = Some r \<Longrightarrow> rn_phase r = Ending \<Longrightarrow> 0 \<le> so_gapMs opts \<Longrightarrow>
   store_ok opts (released opts now key s)"
  unfolding released_def by (rule pump_ok [OF released_mid])

lemma store_step_ok:
  assumes "store_ok opts s" "store_step opts e s = Some s'" "0 \<le> so_gapMs opts"
  shows "store_ok opts s'"
proof (cases e)
  case (Pair now event)
  then show ?thesis
    using assms ensure_ok view_store_ok slept_ok replied_ok pause_over_ok released_ok
    by (cases event) (auto split: option.splits run_phase.splits if_splits)
qed

lemma store_run_ok:
  "store_ok opts s \<Longrightarrow> store_run opts es s = Some s' \<Longrightarrow> 0 \<le> so_gapMs opts \<Longrightarrow> store_ok opts s'"
  by (induction es arbitrary: s) (auto simp: bind_eq_Some_conv intro: store_step_ok)

lemma new_store_ok: "store_ok opts (new_store persisted)"
  by (simp add: store_ok_def mid_ok_def new_store_def memory_ok_def settled_ok_def slots_ok_def)

section \<open>Asked for once, and not too fast\<close>

lemma loading_iff:
  assumes "store_ok opts s"
  shows "sr_memory s key = loading \<longleftrightarrow> key \<in> jb_key ` set (sr_queue s) \<union> rn_key ` {r \<in> set (sr_running s). rn_phase r \<noteq> Ending}"
proof -
  note d = mid_okD [OF assms [unfolded store_ok_def, THEN conjunct1]]
  show ?thesis
  proof
    assume "sr_memory s key = loading"
    then have "key \<in> jb_key ` set (sr_queue s) \<or> (\<exists>r\<in>set (sr_running s). rn_key r = key \<and> rn_phase r \<noteq> Ending)"
      using d(6) unfolding memory_ok_def loading_def by blast
    then show "key \<in> jb_key ` set (sr_queue s) \<union> rn_key ` {r \<in> set (sr_running s). rn_phase r \<noteq> Ending}" by auto
  next
    assume "key \<in> jb_key ` set (sr_queue s) \<union> rn_key ` {r \<in> set (sr_running s). rn_phase r \<noteq> Ending}"
    then show "sr_memory s key = loading" using d(2,3) by (auto simp: run_ok_def)
  qed
qed

text \<open>
  C15. Whatever is asked for and whatever comes back, no more requests are open than the store allows,
  a route is never waited for twice nor answered twice, one shown as loading is queued or under way
  and no other, and what was answered, route or error, is what stays shown.
\<close>

theorem routes_are_asked_once:
  assumes "0 \<le> so_gapMs opts" "store_run opts es (new_store persisted) = Some s"
  shows "length (sr_running s) \<le> so_concurrency opts \<and> distinct (map jb_key (sr_queue s) @ map rn_key (sr_running s)) \<and>
    distinct (map fst (sr_settled s)) \<and> list_all (\<lambda>(key, result). sr_memory s key = Some (view_of result, False)) (sr_settled s) \<and>
    {key. sr_memory s key = Some (View_Loading, True)} = jb_key ` set (sr_queue s) \<union> rn_key ` {r \<in> set (sr_running s). rn_phase r \<noteq> Ending}"
proof -
  have ok: "store_ok opts s" by (rule store_run_ok [OF new_store_ok assms(2,1)])
  note d = mid_okD [OF ok [unfolded store_ok_def, THEN conjunct1]]
  have "{key. sr_memory s key = Some (View_Loading, True)} = jb_key ` set (sr_queue s) \<union> rn_key ` {r \<in> set (sr_running s). rn_phase r \<noteq> Ending}"
    using loading_iff [OF ok] by (auto simp: loading_def)
  moreover have "distinct (map fst (sr_settled s))" "list_all (\<lambda>(key, result). sr_memory s key = Some (view_of result, False)) (sr_settled s)"
    using d(7) by (auto simp: settled_ok_def list_all_iff)
  ultimately show ?thesis using d(1,5) by blast
qed

lemma spaced_window:
  "sorted_wrt (\<lambda>later earlier. earlier + gap \<le> later) slots \<Longrightarrow> 0 < gap \<Longrightarrow>
   \<forall>slot\<in>set slots. t \<le> slot \<and> slot < t + int n * gap \<Longrightarrow> length slots \<le> n"
proof (induction slots arbitrary: n)
  case (Cons slot slots)
  show ?case
  proof (cases n)
    case 0
    then show ?thesis using Cons.prems(3) by simp
  next
    case (Suc m)
    have "x < t + int m * gap" if "x \<in> set slots" for x
    proof -
      have "x + gap \<le> slot" using Cons.prems(1) that by simp
      moreover have "slot < t + int m * gap + gap" using Cons.prems(3) by (simp add: Suc algebra_simps)
      ultimately show ?thesis by simp
    qed
    then have "length slots \<le> m" using Cons.prems by (intro Cons.IH) auto
    then show ?thesis by (simp add: Suc)
  qed
qed simp

section \<open>Everything waited for ends\<close>

definition run_work :: "job_run \<Rightarrow> nat" where
  "run_work r = (case rn_phase r of Ending \<Rightarrow> 1 | Sleeping slot \<Rightarrow> 11 * length (rn_left r) + 2 - 3 * rn_attempt r
     | Asked \<Rightarrow> 11 * length (rn_left r) + 1 - 3 * rn_attempt r | Pausing \<Rightarrow> 11 * length (rn_left r) - 3 * rn_attempt r)"

definition job_work :: "route_job \<Rightarrow> nat" where
  "job_work j = 11 * length (waypointChunks (jb_coordinates j)) + 2"

definition store_work :: "route_store \<Rightarrow> nat" where
  "store_work s = sum_list (map job_work (sr_queue s)) + sum_list (map run_work (sr_running s))"

lemma set_run_sum:
  fixes w :: "job_run \<Rightarrow> 'a::comm_monoid_add"
  assumes "distinct (map rn_key (sr_running s))" "r0 \<in> set (sr_running s)" "rn_key r0 = rn_key r"
  shows "sum_list (map w (sr_running (set_run r s))) + w r0 = sum_list (map w (sr_running s)) + w r"
proof -
  have "sum_list (map w (map (\<lambda>r'. if rn_key r' = rn_key r then r else r') xs)) + w r0 = sum_list (map w xs) + w r"
    if "distinct (map rn_key xs)" "r0 \<in> set xs" for xs
    using that
  proof (induction xs)
    case (Cons x xs)
    show ?case
    proof (cases "x = r0")
      case True
      then have "rn_key x' \<noteq> rn_key r" if "x' \<in> set xs" for x'
        using Cons.prems(1) assms(3) that by (metis distinct.simps(2) image_eqI list.set_map list.simps(9))
      then have "map (\<lambda>r'. if rn_key r' = rn_key r then r else r') xs = xs" by (intro map_idI) auto
      then show ?thesis using True assms(3) by (simp add: ac_simps)
    next
      case False
      then have "r0 \<in> set xs" using Cons.prems(2) by simp
      then have "rn_key x \<noteq> rn_key r" using Cons.prems(1) assms(3) by (metis distinct.simps(2) image_eqI list.set_map list.simps(9))
      then show ?thesis using Cons False by (auto simp: add.assoc)
    qed
  qed simp
  from this [OF assms(1,2)] show ?thesis by (simp add: set_run_def)
qed

lemma set_run_work:
  assumes "distinct (map rn_key (sr_running s))" "r0 \<in> set (sr_running s)" "rn_key r0 = rn_key r"
  shows "store_work (set_run r s) + run_work r0 = store_work s + run_work r"
  using set_run_sum [OF assms, of run_work] by (simp add: store_work_def)

lemma finish_run_work:
  assumes "distinct (map rn_key (sr_running s))" "r0 \<in> set (sr_running s)" "rn_key r0 = rn_key r"
  shows "store_work (finish_run opts now r result s) + run_work r0 = store_work s + 1"
proof -
  have "store_work (finish_run opts now r result s) = store_work (set_run (r\<lparr>rn_phase := Ending\<rparr>) s)"
    by (auto simp: store_work_def finish_run_def changed_store_def set_run_def Let_def split: sum.split)
  with set_run_work [OF assms(1,2), of "r\<lparr>rn_phase := Ending\<rparr>"] assms(3) show ?thesis by (simp add: run_work_def)
qed

lemma send_run_work:
  assumes "distinct (map rn_key (sr_running s))" "r0 \<in> set (sr_running s)" "rn_key r0 = rn_key r"
  shows "store_work (send_run slot now r s) + run_work r0 = store_work s + (11 * length (rn_left r) + 1 - 3 * rn_attempt r)"
proof -
  have "store_work (send_run slot now r s) = store_work (set_run (r\<lparr>rn_phase := Asked\<rparr>) s)"
    by (simp add: store_work_def send_run_def set_run_def)
  with set_run_work [OF assms(1,2), of "r\<lparr>rn_phase := Asked\<rparr>"] assms(3) show ?thesis by (simp add: run_work_def)
qed

lemma ask_run_work:
  assumes "distinct (map rn_key (sr_running s))" "r0 \<in> set (sr_running s)" "rn_key r0 = rn_key r"
  shows "store_work (ask_run opts now r s) + run_work r0 \<le> store_work s + (11 * length (rn_left r) + 2 - 3 * rn_attempt r)"
proof -
  let ?slot = "max now (sr_nextSlot s)"
  let ?s = "s\<lparr>sr_nextSlot := ?slot + so_gapMs opts, sr_slots := ?slot # sr_slots s\<rparr>"
  have d: "distinct (map rn_key (sr_running ?s))" "r0 \<in> set (sr_running ?s)" and same: "store_work ?s = store_work s"
    using assms(1,2) by (simp_all add: store_work_def)
  have "store_work (set_run (r\<lparr>rn_phase := Sleeping ?slot\<rparr>) ?s) + run_work r0 \<le> store_work s + (11 * length (rn_left r) + 2 - 3 * rn_attempt r)"
    using set_run_work [OF d, of "r\<lparr>rn_phase := Sleeping ?slot\<rparr>"] assms(3) by (simp add: run_work_def same)
  moreover have "store_work (send_run ?slot now r ?s) + run_work r0 \<le> store_work s + (11 * length (rn_left r) + 2 - 3 * rn_attempt r)"
    using send_run_work [OF d assms(3), of ?slot now] same by simp
  ultimately show ?thesis by (rule ask_run_cases) (simp add: take_slot_def Let_def)
qed

lemma start_run_work:
  assumes "distinct (map rn_key (sr_running s))" "jb_key job \<notin> rn_key ` set (sr_running s)" "sr_queue s = job # jobs"
  shows "store_work (start_run opts now job (s\<lparr>sr_queue := jobs\<rparr>)) \<le> store_work s"
proof -
  let ?r = "\<lparr>rn_key = jb_key job, rn_coordinates = jb_coordinates job, rn_left = waypointChunks (jb_coordinates job),
            rn_parts = [], rn_attempt = 0, rn_phase = Ending\<rparr>"
  let ?s = "s\<lparr>sr_queue := jobs, sr_running := sr_running s @ [?r]\<rparr>"
  have d: "distinct (map rn_key (sr_running ?s))" "?r \<in> set (sr_running ?s)" using assms(1,2) by auto
  have "store_work ?s + job_work job = store_work s + 1" using assms(3) by (simp add: store_work_def run_work_def)
  with finish_run_work [OF d refl, of opts now] ask_run_work [OF d refl, of opts now] show ?thesis
    by (auto simp: start_run_def Let_def run_work_def job_work_def)
qed

lemma pump_jobs_work:
  assumes "mid_ok opts {} s" "sr_queue s = jobs" "0 \<le> so_gapMs opts"
  shows "store_work (pump_jobs opts now jobs s) \<le> store_work s"
  using assms(1,2)
proof (induction jobs arbitrary: s)
  case (Cons job jobs)
  show ?case
  proof (cases "length (sr_running s) < so_concurrency opts")
    case True
    have "distinct (map rn_key (sr_running s))" "jb_key job \<notin> rn_key ` set (sr_running s)"
      using mid_okD(1) [OF Cons.prems(1)] Cons.prems(2) by auto
    from start_run_work [OF this Cons.prems(2)] Cons.IH [OF start_run_ok [OF Cons.prems True assms(3)]] True show ?thesis
      by (simp only: pump_jobs.simps if_True) (rule order_trans)
  qed simp
qed simp

lemma work_without: "r \<in> set rs \<Longrightarrow> \<not> P r \<Longrightarrow> sum_list (map run_work (filter P rs)) + run_work r \<le> sum_list (map run_work rs)"
proof (induction rs)
  case (Cons x rs)
  have "sum_list (map run_work (filter P rs)) \<le> sum_list (map run_work rs)" by (rule sum_list_filter_le_nat)
  with Cons show ?case by auto
qed simp

text \<open>The events that are waited for; the others are what somebody asks.\<close>

fun awaited :: "int \<times> store_event \<Rightarrow> bool" where
  "awaited (now, Ensure_Route key coordinates) = False"
| "awaited (now, View_Route key) = False"
| "awaited (now, event) = True"

lemma awaited_works:
  assumes s: "store_ok opts s" and gap: "0 \<le> so_gapMs opts" and e: "awaited e" "store_step opts e s = Some s'"
  shows "store_work s' < store_work s"
proof -
  note d = mid_okD [OF s [unfolded store_ok_def, THEN conjunct1]]
  have dist: "distinct (map rn_key (sr_running s))" using d(1) by simp
  obtain now event where "e = (now, event)" by (cases e)
  then consider (slept) key r slot where "run_of key s = Some r" "rn_phase r = Sleeping slot" "s' = send_run slot now r s"
    | (reply) key reply r where "run_of key s = Some r" "rn_phase r = Asked" "s' = replied opts now r reply s"
    | (pause) key r where "run_of key s = Some r" "rn_phase r = Pausing" "s' = ask_run opts now (r\<lparr>rn_attempt := rn_attempt r + 1\<rparr>) s"
    | (release) key r where "run_of key s = Some r" "rn_phase r = Ending" "s' = released opts now key s"
    using e by (cases event) (auto split: option.splits run_phase.splits if_splits)
  then show ?thesis
  proof cases
    case slept
    have w: "rn_left r \<noteq> []" "rn_attempt r \<le> 3" using waiting_mid [OF s slept(1)] slept(2) by simp_all
    then have "1 \<le> length (rn_left r)" by (cases "rn_left r") simp_all
    with send_run_work [OF dist conjunct1 [OF run_of_Some [OF slept(1)]] refl, of slot now] w(2) slept(2,3) show ?thesis
      by (simp add: run_work_def)
  next
    case reply
    have w: "rn_left r \<noteq> []" "rn_attempt r \<le> 3" using waiting_mid [OF s reply(1)] reply(2) by simp_all
    then have l: "1 \<le> length (rn_left r)" by (cases "rn_left r") simp_all
    have r: "r \<in> set (sr_running s)" using run_of_Some [OF reply(1)] by simp
    have rw: "run_work r = 11 * length (rn_left r) + 1 - 3 * rn_attempt r" using reply(2) by (simp add: run_work_def)
    have finish: "store_work (finish_run opts now r' result s) < store_work s" if "rn_key r' = rn_key r" for r' result
      using finish_run_work [OF dist r, of r' opts now result] that rw w(2) l by simp
    have pause: "store_work (set_run (r\<lparr>rn_phase := Pausing\<rparr>) s) < store_work s" if "rn_attempt r < 3"
      using set_run_work [OF dist r, of "r\<lparr>rn_phase := Pausing\<rparr>"] that rw l by (simp add: run_work_def)
    have two: "11 * (length (rn_left r) - 1) + 11 = 11 * length (rn_left r)" using l by simp
    have part: "store_work (part_came opts now r part s) < store_work s" for part
    proof (cases "tl (rn_left r) = []")
      case False
      let ?r = "r\<lparr>rn_left := tl (rn_left r), rn_parts := rn_parts r @ [part], rn_attempt := 0\<rparr>"
      have "store_work (ask_run opts now ?r s) + run_work r \<le> store_work s + (11 * (length (rn_left r) - 1) + 2)"
        using ask_run_work [OF dist r, of ?r opts now] by simp
      then have "store_work (ask_run opts now ?r s) < store_work s" using rw w(2) two by linarith
      with False show ?thesis by (simp add: part_came_def Let_def)
    qed (simp add: part_came_def Let_def finish)
    show ?thesis using finish pause part by (auto simp: reply(3) replied_def split: mapbox_reply.split sum.split)
  next
    case pause
    have w: "rn_left r \<noteq> []" "rn_attempt r < 3" using waiting_mid [OF s pause(1)] pause(2) by simp_all
    have "1 \<le> length (rn_left r)" using w(1) by (cases "rn_left r") simp_all
    then show ?thesis
      using ask_run_work [OF dist conjunct1 [OF run_of_Some [OF pause(1)]], of "r\<lparr>rn_attempt := rn_attempt r + 1\<rparr>" opts now] w(2) pause(2)
      by (simp add: pause(3) run_work_def)
  next
    case release
    let ?s = "s\<lparr>sr_running := filter (\<lambda>r. rn_key r \<noteq> key) (sr_running s)\<rparr>"
    have "store_work ?s < store_work s"
      using work_without [of r "sr_running s" "\<lambda>r. rn_key r \<noteq> key"] run_of_Some [OF release(1)] release(2)
      by (simp add: store_work_def run_work_def)
    moreover have "store_work (released opts now key s) \<le> store_work ?s"
      unfolding released_def pump_def by (rule pump_jobs_work [OF released_mid [OF s release(1,2)] refl gap])
    ultimately show ?thesis by (simp add: release(3))
  qed
qed

lemma awaited_run:
  "store_ok opts s \<Longrightarrow> 0 \<le> so_gapMs opts \<Longrightarrow> list_all awaited es \<Longrightarrow> store_run opts es s = Some s' \<Longrightarrow> length es + store_work s' \<le> store_work s"
proof (induction es arbitrary: s)
  case (Cons e es)
  then obtain s1 where s1: "store_step opts e s = Some s1" "store_run opts es s1 = Some s'" by (auto simp: bind_eq_Some_conv)
  have "store_work s1 < store_work s" using awaited_works [OF Cons.prems(1,2) _ s1(1)] Cons.prems(3) by simp
  moreover have "length es + store_work s' \<le> store_work s1"
    using Cons.IH [OF store_step_ok [OF Cons.prems(1) s1(1) Cons.prems(2)] Cons.prems(2) _ s1(2)] Cons.prems(3) by simp
  ultimately show ?case by simp
qed simp

lemma something_awaited:
  assumes s: "store_ok opts s" and conc: "0 < so_concurrency opts" and load: "sr_memory s key = loading"
  shows "\<exists>e. awaited e \<and> store_step opts e s \<noteq> None"
proof -
  note d = mid_okD [OF s [unfolded store_ok_def, THEN conjunct1]]
  have "sr_queue s \<noteq> [] \<Longrightarrow> sr_running s \<noteq> []" using s conc by (auto simp: store_ok_def)
  moreover have "sr_queue s \<noteq> [] \<or> sr_running s \<noteq> []" using load loading_iff [OF s, of key] by auto
  ultimately obtain r where r: "r \<in> set (sr_running s)" by (cases "sr_running s") auto
  have "run_of (rn_key r) s \<noteq> None" using r by (auto simp: run_of_def find_None_iff)
  then obtain r' where r': "run_of (rn_key r) s = Some r'" by blast
  show ?thesis
  proof (cases "rn_phase r'")
    case (Sleeping slot)
    then show ?thesis using r' by (intro exI [of _ "(slot, Slept (rn_key r))"]) simp
  next
    case Asked
    then show ?thesis using r' by (intro exI [of _ "(0, Reply (rn_key r) (No_Response None))"]) simp
  next
    case Pausing
    then show ?thesis using r' by (intro exI [of _ "(0, Pause_Over (rn_key r))"]) simp
  next
    case Ending
    then show ?thesis using r' by (intro exI [of _ "(0, Release (rn_key r))"]) simp
  qed
qed

text \<open>
  C16. Every route asked for is answered, or shown as failed. From any state, what is waited for comes
  to an end within a number of steps known beforehand, pauses and tries included; and while a route
  is shown as loading, something that will move it on is waited for.
\<close>

theorem every_route_is_answered:
  assumes "0 \<le> so_gapMs opts" "0 < so_concurrency opts" "store_run opts es (new_store persisted) = Some s"
    and "list_all awaited es'" "store_run opts es' s = Some s'"
  shows "length es' \<le> store_work s \<and>
    (sr_memory s' key = Some (View_Loading, True) \<longrightarrow> (\<exists>e. awaited e \<and> store_step opts e s' \<noteq> None))"
proof -
  have s: "store_ok opts s" by (rule store_run_ok [OF new_store_ok assms(3,1)])
  have s': "store_ok opts s'" by (rule store_run_ok [OF s assms(5,1)])
  show ?thesis using awaited_run [OF s assms(1,4,5)] something_awaited [OF s' assms(2), of key]
    by (auto simp: loading_def)
qed

section \<open>Not too fast\<close>

text \<open>Every slot taken is slept for or was sent in, and none before its time.\<close>

definition asleep :: "job_run \<Rightarrow> int multiset" where
  "asleep r = (case rn_phase r of Sleeping slot \<Rightarrow> {#slot#} | _ \<Rightarrow> {#})"

definition sent_ok :: "route_store \<Rightarrow> bool" where
  "sent_ok s \<longleftrightarrow> mset (map fst (sr_sent s)) + sum_list (map asleep (sr_running s)) = mset (sr_slots s) \<and>
     (\<forall>e\<in>set (sr_sent s). fst e \<le> snd e)"

lemma sent_frame:
  "sent_ok s \<Longrightarrow> sr_sent s' = sr_sent s \<Longrightarrow> sr_slots s' = sr_slots s \<Longrightarrow>
   sum_list (map asleep (sr_running s')) = sum_list (map asleep (sr_running s)) \<Longrightarrow> sent_ok s'"
  by (simp add: sent_ok_def)

lemma sent_set_run:
  assumes "sent_ok s" "distinct (map rn_key (sr_running s))" "r0 \<in> set (sr_running s)" "rn_key r0 = rn_key r" "asleep r0 = asleep r"
  shows "sent_ok (set_run r s)"
  by (rule sent_frame [OF assms(1)]) (use set_run_sum [OF assms(2-4), of asleep] assms(5) in simp_all)

lemma sent_finish:
  assumes "sent_ok s" "distinct (map rn_key (sr_running s))" "r0 \<in> set (sr_running s)" "rn_key r0 = rn_key r" "asleep r0 = {#}"
  shows "sent_ok (finish_run opts now r result s)"
proof -
  let ?r = "r\<lparr>rn_phase := Ending\<rparr>"
  have "sent_ok (set_run ?r s)" by (rule sent_set_run [OF assms(1-3)]) (use assms(4,5) in \<open>simp_all add: asleep_def\<close>)
  then show ?thesis
    by (rule sent_frame) (auto simp: finish_run_def changed_store_def set_run_def Let_def split: sum.split)
qed

lemma sent_send:
  assumes "mset (map fst (sr_sent s)) + sum_list (map asleep (sr_running s)) + {#slot#} = mset (sr_slots s) + asleep r0"
    and "\<forall>e\<in>set (sr_sent s). fst e \<le> snd e" "slot \<le> now"
    and "distinct (map rn_key (sr_running s))" "r0 \<in> set (sr_running s)" "rn_key r0 = rn_key r"
  shows "sent_ok (send_run slot now r s)"
proof -
  let ?s = "s\<lparr>sr_sent := (slot, now) # sr_sent s\<rparr>" and ?r = "r\<lparr>rn_phase := Asked\<rparr>"
  have "sum_list (map asleep (sr_running (set_run ?r ?s))) + asleep r0 = sum_list (map asleep (sr_running s)) + asleep ?r"
    using set_run_sum [of ?s r0 ?r asleep] assms(4-6) by simp
  then have run: "sum_list (map asleep (sr_running (set_run ?r ?s))) + asleep r0 = sum_list (map asleep (sr_running s))"
    by (simp add: asleep_def [of ?r])
  have "mset (map fst (sr_sent s)) + sum_list (map asleep (sr_running (set_run ?r ?s))) + {#slot#} + asleep r0 =
      mset (map fst (sr_sent s)) + (sum_list (map asleep (sr_running (set_run ?r ?s))) + asleep r0) + {#slot#}"
    by (simp only: ac_simps)
  also have "\<dots> = mset (sr_slots s) + asleep r0" unfolding run by (rule assms(1))
  finally have "mset (map fst (sr_sent s)) + sum_list (map asleep (sr_running (set_run ?r ?s))) + {#slot#} = mset (sr_slots s)"
    by (simp only: add_right_cancel)
  then show ?thesis using assms(2,3) by (simp add: sent_ok_def send_run_def)
qed

lemma sent_ask:
  assumes s: "sent_ok s" and d: "distinct (map rn_key (sr_running s))" "r0 \<in> set (sr_running s)" "rn_key r0 = rn_key r" and r0: "asleep r0 = {#}"
  shows "sent_ok (ask_run opts now r s)"
proof -
  let ?slot = "max now (sr_nextSlot s)"
  let ?s = "s\<lparr>sr_nextSlot := ?slot + so_gapMs opts, sr_slots := ?slot # sr_slots s\<rparr>" and ?r = "r\<lparr>rn_phase := Sleeping ?slot\<rparr>"
  have "sum_list (map asleep (sr_running (set_run ?r ?s))) = sum_list (map asleep (sr_running s)) + {#?slot#}"
    using set_run_sum [of ?s r0 ?r asleep] d r0 by (simp add: asleep_def)
  then have sleep: "sent_ok (set_run ?r ?s)" using s by (simp add: sent_ok_def)
  have send: "sent_ok (send_run ?slot now r ?s)" if "?slot \<le> now" using that s d r0 by (intro sent_send [of ?s _ r0]) (simp_all add: sent_ok_def)
  show ?thesis by (rule ask_run_cases [OF sleep send]) (simp_all add: take_slot_def Let_def)
qed

lemma sent_start:
  assumes s: "sent_ok s" and d: "distinct (map rn_key (sr_running s))" "jb_key job \<notin> rn_key ` set (sr_running s)"
  shows "sent_ok (start_run opts now job (s\<lparr>sr_queue := jobs\<rparr>))"
proof -
  let ?r = "\<lparr>rn_key = jb_key job, rn_coordinates = jb_coordinates job, rn_left = waypointChunks (jb_coordinates job),
            rn_parts = [], rn_attempt = 0, rn_phase = Ending\<rparr>"
  let ?s = "s\<lparr>sr_queue := jobs, sr_running := sr_running s @ [?r]\<rparr>"
  have r: "asleep ?r = {#}" by (simp add: asleep_def)
  then have "sent_ok ?s" by (intro sent_frame [OF s]) simp_all
  moreover have "distinct (map rn_key (sr_running ?s))" "?r \<in> set (sr_running ?s)" using d by auto
  ultimately show ?thesis using sent_finish [of ?s ?r ?r] sent_ask [of ?s ?r ?r] r by (simp add: start_run_def Let_def)
qed

lemma sent_pump_jobs:
  assumes "mid_ok opts {} s" "sr_queue s = jobs" "0 \<le> so_gapMs opts" "sent_ok s"
  shows "sent_ok (pump_jobs opts now jobs s)"
  using assms(1,2,4)
proof (induction jobs arbitrary: s)
  case (Cons job jobs)
  show ?case
  proof (cases "length (sr_running s) < so_concurrency opts")
    case True
    have "distinct (map rn_key (sr_running s))" "jb_key job \<notin> rn_key ` set (sr_running s)"
      using mid_okD(1) [OF Cons.prems(1)] Cons.prems(2) by auto
    from Cons.IH [OF start_run_ok [OF Cons.prems(1,2) True assms(3)] sent_start [OF Cons.prems(3) this]] True show ?thesis
      by simp
  qed (use Cons.prems in simp)
qed simp

lemma sum_without: "\<forall>x\<in>set xs. \<not> P x \<longrightarrow> w x = 0 \<Longrightarrow> sum_list (map w (filter P xs)) = (sum_list (map w xs) :: 'a::comm_monoid_add)"
  by (induction xs) auto

lemma sent_step:
  assumes s: "store_ok opts s" and gap: "0 \<le> so_gapMs opts" and sent: "sent_ok s" and step: "store_step opts (now, event) s = Some s'"
  shows "sent_ok s'"
proof -
  note d = mid_okD(1) [OF s [unfolded store_ok_def, THEN conjunct1]]
  have dist: "distinct (map rn_key (sr_running s))" using d by simp
  show ?thesis
  proof (cases event)
    case (Ensure_Route key coordinates)
    obtain known s1 where v: "view_store s key = (known, s1)" by fastforce
    have s1: "store_ok opts s1" using view_store_ok [OF s, of key] v by simp
    have sent1: "sent_ok s1" using v sent by (auto simp: view_store_def sent_ok_def split: option.splits)
    then have "sent_ok (changed_store (s1\<lparr>sr_queue := q, sr_memory := m\<rparr>))" for q m by (simp add: sent_ok_def changed_store_def)
    then show ?thesis
      using ensure_cases [OF s1 v, of now coordinates] sent1 step Ensure_Route sent_pump_jobs [OF queued_mid [OF s1] refl gap]
      by (auto simp: pump_def)
  next
    case (View_Route key)
    then show ?thesis using step sent by (auto simp: view_store_def sent_ok_def split: option.splits)
  next
    case (Slept key)
    then obtain r slot where r: "run_of key s = Some r" "rn_phase r = Sleeping slot" "slot \<le> now" and s': "s' = send_run slot now r s"
      using step by (auto split: option.splits run_phase.splits if_splits)
    show ?thesis using sent dist run_of_Some [OF r(1)] r(2,3) unfolding s'
      by (intro sent_send [of s _ r]) (simp_all add: sent_ok_def asleep_def)
  next
    case (Reply key reply)
    then obtain r where r: "run_of key s = Some r" "rn_phase r = Asked" and s': "s' = replied opts now r reply s"
      using step by (auto split: option.splits if_splits)
    have w: "r \<in> set (sr_running s)" "asleep r = {#}" using run_of_Some [OF r(1)] r(2) by (simp_all add: asleep_def)
    have finish: "sent_ok (finish_run opts now r' result s)" if "rn_key r = rn_key r'" for r' result
      by (rule sent_finish [OF sent dist w(1) that w(2)])
    have pause: "sent_ok (set_run (r\<lparr>rn_phase := Pausing\<rparr>) s)" by (rule sent_set_run [OF sent dist w(1)]) (simp_all add: w(2), simp add: asleep_def)
    have part: "sent_ok (part_came opts now r part s)" for part
      unfolding part_came_def Let_def using finish sent_ask [OF sent dist w(1) _ w(2)] by simp
    show ?thesis using finish pause part by (auto simp: s' replied_def split: mapbox_reply.split sum.split)
  next
    case (Pause_Over key)
    then obtain r where r: "run_of key s = Some r" "rn_phase r = Pausing" and s': "s' = ask_run opts now (r\<lparr>rn_attempt := rn_attempt r + 1\<rparr>) s"
      using step by (auto split: option.splits if_splits)
    show ?thesis using sent dist run_of_Some [OF r(1)] r(2) unfolding s' by (intro sent_ask [of s r]) (simp_all add: asleep_def)
  next
    case (Release key)
    then obtain r where r: "run_of key s = Some r" "rn_phase r = Ending" and s': "s' = released opts now key s"
      using step by (auto split: option.splits if_splits)
    have in_r: "r \<in> set (sr_running s)" "rn_key r = key" using run_of_Some [OF r(1)] by simp_all
    then have "r' = r" if "r' \<in> set (sr_running s)" "rn_key r' = key" for r'
      using dist that by (auto simp: distinct_map inj_on_def)
    then have "\<forall>r'\<in>set (sr_running s). \<not> rn_key r' \<noteq> key \<longrightarrow> asleep r' = 0" using r(2) by (auto simp: asleep_def)
    from sum_without [OF this] have "sent_ok (s\<lparr>sr_running := filter (\<lambda>r. rn_key r \<noteq> key) (sr_running s)\<rparr>)" using sent by (simp add: sent_ok_def)
    then show ?thesis unfolding s' released_def pump_def by (intro sent_pump_jobs [OF released_mid [OF s r] _ gap]) simp_all
  qed
qed

lemma sent_run:
  "store_ok opts s \<Longrightarrow> 0 \<le> so_gapMs opts \<Longrightarrow> sent_ok s \<Longrightarrow> store_run opts es s = Some s' \<Longrightarrow> sent_ok s'"
proof (induction es arbitrary: s)
  case (Cons e es)
  then obtain s1 where s1: "store_step opts e s = Some s1" "store_run opts es s1 = Some s'" by (auto simp: bind_eq_Some_conv)
  show ?case
    using Cons.IH [OF store_step_ok [OF Cons.prems(1) s1(1) Cons.prems(2)] Cons.prems(2) _ s1(2)] sent_step [OF Cons.prems(1-3), of "fst e" "snd e"] s1(1)
    by simp
qed simp

lemma spaced_subset:
  assumes sym: "\<And>x y. R x y \<Longrightarrow> R y x"
  shows "sorted_wrt R xs \<Longrightarrow> mset ys \<subseteq># mset xs \<Longrightarrow> sorted_wrt R ys"
proof (induction ys arbitrary: xs)
  case (Cons y ys)
  then have "y \<in> set xs" by (meson list.set_intros(1) mset_subset_eqD set_mset_mset union_iff in_multiset_in_set)
  then obtain as bs where xs: "xs = as @ y # bs" by (auto dest: split_list)
  then have sub: "mset ys \<subseteq># mset (as @ bs)" using Cons.prems(2) by simp
  have "R y z" if "z \<in> set ys" for z
    using mset_subset_eqD [OF sub, of z] that Cons.prems(1) sym by (auto simp: xs sorted_wrt_append)
  then show ?case using Cons.IH [OF _ sub] Cons.prems(1) by (auto simp: xs sorted_wrt_append)
qed simp

lemma length_filter_le_of_imp: "(\<And>x. x \<in> set xs \<Longrightarrow> P x \<Longrightarrow> Q x) \<Longrightarrow> length (filter P xs) \<le> length (filter Q xs)"
  by (induction xs) auto

text \<open>
  C25. Requests are spaced. Every request sent, the ones tried again after a pause included, had a
  slot, no two slots are less than a gap apart, and none goes out before its slot. When no timer runs
  more than \<open>k\<close> gaps late, any stretch of time as long as \<open>n\<close> gaps has at most \<open>n + k\<close> requests going
  out: with timers on time, four in a second at a quarter of a second.
\<close>

theorem requests_are_spaced:
  assumes "0 < so_gapMs opts" "store_run opts es (new_store persisted) = Some s"
    and "list_all (\<lambda>(slot, sent). sent \<le> slot + int k * so_gapMs opts) (sr_sent s)"
  shows "list_all (\<lambda>(slot, sent). slot \<le> sent) (sr_sent s) \<and>
    sorted_wrt (\<lambda>(slot, _) (slot', _). so_gapMs opts \<le> \<bar>slot - slot'\<bar>) (sr_sent s) \<and>
    length (filter (\<lambda>(_, sent). t \<le> sent \<and> sent < t + int n * so_gapMs opts) (sr_sent s)) \<le> n + k"
proof -
  have gap: "0 \<le> so_gapMs opts" using assms(1) by simp
  have "sent_ok (new_store persisted)" by (simp add: sent_ok_def new_store_def)
  then have sent: "sent_ok s" by (rule sent_run [OF new_store_ok gap _ assms(2)])
  then have sub: "mset (map fst (sr_sent s)) \<subseteq># mset (sr_slots s)" by (metis mset_subset_eq_add_left sent_ok_def)
  have "store_ok opts s" by (rule store_run_ok [OF new_store_ok assms(2) gap])
  then have slots: "sorted_wrt (\<lambda>later earlier. earlier + so_gapMs opts \<le> later) (sr_slots s)"
    by (simp add: store_ok_def mid_ok_def slots_ok_def)
  then have "sorted_wrt (\<lambda>slot slot'. so_gapMs opts \<le> \<bar>slot - slot'\<bar>) (sr_slots s)" by (rule sorted_wrt_mono_rel [rotated]) simp
  from spaced_subset [OF _ this sub] have "sorted_wrt (\<lambda>(slot, _) (slot', _). so_gapMs opts \<le> \<bar>slot - slot'\<bar>) (sr_sent s)"
    by (simp add: sorted_wrt_map case_prod_unfold abs_minus_commute)
  moreover have on_time: "list_all (\<lambda>(slot, sent). slot \<le> sent) (sr_sent s)" using sent by (auto simp: sent_ok_def list_all_iff)
  moreover have "length (filter (\<lambda>(_, sent). t \<le> sent \<and> sent < t + int n * so_gapMs opts) (sr_sent s)) \<le> n + k"
  proof -
    let ?t = "t - int k * so_gapMs opts"
    let ?P = "\<lambda>slot. ?t \<le> slot \<and> slot < ?t + int (n + k) * so_gapMs opts"
    have "length (filter (\<lambda>(_, sent). t \<le> sent \<and> sent < t + int n * so_gapMs opts) (sr_sent s)) \<le> length (filter (?P \<circ> fst) (sr_sent s))"
      using on_time assms(3) by (intro length_filter_le_of_imp) (fastforce simp: list_all_iff algebra_simps)
    also have "\<dots> = size (filter_mset ?P (mset (map fst (sr_sent s))))" by (simp only: mset_filter [symmetric] size_mset filter_map length_map)
    also have "\<dots> \<le> size (filter_mset ?P (mset (sr_slots s)))" by (intro size_mset_mono multiset_filter_mono sub)
    also have "\<dots> = length (filter ?P (sr_slots s))" by (simp flip: mset_filter)
    also have "\<dots> \<le> n + k" by (rule spaced_window [OF sorted_wrt_filter [OF slots] assms(1)]) auto
    finally show ?thesis .
  qed
  ultimately show ?thesis by blast
qed

section \<open>What is given is what was asked for\<close>



























section \<open>An afternoon's requests\<close>

definition page_options :: store_options where
  "page_options = \<lparr>so_token = ''pk'', so_concurrency = 2, so_gapMs = 250, so_takes = (\<lambda>_. True)\<rparr>"


definition three_asked :: "(int \<times> store_event) list" where
  "three_asked = [(1000, Ensure_Route ''k1'' two_stops), (1001, Ensure_Route ''k2'' (rev two_stops)), (1002, Ensure_Route ''k3'' []),
     (1252, Slept ''k2''), (1500, Reply ''k1'' (Response 200 (Some short_answer) None)), (1600, Reply ''k2'' (Response 429 None None))]"

definition then_waited :: "(int \<times> store_event) list" where
  "then_waited = [(1700, Release ''k1''), (3600, Pause_Over ''k2''), (3700, Reply ''k2'' (No_Response None))]"

definition waiting_run :: "string \<Rightarrow> lng_lat list \<Rightarrow> run_phase \<Rightarrow> job_run" where
  "waiting_run key stops phase = \<lparr>rn_key = key, rn_coordinates = stops, rn_left = [stops], rn_parts = [], rn_attempt = 0, rn_phase = phase\<rparr>"

definition page_store :: route_store where
  "page_store = \<lparr>sr_memory = [''k1'' \<mapsto> (View_Ok short_route, False), ''k2'' \<mapsto> (View_Loading, True), ''k3'' \<mapsto> (View_Loading, True)],
     sr_queue = [\<lparr>jb_key = ''k3'', jb_coordinates = []\<rparr>],
     sr_running = [(waiting_run ''k1'' two_stops Ending)\<lparr>rn_left := [], rn_parts := [short_route]\<rparr>, waiting_run ''k2'' (rev two_stops) Pausing],
     sr_persisted = save_store page_options [(cyrb53 ''k1'', deflate short_route 1500)], sr_version = 4, sr_nextSlot = 1500,
     sr_slots = [1250, 1000], sr_sent = [(1250, 1252), (1000, 1000)], sr_settled = [(''k1'', Inr short_route)]\<rparr>"

lemmas store_evaluation = store_step.simps ensure_def view_store_def changed_store_def pump_def start_run_def ask_run_def send_run_def take_slot_def set_run_def
  finish_run_def replied_def part_came_def run_of_def released_def Let_def

lemma two_stops_chunks: "waypointChunks two_stops = [two_stops]" "waypointChunks (rev two_stops) = [rev two_stops]" "waypointChunks ([] :: lng_lat list) = [[]]"
  by (simp_all add: waypointChunks_def two_stops_def MAX_WAYPOINTS_def)

lemma short_answer_parsed: "parseDirections (Some short_answer) two_stops = Inr short_route"
  by (simp add: parseDirections_def two_stops_def short_answer_def short_route_def splitAtWaypoints_def Let_def)

lemma page_store_reached: "store_run page_options three_asked (new_store []) = Some page_store"
  by (simp add: three_asked_def store_evaluation new_store_def page_options_def two_stops_chunks short_answer_parsed mergeRoutes_def
    page_store_def waiting_run_def fun_upd_twist)

lemma page_store_waited: "store_run page_options then_waited page_store \<noteq> None"
  by (simp add: then_waited_def store_evaluation page_options_def two_stops_chunks page_store_def waiting_run_def)

lemma page_gap: "0 < so_gapMs page_options" "0 \<le> so_gapMs page_options" "0 < so_concurrency page_options"
  by (simp_all add: page_options_def)

theorem routes_are_asked_once_witness:
  "length (sr_running page_store) = 2 \<and> map jb_key (sr_queue page_store) = [''k3''] \<and>
   {key. sr_memory page_store key = Some (View_Loading, True)} = {''k2'', ''k3''}"
proof -
  have "rn_key ` {r \<in> set (sr_running page_store). rn_phase r \<noteq> Ending} =
      set (map rn_key (filter (\<lambda>r. rn_phase r \<noteq> Ending) (sr_running page_store)))" by auto
  also have "\<dots> = {''k2''}" by (simp add: page_store_def waiting_run_def)
  finally have "rn_key ` {r \<in> set (sr_running page_store). rn_phase r \<noteq> Ending} = {''k2''}" .
  with routes_are_asked_once [OF page_gap(2) page_store_reached] show ?thesis by (auto simp: page_store_def)
qed

theorem requests_are_spaced_witness:
  "length (filter (\<lambda>(_, sent). 1000 \<le> sent \<and> sent < 2000) (sr_sent page_store)) \<le> 5"
proof -
  have "list_all (\<lambda>(slot, sent). sent \<le> slot + int 1 * so_gapMs page_options) (sr_sent page_store)"
    by (simp add: page_store_def page_options_def)
  from requests_are_spaced [OF page_gap(1) page_store_reached this, of 1000 4] show ?thesis by (simp add: page_options_def)
qed

text \<open>Timers that end late together send together: the gap is between the slots, not between the requests.\<close>

lemma late_requests_bunch:
  "map_option sr_sent (store_run page_options
     [(1000, Ensure_Route ''k1'' two_stops), (1001, Ensure_Route ''k2'' (rev two_stops)), (1002, Ensure_Route ''k3'' []),
      (1100, Reply ''k1'' (No_Response None)), (1100, Release ''k1''), (1600, Slept ''k2''), (1600, Slept ''k3'')] (new_store [])) =
   Some [(1500, 1600), (1250, 1600), (1000, 1000)]"
  by (simp add: store_evaluation new_store_def page_options_def two_stops_chunks)

theorem every_route_is_answered_witness: "length then_waited \<le> store_work page_store"
proof -
  obtain s' where "store_run page_options then_waited page_store = Some s'" using page_store_waited by blast
  moreover have "list_all awaited then_waited" by (simp add: then_waited_def)
  ultimately show ?thesis using every_route_is_answered [OF page_gap(2,3) page_store_reached] by blast
qed




end
