(* ===== verification/Route_Order.thy ===== *)
theory Route_Order
  imports Held_Karp Manual_Grouping Road_Routes
begin

text \<open>
  \<open>web/components/planning/route-order.ts\<close>: the fastest order of a group's stops from the drive times
  between every two of them, and the table of times the page keeps.
\<close>

section \<open>Orders\<close>

type_synonym drive_times = "real list list"

definition UNREACHABLE_S :: real where "UNREACHABLE_S = 10 ^ 7"

definition EXACT_UP_TO :: nat where "EXACT_UP_TO = 14"

definition pathSeconds :: "drive_times \<Rightarrow> nat list \<Rightarrow> real" where
  "pathSeconds durations order =
     foldl (\<lambda>total index. total + durations ! (order ! (index - 1)) ! (order ! index)) 0 [1..<length order]"

definition exactOrder :: "drive_times \<Rightarrow> nat list option" where
  "exactOrder durations =
     (let rest = length durations - 1; t = search_sets (\<lambda>from to. durations ! from ! to) rest
      in map_option (\<lambda>order. 0 # rev order) (read_back (previous t) rest (2 ^ rest - 1) (int (best_end (best t) rest))))"

text \<open>Of those left, the first that is nearest.\<close>

fun nearest_left :: "drive_times \<Rightarrow> nat \<Rightarrow> nat list \<Rightarrow> nat" where
  "nearest_left durations here [] = 0"
| "nearest_left durations here (stop # stops) =
     foldl (\<lambda>best stop. if durations ! here ! stop < durations ! here ! best then stop else best) stop stops"

lemma nearest_left_in: "left \<noteq> [] \<Longrightarrow> nearest_left durations here left \<in> set left"
proof (cases left)
  case (Cons stop stops)
  have "foldl (\<lambda>best stop. if durations ! here ! stop < durations ! here ! best then stop else best) b stops \<in> insert b (set stops)" for b
    by (induction stops arbitrary: b) auto
  then show ?thesis using Cons by auto
qed simp

function nearest_on :: "drive_times \<Rightarrow> nat \<Rightarrow> nat list \<Rightarrow> nat list" where
  "nearest_on durations here left =
     (if left = [] then []
      else let best = nearest_left durations here left in best # nearest_on durations best (remove1 best left))"
  by pat_completeness auto
termination
  by (relation "measure (\<lambda>(_, _, left). length left)") (auto simp: nearest_left_in length_remove1)

declare nearest_on.simps [simp del]

record order_search =
  os_order :: "nat list"
  os_seconds :: real
  os_improved :: bool

definition try_order :: "drive_times \<Rightarrow> nat list \<Rightarrow> order_search \<Rightarrow> order_search" where
  "try_order durations candidate s =
     (let seconds = pathSeconds durations candidate
      in if seconds < os_seconds s - 1 / 10 ^ 9 then \<lparr>os_order = candidate, os_seconds = seconds, os_improved = True\<rparr> else s)"

definition reversals :: "nat \<Rightarrow> (nat \<times> nat) list" where
  "reversals n = concat (map (\<lambda>start. map (\<lambda>stop. (start, stop)) [start + 1..<n]) [1..<n - 1])"

definition order_moves :: "nat \<Rightarrow> (nat \<times> nat) list" where
  "order_moves n = filter (\<lambda>(x, y). x \<noteq> y) (concat (map (\<lambda>x. map (\<lambda>y. (x, y)) [1..<n]) [1..<n]))"

definition search_pass :: "drive_times \<Rightarrow> order_search \<Rightarrow> order_search" where
  "search_pass durations s =
     (let s = foldl (\<lambda>s (start, stop). try_order durations (reverse_segment start stop (os_order s)) s) (s\<lparr>os_improved := False\<rparr>)
            (reversals (length durations))
      in foldl (\<lambda>s (x, y). try_order durations (moved_stop x y (os_order s)) s) s (order_moves (length durations)))"

fun search_passes :: "nat \<Rightarrow> drive_times \<Rightarrow> order_search \<Rightarrow> order_search" where
  "search_passes 0 durations s = s"
| "search_passes (Suc k) durations s =
     (let s = search_pass durations s in if os_improved s then search_passes k durations s else s)"

definition searchedOrder :: "drive_times \<Rightarrow> nat list" where
  "searchedOrder durations =
     (let order = 0 # nearest_on durations 0 [1..<length durations]
      in os_order (search_passes 100 durations \<lparr>os_order = order, os_seconds = pathSeconds durations order, os_improved = True\<rparr>))"

text \<open>A point more, no drive from anywhere.\<close>

definition padded_times :: "drive_times \<Rightarrow> drive_times" where
  "padded_times durations = replicate (length durations + 1) 0 # map (\<lambda>row. 0 # row) durations"

definition fastestOrder :: "drive_times \<Rightarrow> bool \<Rightarrow> nat list option" where
  "fastestOrder durations fixedStart =
     (let n = length durations
      in if n \<le> 1 then Some [0..<n]
         else if fixedStart then
           (if n = 2 then Some [0, 1] else if n \<le> EXACT_UP_TO then exactOrder durations else Some (searchedOrder durations))
         else
           (let padded = padded_times durations
            in map_option (\<lambda>order. map (\<lambda>index. index - 1) (drop 1 order))
                 (if n + 1 \<le> EXACT_UP_TO then exactOrder padded else Some (searchedOrder padded))))"

section \<open>Costs of orders\<close>

lemma pathSeconds_simps [simp]:
  "pathSeconds durations [] = 0" "pathSeconds durations [a] = 0"
  "pathSeconds durations (a # b # order) = durations ! a ! b + pathSeconds durations (b # order)"
proof -
  have shift: "foldl (\<lambda>total index. total + f index) x [Suc i..<Suc j] = foldl (\<lambda>total index. total + f (Suc index)) x [i..<j]" for f :: "nat \<Rightarrow> real" and x i j
    by (induction j) (auto simp: not_less_eq_eq)
  have start: "foldl (\<lambda>total index. total + f index) (x + y) xs = x + foldl (\<lambda>total index. total + f index) y xs" for f :: "nat \<Rightarrow> real" and x y xs
    by (induction xs arbitrary: y) (simp_all add: add.assoc)
  let ?f = "\<lambda>order index. durations ! (order ! (index - 1)) ! (order ! index)"
  have "pathSeconds durations (a # b # order) = foldl (\<lambda>total index. total + ?f (a # b # order) index) (0 + ?f (a # b # order) 1) [2..<length order + 2]"
    by (simp add: pathSeconds_def upt_conv_Cons numeral_2_eq_2 del: upt_Suc)
  also have "\<dots> = foldl (\<lambda>total index. total + ?f (a # b # order) (Suc index)) (durations ! a ! b + 0) [1..<length order + 1]"
    using shift [of "?f (a # b # order)" "durations ! a ! b" 1 "length order + 1"] by (simp add: numeral_2_eq_2 del: upt_Suc)
  also have "\<dots> = durations ! a ! b + foldl (\<lambda>total index. total + ?f (b # order) index) 0 [1..<length order + 1]"
    unfolding start by (intro arg_cong2 [where f = "(+)"] refl foldl_cong) (auto simp: nth_Cons')
  finally show "pathSeconds durations (a # b # order) = durations ! a ! b + pathSeconds durations (b # order)"
    by (simp add: pathSeconds_def)
qed (simp_all add: pathSeconds_def)

lemma path_cost_seconds: "path_cost (\<lambda>x y. durations ! x ! y) a order = pathSeconds durations (a # order)"
  by (induction order arbitrary: a) simp_all

definition square :: "nat \<Rightarrow> drive_times \<Rightarrow> bool" where
  "square n durations \<longleftrightarrow> length durations = n \<and> list_all (\<lambda>row. length row = n) durations"

lemma exactOrder_best:
  assumes "2 \<le> length durations"
  shows "\<exists>order. exactOrder durations = Some (0 # order) \<and> distinct order \<and> set order = {1..length durations - 1} \<and>
    (\<forall>p. distinct p \<longrightarrow> set p = {1..length durations - 1} \<longrightarrow> pathSeconds durations (0 # order) \<le> pathSeconds durations (0 # p))"
  using search_optimal [of "length durations - 1" "\<lambda>x y. durations ! x ! y"] assms
  by (auto simp: exactOrder_def Let_def path_cost_seconds)

lemma mset_nearest_on: "mset (nearest_on durations here left) = mset left"
proof (induction durations here left rule: nearest_on.induct)
  case (1 durations here left)
  then show ?case by (subst nearest_on.simps) (simp add: Let_def nearest_left_in)
qed

text \<open>What a try, a pass and all of them keep: the stops, the first of them, and no more driving.\<close>

definition kept_from :: "drive_times \<Rightarrow> nat list \<Rightarrow> real \<Rightarrow> order_search \<Rightarrow> bool" where
  "kept_from durations order0 seconds0 s \<longleftrightarrow> mset (os_order s) = mset order0 \<and> take 1 (os_order s) = take 1 order0 \<and>
     os_seconds s = pathSeconds durations (os_order s) \<and> os_seconds s \<le> seconds0"

lemma kept_try:
  "kept_from durations order0 seconds0 s \<Longrightarrow> mset candidate = mset (os_order s) \<Longrightarrow> take 1 candidate = take 1 (os_order s) \<Longrightarrow>
   kept_from durations order0 seconds0 (try_order durations candidate s)"
  by (auto simp: kept_from_def try_order_def Let_def)

lemma take_1_reverse_segment: "0 < i \<Longrightarrow> xs \<noteq> [] \<Longrightarrow> take 1 (reverse_segment i j xs) = take 1 xs"
  by (cases xs; cases i) (simp_all add: reverse_segment_def Local_Search.slice_def)

lemma take_1_moved_stop: "0 < i \<Longrightarrow> 0 < j \<Longrightarrow> xs \<noteq> [] \<Longrightarrow> take 1 (moved_stop i j xs) = take 1 xs"
  by (cases xs; cases i; cases j) (simp_all add: moved_stop_def Let_def)

lemma kept_pass:
  assumes s: "kept_from durations order0 seconds0 s" and n: "length order0 = length durations" "order0 \<noteq> []"
  shows "kept_from durations order0 seconds0 (search_pass durations s)"
proof -
  have len: "length (os_order t) = length durations" if "kept_from durations order0 seconds0 t" for t
    using that n(1) by (metis kept_from_def size_mset)
  have ne: "os_order t \<noteq> []" if "kept_from durations order0 seconds0 t" for t
    using len [OF that] n by auto
  have rev: "kept_from durations order0 seconds0 (foldl (\<lambda>s (start, stop). try_order durations (reverse_segment start stop (os_order s)) s) t ps)"
    if "kept_from durations order0 seconds0 t" "\<forall>(i, j)\<in>set ps. 0 < i \<and> i \<le> j" for t ps
    using that
  proof (induction ps arbitrary: t)
    case (Cons p ps)
    obtain i j where p: "p = (i, j)" by (cases p)
    have "kept_from durations order0 seconds0 (try_order durations (reverse_segment i j (os_order t)) t)"
      using Cons.prems p ne [OF Cons.prems(1)] by (intro kept_try take_1_reverse_segment) auto
    with Cons p show ?case by simp
  qed simp
  have mov: "kept_from durations order0 seconds0 (foldl (\<lambda>s (x, y). try_order durations (moved_stop x y (os_order s)) s) t ps)"
    if "kept_from durations order0 seconds0 t" "\<forall>(i, j)\<in>set ps. 0 < i \<and> 0 < j \<and> i < length durations" for t ps
    using that
  proof (induction ps arbitrary: t)
    case (Cons p ps)
    obtain i j where p: "p = (i, j)" by (cases p)
    have "kept_from durations order0 seconds0 (try_order durations (moved_stop i j (os_order t)) t)"
      using Cons.prems p ne [OF Cons.prems(1)] len [OF Cons.prems(1)] by (intro kept_try take_1_moved_stop mset_moved_stop) auto
    with Cons p show ?case by simp
  qed simp
  have "kept_from durations order0 seconds0 (s\<lparr>os_improved := False\<rparr>)" using s by (simp add: kept_from_def)
  moreover have "\<forall>(i, j)\<in>set (reversals (length durations)). 0 < i \<and> i \<le> j" by (auto simp: reversals_def)
  moreover have "\<forall>(i, j)\<in>set (order_moves (length durations)). 0 < i \<and> 0 < j \<and> i < length durations" by (auto simp: order_moves_def)
  ultimately show ?thesis unfolding search_pass_def Let_def by (intro mov rev)
qed

lemma kept_passes:
  "kept_from durations order0 seconds0 s \<Longrightarrow> length order0 = length durations \<Longrightarrow> order0 \<noteq> [] \<Longrightarrow>
   kept_from durations order0 seconds0 (search_passes k durations s)"
  by (induction k arbitrary: s) (simp_all add: Let_def kept_pass)

lemma searchedOrder_facts:
  assumes "durations \<noteq> []"
  shows "\<exists>order. searchedOrder durations = 0 # order \<and> mset order = mset [1..<length durations] \<and>
    pathSeconds durations (searchedOrder durations) \<le> pathSeconds durations (0 # nearest_on durations 0 [1..<length durations])"
proof -
  let ?first = "0 # nearest_on durations 0 [1..<length durations]"
  have "length (nearest_on durations 0 [1..<length durations]) = length [1..<length durations]"
    using mset_nearest_on by (metis size_mset)
  then have "length ?first = length durations" using assms by simp
  then have k: "kept_from durations ?first (pathSeconds durations ?first)
      (search_passes 100 durations \<lparr>os_order = ?first, os_seconds = pathSeconds durations ?first, os_improved = True\<rparr>)"
    by (intro kept_passes) (simp_all add: kept_from_def)
  then have m: "mset (searchedOrder durations) = mset ?first" "take 1 (searchedOrder durations) = [0]"
    "pathSeconds durations (searchedOrder durations) \<le> pathSeconds durations ?first"
    by (simp_all add: searchedOrder_def Let_def kept_from_def)
  from m(2) obtain order where "searchedOrder durations = 0 # order" by (cases "searchedOrder durations") auto
  with m show ?thesis by (simp add: mset_nearest_on)
qed

section \<open>A free start\<close>

lemma fastestOrder_free:
  "2 \<le> length durations \<Longrightarrow> fastestOrder durations False = map_option (\<lambda>order. map (\<lambda>index. index - 1) (drop 1 order))
    (if length durations + 1 \<le> EXACT_UP_TO then exactOrder (padded_times durations) else Some (searchedOrder (padded_times durations)))"
  by (simp add: fastestOrder_def)

lemma padded_seconds:
  "set p \<subseteq> {..<length durations} \<Longrightarrow> pathSeconds (padded_times durations) (0 # map Suc p) = pathSeconds durations p"
proof (cases p)
  case (Cons a q)
  assume p: "set p \<subseteq> {..<length durations}"
  have "pathSeconds (padded_times durations) (map Suc xs) = pathSeconds durations xs" if "set xs \<subseteq> {..<length durations}" for xs
    using that
  proof (induction xs rule: induct_list012)
    case (3 x y xs)
    then show ?case by (simp add: padded_times_def)
  qed simp_all
  from this [OF p] p show ?thesis by (simp add: Cons padded_times_def nth_Cons')
qed simp

lemma minus_map_Suc: "set order = {1..n} \<Longrightarrow> map Suc (map (\<lambda>i. i - 1) order) = order"
  unfolding map_map by (intro map_idI) auto

lemma mset_from_1: "distinct order \<Longrightarrow> set order = {1..n} \<Longrightarrow> mset order = mset [1..<Suc n]"
proof -
  assume d: "distinct order" and s: "set order = {1..n}"
  have "set order = set [1..<Suc n]" by (simp add: s atLeastLessThanSuc_atLeastAtMost del: upt_Suc)
  then show ?thesis using set_eq_iff_mset_eq_distinct [OF d distinct_upt, of 1 "Suc n"] by blast
qed

lemma Suc_image_less: "Suc ` {..<n} = {1..n}"
  by (simp add: lessThan_atLeast0 atLeastLessThanSuc_atLeastAtMost)

text \<open>
  C21. Up to thirteen stops, or fourteen with the first of them held, the order found is a fastest
  one: of all the orders of the stops, or of those that begin at the first when it is held, none is
  less driving.
\<close>

theorem fastest_order_is_fastest:
  assumes "square n durations" "n \<le> (if fixedStart then 14 else 13)"
  shows "\<exists>order. fastestOrder durations fixedStart = Some order \<and> distinct order \<and> set order = {..<n} \<and> (fixedStart \<longrightarrow> take 1 order = take 1 [0..<n]) \<and>
    (\<forall>p. distinct p \<longrightarrow> set p = {..<n} \<longrightarrow> (fixedStart \<longrightarrow> take 1 p = take 1 [0..<n]) \<longrightarrow> pathSeconds durations order \<le> pathSeconds durations p)"
proof -
  have len: "length durations = n" using assms(1) by (simp add: square_def)
  consider (few) "n \<le> 1" | (fixed) "2 \<le> n" fixedStart | (free) "2 \<le> n" "\<not> fixedStart" by linarith
  then show ?thesis
  proof cases
    case few
    have "p = [0..<n]" if "distinct p" "set p = {..<n}" for p
    proof -
      have "length p = n" using distinct_card [OF that(1)] that(2) by simp
      then show ?thesis using that(2) few by (cases n; cases p) auto
    qed
    then show ?thesis using few by (intro exI [of _ "[0..<n]"]) (auto simp: fastestOrder_def len atLeast0LessThan)
  next
    case fixed
    have zero: "take 1 [0..<n] = [0]" using fixed(1) by (subst upt_conv_Cons) auto
    have tail: "\<exists>q. p = 0 # q \<and> distinct q \<and> set q = {1..n - 1}" if p: "distinct p" "set p = {..<n}" "take 1 p = [0]" for p
    proof -
      obtain q where q: "p = 0 # q" using p(3) by (cases p) auto
      then have "set q = {..<n} - {0}" using p(1,2) by auto
      also have "\<dots> = {1..n - 1}" using fixed(1) by auto
      finally show ?thesis using p(1) q by auto
    qed
    have "\<exists>order. fastestOrder durations fixedStart = Some (0 # order) \<and> distinct order \<and> set order = {1..n - 1} \<and>
      (\<forall>q. distinct q \<longrightarrow> set q = {1..n - 1} \<longrightarrow> pathSeconds durations (0 # order) \<le> pathSeconds durations (0 # q))"
    proof (cases "n = 2")
      case True
      have "q = [1]" if "distinct q" "set q = {1..n - 1}" for q
      proof -
        have "length q = 1" using distinct_card [OF that(1)] that(2) True by simp
        then show ?thesis using that(2) True by (cases q) auto
      qed
      then show ?thesis using True fixed by (intro exI [of _ "[1]"]) (auto simp: fastestOrder_def len)
    next
      case False
      then have "fastestOrder durations fixedStart = exactOrder durations"
        using fixed assms(2) by (simp add: fastestOrder_def len EXACT_UP_TO_def)
      then show ?thesis using exactOrder_best [of durations] fixed(1) len by simp
    qed
    then obtain order where o: "fastestOrder durations fixedStart = Some (0 # order)" "distinct order" "set order = {1..n - 1}"
      "\<forall>q. distinct q \<longrightarrow> set q = {1..n - 1} \<longrightarrow> pathSeconds durations (0 # order) \<le> pathSeconds durations (0 # q)" by blast
    have "set (0 # order) = {..<n}" using o(3) fixed(1) by auto
    moreover have "distinct (0 # order)" using o(2,3) by auto
    moreover have "pathSeconds durations (0 # order) \<le> pathSeconds durations p" if p: "distinct p" "set p = {..<n}" "take 1 p = [0]" for p
      using tail [OF p] o(4) by auto
    moreover have "take 1 (0 # order) = [0]" by simp
    ultimately show ?thesis using fixed(2) unfolding zero o(1) by blast
  next
    case free
    let ?padded = "padded_times durations"
    have "fastestOrder durations fixedStart = map_option (\<lambda>order. map (\<lambda>index. index - 1) (drop 1 order)) (exactOrder ?padded)"
      using free assms(2) by (simp add: fastestOrder_def len EXACT_UP_TO_def padded_times_def)
    moreover obtain order where o: "exactOrder ?padded = Some (0 # order)" "distinct order" "set order = {1..n}"
      "\<forall>q. distinct q \<longrightarrow> set q = {1..n} \<longrightarrow> pathSeconds ?padded (0 # order) \<le> pathSeconds ?padded (0 # q)"
      using exactOrder_best [of ?padded] free(1) by (auto simp: padded_times_def len)
    ultimately have f: "fastestOrder durations fixedStart = Some (map (\<lambda>index. index - 1) order)" by simp
    let ?order = "map (\<lambda>index. index - 1) order"
    note Suc = minus_map_Suc [OF o(3)]
    have d: "distinct ?order" using o(2) Suc by (metis distinct_map)
    have "Suc ` set ?order = Suc ` {..<n}" using Suc o(3) by (metis Suc_image_less list.set_map)
    then have set: "set ?order = {..<n}" by (simp only: inj_image_eq_iff [OF inj_Suc])
    have "pathSeconds durations ?order \<le> pathSeconds durations p" if p: "distinct p" "set p = {..<n}" for p
    proof -
      have "distinct (map Suc p)" "set (map Suc p) = {1..n}" using p by (simp_all add: distinct_map Suc_image_less)
      then have "pathSeconds ?padded (0 # order) \<le> pathSeconds ?padded (0 # map Suc p)" using o(4) by blast
      then show ?thesis using padded_seconds [of p durations] padded_seconds [of ?order durations] set p(2) Suc len by simp
    qed
    then show ?thesis using f d set free(2) by blast
  qed
qed

text \<open>
  C34. However many stops there are, the order found visits each of them once, and begins with the
  first when it has to.
\<close>

theorem fastest_order_visits_all:
  "\<exists>order. fastestOrder durations fixedStart = Some order \<and> mset order = mset [0..<length durations] \<and>
    (fixedStart \<longrightarrow> take 1 order = take 1 [0..<length durations])"
proof -
  let ?n = "length durations"
  consider (few) "?n \<le> 1" | (two) "?n = 2" fixedStart | (fixed) "3 \<le> ?n" fixedStart | (free) "2 \<le> ?n" "\<not> fixedStart" by linarith
  then show ?thesis
  proof cases
    case few
    then show ?thesis by (auto simp: fastestOrder_def)
  next
    case two
    then show ?thesis by (simp add: fastestOrder_def upt_conv_Cons numeral_2_eq_2)
  next
    case fixed
    have zero: "[0..<?n] = 0 # [1..<?n]" using fixed(1) by (subst upt_conv_Cons) auto
    have ms: "mset order = mset [1..<?n]" if "distinct order" "set order = {1..?n - 1}" for order
    proof -
      have "Suc (?n - 1) = ?n" using fixed(1) by simp
      then show ?thesis using mset_from_1 [OF that] by (simp only:)
    qed
    have "\<exists>order. fastestOrder durations fixedStart = Some (0 # order) \<and> mset order = mset [1..<?n]"
    proof (cases "?n \<le> EXACT_UP_TO")
      case True
      obtain order where "exactOrder durations = Some (0 # order)" "distinct order" "set order = {1..?n - 1}"
        using exactOrder_best [of durations] fixed(1) by auto
      then show ?thesis using ms [of order] fixed True by (simp add: fastestOrder_def)
    next
      case False
      obtain order where "searchedOrder durations = 0 # order" "mset order = mset [1..<?n]"
        using searchedOrder_facts [of durations] fixed(1) by force
      then show ?thesis using fixed False by (simp add: fastestOrder_def)
    qed
    then show ?thesis using fixed(2) by (auto simp: zero)
  next
    case free
    let ?padded = "padded_times durations"
    have ms: "mset order = mset [1..<?n + 1]" if "distinct order" "set order = {1..?n}" for order
      using mset_from_1 [OF that] by (simp only: Suc_eq_plus1)
    have "\<exists>order. (if ?n + 1 \<le> EXACT_UP_TO then exactOrder ?padded else Some (searchedOrder ?padded)) = Some (0 # order) \<and> mset order = mset [1..<?n + 1]"
      using free exactOrder_best [of ?padded] searchedOrder_facts [of ?padded] ms by (auto simp: padded_times_def)
    then obtain order where o: "(if ?n + 1 \<le> EXACT_UP_TO then exactOrder ?padded else Some (searchedOrder ?padded)) = Some (0 # order)"
      "mset order = mset [1..<?n + 1]" by blast
    have "fastestOrder durations fixedStart = Some (map (\<lambda>i. i - 1) order)"
      using free o(1) fastestOrder_free [OF free(1)] by simp
    moreover have "[1..<?n + 1] = map Suc [0..<?n]" by (simp add: map_Suc_upt)
    then have "image_mset (\<lambda>i. i - 1) (mset order) = mset (map (\<lambda>i. i - 1) (map Suc [0..<?n]))" by (simp only: o(2) mset_map)
    then have "mset (map (\<lambda>i. i - 1) order) = mset [0..<?n]" by (simp only: mset_map map_map o_def diff_Suc_1 image_mset.identity id_def [symmetric]) simp
    ultimately show ?thesis using free(2) by simp
  qed
qed

definition four_stops :: drive_times where
  "four_stops = [[0, 10, 20, 5], [10, 0, 4, 30], [20, 4, 0, 30], [5, 30, 30, 0]]"

theorem fastest_order_visits_all_witness:
  "\<exists>order. fastestOrder four_stops True = Some order \<and> mset order = mset [0, 1, 2, 3] \<and> take 1 order = [0]"
  using fastest_order_visits_all [of four_stops True] by (simp add: four_stops_def upt_rec numeral_eq_Suc)

theorem fastest_order_is_fastest_witness:
  "\<exists>order. fastestOrder four_stops False = Some order \<and> set order = {..<4} \<and> pathSeconds four_stops order \<le> 19"
proof -
  have "square 4 four_stops" by (simp add: square_def four_stops_def)
  from fastest_order_is_fastest [OF this, of False] obtain order where o: "fastestOrder four_stops False = Some order" "set order = {..<4}"
    and least: "\<forall>p. distinct p \<longrightarrow> set p = {..<4} \<longrightarrow> (False \<longrightarrow> take 1 p = take 1 [0..<4]) \<longrightarrow> pathSeconds four_stops order \<le> pathSeconds four_stops p"
    by auto
  have "set [3, 0, 1, 2] = {..<4::nat}" by auto
  then have "pathSeconds four_stops order \<le> pathSeconds four_stops [3, 0, 1, 2]"
    using least [THEN spec, of "[3, 0, 1, 2]"] by (simp del: pathSeconds_simps)
  also have "\<dots> = 19" by (simp add: four_stops_def)
  finally show ?thesis using o by blast
qed

section \<open>The table of drive times the page keeps\<close>

record matrix_reply =
  mx_code :: string
  mx_message :: "string option"
  mx_durations :: "real option list list option"

definition parseMatrix :: "matrix_reply option \<Rightarrow> nat \<Rightarrow> string + drive_times" where
  "parseMatrix body n =
     (case body of
        None \<Rightarrow> Inl ''Mapbox sent back something that is not a table of drive times.''
      | Some reply \<Rightarrow>
          (let untimed = Inl (case mx_message reply of Some m \<Rightarrow> m | None \<Rightarrow> ''Mapbox could not time the drives ('' @ mx_code reply @ '').'')
           in case mx_durations reply of
                None \<Rightarrow> untimed
              | Some table \<Rightarrow>
                  if mx_code reply \<noteq> ''Ok'' then untimed
                  else if length table \<noteq> n \<or> list_ex (\<lambda>row. length row \<noteq> n) table then Inl ''Mapbox timed a different number of stops.''
                  else Inr (map (\<lambda>from. map (\<lambda>to. if from = to then 0 else case table ! from ! to of None \<Rightarrow> UNREACHABLE_S | Some s \<Rightarrow> s) [0..<n]) [0..<n])))"

definition MAX_MATRIX_STOPS :: nat where "MAX_MATRIX_STOPS = 25"

definition pair_key :: "string \<Rightarrow> string \<Rightarrow> string" where
  "pair_key from to = from @ ''|'' @ to"

type_synonym timed_pairs = "string \<Rightarrow> real option"

definition known_times :: "(lng_lat \<Rightarrow> string) \<Rightarrow> timed_pairs \<Rightarrow> lng_lat list \<Rightarrow> drive_times option" where
  "known_times pointKey pairs coordinates =
     (let keys = map pointKey coordinates
      in those (map (\<lambda>from. those (map (\<lambda>to. if from = to then Some 0 else pairs (pair_key from to)) keys)) keys))"

text \<open>Each pair of different places set in turn; the last one set stays.\<close>

definition remember_times :: "(lng_lat \<Rightarrow> string) \<Rightarrow> lng_lat list \<Rightarrow> drive_times \<Rightarrow> timed_pairs \<Rightarrow> timed_pairs" where
  "remember_times pointKey coordinates table pairs =
     (let keys = map pointKey coordinates; n = length table
      in pairs ++ map_of (rev (concat (map (\<lambda>from. map (\<lambda>to. (pair_key (keys ! from) (keys ! to), table ! from ! to))
           (filter (\<lambda>to. from \<noteq> to) [0..<length (table ! from)])) [0..<n]))))"

datatype timing = Timed drive_times | Untimed string | To_Ask

definition durations_of :: "(lng_lat \<Rightarrow> string) \<Rightarrow> string \<Rightarrow> timed_pairs \<Rightarrow> lng_lat list \<Rightarrow> timing" where
  "durations_of pointKey token pairs coordinates =
     (case known_times pointKey pairs coordinates of
        Some table \<Rightarrow> Timed table
      | None \<Rightarrow>
          if token = [] then Untimed ''There is no Mapbox token to time the drives with.''
          else if MAX_MATRIX_STOPS < length coordinates then Untimed (''Mapbox times at most '' @ string_of_int (int MAX_MATRIX_STOPS) @ '' stops at once.'')
          else To_Ask)"

lemma those_all: "those (map f xs) = (if list_all (\<lambda>x. f x \<noteq> None) xs then Some (map (the \<circ> f) xs) else None)"
  by (induction xs) (auto split: option.split)

lemma pair_key_eq: "CHR ''|'' \<notin> set a \<Longrightarrow> CHR ''|'' \<notin> set a' \<Longrightarrow> pair_key a b = pair_key a' b' \<longleftrightarrow> a = a' \<and> b = b'"
proof -
  assume a: "CHR ''|'' \<notin> set a" "CHR ''|'' \<notin> set a'"
  have "takeWhile (\<lambda>c. c \<noteq> CHR ''|'') (pair_key x y) = x" if "CHR ''|'' \<notin> set x" for x y
    using that by (induction x) (auto simp: pair_key_def)
  then have "pair_key a b = pair_key a' b' \<Longrightarrow> a = a'" using a by metis
  then show ?thesis by (auto simp: pair_key_def)
qed

text \<open>
  A pair once timed is never asked for again. After a table came for some stops, the times of
  any of them, in any order, are known at once, and are the table's.
\<close>

theorem timed_pairs_are_kept:
  assumes "parseMatrix (Some reply) (length coordinates) = Inr table" "distinct (map pointKey coordinates)"
    and "list_all (\<lambda>p. CHR ''|'' \<notin> set (pointKey p)) coordinates" "list_all (\<lambda>i. i < length coordinates) picked"
  shows "durations_of pointKey token (remember_times pointKey coordinates table pairs) (map ((!) coordinates) picked) =
    Timed (map (\<lambda>i. map (\<lambda>j. table ! i ! j) picked) picked)"
proof -
  let ?n = "length coordinates" and ?keys = "map pointKey coordinates"
  obtain raw where t: "table = map (\<lambda>from. map (\<lambda>to. if from = to then 0 else case raw ! from ! to of None \<Rightarrow> UNREACHABLE_S | Some s \<Rightarrow> s) [0..<?n]) [0..<?n]"
    using assms(1) by (auto simp: parseMatrix_def Let_def split: option.splits if_splits)
  have len: "length table = ?n" "\<And>i. i < ?n \<Longrightarrow> length (table ! i) = ?n" and diag: "\<And>i. i < ?n \<Longrightarrow> table ! i ! i = 0"
    by (simp_all add: t)
  let ?list = "concat (map (\<lambda>from. map (\<lambda>to. (pair_key (?keys ! from) (?keys ! to), table ! from ! to))
           (filter (\<lambda>to. from \<noteq> to) [0..<length (table ! from)])) [0..<length table])"
  have bar: "CHR ''|'' \<notin> set (pointKey (coordinates ! i))" if "i < ?n" for i using assms(3) that by (auto simp: list_all_length)
  have keys_eq: "?keys ! i = ?keys ! j \<longleftrightarrow> i = j" if "i < ?n" "j < ?n" for i j
    using nth_eq_iff_index_eq [OF assms(2), of i j] that by simp
  have "map_of (rev ?list) (pair_key (?keys ! i) (?keys ! j)) = Some (table ! i ! j)" if i: "i < ?n" "j < ?n" "i \<noteq> j" for i j
  proof -
    let ?k = "pair_key (?keys ! i) (?keys ! j)"
    have mem: "(?k, v) \<in> set ?list \<longleftrightarrow> v = table ! i ! j" for v
      using i len keys_eq by (auto simp: pair_key_eq bar intro!: bexI [of _ i]) 
    then have "(?k, table ! i ! j) \<in> set ?list" by blast
    then have "?k \<in> fst ` set (rev ?list)" unfolding set_rev by (rule image_eqI [rotated]) (simp only: fst_conv)
    then have "map_of (rev ?list) ?k \<noteq> None" by (simp only: map_of_eq_None_iff not_not)
    then obtain v where v: "map_of (rev ?list) ?k = Some v" by blast
    then have "(?k, v) \<in> set (rev ?list)" by (rule map_of_SomeD)
    then have "(?k, v) \<in> set ?list" by (simp only: set_rev)
    then have "v = table ! i ! j" using mem by blast
    with v show ?thesis by (simp only:)
  qed
  then have look: "(if ?keys ! i = ?keys ! j then Some 0 else remember_times pointKey coordinates table pairs (pair_key (?keys ! i) (?keys ! j))) =
      Some (table ! i ! j)" if "i < ?n" "j < ?n" for i j
    using that keys_eq [OF that] diag by (auto simp: remember_times_def Let_def map_add_Some_iff)
  have "known_times pointKey (remember_times pointKey coordinates table pairs) (map ((!) coordinates) picked) =
    Some (map (\<lambda>i. map (\<lambda>j. table ! i ! j) picked) picked)"
  proof -
    let ?pairs = "remember_times pointKey coordinates table pairs"
    have p: "i < ?n" if "i \<in> set picked" for i using assms(4) that by (simp add: list_all_iff)
    have keys: "map pointKey (map ((!) coordinates) picked) = map ((!) ?keys) picked" using p by simp
    have "known_times pointKey ?pairs (map ((!) coordinates) picked) =
        those (map (\<lambda>i. those (map (\<lambda>j. if ?keys ! i = ?keys ! j then Some 0 else ?pairs (pair_key (?keys ! i) (?keys ! j))) picked)) picked)"
      unfolding known_times_def keys Let_def by (simp only: map_map o_def)
    also have "\<dots> = those (map (\<lambda>i. those (map (\<lambda>j. Some (table ! i ! j)) picked)) picked)"
      using look p by (intro arg_cong [where f = those] map_cong refl) blast+
    also have "\<dots> = Some (map (\<lambda>i. map (\<lambda>j. table ! i ! j) picked) picked)" by (simp add: those_all o_def list_all_iff)
    finally show ?thesis .
  qed
  then show ?thesis by (simp add: durations_of_def)
qed

definition two_timed :: matrix_reply where
  "two_timed = \<lparr>mx_code = ''Ok'', mx_message = None, mx_durations = Some [[Some 0, Some 5], [None, Some 0]]\<rparr>"

definition corner_key :: "lng_lat \<Rightarrow> string" where
  "corner_key p = (if p = (0, 0) then ''a'' else ''b'')"

theorem timed_pairs_are_kept_witness:
  "durations_of corner_key ''pk'' (remember_times corner_key [(0, 0), (1, 1)] [[0, 5], [UNREACHABLE_S, 0]] Map.empty) [(1, 1), (0, 0)] =
    Timed [[0, UNREACHABLE_S], [5, 0]]"
proof -
  have "parseMatrix (Some two_timed) (length [(0 :: real, 0 :: real), (1, 1)]) = Inr [[0, 5], [UNREACHABLE_S, 0]]"
    by (simp add: parseMatrix_def two_timed_def)
  from timed_pairs_are_kept [OF this, of corner_key "[1, 0]" "''pk''" Map.empty] show ?thesis by (simp add: corner_key_def)
qed

end
