(* ===== verification/Csv.thy ===== *)
theory Csv
  imports Prelude
begin

text \<open>
  Files of comma-separated cells: \<open>parseCsv\<close> and \<open>readOfficeSheet\<close> of \<open>web/lib/planning.ts\<close>, and what
  \<open>exportCsv\<close> of \<open>web/components/planning/manual-grouping.ts\<close> writes a cell and a line as. A character
  is one of 8 bits, so that a byte-order mark is none.
\<close>

section \<open>Reading\<close>

abbreviation quote_char :: char where "quote_char \<equiv> CHR 0x22"
abbreviation comma_char :: char where "comma_char \<equiv> CHR 0x2C"
abbreviation cr_char :: char where "cr_char \<equiv> CHR 0x0D"
abbreviation lf_char :: char where "lf_char \<equiv> CHR 0x0A"

text \<open>The loop over the characters: the rows so far, the row, the field and whether it is quoted.\<close>

fun parse_csv :: "string list list \<Rightarrow> string list \<Rightarrow> string \<Rightarrow> bool \<Rightarrow> string \<Rightarrow> string list list" where
  "parse_csv rows row field quoted [] = (if field \<noteq> [] \<or> row \<noteq> [] then rows @ [row @ [field]] else rows)"
| "parse_csv rows row field True (c # cs) =
     (if c = quote_char then
        (case cs of
           d # ds \<Rightarrow> if d = quote_char then parse_csv rows row (field @ [quote_char]) True ds else parse_csv rows row field False cs
         | [] \<Rightarrow> parse_csv rows row field False cs)
      else parse_csv rows row (field @ [c]) True cs)"
| "parse_csv rows row field False (c # cs) =
     (if c = quote_char then parse_csv rows row field True cs
      else if c = comma_char then parse_csv rows (row @ [field]) [] False cs
      else if c = lf_char then parse_csv (rows @ [row @ [field]]) [] [] False cs
      else if c = cr_char then
        (case cs of
           d # ds \<Rightarrow> parse_csv (rows @ [row @ [field]]) [] [] False (if d = lf_char then ds else cs)
         | [] \<Rightarrow> parse_csv (rows @ [row @ [field]]) [] [] False cs)
      else parse_csv rows row (field @ [c]) False cs)"

definition parseCsv :: "string \<Rightarrow> string list list" where
  "parseCsv chars = parse_csv [] [] [] False chars"

record office_row =
  of_address :: string
  of_city :: "string option"
  of_postalCode :: "string option"
  of_details :: string

record office_sheet =
  os_rows :: "office_row list"
  os_skipped :: nat
  os_missing :: "string list"

definition address_columns :: "string list" where
  "address_columns = [''street1'', ''property address'', ''address'', ''street'', ''street address'']"
definition postal_columns :: "string list" where
  "postal_columns = [''zip'', ''zip code'', ''postal code'', ''postcode'']"
definition details_columns :: "string list" where
  "details_columns = [''instruction'', ''instructions'', ''details'', ''visit details'']"

text \<open>\<open>indexOf\<close>, and the first of the names that is a column.\<close>

fun index_of :: "'a \<Rightarrow> 'a list \<Rightarrow> nat option" where
  "index_of x [] = None"
| "index_of x (y # ys) = (if x = y then Some 0 else map_option Suc (index_of x ys))"

definition column_of :: "string list \<Rightarrow> string list \<Rightarrow> nat option" where
  "column_of header names = (case find (\<lambda>name. name \<in> set header) names of None \<Rightarrow> None | Some name \<Rightarrow> index_of name header)"

definition sheet_cell :: "string list \<Rightarrow> nat option \<Rightarrow> string" where
  "sheet_cell row index =
     (case index of None \<Rightarrow> [] | Some i \<Rightarrow> js_trim (if i < length row then row ! i else []))"

definition or_null :: "string \<Rightarrow> string option" where
  "or_null s = (if s = [] then None else Some s)"

definition blank_row :: "string list \<Rightarrow> bool" where
  "blank_row row \<longleftrightarrow> list_all (\<lambda>cell. js_trim cell = []) row"

definition useful_row :: "nat option \<Rightarrow> nat option \<Rightarrow> string list \<Rightarrow> bool" where
  "useful_row address details row \<longleftrightarrow> sheet_cell row address \<noteq> [] \<and> sheet_cell row details \<noteq> []"

definition readOfficeSheet :: "string \<Rightarrow> office_sheet" where
  "readOfficeSheet chars =
     (let table = filter (\<lambda>row. \<not> blank_row row) (parseCsv chars);
          header = map (\<lambda>cell. toLowerCase (js_trim cell)) (case table of [] \<Rightarrow> [] | row # rows \<Rightarrow> row);
          address = column_of header address_columns; city = column_of header [''city''];
          postalCode = column_of header postal_columns; details = column_of header details_columns;
          missing = (if address = None then [''an address column (Street1)''] else []) @
            (if details = None then [''a Details column (Instruction)''] else [])
      in if missing \<noteq> [] then \<lparr>os_rows = [], os_skipped = 0, os_missing = missing\<rparr>
         else
           (let useful = useful_row address details
            in \<lparr>os_rows = map (\<lambda>row. \<lparr>of_address = sheet_cell row address, of_city = or_null (sheet_cell row city),
                    of_postalCode = or_null (sheet_cell row postalCode), of_details = sheet_cell row details\<rparr>) (filter useful (drop 1 table)),
                os_skipped = length (filter (\<lambda>row. \<not> useful row) (drop 1 table)), os_missing = []\<rparr>))"

section \<open>Writing\<close>

definition needs_quotes :: "string \<Rightarrow> bool" where
  "needs_quotes cell \<longleftrightarrow> list_ex (\<lambda>c. c = quote_char \<or> c = comma_char \<or> c = cr_char \<or> c = lf_char) cell \<or>
     (cell \<noteq> [] \<and> (is_space (hd cell) \<or> is_space (last cell)))"

definition double_quotes :: "string \<Rightarrow> string" where
  "double_quotes cell = concat (map (\<lambda>c. if c = quote_char then [quote_char, quote_char] else [c]) cell)"

definition csvCell :: "string \<Rightarrow> string" where
  "csvCell cell = (if needs_quotes cell then quote_char # double_quotes cell @ [quote_char] else cell)"

fun join_with :: "string \<Rightarrow> string list \<Rightarrow> string" where
  "join_with sep [] = []"
| "join_with sep [x] = x"
| "join_with sep (x # y # xs) = x @ sep @ join_with sep (y # xs)"

definition csv_text :: "string list list \<Rightarrow> string" where
  "csv_text lines = join_with [cr_char, lf_char] (map (\<lambda>line. join_with [comma_char] (map csvCell line)) lines) @ [cr_char, lf_char]"

section \<open>What is written is read\<close>

lemma parse_quoted:
  "rest = [] \<or> hd rest \<noteq> quote_char \<Longrightarrow>
   parse_csv rows row field True (double_quotes cell @ quote_char # rest) = parse_csv rows row (field @ cell) False rest"
proof (induction cell arbitrary: field)
  case Nil
  then show ?case by (cases rest) (auto simp: double_quotes_def)
next
  case (Cons c cell)
  then show ?case by (simp add: double_quotes_def)
qed

lemma parse_plain:
  "\<not> list_ex (\<lambda>c. c = quote_char \<or> c = comma_char \<or> c = cr_char \<or> c = lf_char) cell \<Longrightarrow>
   parse_csv rows row field False (cell @ rest) = parse_csv rows row (field @ cell) False rest"
  by (induction cell arbitrary: field) auto

lemma parse_cell:
  "rest = [] \<or> hd rest \<noteq> quote_char \<Longrightarrow> parse_csv rows row [] False (csvCell cell @ rest) = parse_csv rows row cell False rest"
  using parse_quoted [of rest rows row "[]" cell] parse_plain [of cell rows row "[]" rest]
  by (auto simp: csvCell_def needs_quotes_def)

lemma parse_line:
  "line \<noteq> [] \<Longrightarrow> parse_csv rows row [] False (join_with [comma_char] (map csvCell line) @ cr_char # lf_char # rest) =
   parse_csv (rows @ [row @ line]) [] [] False rest"
proof (induction "[comma_char]" line arbitrary: row rule: join_with.induct)
  case (2 x)
  then show ?case by (simp add: parse_cell)
next
  case (3 x y xs)
  then show ?case by (simp add: parse_cell)
qed simp

lemma parse_lines:
  "list_all (\<lambda>line. line \<noteq> []) lines \<Longrightarrow> lines \<noteq> [] \<Longrightarrow> parse_csv rows [] [] False (csv_text lines) = rows @ lines"
proof (induction lines arbitrary: rows)
  case (Cons line lines)
  then show ?case
    using parse_line [of line rows "[]" "case lines of [] \<Rightarrow> [] | _ \<Rightarrow> csv_text lines"]
    by (cases lines) (auto simp: csv_text_def)
qed simp

lemma csv_read:
  assumes "lines \<noteq> []" "list_all (\<lambda>line. line \<noteq> []) lines"
  shows "parseCsv (csv_text lines) = lines"
  using parse_lines [OF assms(2,1), of "[]"] by (simp add: parseCsv_def)

text \<open>
  C23. What is written is read: lines of cells written as a file and read again are those lines, every
  cell as it was, commas, quotes, line breaks and spaces at its ends included.
\<close>

theorem csv_comes_back:
  assumes "lines \<noteq> []" "list_all (\<lambda>line. line \<noteq> []) lines"
  shows "parseCsv (csv_text lines) = lines"
  by (rule csv_read [OF assms])

theorem csv_comes_back_witness:
  "parseCsv (csv_text [[''a,b'', ''say '' @ [quote_char] @ ''hi'' @ [quote_char], ''''], ['' padded'', ''plain'']]) =
    [[''a,b'', ''say '' @ [quote_char] @ ''hi'' @ [quote_char], ''''], ['' padded'', ''plain'']]"
  by (rule csv_comes_back) simp_all

text \<open>
  Every row of the office's sheet is used or counted. When the columns are there, the rows used
  and the rows skipped are the rows of the sheet that say anything, the heading apart, and every row
  used has an address and Details.
\<close>

theorem office_sheet_accounts:
  assumes "os_missing (readOfficeSheet chars) = []"
  shows "length (os_rows (readOfficeSheet chars)) + os_skipped (readOfficeSheet chars) =
      length (filter (\<lambda>row. \<not> blank_row row) (parseCsv chars)) - 1 \<and>
    list_all (\<lambda>row. of_address row \<noteq> [] \<and> of_details row \<noteq> []) (os_rows (readOfficeSheet chars))"
proof
  show "length (os_rows (readOfficeSheet chars)) + os_skipped (readOfficeSheet chars) =
      length (filter (\<lambda>row. \<not> blank_row row) (parseCsv chars)) - 1"
    using assms by (auto simp add: readOfficeSheet_def Let_def sum_length_filter_compl split: if_split_asm)
  show "list_all (\<lambda>row. of_address row \<noteq> [] \<and> of_details row \<noteq> []) (os_rows (readOfficeSheet chars))"
    using assms by (auto simp add: readOfficeSheet_def Let_def list_all_iff useful_row_def split: if_split_asm)
qed

definition small_sheet :: string where
  "small_sheet = ''Street1,Details'' @ [lf_char] @ ''A,Key'' @ [lf_char] @ ''B,'' @ [lf_char] @ '',''"

theorem office_sheet_accounts_witness:
  "length (os_rows (readOfficeSheet small_sheet)) + os_skipped (readOfficeSheet small_sheet) = 2"
proof -
  have "os_missing (readOfficeSheet small_sheet) = []" by code_simp
  moreover have "length (filter (\<lambda>row. \<not> blank_row row) (parseCsv small_sheet)) = 3" by code_simp
  ultimately show ?thesis using office_sheet_accounts [of small_sheet] by simp
qed

end
