(* ===== verification/Outline.thy ===== *)
theory Outline
  imports Geo "HOL-Library.Product_Lexorder"
begin

text \<open>
  The outline of a group on the map: \<open>groupOutline\<close> and \<open>convexHull\<close> of
  \<open>web/components/planning/group-file.ts\<close>, Andrew's monotone chain, over exact reals.
\<close>

record spot =
  sp_x :: real
  sp_y :: real
  sp_point :: point

definition turn :: "spot \<Rightarrow> spot \<Rightarrow> spot \<Rightarrow> real" where
  "turn origin a b =
     (sp_x a - sp_x origin) * (sp_y b - sp_y origin) - (sp_y a - sp_y origin) * (sp_x b - sp_x origin)"

text \<open>The chain has its last corner first; \<open>pop_chain\<close> is the loop that takes corners off.\<close>

fun pop_chain :: "spot list \<Rightarrow> spot \<Rightarrow> spot list" where
  "pop_chain (b # a # chain) q = (if turn a b q \<le> 0 then pop_chain (a # chain) q else b # a # chain)"
| "pop_chain [] q = []"
| "pop_chain [a] q = [a]"

definition chain_of :: "spot list \<Rightarrow> spot list" where
  "chain_of ordered = foldl (\<lambda>chain q. q # pop_chain chain q) [] ordered"

definition half_hull :: "spot list \<Rightarrow> spot list" where
  "half_hull ordered = rev (tl (chain_of ordered))"

definition convexHull :: "spot list \<Rightarrow> spot list" where
  "convexHull points =
     (let ordered = sort_key (\<lambda>p. (sp_x p, sp_y p)) points
      in if length ordered < 3 then ordered else half_hull ordered @ half_hull (rev ordered))"

definition outline_scale :: "point list \<Rightarrow> real" where
  "outline_scale points = cos ((case points of [] \<Rightarrow> 0 | p # ps \<Rightarrow> latitude p) * pi / 180)"

definition groupOutline :: "point list \<Rightarrow> (real \<times> real) list" where
  "groupOutline points =
     (let scale = outline_scale points;
          corners = convexHull (map (\<lambda>p. \<lparr>sp_x = longitude p * scale, sp_y = latitude p, sp_point = p\<rparr>) (uniq points));
          ring = map (\<lambda>corner. (longitude (sp_point corner), latitude (sp_point corner))) corners
      in if 3 \<le> length ring then ring @ [hd ring] else ring)"

section \<open>A sweep over the points\<close>

definition cross :: "real \<Rightarrow> real \<Rightarrow> real \<Rightarrow> real \<Rightarrow> real" where
  "cross a b c d = a * d - b * c"

lemma turn_from: "turn a b p = cross (sp_x b - sp_x a) (sp_y b - sp_y a) (sp_x p - sp_x a) (sp_y p - sp_y a)"
  by (simp add: turn_def cross_def)

lemma turn_on: "turn a b p = cross (sp_x b - sp_x a) (sp_y b - sp_y a) (sp_x p - sp_x b) (sp_y p - sp_y b)"
  by (simp add: turn_def cross_def algebra_simps)

lemma turn_same [simp]: "turn a b a = 0" "turn a b b = 0" "turn a a b = 0"
  by (simp_all add: turn_def)

text \<open>From each corner to the next.\<close>

fun edges :: "'a list \<Rightarrow> ('a \<times> 'a) list" where
  "edges (a # b # cs) = (a, b) # edges (b # cs)"
| "edges cs = []"

lemma edges_append: "edges (xs @ y # ys) = edges (xs @ [y]) @ edges (y # ys)"
  by (induction xs rule: edges.induct) auto

lemma edges_map: "edges (map f xs) = map (\<lambda>(a, b). (f a, f b)) (edges xs)"
  by (induction xs rule: edges.induct) auto

lemma edges_in: "(a, b) \<in> set (edges xs) \<Longrightarrow> a \<in> set xs \<and> b \<in> set xs"
  by (induction xs rule: edges.induct) auto

lemma edges_rev: "(b, a) \<in> set (edges (rev xs)) \<longleftrightarrow> (a, b) \<in> set (edges xs)"
proof (induction xs rule: edges.induct)
  case (1 a' b' cs)
  then show ?case using edges_append [of "rev cs" b' "[a']"] by auto
qed auto

text \<open>The directions a sweep goes in: half of the plane, without the origin.\<close>

locale sweep =
  fixes ahead :: "real \<Rightarrow> real \<Rightarrow> bool"
  assumes add: "ahead a b \<Longrightarrow> ahead c d \<Longrightarrow> ahead (a + c) (b + d)"
    and scale: "0 < t \<Longrightarrow> ahead a b \<Longrightarrow> ahead (t * a) (t * b)"
    and opposite: "ahead a b \<Longrightarrow> \<not> ahead (- a) (- b)"
    and total: "ahead a b \<or> ahead (- a) (- b) \<or> a = 0 \<and> b = 0"
begin

lemma not_zero: "\<not> ahead 0 0"
  using opposite [of 0 0] by auto

lemma combination: "0 \<le> s \<Longrightarrow> 0 \<le> t \<Longrightarrow> ahead a b \<Longrightarrow> ahead c d \<Longrightarrow> s = 0 \<and> t = 0 \<or> ahead (s * a + t * c) (s * b + t * d)"
  using scale [of s a b] scale [of t c d] add [of "s * a" "s * b" "t * c" "t * d"]
  by (cases "s = 0"; cases "t = 0") auto

text \<open>Turning left and left again, within the half plane, is turning left.\<close>

lemma left_left:
  assumes "ahead a b" "ahead c d" "ahead e f" "0 \<le> cross a b c d" "0 \<le> cross c d e f"
  shows "0 \<le> cross a b e f" "0 < cross a b c d \<or> 0 < cross c d e f \<Longrightarrow> 0 < cross a b e f"
proof -
  have eq: "cross c d e f * a + cross a b c d * e = cross a b e f * c" "cross c d e f * b + cross a b c d * f = cross a b e f * d"
    by (simp_all add: cross_def algebra_simps)
  have comb: "cross c d e f = 0 \<and> cross a b c d = 0 \<or> ahead (cross a b e f * c) (cross a b e f * d)"
    using combination [OF assms(5,4) assms(1,3)] by (simp add: eq)
  have pos: "ahead (cross a b e f * c) (cross a b e f * d) \<Longrightarrow> 0 < cross a b e f"
  proof (rule ccontr)
    assume *: "ahead (cross a b e f * c) (cross a b e f * d)" "\<not> 0 < cross a b e f"
    then show False using not_zero scale [of "- cross a b e f" c d, OF _ assms(2)] opposite [OF *(1)]
      by (cases "cross a b e f = 0") auto
  qed
  show strict: "0 < cross a b c d \<or> 0 < cross c d e f \<Longrightarrow> 0 < cross a b e f" using comb pos by auto
  have "cross a b e f = 0" if "cross c d e f = 0" "cross a b c d = 0"
  proof -
    have "cross a b e f * c = 0" "cross a b e f * d = 0" using eq that by auto
    then show ?thesis using assms(2) not_zero by auto
  qed
  then show "0 \<le> cross a b e f" using comb pos by fastforce
qed

definition after :: "spot \<Rightarrow> spot \<Rightarrow> bool" where
  "after p q \<longleftrightarrow> ahead (sp_x q - sp_x p) (sp_y q - sp_y p)"

lemma after_trans: "after p q \<Longrightarrow> after q r \<Longrightarrow> after p r"
  using add [of "sp_x q - sp_x p" "sp_y q - sp_y p" "sp_x r - sp_x q" "sp_y r - sp_y q"] by (simp add: after_def)

lemma after_total: "after p q \<or> after q p \<or> sp_x p = sp_x q \<and> sp_y p = sp_y q"
  using total [of "sp_x q - sp_x p" "sp_y q - sp_y p"] by (auto simp: after_def)

lemma after_asym: "after p q \<Longrightarrow> \<not> after q p"
  using opposite [of "sp_x q - sp_x p" "sp_y q - sp_y p"] by (simp add: after_def)

lemma later_edge:
  assumes "after o' a" "after a b" "after b q" "0 < turn o' a b" "0 < turn a b q"
  shows "0 < turn o' a q"
proof -
  have "0 < cross (sp_x a - sp_x o') (sp_y a - sp_y o') (sp_x q - sp_x b) (sp_y q - sp_y b)"
    using left_left(2) [OF assms(1-3) [unfolded after_def]] assms(4,5) by (simp add: turn_on)
  moreover have "turn o' a q = turn o' a b + cross (sp_x a - sp_x o') (sp_y a - sp_y o') (sp_x q - sp_x b) (sp_y q - sp_y b)"
    by (simp add: turn_def cross_def algebra_simps)
  ultimately show ?thesis using assms(4) by simp
qed

lemma popped_head:
  assumes "after a b" "after b q" "turn a b q \<le> 0" "0 \<le> turn a b p" "\<not> after p a"
    and "\<not> after p b \<Longrightarrow> 0 \<le> turn b q p"
  shows "0 \<le> turn a q p"
proof (cases "after p b")
  case False
  have "turn a q p = turn a b p - turn a b q + turn b q p" by (simp add: turn_def algebra_simps)
  then show ?thesis using assms(3,4,6) False by simp
next
  case True
  show ?thesis
  proof (cases "after a p")
    case True
    have "0 \<le> cross (sp_x q - sp_x a) (sp_y q - sp_y a) (sp_x b - sp_x a) (sp_y b - sp_y a)"
      using assms(3) by (simp add: turn_def cross_def algebra_simps)
    moreover have "0 \<le> cross (sp_x b - sp_x a) (sp_y b - sp_y a) (sp_x p - sp_x a) (sp_y p - sp_y a)"
      using assms(4) by (simp add: turn_from)
    ultimately show ?thesis
      using left_left(1) [of "sp_x q - sp_x a" "sp_y q - sp_y a" "sp_x b - sp_x a" "sp_y b - sp_y a" "sp_x p - sp_x a" "sp_y p - sp_y a"]
        after_trans [OF assms(1,2)] assms(1) True by (simp add: after_def turn_from)
  next
    case False
    then have "sp_x p = sp_x a" "sp_y p = sp_y a" using after_total [of p a] assms(5) by auto
    then show ?thesis by (simp add: turn_def)
  qed
qed

lemma kept_head:
  assumes "after a b" "after b q" "0 < turn a b q" "0 \<le> turn a b p" "after p b"
  shows "0 \<le> turn b q p"
proof -
  have "0 \<le> cross (sp_x b - sp_x p) (sp_y b - sp_y p) (sp_x b - sp_x a) (sp_y b - sp_y a)"
    using assms(4) by (simp add: turn_def cross_def algebra_simps)
  moreover have "0 \<le> cross (sp_x b - sp_x a) (sp_y b - sp_y a) (sp_x q - sp_x b) (sp_y q - sp_y b)"
    using assms(3) by (simp add: turn_on)
  ultimately have "0 \<le> cross (sp_x b - sp_x p) (sp_y b - sp_y p) (sp_x q - sp_x b) (sp_y q - sp_y b)"
    by (rule left_left(1) [OF assms(5) [unfolded after_def] assms(1,2) [unfolded after_def]])
  then show ?thesis by (simp add: turn_def cross_def algebra_simps)
qed

text \<open>A chain below all the points of a set: every edge has them on its left, every corner is one.\<close>

fun below :: "spot set \<Rightarrow> spot list \<Rightarrow> bool" where
  "below S (b # a # chain) \<longleftrightarrow> after a b \<and> (\<forall>p\<in>S. 0 \<le> turn a b p) \<and>
     (case chain of [] \<Rightarrow> True | o' # rest \<Rightarrow> 0 < turn o' a b) \<and> below S (a # chain)"
| "below S [a] \<longleftrightarrow> (\<forall>p\<in>S. \<not> after p a)"
| "below S [] \<longleftrightarrow> S = {}"

lemma below_popped:
  assumes "below S chain" "chain \<noteq> []" "set chain \<subseteq> S" "\<And>p. p \<in> S \<Longrightarrow> after p q"
    and "\<And>p. p \<in> S \<Longrightarrow> \<not> after p (hd chain) \<Longrightarrow> 0 \<le> turn (hd chain) q p"
  shows "below (insert q S) (q # pop_chain chain q)"
  using assms
proof (induction chain q rule: pop_chain.induct)
  case (1 b a chain q)
  note below = 1(2) [simplified]
  have ba: "after a b" "after b q" using below 1(4,5) by auto
  show ?case
  proof (cases "turn a b q \<le> 0")
    case True
    have "0 \<le> turn a q p" if "p \<in> S" "\<not> after p a" for p
      by (rule popped_head [OF ba True _ that(2)]) (use below that 1(6) in auto)
    then show ?thesis using 1(1) [OF True] below 1(4,5) True by simp
  next
    case False
    have edges: "below (insert q S) (b # a # chain)" if "below S (b # a # chain)" "after b q" "0 < turn a b q"
      for b a chain using that
    proof (induction chain arbitrary: a b)
      case Nil
      then show ?case using after_asym [of a q] after_trans [of a b q] by auto
    next
      case (Cons o' chain)
      then have *: "after o' a" "after a b" "0 < turn o' a b" "below S (a # o' # chain)" by auto
      then have "0 < turn o' a q" "after a q" using later_edge Cons.prems after_trans by blast+
      with Cons.IH [OF *(4)] Cons.prems show ?case by (simp del: below.simps add: below.simps(1))
    qed
    have "below (insert q S) (b # a # chain)" by (rule edges [OF 1(2) ba(2)]) (use False in simp)
    moreover have "0 \<le> turn b q p" if "p \<in> S" for p
      using kept_head [OF ba] False below 1(6) that by (cases "after p b") auto
    ultimately show ?thesis using ba False by simp
  qed
next
  case (3 a q)
  then have a: "after a q" "\<forall>p\<in>S. \<not> after p a" by auto
  have "\<not> after q a" by (rule after_asym [OF a(1)])
  then show ?case using a 3 by auto
qed simp

lemma below_edge: "below S chain \<Longrightarrow> (b, a) \<in> set (edges chain) \<Longrightarrow> after a b \<and> (\<forall>p\<in>S. 0 \<le> turn a b p)"
  by (induction chain rule: edges.induct) auto

lemma pop_chain_parts:
  "chain \<noteq> [] \<Longrightarrow> pop_chain chain q \<noteq> [] \<and> last (pop_chain chain q) = last chain \<and> set (pop_chain chain q) \<subseteq> set chain"
  by (induction chain q rule: pop_chain.induct) auto

lemma chain_below:
  assumes "sorted_wrt after ordered" "ordered \<noteq> []"
  shows "below (set ordered) (chain_of ordered) \<and> chain_of ordered \<noteq> [] \<and> set (chain_of ordered) \<subseteq> set ordered \<and>
    hd (chain_of ordered) = last ordered \<and> last (chain_of ordered) = hd ordered"
  using assms
proof (induction ordered rule: rev_induct)
  case (snoc q ordered)
  show ?case
  proof (cases "ordered = []")
    case True
    then show ?thesis using after_asym by (auto simp: chain_of_def)
  next
    case False
    let ?chain = "chain_of ordered"
    have IH: "below (set ordered) ?chain" "?chain \<noteq> []" "set ?chain \<subseteq> set ordered" "hd ?chain = last ordered" "last ?chain = hd ordered"
      using snoc False by (auto simp: sorted_wrt_append)
    obtain init z where z: "ordered = init @ [z]" using False by (cases ordered rule: rev_cases) auto
    have before: "p = last ordered \<or> after p (last ordered)" if "p \<in> set ordered" for p
      using that snoc.prems(1) by (auto simp: z sorted_wrt_append)
    have "below (insert q (set ordered)) (q # pop_chain ?chain q)"
    proof (rule below_popped [OF IH(1-3)])
      show "after p q" if "p \<in> set ordered" for p using snoc.prems(1) that by (simp add: sorted_wrt_append)
      show "0 \<le> turn (hd ?chain) q p" if "p \<in> set ordered" "\<not> after p (hd ?chain)" for p
        using before [OF that(1)] that(2) by (auto simp: IH(4))
    qed
    then show ?thesis using pop_chain_parts [OF IH(2), of q] IH False by (auto simp: chain_of_def)
  qed
qed simp

end

section \<open>Westwards and eastwards\<close>

definition east :: "real \<Rightarrow> real \<Rightarrow> bool" where
  "east dx dy \<longleftrightarrow> 0 < dx \<or> dx = 0 \<and> 0 < dy"

definition west :: "real \<Rightarrow> real \<Rightarrow> bool" where
  "west dx dy \<longleftrightarrow> east (- dx) (- dy)"

interpretation eastwards: sweep east
  by unfold_locales (auto simp: east_def)

interpretation westwards: sweep west
  by unfold_locales (auto simp: west_def east_def mult_less_0_iff zero_less_mult_iff)

lemma westwards_after: "westwards.after p q \<longleftrightarrow> eastwards.after q p"
  by (simp add: westwards.after_def eastwards.after_def west_def)

abbreviation place :: "spot \<Rightarrow> real \<times> real" where
  "place p \<equiv> (sp_x p, sp_y p)"

lemma eastwards_after: "eastwards.after p q \<longleftrightarrow> place p < place q"
  by (auto simp: eastwards.after_def east_def)

lemma eastwards_sorted:
  assumes "distinct (map place points)"
  shows "sorted_wrt eastwards.after (sort_key place points)"
proof -
  have "sorted (map place (sort_key place points))" by simp
  moreover have "distinct (map place (sort_key place points))"
    using assms by (simp add: distinct_map)
  ultimately have "sorted_wrt (<) (map place (sort_key place points))" by (simp add: strict_sorted_iff)
  then show ?thesis by (simp add: sorted_wrt_map eastwards_after [abs_def])
qed

text \<open>The ring of a sorted row of points, closed: the edges of the two chains, read backwards.\<close>

lemma hull_ring:
  fixes ordered :: "spot list"
  defines "lower \<equiv> chain_of ordered" and "upper \<equiv> chain_of (rev ordered)"
  assumes "sorted_wrt eastwards.after ordered" "2 \<le> length ordered"
  shows "edges (half_hull ordered @ half_hull (rev ordered) @ [hd (half_hull ordered @ half_hull (rev ordered))]) = edges (rev lower) @ edges (rev upper)"
    and "hd (half_hull ordered @ half_hull (rev ordered)) = hd ordered" "last ordered \<in> set (half_hull (rev ordered))"
    and "eastwards.below (set ordered) lower" "westwards.below (set ordered) upper"
    and "set (half_hull ordered @ half_hull (rev ordered)) \<subseteq> set ordered"
proof -
  have ne: "ordered \<noteq> []" using assms(4) by auto
  have "sorted_wrt westwards.after (rev ordered)" using assms(3) by (simp add: sorted_wrt_rev westwards_after [abs_def])
  note l = eastwards.chain_below [OF assms(3) ne, folded lower_def]
    and u = westwards.chain_below [OF this, folded upper_def, simplified hd_rev last_rev set_rev rev_is_Nil_conv, OF ne]
  have "hd ordered \<noteq> last ordered"
  proof (cases ordered)
    case (Cons a rest)
    have rest: "rest \<noteq> []" using assms(4) Cons by auto
    then have "eastwards.after a (last rest)" using assms(3) last_in_set [OF rest] Cons by auto
    then show ?thesis using eastwards.after_asym [of a a] rest by (auto simp: Cons)
  qed (use ne in simp)
  obtain m ls where lower: "lower = m # ls" using l by (cases lower) auto
  obtain n us where upper: "upper = n # us" using u by (cases upper) auto
  have ls: "ls \<noteq> []" "last ls = hd ordered" "m = last ordered"
    using l \<open>hd ordered \<noteq> last ordered\<close> by (auto simp: lower split: if_splits)
  have us: "us \<noteq> []" "last us = last ordered" "n = hd ordered"
    using u \<open>hd ordered \<noteq> last ordered\<close> by (auto simp: upper split: if_splits)
  have half: "half_hull ordered = rev ls" "half_hull (rev ordered) = rev us"
    by (simp_all add: half_hull_def lower_def [symmetric] upper_def [symmetric] lower upper)
  show first: "hd (half_hull ordered @ half_hull (rev ordered)) = hd ordered" using ls by (simp add: half hd_rev)
  show "last ordered \<in> set (half_hull (rev ordered))" using us last_in_set [OF us(1)] by (simp add: half)
  show "eastwards.below (set ordered) lower" "westwards.below (set ordered) upper" using l u by auto
  show "set (half_hull ordered @ half_hull (rev ordered)) \<subseteq> set ordered" using l u by (auto simp: half lower upper)
  obtain vs where vs: "rev us = m # vs" using us ls by (metis hd_rev list.collapse rev_is_Nil_conv)
  have "half_hull ordered @ half_hull (rev ordered) @ [hd ordered] = rev ls @ m # (vs @ [n])" by (simp add: half vs us)
  moreover have "rev lower = rev ls @ [m]" "rev upper = m # (vs @ [n])" by (simp_all add: lower upper vs)
  ultimately show "edges (half_hull ordered @ half_hull (rev ordered) @ [hd (half_hull ordered @ half_hull (rev ordered))]) = edges (rev lower) @ edges (rev upper)"
    unfolding first by (simp only: edges_append [of "rev ls" m "vs @ [n]"])
qed

lemma sorted_between: "sorted xs \<Longrightarrow> x \<in> set xs \<Longrightarrow> hd xs \<le> x \<and> x \<le> last xs"
proof
  show "sorted xs \<Longrightarrow> x \<in> set xs \<Longrightarrow> hd xs \<le> x" by (cases xs) auto
  show "sorted xs \<Longrightarrow> x \<in> set xs \<Longrightarrow> x \<le> last xs" by (cases xs rule: rev_cases) (auto simp: sorted_append)
qed

lemma convexHull_holds:
  assumes "distinct (map place points)" "points \<noteq> []"
  shows "set (convexHull points) \<subseteq> set points" "convexHull points \<noteq> []"
    and "(a, b) \<in> set (edges (convexHull points @ [hd (convexHull points)])) \<Longrightarrow> p \<in> set points \<Longrightarrow> 0 \<le> turn a b p"
    and "p \<in> set points \<Longrightarrow> place (hd (convexHull points)) \<le> place p \<and> (\<exists>q\<in>set (convexHull points). place p \<le> place q)"
proof -
  define ordered where "ordered = sort_key place points"
  have so: "sorted_wrt eastwards.after ordered" unfolding ordered_def by (rule eastwards_sorted [OF assms(1)])
  have set: "set ordered = set points" "length ordered = length points" by (simp_all add: ordered_def)
  have least: "place (hd ordered) \<le> place p \<and> place p \<le> place (last ordered)" if "p \<in> set ordered" for p
  proof -
    have "sorted (map place ordered)" by (simp add: ordered_def)
    moreover have "ordered \<noteq> []" using that by auto
    ultimately have "sorted (map place ordered)" "ordered \<noteq> []" by auto
    then show ?thesis using sorted_between [of "map place ordered" "place p"] that by (simp add: hd_map last_map)
  qed
  consider (one) q where "ordered = [q]" | (two) q r where "ordered = [q, r]" | (more) "3 \<le> length ordered"
  proof -
    have "ordered \<noteq> []" using assms(2) set(2) by auto
    then obtain q rest where q: "ordered = q # rest" by (cases ordered) auto
    then show ?thesis using that by (cases rest; cases "tl rest") auto
  qed
  then have "set (convexHull points) \<subseteq> set points \<and> convexHull points \<noteq> [] \<and>
    (\<forall>(a, b)\<in>set (edges (convexHull points @ [hd (convexHull points)])). \<forall>p\<in>set points. 0 \<le> turn a b p) \<and>
    (\<forall>p\<in>set points. place (hd (convexHull points)) \<le> place p \<and> (\<exists>q\<in>set (convexHull points). place p \<le> place q))"
  proof cases
    case more
    then have "2 \<le> length ordered" by simp
    note ring = hull_ring [OF so this]
    have hull: "convexHull points = half_hull ordered @ half_hull (rev ordered)"
      using more by (simp add: convexHull_def Let_def ordered_def [symmetric])
    have "0 \<le> turn a b p" if "(a, b) \<in> set (edges (convexHull points @ [hd (convexHull points)]))" "p \<in> set points" for a b p
      using that eastwards.below_edge [OF ring(4), of b a] westwards.below_edge [OF ring(5), of b a]
      by (auto simp: hull ring(1) edges_rev set)
    moreover have "place (hd (convexHull points)) \<le> place p \<and> (\<exists>q\<in>set (convexHull points). place p \<le> place q)" if "p \<in> set points" for p
      using least [of p] ring(2,3) that by (auto simp: hull set)
    moreover have "convexHull points \<noteq> []" using ring(3) by (auto simp: hull)
    ultimately show ?thesis using ring(6) by (fastforce simp: hull set)
  next
    case (one q)
    then have "convexHull points = [q]" by (simp add: convexHull_def Let_def ordered_def [symmetric])
    then show ?thesis unfolding set(1) [symmetric] one by simp
  next
    case (two q r)
    then have "convexHull points = [q, r]" by (simp add: convexHull_def Let_def ordered_def [symmetric])
    moreover have "place q \<le> place r" using least [of r] two by (simp del: less_eq_prod_simp)
    ultimately show ?thesis unfolding set(1) [symmetric] two by (simp del: less_eq_prod_simp)
  qed
  then show "set (convexHull points) \<subseteq> set points" "convexHull points \<noteq> []"
    and "(a, b) \<in> set (edges (convexHull points @ [hd (convexHull points)])) \<Longrightarrow> p \<in> set points \<Longrightarrow> 0 \<le> turn a b p"
    and "p \<in> set points \<Longrightarrow> place (hd (convexHull points)) \<le> place p \<and> (\<exists>q\<in>set (convexHull points). place p \<le> place q)"
    by auto
qed

section \<open>The outline\<close>

text \<open>Positive when \<open>p\<close> lies on the left of the way from \<open>a\<close> to \<open>b\<close>, longitude before latitude.\<close>

definition left_of :: "real \<times> real \<Rightarrow> real \<times> real \<Rightarrow> real \<times> real \<Rightarrow> real" where
  "left_of a b p = (fst b - fst a) * (snd p - snd a) - (snd b - snd a) * (fst p - fst a)"

definition lng_lat_of :: "point \<Rightarrow> real \<times> real" where
  "lng_lat_of p = (longitude p, latitude p)"

text \<open>
  C31. A group's outline holds every property of the group. Its corners are properties; going round
  it, no property is ever on the right, and none is west of its first corner or east of them all, so
  that an outline of two corners is a line with every property on it, and of one a single spot.
\<close>

theorem outline_holds_every_property:
  assumes "points \<noteq> []" "\<bar>latitude (hd points)\<bar> < 90" "outline = groupOutline points"
  shows "set outline \<subseteq> lng_lat_of ` set points \<and>
    list_all (\<lambda>(a, b). list_all (\<lambda>p. 0 \<le> left_of a b (lng_lat_of p)) points) (edges (outline @ [hd outline])) \<and>
    list_all (\<lambda>p. hd outline \<le> lng_lat_of p \<and> list_ex (\<lambda>q. lng_lat_of p \<le> q) outline) points"
proof -
  define scale where "scale = outline_scale points"
  define spot where "spot = (\<lambda>p. \<lparr>sp_x = longitude p * scale, sp_y = latitude p, sp_point = p\<rparr>)"
  define corners where "corners = convexHull (map spot (uniq points))"
  define pos where "pos = (\<lambda>s :: spot. lng_lat_of (sp_point s))"
  have scale: "0 < scale"
  proof -
    obtain p ps where p: "points = p # ps" using assms(1) by (cases points) auto
    have "latitude p / 180 < 1 / 2" "- (1 / 2) < latitude p / 180" using assms(2) by (auto simp: p)
    then have "latitude p / 180 * pi < 1 / 2 * pi" "- (1 / 2) * pi < latitude p / 180 * pi"
      using pi_gt_zero by (simp_all only: mult_strict_right_mono)
    then have "0 < cos (latitude p * pi / 180)" by (intro cos_gt_zero_pi) simp_all
    then show ?thesis by (simp add: scale_def outline_scale_def p)
  qed
  have distinct: "distinct (map place (map spot (uniq points)))"
    using scale by (auto simp: distinct_map inj_on_def spot_def comp_def)
  have ne: "map spot (uniq points) \<noteq> []" using assms(1) by (cases points) auto
  note hull = convexHull_holds [OF distinct ne, folded corners_def]
  have is_spot: "sp_x s = longitude (sp_point s) * scale \<and> sp_y s = latitude (sp_point s)" "sp_point s \<in> set points"
    if "s \<in> set corners" for s using hull(1) that by (auto simp: spot_def)
  define ring where "ring = map pos corners"
  have ring: "ring \<noteq> []" "hd ring = pos (hd corners)" using hull(2) by (simp_all add: ring_def hd_map)
  have outline: "outline = (if 3 \<le> length ring then ring @ [hd ring] else ring)"
    by (simp add: assms(3) groupOutline_def Let_def ring_def pos_def lng_lat_of_def [abs_def] corners_def spot_def scale_def)
  then have same: "set outline = set ring" "hd outline = hd ring" using ring(1) by auto
  have "edges (ring @ [hd ring, hd ring]) = edges (ring @ [hd ring]) @ [(hd ring, hd ring)]"
    using edges_append [of ring "hd ring" "[hd ring]"] by simp
  then have edges: "set (edges (outline @ [hd outline])) \<subseteq> insert (hd ring, hd ring) (set (edges (ring @ [hd ring])))"
    using same outline by auto
  have left: "0 \<le> left_of (pos a) (pos b) (lng_lat_of p)"
    if "(a, b) \<in> set (edges (corners @ [hd corners]))" "p \<in> set points" for a b p
  proof -
    have "a \<in> set corners" "b \<in> set corners" using edges_in [OF that(1)] hull(2) by auto
    then have "turn a b (spot p) = scale * left_of (pos a) (pos b) (lng_lat_of p)"
      using is_spot(1) [of a] is_spot(1) [of b]
      by (simp add: turn_def left_of_def pos_def lng_lat_of_def spot_def) (simp add: algebra_simps)
    moreover have "0 \<le> turn a b (spot p)" using hull(3) [OF that(1)] that(2) by simp
    ultimately show ?thesis using scale by (simp add: zero_le_mult_iff)
  qed
  have order: "place (spot p) \<le> place (spot q) \<longleftrightarrow> lng_lat_of p \<le> lng_lat_of q" for p q
    using scale by (simp add: spot_def lng_lat_of_def)
  have at_spot: "place s = place (spot (sp_point s))" if "s \<in> set corners" for s
    using is_spot(1) [OF that] by (simp add: spot_def)
  have "set outline \<subseteq> lng_lat_of ` set points" using is_spot(2) by (auto simp: same ring_def pos_def)
  moreover have "0 \<le> left_of a b (lng_lat_of p)" if "(a, b) \<in> set (edges (outline @ [hd outline]))" "p \<in> set points" for a b p
  proof -
    have "edges (ring @ [hd ring]) = map (\<lambda>(a, b). (pos a, pos b)) (edges (corners @ [hd corners]))"
      using hull(2) by (simp add: ring_def edges_map [symmetric] hd_map)
    then show ?thesis using that edges left by (force simp: left_of_def)
  qed
  moreover have "hd outline \<le> lng_lat_of p \<and> (\<exists>q\<in>set outline. lng_lat_of p \<le> q)" if "p \<in> set points" for p
  proof -
    have "spot p \<in> set (map spot (uniq points))" using that by simp
    then obtain q where q: "place (hd corners) \<le> place (spot p)" "q \<in> set corners" "place (spot p) \<le> place q"
      using hull(4) by blast
    show ?thesis
      using q(1,3) order [of p "sp_point q"] order [of "sp_point (hd corners)" p] q(2)
      unfolding at_spot [OF q(2)] at_spot [OF hd_in_set [OF hull(2)]] same ring(2) by (auto simp: ring_def pos_def simp del: less_eq_prod_simp)
  qed
  ultimately show ?thesis by (auto simp: list_all_iff list_ex_iff)
qed

definition five_properties :: "point list" where
  "five_properties = map (\<lambda>(x, y). \<lparr>latitude = y, longitude = x\<rparr>) [(1, 0), (0, 2), (1, 1), (2, 2), (0, 0)]"

lemma outline_of_five: "groupOutline five_properties = [(0, 0), (1, 0), (2, 2), (0, 2), (0, 0)]"
  by (simp add: groupOutline_def five_properties_def outline_scale_def convexHull_def half_hull_def chain_of_def turn_def Let_def)

theorem outline_holds_every_property_witness: "0 \<le> left_of (1, 0) (2, 2) (1, 1)"
proof -
  have "five_properties \<noteq> []" "\<bar>latitude (hd five_properties)\<bar> < 90" by (simp_all add: five_properties_def)
  note holds = outline_holds_every_property [OF this outline_of_five [symmetric]]
  then have "list_all (\<lambda>p. 0 \<le> left_of (1, 0) (2, 2) (lng_lat_of p)) five_properties" by simp
  then show ?thesis by (simp add: five_properties_def lng_lat_of_def)
qed

end
