(* ===== verification/Group_Colors.thy ===== *)
theory Group_Colors
  imports Outline
begin

text \<open>
  The colours of the groups on the map: the second half of \<open>web/components/planning/group-file.ts\<close>
  (OKLab, the choice of distinct colours, one colour to a group with neighbours kept apart), and
  \<open>metresBetween\<close> of \<open>plan-groups.ts\<close>. Over exact reals.
\<close>

section \<open>Colours\<close>

record lab =
  lab_l :: real
  lab_a :: real
  lab_b :: real

record group_color =
  gc_fill :: string
  gc_ink :: string

definition linearRgb :: "lab \<Rightarrow> real list" where
  "linearRgb c =
     (let long = (lab_l c + 0.3963377774 * lab_a c + 0.2158037573 * lab_b c) ^ 3;
          medium = (lab_l c - 0.1055613458 * lab_a c - 0.0638541728 * lab_b c) ^ 3;
          short = (lab_l c - 0.0894841775 * lab_a c - 1.291485548 * lab_b c) ^ 3
      in [4.0767416621 * long - 3.3077115913 * medium + 0.2309699292 * short,
          - 1.2684380046 * long + 2.6097574011 * medium - 0.3413193965 * short,
          - 0.0041960863 * long - 0.7034186147 * medium + 1.707614701 * short])"

definition inGamut :: "real list \<Rightarrow> bool" where
  "inGamut rgb \<longleftrightarrow> list_all (\<lambda>channel. - 0.0001 \<le> channel \<and> channel \<le> 1 + 0.0001) rgb"

definition hex_digit :: "nat \<Rightarrow> char" where
  "hex_digit n = char_of (if n < 10 then 48 + n else 87 + n)"

text \<open>\<open>toString(16).padStart(2, '0')\<close> of a number from 0 to 255.\<close>

definition hex_byte :: "nat \<Rightarrow> string" where
  "hex_byte n = [hex_digit (n div 16), hex_digit (n mod 16)]"

definition clamped :: "real \<Rightarrow> real" where
  "clamped channel = min 1 (max 0 channel)"

definition hex_of :: "lab \<Rightarrow> string" where
  "hex_of c = CHR ''#'' # concat (map (\<lambda>channel.
     let x = clamped channel;
         encoded = (if x \<le> 0.0031308 then 12.92 * x else 1.055 * x powr (1 / 2.4) - 0.055)
     in hex_byte (nat (js_round (encoded * 255)))) (linearRgb c))"

definition contrast :: "real \<Rightarrow> real \<Rightarrow> real" where
  "contrast one other = (max one other + 0.05) / (min one other + 0.05)"

definition NEAR_BLACK :: string where "NEAR_BLACK = ''#111827''"
definition NEAR_BLACK_LUMINANCE :: real where "NEAR_BLACK_LUMINANCE = 0.0123"

definition inkOn :: "real \<Rightarrow> string" where
  "inkOn luminance = (if contrast luminance 1 \<ge> contrast luminance NEAR_BLACK_LUMINANCE then ''#ffffff'' else NEAR_BLACK)"

fun luminance :: "real list \<Rightarrow> real" where
  "luminance [red, green, blue] = 0.2126 * red + 0.7152 * green + 0.0722 * blue"
| "luminance _ = 0"

definition inkFor :: "lab \<Rightarrow> string" where
  "inkFor c = inkOn (luminance (map clamped (linearRgb c)))"

definition hex_value :: "char \<Rightarrow> nat option" where
  "hex_value c = (let n = of_char c :: nat in
     if 48 \<le> n \<and> n \<le> 57 then Some (n - 48) else if 97 \<le> n \<and> n \<le> 102 then Some (n - 87) else None)"

definition linear_channel :: "nat \<Rightarrow> nat \<Rightarrow> real" where
  "linear_channel high low =
     (let channel = real (16 * high + low) / 255
      in if channel \<le> 0.04045 then channel / 12.92 else ((channel + 0.055) / 1.055) powr 2.4)"

definition hex_digits :: "string \<Rightarrow> nat list option" where
  "hex_digits s =
     (case js_trim s of
        [] \<Rightarrow> None
      | c # cs \<Rightarrow> if c = CHR ''#'' \<and> length cs = 6 then those (map (hex_value \<circ> lower_char) cs) else None)"

fun linear_channels :: "nat list \<Rightarrow> real list" where
  "linear_channels (high # low # rest) = linear_channel high low # linear_channels rest"
| "linear_channels _ = []"

definition linearOf :: "string \<Rightarrow> real list option" where
  "linearOf s = map_option linear_channels (hex_digits s)"

definition groupColorOf :: "string \<Rightarrow> group_color option" where
  "groupColorOf s = map_option (\<lambda>linear. \<lparr>gc_fill = toLowerCase (js_trim s), gc_ink = inkOn (luminance linear)\<rparr>) (linearOf s)"

fun lab_of_linear :: "real list \<Rightarrow> lab" where
  "lab_of_linear [red, green, blue] =
     (let long = root 3 (0.4122214708 * red + 0.5363325363 * green + 0.0514459929 * blue);
          medium = root 3 (0.2119034982 * red + 0.6806995451 * green + 0.1073969566 * blue);
          short = root 3 (0.0883024619 * red + 0.2817188376 * green + 0.6299787005 * blue)
      in \<lparr>lab_l = 0.2104542553 * long + 0.793617785 * medium - 0.0040720468 * short,
          lab_a = 1.9779984951 * long - 2.428592205 * medium + 0.4505937099 * short,
          lab_b = 0.0259040371 * long + 0.7827717662 * medium - 0.808675766 * short\<rparr>)"
| "lab_of_linear _ = \<lparr>lab_l = 0, lab_a = 0, lab_b = 0\<rparr>"

definition oklabOf :: "string \<Rightarrow> lab option" where
  "oklabOf s = map_option lab_of_linear (linearOf s)"

definition UNGROUPED_GREEN :: string where "UNGROUPED_GREEN = ''#16a34a''"
definition UNGROUPED_LAB :: lab where "UNGROUPED_LAB = the (oklabOf UNGROUPED_GREEN)"
definition NEAR_UNGROUPED :: real where "NEAR_UNGROUPED = 0.15"

text \<open>\<open>Math.hypot\<close> of the three differences.\<close>

definition colorDistance :: "lab \<Rightarrow> lab \<Rightarrow> real" where
  "colorDistance one other =
     sqrt ((lab_l one - lab_l other) ^ 2 + (lab_a one - lab_a other) ^ 2 + (lab_b one - lab_b other) ^ 2)"

definition nearUngroupedGreen :: "string \<Rightarrow> bool" where
  "nearUngroupedGreen s \<longleftrightarrow> (case oklabOf s of None \<Rightarrow> False | Some c \<Rightarrow> colorDistance c UNGROUPED_LAB < NEAR_UNGROUPED)"

definition colorDifference :: "string \<Rightarrow> string \<Rightarrow> real option" where
  "colorDifference one other =
     (case (oklabOf one, oklabOf other) of (Some left, Some right) \<Rightarrow> Some (colorDistance left right) | _ \<Rightarrow> None)"

section \<open>Colours far from each other\<close>

definition MIN_CHROMA :: real where "MIN_CHROMA = 0.08"
definition MAX_CHROMA :: real where "MAX_CHROMA = 0.17"

definition lab_at :: "real \<Rightarrow> real \<Rightarrow> real \<Rightarrow> lab" where
  "lab_at lightness chroma hue = \<lparr>lab_l = lightness, lab_a = chroma * cos hue, lab_b = chroma * sin hue\<rparr>"

fun halve_chroma :: "nat \<Rightarrow> real \<Rightarrow> real \<Rightarrow> real \<Rightarrow> real \<Rightarrow> real" where
  "halve_chroma 0 lightness hue low high = low"
| "halve_chroma (Suc steps) lightness hue low high =
     (let middle = (low + high) / 2
      in if inGamut (linearRgb (lab_at lightness middle hue)) then halve_chroma steps lightness hue middle high
         else halve_chroma steps lightness hue low middle)"

definition mostChroma :: "real \<Rightarrow> real \<Rightarrow> real" where
  "mostChroma lightness hue = min (halve_chroma 24 lightness hue 0 0.4) MAX_CHROMA"

definition LIGHTNESS :: "real list" where "LIGHTNESS = [0.45, 0.55, 0.65, 0.74]"

definition color_candidates :: "nat \<Rightarrow> lab list" where
  "color_candidates many =
     (let hues = max 24 ((many + 1) div 2)
      in concat (map (\<lambda>lightness. concat (map (\<lambda>step.
           let hue = real step / real hues * 2 * pi; chroma = mostChroma lightness hue; c = lab_at lightness chroma hue
           in if chroma \<ge> MIN_CHROMA \<and> colorDistance c UNGROUPED_LAB \<ge> NEAR_UNGROUPED then [c] else []) [0..<hues])) LIGHTNESS))"

definition chroma_of :: "lab \<Rightarrow> real" where
  "chroma_of c = sqrt (lab_a c ^ 2 + lab_b c ^ 2)"

text \<open>The index of the farthest candidate, the first of equals.\<close>

definition farthest :: "real list \<Rightarrow> nat" where
  "farthest nearest = foldl (\<lambda>pick index. if nearest ! index > nearest ! pick then index else pick) 0 [1..<length nearest]"

fun pick_colors :: "nat \<Rightarrow> lab list \<Rightarrow> lab list \<Rightarrow> real list \<Rightarrow> lab list" where
  "pick_colors 0 candidates chosen nearest = chosen"
| "pick_colors (Suc k) candidates chosen nearest =
     (let c = candidates ! farthest nearest
      in pick_colors k candidates (chosen @ [c]) (map2 (\<lambda>d candidate. min d (colorDistance candidate c)) nearest candidates))"

text \<open>\<open>None\<close>: \<open>reduce\<close> of no candidates at all, an error.\<close>

definition distinctColors :: "nat \<Rightarrow> lab list option" where
  "distinctColors many =
     (case color_candidates many of
        [] \<Rightarrow> None
      | c # cs \<Rightarrow>
          (let first = foldl (\<lambda>best c. if chroma_of c > chroma_of best then c else best) c cs
           in Some (pick_colors (many - 1) (c # cs) [first] (map (\<lambda>c. colorDistance c first) (c # cs)))))"

section \<open>One colour to a group\<close>

definition metresBetween :: "point \<Rightarrow> point \<Rightarrow> real" where
  "metresBetween a b =
     (let toRad = (\<lambda>degrees. degrees * pi / 180);
          dLat = toRad (latitude b - latitude a); dLon = toRad (longitude b - longitude a);
          h = sin (dLat / 2) ^ 2 + cos (toRad (latitude a)) * cos (toRad (latitude b)) * sin (dLon / 2) ^ 2
      in 2 * 6371000 * arcsin (sqrt h))"

text \<open>\<open>None\<close> is infinity: a group without properties.\<close>

definition closestApproachKm :: "point list \<Rightarrow> point list \<Rightarrow> real option" where
  "closestApproachKm one other =
     foldl (\<lambda>closest a. foldl (\<lambda>closest b. Some (case closest of None \<Rightarrow> metresBetween a b / 1000
         | Some km \<Rightarrow> min km (metresBetween a b / 1000))) closest other) None one"

definition closeness :: "real option \<Rightarrow> real" where
  "closeness apart = (case apart of None \<Rightarrow> 0 | Some km \<Rightarrow> if km > 25 then 0 else 1 / (1 + (km / 3) ^ 2))"

definition TARGET_DISTANCE :: real where "TARGET_DISTANCE = 0.3"

definition shortfall :: "real \<Rightarrow> real" where
  "shortfall distance = max 0 (TARGET_DISTANCE - distance) ^ 2"

type_synonym neighbours = "(nat \<times> real) list list"

text \<open>What the two loops leave beside a group: the others, in order, that are near.\<close>

definition neighbours_of :: "point list list \<Rightarrow> neighbours" where
  "neighbours_of groups =
     map (\<lambda>one. filter (\<lambda>(other, weight). weight \<noteq> 0) (map (\<lambda>other.
        (other, closeness (closestApproachKm (groups ! min one other) (groups ! max one other))))
      (filter (\<lambda>other. other \<noteq> one) [0..<length groups]))) [0..<length groups]"

type_synonym coloring = "nat option list"

definition color_cost :: "lab list \<Rightarrow> neighbours \<Rightarrow> coloring \<Rightarrow> nat \<Rightarrow> nat \<Rightarrow> nat option \<Rightarrow> real" where
  "color_cost palette neighbours colorOf grp color except =
     sum_list (map (\<lambda>(other, weight). if Some other = except then 0
        else case colorOf ! other of None \<Rightarrow> 0 | Some its \<Rightarrow> weight * shortfall (colorDistance (palette ! color) (palette ! its)))
      (neighbours ! grp))"

definition crowded_first :: "neighbours \<Rightarrow> nat list" where
  "crowded_first neighbours =
     sort_key (\<lambda>grp. (- sum_list (map snd (neighbours ! grp)), grp)) [0..<length neighbours]"

text \<open>The unused colour least like those beside; \<open>None\<close> before the first is seen.\<close>

fun best_color :: "(nat \<Rightarrow> real) \<Rightarrow> (nat \<times> real) option \<Rightarrow> nat list \<Rightarrow> nat option" where
  "best_color price best [] = map_option fst best"
| "best_color price best (color # colors) =
     best_color price (case best of None \<Rightarrow> Some (color, price color)
       | Some (b, bestCost) \<Rightarrow> if price color < bestCost - 1 / 10 ^ 12 then Some (color, price color) else best) colors"

definition give_color :: "lab list \<Rightarrow> neighbours \<Rightarrow> coloring \<times> nat list \<Rightarrow> nat \<Rightarrow> coloring \<times> nat list" where
  "give_color palette neighbours = (\<lambda>(colorOf, unused) grp.
     let best = best_color (\<lambda>color. color_cost palette neighbours colorOf grp color None) None unused
     in (colorOf[grp := best], filter (\<lambda>color. Some color \<noteq> best) unused))"

definition first_colors :: "lab list \<Rightarrow> neighbours \<Rightarrow> coloring" where
  "first_colors palette neighbours =
     fst (foldl (give_color palette neighbours) (replicate (length neighbours) None, [0..<length palette]) (crowded_first neighbours))"

definition try_swap :: "lab list \<Rightarrow> neighbours \<Rightarrow> coloring \<times> bool \<Rightarrow> nat \<times> nat \<Rightarrow> coloring \<times> bool" where
  "try_swap palette neighbours = (\<lambda>(colorOf, improved) (one, other).
     let mine = the (colorOf ! one); theirs = the (colorOf ! other); cost = color_cost palette neighbours colorOf;
         before = cost one mine (Some other) + cost other theirs (Some one);
         now = cost one theirs (Some other) + cost other mine (Some one)
     in if now < before - 1 / 10 ^ 9 then (colorOf[one := Some theirs, other := Some mine], True) else (colorOf, improved))"

definition pairs_below :: "nat \<Rightarrow> (nat \<times> nat) list" where
  "pairs_below n = concat (map (\<lambda>one. map (\<lambda>other. (one, other)) [Suc one..<n]) [0..<n])"

fun swap_passes :: "nat \<Rightarrow> lab list \<Rightarrow> neighbours \<Rightarrow> coloring \<Rightarrow> coloring" where
  "swap_passes 0 palette neighbours colorOf = colorOf"
| "swap_passes (Suc passes) palette neighbours colorOf =
     (case foldl (try_swap palette neighbours) (colorOf, False) (pairs_below (length neighbours)) of
        (colorOf, improved) \<Rightarrow> if improved then swap_passes passes palette neighbours colorOf else colorOf)"

definition color_numbers :: "lab list \<Rightarrow> point list list \<Rightarrow> coloring" where
  "color_numbers palette groups = swap_passes 20 palette (neighbours_of groups) (first_colors palette (neighbours_of groups))"

definition groupColors :: "point list list \<Rightarrow> group_color list option" where
  "groupColors groups = map_option (\<lambda>palette.
     map (\<lambda>color. let c = palette ! the color in \<lparr>gc_fill = hex_of c, gc_ink = inkFor c\<rparr>) (color_numbers palette groups))
     (distinctColors (length groups))"

section \<open>Colours are there\<close>

lemma halve_chroma_grows: "low \<le> high \<Longrightarrow> low \<le> halve_chroma steps lightness hue low high"
proof (induction steps arbitrary: low high)
  case (Suc steps)
  have middle: "low \<le> (low + high) / 2" "(low + high) / 2 \<le> high" using Suc.prems by simp_all
  show ?case using Suc.IH [OF middle(1)] Suc.IH [OF middle(2)] middle(1) by (simp add: Let_def)
qed simp

lemma a_tenth_at_first: "1 / 10 \<le> halve_chroma 24 0.45 0 0 0.4"
proof -
  have "\<not> inGamut (linearRgb (lab_at 0.45 (1 / 5) 0))" "inGamut (linearRgb (lab_at 0.45 (1 / 10) 0))"
    by (simp_all add: inGamut_def linearRgb_def lab_at_def power3_eq_cube)
  then have "halve_chroma 24 0.45 0 0 0.4 = halve_chroma 22 0.45 0 (1 / 10) (1 / 5)"
    by (simp add: numeral_eq_Suc Let_def)
  then show ?thesis using halve_chroma_grows [of "1 / 10" "1 / 5" 22] by simp
qed

lemma root_at_least: "0 \<le> y \<Longrightarrow> y ^ 3 \<le> x \<Longrightarrow> y \<le> root 3 x"
  using real_root_le_mono [of 3 "y ^ 3" x] by (simp add: real_root_power_cancel)

lemma root_at_most: "0 \<le> y \<Longrightarrow> x \<le> y ^ 3 \<Longrightarrow> root 3 x \<le> y"
  using real_root_le_mono [of 3 x "y ^ 3"] by (simp add: real_root_power_cancel)

lemma linear_channel_bounds: "high < 16 \<Longrightarrow> low < 16 \<Longrightarrow> 0 \<le> linear_channel high low \<and> linear_channel high low \<le> 1"
proof -
  assume *: "high < 16" "low < 16"
  then have "16 * high + low \<le> 255" by simp
  then have "real (16 * high + low) \<le> real 255" by (simp only: of_nat_le_iff)
  then have c: "real (16 * high + low) / 255 \<le> 1" by simp
  define x where "x = real (16 * high + low) / 255"
  have x: "0 \<le> x" "x \<le> 1" using c by (simp_all add: x_def)
  have "((x + 0.055) / 1.055) powr 2.4 \<le> 1" by (rule powr_le1) (use x in simp_all)
  then have "0 \<le> (if x \<le> 0.04045 then x / 12.92 else ((x + 0.055) / 1.055) powr 2.4) \<and>
    (if x \<le> 0.04045 then x / 12.92 else ((x + 0.055) / 1.055) powr 2.4) \<le> 1" using x by simp
  then show ?thesis unfolding linear_channel_def x_def [symmetric] Let_def .
qed

lemma green_channel: "36 / 100 \<le> linear_channel 10 3"
proof -
  define x :: real where "x = (163 / 255 + 0.055) / 1.055"
  have "(36 / 100) ^ 5 \<le> x ^ 12" by (simp add: x_def power_divide field_simps)
  also have "\<dots> = x powr (real 5 * 2.4)" using powr_realpow [of x 12] by (simp add: x_def)
  also have "\<dots> = (x powr 2.4) ^ 5" by (rule powr_power [symmetric]) (simp add: x_def)
  finally have "36 / 100 \<le> x powr 2.4" using power_mono_iff [of "36 / 100" "x powr 2.4" 5] by simp
  then show ?thesis by (simp add: linear_channel_def x_def)
qed

lemma green_lightness: "6 / 10 \<le> lab_l UNGROUPED_LAB"
proof -
  define r g b where "r = linear_channel 1 6" and "g = linear_channel 10 3" and "b = linear_channel 4 10"
  have bounds: "0 \<le> r" "r \<le> 1" "36 / 100 \<le> g" "g \<le> 1" "0 \<le> b" "b \<le> 1"
    using linear_channel_bounds [of 1 6] linear_channel_bounds [of 10 3] linear_channel_bounds [of 4 10] green_channel
    by (simp_all add: r_def g_def b_def)
  have "hex_digits UNGROUPED_GREEN = Some [1, 6, 10, 3, 4, 10]"
    by (simp add: hex_digits_def UNGROUPED_GREEN_def js_trim_def is_space_def hex_value_def lower_char_def)
  then have lab: "UNGROUPED_LAB = lab_of_linear [r, g, b]"
    by (simp add: UNGROUPED_LAB_def oklabOf_def linearOf_def r_def g_def b_def)
  have "57 / 100 \<le> root 3 (0.4122214708 * r + 0.5363325363 * g + 0.0514459929 * b)"
    by (rule root_at_least) (use bounds in \<open>auto simp: power3_eq_cube\<close>)
  moreover have "62 / 100 \<le> root 3 (0.2119034982 * r + 0.6806995451 * g + 0.1073969566 * b)"
    by (rule root_at_least) (use bounds in \<open>auto simp: power3_eq_cube\<close>)
  moreover have "root 3 (0.0883024619 * r + 0.2817188376 * g + 0.6299787005 * b) \<le> 1"
    by (rule root_at_most) (use bounds in \<open>auto simp: power3_eq_cube\<close>)
  moreover have "6 / 10 \<le> 0.2104542553 * long + 0.793617785 * medium - 0.0040720468 * short"
    if "57 / 100 \<le> long" "62 / 100 \<le> medium" "short \<le> 1" for long medium short :: real using that by simp
  ultimately show ?thesis unfolding lab lab_of_linear.simps Let_def lab.simps by blast
qed

lemma candidates_there: "color_candidates many \<noteq> []"
proof -
  let ?c = "lab_at 0.45 (mostChroma 0.45 0) 0"
  have "MIN_CHROMA \<le> mostChroma 0.45 0" using a_tenth_at_first by (simp add: mostChroma_def MIN_CHROMA_def MAX_CHROMA_def)
  moreover have "NEAR_UNGROUPED \<le> colorDistance ?c UNGROUPED_LAB"
  proof -
    have "\<bar>lab_l ?c - lab_l UNGROUPED_LAB\<bar> \<le> colorDistance ?c UNGROUPED_LAB"
      unfolding colorDistance_def by (rule real_le_rsqrt) simp
    then show ?thesis using green_lightness by (simp add: NEAR_UNGROUPED_def lab_at_def)
  qed
  ultimately have "?c \<in> set (color_candidates many)"
    by (auto simp: color_candidates_def LIGHTNESS_def Let_def intro!: bexI [of _ 0])
  then show ?thesis by auto
qed

lemma length_pick_colors: "length (pick_colors k candidates chosen nearest) = length chosen + k"
  by (induction k candidates chosen nearest rule: pick_colors.induct) (simp_all add: Let_def)

lemma distinctColors_there: "\<exists>palette. distinctColors many = Some palette \<and> length palette = max 1 many"
  using candidates_there [of many] by (cases "color_candidates many") (auto simp: distinctColors_def Let_def length_pick_colors)

section \<open>A colour of its own to each group\<close>

definition own_colors :: "nat \<Rightarrow> coloring \<Rightarrow> bool" where
  "own_colors m colorOf \<longleftrightarrow> distinct colorOf \<and> set colorOf \<subseteq> Some ` {..<m}"

lemma best_color_among:
  "best_color price best colors = Some c \<Longrightarrow> c \<in> set colors \<or> best \<noteq> None \<and> fst (the best) = c"
proof (induction price best colors rule: best_color.induct)
  case (2 price best color colors)
  then show ?case by (cases best) (fastforce split: if_splits)+
qed auto

lemma best_color_there: "best \<noteq> None \<or> colors \<noteq> [] \<Longrightarrow> best_color price best colors \<noteq> None"
proof (induction price best colors rule: best_color.induct)
  case (2 price best color colors)
  then show ?case by (cases best) auto
qed auto

text \<open>Halfway: the groups coloured have colours of their own, the unused ones are the others.\<close>

definition halfway :: "nat \<Rightarrow> nat \<Rightarrow> nat set \<Rightarrow> coloring \<times> nat list \<Rightarrow> bool" where
  "halfway n m given = (\<lambda>(colorOf, unused). length colorOf = n \<and> given \<subseteq> {..<n} \<and> distinct unused \<and>
     length unused + card given = m \<and> set unused \<subseteq> {..<m} \<and>
     (\<forall>g<n. (colorOf ! g \<noteq> None) = (g \<in> given)) \<and> inj_on ((!) colorOf) given \<and>
     (\<forall>g\<in>given. colorOf ! g \<in> Some ` ({..<m} - set unused)))"

lemma give_color_halfway:
  assumes "halfway n m given s" "g < n" "g \<notin> given" "n \<le> m"
  shows "halfway n m (insert g given) (give_color palette neighbours s g)"
proof -
  obtain colorOf unused where s: "s = (colorOf, unused)" by (cases s)
  note h = assms(1) [unfolded halfway_def s prod.case]
  have fin: "finite given" using h finite_subset by blast
  have "given \<subset> {..<n}" using h assms(2,3) by auto
  then have "card given < n" using psubset_card_mono [of "{..<n}" given] by simp
  then have ne: "unused \<noteq> []" using h assms(4) by auto
  define best where "best = best_color (\<lambda>color. color_cost palette neighbours colorOf g color None) None unused"
  have "best \<noteq> None" unfolding best_def by (rule best_color_there) (use ne in simp)
  then obtain c where c: "best = Some c" by auto
  then have cin: "c \<in> set unused" using best_color_among [of _ None unused c] by (auto simp: best_def)
  have step: "give_color palette neighbours s g = (colorOf[g := Some c], filter (\<lambda>color. color \<noteq> c) unused)"
    using c by (simp add: give_color_def s best_def [symmetric] Let_def)
  have rest: "filter (\<lambda>color. color \<noteq> c) unused = remove1 c unused" using h by (simp add: distinct_remove1_removeAll removeAll_filter_not_eq) (metis (mono_tags, lifting) filter_cong)
  have "length (remove1 c unused) + card (insert g given) = m"
    using h cin assms(3) fin ne by (simp add: length_remove1) (metis Suc_pred add_Suc_right add_Suc_shift length_greater_0_conv)
  moreover have "inj_on ((!) (colorOf[g := Some c])) (insert g given)"
  proof -
    have same: "colorOf[g := Some c] ! x = colorOf ! x" if "x \<in> given" for x
      by (rule nth_list_update_neq) (use that assms(3) in auto)
    have "inj_on ((!) (colorOf[g := Some c])) given" using h same by (simp add: inj_on_def)
    moreover have "Some c \<notin> (!) (colorOf[g := Some c]) ` given" using h cin same by force
    ultimately show ?thesis using h assms(2,3) by (auto simp: inj_on_insert)
  qed
  moreover have "set (remove1 c unused) = set unused - {c}" using h by simp
  ultimately show ?thesis using h assms(2,3) cin
    unfolding step rest halfway_def prod.case by (auto simp: nth_list_update)
qed

lemma give_colors_halfway:
  "halfway n m given s \<Longrightarrow> distinct gs \<Longrightarrow> set gs \<subseteq> {..<n} - given \<Longrightarrow> n \<le> m \<Longrightarrow>
   halfway n m (given \<union> set gs) (foldl (give_color palette neighbours) s gs)"
proof (induction gs arbitrary: given s)
  case (Cons g gs)
  have "halfway n m (insert g given) (give_color palette neighbours s g)"
    by (rule give_color_halfway) (use Cons.prems in auto)
  from Cons.IH [OF this] Cons.prems show ?case by auto
qed simp

lemma first_colors_own:
  assumes "length neighbours \<le> length palette"
  shows "own_colors (length palette) (first_colors palette neighbours)" "length (first_colors palette neighbours) = length neighbours"
proof -
  let ?n = "length neighbours" and ?m = "length palette"
  let ?start = "(replicate ?n None, [0..<?m]) :: coloring \<times> nat list"
  obtain colorOf unused where s: "foldl (give_color palette neighbours) ?start (crowded_first neighbours) = (colorOf, unused)" by fastforce
  have start: "halfway ?n ?m {} ?start" by (auto simp: halfway_def)
  have crowded: "distinct (crowded_first neighbours)" "set (crowded_first neighbours) = {..<?n}"
    by (auto simp: crowded_first_def)
  have "halfway ?n ?m ({} \<union> {..<?n}) (colorOf, unused)"
    using give_colors_halfway [OF start crowded(1) _ assms, of palette neighbours] unfolding crowded(2) s by simp
  then have h: "length colorOf = ?n" "inj_on ((!) colorOf) {..<?n}" "\<forall>g<?n. colorOf ! g \<in> Some ` ({..<?m} - set unused)"
    by (auto simp: halfway_def)
  have "distinct colorOf" using h(1,2) by (auto simp: distinct_conv_nth inj_on_def)
  moreover have "set colorOf \<subseteq> Some ` {..<?m}"
  proof
    fix c assume "c \<in> set colorOf"
    then obtain g where "g < ?n" "c = colorOf ! g" using h(1) by (auto simp: in_set_conv_nth)
    then have "c \<in> Some ` ({..<?m} - set unused)" using h(3) by blast
    then show "c \<in> Some ` {..<?m}" by blast
  qed
  ultimately show "own_colors ?m (first_colors palette neighbours)" "length (first_colors palette neighbours) = ?n"
    using h(1) by (simp_all add: own_colors_def first_colors_def s)
qed

lemma try_swap_mset:
  assumes "one < length colorOf" "other < length colorOf" "None \<notin> set colorOf"
  shows "mset (fst (try_swap palette neighbours (colorOf, improved) (one, other))) = mset colorOf"
proof -
  have "Some (the (colorOf ! i)) = colorOf ! i" if "i < length colorOf" for i
    using assms(3) nth_mem [OF that] by (cases "colorOf ! i") auto
  then show ?thesis using assms(1,2) by (simp add: try_swap_def Let_def mset_swap)
qed

section \<open>Neighbours kept apart\<close>

text \<open>Twice the cost of the whole map: what each group's colour costs beside the others.\<close>

definition total_cost :: "lab list \<Rightarrow> neighbours \<Rightarrow> coloring \<Rightarrow> real" where
  "total_cost palette neighbours colorOf =
     (\<Sum>grp<length neighbours. color_cost palette neighbours colorOf grp (the (colorOf ! grp)) None)"

definition pull :: "point list list \<Rightarrow> nat \<Rightarrow> nat \<Rightarrow> real" where
  "pull groups one other = closeness (closestApproachKm (groups ! min one other) (groups ! max one other))"

definition clash :: "lab list \<Rightarrow> nat \<Rightarrow> nat \<Rightarrow> real" where
  "clash palette c d = shortfall (colorDistance (palette ! c) (palette ! d))"

lemma pull_sym: "pull groups one other = pull groups other one"
  by (simp add: pull_def min.commute max.commute)

lemma clash_sym: "clash palette c d = clash palette d c"
  by (simp add: clash_def colorDistance_def power2_commute)

lemma color_cost_sum:
  assumes "grp < length groups" "length colorOf = length groups" "None \<notin> set colorOf"
  shows "color_cost palette (neighbours_of groups) colorOf grp color except =
    (\<Sum>other\<in>{..<length groups} - {grp} - set_option except. pull groups grp other * clash palette color (the (colorOf ! other)))"
proof -
  define f where "f = (\<lambda>(other, weight). if Some other = except then 0
        else case colorOf ! other of None \<Rightarrow> 0 | Some its \<Rightarrow> weight * shortfall (colorDistance (palette ! color) (palette ! its)))"
  have drop: "sum_list (map f (filter (\<lambda>(other, weight). weight \<noteq> 0) xs)) = sum_list (map f xs)" for xs
  proof -
    have "f (other, 0) = 0" for other by (simp add: f_def split: option.split)
    then show ?thesis by (induction xs) auto
  qed
  have "neighbours_of groups ! grp = filter (\<lambda>(other, weight). weight \<noteq> 0) (map (\<lambda>other. (other, pull groups grp other))
      (filter (\<lambda>other. other \<noteq> grp) [0..<length groups]))"
    using assms(1) by (simp add: neighbours_of_def pull_def)
  then have "color_cost palette (neighbours_of groups) colorOf grp color except =
      sum_list (map (\<lambda>other. f (other, pull groups grp other)) (filter (\<lambda>other. other \<noteq> grp) [0..<length groups]))"
    by (simp add: color_cost_def f_def [symmetric] drop comp_def)
  also have "\<dots> = (\<Sum>other\<in>{..<length groups} - {grp}. f (other, pull groups grp other))"
    by (subst sum_list_distinct_conv_sum_set) (auto intro!: sum.cong)
  also have "\<dots> = (\<Sum>other\<in>{..<length groups} - {grp} - set_option except. pull groups grp other * clash palette color (the (colorOf ! other)))"
  proof (rule sum.mono_neutral_cong_right)
    fix other assume "other \<in> {..<length groups} - {grp} - set_option except"
    moreover from this have "colorOf ! other \<noteq> None" by (metis DiffD1 assms(2,3) lessThan_iff nth_mem)
    ultimately show "f (other, pull groups grp other) = pull groups grp other * clash palette color (the (colorOf ! other))"
      by (auto simp: f_def clash_def)
  qed (auto simp: f_def)
  finally show ?thesis .
qed

lemma sum_beside:
  fixes K :: "nat \<Rightarrow> nat \<Rightarrow> real"
  assumes "finite I" "a \<in> I" "b \<in> I" "a \<noteq> b" "\<And>i j. K i j = K j i"
  shows "(\<Sum>i\<in>I. \<Sum>j\<in>I - {i}. K i j) =
    2 * ((\<Sum>j\<in>I - {a} - {b}. K a j) + (\<Sum>j\<in>I - {b} - {a}. K b j) + K a b) + (\<Sum>i\<in>I - {a, b}. \<Sum>j\<in>I - {a, b} - {i}. K i j)"
proof -
  define R where "R = I - {a, b}"
  have R: "finite R" "a \<notin> R" "b \<notin> R" "I = insert a (insert b R)" "I - {a} - {b} = R" "I - {b} - {a} = R"
    using assms by (auto simp: R_def)
  have "(\<Sum>j\<in>I - {i}. K i j) = K a i + K b i + (\<Sum>j\<in>R - {i}. K i j)" if "i \<in> R" for i
  proof -
    have "I - {i} = insert a (insert b (R - {i}))" using R that by auto
    then show ?thesis using R assms(4) by (simp add: assms(5) [of i])
  qed
  then have "(\<Sum>i\<in>R. \<Sum>j\<in>I - {i}. K i j) = (\<Sum>i\<in>R. K a i) + (\<Sum>i\<in>R. K b i) + (\<Sum>i\<in>R. \<Sum>j\<in>R - {i}. K i j)"
    by (simp add: sum.distrib)
  moreover have "(\<Sum>j\<in>I - {a}. K a j) = K a b + (\<Sum>j\<in>R. K a j)"
  proof -
    have "I - {a} = insert b R" using R assms(4) by auto
    then show ?thesis using R by simp
  qed
  moreover have "(\<Sum>j\<in>I - {b}. K b j) = K a b + (\<Sum>j\<in>R. K b j)"
  proof -
    have "I - {b} = insert a R" using R assms(4) by auto
    then show ?thesis using R by (simp add: assms(5) [of b a])
  qed
  moreover have "(\<Sum>i\<in>I. \<Sum>j\<in>I - {i}. K i j) = (\<Sum>j\<in>I - {a}. K a j) + (\<Sum>j\<in>I - {b}. K b j) + (\<Sum>i\<in>R. \<Sum>j\<in>I - {i}. K i j)"
    unfolding R(4) using R(1-3) assms(4) by simp
  ultimately show ?thesis by (simp add: R(5,6) R_def [symmetric])
qed

lemma total_cost_sum:
  assumes "length colorOf = length groups" "None \<notin> set colorOf"
  shows "total_cost palette (neighbours_of groups) colorOf =
    (\<Sum>i<length groups. \<Sum>j\<in>{..<length groups} - {i}. pull groups i j * clash palette (the (colorOf ! i)) (the (colorOf ! j)))"
proof -
  have "length (neighbours_of groups) = length groups" by (simp add: neighbours_of_def)
  then show ?thesis unfolding total_cost_def by (intro sum.cong) (simp_all add: color_cost_sum [OF _ assms])
qed

text \<open>A swap changes the cost of the map by twice what it was weighed to.\<close>

lemma swapped_cost:
  fixes groups palette colorOf
  defines "cost \<equiv> color_cost palette (neighbours_of groups) colorOf"
  assumes c: "length colorOf = length groups" "None \<notin> set colorOf" and ab: "a < length groups" "b < length groups" "a \<noteq> b"
    and ours: "colorOf ! a = Some mine" "colorOf ! b = Some theirs"
  shows "total_cost palette (neighbours_of groups) (colorOf[a := Some theirs, b := Some mine]) - total_cost palette (neighbours_of groups) colorOf =
    2 * ((cost a theirs (Some b) + cost b mine (Some a)) - (cost a mine (Some b) + cost b theirs (Some a)))"
proof -
  let ?I = "{..<length groups}" and ?c' = "colorOf[a := Some theirs, b := Some mine]"
  define K where "K = (\<lambda>c i j. pull groups i j * clash palette (the (c ! i)) (the (c ! j)))"
  have sym: "K c i j = K c j i" for c i j by (simp add: K_def pull_sym [of groups i] clash_sym [of palette "the (c ! i)"])
  have c': "length ?c' = length groups" "None \<notin> set ?c'"
    using c set_update_subset_insert [of colorOf a "Some theirs"] set_update_subset_insert [of "colorOf[a := Some theirs]" b "Some mine"] by auto
  have at: "?c' ! a = Some theirs" "?c' ! b = Some mine" "?c' ! j = colorOf ! j" if "j \<noteq> a" "j \<noteq> b" for j
    using ab c(1) that by (auto simp: nth_list_update)
  note split = sum_beside [OF finite_lessThan, of a "length groups" b, OF _ _ ab(3) sym]
  have total: "total_cost palette (neighbours_of groups) c =
      2 * ((\<Sum>j\<in>?I - {a} - {b}. K c a j) + (\<Sum>j\<in>?I - {b} - {a}. K c b j) + K c a b) + (\<Sum>i\<in>?I - {a, b}. \<Sum>j\<in>?I - {a, b} - {i}. K c i j)"
    if "length c = length groups" "None \<notin> set c" for c
    using total_cost_sum [OF that, of palette] split ab(1,2) by (simp add: K_def)
  have "(\<Sum>i\<in>?I - {a, b}. \<Sum>j\<in>?I - {a, b} - {i}. K ?c' i j) = (\<Sum>i\<in>?I - {a, b}. \<Sum>j\<in>?I - {a, b} - {i}. K colorOf i j)"
    by (intro sum.cong refl) (auto simp: K_def at)
  moreover have "K ?c' a b = K colorOf a b"
    using ab c(1) ours by (simp add: K_def clash_sym nth_list_update)
  moreover have "(\<Sum>j\<in>?I - {a} - {b}. K ?c' a j) = cost a theirs (Some b)" "(\<Sum>j\<in>?I - {b} - {a}. K ?c' b j) = cost b mine (Some a)"
    "(\<Sum>j\<in>?I - {a} - {b}. K colorOf a j) = cost a mine (Some b)" "(\<Sum>j\<in>?I - {b} - {a}. K colorOf b j) = cost b theirs (Some a)"
    using ab c ours unfolding cost_def by (auto simp: color_cost_sum K_def nth_list_update intro!: sum.cong)
  ultimately show ?thesis unfolding total [OF c'] total [OF c] by simp
qed

definition no_worse :: "lab list \<Rightarrow> point list list \<Rightarrow> real \<Rightarrow> coloring \<Rightarrow> bool" where
  "no_worse palette groups bound colorOf \<longleftrightarrow> length colorOf = length groups \<and> own_colors (length palette) colorOf \<and>
     total_cost palette (neighbours_of groups) colorOf \<le> bound"

lemma own_colors_mset: "mset c = mset d \<Longrightarrow> own_colors m c = own_colors m d"
  unfolding own_colors_def by (metis mset_eq_imp_distinct_iff set_mset_mset)

lemma try_swap_no_worse:
  assumes "no_worse palette groups bound colorOf" "one < other" "other < length groups"
  shows "no_worse palette groups bound (fst (try_swap palette (neighbours_of groups) (colorOf, improved) (one, other)))"
proof -
  have c: "length colorOf = length groups" "None \<notin> set colorOf" "own_colors (length palette) colorOf"
    using assms(1) by (auto simp: no_worse_def own_colors_def)
  have lt: "one < length colorOf" "other < length colorOf" "one \<noteq> other" using assms(2,3) c(1) by auto
  define swapped where "swapped = fst (try_swap palette (neighbours_of groups) (colorOf, improved) (one, other))"
  have same: "mset swapped = mset colorOf" unfolding swapped_def by (rule try_swap_mset [OF lt(1,2) c(2)])
  have "own_colors (length palette) swapped" using own_colors_mset [OF same] c(3) by simp
  moreover have "length swapped = length groups" using mset_eq_length [OF same] c(1) by simp
  moreover have "total_cost palette (neighbours_of groups) swapped \<le> total_cost palette (neighbours_of groups) colorOf"
  proof -
    obtain mine theirs where ours: "colorOf ! one = Some mine" "colorOf ! other = Some theirs"
      using c(2) nth_mem [OF lt(1)] nth_mem [OF lt(2)] by (metis option.exhaust)
    show ?thesis
      using swapped_cost [OF c(1,2) lt(1,2) [unfolded c(1)] lt(3) ours, of palette]
      by (simp add: swapped_def try_swap_def Let_def ours field_simps)
  qed
  ultimately show ?thesis using assms(1) by (simp add: no_worse_def swapped_def)
qed

lemma pass_no_worse:
  "no_worse palette groups bound (fst s) \<Longrightarrow> list_all (\<lambda>(one, other). one < other \<and> other < length groups) pairs \<Longrightarrow>
   no_worse palette groups bound (fst (foldl (try_swap palette (neighbours_of groups)) s pairs))"
proof (induction pairs arbitrary: s)
  case (Cons pair pairs)
  then show ?case
    using try_swap_no_worse [of palette groups bound "fst s" "fst pair" "snd pair" "snd s"] by (simp add: case_prod_beta)
qed simp

lemma swap_passes_no_worse:
  "no_worse palette groups bound colorOf \<Longrightarrow> no_worse palette groups bound (swap_passes passes palette (neighbours_of groups) colorOf)"
proof (induction passes arbitrary: colorOf)
  case (Suc passes)
  have "list_all (\<lambda>(one, other). one < other \<and> other < length groups) (pairs_below (length groups))"
    by (auto simp: pairs_below_def list_all_iff)
  from pass_no_worse [of palette groups bound "(colorOf, False)", OF _ this] Suc show ?case
    by (auto simp: neighbours_of_def split: prod.split)
qed simp

text \<open>
  C30. A colour of its own to each group. However many groups there are and wherever they lie, there
  are colours for them; no two groups are given the same place of the palette; and the swaps at the
  end leave neighbours no more alike, over the whole map, than they were found.
\<close>

theorem groups_have_own_colors:
  "\<exists>palette. distinctColors (length groups) = Some palette \<and>
    length (color_numbers palette groups) = length groups \<and> distinct (color_numbers palette groups) \<and>
    set (color_numbers palette groups) \<subseteq> Some ` {..<length palette} \<and>
    total_cost palette (neighbours_of groups) (color_numbers palette groups) \<le>
      total_cost palette (neighbours_of groups) (first_colors palette (neighbours_of groups))"
proof -
  obtain palette where p: "distinctColors (length groups) = Some palette" "length palette = max 1 (length groups)"
    using distinctColors_there by blast
  have "length (neighbours_of groups) = length groups" by (simp add: neighbours_of_def)
  then have "no_worse palette groups (total_cost palette (neighbours_of groups) (first_colors palette (neighbours_of groups)))
      (first_colors palette (neighbours_of groups))"
    using first_colors_own [of "neighbours_of groups" palette] p(2) by (simp add: no_worse_def)
  from swap_passes_no_worse [OF this, of 20] p(1) show ?thesis
    by (auto simp: no_worse_def own_colors_def color_numbers_def)
qed

end
