(* ===== verification/Group_File.thy ===== *)
theory Group_File
  imports Csv Group_Colors Manual_Grouping Road_Routes "HOL-Library.AList"
begin

text \<open>
  A file of properties in groups: \<open>readGroupFile\<close> of \<open>web/components/planning/group-file.ts\<close>, and what
  \<open>manual-grouping.ts\<close> starts from one (\<open>fromFile\<close>) and writes as one (\<open>exportCsv\<close>).
\<close>

section \<open>Numbers in cells\<close>

definition digits_in :: "nat \<Rightarrow> (char \<Rightarrow> nat option) \<Rightarrow> string \<Rightarrow> real option" where
  "digits_in base value_of cs =
     (if cs = [] then None
      else map_option (foldl (\<lambda>n d. real base * n + real d) 0)
        (those (map (\<lambda>c. case value_of c of Some d \<Rightarrow> if d < base then Some d else None | None \<Rightarrow> None) cs)))"

fun exponent_of :: "string \<Rightarrow> int option" where
  "exponent_of [] = Some 0"
| "exponent_of (e # cs) =
     (if lower_char e \<noteq> CHR ''e'' then None
      else
        (let (sign, ds) = (case cs of [] \<Rightarrow> (1, cs)
             | c # rest \<Rightarrow> if c = CHR ''-'' then (- 1, rest) else if c = CHR ''+'' then (1, rest) else (1, cs))
         in if ds = [] \<or> \<not> list_all is_digit ds then None else Some (sign * number_of_digits ds)))"

definition ten_to :: "int \<Rightarrow> real" where
  "ten_to n = (if 0 \<le> n then 10 ^ nat n else 1 / 10 ^ nat (- n))"

definition decimal_of :: "string \<Rightarrow> real option" where
  "decimal_of cs =
     (let whole = takeWhile is_digit cs; more = dropWhile is_digit cs;
          (part, rest) = (case more of [] \<Rightarrow> ([], more)
            | c # after \<Rightarrow> if c = CHR ''.'' then (takeWhile is_digit after, dropWhile is_digit after) else ([], more))
      in if whole = [] \<and> part = [] then None
         else map_option (\<lambda>e. of_int (number_of_digits (whole @ part)) * ten_to (e - int (length part))) (exponent_of rest))"

text \<open>\<open>Number(value)\<close> of a trimmed text, when it is a finite number.\<close>

definition js_number :: "string \<Rightarrow> real option" where
  "js_number cs =
     (case cs of
        c # x # rest \<Rightarrow>
          if c = CHR ''0'' \<and> lower_char x = CHR ''x'' then digits_in 16 (hex_value \<circ> lower_char) rest
          else if c = CHR ''0'' \<and> lower_char x = CHR ''o'' then digits_in 8 hex_value rest
          else if c = CHR ''0'' \<and> lower_char x = CHR ''b'' then digits_in 2 hex_value rest
          else if c = CHR ''-'' then map_option uminus (decimal_of (x # rest))
          else if c = CHR ''+'' then decimal_of (x # rest) else decimal_of cs
      | _ \<Rightarrow> decimal_of cs)"

section \<open>Reading\<close>

record group_row =
  fr_rowNumber :: nat
  fr_group :: string
  fr_stop :: "real option"
  fr_address :: string
  fr_unit :: "string option"
  fr_city :: "string option"
  fr_zip :: "string option"
  fr_lease :: "string option"
  fr_hvacPlan :: "string option"
  fr_zone :: "string option"
  fr_latitude :: real
  fr_longitude :: real
  fr_geocodeSource :: "string option"
  fr_approximate :: bool
  fr_cells :: "string \<Rightarrow> string option"

record group_figures =
  gf_name :: "string option"
  gf_colorHex :: "string option"
  gf_area :: "string option"
  gf_size :: "real option"
  gf_spanMiles :: "real option"
  gf_routeMiles :: "real option"
  gf_driveMinutes :: "real option"
  gf_longestHopMinutes :: "real option"

record file_group =
  fg_key :: string
  fg_label :: string
  fg_figures :: group_figures
  fg_rows :: "group_row list"
  fg_size :: real
  fg_longHop :: "nat option"
  fg_color :: group_color
  fg_outline :: "(real \<times> real) list"
  fg_labelAt :: point

record group_file =
  fl_groups :: "file_group list"
  fl_placed :: nat
  fl_ungrouped :: "group_row list"
  fl_skippedRows :: "nat list"
  fl_missing :: "string list"
  fl_header :: "string list"

definition LONG_HOP_MINUTES :: real where "LONG_HOP_MINUTES = 15"

definition required_columns :: "string list" where
  "required_columns = [''group'', ''address'', ''latitude'', ''longitude'']"

definition onEarth :: "real option \<Rightarrow> real option \<Rightarrow> bool" where
  "onEarth lat lng \<longleftrightarrow> (case (lat, lng) of
     (Some y, Some x) \<Rightarrow> \<not> (\<bar>y\<bar> > 90 \<or> \<bar>x\<bar> > 180) \<and> (y \<noteq> 0 \<or> x \<noteq> 0) | _ \<Rightarrow> False)"

definition point_of :: "group_row \<Rightarrow> point" where
  "point_of r = \<lparr>latitude = fr_latitude r, longitude = fr_longitude r\<rparr>"

definition longestStep :: "group_row list \<Rightarrow> nat option" where
  "longestStep rows = fst (foldl (\<lambda>(longest, farthest) index.
     let metres = metresBetween (point_of (rows ! index)) (point_of (rows ! (index + 1)))
     in if metres > farthest then (Some index, metres) else (longest, farthest)) (None, - 1) [0..<length rows - 1])"

text \<open>What a cell under a name says; its words, its number.\<close>

definition cell_at :: "string list \<Rightarrow> string list \<Rightarrow> string \<Rightarrow> string" where
  "cell_at header row name = sheet_cell row (index_of name header)"

definition words_at :: "string list \<Rightarrow> string list \<Rightarrow> string \<Rightarrow> string option" where
  "words_at header row name = or_null (cell_at header row name)"

definition number_at :: "string list \<Rightarrow> string list \<Rightarrow> string \<Rightarrow> real option" where
  "number_at header row name = (let s = cell_at header row name in if s = [] then None else js_number s)"

definition cells_of :: "string list \<Rightarrow> string list \<Rightarrow> string \<Rightarrow> string option" where
  "cells_of header row = map_of (rev (map (\<lambda>column. (header ! column, sheet_cell row (Some column))) [0..<length header]))"

definition row_entry :: "string list \<Rightarrow> nat \<Rightarrow> string list \<Rightarrow> group_row" where
  "row_entry header rowNumber row =
     (let words = words_at header row; number = number_at header row; geocodeSource = words ''geocode_source''
      in \<lparr>fr_rowNumber = rowNumber, fr_group = cell_at header row ''group'', fr_stop = number ''stop'',
          fr_address = cell_at header row ''address'', fr_unit = words ''unit'', fr_city = words ''city'', fr_zip = words ''zip'',
          fr_lease = words ''lease'', fr_hvacPlan = words ''hvac_plan'', fr_zone = words ''zone'',
          fr_latitude = the (number ''latitude''), fr_longitude = the (number ''longitude''), fr_geocodeSource = geocodeSource,
          fr_approximate = (case geocodeSource of None \<Rightarrow> False | Some s \<Rightarrow> str_includes (toLowerCase s) ''centroid''),
          fr_cells = cells_of header row\<rparr>)"

definition figure_or :: "group_figures option \<Rightarrow> (group_figures \<Rightarrow> 'a option) \<Rightarrow> 'a option \<Rightarrow> 'a option" where
  "figure_or known f given = (case Option.bind known f of None \<Rightarrow> given | Some x \<Rightarrow> Some x)"

definition add_figures :: "string list \<Rightarrow> string list \<Rightarrow> group_figures option \<Rightarrow> group_figures" where
  "add_figures header row known =
     (let words = words_at header row; number = number_at header row
      in \<lparr>gf_name = figure_or known gf_name (words ''group_name''), gf_colorHex = figure_or known gf_colorHex (words ''group_color''),
          gf_area = figure_or known gf_area (words ''group_area''), gf_size = figure_or known gf_size (number ''group_size''),
          gf_spanMiles = figure_or known gf_spanMiles (number ''group_span_miles''),
          gf_routeMiles = figure_or known gf_routeMiles (number ''group_route_miles''),
          gf_driveMinutes = figure_or known gf_driveMinutes (number ''group_drive_minutes''),
          gf_longestHopMinutes = figure_or known gf_longestHopMinutes (number ''longest_hop_minutes'')\<rparr>)"

record file_reading =
  rd_byGroup :: "(string \<times> group_row list) list"
  rd_summary :: "(string \<times> group_figures) list"
  rd_ungrouped :: "group_row list"
  rd_skipped :: "nat list"

definition read_row :: "string list \<Rightarrow> file_reading \<Rightarrow> nat \<times> string list \<Rightarrow> file_reading" where
  "read_row header s = (\<lambda>(index, row).
     if index = 0 \<or> blank_row row then s
     else if \<not> onEarth (number_at header row ''latitude'') (number_at header row ''longitude'') then
       s\<lparr>rd_skipped := rd_skipped s @ [index + 1]\<rparr>
     else
       (let entry = row_entry header (index + 1) row; grp = fr_group entry
        in if grp = [] then s\<lparr>rd_ungrouped := rd_ungrouped s @ [entry]\<rparr>
           else s\<lparr>rd_byGroup := AList.update grp (case map_of (rd_byGroup s) grp of None \<Rightarrow> [entry] | Some rows \<Rightarrow> rows @ [entry]) (rd_byGroup s),
                  rd_summary := AList.update grp (add_figures header row (map_of (rd_summary s) grp)) (rd_summary s)\<rparr>))"

text \<open>In visiting order: stops the file does not number come last.\<close>

definition visiting_place :: "group_row \<Rightarrow> bool \<times> real \<times> nat" where
  "visiting_place r = (fr_stop r = None, case fr_stop r of None \<Rightarrow> 0 | Some stop \<Rightarrow> stop, fr_rowNumber r)"

definition by_stop :: "group_row list \<Rightarrow> group_row list" where
  "by_stop rows = sort_key visiting_place rows"

definition north_most :: "(real \<times> real) list \<Rightarrow> point" where
  "north_most outline =
     (let top = foldl (\<lambda>highest p. if snd p > snd highest then p else highest) (hd outline) (tl outline)
      in \<lparr>latitude = snd top, longitude = fst top\<rparr>)"

definition group_of_rows :: "string \<Rightarrow> group_row list \<Rightarrow> group_figures \<Rightarrow> group_color \<Rightarrow> file_group" where
  "group_of_rows key rows figures color =
     (let outline = groupOutline (map point_of rows)
      in \<lparr>fg_key = key, fg_label = key, fg_figures = figures, fg_rows = rows,
          fg_size = (case gf_size figures of None \<Rightarrow> real (length rows) | Some given \<Rightarrow> given),
          fg_longHop = (case gf_longestHopMinutes figures of None \<Rightarrow> None
             | Some minutes \<Rightarrow> if minutes \<ge> LONG_HOP_MINUTES then longestStep rows else None),
          fg_color = (case Option.bind (gf_colorHex figures) groupColorOf of None \<Rightarrow> color | Some own \<Rightarrow> own),
          fg_outline = outline, fg_labelAt = north_most outline\<rparr>)"

definition file_header :: "string list list \<Rightarrow> string list" where
  "file_header table = map (\<lambda>cell. toLowerCase (js_trim cell)) (case table of [] \<Rightarrow> [] | row # rows \<Rightarrow> row)"

definition read_rows :: "string list \<Rightarrow> string list list \<Rightarrow> file_reading" where
  "read_rows header table = foldl (read_row header) \<lparr>rd_byGroup = [], rd_summary = [], rd_ungrouped = [], rd_skipped = []\<rparr> (enumerate 0 table)"

text \<open>\<open>localeCompare\<close> with its numbers in order is the comparator. \<open>None\<close>: an error, which there never is.\<close>

definition readGroupFile :: "(string \<Rightarrow> string \<Rightarrow> int) \<Rightarrow> string \<Rightarrow> group_file option" where
  "readGroupFile cmp chars =
     (let table = parseCsv chars; header = file_header table;
          missing = filter (\<lambda>name. name \<notin> set header) required_columns
      in if missing \<noteq> [] then
           Some \<lparr>fl_groups = [], fl_placed = 0, fl_ungrouped = [], fl_skippedRows = [], fl_missing = missing, fl_header = header\<rparr>
         else
           (let s = read_rows header table;
                keys = sort_cmp cmp (map fst (rd_byGroup s));
                ordered = map (\<lambda>key. by_stop (the (map_of (rd_byGroup s) key))) keys
            in map_option (\<lambda>colors.
                 \<lparr>fl_groups = map (\<lambda>(key, rows, color). group_of_rows key rows (the (map_of (rd_summary s) key)) color) (zip keys (zip ordered colors)),
                  fl_placed = sum_list (map length ordered), fl_ungrouped = rd_ungrouped s, fl_skippedRows = rd_skipped s,
                  fl_missing = missing, fl_header = header\<rparr>)
               (groupColors (map (map point_of) ordered))))"

section \<open>Every row is somewhere\<close>

lemma update_new: "k \<notin> fst ` set al \<Longrightarrow> AList.update k v al = al @ [(k, v)]"
  by (induction al) auto

lemma update_last: "k \<notin> fst ` set al \<Longrightarrow> AList.update k v (al @ [(k, w)]) = al @ [(k, v)]"
  by (induction al) auto

lemma keys_update: "map fst (AList.update k v al) = (if k \<in> fst ` set al then map fst al else map fst al @ [k])"
  by (induction al) auto

lemma rows_update:
  "distinct (map fst al) \<Longrightarrow> mset (concat (map snd (AList.update k (case map_of al k of None \<Rightarrow> [e] | Some rows \<Rightarrow> rows @ [e]) al))) =
     add_mset e (mset (concat (map snd al)))"
  by (induction al) auto

definition keyed_rows :: "string \<times> group_row list \<Rightarrow> bool" where
  "keyed_rows = (\<lambda>(key, rows). key \<noteq> [] \<and> rows \<noteq> [] \<and> list_all (\<lambda>r. fr_group r = key) rows)"

definition reading_ok :: "nat list \<Rightarrow> file_reading \<Rightarrow> bool" where
  "reading_ok numbers s \<longleftrightarrow>
     mset (map fr_rowNumber (concat (map snd (rd_byGroup s)) @ rd_ungrouped s) @ rd_skipped s) = mset numbers \<and>
     distinct (map fst (rd_byGroup s)) \<and> list_all keyed_rows (rd_byGroup s) \<and> list_all (\<lambda>r. fr_group r = []) (rd_ungrouped s)"

lemma update_in: "(k', v') \<in> set (AList.update k v al) \<Longrightarrow> (k', v') = (k, v) \<or> (k', v') \<in> set al"
  by (induction al) (auto split: if_splits)

text \<open>The numbers of the rows that say something, the heading apart.\<close>

definition said_rows :: "(nat \<times> string list) list \<Rightarrow> nat list" where
  "said_rows rows = map (\<lambda>(index, row). index + 1) (filter (\<lambda>(index, row). index \<noteq> 0 \<and> \<not> blank_row row) rows)"

lemma read_row_ok:
  assumes "reading_ok numbers s"
  shows "reading_ok (numbers @ said_rows [(index, row)]) (read_row header s (index, row))"
proof -
  define entry where "entry = row_entry header (Suc index) row"
  have number: "fr_rowNumber entry = index + 1" by (simp add: entry_def row_entry_def Let_def)
  note ok = assms [unfolded reading_ok_def]
  consider (none) "index = 0 \<or> blank_row row"
    | (skipped) "\<not> (index = 0 \<or> blank_row row)" "\<not> onEarth (number_at header row ''latitude'') (number_at header row ''longitude'')"
    | (loose) "\<not> (index = 0 \<or> blank_row row)" "onEarth (number_at header row ''latitude'') (number_at header row ''longitude'')" "fr_group entry = []"
    | (grouped) "\<not> (index = 0 \<or> blank_row row)" "onEarth (number_at header row ''latitude'') (number_at header row ''longitude'')" "fr_group entry \<noteq> []"
    by blast
  then show ?thesis
  proof cases
    case grouped
    define rows where "rows = (case map_of (rd_byGroup s) (fr_group entry) of None \<Rightarrow> [entry] | Some rows \<Rightarrow> rows @ [entry])"
    have "keyed_rows (fr_group entry, rows)"
      using ok grouped(3) map_of_SomeD [of "rd_byGroup s" "fr_group entry"]
      by (auto simp: keyed_rows_def rows_def list_all_iff split: option.split)
    then have "list_all keyed_rows (AList.update (fr_group entry) rows (rd_byGroup s))"
      using ok update_in [of _ _ "fr_group entry" rows "rd_byGroup s"] by (fastforce simp: list_all_iff)
    moreover have "mset (concat (map snd (AList.update (fr_group entry) rows (rd_byGroup s)))) = add_mset entry (mset (concat (map snd (rd_byGroup s))))"
      unfolding rows_def by (rule rows_update) (use ok in simp)
    then have "mset (map fr_rowNumber (concat (map snd (AList.update (fr_group entry) rows (rd_byGroup s))))) =
        add_mset (index + 1) (mset (map fr_rowNumber (concat (map snd (rd_byGroup s)))))"
      by (metis (no_types, lifting) image_mset_add_mset mset_map number)
    moreover have "distinct (map fst (AList.update (fr_group entry) rows (rd_byGroup s)))" using ok by (simp add: distinct_update)
    ultimately show ?thesis
      using ok grouped by (simp add: reading_ok_def read_row_def said_rows_def entry_def [symmetric] rows_def [symmetric] Let_def)
  qed (use ok number in \<open>auto simp: reading_ok_def read_row_def said_rows_def entry_def [symmetric] Let_def\<close>)
qed

lemma mset_by_stop [simp]: "mset (by_stop rows) = mset rows" "length (by_stop rows) = length rows" "set (by_stop rows) = set rows"
  by (simp_all add: by_stop_def)

lemma by_stop_sorted [simp]: "sorted (map visiting_place (by_stop rows))" "by_stop rows = [] \<longleftrightarrow> rows = []"
  by (simp add: by_stop_def) (metis length_0_conv mset_by_stop(2))

lemma concat_of_keys:
  assumes "distinct (map fst al)" "mset keys = mset (map fst al)"
  shows "mset (concat (map (\<lambda>key. by_stop (the (map_of al key))) keys)) = mset (concat (map snd al))"
proof -
  have "mset (concat (map (\<lambda>key. by_stop (the (map_of al key))) keys)) = (\<Sum>key\<in>#mset keys. mset (the (map_of al key)))"
    by (simp add: mset_concat comp_def flip: sum_mset_sum_list)
  also have "\<dots> = (\<Sum>x\<in>#mset al. mset (the (map_of al (fst x))))"
    by (simp add: assms(2) image_mset.compositionality comp_def case_prod_beta)
  also have "\<dots> = (\<Sum>x\<in>#mset al. mset (snd x))"
    using assms(1) by (intro arg_cong [of _ _ sum_mset] image_mset_cong) auto
  also have "\<dots> = mset (concat (map snd al))" by (simp add: mset_concat comp_def case_prod_beta flip: sum_mset_sum_list)
  finally show ?thesis .
qed

lemma said_rows_append: "said_rows (xs @ ys) = said_rows xs @ said_rows ys"
  by (simp add: said_rows_def)

lemma read_rows_ok: "reading_ok (said_rows (enumerate 0 table)) (read_rows header table)"
proof -
  have "reading_ok (said_rows rows) (foldl (read_row header) \<lparr>rd_byGroup = [], rd_summary = [], rd_ungrouped = [], rd_skipped = []\<rparr> rows)" for rows
  proof (induction rows rule: rev_induct)
    case Nil
    then show ?case by (simp add: reading_ok_def said_rows_def)
  next
    case (snoc x rows)
    then show ?case using read_row_ok [of "said_rows rows" _ "fst x" "snd x"] by (simp add: said_rows_append)
  qed
  then show ?thesis by (simp add: read_rows_def)
qed

lemma groupColors_there: "\<exists>colors. groupColors groups = Some colors \<and> length colors = length groups"
proof -
  obtain palette where p: "distinctColors (length groups) = Some palette" "length palette = max 1 (length groups)"
    using distinctColors_there by blast
  have n: "length (neighbours_of groups) = length groups" by (simp add: neighbours_of_def)
  then have "no_worse palette groups (total_cost palette (neighbours_of groups) (first_colors palette (neighbours_of groups)))
      (first_colors palette (neighbours_of groups))"
    using first_colors_own [of "neighbours_of groups" palette] p(2) by (simp add: no_worse_def)
  from swap_passes_no_worse [OF this, of 20] have "length (color_numbers palette groups) = length groups"
    by (simp add: no_worse_def color_numbers_def)
  then show ?thesis using p(1) by (simp add: groupColors_def)
qed

text \<open>A file with the columns it has to have, read.\<close>

lemma readGroupFile_reads:
  fixes chars cmp
  defines "table \<equiv> parseCsv chars"
  defines "s \<equiv> read_rows (file_header table) table"
  defines "keys \<equiv> sort_cmp cmp (map fst (rd_byGroup s))"
  assumes "set required_columns \<subseteq> set (file_header table)"
  obtains colors where "length colors = length keys" "readGroupFile cmp chars = Some
     \<lparr>fl_groups = map (\<lambda>(key, color). group_of_rows key (by_stop (the (map_of (rd_byGroup s) key))) (the (map_of (rd_summary s) key)) color) (zip keys colors),
      fl_placed = sum_list (map (\<lambda>key. length (by_stop (the (map_of (rd_byGroup s) key)))) keys), fl_ungrouped = rd_ungrouped s,
      fl_skippedRows = rd_skipped s, fl_missing = [], fl_header = file_header table\<rparr>"
proof -
  define ordered where "ordered = map (\<lambda>key. by_stop (the (map_of (rd_byGroup s) key))) keys"
  obtain colors where colors: "groupColors (map (map point_of) ordered) = Some colors" "length colors = length keys"
    using groupColors_there [of "map (map point_of) ordered"] by (auto simp: ordered_def)
  have missing: "filter (\<lambda>name. name \<notin> set (file_header table)) required_columns = []"
    using assms(4) by (auto simp: filter_empty_conv)
  have "map (\<lambda>(key, rows, color). group_of_rows key rows (the (map_of (rd_summary s) key)) color) (zip keys (zip ordered colors)) =
      map (\<lambda>(key, color). group_of_rows key (by_stop (the (map_of (rd_byGroup s) key))) (the (map_of (rd_summary s) key)) color) (zip keys colors)"
    by (rule nth_equalityI) (simp_all add: ordered_def colors(2))
  then have "readGroupFile cmp chars = Some
     \<lparr>fl_groups = map (\<lambda>(key, color). group_of_rows key (by_stop (the (map_of (rd_byGroup s) key))) (the (map_of (rd_summary s) key)) color) (zip keys colors),
      fl_placed = sum_list (map (\<lambda>key. length (by_stop (the (map_of (rd_byGroup s) key)))) keys), fl_ungrouped = rd_ungrouped s,
      fl_skippedRows = rd_skipped s, fl_missing = [], fl_header = file_header table\<rparr>"
    unfolding readGroupFile_def Let_def table_def [symmetric] missing s_def [symmetric] keys_def [symmetric] ordered_def [symmetric] colors(1)
    by (simp add: ordered_def comp_def)
  then show ?thesis by (rule that [OF colors(2)])
qed

definition in_visiting_order :: "file_group \<Rightarrow> bool" where
  "in_visiting_order g \<longleftrightarrow> fg_rows g \<noteq> [] \<and> list_all (\<lambda>r. fr_group r = fg_key g) (fg_rows g) \<and> sorted (map visiting_place (fg_rows g))"

text \<open>
  Every row of a groups file is somewhere, once. The file is read whatever it holds; and when it
  has the columns it has to have, the rows in groups, those in none and those left off the map are
  the rows that say something. A group has a row at least, all of them its own, in visiting order.
\<close>

theorem group_file_accounts:
  assumes "set required_columns \<subseteq> set (file_header (parseCsv chars))"
  shows "\<exists>file. readGroupFile cmp chars = Some file \<and> fl_missing file = [] \<and>
    mset (map fr_rowNumber (concat (map fg_rows (fl_groups file)) @ fl_ungrouped file) @ fl_skippedRows file) =
      mset (said_rows (enumerate 0 (parseCsv chars))) \<and>
    distinct (map fg_key (fl_groups file)) \<and> list_all in_visiting_order (fl_groups file) \<and>
    fl_placed file = length (concat (map fg_rows (fl_groups file)))"
proof -
  define table where "table = parseCsv chars"
  define s where "s = read_rows (file_header table) table"
  define keys where "keys = sort_cmp cmp (map fst (rd_byGroup s))"
  obtain colors where n: "length colors = length keys" and read: "readGroupFile cmp chars = Some
     \<lparr>fl_groups = map (\<lambda>(key, color). group_of_rows key (by_stop (the (map_of (rd_byGroup s) key))) (the (map_of (rd_summary s) key)) color) (zip keys colors),
      fl_placed = sum_list (map (\<lambda>key. length (by_stop (the (map_of (rd_byGroup s) key)))) keys), fl_ungrouped = rd_ungrouped s,
      fl_skippedRows = rd_skipped s, fl_missing = [], fl_header = file_header table\<rparr>" (is "_ = Some ?file")
    using readGroupFile_reads [OF assms, of cmp] unfolding keys_def s_def table_def by blast
  have ok: "reading_ok (said_rows (enumerate 0 table)) s" unfolding s_def by (rule read_rows_ok)
  let ?rows = "\<lambda>key. by_stop (the (map_of (rd_byGroup s) key))"
  have rows: "map fg_rows (fl_groups ?file) = map ?rows keys"
    by (rule nth_equalityI) (simp_all add: n group_of_rows_def Let_def)
  have keys: "map fg_key (fl_groups ?file) = keys"
    by (rule nth_equalityI) (simp_all add: n group_of_rows_def Let_def)
  have mset_keys: "mset keys = mset (map fst (rd_byGroup s))" by (simp add: keys_def)
  have groups: "mset (concat (map fg_rows (fl_groups ?file))) = mset (concat (map snd (rd_byGroup s)))"
    unfolding rows by (rule concat_of_keys) (use ok mset_keys in \<open>auto simp: reading_ok_def\<close>)
  then have "mset (map fr_rowNumber (concat (map fg_rows (fl_groups ?file)))) = mset (map fr_rowNumber (concat (map snd (rd_byGroup s))))"
    by (simp only: mset_map)
  moreover have "distinct keys" using mset_keys ok by (metis mset_eq_imp_distinct_iff reading_ok_def)
  moreover have "in_visiting_order g" if g: "g \<in> set (fl_groups ?file)" for g
  proof -
    obtain key where key: "key \<in> set keys" "fg_key g = key" "fg_rows g = ?rows key"
      using g by (auto simp: group_of_rows_def Let_def dest: set_zip_leftD)
    then obtain found where found: "(key, found) \<in> set (rd_byGroup s)" by (auto simp: keys_def)
    then have "keyed_rows (key, found)" "map_of (rd_byGroup s) key = Some found"
      using ok by (auto simp: reading_ok_def list_all_iff)
    then show ?thesis using key(2,3) by (auto simp: in_visiting_order_def keyed_rows_def list_all_iff)
  qed
  moreover have "fl_placed ?file = length (concat (map fg_rows (fl_groups ?file)))"
    unfolding rows by (simp add: length_concat comp_def)
  ultimately show ?thesis using read ok keys by (auto simp: reading_ok_def list_all_iff table_def)
qed

end
