(* ===== verification/Group_Export.thy ===== *)
theory Group_Export
  imports Group_File
begin

text \<open>
  From a groups file to work on it and back: \<open>propertiesOf\<close>, \<open>routeMiles\<close>, \<open>groupArea\<close>, \<open>fromFile\<close> and
  \<open>exportCsv\<close> of \<open>web/components/planning/manual-grouping.ts\<close>.
\<close>

section \<open>What a group is judged by\<close>







section \<open>Starting from a file\<close>

record started_group =
  sg_id :: string
  sg_name :: string
  sg_color :: string
  sg_target :: real
  sg_stops :: "int list"

text \<open>The ids \<open>newGroupId\<close> gives are a parameter.\<close>

definition fromFile :: "(nat \<Rightarrow> string) \<Rightarrow> group_file \<Rightarrow> started_group list" where
  "fromFile ids file = map (\<lambda>(i, g).
     \<lparr>sg_id = ids i, sg_name = (case gf_name (fg_figures g) of None \<Rightarrow> ''Group '' @ fg_key g | Some name \<Rightarrow> name),
      sg_color = gc_fill (fg_color g), sg_target = max (fg_size g) (real (length (fg_rows g))),
      sg_stops = map (\<lambda>r. int (fr_rowNumber r)) (fg_rows g)\<rparr>) (enumerate 0 (fl_groups file))"

section \<open>The export\<close>

















section \<open>Cells written and read\<close>







lemma cell_at_trim [simp]: "js_trim (cell_at header row name) = cell_at header row name"
  by (simp add: cell_at_def sheet_cell_def split: option.split) (simp add: js_trim_def)

















section \<open>Reading block by block\<close>

definition entries :: "string list \<Rightarrow> nat \<Rightarrow> string list list \<Rightarrow> group_row list" where
  "entries header n rows = map (\<lambda>(i, row). row_entry header (Suc i) row) (enumerate n rows)"

lemma entries_simps [simp]: "entries header n [] = []"
  "entries header n (row # rows) = row_entry header (Suc n) row # entries header (Suc n) rows"
  by (simp_all add: entries_def)


lemma entry_group [simp]: "fr_group (row_entry header n row) = cell_at header row ''group''"
  by (simp add: row_entry_def Let_def)









section \<open>The export read\<close>




lemma entries_length [simp]: "length (entries header n rows) = length rows"
  by (simp add: entries_def)












section \<open>What a file holds came from it\<close>








section \<open>Two houses\<close>

definition house_sheet :: string where
  "house_sheet = csv_text [[''group'', ''address'', ''latitude'', ''longitude''], [''1'', ''1 Oak St'', ''29'', ''-95''], [[], ''2 Elm St'', ''30.5'', ''-96'']]"

lemma house_table:
  "parseCsv house_sheet = [[''group'', ''address'', ''latitude'', ''longitude''], [''1'', ''1 Oak St'', ''29'', ''-95''], [[], ''2 Elm St'', ''30.5'', ''-96'']]"
  unfolding house_sheet_def by (rule csv_read) simp_all

definition house_header :: "string list" where
  "house_header = [''group'', ''address'', ''latitude'', ''longitude'']"

lemma house_file_header: "file_header (parseCsv house_sheet) = house_header"
  unfolding house_table by code_simp






definition numerals_first :: "string \<Rightarrow> string \<Rightarrow> int" where
  "numerals_first x y = (case (js_number x, js_number y) of (Some m, Some n) \<Rightarrow> if m \<le> n then - 1 else 1 | _ \<Rightarrow> 0)"





theorem group_file_accounts_witness:
  "\<exists>file. readGroupFile numerals_first house_sheet = Some file \<and>
    mset (map fr_rowNumber (concat (map fg_rows (fl_groups file)) @ fl_ungrouped file) @ fl_skippedRows file) = {#2, 3#}"
proof -
  have "set required_columns \<subseteq> set (file_header (parseCsv house_sheet))" by (simp add: house_file_header house_header_def required_columns_def)
  moreover have "said_rows (enumerate 0 (parseCsv house_sheet)) = [2, 3]" unfolding house_table by code_simp
  ultimately show ?thesis using group_file_accounts [of house_sheet numerals_first] by auto
qed

end
