(* ===== verification/Spec2Isabelle.thy ===== *)
theory Spec2Isabelle
  imports Zone_Rotation Lease_Schedule Day_Ledger Route_Plan Session_Service
    Mutation_Queue Day_Layout_Safe Group_Ops_Diff Template_Together Route_Store Route_Order Group_Export
begin

text \<open>
  A verification development for the planning core of the inspection app: how a quarter of
  benefit-package visits is planned, driven, worked and paid, and how its people sign in and edit.

  \<^bold>\<open>The program and its parts.\<close> \<open>src/shared\<close> holds the rules as pure functions that the server, the
  console and the phones share; \<open>src/backend\<close> runs them over the database; \<open>src/mobile\<close> queues what a
  technician saves until it can be sent. A quarter is opened for planning (\<open>Quarter_Plan\<close>), its
  days are the working days less the Mondays kept for rescheduled visits (\<open>Zone_Rotation\<close>), its
  visits and those a lease owes (\<open>Lease_Schedule\<close>) are grouped into days and the days given to
  technicians (\<open>Day_Paths\<close>, \<open>Day_Groups\<close>, \<open>Day_Layout\<close>) or taken from the office's own grouping,
  edited live by several people (\<open>Group_Ops\<close>); each day is put in driving order (\<open>Held_Karp\<close>,
  \<open>Local_Search\<close>, \<open>Route_Plan\<close>); the trail of the phone becomes paid time (\<open>Day_Ledger\<close>).

  \<^bold>\<open>Theories and sources.\<close>
  \<^item> \<open>Prelude\<close>, \<open>Calendar\<close>, \<open>Geo\<close>: the part of the JavaScript library the sources lean on (stable
    sort by a comparator, dates as day numbers in the proleptic Gregorian calendar, strings), and
    great-circle distances.
  \<^item> \<open>Quarter_Plan\<close>: \<open>contracts/quarter-plan.ts\<close>. Holidays, working days, the order tenants come round in.
  \<^item> \<open>Zone_Rotation\<close>: \<open>contracts/zone-rotation.ts\<close>. Plan days, reschedule Mondays, zones by technician.
  \<^item> \<open>Lease_Schedule\<close>: \<open>leases/lease-expiry.ts\<close>, \<open>leases/lease-inspections.ts\<close>.
  \<^item> \<open>Travel_Times\<close>, \<open>Held_Karp\<close>, \<open>Local_Search\<close>, \<open>Route_Plan\<close>: \<open>contracts/route-plan.ts\<close>. The exact
    subset search with its bit masks, nearest neighbour and 2-opt, the open path.
  \<^item> \<open>Day_Paths\<close>, \<open>Day_Groups\<close>, \<open>Day_Layout\<close>: \<open>contracts/quarter-assignment.ts\<close>, in the order of the
    file. The \<open>_Correct\<close> and \<open>_Safe\<close> theories hold their invariants.
  \<^item> \<open>Day_Ledger\<close>: \<open>contracts/time-segments.ts\<close>.
  \<^item> \<open>Session_Service\<close>: \<open>backend/src/auth/session.service.ts\<close> and \<open>token.service.ts\<close>, as a step function
    over the credentials and session rows.
  \<^item> \<open>Mutation_Queue\<close>: \<open>mobile/src/storage/mutation-queue.ts\<close>, over the stored queue.
  \<^item> \<open>Group_Ops\<close>, \<open>Group_Ops_Proper\<close>, \<open>Group_Ops_Names\<close>, \<open>Group_Ops_Tame\<close>, \<open>Group_Ops_Diff\<close>:
    \<open>contracts/group-template-ops.ts\<close>.
  \<^item> \<open>Template_Service\<close>, \<open>Template_Rows\<close>: \<open>backend/src/planning/group-template.service.ts\<close>, an operation a
    transaction over the rows of templates, groups and stops, with what they write to the audit log;
    \<open>setActive\<close> is two steps, what it checks and its transaction, and others may come between.
  \<^item> \<open>Template_Sync\<close>, \<open>Group_Maker\<close>: \<open>web/components/planning/template-sync.ts\<close>, cut at its awaits, and the
    side of \<open>group-maker.ts\<close> and \<open>group-maker-view.tsx\<close> that edits with it. \<open>Template_Live\<close> puts the service,
    the network and the engines together; \<open>Template_Alive\<close> is that changes do not get stuck,
    \<open>Template_Together\<close> that editors come to see the same, and where they do not.
  \<^item> \<open>Manual_Grouping\<close>: \<open>web/components/planning/manual-grouping.ts\<close>. Edits, the history, clicks, the
    fingerprints' hash on words of 32 bits, saving and resuming.
  \<^item> \<open>Road_Routes\<close>, \<open>Polyline\<close>, \<open>Route_Store\<close>: \<open>web/components/planning/road-routes.ts\<close>. A drive from the
    answers for its runs of 25 stops; the text a line is kept as, on words of 32 bits; the store of
    routes as a machine whose events are what is asked, what the network answers, and the sleeps
    before a request's slot and after a refusal coming to an end, a sleep never early but maybe late.
  \<^item> \<open>Route_Order\<close>: \<open>web/components/planning/route-order.ts\<close>, over the exact search of \<open>Held_Karp\<close>.
  \<^item> \<open>Csv\<close>: \<open>parseCsv\<close> and \<open>readOfficeSheet\<close> of \<open>web/lib/planning.ts\<close>, and the cells the export writes.
  \<^item> \<open>Outline\<close>, \<open>Group_Colors\<close>: \<open>groupOutline\<close> and \<open>groupColors\<close> of
    \<open>web/components/planning/group-file.ts\<close>, the monotone chain and the choice of colours in OKLab.
  \<^item> \<open>Group_File\<close>: \<open>readGroupFile\<close> of the same file, from the text to the groups and the rows of each.
    \<open>Group_Export\<close>: what \<open>manual-grouping.ts\<close> starts from such a file and the file it writes.

  A definition has the name of the function it models; a local closure or a loop body has a name of
  its own and takes the variables it captures as arguments. Objects are records, string unions
  datatypes, \<open>Map\<close> an association list where its order shows and a map where it does not, \<open>null\<close> and
  \<open>undefined\<close> \<open>None\<close>. A class with state is a record passed through its methods.

  \<^bold>\<open>What the lemmas show.\<close> Nothing is lost and nothing is doubled: every visit of a quarter ends at
  one place of one day or in the list of those not placed, with a technician who works that day and
  is qualified, once a date; days keep their limits; orders found are permutations, and optimal
  where the code says so; the stretches of a day leave no hole and their seconds add up; the queue
  on the phone is a map from a target to its last write; batches of edits keep a template proper and
  the difference of two templates makes the one into the other; one handset per technician under any
  sequence of sign-ins, refreshes and sign-outs. The template service refuses a save over what was
  not seen; a change made live is answered, refused or still on its way, and an editor that has
  caught up sees the template. A property grouped by hand is in one group through undo and redo; a
  route is asked for once, in a slot a gap from every other, answered or shown as failed, and is the
  drive through the stops asked for, from the network or from the storage; what is written to a file,
  a line or the browser's storage comes back, and groups exported are read again as they were made.

  \<^bold>\<open>Bounds and fuel.\<close> Loops the code bounds keep its bounds (\<open>MAX_IMPROVEMENT_ROUNDS\<close>,
  \<open>EVENING_ROUNDS\<close>, three rounds of renaming). The others are functions with a termination proof, on
  the cost of an order or on what is left; the turns given to \<open>fill_up\<close> are as many as a group can take, and
  a lemma shows they are enough. The search for a free group name is an \<open>option\<close>: it can run for
  ever, at \<open>2 ^ 53\<close>. What is shown of live editing asks for numbers in names below \<open>2 ^ 50\<close> and fewer than
  \<open>10 ^ 9\<close> groups and batches; a batch has at most 500 operations. Differences along a line are below
  \<open>2 ^ 28\<close> in the fifth decimal, which the globe keeps to. The order search makes 100 passes, and is
  exact up to 13 stops (14 with the first one held).

  \<^bold>\<open>Assumptions of the model.\<close> Fractions are real numbers, exact where the program rounds to
  doubles; integers stay below \<open>2 ^ 53\<close>. \<open>toLowerCase\<close> and \<open>trim\<close> are those of ASCII.
  \<open>localeCompare\<close> is a parameter, any total order, with numerals in the order of their numbers where
  the source asks for that; so are the road times, password hashing, token
  hashing and identifiers. The keys of an object are in the order they were put in. The ids of
  visits are distinct, not empty, without a bar, and do not start with the prefix the code
  keeps for appointments. No column of a file is named like a member every object has (\<open>constructor\<close>). An operation on the store of the phone or on the database is one step,
  \<open>setActive\<close> apart; \<open>Mutation_Queue\<close> shows what two on the phone at once can lose.
  \<open>randomUUID\<close> gives ids not seen before; the network may lose, repeat and reorder what it carries. The
  texts \<open>toFixed\<close> gives (keys of points and routes) and what the browser's storage has room for are
  parameters. A character of a file has 8 bits.

  \<^bold>\<open>Not modelled.\<close> The user interfaces, HTTP and socket plumbing, Prisma queries that only read
  and reshape rows, the integrations (Jobber, Propertyware, Google, AWS), media processing, and
  the checklists and wordings that are data rather than rules.
\<close>

end
